(* ===== verification/Prelude.thy ===== *)
theory Prelude
  imports Main "HOL-Library.Word"
begin

text \<open>
  Shared vocabulary of the development: byte buffers and the \<^verbatim>\<open>memcpy\<close>-style update of a
  buffer region, optional heads and lasts of lists (a \<^verbatim>\<open>NULL\<close> or non-\<^verbatim>\<open>NULL\<close> pointer to the
  first or last element), the small arithmetic helpers of \<^verbatim>\<open>misc/balign.h\<close> and
  \<^verbatim>\<open>misc/minmax.h\<close>, and the theorem collections the component proofs draw on.
\<close>

named_theorems flow_defs \<open>definitions of handlers and operations, for unfolding\<close>
named_theorems buffer_simps \<open>rewriting of buffer regions\<close>

subsection \<open>Machine types\<close>

type_synonym byte = "8 word"
type_synonym u16 = "16 word"
type_synonym u32 = "32 word"
type_synonym u64 = "64 word"

abbreviation INT_MAX :: int where "INT_MAX \<equiv> 2147483647"
abbreviation UINT16_MAX :: int where "UINT16_MAX \<equiv> 65535"
abbreviation UINT32_MAX :: int where "UINT32_MAX \<equiv> 4294967295"

subsection \<open>Buffer regions\<close>

text \<open>\<open>overwrite off src dst\<close> is the buffer \<open>dst\<close> after \<^verbatim>\<open>memcpy(dst + off, src, len)\<close>;
  \<open>slice off len buf\<close> is the region \<^verbatim>\<open>buf[off .. off+len)\<close>.\<close>

definition overwrite :: "nat \<Rightarrow> 'a list \<Rightarrow> 'a list \<Rightarrow> 'a list" where
  "overwrite off src dst = take off dst @ src @ drop (off + length src) dst"

definition slice :: "nat \<Rightarrow> nat \<Rightarrow> 'a list \<Rightarrow> 'a list" where
  "slice off len xs = take len (drop off xs)"

lemma length_overwrite [simp]:
  "off + length src \<le> length dst \<Longrightarrow> length (overwrite off src dst) = length dst"
  by (simp add: overwrite_def)

lemma length_slice [simp]:
  "off + len \<le> length xs \<Longrightarrow> length (slice off len xs) = len"
  by (simp add: slice_def)

lemma slice_0 [simp]: "slice off 0 xs = []"
  by (simp add: slice_def)

lemma nth_overwrite:
  "off + length src \<le> length dst \<Longrightarrow> i < length dst \<Longrightarrow>
   overwrite off src dst ! i =
     (if off \<le> i \<and> i < off + length src then src ! (i - off) else dst ! i)"
  by (auto simp: overwrite_def nth_append min_def)

lemma nth_slice [simp]:
  "off + len \<le> length xs \<Longrightarrow> i < len \<Longrightarrow> slice off len xs ! i = xs ! (off + i)"
  by (simp add: slice_def)

lemma slice_overwrite_same [buffer_simps]:
  "off + length src \<le> length dst \<Longrightarrow> slice off (length src) (overwrite off src dst) = src"
  by (simp add: slice_def overwrite_def)

lemma slice_overwrite_disjoint [buffer_simps]:
  assumes "off + length src \<le> length dst" and "o' + len \<le> length dst"
    and "o' + len \<le> off \<or> off + length src \<le> o'"
  shows "slice o' len (overwrite off src dst) = slice o' len dst"
  by (rule nth_equalityI) (use assms in \<open>auto simp: nth_overwrite\<close>)

lemma slice_append_slice:
  "slice off a xs @ slice (off + a) b xs = slice off (a + b) xs"
  by (simp add: slice_def take_add add.commute)

lemma slice_overwrite_extend:
  "off + len + length src \<le> length dst \<Longrightarrow>
   slice off (len + length src) (overwrite (off + len) src dst) = slice off len dst @ src"
proof -
  assume a: "off + len + length src \<le> length dst"
  have "slice off (len + length src) (overwrite (off + len) src dst) =
        slice off len (overwrite (off + len) src dst) @
        slice (off + len) (length src) (overwrite (off + len) src dst)"
    by (simp add: slice_append_slice)
  with a show ?thesis by (simp add: buffer_simps)
qed

lemma slice_slice:
  "i + n \<le> len \<Longrightarrow> slice i n (slice off len xs) = slice (off + i) n xs"
  by (simp add: slice_def drop_take min_def add.commute)

lemma take_slice: "n \<le> len \<Longrightarrow> take n (slice off len xs) = slice off n xs"
  by (simp add: slice_def min_def)

lemma drop_slice: "drop n (slice off len xs) = slice (off + n) (len - n) xs"
  by (simp add: slice_def drop_take add.commute)

subsection \<open>Optional first and last elements\<close>

definition hd_opt :: "'a list \<Rightarrow> 'a option" where
  "hd_opt xs = (case xs of [] \<Rightarrow> None | x # _ \<Rightarrow> Some x)"

definition last_opt :: "'a list \<Rightarrow> 'a option" where
  "last_opt xs = (if xs = [] then None else Some (last xs))"

lemma hd_opt_simps [simp]:
  "hd_opt [] = None" "hd_opt (x # xs) = Some x"
  by (simp_all add: hd_opt_def)

lemma last_opt_simps [simp]:
  "last_opt [] = None" "last_opt [x] = Some x" "last_opt (x # y # zs) = last_opt (y # zs)"
  "last_opt (xs @ [x]) = Some x" "last_opt (y # xs @ [x]) = Some x"
  by (simp_all add: last_opt_def)

lemma last_opt_append: "last_opt (xs @ ys) = (if ys = [] then last_opt xs else last_opt ys)"
  by (simp add: last_opt_def)

lemma last_opt_Cons: "last_opt (x # xs) = (if xs = [] then Some x else last_opt xs)"
  by (simp add: last_opt_def)

lemma hd_opt_append: "hd_opt (xs @ ys) = (if xs = [] then hd_opt ys else hd_opt xs)"
  by (cases xs) simp_all

lemma hd_opt_eq_None [simp]: "hd_opt xs = None \<longleftrightarrow> xs = []"
  by (cases xs) simp_all

lemma last_opt_eq_None [simp]: "last_opt xs = None \<longleftrightarrow> xs = []"
  by (simp add: last_opt_def)

lemma hd_opt_SomeD: "hd_opt xs = Some x \<Longrightarrow> \<exists>ys. xs = x # ys"
  by (cases xs) simp_all

lemma last_opt_SomeD: "last_opt xs = Some x \<Longrightarrow> \<exists>ys. xs = ys @ [x]"
  by (cases xs rule: rev_cases) (simp_all add: last_opt_append last_opt_Cons)

lemma remove1_middle: "a \<notin> set xs \<Longrightarrow> remove1 a (xs @ a # ys) = xs @ ys"
  by (simp add: remove1_append)

subsection \<open>Arithmetic helpers of \<^verbatim>\<open>misc/\<close>\<close>

definition bdivide_up :: "nat \<Rightarrow> nat \<Rightarrow> nat" where
  "bdivide_up a b = (let r = a mod b in if r > 0 then a div b + 1 else a div b)"

definition bmin_int :: "int \<Rightarrow> int \<Rightarrow> int" where
  "bmin_int a b = (if a < b then a else b)"

definition bmax_uint64 :: "u64 \<Rightarrow> u64 \<Rightarrow> u64" where
  "bmax_uint64 a b = (if a > b then a else b)"

lemma bmin_int_min [simp]: "bmin_int a b = min a b"
  by (simp add: bmin_int_def min_def)

lemma bmax_uint64_max [simp]: "bmax_uint64 a b = max a b"
  by (auto simp: bmax_uint64_def max_def)

lemma bdivide_up_ge: "0 < b \<Longrightarrow> a \<le> b * bdivide_up a b"
  by (auto simp: bdivide_up_def Let_def)
     (metis add.commute add_le_cancel_left less_imp_le mod_less_divisor mult_div_mod_eq)

lemma bdivide_up_less: "0 < b \<Longrightarrow> b * bdivide_up a b < a + b"
  by (auto simp: bdivide_up_def Let_def)
     (metis add.commute less_add_same_cancel1 mult_div_mod_eq)

lemma bdivide_up_le_iff: "0 < b \<Longrightarrow> bdivide_up a b \<le> k \<longleftrightarrow> a \<le> b * k"
proof
  assume b: "0 < b" and "bdivide_up a b \<le> k"
  then have "b * bdivide_up a b \<le> b * k" by simp
  with bdivide_up_ge [OF b, of a] show "a \<le> b * k" by linarith
next
  assume b: "0 < b" and "a \<le> b * k"
  with bdivide_up_less [OF b, of a] have "b * bdivide_up a b < b * Suc k"
    by simp
  then have "bdivide_up a b < Suc k" by (simp only: nat_mult_less_cancel_disj)
  then show "bdivide_up a b \<le> k" by simp
qed

lemma bdivide_up_mono: "0 < b \<Longrightarrow> a \<le> a' \<Longrightarrow> bdivide_up a b \<le> bdivide_up a' b"
  using bdivide_up_ge [of b a'] by (simp add: bdivide_up_le_iff)

end
