(* ===== verification/ByteOrder.thy ===== *)
theory ByteOrder
  imports Prelude
begin

text \<open>
  Byte order helpers, \<^verbatim>\<open>misc/byteorder.h\<close> and \<^verbatim>\<open>misc/read_write_int.h\<close>, as built with
  \<^verbatim>\<open>BADVPN_LITTLE_ENDIAN\<close>: the object representation of an integer is its little-endian byte
  list (\<open>mem_bytes\<close>), \<^verbatim>\<open>hton\<close> reverses the bytes and \<^verbatim>\<open>htol\<close> is the identity.  A pointer is the
  list of the bytes it points to.
\<close>

unbundle bit_operations_syntax

subsection \<open>Reading and writing integers in memory\<close>

definition badvpn_read_le8 :: "byte list \<Rightarrow> 8 word" where
  "badvpn_read_le8 p =
     push_bit 0 (ucast (p ! 0))"

definition badvpn_read_le16 :: "byte list \<Rightarrow> 16 word" where
  "badvpn_read_le16 p =
     push_bit 8 (ucast (p ! 1)) OR push_bit 0 (ucast (p ! 0))"

definition badvpn_read_le32 :: "byte list \<Rightarrow> 32 word" where
  "badvpn_read_le32 p =
     push_bit 24 (ucast (p ! 3)) OR push_bit 16 (ucast (p ! 2)) OR push_bit 8 (ucast (p ! 1)) OR
     push_bit 0 (ucast (p ! 0))"

definition badvpn_read_le64 :: "byte list \<Rightarrow> 64 word" where
  "badvpn_read_le64 p =
     push_bit 56 (ucast (p ! 7)) OR push_bit 48 (ucast (p ! 6)) OR push_bit 40 (ucast (p ! 5)) OR
     push_bit 32 (ucast (p ! 4)) OR push_bit 24 (ucast (p ! 3)) OR push_bit 16 (ucast (p ! 2)) OR
     push_bit 8 (ucast (p ! 1)) OR push_bit 0 (ucast (p ! 0))"

definition badvpn_read_be8 :: "byte list \<Rightarrow> 8 word" where
  "badvpn_read_be8 p =
     push_bit 0 (ucast (p ! 0))"

definition badvpn_read_be16 :: "byte list \<Rightarrow> 16 word" where
  "badvpn_read_be16 p =
     push_bit 8 (ucast (p ! 0)) OR push_bit 0 (ucast (p ! 1))"

definition badvpn_read_be32 :: "byte list \<Rightarrow> 32 word" where
  "badvpn_read_be32 p =
     push_bit 24 (ucast (p ! 0)) OR push_bit 16 (ucast (p ! 1)) OR push_bit 8 (ucast (p ! 2)) OR
     push_bit 0 (ucast (p ! 3))"

definition badvpn_read_be64 :: "byte list \<Rightarrow> 64 word" where
  "badvpn_read_be64 p =
     push_bit 56 (ucast (p ! 0)) OR push_bit 48 (ucast (p ! 1)) OR push_bit 40 (ucast (p ! 2)) OR
     push_bit 32 (ucast (p ! 3)) OR push_bit 24 (ucast (p ! 4)) OR push_bit 16 (ucast (p ! 5)) OR
     push_bit 8 (ucast (p ! 6)) OR push_bit 0 (ucast (p ! 7))"

definition badvpn_write_le8 :: "8 word \<Rightarrow> byte list \<Rightarrow> byte list" where
  "badvpn_write_le8 x p =
     p[0 := ucast (drop_bit 0 x)]"

definition badvpn_write_le16 :: "16 word \<Rightarrow> byte list \<Rightarrow> byte list" where
  "badvpn_write_le16 x p =
     p[1 := ucast (drop_bit 8 x), 0 := ucast (drop_bit 0 x)]"

definition badvpn_write_le32 :: "32 word \<Rightarrow> byte list \<Rightarrow> byte list" where
  "badvpn_write_le32 x p =
     p[3 := ucast (drop_bit 24 x), 2 := ucast (drop_bit 16 x), 1 := ucast (drop_bit 8 x),
       0 := ucast (drop_bit 0 x)]"

definition badvpn_write_le64 :: "64 word \<Rightarrow> byte list \<Rightarrow> byte list" where
  "badvpn_write_le64 x p =
     p[7 := ucast (drop_bit 56 x), 6 := ucast (drop_bit 48 x), 5 := ucast (drop_bit 40 x),
       4 := ucast (drop_bit 32 x), 3 := ucast (drop_bit 24 x), 2 := ucast (drop_bit 16 x),
       1 := ucast (drop_bit 8 x), 0 := ucast (drop_bit 0 x)]"

definition badvpn_write_be8 :: "8 word \<Rightarrow> byte list \<Rightarrow> byte list" where
  "badvpn_write_be8 x p =
     p[0 := ucast (drop_bit 0 x)]"

definition badvpn_write_be16 :: "16 word \<Rightarrow> byte list \<Rightarrow> byte list" where
  "badvpn_write_be16 x p =
     p[0 := ucast (drop_bit 8 x), 1 := ucast (drop_bit 0 x)]"

definition badvpn_write_be32 :: "32 word \<Rightarrow> byte list \<Rightarrow> byte list" where
  "badvpn_write_be32 x p =
     p[0 := ucast (drop_bit 24 x), 1 := ucast (drop_bit 16 x), 2 := ucast (drop_bit 8 x),
       3 := ucast (drop_bit 0 x)]"

definition badvpn_write_be64 :: "64 word \<Rightarrow> byte list \<Rightarrow> byte list" where
  "badvpn_write_be64 x p =
     p[0 := ucast (drop_bit 56 x), 1 := ucast (drop_bit 48 x), 2 := ucast (drop_bit 40 x),
       3 := ucast (drop_bit 32 x), 4 := ucast (drop_bit 24 x), 5 := ucast (drop_bit 16 x),
       6 := ucast (drop_bit 8 x), 7 := ucast (drop_bit 0 x)]"

subsection \<open>Object representation and byte reversal\<close>

definition mem_bytes16 :: "16 word \<Rightarrow> byte list" where
  "mem_bytes16 x =
     [ucast x, ucast (drop_bit 8 x)]"

definition mem_bytes32 :: "32 word \<Rightarrow> byte list" where
  "mem_bytes32 x =
     [ucast x, ucast (drop_bit 8 x), ucast (drop_bit 16 x), ucast (drop_bit 24 x)]"

definition mem_bytes64 :: "64 word \<Rightarrow> byte list" where
  "mem_bytes64 x =
     [ucast x, ucast (drop_bit 8 x), ucast (drop_bit 16 x), ucast (drop_bit 24 x),
      ucast (drop_bit 32 x), ucast (drop_bit 40 x), ucast (drop_bit 48 x), ucast (drop_bit 56 x)]"

definition badvpn_reverse16 :: "16 word \<Rightarrow> 16 word" where
  "badvpn_reverse16 x = badvpn_read_le16 [mem_bytes16 x ! 1, mem_bytes16 x ! 0]"

definition badvpn_reverse32 :: "32 word \<Rightarrow> 32 word" where
  "badvpn_reverse32 x = badvpn_read_le32 [mem_bytes32 x ! 3, mem_bytes32 x ! 2, mem_bytes32 x ! 1, mem_bytes32 x ! 0]"

definition badvpn_reverse64 :: "64 word \<Rightarrow> 64 word" where
  "badvpn_reverse64 x = badvpn_read_le64 [mem_bytes64 x ! 7, mem_bytes64 x ! 6, mem_bytes64 x ! 5, mem_bytes64 x ! 4, mem_bytes64 x ! 3, mem_bytes64 x ! 2, mem_bytes64 x ! 1, mem_bytes64 x ! 0]"

definition hton16 :: "16 word \<Rightarrow> 16 word" where
  "hton16 x = badvpn_reverse16 x"

definition htol16 :: "16 word \<Rightarrow> 16 word" where
  "htol16 x = x"

definition ntoh16 :: "16 word \<Rightarrow> 16 word" where
  "ntoh16 x = hton16 x"

definition ltoh16 :: "16 word \<Rightarrow> 16 word" where
  "ltoh16 x = htol16 x"

definition hton32 :: "32 word \<Rightarrow> 32 word" where
  "hton32 x = badvpn_reverse32 x"

definition htol32 :: "32 word \<Rightarrow> 32 word" where
  "htol32 x = x"

definition ntoh32 :: "32 word \<Rightarrow> 32 word" where
  "ntoh32 x = hton32 x"

definition ltoh32 :: "32 word \<Rightarrow> 32 word" where
  "ltoh32 x = htol32 x"

definition hton64 :: "64 word \<Rightarrow> 64 word" where
  "hton64 x = badvpn_reverse64 x"

definition htol64 :: "64 word \<Rightarrow> 64 word" where
  "htol64 x = x"

definition ntoh64 :: "64 word \<Rightarrow> 64 word" where
  "ntoh64 x = hton64 x"

definition ltoh64 :: "64 word \<Rightarrow> 64 word" where
  "ltoh64 x = htol64 x"

definition hton8 :: "byte \<Rightarrow> byte" where
  "hton8 x = x"

definition htol8 :: "byte \<Rightarrow> byte" where
  "htol8 x = x"

definition ntoh8 :: "byte \<Rightarrow> byte" where
  "ntoh8 x = hton8 x"

definition ltoh8 :: "byte \<Rightarrow> byte" where
  "ltoh8 x = htol8 x"

subsection \<open>Round trips\<close>

lemma bit_byte_part:
  fixes x :: "'a::len word"
  shows "bit (push_bit s (ucast (ucast (drop_bit s x) :: byte)) :: 'a word) n \<longleftrightarrow>
           s \<le> n \<and> n < s + 8 \<and> bit x n"
  by (auto simp: bit_simps dest: bit_imp_le_length)

lemma bit_byte_part0:
  fixes x :: "'a::len word"
  shows "bit (ucast (ucast x :: byte) :: 'a word) n \<longleftrightarrow> n < 8 \<and> bit x n"
  using bit_byte_part [of 0 x n] by simp

text \<open>An integer is the disjunction of its shifted bytes.\<close>

lemma join_bytes16:
  fixes x :: "16 word"
  shows "push_bit 8 (ucast (ucast (drop_bit 8 x) :: byte)) OR ucast (ucast x :: byte) = x"
  by (rule bit_word_eqI) (auto simp: bit_or_iff bit_byte_part bit_byte_part0)

lemma join_bytes32:
  fixes x :: "32 word"
  shows "push_bit 24 (ucast (ucast (drop_bit 24 x) :: byte)) OR push_bit 16 (ucast (ucast (drop_bit 16 x) :: byte)) OR
     push_bit 8 (ucast (ucast (drop_bit 8 x) :: byte)) OR ucast (ucast x :: byte) = x"
  by (rule bit_word_eqI) (auto simp: bit_or_iff bit_byte_part bit_byte_part0)

lemma join_bytes64:
  fixes x :: "64 word"
  shows "push_bit 56 (ucast (ucast (drop_bit 56 x) :: byte)) OR push_bit 48 (ucast (ucast (drop_bit 48 x) :: byte)) OR
     push_bit 40 (ucast (ucast (drop_bit 40 x) :: byte)) OR push_bit 32 (ucast (ucast (drop_bit 32 x) :: byte)) OR
     push_bit 24 (ucast (ucast (drop_bit 24 x) :: byte)) OR push_bit 16 (ucast (ucast (drop_bit 16 x) :: byte)) OR
     push_bit 8 (ucast (ucast (drop_bit 8 x) :: byte)) OR ucast (ucast x :: byte) = x"
  by (rule bit_word_eqI) (auto simp: bit_or_iff bit_byte_part bit_byte_part0)

lemma read_write_le8 [simp]: "1 \<le> length p \<Longrightarrow> badvpn_read_le8 (badvpn_write_le8 x p) = x"
  by (subgoal_tac "p \<noteq> []") (auto simp: badvpn_read_le8_def badvpn_write_le8_def)

lemma length_write_le8 [simp]: "length (badvpn_write_le8 x p) = length p"
  by (simp add: badvpn_write_le8_def)

lemma read_write_le16 [simp]: "2 \<le> length p \<Longrightarrow> badvpn_read_le16 (badvpn_write_le16 x p) = x"
  by (subgoal_tac "p \<noteq> []") (auto simp: badvpn_read_le16_def badvpn_write_le16_def join_bytes16)

lemma length_write_le16 [simp]: "length (badvpn_write_le16 x p) = length p"
  by (simp add: badvpn_write_le16_def)

lemma read_write_le32 [simp]: "4 \<le> length p \<Longrightarrow> badvpn_read_le32 (badvpn_write_le32 x p) = x"
  by (subgoal_tac "p \<noteq> []") (auto simp: badvpn_read_le32_def badvpn_write_le32_def join_bytes32)

lemma length_write_le32 [simp]: "length (badvpn_write_le32 x p) = length p"
  by (simp add: badvpn_write_le32_def)

lemma read_write_le64 [simp]: "8 \<le> length p \<Longrightarrow> badvpn_read_le64 (badvpn_write_le64 x p) = x"
  by (subgoal_tac "p \<noteq> []") (auto simp: badvpn_read_le64_def badvpn_write_le64_def join_bytes64)

lemma length_write_le64 [simp]: "length (badvpn_write_le64 x p) = length p"
  by (simp add: badvpn_write_le64_def)

lemma read_write_be8 [simp]: "1 \<le> length p \<Longrightarrow> badvpn_read_be8 (badvpn_write_be8 x p) = x"
  by (subgoal_tac "p \<noteq> []") (auto simp: badvpn_read_be8_def badvpn_write_be8_def)

lemma length_write_be8 [simp]: "length (badvpn_write_be8 x p) = length p"
  by (simp add: badvpn_write_be8_def)

lemma read_write_be16 [simp]: "2 \<le> length p \<Longrightarrow> badvpn_read_be16 (badvpn_write_be16 x p) = x"
  by (subgoal_tac "p \<noteq> []") (auto simp: badvpn_read_be16_def badvpn_write_be16_def join_bytes16)

lemma length_write_be16 [simp]: "length (badvpn_write_be16 x p) = length p"
  by (simp add: badvpn_write_be16_def)

lemma read_write_be32 [simp]: "4 \<le> length p \<Longrightarrow> badvpn_read_be32 (badvpn_write_be32 x p) = x"
  by (subgoal_tac "p \<noteq> []") (auto simp: badvpn_read_be32_def badvpn_write_be32_def join_bytes32)

lemma length_write_be32 [simp]: "length (badvpn_write_be32 x p) = length p"
  by (simp add: badvpn_write_be32_def)

lemma read_write_be64 [simp]: "8 \<le> length p \<Longrightarrow> badvpn_read_be64 (badvpn_write_be64 x p) = x"
  by (subgoal_tac "p \<noteq> []") (auto simp: badvpn_read_be64_def badvpn_write_be64_def join_bytes64)

lemma length_write_be64 [simp]: "length (badvpn_write_be64 x p) = length p"
  by (simp add: badvpn_write_be64_def)

lemma read_mem_bytes16 [simp]: "badvpn_read_le16 (mem_bytes16 x) = x"
  by (simp add: badvpn_read_le16_def mem_bytes16_def join_bytes16)

lemma length_mem_bytes16 [simp]: "length (mem_bytes16 x) = 2"
  by (simp add: mem_bytes16_def)

lemma read_mem_bytes32 [simp]: "badvpn_read_le32 (mem_bytes32 x) = x"
  by (simp add: badvpn_read_le32_def mem_bytes32_def join_bytes32)

lemma length_mem_bytes32 [simp]: "length (mem_bytes32 x) = 4"
  by (simp add: mem_bytes32_def)

lemma read_mem_bytes64 [simp]: "badvpn_read_le64 (mem_bytes64 x) = x"
  by (simp add: badvpn_read_le64_def mem_bytes64_def join_bytes64)

lemma length_mem_bytes64 [simp]: "length (mem_bytes64 x) = 8"
  by (simp add: mem_bytes64_def)

text \<open>Conversely the bytes of a joined integer are the bytes joined.\<close>

lemma byte_of_same:
  "s + 8 \<le> LENGTH('a) \<Longrightarrow>
   (ucast (drop_bit s (push_bit s (ucast b) :: 'a::len word)) :: byte) = b"
  by (rule bit_word_eqI) (simp add: bit_simps)

lemma byte_of_other:
  "s + 8 \<le> t \<or> t + 8 \<le> s \<Longrightarrow>
   (ucast (drop_bit t (push_bit s (ucast (b :: byte)) :: 'a::len word)) :: byte) = 0"
  by (rule bit_word_eqI) (auto simp: bit_simps dest: bit_imp_le_length)

lemma byte_of_same0:
  "8 \<le> LENGTH('a) \<Longrightarrow> (ucast (ucast b :: 'a::len word) :: byte) = b"
  using byte_of_same [where 'a = 'a, of 0 b] by simp

lemma byte_of_other0:
  "8 \<le> t \<Longrightarrow> (ucast (drop_bit t (ucast (b :: byte) :: 'a::len word)) :: byte) = 0"
  using byte_of_other [where 'a = 'a, of 0 t b] by simp

lemma byte_of_low0:
  "8 \<le> s \<Longrightarrow> (ucast (push_bit s (ucast (b :: byte)) :: 'a::len word) :: byte) = 0"
  using byte_of_other [where 'a = 'a, of s 0 b] by simp

lemmas byte_of_simps =
  drop_bit_or unsigned_or_eq byte_of_same byte_of_other byte_of_same0 byte_of_other0 byte_of_low0

lemma mem_bytes16_read [simp]: "mem_bytes16 (badvpn_read_le16 [b0, b1]) = [b0, b1]"
  by (simp add: mem_bytes16_def badvpn_read_le16_def byte_of_simps del: drop_bit_push_bit push_bit_of_1)

lemma mem_bytes32_read [simp]: "mem_bytes32 (badvpn_read_le32 [b0, b1, b2, b3]) = [b0, b1, b2, b3]"
  by (simp add: mem_bytes32_def badvpn_read_le32_def byte_of_simps del: drop_bit_push_bit push_bit_of_1)

lemma mem_bytes64_read [simp]: "mem_bytes64 (badvpn_read_le64 [b0, b1, b2, b3, b4, b5, b6, b7]) = [b0, b1, b2, b3, b4, b5, b6, b7]"
  by (simp add: mem_bytes64_def badvpn_read_le64_def byte_of_simps del: drop_bit_push_bit push_bit_of_1)

lemma mem_bytes16_hton: "mem_bytes16 (hton16 x) = rev (mem_bytes16 x)"
  by (simp add: hton16_def badvpn_reverse16_def) (simp add: mem_bytes16_def)

lemma ntoh16_hton16 [simp]: "ntoh16 (hton16 x) = x"
  by (simp add: ntoh16_def hton16_def [of "hton16 x"] badvpn_reverse16_def mem_bytes16_hton)
     (simp add: mem_bytes16_def badvpn_read_le16_def join_bytes16)

lemma read_be16_hton [simp]: "badvpn_read_be16 (mem_bytes16 (hton16 x)) = x"
  by (simp add: mem_bytes16_hton) (simp add: mem_bytes16_def badvpn_read_be16_def join_bytes16)

lemma ltoh16_htol16 [simp]: "ltoh16 (htol16 x) = x"
  by (simp add: ltoh16_def htol16_def)

lemma mem_bytes32_hton: "mem_bytes32 (hton32 x) = rev (mem_bytes32 x)"
  by (simp add: hton32_def badvpn_reverse32_def) (simp add: mem_bytes32_def)

lemma ntoh32_hton32 [simp]: "ntoh32 (hton32 x) = x"
  by (simp add: ntoh32_def hton32_def [of "hton32 x"] badvpn_reverse32_def mem_bytes32_hton)
     (simp add: mem_bytes32_def badvpn_read_le32_def join_bytes32)

lemma read_be32_hton [simp]: "badvpn_read_be32 (mem_bytes32 (hton32 x)) = x"
  by (simp add: mem_bytes32_hton) (simp add: mem_bytes32_def badvpn_read_be32_def join_bytes32)

lemma ltoh32_htol32 [simp]: "ltoh32 (htol32 x) = x"
  by (simp add: ltoh32_def htol32_def)

lemma mem_bytes64_hton: "mem_bytes64 (hton64 x) = rev (mem_bytes64 x)"
  by (simp add: hton64_def badvpn_reverse64_def) (simp add: mem_bytes64_def)

lemma ntoh64_hton64 [simp]: "ntoh64 (hton64 x) = x"
  by (simp add: ntoh64_def hton64_def [of "hton64 x"] badvpn_reverse64_def mem_bytes64_hton)
     (simp add: mem_bytes64_def badvpn_read_le64_def join_bytes64)

lemma read_be64_hton [simp]: "badvpn_read_be64 (mem_bytes64 (hton64 x)) = x"
  by (simp add: mem_bytes64_hton) (simp add: mem_bytes64_def badvpn_read_be64_def join_bytes64)

lemma ltoh64_htol64 [simp]: "ltoh64 (htol64 x) = x"
  by (simp add: ltoh64_def htol64_def)

end
