(* ===== verification/Addr.thy ===== *)
theory Addr
  imports ByteOrder
begin

text \<open>
  Network addresses, \<^verbatim>\<open>system/BAddr.h\<close>, and the comparison macros of \<^verbatim>\<open>misc/compare.h\<close>.
  Addresses and ports are kept in network byte order, as the code stores them; the 16 address
  bytes of IPv6 are a list.  The name resolver \<^verbatim>\<open>getaddrinfo\<close> is a parameter.
  \<^verbatim>\<open>BAddr_CompareOrder\<close>, the comparator of the connection trees, is shown to be a total order.
\<close>

subsection \<open>Addresses\<close>

datatype BIPAddr = BIPAddr_NONE | BIPAddr_IPV4 u32 | BIPAddr_IPV6 "byte list"

record BAddr_packet =
  phys_proto :: u16
  interface_index :: int
  header_type :: int
  packet_type :: int
  phys_addr :: "byte list"

datatype BAddr =
    BADDR_NONE | BADDR_IPV4 (ip4: u32) (port4: u16) | BADDR_IPV6 (ip6: "byte list") (port6: u16)
  | BADDR_PACKET BAddr_packet

fun BAddr_type :: "BAddr \<Rightarrow> int" where
  "BAddr_type BADDR_NONE = 0"
| "BAddr_type (BADDR_IPV4 _ _) = 1"
| "BAddr_type (BADDR_IPV6 _ _) = 2"
| "BAddr_type (BADDR_PACKET _) = 5"

definition BIPAddr_InitInvalid :: BIPAddr where
  "BIPAddr_InitInvalid = BIPAddr_NONE"

definition BIPAddr_InitIPv4 :: "u32 \<Rightarrow> BIPAddr" where
  "BIPAddr_InitIPv4 ip = BIPAddr_IPV4 ip"

definition BIPAddr_InitIPv6 :: "byte list \<Rightarrow> BIPAddr" where
  "BIPAddr_InitIPv6 ip = BIPAddr_IPV6 (take 16 ip)"

definition BIPAddr_IsInvalid :: "BIPAddr \<Rightarrow> bool" where
  "BIPAddr_IsInvalid a = (a = BIPAddr_NONE)"

fun BIPAddr_Compare :: "BIPAddr \<Rightarrow> BIPAddr \<Rightarrow> bool" where
  "BIPAddr_Compare (BIPAddr_IPV4 a) (BIPAddr_IPV4 b) = (a = b)"
| "BIPAddr_Compare (BIPAddr_IPV6 a) (BIPAddr_IPV6 b) = (take 16 a = take 16 b)"
| "BIPAddr_Compare _ _ = False"

definition BAddr_MakeNone :: BAddr where
  "BAddr_MakeNone = BADDR_NONE"

definition BAddr_MakeIPv4 :: "u32 \<Rightarrow> u16 \<Rightarrow> BAddr" where
  "BAddr_MakeIPv4 ip port = BADDR_IPV4 ip port"

definition BAddr_MakeIPv6 :: "byte list \<Rightarrow> u16 \<Rightarrow> BAddr" where
  "BAddr_MakeIPv6 ip port = BADDR_IPV6 (take 16 ip) port"

fun BAddr_MakeFromIpaddrAndPort :: "BIPAddr \<Rightarrow> u16 \<Rightarrow> BAddr" where
  "BAddr_MakeFromIpaddrAndPort BIPAddr_NONE port = BAddr_MakeNone"
| "BAddr_MakeFromIpaddrAndPort (BIPAddr_IPV4 ip) port = BAddr_MakeIPv4 ip port"
| "BAddr_MakeFromIpaddrAndPort (BIPAddr_IPV6 ip) port = BAddr_MakeIPv6 ip port"

definition BAddr_InitNone :: BAddr where
  "BAddr_InitNone = BAddr_MakeNone"

definition BAddr_InitIPv4 :: "u32 \<Rightarrow> u16 \<Rightarrow> BAddr" where
  "BAddr_InitIPv4 ip port = BAddr_MakeIPv4 ip port"

definition BAddr_InitIPv6 :: "byte list \<Rightarrow> u16 \<Rightarrow> BAddr" where
  "BAddr_InitIPv6 ip port = BAddr_MakeIPv6 ip port"

definition BAddr_InitFromIpaddrAndPort :: "BIPAddr \<Rightarrow> u16 \<Rightarrow> BAddr" where
  "BAddr_InitFromIpaddrAndPort ipaddr port = BAddr_MakeFromIpaddrAndPort ipaddr port"

definition BAddr_IsInvalid :: "BAddr \<Rightarrow> bool" where
  "BAddr_IsInvalid a = (a = BADDR_NONE)"

fun BAddr_GetPort :: "BAddr \<Rightarrow> u16" where
  "BAddr_GetPort (BADDR_IPV4 ip port) = port"
| "BAddr_GetPort (BADDR_IPV6 ip port) = port"
| "BAddr_GetPort _ = 0"

fun BAddr_GetIPAddr :: "BAddr \<Rightarrow> BIPAddr" where
  "BAddr_GetIPAddr (BADDR_IPV4 ip port) = BIPAddr_InitIPv4 ip"
| "BAddr_GetIPAddr (BADDR_IPV6 ip port) = BIPAddr_InitIPv6 ip"
| "BAddr_GetIPAddr _ = BIPAddr_InitInvalid"

fun BAddr_SetPort :: "BAddr \<Rightarrow> u16 \<Rightarrow> BAddr" where
  "BAddr_SetPort (BADDR_IPV4 ip _) port = BADDR_IPV4 ip port"
| "BAddr_SetPort (BADDR_IPV6 ip _) port = BADDR_IPV6 ip port"
| "BAddr_SetPort a _ = a"

fun BAddr_Compare :: "BAddr \<Rightarrow> BAddr \<Rightarrow> bool" where
  "BAddr_Compare (BADDR_IPV4 ip1 port1) (BADDR_IPV4 ip2 port2) = (ip1 = ip2 \<and> port1 = port2)"
| "BAddr_Compare (BADDR_IPV6 ip1 port1) (BADDR_IPV6 ip2 port2) = (take 16 ip1 = take 16 ip2 \<and> port1 = port2)"
| "BAddr_Compare _ _ = False"

subsection \<open>Comparison\<close>

definition B_COMPARE :: "'a::linorder \<Rightarrow> 'a \<Rightarrow> int" where
  "B_COMPARE a b = (if a > b then 1 else 0) - (if a < b then 1 else 0)"

text \<open>\<^verbatim>\<open>memcmp\<close> of the C library, of which the code uses the sign.\<close>

fun memcmp :: "byte list \<Rightarrow> byte list \<Rightarrow> int" where
  "memcmp (x # xs) (y # ys) = (if x = y then memcmp xs ys else if x < y then -1 else 1)"
| "memcmp _ _ = 0"

fun BAddr_CompareOrder :: "BAddr \<Rightarrow> BAddr \<Rightarrow> int" where
  "BAddr_CompareOrder addr1 addr2 =
     (let cmp = B_COMPARE (BAddr_type addr1) (BAddr_type addr2) in
      if cmp \<noteq> 0 then cmp
      else (case (addr1, addr2) of
        (BADDR_IPV4 ip1 port1, BADDR_IPV4 ip2 port2) \<Rightarrow>
          (let cmp = B_COMPARE (ntoh32 ip1) (ntoh32 ip2) in
           if cmp \<noteq> 0 then cmp else B_COMPARE (ntoh16 port1) (ntoh16 port2))
      | (BADDR_IPV6 ip1 port1, BADDR_IPV6 ip2 port2) \<Rightarrow>
          (let cmp = memcmp (take 16 ip1) (take 16 ip2) in
           if cmp \<noteq> 0 then B_COMPARE cmp 0 else B_COMPARE (ntoh16 port1) (ntoh16 port2))
      | _ \<Rightarrow> 0))"

declare BAddr_CompareOrder.simps [simp del]

text \<open>What a search tree needs of its comparator.\<close>

locale comparator =
  fixes carrier :: "'a \<Rightarrow> bool" and cmp :: "'a \<Rightarrow> 'a \<Rightarrow> int"
  assumes cmp_range: "carrier x \<Longrightarrow> carrier y \<Longrightarrow> cmp x y \<in> {-1, 0, 1}"
    and cmp_antisym: "carrier x \<Longrightarrow> carrier y \<Longrightarrow> cmp y x = - cmp x y"
    and cmp_eq: "carrier x \<Longrightarrow> carrier y \<Longrightarrow> cmp x y = 0 \<longleftrightarrow> x = y"
    and cmp_trans: "carrier x \<Longrightarrow> carrier y \<Longrightarrow> carrier z \<Longrightarrow> cmp x y < 0 \<Longrightarrow> cmp y z < 0 \<Longrightarrow> cmp x z < 0"
begin

lemma cmp_trichotomy:
  assumes "carrier x" "carrier y"
  shows "cmp x y < 0 \<and> x \<noteq> y \<and> \<not> cmp y x < 0 \<or> cmp x y = 0 \<and> x = y \<or> cmp y x < 0 \<and> x \<noteq> y \<and> \<not> cmp x y < 0"
  using cmp_range [OF assms] cmp_antisym [OF assms] cmp_eq [OF assms] by auto

lemma cmp_le_trans:
  assumes "carrier x" "carrier y" "carrier z" "cmp x y \<le> 0" "cmp y z \<le> 0"
  shows "cmp x z \<le> 0"
  using assms cmp_trans [of x y z] cmp_eq by (metis less_le)

end

lemma B_COMPARE_simps:
  "B_COMPARE a b = 0 \<longleftrightarrow> a = b" "B_COMPARE a b < 0 \<longleftrightarrow> a < b" "B_COMPARE a b \<in> {-1, 0, 1}"
  "B_COMPARE b a = - B_COMPARE a b"
  by (auto simp: B_COMPARE_def)

interpretation bcmp: comparator "\<lambda>_ :: 'a::linorder. True" B_COMPARE
  by unfold_locales (auto simp: B_COMPARE_def split: if_splits)

lemma memcmp_range: "memcmp xs ys \<in> {-1, 0, 1}"
  by (induction xs ys rule: memcmp.induct) auto

lemma memcmp_antisym: "memcmp ys xs = - memcmp xs ys"
  by (induction xs ys rule: memcmp.induct) auto

lemma memcmp_eq: "length xs = length ys \<Longrightarrow> memcmp xs ys = 0 \<longleftrightarrow> xs = ys"
  by (induction xs ys rule: memcmp.induct) auto

lemma memcmp_less_Cons:
  "memcmp (x # xs) (y # ys) < 0 \<longleftrightarrow> x < y \<or> x = y \<and> memcmp xs ys < 0"
  by auto

lemma memcmp_trans:
  "length xs = length ys \<Longrightarrow> length ys = length zs \<Longrightarrow> memcmp xs ys < 0 \<Longrightarrow> memcmp ys zs < 0 \<Longrightarrow> memcmp xs zs < 0"
proof (induction xs arbitrary: ys zs)
  case (Cons x xs)
  obtain y ys' z zs' where yz: "ys = y # ys'" "zs = z # zs'"
    using Cons.prems(1,2) by (cases ys; cases zs) simp_all
  have "x < y \<or> x = y \<and> memcmp xs ys' < 0" "y < z \<or> y = z \<and> memcmp ys' zs' < 0"
    using Cons.prems(3,4) by (simp_all only: yz memcmp_less_Cons)
  moreover have "memcmp xs ys' < 0 \<Longrightarrow> memcmp ys' zs' < 0 \<Longrightarrow> memcmp xs zs' < 0"
    using Cons.IH [of ys' zs'] Cons.prems(1,2) yz by simp
  ultimately have "x < z \<or> x = z \<and> memcmp xs zs' < 0"
    using order.strict_trans [of x y z] by blast
  then show ?case by (simp only: yz memcmp_less_Cons)
qed simp

interpretation memcmp: comparator "\<lambda>xs. length xs = n" memcmp for n
proof
  fix x y z :: "byte list"
  assume "length x = n" "length y = n"
  then show "memcmp x y = 0 \<longleftrightarrow> x = y" by (intro memcmp_eq) simp
  show "memcmp x y \<in> {-1, 0, 1}" "memcmp y x = - memcmp x y" by (fact memcmp_range memcmp_antisym)+
  assume "length z = n" "memcmp x y < 0" "memcmp y z < 0"
  with \<open>length x = n\<close> \<open>length y = n\<close> show "memcmp x z < 0"
    by (intro memcmp_trans [of x y z]) simp_all
qed

text \<open>Proper addresses: those the code compares (IPv6 addresses have 16 bytes, no packet sockets).\<close>

fun BAddr_ok :: "BAddr \<Rightarrow> bool" where
  "BAddr_ok (BADDR_IPV6 ip _) = (length ip = 16)"
| "BAddr_ok (BADDR_PACKET _) = False"
| "BAddr_ok _ = True"

text \<open>The order in which addresses are compared, as a key: type, then address, then port.\<close>

fun BAddr_less :: "BAddr \<Rightarrow> BAddr \<Rightarrow> bool" where
  "BAddr_less (BADDR_IPV4 ip1 port1) (BADDR_IPV4 ip2 port2) \<longleftrightarrow>
     ntoh32 ip1 < ntoh32 ip2 \<or> ip1 = ip2 \<and> ntoh16 port1 < ntoh16 port2"
| "BAddr_less (BADDR_IPV6 ip1 port1) (BADDR_IPV6 ip2 port2) \<longleftrightarrow>
     memcmp ip1 ip2 < 0 \<or> ip1 = ip2 \<and> ntoh16 port1 < ntoh16 port2"
| "BAddr_less a b \<longleftrightarrow> BAddr_type a < BAddr_type b"

lemma ntoh32_inj [simp]: "ntoh32 x = ntoh32 y \<longleftrightarrow> x = y"
  by (metis ntoh32_hton32 ntoh32_def)

lemma ntoh16_inj [simp]: "ntoh16 x = ntoh16 y \<longleftrightarrow> x = y"
  by (metis ntoh16_hton16 ntoh16_def)

lemma BAddr_CompareOrder_eq:
  "BAddr_ok a \<Longrightarrow> BAddr_ok b \<Longrightarrow>
   BAddr_CompareOrder a b = (if BAddr_less a b then -1 else if a = b then 0 else 1)"
  using memcmp.cmp_trichotomy [of "ip6 a" 16 "ip6 b"] memcmp_antisym [of "ip6 b" "ip6 a"]
  by (cases a; cases b) (auto simp: BAddr_CompareOrder.simps B_COMPARE_def Let_def)

lemma ntoh_linear:
  "ip1 \<noteq> ip2 \<Longrightarrow> \<not> ntoh32 ip1 < ntoh32 ip2 \<Longrightarrow> ntoh32 ip2 < ntoh32 ip1"
  "port1 \<noteq> port2 \<Longrightarrow> \<not> ntoh16 port1 < ntoh16 port2 \<Longrightarrow> ntoh16 port2 < ntoh16 port1"
  by (meson linorder_neqE ntoh32_inj, meson linorder_neqE ntoh16_inj)

lemma BAddr_less_linear:
  "BAddr_ok a \<Longrightarrow> BAddr_ok b \<Longrightarrow> \<not> BAddr_less a b \<Longrightarrow> a \<noteq> b \<Longrightarrow> BAddr_less b a"
  using memcmp.cmp_trichotomy [of "ip6 a" 16 "ip6 b"]
  by (cases a; cases b) (auto intro: ntoh_linear)

lemma BAddr_less_asym: "BAddr_ok a \<Longrightarrow> BAddr_ok b \<Longrightarrow> BAddr_less a b \<Longrightarrow> a \<noteq> b \<and> \<not> BAddr_less b a"
  using memcmp.cmp_trichotomy [of "ip6 a" 16 "ip6 b"]
  by (cases a; cases b) auto

lemma BAddr_less_type:
  "BAddr_less a b \<Longrightarrow> BAddr_type a \<le> BAddr_type b"
  "BAddr_type a < BAddr_type b \<Longrightarrow> BAddr_less a b"
  by (cases a; cases b; simp)+

lemma BAddr_less_trans:
  assumes ok: "BAddr_ok a" "BAddr_ok b" "BAddr_ok c" and less: "BAddr_less a b" "BAddr_less b c"
  shows "BAddr_less a c"
proof (cases "BAddr_type a < BAddr_type c")
  case False
  with BAddr_less_type(1) [OF less(1)] BAddr_less_type(1) [OF less(2)]
  have ty: "BAddr_type b = BAddr_type a" "BAddr_type c = BAddr_type a" by simp_all
  show ?thesis
  proof (cases a)
    case (BADDR_IPV4 ip port)
    with ty obtain ip' port' ip'' port'' where "b = BADDR_IPV4 ip' port'" "c = BADDR_IPV4 ip'' port''"
      by (cases b; cases c) simp_all
    with BADDR_IPV4 less show ?thesis by (auto intro: order.strict_trans)
  next
    case (BADDR_IPV6 ip port)
    with ty obtain ip' port' ip'' port'' where bc: "b = BADDR_IPV6 ip' port'" "c = BADDR_IPV6 ip'' port''"
      by (cases b; cases c) simp_all
    with ok BADDR_IPV6 have "memcmp ip ip' < 0 \<Longrightarrow> memcmp ip' ip'' < 0 \<Longrightarrow> memcmp ip ip'' < 0"
      by (intro memcmp_trans [of ip ip' ip'']) simp_all
    with BADDR_IPV6 bc less show ?thesis by (auto intro: order.strict_trans)
  qed (use ok less ty in \<open>cases b; simp\<close>)+
qed (rule BAddr_less_type(2))

interpretation baddr: comparator BAddr_ok BAddr_CompareOrder
proof
  fix x y z :: BAddr
  assume ok: "BAddr_ok x" "BAddr_ok y"
  show "BAddr_CompareOrder x y \<in> {-1, 0, 1}" using ok by (simp add: BAddr_CompareOrder_eq)
  consider (less) "BAddr_less x y" | (eq) "x = y" | (greater) "BAddr_less y x"
    using BAddr_less_linear [OF ok] by blast
  then show "BAddr_CompareOrder y x = - BAddr_CompareOrder x y"
  proof cases
    case less
    with BAddr_less_asym [OF ok] ok show ?thesis by (auto simp: BAddr_CompareOrder_eq)
  next
    case eq
    with BAddr_less_asym [of x x] ok show ?thesis by (auto simp: BAddr_CompareOrder_eq)
  next
    case greater
    with BAddr_less_asym [OF ok(2,1)] ok show ?thesis by (auto simp: BAddr_CompareOrder_eq)
  qed
  have "BAddr_less x y \<Longrightarrow> x \<noteq> y" using BAddr_less_asym [OF ok] by blast
  with ok show "BAddr_CompareOrder x y = 0 \<longleftrightarrow> x = y" by (auto simp: BAddr_CompareOrder_eq)
  assume "BAddr_ok z" "BAddr_CompareOrder x y < 0" "BAddr_CompareOrder y z < 0"
  then show "BAddr_CompareOrder x z < 0"
    using ok BAddr_less_trans [of x y z] by (auto simp: BAddr_CompareOrder_eq split: if_splits)
qed

text \<open>\<^verbatim>\<open>BAddr_CompareOrder\<close> is a total order on IPv4, IPv6 and empty addresses: exactly one of
  less, equal and greater holds, zero means equality, the relation is transitive, and on IP
  addresses it agrees with the equality test \<^verbatim>\<open>BAddr_Compare\<close>.\<close>

theorem BAddr_CompareOrder_total:
  assumes "BAddr_ok a" "BAddr_ok b" "BAddr_ok c"
  shows "BAddr_CompareOrder a b \<in> {-1, 0, 1} \<and> BAddr_CompareOrder b a = - BAddr_CompareOrder a b \<and>
    (BAddr_CompareOrder a b = 0 \<longleftrightarrow> a = b) \<and>
    (BAddr_CompareOrder a b \<le> 0 \<and> BAddr_CompareOrder b c \<le> 0 \<longrightarrow> BAddr_CompareOrder a c \<le> 0) \<and>
    (a \<noteq> BADDR_NONE \<longrightarrow> BAddr_Compare a b \<longleftrightarrow> BAddr_CompareOrder a b = 0)"
proof -
  have "BAddr_Compare a b \<longleftrightarrow> a = b" if "a \<noteq> BADDR_NONE"
    using assms that by (cases a; cases b) auto
  with baddr.cmp_range baddr.cmp_antisym baddr.cmp_eq baddr.cmp_le_trans assms show ?thesis by metis
qed

theorem BAddr_CompareOrder_total_witness:
  "BAddr_CompareOrder (BADDR_IPV4 1 2) (BADDR_IPV6 (replicate 16 0) 2) \<le> 0"
  using BAddr_CompareOrder_total [of "BADDR_IPV4 1 2" "BADDR_IPV4 1 2" "BADDR_IPV6 (replicate 16 0) 2"]
  by (simp add: BAddr_CompareOrder_eq)

end
