(* ===== verification/SearchTree.thy ===== *)
theory SearchTree
  imports Addr
begin

text \<open>
  The contract of the search trees of the code base, on their in-order sequences: what inserting, removing
  and looking up a node mean for the sequence, given a comparator.  The fair queue and the gateway
  client are modelled over it, and \<^verbatim>\<open>BAVL\<close> shows that the balanced trees of \<^verbatim>\<open>structure/BAVL.h\<close> satisfy it.
\<close>

subsection \<open>Search trees as sorted sequences\<close>

text \<open>\<open>cmp\<close> is the comparator of the tree.\<close>

fun Tree_Insert :: "('a \<Rightarrow> 'a \<Rightarrow> int) \<Rightarrow> 'a \<Rightarrow> 'a list \<Rightarrow> 'a list" where
  "Tree_Insert cmp x [] = [x]"
| "Tree_Insert cmp x (y # ys) =
     (if cmp x y < 0 then x # y # ys else if cmp x y = 0 then y # ys else y # Tree_Insert cmp x ys)"

definition Tree_Remove :: "'a \<Rightarrow> 'a list \<Rightarrow> 'a list" where
  "Tree_Remove x t = remove1 x t"

definition Tree_GetFirst :: "'a list \<Rightarrow> 'a option" where
  "Tree_GetFirst t = hd_opt t"

definition Tree_sorted :: "('a \<Rightarrow> 'a \<Rightarrow> int) \<Rightarrow> 'a list \<Rightarrow> bool" where
  "Tree_sorted cmp t = sorted_wrt (\<lambda>x y. cmp x y < 0) t"

context comparator
begin

lemma set_Tree_Insert:
  "\<forall>y \<in> set t. carrier y \<Longrightarrow> carrier x \<Longrightarrow> set (Tree_Insert cmp x t) = insert x (set t)"
  by (induction t) (auto simp: cmp_eq)

lemma Tree_Insert_sorted:
  "\<forall>y \<in> set t. carrier y \<Longrightarrow> carrier x \<Longrightarrow> Tree_sorted cmp t \<Longrightarrow> Tree_sorted cmp (Tree_Insert cmp x t)"
proof (induction t)
  case (Cons y t)
  have "cmp y x < 0" if "\<not> cmp x y < 0" "cmp x y \<noteq> 0"
    using that cmp_trichotomy [of x y] Cons.prems by auto
  moreover have "cmp x z < 0" if "cmp x y < 0" "z \<in> set t" for z
    using that Cons.prems cmp_trans [of x y z] by (auto simp: Tree_sorted_def)
  ultimately show ?case
    using Cons by (auto simp: Tree_sorted_def set_Tree_Insert)
qed (simp add: Tree_sorted_def)

lemma Tree_sorted_distinct: "\<forall>y \<in> set t. carrier y \<Longrightarrow> Tree_sorted cmp t \<Longrightarrow> distinct t"
proof (induction t)
  case (Cons y t)
  then have "cmp y z \<noteq> 0" if "z \<in> set t" for z using that by (auto simp: Tree_sorted_def)
  with Cons cmp_eq [of y y] show ?case by (auto simp: Tree_sorted_def)
qed simp

end

lemma Tree_Remove_sorted: "Tree_sorted cmp t \<Longrightarrow> Tree_sorted cmp (Tree_Remove x t)"
  by (induction t) (auto simp: Tree_sorted_def Tree_Remove_def dest: set_remove1_subset [THEN subsetD])

lemma Tree_sorted_cong:
  "(\<And>x y. x \<in> set t \<Longrightarrow> y \<in> set t \<Longrightarrow> cmp x y < 0 \<Longrightarrow> cmp' x y < 0) \<Longrightarrow> Tree_sorted cmp t \<Longrightarrow> Tree_sorted cmp' t"
  unfolding Tree_sorted_def by (rule sorted_wrt_mono_rel)

subsection \<open>Keyed search trees\<close>

text \<open>The trees are intrusive: a node is compared by the key it holds in the heap at that moment.\<close>

definition Tree_LookupExact :: "('k \<Rightarrow> 'k \<Rightarrow> int) \<Rightarrow> ('a \<Rightarrow> 'k) \<Rightarrow> 'k \<Rightarrow> 'a list \<Rightarrow> 'a option" where
  "Tree_LookupExact cmp key k t = find (\<lambda>p. cmp k (key p) = 0) t"

abbreviation (input) keyed :: "('k \<Rightarrow> 'k \<Rightarrow> int) \<Rightarrow> ('a \<Rightarrow> 'k) \<Rightarrow> 'a \<Rightarrow> 'a \<Rightarrow> int" where
  "keyed cmp key \<equiv> (\<lambda>p q. cmp (key p) (key q))"

context comparator
begin

lemma Tree_LookupExact_Some:
  assumes "\<forall>p \<in> set t. carrier (key p)" "carrier k" "Tree_LookupExact cmp key k t = Some p"
  shows "p \<in> set t \<and> key p = k"
proof -
  have "p \<in> set t" "cmp k (key p) = 0" using assms(3) by (auto simp: Tree_LookupExact_def find_Some_iff)
  with cmp_eq [of k "key p"] assms(1,2) show ?thesis by auto
qed

lemma Tree_LookupExact_None:
  assumes "\<forall>p \<in> set t. carrier (key p)" "carrier k"
  shows "Tree_LookupExact cmp key k t = None \<longleftrightarrow> (\<forall>p \<in> set t. key p \<noteq> k)"
  using assms by (auto simp: Tree_LookupExact_def find_None_iff cmp_eq)

lemma keyed_sorted_inj:
  assumes "\<forall>p \<in> set t. carrier (key p)" "Tree_sorted (keyed cmp key) t"
  shows "inj_on key (set t)" and "distinct t"
proof -
  have neq: "cmp k k = 0" if "carrier k" for k using cmp_eq that by simp
  from assms show "distinct t" by (induction t) (auto simp: Tree_sorted_def neq)
  from assms show "inj_on key (set t)"
  proof (induction t)
    case (Cons x t)
    then have "key x \<noteq> key y" if "y \<in> set t" for y using that neq by (force simp: Tree_sorted_def)
    with Cons show ?case by (auto simp: Tree_sorted_def)
  qed simp
qed

lemma keyed_lookup:
  assumes "\<forall>p \<in> set t. carrier (key p)" "Tree_sorted (keyed cmp key) t" "p \<in> set t" "key p = k"
  shows "Tree_LookupExact cmp key k t = Some p"
proof (cases "Tree_LookupExact cmp key k t")
  case None
  with Tree_LookupExact_None [OF assms(1)] assms show ?thesis by auto
next
  case (Some q)
  with Tree_LookupExact_Some [OF assms(1) _ Some] assms keyed_sorted_inj(1) [OF assms(1,2)]
  show ?thesis by (auto dest: inj_onD)
qed

lemma keyed_insert:
  assumes "\<forall>p \<in> set t. carrier (key p)" "Tree_sorted (keyed cmp key) t" "carrier (key x)" "\<forall>p \<in> set t. key p \<noteq> key x"
  shows "set (Tree_Insert (keyed cmp key) x t) = insert x (set t)" and "Tree_sorted (keyed cmp key) (Tree_Insert (keyed cmp key) x t)"
proof -
  from assms show s: "set (Tree_Insert (keyed cmp key) x t) = insert x (set t)" by (induction t) (auto simp: cmp_eq Tree_sorted_def)
  from assms show "Tree_sorted (keyed cmp key) (Tree_Insert (keyed cmp key) x t)"
  proof (induction t)
    case (Cons y t)
    have set: "set (Tree_Insert (keyed cmp key) x t) = insert x (set t)"
      using Cons.prems by (induction t) (auto simp: cmp_eq Tree_sorted_def)
    have "cmp (key y) (key x) < 0" if "\<not> cmp (key x) (key y) < 0"
      using that cmp_trichotomy [of "key x" "key y"] Cons.prems by auto
    moreover have "cmp (key x) (key z) < 0" if "cmp (key x) (key y) < 0" "z \<in> set t" for z
      using that Cons.prems cmp_trans [of "key x" "key y" "key z"] by (auto simp: Tree_sorted_def)
    moreover have "cmp (key x) (key y) \<noteq> 0" using Cons.prems cmp_eq [of "key x" "key y"] by auto
    ultimately show ?case using Cons set by (auto simp: Tree_sorted_def)
  qed (simp add: Tree_sorted_def)
qed

end

lemma Tree_sorted_keyed_cong: "(\<And>p. p \<in> set t \<Longrightarrow> key' p = key p) \<Longrightarrow> Tree_sorted (keyed cmp key) t \<Longrightarrow> Tree_sorted (keyed cmp key') t"
  by (erule Tree_sorted_cong [rotated]) simp

end
