(* ===== verification/BAVL.thy ===== *)
theory BAVL
  imports SearchTree "HOL-Library.Tree" "HOL-Library.Multiset"
begin

text \<open>
  \<^verbatim>\<open>structure/BAVL.h\<close>: balanced search trees with parent pointers, at pointer level.  The tree and the memory
  of its nodes are one state; all operations are translated with their pointer updates.  A
  representation predicate relates the pointers to a binary tree, a path of frames leads from a subtree to the
  root, and the rotations and the exchange of two nodes are verified once for both directions.  Shown:
  insertion, removal, search and iteration are those of the in-order sequence (\<^verbatim>\<open>SearchTree\<close>), and the trees stay
  balanced.
\<close>

subsection \<open>State\<close>

text \<open>A side is a truth value: \<open>False\<close> is \<^verbatim>\<open>link[0]\<close>, \<open>True\<close> is \<^verbatim>\<open>link[1]\<close>.\<close>

record BAVL =
  bt_root :: "nat option"
  bt_parent :: "nat \<Rightarrow> nat option"
  bt_link :: "nat \<Rightarrow> bool \<Rightarrow> nat option"
  bt_balance :: "nat \<Rightarrow> int"

definition set_parent :: "nat \<Rightarrow> nat option \<Rightarrow> BAVL \<Rightarrow> BAVL" where
  "set_parent n v h = h\<lparr>bt_parent := (bt_parent h)(n := v)\<rparr>"

definition set_link :: "nat \<Rightarrow> bool \<Rightarrow> nat option \<Rightarrow> BAVL \<Rightarrow> BAVL" where
  "set_link n s v h = h\<lparr>bt_link := (bt_link h)(n := (bt_link h n)(s := v))\<rparr>"

definition set_balance :: "nat \<Rightarrow> int \<Rightarrow> BAVL \<Rightarrow> BAVL" where
  "set_balance n v h = h\<lparr>bt_balance := (bt_balance h)(n := v)\<rparr>"

text \<open>\<^verbatim>\<open>if (c) c->parent = p\<close>\<close>

definition set_parent_opt :: "nat option \<Rightarrow> nat option \<Rightarrow> BAVL \<Rightarrow> BAVL" where
  "set_parent_opt c p h = (case c of None \<Rightarrow> h | Some c \<Rightarrow> set_parent c p h)"

text \<open>The link that leads to \<open>r\<close>, from its parent \<open>q\<close> or the root, is set to \<open>v\<close>.\<close>

definition set_down :: "nat option \<Rightarrow> nat \<Rightarrow> nat option \<Rightarrow> BAVL \<Rightarrow> BAVL" where
  "set_down q r v h = (case q of Some p \<Rightarrow> set_link p (Some r = bt_link h p True) v h | None \<Rightarrow> h\<lparr>bt_root := v\<rparr>)"

subsection \<open>Operations\<close>

text \<open>\<open>None\<close> stands for a null pointer that is followed, a failing assertion or a loop that does not end.\<close>

definition BAVL_Init :: "BAVL \<Rightarrow> BAVL" where
  "BAVL_Init h = h\<lparr>bt_root := None\<rparr>"

definition BAVL_rotate :: "BAVL \<Rightarrow> nat \<Rightarrow> bool \<Rightarrow> BAVL option" where
  "BAVL_rotate h r dir =
     (case bt_link h r (\<not> dir) of None \<Rightarrow> None
      | Some nr \<Rightarrow>
        (let h = set_link r (\<not> dir) (bt_link h nr dir) h;
             h = set_parent_opt (bt_link h r (\<not> dir)) (Some r) h;
             h = set_link nr dir (Some r) h;
             h = set_parent nr (bt_parent h r) h;
             h = set_down (bt_parent h nr) r (Some nr) h;
             h = set_parent r (Some nr) h
         in Some h))"

partial_function (option) subtree_end :: "bool \<Rightarrow> BAVL \<Rightarrow> nat \<Rightarrow> nat option" where
  "subtree_end s h n = (case bt_link h n s of None \<Rightarrow> Some n | Some c \<Rightarrow> subtree_end s h c)"

definition BAVL_subtree_max :: "BAVL \<Rightarrow> nat \<Rightarrow> nat option" where
  "BAVL_subtree_max h n = subtree_end True h n"

definition BAVL_replace_subtree :: "BAVL \<Rightarrow> nat \<Rightarrow> nat option \<Rightarrow> BAVL" where
  "BAVL_replace_subtree h dest n =
     (let h = set_down (bt_parent h dest) dest n h in set_parent_opt n (bt_parent h dest) h)"

definition swap_connected :: "BAVL \<Rightarrow> nat \<Rightarrow> nat \<Rightarrow> BAVL" where
  "swap_connected h n1 n2 =
     (let side = (Some n2 = bt_link h n1 True);
          c = bt_link h n1 (\<not> side);
          h = set_link n1 False (bt_link h n2 False) h;
          h = set_parent_opt (bt_link h n1 False) (Some n1) h;
          h = set_link n1 True (bt_link h n2 True) h;
          h = set_parent_opt (bt_link h n1 True) (Some n1) h;
          h = set_parent n2 (bt_parent h n1) h;
          h = set_down (bt_parent h n1) n1 (Some n2) h;
          h = set_link n2 side (Some n1) h;
          h = set_parent n1 (Some n2) h;
          h = set_link n2 (\<not> side) c h
      in set_parent_opt c (Some n2) h)"

definition swap_separate :: "BAVL \<Rightarrow> nat \<Rightarrow> nat \<Rightarrow> BAVL" where
  "swap_separate h n1 n2 =
     (let temp = bt_parent h n1;
          h = set_parent n1 (bt_parent h n2) h;
          h = set_down (bt_parent h n2) n2 (Some n1) h;
          h = set_parent n2 temp h;
          h = set_down temp n1 (Some n2) h;
          temp = bt_link h n1 False;
          h = set_link n1 False (bt_link h n2 False) h;
          h = set_parent_opt (bt_link h n1 False) (Some n1) h;
          h = set_link n2 False temp h;
          h = set_parent_opt (bt_link h n2 False) (Some n2) h;
          temp = bt_link h n1 True;
          h = set_link n1 True (bt_link h n2 True) h;
          h = set_parent_opt (bt_link h n1 True) (Some n1) h;
          h = set_link n2 True temp h
      in set_parent_opt (bt_link h n2 True) (Some n2) h)"

definition BAVL_swap_nodes :: "BAVL \<Rightarrow> nat \<Rightarrow> nat \<Rightarrow> BAVL" where
  "BAVL_swap_nodes h n1 n2 =
     (let (n1', n2', h) =
        (if bt_parent h n2 = Some n1 \<or> bt_parent h n1 = Some n2
         then (let (n1, n2) = (if bt_parent h n1 = Some n2 then (n2, n1) else (n1, n2)) in (n1, n2, swap_connected h n1 n2))
         else (n1, n2, swap_separate h n1 n2));
          b = bt_balance h n1';
          h = set_balance n1' (bt_balance h n2') h
      in set_balance n2' b h)"

text \<open>The part of \<^verbatim>\<open>_BAVL_rebalance\<close> between its assertions on \<^verbatim>\<open>delta\<close>: the new state, the root of the rotated
  subtree and the change of its height.\<close>

definition rebalance_node :: "BAVL \<Rightarrow> nat \<Rightarrow> int \<Rightarrow> (BAVL \<times> nat \<times> int) option" where
  "rebalance_node h node delta =
     (if bt_balance h node = 2 \<or> bt_balance h node = -2
      then
        (let bside = (bt_balance h node = 2); bsidef = (if bside then 1 else -1) in
         case bt_link h node bside of None \<Rightarrow> None
         | Some child \<Rightarrow>
           (if bt_balance h child * bsidef = 1 then
              (case BAVL_rotate h node (\<not> bside) of None \<Rightarrow> None
               | Some h \<Rightarrow> Some (set_balance child 0 (set_balance node 0 h), child, delta - 1))
            else if bt_balance h child * bsidef = 0 then
              (case BAVL_rotate h node (\<not> bside) of None \<Rightarrow> None
               | Some h \<Rightarrow> Some (set_balance child (-1 * bsidef) (set_balance node (1 * bsidef) h), child, delta))
            else if bt_balance h child * bsidef = -1 then
              (case bt_link h child (\<not> bside) of None \<Rightarrow> None
               | Some gchild \<Rightarrow>
                 (case BAVL_rotate h child bside of None \<Rightarrow> None
                  | Some h \<Rightarrow>
                    (case BAVL_rotate h node (\<not> bside) of None \<Rightarrow> None
                     | Some h \<Rightarrow>
                       (let h = set_balance node (- max 0 (bt_balance h gchild * bsidef) * bsidef) h;
                            h = set_balance child (max 0 (- bt_balance h gchild * bsidef) * bsidef) h;
                            h = set_balance gchild 0 h
                        in Some (h, gchild, delta - 1)))))
            else None))
      else Some (h, node, delta))"

definition optneg :: "int \<Rightarrow> bool \<Rightarrow> int" where
  "optneg a neg = (if neg then - a else a)"

partial_function (option) BAVL_rebalance :: "BAVL \<Rightarrow> nat \<Rightarrow> bool \<Rightarrow> int \<Rightarrow> BAVL option" where
  "BAVL_rebalance h node side deltac =
     (if deltac = 0 then Some h
      else
        (let delta = max deltac (optneg (bt_balance h node) side) - max 0 (optneg (bt_balance h node) side);
             h = set_balance node (bt_balance h node - optneg deltac side) h
         in case rebalance_node h node delta of None \<Rightarrow> None
            | Some r \<Rightarrow>
              (case bt_parent (fst r) (fst (snd r)) of None \<Rightarrow> Some (fst r)
               | Some p \<Rightarrow> BAVL_rebalance (fst r) p (Some (fst (snd r)) = bt_link (fst r) p True) (snd (snd r)))))"

text \<open>The loops that look for a position: from \<open>c\<close> down, \<open>cp\<close> being the comparison with a node.\<close>

partial_function (option) descend :: "(nat \<Rightarrow> int) \<Rightarrow> BAVL \<Rightarrow> nat \<Rightarrow> (nat + nat \<times> bool) option" where
  "descend cp h c =
     (if cp c = 0 then Some (Inl c)
      else case bt_link h c (cp c = 1) of None \<Rightarrow> Some (Inr (c, cp c = 1)) | Some c' \<Rightarrow> descend cp h c')"

definition leaf_node :: "nat \<Rightarrow> nat option \<Rightarrow> BAVL \<Rightarrow> BAVL" where
  "leaf_node node p h = set_balance node 0 (set_link node True None (set_link node False None (set_parent node p h)))"

text \<open>\<open>cmp\<close> compares two nodes.  The result: the new state, whether the node was inserted, and \<^verbatim>\<open>*ref\<close>.\<close>

definition BAVL_Insert :: "(nat \<Rightarrow> nat \<Rightarrow> int) \<Rightarrow> BAVL \<Rightarrow> nat \<Rightarrow> (BAVL \<times> bool \<times> nat option) option" where
  "BAVL_Insert cmp h node =
     (case bt_root h of
        None \<Rightarrow> Some (leaf_node node None (h\<lparr>bt_root := Some node\<rparr>), True, None)
      | Some c \<Rightarrow>
        (case descend (cmp node) h c of
           None \<Rightarrow> None
         | Some (Inl c) \<Rightarrow> Some (h, False, Some c)
         | Some (Inr (c, side)) \<Rightarrow>
             (case BAVL_rebalance (leaf_node node (Some c) (set_link c side (Some node) h)) c side 1 of
                None \<Rightarrow> None | Some h \<Rightarrow> Some (h, True, Some c))))"

definition BAVL_Remove :: "BAVL \<Rightarrow> nat \<Rightarrow> BAVL option" where
  "BAVL_Remove h node =
     (case (case (bt_link h node False, bt_link h node True) of
              (Some l, Some r) \<Rightarrow> map_option (BAVL_swap_nodes h node) (BAVL_subtree_max h l)
            | _ \<Rightarrow> Some h) of
        None \<Rightarrow> None
      | Some h \<Rightarrow>
        (let parent = bt_parent h node;
             child = (if bt_link h node False \<noteq> None then bt_link h node False else bt_link h node True)
         in case parent of
              None \<Rightarrow> Some (BAVL_replace_subtree h node child)
            | Some p \<Rightarrow>
              (let side = (Some node = bt_link h p True)
               in BAVL_rebalance (BAVL_replace_subtree h node child) p side (-1))))"

definition BAVL_IsEmpty :: "BAVL \<Rightarrow> bool" where
  "BAVL_IsEmpty h = (bt_root h = None)"

text \<open>\<open>cp\<close> compares the value looked up with that of a node.  The outer \<open>option\<close> is the one above.\<close>

definition BAVL_Lookup :: "(nat \<Rightarrow> int) \<Rightarrow> BAVL \<Rightarrow> nat option option" where
  "BAVL_Lookup cp h =
     (case bt_root h of None \<Rightarrow> Some None
      | Some c \<Rightarrow> map_option (\<lambda>r. case r of Inl c \<Rightarrow> Some c | Inr (c, _) \<Rightarrow> Some c) (descend cp h c))"

definition BAVL_LookupExact :: "(nat \<Rightarrow> int) \<Rightarrow> BAVL \<Rightarrow> nat option option" where
  "BAVL_LookupExact cp h =
     (case bt_root h of None \<Rightarrow> Some None
      | Some c \<Rightarrow> map_option (\<lambda>r. case r of Inl c \<Rightarrow> Some c | Inr _ \<Rightarrow> None) (descend cp h c))"

definition BAVL_GetFirst :: "BAVL \<Rightarrow> nat option option" where
  "BAVL_GetFirst h = (case bt_root h of None \<Rightarrow> Some None | Some n \<Rightarrow> map_option Some (subtree_end False h n))"

definition BAVL_GetLast :: "BAVL \<Rightarrow> nat option option" where
  "BAVL_GetLast h = (case bt_root h of None \<Rightarrow> Some None | Some n \<Rightarrow> map_option Some (subtree_end True h n))"

text \<open>The loop up: while the node is the child on side \<open>s\<close> of its parent.\<close>

partial_function (option) climb :: "bool \<Rightarrow> BAVL \<Rightarrow> nat \<Rightarrow> nat option" where
  "climb s h n = (case bt_parent h n of None \<Rightarrow> Some n
     | Some p \<Rightarrow> if Some n = bt_link h p s then climb s h p else Some n)"

definition neighbour :: "bool \<Rightarrow> BAVL \<Rightarrow> nat \<Rightarrow> nat option option" where
  "neighbour s h n = (case bt_link h n s of Some c \<Rightarrow> map_option Some (subtree_end (\<not> s) h c)
     | None \<Rightarrow> map_option (bt_parent h) (climb s h n))"

definition BAVL_GetNext :: "BAVL \<Rightarrow> nat \<Rightarrow> nat option option" where
  "BAVL_GetNext h n = neighbour True h n"

definition BAVL_GetPrev :: "BAVL \<Rightarrow> nat \<Rightarrow> nat option option" where
  "BAVL_GetPrev h n = neighbour False h n"

declare subtree_end.simps [code] BAVL_rebalance.simps [code] descend.simps [code] climb.simps [code]

text \<open>The check of the tree, which aborts (\<open>None\<close>) when a link, the order or a balance field is wrong.\<close>

partial_function (option) assert_recurser :: "(nat \<Rightarrow> nat \<Rightarrow> int) \<Rightarrow> BAVL \<Rightarrow> nat \<Rightarrow> int option" where
  "assert_recurser cmp h n =
     (if bt_balance h n < -1 \<or> bt_balance h n > 1 then None
      else Option.bind (case bt_link h n False of None \<Rightarrow> Some 0
             | Some l \<Rightarrow> if bt_parent h l = Some n \<and> cmp l n = -1 then assert_recurser cmp h l else None) (\<lambda>height_left.
           Option.bind (case bt_link h n True of None \<Rightarrow> Some 0
             | Some r \<Rightarrow> if bt_parent h r = Some n \<and> cmp r n = 1 then assert_recurser cmp h r else None) (\<lambda>height_right.
           if bt_balance h n = height_right - height_left then Some (max height_left height_right + 1) else None)))"

definition BAVL_Verify :: "(nat \<Rightarrow> nat \<Rightarrow> int) \<Rightarrow> BAVL \<Rightarrow> unit option" where
  "BAVL_Verify cmp h =
     (case bt_root h of None \<Rightarrow> Some ()
      | Some r \<Rightarrow> if bt_parent h r = None then map_option (\<lambda>_. ()) (assert_recurser cmp h r) else None)"

declare assert_recurser.simps [code]

subsection \<open>Trees in memory\<close>

text \<open>\<open>nd s t n u\<close> is the tree with root \<open>n\<close>, \<open>t\<close> on side \<open>s\<close> and \<open>u\<close> on the other.\<close>

definition nd :: "bool \<Rightarrow> nat tree \<Rightarrow> nat \<Rightarrow> nat tree \<Rightarrow> nat tree" where
  "nd s t n u = (if s then Node u n t else Node t n u)"

lemma nd_simps: "nd True t n u = Node u n t" "nd False t n u = Node t n u"
  by (simp_all add: nd_def)

lemma nd_not [simp]: "nd (\<not> s) t n u = nd s u n t"
  by (simp add: nd_def)

lemma set_nd [simp]: "set_tree (nd s t n u) = insert n (set_tree t \<union> set_tree u)"
  by (auto simp: nd_def)

lemma height_nd [simp]: "height (nd s t n u) = max (height t) (height u) + 1"
  by (simp add: nd_def max.commute)

lemma nd_not_Leaf [simp]: "nd s t n u \<noteq> Leaf"
  by (simp add: nd_def)

lemma tree_nd_cases: "t = Leaf \<or> (\<exists>u n v. t = nd s u n v)"
  by (cases t; cases s) (auto simp: nd_def)

definition ptr :: "nat tree \<Rightarrow> nat option" where
  "ptr t = (case t of Leaf \<Rightarrow> None | Node _ n _ \<Rightarrow> Some n)"

lemma ptr_simps [simp]: "ptr Leaf = None" "ptr (Node l n r) = Some n" "ptr (nd s t n u) = Some n"
  by (simp_all add: ptr_def nd_def)

lemma ptr_None [simp]: "ptr t = None \<longleftrightarrow> t = Leaf"
  by (cases t) simp_all

lemma ptr_in: "ptr t = Some n \<Longrightarrow> n \<in> set_tree t"
  by (cases t) simp_all

text \<open>\<open>tr h q t\<close>: the nodes of \<open>t\<close> are linked in \<open>h\<close> as in \<open>t\<close>, and its root has the parent \<open>q\<close>.\<close>

fun tr :: "BAVL \<Rightarrow> nat option \<Rightarrow> nat tree \<Rightarrow> bool" where
  "tr h q Leaf = True"
| "tr h q (Node l n r) =
     (bt_parent h n = q \<and> bt_link h n False = ptr l \<and> bt_link h n True = ptr r \<and> tr h (Some n) l \<and> tr h (Some n) r)"

definition rep :: "BAVL \<Rightarrow> nat tree \<Rightarrow> bool" where
  "rep h t = (bt_root h = ptr t \<and> tr h None t)"

lemma tr_nd [simp]:
  "tr h q (nd s t n u) \<longleftrightarrow>
     bt_parent h n = q \<and> bt_link h n s = ptr t \<and> bt_link h n (\<not> s) = ptr u \<and> tr h (Some n) t \<and> tr h (Some n) u"
  by (cases s) (auto simp: nd_def)

lemma tr_cong:
  "(\<And>m. m \<in> set_tree t \<Longrightarrow> bt_parent h' m = bt_parent h m \<and> bt_link h' m = bt_link h m) \<Longrightarrow> tr h' q t = tr h q t"
  by (induction t arbitrary: q) auto

text \<open>A frame is a node with the subtree on its other side; a list of frames leads from a subtree to the root.\<close>

type_synonym frame = "bool \<times> nat \<times> nat tree"

fun plug :: "nat tree \<Rightarrow> frame list \<Rightarrow> nat tree" where
  "plug t [] = t"
| "plug t ((s, n, u) # fs) = plug (nd s t n u) fs"

fun fnodes :: "frame list \<Rightarrow> nat list" where
  "fnodes [] = []"
| "fnodes ((s, n, u) # fs) = n # inorder u @ fnodes fs"

fun lo :: "frame list \<Rightarrow> nat list" where
  "lo [] = []"
| "lo ((s, n, u) # fs) = lo fs @ (if s then inorder u @ [n] else [])"

fun hi :: "frame list \<Rightarrow> nat list" where
  "hi [] = []"
| "hi ((s, n, u) # fs) = (if s then [] else n # inorder u) @ hi fs"

definition up :: "frame list \<Rightarrow> nat option" where
  "up fs = (case fs of [] \<Rightarrow> None | (s, n, u) # _ \<Rightarrow> Some n)"

lemma up_simps [simp]: "up [] = None" "up ((s, n, u) # fs) = Some n"
  by (simp_all add: up_def)

lemma up_in: "up fs = Some m \<Longrightarrow> m \<in> set (fnodes fs)"
  by (auto simp: up_def split: list.splits)

text \<open>\<open>cx h p fs\<close>: the frames are linked as in \<open>fs\<close>, around a subtree with the root pointer \<open>p\<close>.\<close>

fun cx :: "BAVL \<Rightarrow> nat option \<Rightarrow> frame list \<Rightarrow> bool" where
  "cx h p [] = (bt_root h = p)"
| "cx h p ((s, n, u) # fs) =
     (bt_link h n s = p \<and> bt_link h n (\<not> s) = ptr u \<and> tr h (Some n) u \<and> bt_parent h n = up fs \<and> cx h (Some n) fs)"

lemma rep_plug: "rep h (plug t fs) \<longleftrightarrow> tr h (up fs) t \<and> cx h (ptr t) fs"
  by (induction t fs rule: plug.induct) (auto simp: rep_def)

lemma cx_cong:
  assumes "bt_root h' = bt_root h" "\<And>m. m \<in> set (fnodes fs) \<Longrightarrow> bt_parent h' m = bt_parent h m \<and> bt_link h' m = bt_link h m"
  shows "cx h' p fs = cx h p fs"
  using assms by (induction h p fs rule: cx.induct) (auto cong: tr_cong)

lemma inorder_plug: "inorder (plug t fs) = lo fs @ inorder t @ hi fs"
  by (induction t fs rule: plug.induct) (auto simp: nd_def)

lemma mset_frames: "mset (lo fs) + mset (hi fs) = mset (fnodes fs)"
  by (induction fs rule: fnodes.induct) (auto simp: ac_simps)

lemma set_frames: "set (fnodes fs) = set (lo fs) \<union> set (hi fs)"
  using arg_cong [OF mset_frames, of set_mset fs] by simp

lemma distinct_plug:
  "distinct (inorder (plug t fs)) \<longleftrightarrow>
     distinct (inorder t) \<and> distinct (fnodes fs) \<and> set_tree t \<inter> set (fnodes fs) = {}"
proof -
  have "mset (inorder (plug t fs)) = mset (inorder t @ fnodes fs)"
    using mset_frames [of fs] by (simp add: inorder_plug ac_simps)
  then have "distinct (inorder (plug t fs)) = distinct (inorder t @ fnodes fs)" by (rule mset_eq_imp_distinct_iff)
  then show ?thesis by auto
qed

lemma set_plug: "set_tree (plug t fs) = set_tree t \<union> set (fnodes fs)"
  by (induction t fs rule: plug.induct) auto

lemma distinct_nd [simp]:
  "distinct (inorder (nd s t n u)) \<longleftrightarrow>
     distinct (inorder t) \<and> distinct (inorder u) \<and> n \<notin> set_tree t \<and> n \<notin> set_tree u \<and> set_tree t \<inter> set_tree u = {}"
  by (auto simp: nd_def)

lemma plug_append: "plug t (fs @ gs) = plug (plug t fs) gs"
  by (induction t fs rule: plug.induct) auto

lemma plug_exists: "n \<in> set_tree t \<Longrightarrow> \<exists>l r gs. plug t fs = plug (Node l n r) (gs @ fs)"
proof (induction t arbitrary: fs)
  case (Node l m r)
  then consider "n = m" | "n \<in> set_tree l" | "n \<in> set_tree r" by auto
  then show ?case
  proof cases
    case 1
    then show ?thesis by (metis append_Nil)
  next
    case 2
    with Node.IH(1) [of "(False, m, r) # fs"] show ?thesis by (simp add: nd_def) (metis append_Cons append_assoc append_Nil)
  next
    case 3
    with Node.IH(2) [of "(True, m, l) # fs"] show ?thesis by (simp add: nd_def) (metis append_Cons append_assoc append_Nil)
  qed
qed simp

subsection \<open>Rotations\<close>

lemma set_fields [simp]:
  "bt_parent (set_parent n v h) = (bt_parent h)(n := v)" "bt_link (set_parent n v h) = bt_link h"
  "bt_balance (set_parent n v h) = bt_balance h" "bt_root (set_parent n v h) = bt_root h"
  "bt_parent (set_link n s v h) = bt_parent h" "bt_link (set_link n s v h) = (bt_link h)(n := (bt_link h n)(s := v))"
  "bt_balance (set_link n s v h) = bt_balance h" "bt_root (set_link n s v h) = bt_root h"
  "bt_parent (set_balance n b h) = bt_parent h" "bt_link (set_balance n b h) = bt_link h"
  "bt_balance (set_balance n b h) = (bt_balance h)(n := b)" "bt_root (set_balance n b h) = bt_root h"
  by (simp_all add: set_parent_def set_link_def set_balance_def)

lemma set_parent_opt_fields [simp]:
  "bt_parent (set_parent_opt c p h) = (\<lambda>m. if c = Some m then p else bt_parent h m)" "bt_link (set_parent_opt c p h) = bt_link h"
  "bt_balance (set_parent_opt c p h) = bt_balance h" "bt_root (set_parent_opt c p h) = bt_root h"
  by (auto simp: set_parent_opt_def fun_eq_iff split: option.split)

lemma set_down_fields [simp]:
  "bt_parent (set_down q r v h) = bt_parent h" "bt_balance (set_down q r v h) = bt_balance h"
  "bt_root (set_down q r v h) = (if q = None then v else bt_root h)"
  "bt_link (set_down q r v h) = (\<lambda>m. if q = Some m then (bt_link h m)(Some r = bt_link h m True := v) else bt_link h m)"
  by (auto simp: set_down_def fun_eq_iff split: option.split)

lemma rep_set_balance [simp]: "rep (set_balance n b h) t = rep h t"
  by (simp add: rep_def cong: tr_cong)

text \<open>The frames around a replaced subtree: only the link that leads down to it has changed.\<close>

lemma cx_replace:
  assumes "cx h (Some r) fs" "distinct (fnodes fs)" "r \<notin> set (fnodes fs)"
    "\<And>m. m \<in> set (fnodes fs) \<Longrightarrow> bt_parent h' m = bt_parent h m"
    "\<And>m. m \<in> set (fnodes fs) \<Longrightarrow> bt_link h' m = (if up fs = Some m then (bt_link h m)(Some r = bt_link h m True := v) else bt_link h m)"
    "bt_root h' = (if up fs = None then v else bt_root h)"
  shows "cx h' v fs"
proof (cases fs)
  case Nil
  with assms show ?thesis by simp
next
  case (Cons f fs')
  obtain s p u where f: "f = (s, p, u)" by (cases f)
  note fs = Cons [unfolded f]
  have "ptr u \<noteq> Some r" using assms(3) fs by (auto dest: ptr_in)
  then have side: "(Some r = bt_link h p True) = s" using assms(1) fs by (cases s) auto
  have "tr h' (Some p) u = tr h (Some p) u" "cx h' (Some p) fs' = cx h (Some p) fs'"
    using assms(2,4-6) fs by (auto intro!: tr_cong cx_cong)
  with assms side fs show ?thesis by auto
qed

lemma tr_reparent:
  assumes "tr h q t" "distinct (inorder t)"
    "\<And>m. m \<in> set_tree t \<Longrightarrow> bt_link h' m = bt_link h m"
    "\<And>m. m \<in> set_tree t \<Longrightarrow> bt_parent h' m = (if ptr t = Some m then q' else bt_parent h m)"
  shows "tr h' q' t"
proof (cases t)
  case (Node l n r)
  have "tr h' (Some n) l = tr h (Some n) l" "tr h' (Some n) r = tr h (Some n) r"
    using assms(2-4) Node by (auto intro!: tr_cong)
  with assms Node show ?thesis by auto
qed simp

lemma rotate_rep:
  assumes rep: "rep h (plug (nd dir a r (nd dir b nr c)) fs)" and dis: "distinct (inorder (plug (nd dir a r (nd dir b nr c)) fs))"
  shows "\<exists>h'. BAVL_rotate h r dir = Some h' \<and> rep h' (plug (nd dir (nd dir a r b) nr c) fs) \<and> bt_balance h' = bt_balance h"
proof -
  have l: "bt_link h r (\<not> dir) = Some nr" "bt_link h nr dir = ptr b" "bt_parent h r = up fs" "bt_parent h nr = Some r"
    "bt_link h r dir = ptr a" "bt_link h nr (\<not> dir) = ptr c" using rep by (auto simp: rep_plug)
  have d: "nr \<noteq> r" "nr \<notin> set (fnodes fs)" "r \<notin> set (fnodes fs)" "up fs \<noteq> Some r" "up fs \<noteq> Some nr"
    "ptr b \<noteq> Some nr" "ptr b \<noteq> Some r"
    using dis by (auto simp: distinct_plug dest!: ptr_in up_in)
  have e: "ptr b \<noteq> Some m \<and> up fs \<noteq> Some m" if "m \<in> set_tree a \<union> set_tree c" for m
    using that dis by (auto simp: distinct_plug dest!: ptr_in up_in)
  define h' where "h' = set_parent r (Some nr) (set_down (up fs) r (Some nr) (set_parent nr (up fs) (set_link nr dir (Some r)
    (set_parent_opt (ptr b) (Some r) (set_link r (\<not> dir) (ptr b) h)))))"
  have rot: "BAVL_rotate h r dir = Some h'" using l d by (simp add: BAVL_rotate_def h'_def Let_def)
  have "cx h' (Some nr) fs"
    by (rule cx_replace [of h r]) (use rep dis d in \<open>auto simp: rep_plug distinct_plug h'_def dest: ptr_in\<close>)
  moreover have "tr h' (Some r) a = tr h (Some r) a" "tr h' (Some nr) c = tr h (Some nr) c"
    using dis e by (auto intro!: tr_cong simp: distinct_plug h'_def)
  moreover have "tr h' (Some r) b"
    by (rule tr_reparent [of h "Some nr"]) (use rep dis in \<open>auto simp: distinct_plug rep_plug h'_def dest!: up_in\<close>)
  moreover have "bt_link h' r dir = ptr a" "bt_link h' r (\<not> dir) = ptr b" "bt_link h' nr dir = Some r" "bt_link h' nr (\<not> dir) = ptr c"
    "bt_parent h' r = Some nr" "bt_parent h' nr = up fs" using l d by (auto simp: h'_def)
  ultimately have "rep h' (plug (nd dir (nd dir a r b) nr c) fs)" using rep by (auto simp: rep_plug)
  with rot show ?thesis by (auto simp: h'_def)
qed

subsection \<open>Balance\<close>

definition sg :: "bool \<Rightarrow> int" where
  "sg s = (if s then 1 else -1)"

lemma sg_simps [simp]: "sg True = 1" "sg False = -1" "sg (\<not> s) = - sg s" "sg s * (sg s * x) = x" "sg s * sg s = 1" "\<bar>sg s * x\<bar> = \<bar>x\<bar>" "\<bar>x * sg s\<bar> = \<bar>x\<bar>" "sg s \<noteq> 0" "\<bar>sg s\<bar> = 1"
  by (simp_all add: sg_def abs_minus_commute)

text \<open>The balance fields are the differences of the heights, and at most one in size.\<close>

fun avl :: "(nat \<Rightarrow> int) \<Rightarrow> nat tree \<Rightarrow> bool" where
  "avl b Leaf = True"
| "avl b (Node l n r) = (avl b l \<and> avl b r \<and> b n = int (height r) - int (height l) \<and> \<bar>b n\<bar> \<le> 1)"

text \<open>The same for the frames around a subtree of height \<open>H\<close>.\<close>

fun cav :: "(nat \<Rightarrow> int) \<Rightarrow> int \<Rightarrow> frame list \<Rightarrow> bool" where
  "cav b H [] = True"
| "cav b H ((s, n, u) # fs) =
     (avl b u \<and> b n = sg s * (H - int (height u)) \<and> \<bar>b n\<bar> \<le> 1 \<and> cav b (1 + max H (int (height u))) fs)"

lemma avl_nd [simp]:
  "avl b (nd s t n u) \<longleftrightarrow> avl b t \<and> avl b u \<and> b n = sg s * (int (height t) - int (height u)) \<and> \<bar>b n\<bar> \<le> 1"
  by (cases s) (auto simp: nd_def)

lemma avl_plug: "avl b (plug t fs) \<longleftrightarrow> avl b t \<and> cav b (int (height t)) fs"
  by (induction t fs rule: plug.induct) (auto simp: of_nat_max)

lemma avl_cong: "(\<And>m. m \<in> set_tree t \<Longrightarrow> b' m = b m) \<Longrightarrow> avl b' t = avl b t"
  by (induction t) auto

lemma avl_upd [simp]: "n \<notin> set_tree t \<Longrightarrow> avl (b(n := x)) t = avl b t"
  by (rule avl_cong) auto

lemma cav_cong: "(\<And>m. m \<in> set (fnodes fs) \<Longrightarrow> b' m = b m) \<Longrightarrow> cav b' H fs = cav b H fs"
  by (induction b H fs rule: cav.induct) (auto cong: avl_cong)

lemma rotate_up:
  assumes "rep h (plug (nd s (nd s c nr b) r a) fs)" "distinct (inorder (plug (nd s (nd s c nr b) r a) fs))"
  shows "\<exists>h'. BAVL_rotate h r (\<not> s) = Some h' \<and> rep h' (plug (nd s c nr (nd s b r a)) fs) \<and> bt_balance h' = bt_balance h"
  using rotate_rep [of h "\<not> s" a r b nr c fs] assms by simp

text \<open>The outcome of restoring the balance at the root of a subtree.\<close>

definition restored :: "BAVL \<Rightarrow> nat tree \<Rightarrow> frame list \<Rightarrow> int \<Rightarrow> BAVL \<times> nat \<times> int \<Rightarrow> bool" where
  "restored h t fs delta r =
     (\<exists>t'. rep (fst r) (plug t' fs) \<and> ptr t' = Some (fst (snd r)) \<and> inorder t' = inorder t \<and> avl (bt_balance (fst r)) t' \<and>
        int (height t') = int (height t) + (snd (snd r) - delta) \<and>
        (snd (snd r) = delta \<or> snd (snd r) = delta - 1 \<and> \<not> avl (bt_balance h) t) \<and>
        (\<forall>m. m \<notin> set_tree t \<longrightarrow> bt_balance (fst r) m = bt_balance h m))"

lemma rebalance_node_side:
  assumes "bt_balance h n = 2 * sg s" "bt_link h n s = Some c"
  shows "rebalance_node h n delta =
    (if bt_balance h c * sg s = 1 then
       map_option (\<lambda>h. (set_balance c 0 (set_balance n 0 h), c, delta - 1)) (BAVL_rotate h n (\<not> s))
     else if bt_balance h c = 0 then
       map_option (\<lambda>h. (set_balance c (- sg s) (set_balance n (sg s) h), c, delta)) (BAVL_rotate h n (\<not> s))
     else if bt_balance h c * sg s = -1 then
       Option.bind (bt_link h c (\<not> s)) (\<lambda>g. Option.bind (BAVL_rotate h c s) (\<lambda>h. Option.bind (BAVL_rotate h n (\<not> s)) (\<lambda>h.
         (let h = set_balance n (- max 0 (bt_balance h g * sg s) * sg s) h
          in Some (set_balance g 0 (set_balance c (max 0 (- bt_balance h g * sg s) * sg s) h), g, delta - 1)))))
     else None)"
  using assms by (cases s) (auto simp: rebalance_node_def Let_def split: option.split)

lemma rebalance_single:
  assumes rep: "rep h (plug (nd s (nd s t1 c t2) n u) fs)" and dis: "distinct (inorder (plug (nd s (nd s t1 c t2) n u) fs))"
    and avl: "avl (bt_balance h) t1" "avl (bt_balance h) t2" "avl (bt_balance h) u"
    and bal: "bt_balance h n = 2 * sg s" "bt_balance h c = sg s * (int (height t1) - int (height t2))"
    and ht: "height t1 = Suc (height u)" "height t2 = height u \<or> height t2 = Suc (height u)"
  shows "\<exists>r. rebalance_node h n delta = Some r \<and> restored h (nd s (nd s t1 c t2) n u) fs delta r"
proof -
  obtain h1 where h1: "BAVL_rotate h n (\<not> s) = Some h1" "rep h1 (plug (nd s t1 c (nd s t2 n u)) fs)" "bt_balance h1 = bt_balance h"
    using rotate_up [OF rep dis] by auto
  have upd: "avl ((bt_balance h)(n := x, c := y)) v" if "v \<in> {t1, t2, u}" for x y v
    using that dis avl by (auto simp: distinct_plug)
  have "n \<noteq> c" using dis by (simp add: distinct_plug)
  define k where "k = (if height t2 = height u then 0 else sg s)"
  define h' where "h' = set_balance c (- k) (set_balance n k h1)"
  define d where "d = (if height t2 = height u then delta - 1 else delta)"
  have "bt_link h n s = Some c" using rep by (simp add: rep_plug)
  then have "rebalance_node h n delta = Some (h', c, d)"
    using bal ht by (auto simp: rebalance_node_side h1 k_def h'_def d_def)
  moreover have "restored h (nd s (nd s t1 c t2) n u) fs delta (h', c, d)"
    unfolding restored_def fst_conv snd_conv
  proof (intro exI [of _ "nd s t1 c (nd s t2 n u)"] conjI)
    have "avl (bt_balance h') v" if "v \<in> {t1, t2, u}" for v using that upd by (simp add: h'_def h1)
    then show "avl (bt_balance h') (nd s t1 c (nd s t2 n u))"
      using ht \<open>n \<noteq> c\<close> by (auto simp: h'_def k_def)
    show "int (height (nd s t1 c (nd s t2 n u))) = int (height (nd s (nd s t1 c t2) n u)) + (d - delta)"
      using ht by (auto simp: d_def)
    show "inorder (nd s t1 c (nd s t2 n u)) = inorder (nd s (nd s t1 c t2) n u)" by (cases s) (simp_all add: nd_simps)
  qed (use h1 bal in \<open>simp_all add: h'_def d_def abs_mult\<close>)
  ultimately show ?thesis by blast
qed

lemma rebalance_double:
  assumes rep: "rep h (plug (nd s (nd s t1 c (nd s g1 g g2)) n u) fs)"
    and dis: "distinct (inorder (plug (nd s (nd s t1 c (nd s g1 g g2)) n u) fs))"
    and avl: "avl (bt_balance h) t1" "avl (bt_balance h) (nd s g1 g g2)" "avl (bt_balance h) u"
    and bal: "bt_balance h n = 2 * sg s" "bt_balance h c = - sg s"
    and ht: "height t1 = height u" "max (height g1) (height g2) = height u"
  shows "\<exists>r. rebalance_node h n delta = Some r \<and> restored h (nd s (nd s t1 c (nd s g1 g g2)) n u) fs delta r"
proof -
  let ?t' = "nd s (nd s t1 c g1) g (nd s g2 n u)"
  obtain h2 where h2: "BAVL_rotate h c s = Some h2" "rep h2 (plug (nd s (nd s (nd s t1 c g1) g g2) n u) fs)" "bt_balance h2 = bt_balance h"
    using rotate_rep [of h s t1 c g1 g g2 "(s, n, u) # fs"] rep dis by auto
  have dis2: "distinct (inorder (plug (nd s (nd s (nd s t1 c g1) g g2) n u) fs))" using dis by (simp add: distinct_plug) blast
  obtain h3 where h3: "BAVL_rotate h2 n (\<not> s) = Some h3" "rep h3 (plug ?t' fs)" "bt_balance h3 = bt_balance h"
    using rotate_up [OF h2(2) dis2] h2(3) by auto
  define w where "w = bt_balance h g * sg s"
  define h' where "h' = set_balance g 0 (set_balance c (max 0 (- w) * sg s) (set_balance n (- max 0 w * sg s) h3))"
  have w: "w = int (height g1) - int (height g2)" "\<bar>w\<bar> \<le> 1" using avl(2) by (auto simp: mult.commute w_def)
  have hs: "max 0 (- w) = int (height t1) - int (height g1)" "- max 0 w = int (height g2) - int (height u)"
    "max (height t1) (height g1) = height u" "max (height g2) (height u) = height u"
    using ht w(1) by (auto simp: max_def split: if_splits)
  have ne: "c \<noteq> g" "n \<noteq> g" "n \<noteq> c" using dis2 by (auto simp: distinct_plug)
  have "bt_link h n s = Some c" "bt_link h c (\<not> s) = Some g" using rep by (simp_all add: rep_plug)
  then have "rebalance_node h n delta = Some (h', g, delta - 1)"
    using bal ne by (simp add: rebalance_node_side h2 h3 w_def h'_def Let_def)
  moreover have "restored h (nd s (nd s t1 c (nd s g1 g g2)) n u) fs delta (h', g, delta - 1)"
    unfolding restored_def fst_conv snd_conv
  proof (intro exI [of _ ?t'] conjI)
    have "n \<notin> set_tree v \<and> c \<notin> set_tree v \<and> g \<notin> set_tree v \<and> avl (bt_balance h) v" if "v \<in> {t1, g1, g2, u}" for v
      using that dis2 avl by (auto simp: distinct_plug)
    then have ab: "avl (bt_balance h') v" if "v \<in> {t1, g1, g2, u}" for v using that by (simp add: h'_def h3)
    have "\<bar>max 0 (- w)\<bar> \<le> 1" "\<bar>max 0 w\<bar> \<le> 1" using w(2) by auto
    then have "avl (bt_balance h') (nd s t1 c g1)" "avl (bt_balance h') (nd s g2 n u)"
      using ab ne by (simp_all add: hs(1,2) [symmetric] h'_def mult.commute)
    then show "avl (bt_balance h') ?t'"
      unfolding avl_nd [of _ s "nd s t1 c g1"] using hs(3,4) by (simp add: h'_def del: avl_nd)
    show "int (height ?t') = int (height (nd s (nd s t1 c (nd s g1 g g2)) n u)) + (delta - 1 - delta)"
      using ht hs(3,4) by simp
    show "inorder ?t' = inorder (nd s (nd s t1 c (nd s g1 g g2)) n u)" by (cases s) (simp_all add: nd_simps)
  qed (use h3 bal in \<open>simp_all add: h'_def abs_mult\<close>)
  ultimately show ?thesis by blast
qed

lemma rebalance_heavy:
  assumes rep: "rep h (plug (nd s t n u) fs)" and dis: "distinct (inorder (plug (nd s t n u) fs))"
    and avl: "avl (bt_balance h) t" "avl (bt_balance h) u" and ht: "height t = Suc (Suc (height u))"
    and bal: "bt_balance h n = 2 * sg s"
  shows "\<exists>r. rebalance_node h n delta = Some r \<and> restored h (nd s t n u) fs delta r"
proof -
  obtain t1 c t2 where t: "t = nd s t1 c t2" using ht tree_nd_cases [of t s] by auto
  have m: "max (height t1) (height t2) = Suc (height u)" "\<bar>int (height t1) - int (height t2)\<bar> \<le> 1"
    using ht avl(1) by (auto simp: t)
  then consider "height t1 = Suc (height u)" "height t2 = height u \<or> height t2 = Suc (height u)"
    | "height t1 = height u" "height t2 = Suc (height u)" by (simp add: max_def split: if_splits) linarith
  then show ?thesis
  proof cases
    case 1
    then show ?thesis unfolding t by (intro rebalance_single) (use rep dis avl bal t in auto)
  next
    case 2
    then obtain g1 g g2 where t2: "t2 = nd s g1 g g2" using tree_nd_cases [of t2 s] by auto
    with 2 have "max (height g1) (height g2) = height u" "bt_balance h c = - sg s" using avl(1) by (auto simp: t)
    then show ?thesis unfolding t t2 by (intro rebalance_double) (use rep dis avl bal t t2 2 in auto)
  qed
qed

lemma rebalance_node_restores:
  assumes "rep h (plug (nd s t n u) fs)" "distinct (inorder (plug (nd s t n u) fs))" "avl (bt_balance h) t" "avl (bt_balance h) u"
    "bt_balance h n = sg s * (int (height t) - int (height u))" "\<bar>int (height t) - int (height u)\<bar> \<le> 2"
  shows "\<exists>r. rebalance_node h n delta = Some r \<and> restored h (nd s t n u) fs delta r"
proof -
  consider "height t = Suc (Suc (height u))" | "height u = Suc (Suc (height t))" | "\<bar>int (height t) - int (height u)\<bar> \<le> 1"
    using assms(6) by arith
  then show ?thesis
  proof cases
    case 1
    with assms show ?thesis by (intro rebalance_heavy) auto
  next
    case 2
    then show ?thesis using rebalance_heavy [of h "\<not> s" u n t fs delta] assms by simp
  next
    case 3
    then have "rebalance_node h n delta = Some (h, n, delta)" using assms(5) by (cases s) (auto simp: rebalance_node_def)
    moreover have "restored h (nd s t n u) fs delta (h, n, delta)"
      unfolding restored_def using assms 3 by (intro exI [of _ "nd s t n u"]) simp
    ultimately show ?thesis by blast
  qed
qed

text \<open>One turn of \<^verbatim>\<open>_BAVL_rebalance\<close>, when the height of a subtree has changed by \<^verbatim>\<open>deltac\<close> and the balance fields
  above it are still the old ones: the subtree one level up is balanced, and its height has changed by the new \<^verbatim>\<open>delta\<close>,
  which is again at most one in size, as the assertion of the code says.\<close>

lemma rebalance_step:
  assumes rep: "rep h (plug t ((s, n, u) # fs))" and dis: "distinct (inorder (plug t ((s, n, u) # fs)))"
    and avl: "avl (bt_balance h) t" "cav (bt_balance h) (int (height t) - deltac) ((s, n, u) # fs)" and d: "\<bar>deltac\<bar> \<le> 1" "deltac \<noteq> 0"
  shows "\<exists>h1 t1 m d. rep h1 (plug t1 fs) \<and> ptr t1 = Some m \<and> inorder t1 = inorder (nd s t n u) \<and> avl (bt_balance h1) t1 \<and>
    cav (bt_balance h1) (int (height t1) - d) fs \<and> \<bar>d\<bar> \<le> 1 \<and>
    BAVL_rebalance h n s deltac = (case bt_parent h1 m of None \<Rightarrow> Some h1
      | Some p \<Rightarrow> BAVL_rebalance h1 p (Some m = bt_link h1 p True) d)"
proof -
  define H where "H = int (height t) - deltac"
  define h0 where "h0 = set_balance n (bt_balance h n - optneg deltac s) h"
  define delta where "delta = max (H + deltac) (int (height u)) - max H (int (height u))"
  have bn: "bt_balance h n = sg s * (H - int (height u))" "\<bar>H - int (height u)\<bar> \<le> 1" using avl(2) by (auto simp: H_def)
  have delta: "max deltac (optneg (bt_balance h n) s) - max 0 (optneg (bt_balance h n) s) = delta"
    using bn(1) by (cases s) (auto simp: optneg_def delta_def max_def)
  have n: "n \<notin> set_tree t" "n \<notin> set_tree u" "n \<notin> set (fnodes fs)" using dis by (auto simp: distinct_plug)
  have nd: "\<bar>int (height t) - int (height u)\<bar> \<le> 2" using bn(2) d by (simp add: H_def)
  have b0: "bt_balance h0 n = sg s * (int (height t) - int (height u))"
    using bn(1) by (cases s) (auto simp: h0_def optneg_def H_def)
  have avl0: "avl (bt_balance h0) t" "avl (bt_balance h0) u" using avl n by (auto simp: h0_def)
  obtain r where r: "rebalance_node h0 n delta = Some r" "restored h0 (nd s t n u) fs delta r"
    using rebalance_node_restores [of h0 s t n u fs delta] rep dis avl0 b0 nd by (auto simp: h0_def)
  obtain h1 m d where r': "r = (h1, m, d)" by (cases r)
  from r(2) obtain t1 where t1: "rep h1 (plug t1 fs)" "ptr t1 = Some m" "inorder t1 = inorder (nd s t n u)" "avl (bt_balance h1) t1"
    "int (height t1) = int (height (nd s t n u)) + (d - delta)" "d = delta \<or> d = delta - 1 \<and> \<not> avl (bt_balance h0) (nd s t n u)"
    "\<And>m. m \<notin> set_tree (nd s t n u) \<Longrightarrow> bt_balance h1 m = bt_balance h0 m"
    unfolding restored_def r' fst_conv snd_conv by blast
  have "cav (bt_balance h1) (1 + max H (int (height u))) fs = cav (bt_balance h) (1 + max H (int (height u))) fs"
  proof (intro cav_cong)
    fix m assume m: "m \<in> set (fnodes fs)"
    then have "m \<notin> set_tree (nd s t n u)" using dis by (auto simp: distinct_plug)
    with t1(7) m n(3) show "bt_balance h1 m = bt_balance h m" by (auto simp: h0_def)
  qed
  moreover have "int (height t1) - d = 1 + max H (int (height u))" using t1(5) by (simp add: delta_def H_def)
  ultimately have "cav (bt_balance h1) (int (height t1) - d) fs" using avl(2) by (simp add: H_def)
  moreover have "\<bar>d\<bar> \<le> 1"
    using t1(6) avl0 b0 d bn(2) by (auto simp: delta_def H_def max_def split: if_splits)
  moreover have "BAVL_rebalance h n s deltac = (case bt_parent h1 m of None \<Rightarrow> Some h1
      | Some p \<Rightarrow> BAVL_rebalance h1 p (Some m = bt_link h1 p True) d)"
    using d(2) r(1) by (subst BAVL_rebalance.simps) (simp add: Let_def delta h0_def r' split: option.split)
  ultimately show ?thesis using t1(1-4) by blast
qed

text \<open>The loop ends, and leaves a balanced tree with the same sequence of nodes.\<close>

definition balanced :: "BAVL option \<Rightarrow> nat list \<Rightarrow> bool" where
  "balanced r xs = (\<exists>h t. r = Some h \<and> rep h t \<and> avl (bt_balance h) t \<and> inorder t = xs)"

lemma balancedI: "rep h t \<Longrightarrow> avl (bt_balance h) t \<Longrightarrow> balanced (Some h) (inorder t)"
  by (auto simp: balanced_def)

lemma rebalance_balances:
  assumes "rep h (plug t ((s, n, u) # fs))" "distinct (inorder (plug t ((s, n, u) # fs)))" "avl (bt_balance h) t"
    "cav (bt_balance h) (int (height t) - deltac) ((s, n, u) # fs)" "\<bar>deltac\<bar> \<le> 1"
  shows "balanced (BAVL_rebalance h n s deltac) (inorder (plug t ((s, n, u) # fs)))"
  using assms
proof (induction fs arbitrary: h t s n u deltac rule: length_induct)
  case (1 fs h t s n u deltac)
  note prems = "1.prems"
  show ?case
  proof (cases "deltac = 0")
    case True
    then have "avl (bt_balance h) (plug t ((s, n, u) # fs))" unfolding avl_plug using prems by (simp del: cav.simps)
    moreover have "BAVL_rebalance h n s deltac = Some h" using True by (simp add: BAVL_rebalance.simps)
    ultimately show ?thesis using balancedI prems(1) by simp
  next
    case False
    from rebalance_step [OF prems False] obtain h1 t1 m d
      where t1: "rep h1 (plug t1 fs)" "ptr t1 = Some m" "inorder t1 = inorder (nd s t n u)" "avl (bt_balance h1) t1"
        "cav (bt_balance h1) (int (height t1) - d) fs" "\<bar>d\<bar> \<le> 1"
      and step: "BAVL_rebalance h n s deltac = (case bt_parent h1 m of None \<Rightarrow> Some h1
        | Some p \<Rightarrow> BAVL_rebalance h1 p (Some m = bt_link h1 p True) d)" by blast
    have ino: "inorder (plug t1 fs) = inorder (plug t ((s, n, u) # fs))" using t1(3) by (simp add: inorder_plug)
    obtain l r where "t1 = Node l m r" using t1(2) by (cases t1) auto
    then have par: "bt_parent h1 m = up fs" using t1(1) by (auto simp: rep_plug)
    show ?thesis
    proof (cases fs)
      case Nil
      then show ?thesis using step par t1 ino balancedI [of h1 t1] by simp
    next
      case (Cons f gs)
      obtain s' p v where f: "f = (s', p, v)" by (cases f)
      have "ptr v \<noteq> Some m" using prems(2) t1(2,3) unfolding ino [symmetric] by (auto simp: distinct_plug Cons f dest!: ptr_in)
      then have "(Some m = bt_link h1 p True) = s'" using t1(1,2) by (cases s') (auto simp: rep_plug Cons f)
      then have "BAVL_rebalance h n s deltac = BAVL_rebalance h1 p s' d" using step par by (simp add: Cons f)
      with "1.IH" [rule_format, of gs h1 t1 s' p v d] t1 prems(2) ino show ?thesis by (simp add: Cons f del: cav.simps)
    qed
  qed
qed

subsection \<open>Search and insertion\<close>

text \<open>The tree in memory holds the sequence \<open>xs\<close> and is balanced.\<close>

definition BAVL_tree :: "BAVL \<Rightarrow> nat list \<Rightarrow> bool" where
  "BAVL_tree h xs = (\<exists>t. rep h t \<and> avl (bt_balance h) t \<and> inorder t = xs \<and> distinct xs)"

lemma balanced_BAVL_tree: "balanced r xs \<Longrightarrow> distinct xs \<Longrightarrow> \<exists>h. r = Some h \<and> BAVL_tree h xs"
  by (auto simp: balanced_def BAVL_tree_def)

text \<open>\<open>cp\<close> compares a value with the nodes: it is larger than the nodes before a certain place, and smaller than those behind.\<close>

definition located :: "(nat \<Rightarrow> int) \<Rightarrow> nat list \<Rightarrow> bool" where
  "located cp xs = ((\<forall>x \<in> set xs. cp x \<in> {-1, 0, 1}) \<and> sorted_wrt (\<lambda>x y. 0 \<le> cp y \<longrightarrow> cp x = 1) xs)"

lemma located_append:
  assumes "located cp (xs @ y # ys)"
  shows "located cp xs" "located cp ys" "cp y \<in> {-1, 0, 1}" and "0 \<le> cp y \<Longrightarrow> x \<in> set xs \<Longrightarrow> cp x = 1"
    and "cp y \<le> 0 \<Longrightarrow> x \<in> set ys \<Longrightarrow> cp x = -1"
proof -
  let ?R = "\<lambda>x y. 0 \<le> cp y \<longrightarrow> cp x = 1"
  have rng: "cp x \<in> {-1, 0, 1}" if "x \<in> set xs \<or> x = y \<or> x \<in> set ys" for x
    using assms that unfolding located_def by (metis Un_iff list.set_intros set_append)
  have srt: "sorted_wrt ?R xs" "sorted_wrt ?R (y # ys)" "\<forall>x \<in> set xs. \<forall>z \<in> set (y # ys). ?R x z"
    using assms unfolding located_def sorted_wrt_append by blast+
  show "located cp xs" unfolding located_def using rng srt(1) by blast
  show "located cp ys" unfolding located_def using rng srt(2) [unfolded sorted_wrt.simps] by blast
  show "cp y \<in> {-1, 0, 1}" using rng by blast
  show "cp x = 1" if "0 \<le> cp y" "x \<in> set xs" using srt(3) that by (meson list.set_intros(1))
  assume y: "cp y \<le> 0" "x \<in> set ys"
  then have "?R y x" using srt(2) [unfolded sorted_wrt.simps] by blast
  with y have "\<not> 0 \<le> cp x" by linarith
  with rng [of x] y show "cp x = -1" by auto
qed

text \<open>The search from \<open>c\<close> ends at one of the nodes \<open>X\<close> that compares equal, or at the empty place in \<open>t\<close> where the value belongs.\<close>

definition descends :: "(nat \<Rightarrow> int) \<Rightarrow> BAVL \<Rightarrow> nat \<Rightarrow> nat set \<Rightarrow> nat tree \<Rightarrow> bool" where
  "descends cp h c X t =
     ((\<exists>x \<in> X. cp x = 0 \<and> descend cp h c = Some (Inl x)) \<or>
      (\<exists>s p u gs. descend cp h c = Some (Inr (p, s)) \<and> t = plug Leaf ((s, p, u) # gs) \<and>
         (\<forall>x \<in> set (lo ((s, p, u) # gs)). cp x = 1) \<and> (\<forall>x \<in> set (hi ((s, p, u) # gs)). cp x = -1)))"

lemma descends_mono: "descends cp h c' X t \<Longrightarrow> descend cp h c = descend cp h c' \<Longrightarrow> X \<subseteq> Y \<Longrightarrow> descends cp h c Y t"
  unfolding descends_def by (elim disjE) auto

lemma located_frame:
  assumes loc: "located cp (inorder l @ m # inorder r)" and m: "cp m \<noteq> 0"
    and fs: "\<forall>x \<in> set (lo fs). cp x = 1" "\<forall>x \<in> set (hi fs). cp x = -1"
  shows "(\<forall>x \<in> set (lo ((cp m = 1, m, if cp m = 1 then l else r) # fs)). cp x = 1) \<and>
    (\<forall>x \<in> set (hi ((cp m = 1, m, if cp m = 1 then l else r) # fs)). cp x = -1)"
proof (cases "cp m = 1")
  case True
  then have "\<forall>x \<in> set (inorder l). cp x = 1" using located_append(4) [OF loc] by (simp del: set_inorder)
  with True fs show ?thesis by auto
next
  case False
  then have "cp m = -1" using located_append(3) [OF loc] m by simp
  moreover have "\<forall>x \<in> set (inorder r). cp x = -1" using located_append(5) [OF loc] calculation by (simp del: set_inorder)
  ultimately show ?thesis using fs by auto
qed

lemma descend_spec:
  assumes "rep h (plug t fs)" "ptr t = Some c" "located cp (inorder t)" "\<forall>x \<in> set (lo fs). cp x = 1" "\<forall>x \<in> set (hi fs). cp x = -1"
  shows "descends cp h c (set_tree t) (plug t fs)"
  using assms
proof (induction t arbitrary: fs c)
  case (Node l m r)
  define s where "s = (cp m = 1)"
  define v where "v = (if s then r else l)"
  define w where "w = (if s then l else r)"
  have t: "Node l m r = nd s v m w" by (simp add: v_def w_def nd_def)
  have m: "m = c" "bt_link h m s = ptr v" using Node.prems(1,2) unfolding t by (auto simp: rep_plug)
  have loc: "located cp (inorder l @ m # inorder r)" using Node.prems(3) by simp
  show ?case
  proof (cases "cp m = 0")
    case True
    then have "descend cp h c = Some (Inl c)" using m by (subst descend.simps) simp
    then show ?thesis using m True by (auto simp: descends_def)
  next
    case False
    let ?fs = "(s, m, w) # fs"
    have fs: "plug (Node l m r) fs = plug v ?fs" by (simp add: t)
    have lo: "(\<forall>x \<in> set (lo ?fs). cp x = 1) \<and> (\<forall>x \<in> set (hi ?fs). cp x = -1)"
      unfolding w_def s_def by (rule located_frame [OF loc False Node.prems(4,5)])
    show ?thesis
    proof (cases v)
      case Leaf
      then have "descend cp h c = Some (Inr (c, s))" using m False by (subst descend.simps) (simp add: s_def)
      then show ?thesis unfolding descends_def fs using lo Leaf m(1) by blast
    next
      case v: (Node v1 c' v2)
      have desc: "descend cp h c = descend cp h c'" using m False v by (subst descend.simps) (simp add: s_def)
      have v': "located cp (inorder v)" "ptr v = Some c'" using located_append(1,2) [OF loc] by (simp add: v_def, simp add: v)
      have rep: "rep h (plug v ?fs)" using Node.prems(1) fs by simp
      have "v = l \<or> v = r" by (simp add: v_def)
      then have "descends cp h c' (set_tree v) (plug v ?fs)"
      proof
        assume "v = l"
        with Node.IH(1) rep v' lo show ?thesis by blast
      next
        assume "v = r"
        with Node.IH(2) rep v' lo show ?thesis by blast
      qed
      then show ?thesis unfolding fs by (rule descends_mono) (auto simp: desc v_def)
    qed
  qed
qed simp

lemma BAVL_Lookup_spec:
  assumes "rep h t" "located cp (inorder t)"
  shows "t = Leaf \<and> BAVL_Lookup cp h = Some None \<and> BAVL_LookupExact cp h = Some None \<or>
    (\<exists>x \<in> set_tree t. cp x = 0 \<and> BAVL_Lookup cp h = Some (Some x) \<and> BAVL_LookupExact cp h = Some (Some x)) \<or>
    (\<exists>xs ys x. inorder t = xs @ ys \<and> (\<forall>x \<in> set xs. cp x = 1) \<and> (\<forall>x \<in> set ys. cp x = -1) \<and>
       (xs \<noteq> [] \<and> x = last xs \<or> ys \<noteq> [] \<and> x = hd ys) \<and> BAVL_Lookup cp h = Some (Some x) \<and> BAVL_LookupExact cp h = Some None)"
proof (cases "ptr t")
  case None
  then show ?thesis using assms(1) by (simp add: rep_def BAVL_Lookup_def BAVL_LookupExact_def)
next
  case (Some c)
  then have root: "bt_root h = Some c" using assms(1) by (simp add: rep_def)
  have "descends cp h c (set_tree t) (plug t [])" by (rule descend_spec) (use assms Some in simp_all)
  then show ?thesis
    unfolding descends_def
  proof (elim disjE exE conjE bexE)
    fix x assume "x \<in> set_tree t" "cp x = 0" "descend cp h c = Some (Inl x)"
    then show ?thesis by (auto simp: BAVL_Lookup_def BAVL_LookupExact_def root)
  next
    fix s :: bool and p :: nat and u :: "nat tree" and gs :: "frame list"
    let ?fs = "(s, p, u) # gs"
    assume d: "descend cp h c = Some (Inr (p, s))" and t: "plug t [] = plug Leaf ?fs"
      and c: "\<forall>x \<in> set (lo ?fs). cp x = 1" "\<forall>x \<in> set (hi ?fs). cp x = -1"
    have "inorder t = lo ?fs @ hi ?fs" using t inorder_plug [of Leaf ?fs] by simp
    moreover have "lo ?fs \<noteq> [] \<and> p = last (lo ?fs) \<or> hi ?fs \<noteq> [] \<and> p = hd (hi ?fs)" by (cases s) auto
    moreover have "BAVL_Lookup cp h = Some (Some p) \<and> BAVL_LookupExact cp h = Some None"
      using d by (simp add: BAVL_Lookup_def BAVL_LookupExact_def root)
    ultimately show ?thesis using c by blast
  qed
qed

lemma Tree_Insert_between:
  "\<forall>x \<in> set xs. cmp n x = 1 \<Longrightarrow> \<forall>x \<in> set ys. cmp n x = -1 \<Longrightarrow> Tree_Insert cmp n (xs @ ys) = xs @ n # ys"
proof (induction xs)
  case Nil
  then show ?case by (cases ys) auto
qed simp

lemma Tree_Insert_dup: "located (cmp n) xs \<Longrightarrow> x \<in> set xs \<Longrightarrow> cmp n x = 0 \<Longrightarrow> Tree_Insert cmp n xs = xs"
proof (induction xs)
  case (Cons y ys)
  have "located (cmp n) ([] @ y # ys)" using Cons.prems(1) by simp
  note l = located_append [OF this]
  show ?case
  proof (cases "x = y")
    case False
    then have "\<not> cmp n y \<le> 0" using l(5) Cons.prems(2,3) by fastforce
    with Cons.IH [OF l(2)] Cons.prems False show ?thesis by simp
  qed (use Cons.prems in simp)
qed simp

lemma rep_leaf_node:
  assumes "rep h (plug Leaf ((s, c, u) # gs))" "distinct (inorder (plug Leaf ((s, c, u) # gs)))" "node \<notin> set (fnodes ((s, c, u) # gs))"
  shows "rep (leaf_node node (Some c) (set_link c s (Some node) h)) (plug (Node Leaf node Leaf) ((s, c, u) # gs))"
proof -
  define h' where "h' = leaf_node node (Some c) (set_link c s (Some node) h)"
  have f: "bt_root h' = bt_root h" "bt_parent h' = (bt_parent h)(node := Some c)"
    "\<And>m. bt_link h' m = (if m = node then (\<lambda>_. None) else if m = c then (bt_link h c)(s := Some node) else bt_link h m)"
    by (auto simp: h'_def leaf_node_def fun_eq_iff)
  have "tr h' (Some c) u = tr h (Some c) u" using assms(2,3) by (intro tr_cong) (auto simp: f distinct_plug)
  moreover have "cx h' (Some c) gs = cx h (Some c) gs" using assms(2,3) by (intro cx_cong) (auto simp: f distinct_plug)
  ultimately show ?thesis using assms by (auto simp: rep_plug f h'_def [symmetric])
qed

lemma BAVL_Insert_spec:
  assumes tree: "BAVL_tree h xs" and loc: "located (cmp node) xs" and new: "node \<notin> set xs"
  shows "(\<exists>c \<in> set xs. cmp node c = 0 \<and> BAVL_Insert cmp h node = Some (h, False, Some c)) \<or>
    (\<exists>h' ref as bs. BAVL_Insert cmp h node = Some (h', True, ref) \<and> xs = as @ bs \<and> BAVL_tree h' (as @ node # bs) \<and>
       (\<forall>x \<in> set as. cmp node x = 1) \<and> (\<forall>x \<in> set bs. cmp node x = -1) \<and>
       (xs = [] \<and> ref = None \<or> as \<noteq> [] \<and> ref = Some (last as) \<or> bs \<noteq> [] \<and> ref = Some (hd bs)))"
proof -
  obtain t where t: "rep h t" "avl (bt_balance h) t" "inorder t = xs" "distinct xs" using tree by (auto simp: BAVL_tree_def)
  show ?thesis
  proof (cases "ptr t")
    case None
    then have "t = Leaf" "xs = []" "bt_root h = None" using t by (auto simp: rep_def)
    moreover have "BAVL_tree (leaf_node node None (h\<lparr>bt_root := Some node\<rparr>)) [node]"
      unfolding BAVL_tree_def by (intro exI [of _ "Node Leaf node Leaf"]) (simp add: rep_def leaf_node_def)
    ultimately show ?thesis by (simp add: BAVL_Insert_def)
  next
    case (Some c)
    then have root: "bt_root h = Some c" using t(1) by (simp add: rep_def)
    have "descends (cmp node) h c (set_tree t) (plug t [])" by (rule descend_spec) (use t loc Some in simp_all)
    then show ?thesis
      unfolding descends_def
    proof (elim disjE exE conjE bexE)
      fix x assume "x \<in> set_tree t" "cmp node x = 0" "descend (cmp node) h c = Some (Inl x)"
      then show ?thesis using t(3) by (auto simp: BAVL_Insert_def root)
    next
      fix s :: bool and p :: nat and u :: "nat tree" and gs :: "frame list"
      let ?fs = "(s, p, u) # gs" and ?h = "leaf_node node (Some p) (set_link p s (Some node) h)"
      assume d: "descend (cmp node) h c = Some (Inr (p, s))" and "plug t [] = plug Leaf ?fs"
        and c: "\<forall>x \<in> set (lo ?fs). cmp node x = 1" "\<forall>x \<in> set (hi ?fs). cmp node x = -1"
      then have t': "t = plug Leaf ?fs" by simp
      have xs: "xs = lo ?fs @ hi ?fs" using t(3) t' inorder_plug [of Leaf ?fs] by simp
      have nn: "node \<notin> set (fnodes ?fs)" using new xs set_frames [of ?fs] by auto
      have rep': "rep ?h (plug (Node Leaf node Leaf) ?fs)" using rep_leaf_node t t' nn by simp
      have "distinct (inorder (plug Leaf ?fs))" using t(3,4) t' by simp
      then have dis': "distinct (inorder (plug (Node Leaf node Leaf) ?fs))" using nn unfolding distinct_plug by simp
      have "cav (bt_balance ?h) 0 ?fs = cav (bt_balance h) 0 ?fs" using nn by (intro cav_cong) (auto simp: leaf_node_def)
      then have "balanced (BAVL_rebalance ?h p s 1) (inorder (plug (Node Leaf node Leaf) ?fs))"
        using t(2) by (intro rebalance_balances rep' dis') (simp_all add: t' avl_plug leaf_node_def del: cav.simps plug.simps)
      with balanced_BAVL_tree dis' obtain h' where h': "BAVL_rebalance ?h p s 1 = Some h'" "BAVL_tree h' (lo ?fs @ node # hi ?fs)"
        by (metis inorder_plug inorder.simps append_Cons append_Nil)
      have "lo ?fs \<noteq> [] \<and> Some p = Some (last (lo ?fs)) \<or> hi ?fs \<noteq> [] \<and> Some p = Some (hd (hi ?fs))" by (cases s) auto
      moreover have "BAVL_Insert cmp h node = Some (h', True, Some p)" using d h'(1) by (simp add: BAVL_Insert_def root)
      ultimately show ?thesis using xs h'(2) c by blast
    qed
  qed
qed

subsection \<open>Exchange of two nodes\<close>

definition xch :: "nat \<Rightarrow> nat \<Rightarrow> nat \<Rightarrow> nat" where
  "xch n1 n2 m = (if m = n1 then n2 else if m = n2 then n1 else m)"

lemma xch_simps [simp]: "xch n1 n2 n1 = n2" "xch n1 n2 n2 = n1" "m \<noteq> n1 \<Longrightarrow> m \<noteq> n2 \<Longrightarrow> xch n1 n2 m = m" "xch n1 n2 (xch n1 n2 m) = m"
  by (auto simp: xch_def)

lemma ptr_map [simp]: "ptr (map_tree f t) = map_option f (ptr t)"
  by (cases t) simp_all

text \<open>The pointers of a tree are consistent with each other.\<close>

lemma ptr_plug: "fs \<noteq> [] \<Longrightarrow> \<exists>n \<in> set (fnodes fs). ptr (plug t fs) = Some n"
proof (induction t fs rule: plug.induct)
  case (2 t s n u fs)
  then show ?case by (cases fs) auto
qed simp

lemma rep_links:
  assumes "rep h t" "distinct (inorder t)" "m \<in> set_tree t"
  shows "bt_link h m s = Some c \<Longrightarrow> c \<in> set_tree t \<and> bt_parent h c = Some m"
    and "bt_parent h m = Some p \<Longrightarrow> p \<in> set_tree t \<and> (\<exists>s. bt_link h p s = Some m)"
    and "bt_link h m s = Some c \<Longrightarrow> bt_link h m (\<not> s) \<noteq> Some c"
    and "bt_parent h m = None \<longleftrightarrow> bt_root h = Some m"
    and "bt_link h m s \<noteq> Some m"
proof -
  obtain l r fs where t: "t = plug (Node l m r) fs" using plug_exists [OF assms(3), of "[]"] by auto
  have rep: "tr h (up fs) (Node l m r)" "cx h (Some m) fs" using assms(1) by (simp_all add: t rep_plug)
  have ch: "bt_link h m s = ptr (if s then r else l)" for s using rep(1) by (cases s) auto
  have tl: "tr h (Some m) (if s then r else l)" for s using rep(1) by auto
  have dis: "set_tree l \<inter> set_tree r = {}" "m \<notin> set_tree l" "m \<notin> set_tree r" "m \<notin> set (fnodes fs)"
    using assms(2) by (auto simp: t distinct_plug)
  show "c \<in> set_tree t \<and> bt_parent h c = Some m" if "bt_link h m s = Some c"
  proof -
    from that ch obtain v where v: "v = (if s then r else l)" "ptr v = Some c" by metis
    moreover have "bt_parent h c = Some m" using tl [of s, folded v(1)] v(2) by (cases v) auto
    ultimately show ?thesis using ptr_in [of v c] by (auto simp: t set_plug split: if_splits)
  qed
  show "p \<in> set_tree t \<and> (\<exists>s. bt_link h p s = Some m)" if "bt_parent h m = Some p"
    using that rep by (cases fs) (auto simp: t set_plug)
  show "bt_link h m (\<not> s) \<noteq> Some c" if "bt_link h m s = Some c"
    using that ch [of s] ch [of "\<not> s"] dis(1) by (auto dest: ptr_in split: if_splits)
  show "bt_parent h m = None \<longleftrightarrow> bt_root h = Some m"
  proof (cases fs)
    case (Cons f gs)
    then have "bt_root h \<noteq> Some m" using ptr_plug [of fs "Node l m r"] assms(1) dis(4) by (auto simp: rep_def t)
    with Cons rep show ?thesis by (cases f) auto
  qed (use rep in auto)
  show "bt_link h m s \<noteq> Some m" using ch [of s] dis(2,3) by (auto dest: ptr_in split: if_splits)
qed

text \<open>When all pointers are renamed, the tree is renamed.\<close>

lemma tr_rename:
  "(\<And>m. m \<in> set_tree t \<Longrightarrow> bt_parent h' (f m) = map_option f (bt_parent h m) \<and> (\<forall>s. bt_link h' (f m) s = map_option f (bt_link h m s))) \<Longrightarrow>
   tr h q t \<Longrightarrow> tr h' (map_option f q) (map_tree f t)"
proof (induction t arbitrary: q)
  case (Node l m r)
  have "tr h' (map_option f (Some m)) (map_tree f l)" "tr h' (map_option f (Some m)) (map_tree f r)"
    using Node.IH(1) [of "Some m"] Node.IH(2) [of "Some m"] Node.prems by auto
  then show ?case using Node.prems by auto
qed simp

lemma fun_upd_both: "f(False := g False, True := g True) = g" for f g :: "bool \<Rightarrow> 'a"
  by (rule ext, case_tac x) simp_all

lemma fun_upd_sides: "f(s := x, \<not> s := g (\<not> s)) = g(s := x)" for f g :: "bool \<Rightarrow> 'a"
  by (rule ext, rename_tac y, case_tac y; case_tac s; simp)

lemma swap_separate_fields:
  assumes "n1 \<noteq> n2" "bt_parent h n1 \<noteq> bt_parent h n2" "bt_parent h n1 \<notin> {Some n1, Some n2}" "bt_parent h n2 \<notin> {Some n1, Some n2}"
  shows "bt_link (swap_separate h n1 n2) m =
      (if m = n1 then bt_link h n2 else if m = n2 then bt_link h n1
       else if bt_parent h n1 = Some m then (bt_link h m)(Some n1 = bt_link h m True := Some n2)
       else if bt_parent h n2 = Some m then (bt_link h m)(Some n2 = bt_link h m True := Some n1) else bt_link h m)"
    and "bt_parent (swap_separate h n1 n2) m =
      (if bt_link h n1 True = Some m then Some n2 else if bt_link h n2 True = Some m then Some n1
       else if bt_link h n1 False = Some m then Some n2 else if bt_link h n2 False = Some m then Some n1
       else if m = n2 then bt_parent h n1 else if m = n1 then bt_parent h n2 else bt_parent h m)"
    and "bt_root (swap_separate h n1 n2) =
      (if bt_parent h n1 = None then Some n2 else if bt_parent h n2 = None then Some n1 else bt_root h)"
  using assms by (simp_all add: swap_separate_def Let_def fun_upd_both) auto

lemma swap_connected_fields:
  assumes "n1 \<noteq> n2" "bt_parent h n2 = Some n1" "bt_parent h n1 \<notin> {Some n1, Some n2}"
    and side: "side = (Some n2 = bt_link h n1 True)" and "bt_link h n1 (\<not> side) \<noteq> Some n2" "\<And>s. bt_link h n2 s \<notin> {Some n1, Some n2}" "\<And>s. bt_link h n1 s \<noteq> Some n1"
  shows "bt_link (swap_connected h n1 n2) m =
      (if m = n1 then bt_link h n2 else if m = n2 then (bt_link h n1)(side := Some n1)
       else if bt_parent h n1 = Some m then (bt_link h m)(Some n1 = bt_link h m True := Some n2) else bt_link h m)"
    and "bt_parent (swap_connected h n1 n2) m =
      (if bt_link h n1 (\<not> side) = Some m then Some n2 else if m = n1 then Some n2 else if m = n2 then bt_parent h n1
       else if bt_link h n2 True = Some m \<or> bt_link h n2 False = Some m then Some n1 else bt_parent h m)"
    and "bt_root (swap_connected h n1 n2) = (if bt_parent h n1 = None then Some n2 else bt_root h)"
  using assms by (simp_all add: swap_connected_def Let_def side [symmetric] fun_upd_both fun_upd_sides)

text \<open>\<open>renamed f h h' X\<close>: the pointers of the nodes \<open>X\<close> and the root in \<open>h'\<close> are those of \<open>h\<close>, renamed by \<open>f\<close>.\<close>

definition renamed :: "(nat \<Rightarrow> nat) \<Rightarrow> BAVL \<Rightarrow> BAVL \<Rightarrow> nat set \<Rightarrow> bool" where
  "renamed f h h' X = (bt_root h' = map_option f (bt_root h) \<and>
     (\<forall>m \<in> X. bt_parent h' (f m) = map_option f (bt_parent h m) \<and> (\<forall>s. bt_link h' (f m) s = map_option f (bt_link h m s))))"

lemma rep_renamed: "renamed f h h' (set_tree t) \<Longrightarrow> rep h t \<Longrightarrow> rep h' (map_tree f t)"
  using tr_rename [of t h' f h None] by (auto simp: renamed_def rep_def)

lemma map_option_xch: "map_option (xch n1 n2) v = (if v = Some n1 then Some n2 else if v = Some n2 then Some n1 else v)"
  by (cases v) (auto simp: xch_def)

text \<open>What the two cases of the exchange share about the parents and children of the two nodes.\<close>

lemma rep_parent_iff:
  assumes "rep h t" "distinct (inorder t)" "m \<in> set_tree t" "c \<in> set_tree t"
  shows "bt_parent h c = Some m \<longleftrightarrow> bt_link h m True = Some c \<or> bt_link h m False = Some c"
    and "bt_link h m True \<noteq> Some c \<or> bt_link h m False \<noteq> Some c"
proof -
  have "bt_link h m True = Some c \<or> bt_link h m False = Some c" if "bt_parent h c = Some m"
    using rep_links(2) [OF assms(1,2,4) that] by (metis (full_types))
  then show "bt_parent h c = Some m \<longleftrightarrow> bt_link h m True = Some c \<or> bt_link h m False = Some c"
    using rep_links(1) [OF assms(1-3)] by blast
  show "bt_link h m True \<noteq> Some c \<or> bt_link h m False \<noteq> Some c" using rep_links(3) [OF assms(1-3), of True c] by auto
qed

lemma rep_self: "rep h t \<Longrightarrow> distinct (inorder t) \<Longrightarrow> m \<in> set_tree t \<Longrightarrow> bt_parent h m \<noteq> Some m"
  using rep_parent_iff(1) [of h t m m] rep_links(5) [of h t m] by simp

lemma renamedI:
  assumes "n1 \<noteq> n2" "n1 \<in> X" "n2 \<in> X" "bt_root h' = map_option (xch n1 n2) (bt_root h)"
    and "bt_parent h' n2 = map_option (xch n1 n2) (bt_parent h n1)" "bt_parent h' n1 = map_option (xch n1 n2) (bt_parent h n2)"
    and "\<And>s. bt_link h' n2 s = map_option (xch n1 n2) (bt_link h n1 s)" "\<And>s. bt_link h' n1 s = map_option (xch n1 n2) (bt_link h n2 s)"
    and "\<And>m. m \<in> X \<Longrightarrow> m \<noteq> n1 \<Longrightarrow> m \<noteq> n2 \<Longrightarrow> bt_parent h' m = map_option (xch n1 n2) (bt_parent h m)"
    and "\<And>m s. m \<in> X \<Longrightarrow> m \<noteq> n1 \<Longrightarrow> m \<noteq> n2 \<Longrightarrow> bt_link h' m s = map_option (xch n1 n2) (bt_link h m s)"
  shows "renamed (xch n1 n2) h h' X"
  unfolding renamed_def
proof (intro conjI ballI allI)
  fix m assume m: "m \<in> X"
  show "bt_parent h' (xch n1 n2 m) = map_option (xch n1 n2) (bt_parent h m)"
    using assms(5,6) assms(9) [OF m] by (cases "m = n1"; cases "m = n2") simp_all
  show "bt_link h' (xch n1 n2 m) s = map_option (xch n1 n2) (bt_link h m s)" for s
    using assms(7,8) [of s] assms(10) [OF m, of s] by (cases "m = n1"; cases "m = n2") simp_all
qed (rule assms)

lemma child_upd:
  assumes "bt_parent h c = Some m \<longleftrightarrow> bt_link h m True = Some c \<or> bt_link h m False = Some c"
    "bt_link h m True \<noteq> Some c \<or> bt_link h m False \<noteq> Some c" "bt_parent h c = Some m"
  shows "((bt_link h m)(Some c = bt_link h m True := v)) s = (if bt_link h m s = Some c then v else bt_link h m s)"
  using assms by (cases s; cases "bt_link h m True = Some c") auto

lemma swap_separate_renames:
  assumes rep: "rep h t" "distinct (inorder t)" and n: "n1 \<in> set_tree t" "n2 \<in> set_tree t" "n1 \<noteq> n2"
    and par: "bt_parent h n1 \<noteq> bt_parent h n2" "bt_parent h n1 \<noteq> Some n2" "bt_parent h n2 \<noteq> Some n1"
  shows "renamed (xch n1 n2) h (swap_separate h n1 n2) (set_tree t)"
proof -
  note iff = rep_parent_iff [OF rep]
  have fld: "n1 \<noteq> n2" "bt_parent h n1 \<noteq> bt_parent h n2" "bt_parent h n1 \<notin> {Some n1, Some n2}" "bt_parent h n2 \<notin> {Some n1, Some n2}"
    using n par rep_self [OF rep] by auto
  note f = swap_separate_fields [OF fld]
  have ch: "bt_link h n1 s \<notin> {Some n1, Some n2}" "bt_link h n2 s \<notin> {Some n1, Some n2}" for s
    using par rep_links(1,5) [OF rep n(1), of s] rep_links(1,5) [OF rep n(2), of s] by auto
  show ?thesis
  proof (rule renamedI [OF n(3,1,2)])
    show "bt_root (swap_separate h n1 n2) = map_option (xch n1 n2) (bt_root h)"
      using rep_links(4) [OF rep n(1)] rep_links(4) [OF rep n(2)] n(3) by (auto simp: f map_option_xch)
    fix m s assume m: "m \<in> set_tree t" "m \<noteq> n1" "m \<noteq> n2"
    show "bt_parent (swap_separate h n1 n2) m = map_option (xch n1 n2) (bt_parent h m)"
      using m iff(1) [OF n(1) m(1)] iff(1) [OF n(2) m(1)] n(3) by (auto simp: f map_option_xch)
    show "bt_link (swap_separate h n1 n2) m s = map_option (xch n1 n2) (bt_link h m s)"
    proof (cases "bt_parent h n1 = Some m \<or> bt_parent h n2 = Some m")
      case True
      with fld(2) consider "bt_parent h n1 = Some m" "bt_parent h n2 \<noteq> Some m" | "bt_parent h n2 = Some m" "bt_parent h n1 \<noteq> Some m" by auto
      then show ?thesis
      proof cases
        case 1
        with iff(1) [OF m(1) n(2)] have "bt_link h m s \<noteq> Some n2" by (cases s) auto
        with 1 child_upd [OF iff [OF m(1) n(1)] 1(1)] show ?thesis using m by (simp add: f(1) map_option_xch)
      next
        case 2
        with iff(1) [OF m(1) n(1)] have "bt_link h m s \<noteq> Some n1" by (cases s) auto
        with 2 child_upd [OF iff [OF m(1) n(2)] 2(1)] show ?thesis using m by (simp add: f(1) map_option_xch)
      qed
    next
      case False
      then have "bt_link h m s \<noteq> Some n1" "bt_link h m s \<noteq> Some n2" using iff(1) [OF m(1) n(1)] iff(1) [OF m(1) n(2)] by (cases s; simp)+
      with False m show ?thesis by (simp add: f(1) map_option_xch)
    qed
  qed (use n(3) fld(3,4) ch in \<open>auto simp: f map_option_xch\<close>)
qed

lemma rep_asym:
  assumes "rep h t" "distinct (inorder t)" "n1 \<in> set_tree t" "n2 \<in> set_tree t" "bt_parent h n2 = Some n1"
  shows "bt_parent h n1 \<noteq> Some n2"
proof
  assume p: "bt_parent h n1 = Some n2"
  obtain l r fs where t: "t = plug (Node l n1 r) fs" using plug_exists [OF assms(3), of "[]"] by auto
  then have "up fs = Some n2" "ptr l = Some n2 \<or> ptr r = Some n2"
    using p assms(1) rep_parent_iff(1) [OF assms(1-4)] assms(5) by (auto simp: rep_plug)
  then have "n2 \<in> set (fnodes fs)" "n2 \<in> set_tree l \<union> set_tree r" by (auto dest: ptr_in up_in)
  then show False using assms(2) by (auto simp: t distinct_plug)
qed

lemma swap_connected_renames:
  assumes rep: "rep h t" "distinct (inorder t)" and n: "n1 \<in> set_tree t" "n2 \<in> set_tree t" "bt_parent h n2 = Some n1"
  shows "renamed (xch n1 n2) h (swap_connected h n1 n2) (set_tree t)"
proof -
  note iff = rep_parent_iff [OF rep]
  define side where "side = (Some n2 = bt_link h n1 True)"
  have ne: "n1 \<noteq> n2" using rep_self [OF rep n(2)] n(3) by auto
  have up: "bt_parent h n1 \<notin> {Some n1, Some n2}" using rep_self [OF rep n(1)] rep_asym [OF rep n] by simp
  have l1: "bt_link h n1 side = Some n2" "bt_link h n1 (\<not> side) \<noteq> Some n2"
    using iff [OF n(1,2)] n(3) by (cases side; auto simp: side_def)+
  have ch: "bt_link h n2 s \<notin> {Some n1, Some n2}" "bt_link h n1 s \<noteq> Some n1" for s
    using up rep_links(1,5) [OF rep n(2), of s] rep_links(5) [OF rep n(1), of s] by auto
  note f = swap_connected_fields [OF ne n(3) up side_def l1(2) ch]
  show ?thesis
  proof (rule renamedI [OF ne n(1,2)])
    show "bt_root (swap_connected h n1 n2) = map_option (xch n1 n2) (bt_root h)"
      using rep_links(4) [OF rep n(1)] rep_links(4) [OF rep n(2)] n(3) by (auto simp: f map_option_xch)
    show "bt_link (swap_connected h n1 n2) n2 s = map_option (xch n1 n2) (bt_link h n1 s)" for s
      using ne l1 ch(2) [of s] by (cases "s = side") (auto simp: f map_option_xch)
    fix m s assume m: "m \<in> set_tree t" "m \<noteq> n1" "m \<noteq> n2"
    have "bt_parent h m = Some n1 \<longleftrightarrow> bt_link h n1 (\<not> side) = Some m"
      using iff(1) [OF n(1) m(1)] l1(1) m(3) by (cases side) auto
    then show "bt_parent (swap_connected h n1 n2) m = map_option (xch n1 n2) (bt_parent h m)"
      using m iff(1) [OF n(2) m(1)] ne by (simp add: f(2) map_option_xch)
    have l2: "bt_link h m s \<noteq> Some n2" using iff(1) [OF m(1) n(2)] n(3) m(2) by (cases s) auto
    show "bt_link (swap_connected h n1 n2) m s = map_option (xch n1 n2) (bt_link h m s)"
    proof (cases "bt_parent h n1 = Some m")
      case True
      with child_upd [OF iff [OF m(1) n(1)] True] l2 m show ?thesis by (simp add: f(1) map_option_xch)
    next
      case False
      then have "bt_link h m s \<noteq> Some n1" using iff(1) [OF m(1) n(1)] by (cases s) auto
      with False l2 m show ?thesis by (simp add: f(1) map_option_xch)
    qed
  qed (use ne up ch n(3) l1(2) in \<open>auto simp: f map_option_xch\<close>)
qed

lemma xch_commute: "xch n1 n2 = xch n2 n1"
  by (auto simp: xch_def fun_eq_iff)

lemma swap_balance [simp]: "bt_balance (swap_connected h n1 n2) = bt_balance h" "bt_balance (swap_separate h n1 n2) = bt_balance h"
  by (simp_all add: swap_connected_def swap_separate_def Let_def)

text \<open>The exchange renames the two nodes in the tree and in the balance fields.  The nodes must not be siblings.\<close>

lemma swap_nodes_rep:
  assumes rep: "rep h t" "distinct (inorder t)" and n: "n1 \<in> set_tree t" "n2 \<in> set_tree t" "n1 \<noteq> n2" and par: "bt_parent h n1 \<noteq> bt_parent h n2"
  shows "rep (BAVL_swap_nodes h n1 n2) (map_tree (xch n1 n2) t) \<and> bt_balance (BAVL_swap_nodes h n1 n2) = (\<lambda>m. bt_balance h (xch n1 n2 m))"
proof -
  have bal: "(bt_balance h)(a := bt_balance h b, b := bt_balance h a) = (\<lambda>m. bt_balance h (xch a b m))" for a b
    by (auto simp: xch_def fun_eq_iff)
  consider "bt_parent h n2 = Some n1" "bt_parent h n1 \<noteq> Some n2" | "bt_parent h n1 = Some n2" | "bt_parent h n2 \<noteq> Some n1" "bt_parent h n1 \<noteq> Some n2"
    using rep_asym [OF rep n(1,2)] by blast
  then show ?thesis
  proof cases
    case 1
    with rep_renamed [OF swap_connected_renames [OF rep n(1,2) 1(1)] rep(1)] n(3) show ?thesis
      by (simp add: BAVL_swap_nodes_def Let_def bal)
  next
    case 2
    with rep_renamed [OF swap_connected_renames [OF rep n(2,1) 2] rep(1)] n(3) show ?thesis
      by (simp add: BAVL_swap_nodes_def Let_def bal xch_commute [of n1 n2])
  next
    case 3
    with rep_renamed [OF swap_separate_renames [OF rep n par 3(2,1)] rep(1)] n(3) show ?thesis
      by (simp add: BAVL_swap_nodes_def Let_def bal)
  qed
qed

text \<open>Of two siblings the left one cannot be exchanged with the right one: the links of their parent stay as they are.
  \<^verbatim>\<open>BAVL_Remove\<close> never asks for it.\<close>

lemma swap_left_sibling:
  assumes "bt_parent h n1 = Some p" "bt_parent h n2 = Some p" "bt_link h p False = Some n1" "bt_link h p True = Some n2"
    and "p \<noteq> n1" "p \<noteq> n2" "n1 \<noteq> n2"
  shows "bt_link (BAVL_swap_nodes h n1 n2) p = bt_link h p"
proof -
  have "bt_link (BAVL_swap_nodes h n1 n2) p s = bt_link h p s" for s
    using assms by (cases s) (simp_all add: BAVL_swap_nodes_def swap_separate_def Let_def)
  then show ?thesis by blast
qed

subsection \<open>Removal\<close>

lemma replace_rep:
  assumes "rep h (plug (nd s c node Leaf) fs)" "distinct (inorder (plug (nd s c node Leaf) fs))"
  shows "rep (BAVL_replace_subtree h node (ptr c)) (plug c fs) \<and> bt_balance (BAVL_replace_subtree h node (ptr c)) = bt_balance h"
proof -
  define h' where "h' = BAVL_replace_subtree h node (ptr c)"
  have f: "bt_parent h' = (\<lambda>m. if ptr c = Some m then up fs else bt_parent h m)" "bt_balance h' = bt_balance h"
    "bt_root h' = (if up fs = None then ptr c else bt_root h)"
    "bt_link h' = (\<lambda>m. if up fs = Some m then (bt_link h m)(Some node = bt_link h m True := ptr c) else bt_link h m)"
    using assms(1) by (simp_all add: h'_def BAVL_replace_subtree_def Let_def rep_plug fun_eq_iff)
  have "cx h' (ptr c) fs"
    by (rule cx_replace [of h node]) (use assms in \<open>auto simp: rep_plug distinct_plug f dest!: ptr_in\<close>)
  moreover have "tr h' (up fs) c"
    by (rule tr_reparent [of h "Some node"]) (use assms in \<open>auto simp: rep_plug distinct_plug f dest!: up_in\<close>)
  ultimately show ?thesis by (simp add: rep_plug h'_def [symmetric] f)
qed

text \<open>The last part of \<^verbatim>\<open>BAVL_Remove\<close>, for a node with at most one child.\<close>

definition remove_single :: "BAVL \<Rightarrow> nat \<Rightarrow> BAVL option" where
  "remove_single h node =
     (let child = (if bt_link h node False \<noteq> None then bt_link h node False else bt_link h node True)
      in case bt_parent h node of
           None \<Rightarrow> Some (BAVL_replace_subtree h node child)
         | Some p \<Rightarrow> BAVL_rebalance (BAVL_replace_subtree h node child) p (Some node = bt_link h p True) (-1))"

lemma BAVL_Remove_single:
  "BAVL_Remove h node =
     (case (bt_link h node False, bt_link h node True) of
        (Some l, Some r) \<Rightarrow> Option.bind (BAVL_subtree_max h l) (\<lambda>mx. remove_single (BAVL_swap_nodes h node mx) node)
      | _ \<Rightarrow> remove_single h node)"
  by (simp add: BAVL_Remove_def remove_single_def Let_def split: option.split Option.bind_split)

lemma remove_single_spec:
  assumes rep: "rep h (plug (nd s c node Leaf) fs)" and dis: "distinct (inorder (plug (nd s c node Leaf) fs))"
    and avl: "avl (bt_balance h) (plug (nd s c node Leaf) fs)"
  shows "balanced (remove_single h node) (lo fs @ inorder c @ hi fs)"
proof -
  define h' where "h' = BAVL_replace_subtree h node (ptr c)"
  have h': "rep h' (plug c fs)" "bt_balance h' = bt_balance h" using replace_rep [OF rep dis] by (simp_all add: h'_def)
  have child: "(if bt_link h node False \<noteq> None then bt_link h node False else bt_link h node True) = ptr c"
    using rep by (cases s) (auto simp: rep_plug)
  have par: "bt_parent h node = up fs" using rep by (simp add: rep_plug)
  have avl': "avl (bt_balance h') c" "cav (bt_balance h') (int (height c) - (-1)) fs" using avl by (simp_all add: avl_plug h' add.commute)
  show ?thesis
  proof (cases fs)
    case Nil
    then have "remove_single h node = Some h'" using par unfolding remove_single_def child by (simp add: h'_def)
    with balancedI [of h' c] h' avl' Nil show ?thesis by simp
  next
    case (Cons f gs)
    obtain s' p u where f: "f = (s', p, u)" by (cases f)
    have "ptr u \<noteq> Some node" using dis by (auto simp: distinct_plug Cons f dest: ptr_in)
    then have "(Some node = bt_link h p True) = s'" using rep by (cases s') (auto simp: rep_plug Cons f)
    then have "remove_single h node = BAVL_rebalance h' p s' (-1)" using par unfolding remove_single_def child by (simp add: Cons f h'_def)
    moreover have "balanced (BAVL_rebalance h' p s' (-1)) (inorder (plug c ((s', p, u) # gs)))"
      using h' avl' dis unfolding Cons f by (intro rebalance_balances) (simp_all add: distinct_plug del: cav.simps plug.simps)
    ultimately show ?thesis by (simp add: inorder_plug Cons f del: plug.simps)
  qed
qed

lemma frames_append [simp]: "lo (fs @ gs) = lo gs @ lo fs" "hi (fs @ gs) = hi fs @ hi gs" "fnodes (fs @ gs) = fnodes fs @ fnodes gs"
  by (induction fs rule: fnodes.induct) auto

lemma subtree_end_spec:
  "tr h q t \<Longrightarrow> ptr t = Some c \<Longrightarrow>
   \<exists>v e gs. subtree_end s h c = Some e \<and> t = plug (nd s Leaf e v) gs \<and> (if s then hi gs = [] else lo gs = [])"
proof (induction t arbitrary: q c)
  case (Node l m r)
  define t1 where "t1 = (if s then r else l)"
  define t2 where "t2 = (if s then l else r)"
  have t: "Node l m r = nd s t1 m t2" by (simp add: t1_def t2_def nd_def)
  have m: "m = c" "bt_link h m s = ptr t1" "tr h (Some m) t1" using Node.prems unfolding t by auto
  show ?case
  proof (cases "ptr t1")
    case None
    then have "subtree_end s h c = Some c" "t1 = Leaf" using m by (simp_all add: subtree_end.simps)
    then show ?thesis unfolding t using m(1) by (intro exI [of _ t2] exI [of _ c] exI [of _ "[]"]) simp
  next
    case (Some c')
    have "\<exists>v e gs. subtree_end s h c' = Some e \<and> t1 = plug (nd s Leaf e v) gs \<and> (if s then hi gs = [] else lo gs = [])"
      using Node.IH(1) [of "Some m" c'] Node.IH(2) [of "Some m" c'] m(3) Some by (cases s) (auto simp: t1_def)
    then obtain v e gs where e: "subtree_end s h c' = Some e" "t1 = plug (nd s Leaf e v) gs" "if s then hi gs = [] else lo gs = []" by blast
    have "subtree_end s h c = Some e" using m Some e(1) by (subst subtree_end.simps) simp
    moreover have "nd s t1 m t2 = plug (nd s Leaf e v) (gs @ [(s, m, t2)])" by (simp add: plug_append e(2))
    moreover have "if s then hi (gs @ [(s, m, t2)]) = [] else lo (gs @ [(s, m, t2)]) = []" using e(3) by (cases s) simp_all
    ultimately show ?thesis unfolding t by blast
  qed
qed simp

definition map_frames :: "(nat \<Rightarrow> nat) \<Rightarrow> frame list \<Rightarrow> frame list" where
  "map_frames f = map (\<lambda>(s, n, u). (s, f n, map_tree f u))"

lemma map_plug: "map_tree f (plug t fs) = plug (map_tree f t) (map_frames f fs)"
  by (induction t fs rule: plug.induct) (auto simp: map_frames_def nd_def)

lemma map_tree_id: "(\<And>m. m \<in> set_tree t \<Longrightarrow> f m = m) \<Longrightarrow> map_tree f t = t"
  by (rule tree.map_ident_strong) auto

lemma map_frames_id: "(\<And>m. m \<in> set (fnodes fs) \<Longrightarrow> f m = m) \<Longrightarrow> map_frames f fs = fs"
  by (induction fs rule: fnodes.induct) (auto simp: map_frames_def intro!: map_tree_id)

lemma avl_rename: "avl b t \<Longrightarrow> (\<And>m. m \<in> set_tree t \<Longrightarrow> b' (f m) = b m) \<Longrightarrow> avl b' (map_tree f t)"
  by (induction t) auto

lemma swap_max:
  assumes t: "t = plug (nd True Leaf mx v) (gs @ (False, node, r) # fs)" and rep: "rep h t" "distinct (inorder t)" and avl: "avl (bt_balance h) t"
  defines "t' \<equiv> plug (nd True Leaf node v) (gs @ (False, mx, r) # fs)" and "h' \<equiv> BAVL_swap_nodes h node mx"
  shows "rep h' t'" and "avl (bt_balance h') t'"
proof -
  have d: "node \<noteq> mx" "node \<notin> set_tree v" "mx \<notin> set_tree v" "node \<notin> set_tree r" "mx \<notin> set_tree r" "node \<notin> set (fnodes gs)" "mx \<notin> set (fnodes gs)"
    "node \<notin> set (fnodes fs)" "mx \<notin> set (fnodes fs)" "set (fnodes gs) \<inter> set (fnodes fs) = {}" using rep(2) unfolding t distinct_plug by auto
  have id: "xch node mx m = m" if "m \<noteq> node" "m \<noteq> mx" for m using that by simp
  have fr: "map_frames (xch node mx) (gs @ (False, node, r) # fs) = gs @ (False, mx, r) # fs"
  proof -
    have "map_frames (xch node mx) gs = gs" "map_frames (xch node mx) fs = fs" "map_tree (xch node mx) r = r"
      using d by (auto intro!: map_frames_id map_tree_id id)
    then show ?thesis by (simp add: map_frames_def)
  qed
  have "map_tree (xch node mx) v = v" using d by (intro map_tree_id id) auto
  then have m: "map_tree (xch node mx) t = t'" by (simp add: t t'_def map_plug fr nd_simps)
  have mem: "node \<in> set_tree t" "mx \<in> set_tree t" by (auto simp: t set_plug)
  have "bt_parent h mx = up (gs @ [(False, node, r)])" using rep(1) unfolding t rep_plug by (cases gs) auto
  moreover have "bt_parent h node = up fs" using rep(1) by (simp add: t plug_append rep_plug)
  ultimately have "bt_parent h node \<noteq> bt_parent h mx" using d by (cases gs) (auto dest!: up_in)
  from swap_nodes_rep [OF rep mem d(1) this] have s: "rep h' t'" "bt_balance h' = (\<lambda>x. bt_balance h (xch node mx x))"
    by (simp_all add: h'_def m)
  from s(1) show "rep h' t'" .
  show "avl (bt_balance h') t'" unfolding m [symmetric] using avl by (rule avl_rename) (simp add: s(2))
qed

lemma BAVL_Remove_spec:
  assumes tree: "BAVL_tree h xs" and node: "node \<in> set xs"
  shows "\<exists>h'. BAVL_Remove h node = Some h' \<and> BAVL_tree h' (Tree_Remove node xs)"
proof -
  obtain t where t: "rep h t" "avl (bt_balance h) t" "inorder t = xs" "distinct xs" using tree by (auto simp: BAVL_tree_def)
  obtain l r fs where z: "t = plug (Node l node r) fs" using plug_exists [of node t "[]"] node t(3) by (auto simp flip: set_inorder)
  have dis: "distinct (inorder t)" using t by simp
  have lk: "bt_link h node False = ptr l" "bt_link h node True = ptr r" "tr h (Some node) l" using t(1) by (auto simp: z rep_plug)
  have xs: "xs = (lo fs @ inorder l) @ node # (inorder r @ hi fs)" using t(3) by (simp add: z inorder_plug)
  then have rem: "Tree_Remove node xs = lo fs @ inorder l @ inorder r @ hi fs" using t(4) by (simp add: Tree_Remove_def remove1_append)
  have "balanced (BAVL_Remove h node) (Tree_Remove node xs)"
  proof (cases "l = Leaf \<or> r = Leaf")
    case True
    then obtain s c where c: "Node l node r = nd s c node Leaf" "inorder c = inorder l @ inorder r"
      by (metis append_Nil append_Nil2 inorder.simps(1) nd_simps)
    have "balanced (remove_single h node) (lo fs @ inorder c @ hi fs)"
      using t(1,2) dis unfolding z c(1) by (intro remove_single_spec)
    moreover have "BAVL_Remove h node = remove_single h node" using True by (auto simp: BAVL_Remove_single lk split: option.split)
    ultimately show ?thesis by (simp add: rem c(2))
  next
    case False
    then obtain c where c: "ptr l = Some c" by (cases l) auto
    from subtree_end_spec [OF lk(3) c, of True] obtain v mx gs
      where mx: "subtree_end True h c = Some mx" "l = plug (nd True Leaf mx v) gs" "hi gs = []" by auto
    have z': "t = plug (nd True Leaf mx v) (gs @ (False, node, r) # fs)" by (simp add: z mx(2) plug_append nd_simps)
    let ?t = "plug (nd True Leaf node v) (gs @ (False, mx, r) # fs)"
    note sw = swap_max [OF z' t(1) dis t(2)]
    have "distinct (inorder ?t)" using dis unfolding z' by (simp add: distinct_plug)
    then have "balanced (remove_single (BAVL_swap_nodes h node mx) node) (lo (gs @ (False, mx, r) # fs) @ inorder v @ hi (gs @ (False, mx, r) # fs))"
      using remove_single_spec [of "BAVL_swap_nodes h node mx" False v node "gs @ (False, mx, r) # fs"] sw by (simp add: nd_simps)
    moreover have "BAVL_Remove h node = remove_single (BAVL_swap_nodes h node mx) node"
      using False c mx(1) by (auto simp: BAVL_Remove_single lk BAVL_subtree_max_def split: option.split)
    moreover have "inorder l = lo gs @ inorder v @ [mx]" by (simp add: mx(2,3) inorder_plug nd_simps)
    ultimately show ?thesis by (simp add: rem mx(3))
  qed
  then show ?thesis using balanced_BAVL_tree t(4) by (simp add: Tree_Remove_def)
qed

subsection \<open>Iteration\<close>

lemma climb_spec:
  "bt_parent h n = up fs \<Longrightarrow> cx h (Some n) fs \<Longrightarrow> distinct (n # fnodes fs) \<Longrightarrow>
   \<exists>m. climb s h n = Some m \<and> bt_parent h m = hd_opt (if s then hi fs else rev (lo fs))"
proof (induction fs arbitrary: n)
  case Nil
  then show ?case by (simp add: climb.simps)
next
  case (Cons f gs)
  obtain s' p u where f: "f = (s', p, u)" by (cases f)
  have "ptr u \<noteq> Some n" using Cons.prems(3) by (auto simp: f dest: ptr_in)
  then have side: "(Some n = bt_link h p s) = (s' = s)" using Cons.prems(2) by (cases s; cases s') (auto simp: f)
  show ?case
  proof (cases "s' = s")
    case True
    then have "climb s h n = climb s h p" using Cons.prems(1) side by (subst climb.simps) (simp add: f)
    moreover have "\<exists>m. climb s h p = Some m \<and> bt_parent h m = hd_opt (if s then hi gs else rev (lo gs))"
      using Cons.prems by (intro Cons.IH) (auto simp: f)
    ultimately show ?thesis using True by (cases s) (simp_all add: f)
  next
    case False
    then have "climb s h n = Some n" using Cons.prems(1) side by (subst climb.simps) (simp add: f)
    then show ?thesis using False Cons.prems(1) by (cases s) (simp_all add: f)
  qed
qed

lemma neighbour_spec:
  assumes "BAVL_tree h xs" "xs = as @ n # bs"
  shows "neighbour s h n = Some (hd_opt (if s then bs else rev as))"
proof -
  obtain t where t: "rep h t" "inorder t = xs" "distinct xs" using assms by (auto simp: BAVL_tree_def)
  obtain l r fs where z: "t = plug (Node l n r) fs" using plug_exists [of n t "[]"] assms(2) t(2) by (auto simp flip: set_inorder)
  define v where "v = (if s then r else l)"
  have "as @ n # bs = (lo fs @ inorder l) @ n # (inorder r @ hi fs)" using t(2) assms(2) by (simp add: z inorder_plug)
  moreover have "n \<notin> set as" "n \<notin> set bs" using t(3) assms(2) by auto
  ultimately have ab: "as = lo fs @ inorder l" "bs = inorder r @ hi fs" using append_Cons_eq_iff by metis+
  have lk: "bt_link h n s = ptr v" "tr h (Some n) v" "bt_parent h n = up fs" "cx h (Some n) fs" using t(1) by (auto simp: z rep_plug v_def)
  show ?thesis
  proof (cases "ptr v")
    case None
    have "distinct (n # fnodes fs)" using t(2,3) unfolding z t(2) [symmetric] by (simp add: z distinct_plug)
    from climb_spec [OF lk(3,4) this, of s] None lk(1) show ?thesis by (auto simp: neighbour_def ab v_def split: if_splits)
  next
    case (Some c)
    from subtree_end_spec [OF lk(2) Some, of "\<not> s"] obtain w e gs where e: "subtree_end (\<not> s) h c = Some e"
      "v = plug (nd (\<not> s) Leaf e w) gs" "if \<not> s then hi gs = [] else lo gs = []" by blast
    then have "hd_opt (if s then bs else rev as) = Some e" by (cases s) (auto simp: ab v_def inorder_plug nd_simps)
    with Some lk(1) e(1) show ?thesis by (simp add: neighbour_def)
  qed
qed

subsection \<open>The contract of the search trees\<close>

context comparator
begin

lemma located_keyed:
  assumes "Tree_sorted (keyed cmp key) xs" "\<forall>p \<in> set xs. carrier (key p)" "carrier k"
  shows "located (\<lambda>p. cmp k (key p)) xs"
  unfolding located_def
proof
  show "\<forall>x \<in> set xs. cmp k (key x) \<in> {-1, 0, 1}" using assms cmp_range by blast
  have less: "cmp k (key x) = 1" if "x \<in> set xs" "y \<in> set xs" "cmp (key x) (key y) < 0" "0 \<le> cmp k (key y)" for x y
  proof -
    have "cmp (key x) k < 0"
      using that assms(2,3) cmp_trans [of "key x" "key y" k] cmp_antisym [of k "key y"] cmp_eq [of k "key y"] by fastforce
    then show ?thesis using that assms cmp_range [of "key x" k] cmp_antisym [of "key x" k] by auto
  qed
  show "sorted_wrt (\<lambda>x y. 0 \<le> cmp k (key y) \<longrightarrow> cmp k (key x) = 1) xs"
    by (rule sorted_wrt_mono_rel [OF _ assms(1) [unfolded Tree_sorted_def]]) (use less in blast)
qed

lemma BAVL_Insert_keyed:
  assumes "BAVL_tree h xs" "Tree_sorted (keyed cmp key) xs" "\<forall>p \<in> set xs. carrier (key p)" "carrier (key node)" "node \<notin> set xs"
  shows "(\<exists>p \<in> set xs. key p = key node \<and> BAVL_Insert (keyed cmp key) h node = Some (h, False, Some p)) \<or>
    (\<forall>p \<in> set xs. key p \<noteq> key node) \<and>
    (\<exists>h' ref as bs. BAVL_Insert (keyed cmp key) h node = Some (h', True, ref) \<and> xs = as @ bs \<and>
       Tree_Insert (keyed cmp key) node xs = as @ node # bs \<and> BAVL_tree h' (as @ node # bs) \<and>
       (xs = [] \<and> ref = None \<or> as \<noteq> [] \<and> ref = Some (last as) \<or> bs \<noteq> [] \<and> ref = Some (hd bs)))"
proof -
  have loc: "located (keyed cmp key node) xs" by (rule located_keyed [OF assms(2-4)])
  from BAVL_Insert_spec [of h xs "keyed cmp key" node, OF assms(1) loc assms(5)]
  consider (dup) c where "c \<in> set xs" "cmp (key node) (key c) = 0" "BAVL_Insert (keyed cmp key) h node = Some (h, False, Some c)"
    | (new) h' ref as bs where "BAVL_Insert (keyed cmp key) h node = Some (h', True, ref)" "xs = as @ bs" "BAVL_tree h' (as @ node # bs)"
      "\<forall>x \<in> set as. cmp (key node) (key x) = 1" "\<forall>x \<in> set bs. cmp (key node) (key x) = -1"
      "xs = [] \<and> ref = None \<or> as \<noteq> [] \<and> ref = Some (last as) \<or> bs \<noteq> [] \<and> ref = Some (hd bs)" by blast
  then show ?thesis
  proof cases
    case dup
    then show ?thesis using assms(3,4) cmp_eq by auto
  next
    case new
    note i = new(1-3) and c = new(4,5) and ref = new(6)
    have "cmp (key node) (key p) \<noteq> 0" if "p \<in> set xs" for p using that c i(2) by auto
    then have "\<forall>p \<in> set xs. key p \<noteq> key node" using assms(3,4) cmp_eq by metis
    moreover have "Tree_Insert (keyed cmp key) node xs = as @ node # bs" unfolding i(2) by (rule Tree_Insert_between) (use c in auto)
    ultimately show ?thesis using i ref by blast
  qed
qed

lemma BAVL_Lookup_keyed:
  assumes "BAVL_tree h xs" "Tree_sorted (keyed cmp key) xs" "\<forall>p \<in> set xs. carrier (key p)" "carrier k"
  shows "BAVL_LookupExact (\<lambda>p. cmp k (key p)) h = Some (Tree_LookupExact cmp key k xs)"
proof -
  obtain t where t: "rep h t" "inorder t = xs" using assms(1) by (auto simp: BAVL_tree_def)
  have loc: "located (\<lambda>p. cmp k (key p)) (inorder t)" using located_keyed assms t(2) by simp
  from BAVL_Lookup_spec [OF t(1) loc]
  consider (empty) "t = Leaf" "BAVL_LookupExact (\<lambda>p. cmp k (key p)) h = Some None"
    | (found) x where "x \<in> set_tree t" "cmp k (key x) = 0" "BAVL_LookupExact (\<lambda>p. cmp k (key p)) h = Some (Some x)"
    | (absent) as bs where "inorder t = as @ bs" "\<forall>x \<in> set as. cmp k (key x) = 1" "\<forall>x \<in> set bs. cmp k (key x) = -1"
      "BAVL_LookupExact (\<lambda>p. cmp k (key p)) h = Some None" by blast
  then show ?thesis
  proof cases
    case found
    then have "x \<in> set xs" using t(2) by auto
    then have "key x = k" using found(2) assms(3,4) cmp_eq by metis
    with found \<open>x \<in> set xs\<close> show ?thesis using keyed_lookup [OF assms(3,2)] by simp
  next
    case absent
    then have "\<forall>p \<in> set xs. cmp k (key p) \<noteq> 0" using t(2) by auto
    then have "Tree_LookupExact cmp key k xs = None" by (simp add: Tree_LookupExact_def find_None_iff)
    with absent show ?thesis by simp
  qed (use t(2) in \<open>simp add: Tree_LookupExact_def\<close>)
qed

lemma assert_recurser_height:
  assumes "tr h q t" "avl (bt_balance h) t" "Tree_sorted (keyed cmp key) (inorder t)" "\<forall>p \<in> set_tree t. carrier (key p)" "ptr t = Some n"
  shows "assert_recurser (keyed cmp key) h n = Some (int (height t))"
  using assms
proof (induction t arbitrary: q n)
  case (Node l m r)
  have m: "m = n" using Node.prems(5) by simp
  have srt: "Tree_sorted (keyed cmp key) (inorder l)" "Tree_sorted (keyed cmp key) (inorder r)"
    "\<forall>p \<in> set_tree l. cmp (key p) (key m) < 0" "\<forall>p \<in> set_tree r. cmp (key m) (key p) < 0"
    using Node.prems(3) by (auto simp: Tree_sorted_def sorted_wrt_append)
  have c: "carrier (key m)" using Node.prems(4) by simp
  have l: "(case bt_link h m False of None \<Rightarrow> Some 0
      | Some x \<Rightarrow> if bt_parent h x = Some m \<and> cmp (key x) (key m) = -1 then assert_recurser (keyed cmp key) h x else None) = Some (int (height l))"
  proof (cases "ptr l")
    case (Some x)
    then have x: "x \<in> set_tree l" "bt_parent h x = Some m" using Node.prems(1) by (cases l; auto)+
    then have "cmp (key x) (key m) = -1" using srt(3) cmp_range [of "key x" "key m"] Node.prems(4) c by fastforce
    then show ?thesis using Some x Node.IH(1) [of "Some m" x] Node.prems(1,2,4) srt(1) by simp
  qed (use Node.prems(1) in simp)
  have r: "(case bt_link h m True of None \<Rightarrow> Some 0
      | Some x \<Rightarrow> if bt_parent h x = Some m \<and> cmp (key x) (key m) = 1 then assert_recurser (keyed cmp key) h x else None) = Some (int (height r))"
  proof (cases "ptr r")
    case (Some x)
    then have x: "x \<in> set_tree r" "bt_parent h x = Some m" using Node.prems(1) by (cases r; auto)+
    then have "cmp (key x) (key m) = 1"
      using srt(4) cmp_range [of "key m" "key x"] cmp_antisym [of "key m" "key x"] Node.prems(4) c by fastforce
    then show ?thesis using Some x Node.IH(2) [of "Some m" x] Node.prems(1,2,4) srt(2) by simp
  qed (use Node.prems(1) in simp)
  have "\<not> (bt_balance h m < -1 \<or> bt_balance h m > 1)" "bt_balance h m = int (height r) - int (height l)" using Node.prems(2) by auto
  then show ?case unfolding m [symmetric] by (subst assert_recurser.simps) (simp add: l r of_nat_max)
qed simp

lemma BAVL_Verify_keyed:
  assumes "BAVL_tree h xs" "Tree_sorted (keyed cmp key) xs" "\<forall>p \<in> set xs. carrier (key p)"
  shows "BAVL_Verify (keyed cmp key) h = Some ()"
proof -
  obtain t where t: "rep h t" "avl (bt_balance h) t" "inorder t = xs" using assms(1) by (auto simp: BAVL_tree_def)
  show ?thesis
  proof (cases "ptr t")
    case (Some n)
    have "assert_recurser (keyed cmp key) h n = Some (int (height t))"
      using t assms(2,3) Some by (intro assert_recurser_height [of h None]) (auto simp: rep_def simp flip: set_inorder)
    moreover have "bt_root h = Some n" "bt_parent h n = None" using t(1) Some by (cases t; auto simp: rep_def)+
    ultimately show ?thesis by (simp add: BAVL_Verify_def)
  qed (use t(1) in \<open>simp add: BAVL_Verify_def rep_def\<close>)
qed

end

text \<open>A balanced tree of height \<open>H\<close> has at least \<open>2 ^ (H div 2) - 1\<close> nodes.\<close>

lemma avl_size: "avl b t \<Longrightarrow> 2 ^ (height t div 2) \<le> size1 t"
proof (induction t)
  case (Node l m r)
  let ?h = "height (Node l m r)"
  have "height l \<ge> ?h - 2" "height r \<ge> ?h - 2" using Node.prems by auto
  then have "(2::nat) ^ ((?h - 2) div 2) \<le> 2 ^ (height l div 2)" "(2::nat) ^ ((?h - 2) div 2) \<le> 2 ^ (height r div 2)"
    by (simp_all add: div_le_mono power_increasing)
  moreover have "2 ^ (height l div 2) \<le> size1 l" "2 ^ (height r div 2) \<le> size1 r" using Node by auto
  ultimately have "2 * 2 ^ ((?h - 2) div 2) \<le> size1 (Node l m r)" unfolding size1.simps by linarith
  moreover have "H div 2 \<le> Suc ((H - 2) div 2)" for H :: nat by arith
  then have "(2::nat) ^ (?h div 2) \<le> 2 ^ Suc ((?h - 2) div 2)" by (rule power_increasing) simp
  ultimately show ?case unfolding power_Suc by linarith
qed simp

subsection \<open>Search trees as a component\<close>

text \<open>What the users of a search tree rely on: the operations are total, and act on the sequence of nodes as those of
  \<^verbatim>\<open>SearchTree\<close>.  The nodes are compared by their keys.\<close>

locale search_tree = comparator +
  fixes tree :: "'h \<Rightarrow> 'n list \<Rightarrow> bool"
    and ins :: "('n \<Rightarrow> 'n \<Rightarrow> int) \<Rightarrow> 'h \<Rightarrow> 'n \<Rightarrow> ('h \<times> bool \<times> 'n option) option"
    and rem :: "'h \<Rightarrow> 'n \<Rightarrow> 'h option"
    and look :: "('n \<Rightarrow> int) \<Rightarrow> 'h \<Rightarrow> 'n option option"
  assumes ins_law: "tree h xs \<Longrightarrow> Tree_sorted (keyed cmp key) xs \<Longrightarrow> \<forall>p \<in> set xs. carrier (key p) \<Longrightarrow> carrier (key n) \<Longrightarrow> n \<notin> set xs \<Longrightarrow>
      \<exists>h' ref. ins (keyed cmp key) h n = Some (h', \<forall>p \<in> set xs. key p \<noteq> key n, ref) \<and> tree h' (Tree_Insert (keyed cmp key) n xs)"
    and rem_law: "tree h xs \<Longrightarrow> n \<in> set xs \<Longrightarrow> \<exists>h'. rem h n = Some h' \<and> tree h' (Tree_Remove n xs)"
    and look_law: "tree h xs \<Longrightarrow> Tree_sorted (keyed cmp key) xs \<Longrightarrow> \<forall>p \<in> set xs. carrier (key p) \<Longrightarrow> carrier k \<Longrightarrow>
      look (\<lambda>p. cmp k (key p)) h = Some (Tree_LookupExact cmp key k xs)"
begin

lemma look_after_ins:
  assumes t: "tree h xs" "Tree_sorted (keyed cmp key) xs" "\<forall>p \<in> set xs. carrier (key p)"
    and n: "carrier (key n)" "n \<notin> set xs" "\<forall>p \<in> set xs. key p \<noteq> key n" and k: "carrier k"
  shows "\<exists>h' ref. ins (keyed cmp key) h n = Some (h', True, ref) \<and>
    look (\<lambda>p. cmp k (key p)) h' = (if k = key n then Some (Some n) else look (\<lambda>p. cmp k (key p)) h)"
proof -
  let ?ys = "Tree_Insert (keyed cmp key) n xs"
  obtain h' ref where h': "ins (keyed cmp key) h n = Some (h', True, ref)" "tree h' ?ys" using ins_law [OF t n(1,2)] n(3) by auto
  have ys: "set ?ys = insert n (set xs)" "Tree_sorted (keyed cmp key) ?ys" using keyed_insert [OF t(3,2) n(1,3)] by simp_all
  then have c: "\<forall>p \<in> set ?ys. carrier (key p)" using t(3) n(1) by simp
  have "Tree_LookupExact cmp key k ?ys = (if k = key n then Some n else Tree_LookupExact cmp key k xs)"
  proof (cases "Tree_LookupExact cmp key k xs")
    case None
    then have "\<forall>p \<in> set xs. key p \<noteq> k" using Tree_LookupExact_None [OF t(3) k] by simp
    then show ?thesis using None keyed_lookup [OF c ys(2), of n k] Tree_LookupExact_None [OF c k] ys(1) by auto
  next
    case (Some p)
    then have "p \<in> set xs" "key p = k" using Tree_LookupExact_Some [OF t(3) k] by auto
    then show ?thesis using Some keyed_lookup [OF c ys(2), of p k] ys(1) n(3) by auto
  qed
  with h' look_law [OF h'(2) ys(2) c k] look_law [OF t k] show ?thesis by auto
qed

lemma look_after_rem:
  assumes t: "tree h xs" "Tree_sorted (keyed cmp key) xs" "\<forall>p \<in> set xs. carrier (key p)" and n: "n \<in> set xs" and k: "carrier k"
  shows "\<exists>h'. rem h n = Some h' \<and> look (\<lambda>p. cmp k (key p)) h' = (if k = key n then Some None else look (\<lambda>p. cmp k (key p)) h)"
proof -
  obtain h' where h': "rem h n = Some h'" "tree h' (Tree_Remove n xs)" using rem_law [OF t(1) n] by auto
  let ?ys = "Tree_Remove n xs"
  have ys: "set ?ys = set xs - {n}" "Tree_sorted (keyed cmp key) ?ys"
    using keyed_sorted_inj(2) [OF t(3,2)] Tree_Remove_sorted [OF t(2)] by (simp_all add: Tree_Remove_def)
  then have c: "\<forall>p \<in> set ?ys. carrier (key p)" using t(3) by simp
  have inj: "key p \<noteq> key n" if "p \<in> set xs" "p \<noteq> n" for p using keyed_sorted_inj(1) [OF t(3,2)] n that by (auto dest: inj_onD)
  have "Tree_LookupExact cmp key k ?ys = (if k = key n then None else Tree_LookupExact cmp key k xs)"
  proof (cases "Tree_LookupExact cmp key k xs")
    case None
    then have "\<forall>p \<in> set xs. key p \<noteq> k" using Tree_LookupExact_None [OF t(3) k] by simp
    then show ?thesis using None Tree_LookupExact_None [OF c k] ys(1) by simp
  next
    case (Some p)
    then have p: "p \<in> set xs" "key p = k" using Tree_LookupExact_Some [OF t(3) k] by auto
    show ?thesis
    proof (cases "p = n")
      case True
      then show ?thesis using p inj Tree_LookupExact_None [OF c k] ys(1) by auto
    next
      case False
      then show ?thesis using p inj [of p] Some keyed_lookup [OF c ys(2), of p k] ys(1) by auto
    qed
  qed
  with h' look_law [OF h'(2) ys(2) c k] look_law [OF t k] show ?thesis by auto
qed

end

text \<open>The balanced trees provide this for every comparator of the code base.\<close>

sublocale comparator \<subseteq> tree: search_tree carrier cmp BAVL_tree BAVL_Insert BAVL_Remove BAVL_LookupExact
proof unfold_locales
  fix h xs key n
  assume t: "BAVL_tree h xs" "Tree_sorted (keyed cmp key) xs" "\<forall>p \<in> set xs. carrier (key p)" "carrier (key n)" "n \<notin> set xs"
  from BAVL_Insert_keyed [OF t]
  show "\<exists>h' ref. BAVL_Insert (keyed cmp key) h n = Some (h', \<forall>p \<in> set xs. key p \<noteq> key n, ref) \<and> BAVL_tree h' (Tree_Insert (keyed cmp key) n xs)"
  proof (elim disjE bexE)
    fix p assume p: "p \<in> set xs" "key p = key n \<and> BAVL_Insert (keyed cmp key) h n = Some (h, False, Some p)"
    have loc: "located (keyed cmp key n) xs" by (rule located_keyed [OF t(2-4)])
    have "Tree_Insert (keyed cmp key) n xs = xs" by (rule Tree_Insert_dup [of "keyed cmp key", OF loc p(1)]) (use p t cmp_eq in auto)
    with p t(1) show ?thesis by auto
  qed auto
qed (use BAVL_Remove_spec BAVL_Lookup_keyed in auto)

subsection \<open>Sequences of operations\<close>

datatype tree_op = Op_insert nat | Op_remove nat

primrec op_node :: "tree_op \<Rightarrow> nat" where
  "op_node (Op_insert n) = n"
| "op_node (Op_remove n) = n"

fun BAVL_op :: "(nat \<Rightarrow> nat \<Rightarrow> int) \<Rightarrow> BAVL \<Rightarrow> tree_op \<Rightarrow> BAVL option" where
  "BAVL_op cmp h (Op_insert n) = map_option fst (BAVL_Insert cmp h n)"
| "BAVL_op cmp h (Op_remove n) = BAVL_Remove h n"

fun BAVL_run :: "(nat \<Rightarrow> nat \<Rightarrow> int) \<Rightarrow> BAVL \<Rightarrow> tree_op list \<Rightarrow> BAVL option" where
  "BAVL_run cmp h [] = Some h"
| "BAVL_run cmp h (e # es) = Option.bind (BAVL_op cmp h e) (\<lambda>h. BAVL_run cmp h es)"

text \<open>The same operations on the sequence.  A node that is in the tree must not be inserted, and only such a node may be removed.\<close>

fun Tree_op :: "(nat \<Rightarrow> nat \<Rightarrow> int) \<Rightarrow> nat list \<Rightarrow> tree_op \<Rightarrow> nat list option" where
  "Tree_op cmp xs (Op_insert n) = (if n \<in> set xs then None else Some (Tree_Insert cmp n xs))"
| "Tree_op cmp xs (Op_remove n) = (if n \<in> set xs then Some (Tree_Remove n xs) else None)"

fun Tree_run :: "(nat \<Rightarrow> nat \<Rightarrow> int) \<Rightarrow> nat list \<Rightarrow> tree_op list \<Rightarrow> nat list option" where
  "Tree_run cmp xs [] = Some xs"
| "Tree_run cmp xs (e # es) = Option.bind (Tree_op cmp xs e) (\<lambda>xs. Tree_run cmp xs es)"

context comparator
begin

lemma Tree_op_sorted:
  assumes "Tree_sorted (keyed cmp key) xs" "\<forall>p \<in> set xs. carrier (key p)" "carrier (key (op_node e))" "Tree_op (keyed cmp key) xs e = Some ys"
  shows "Tree_sorted (keyed cmp key) ys \<and> (\<forall>p \<in> set ys. carrier (key p))"
proof (cases e)
  case (Op_insert n)
  show ?thesis
  proof (cases "\<forall>p \<in> set xs. key p \<noteq> key n")
    case True
    with keyed_insert [OF assms(2,1), of n] assms Op_insert show ?thesis by (auto split: if_splits)
  next
    case False
    then obtain p where p: "p \<in> set xs" "cmp (key n) (key p) = 0" using assms(2,3) Op_insert cmp_eq by auto
    have "located (keyed cmp key n) xs" using located_keyed [OF assms(1,2)] assms(3) Op_insert by simp
    from Tree_Insert_dup [of "keyed cmp key", OF this p] assms Op_insert show ?thesis by (auto split: if_splits)
  qed
next
  case (Op_remove n)
  then show ?thesis using assms Tree_Remove_sorted [OF assms(1)] by (auto simp: Tree_Remove_def dest: in_set_remove1 split: if_splits)
qed

lemma BAVL_Remove_keyed:
  assumes "BAVL_tree h xs" "Tree_sorted (keyed cmp key) xs" "\<forall>p \<in> set xs. carrier (key p)" "n \<in> set xs" "carrier k"
  shows "\<exists>h'. BAVL_Remove h n = Some h' \<and> BAVL_tree h' (remove1 n xs) \<and>
    BAVL_LookupExact (\<lambda>p. cmp k (key p)) h' = (if k = key n then Some None else BAVL_LookupExact (\<lambda>p. cmp k (key p)) h)"
  using tree.look_after_rem [OF assms] BAVL_Remove_spec [OF assms(1,4)] by (auto simp: Tree_Remove_def)

lemma BAVL_run_refines:
  assumes "BAVL_tree h xs" "Tree_sorted (keyed cmp key) xs" "\<forall>p \<in> set xs. carrier (key p)" "\<forall>e \<in> set es. carrier (key (op_node e))"
    "Tree_run (keyed cmp key) xs es = Some ys"
  shows "\<exists>h'. BAVL_run (keyed cmp key) h es = Some h' \<and> BAVL_tree h' ys \<and> Tree_sorted (keyed cmp key) ys \<and> (\<forall>p \<in> set ys. carrier (key p))"
  using assms
proof (induction es arbitrary: h xs)
  case (Cons e es)
  then obtain zs where zs: "Tree_op (keyed cmp key) xs e = Some zs" "Tree_run (keyed cmp key) zs es = Some ys" by (auto simp: Option.bind_eq_Some_conv)
  have "\<exists>h'. BAVL_op (keyed cmp key) h e = Some h' \<and> BAVL_tree h' zs"
  proof (cases e)
    case (Op_insert n)
    then show ?thesis using tree.ins_law [OF Cons.prems(1-3), of n] Cons.prems(4) zs(1) by (auto split: if_splits)
  next
    case (Op_remove n)
    then show ?thesis using tree.rem_law [OF Cons.prems(1), of n] zs(1) by (auto split: if_splits)
  qed
  then obtain h' where "BAVL_op (keyed cmp key) h e = Some h'" "BAVL_tree h' zs" by blast
  moreover note Tree_op_sorted [OF Cons.prems(2,3) _ zs(1)]
  ultimately show ?case using Cons.IH [of h' zs] Cons.prems(4) zs(2) by auto
qed auto

end

lemma BAVL_tree_Init: "BAVL_tree (BAVL_Init h) []"
  by (auto simp: BAVL_tree_def BAVL_Init_def rep_def intro!: exI [of _ Leaf])

lemma BAVL_ends:
  assumes "BAVL_tree h xs"
  shows "BAVL_GetFirst h = Some (hd_opt xs)" and "BAVL_GetLast h = Some (hd_opt (rev xs))"
proof -
  obtain t where t: "rep h t" "inorder t = xs" using assms by (auto simp: BAVL_tree_def)
  have "subtree_end s h c = Some (hd (if s then rev xs else xs)) \<and> xs \<noteq> []" if "bt_root h = Some c" for s c
    using subtree_end_spec [of h None t c s] that t by (cases s) (auto simp: rep_def inorder_plug nd_simps)
  moreover have "xs = []" if "bt_root h = None" using that t by (auto simp: rep_def dest!: sym [of None])
  ultimately show "BAVL_GetFirst h = Some (hd_opt xs)" "BAVL_GetLast h = Some (hd_opt (rev xs))"
    by (cases "bt_root h"; auto simp: BAVL_GetFirst_def BAVL_GetLast_def hd_opt_def split: list.split)+
qed

text \<open>A tree of two nodes, for examples.\<close>

definition blank :: BAVL where
  "blank = \<lparr>bt_root = None, bt_parent = (\<lambda>_. None), bt_link = (\<lambda>_ _. None), bt_balance = (\<lambda>_. 0)\<rparr>"

definition two_nodes :: BAVL where
  "two_nodes = blank\<lparr>bt_root := Some 3, bt_parent := (\<lambda>_. None)(5 := Some 3), bt_link := (\<lambda>_ _. None)(3 := (\<lambda>s. if s then Some 5 else None)),
     bt_balance := (\<lambda>_. 0)(3 := 1)\<rparr>"

lemma two_nodes_tree: "BAVL_tree two_nodes [3, 5]"
  unfolding BAVL_tree_def by (intro exI [of _ "Node Leaf 3 (Node Leaf 5 Leaf)"]) (simp add: rep_def two_nodes_def blank_def)

subsection \<open>Properties\<close>

text \<open>C17.  The balanced trees implement the search trees on sequences, for every sequence of insertions and removals
  within their contract: no null pointer is followed, all loops and recursions end, the nodes in their order are
  those of the sequence, and the check \<^verbatim>\<open>BAVL_Verify\<close> of parent links, order and balance fields passes at the end.\<close>

theorem BAVL_sequence_refines:
  assumes "comparator carrier cmp" "\<forall>e \<in> set es. carrier (key (op_node e))"
    and "Tree_run (\<lambda>p q. cmp (key p) (key q)) [] es = Some xs"
  shows "\<exists>h. BAVL_run (\<lambda>p q. cmp (key p) (key q)) (BAVL_Init h0) es = Some h \<and> BAVL_tree h xs \<and>
    Tree_sorted (\<lambda>p q. cmp (key p) (key q)) xs \<and> BAVL_Verify (\<lambda>p q. cmp (key p) (key q)) h = Some ()"
proof -
  obtain h where h: "BAVL_run (\<lambda>p q. cmp (key p) (key q)) (BAVL_Init h0) es = Some h" "BAVL_tree h xs"
    "Tree_sorted (\<lambda>p q. cmp (key p) (key q)) xs" "\<forall>p \<in> set xs. carrier (key p)"
    using comparator.BAVL_run_refines [OF assms(1) BAVL_tree_Init _ _ assms(2,3)] by (auto simp: Tree_sorted_def)
  with comparator.BAVL_Verify_keyed [OF assms(1) h(2-4)] show ?thesis by blast
qed

text \<open>Node 12 has the key of node 2 and is not inserted.\<close>

theorem BAVL_sequence_refines_witness:
  "\<exists>h. BAVL_run (\<lambda>p q. B_COMPARE (p mod 10) (q mod 10)) (BAVL_Init blank) [Op_insert 3, Op_insert 1, Op_insert 2, Op_insert 12, Op_remove 3] = Some h \<and>
    BAVL_tree h [1, 2]"
  using BAVL_sequence_refines [of "\<lambda>_. True" B_COMPARE "[Op_insert 3, Op_insert 1, Op_insert 2, Op_insert 12, Op_remove 3]" "\<lambda>n. n mod 10" "[1, 2]" blank,
      OF bcmp.comparator_axioms]
  by (auto simp: B_COMPARE_def Tree_Remove_def)

text \<open>Insertion of a node with a new key puts it at its place in the order; \<^verbatim>\<open>*ref\<close> is then its predecessor or its
  successor, or null when the tree was empty.  A node whose key is present is not inserted, the tree is
  unchanged, and \<^verbatim>\<open>*ref\<close> is the node with that key.\<close>

theorem BAVL_Insert_result:
  assumes "comparator carrier cmp" "BAVL_tree h xs" "Tree_sorted (\<lambda>p q. cmp (key p) (key q)) xs" "\<forall>p \<in> set xs. carrier (key p)"
    and "carrier (key node)" "node \<notin> set xs"
  shows "(\<exists>p \<in> set xs. key p = key node \<and> BAVL_Insert (\<lambda>p q. cmp (key p) (key q)) h node = Some (h, False, Some p)) \<or>
    (\<forall>p \<in> set xs. key p \<noteq> key node) \<and>
    (\<exists>h' ref as bs. BAVL_Insert (\<lambda>p q. cmp (key p) (key q)) h node = Some (h', True, ref) \<and> xs = as @ bs \<and>
       Tree_Insert (\<lambda>p q. cmp (key p) (key q)) node xs = as @ node # bs \<and> BAVL_tree h' (as @ node # bs) \<and>
       (xs = [] \<and> ref = None \<or> as \<noteq> [] \<and> ref = Some (last as) \<or> bs \<noteq> [] \<and> ref = Some (hd bs)))"
  by (rule comparator.BAVL_Insert_keyed [OF assms])

theorem BAVL_Insert_result_witness:
  "\<exists>h' ref. BAVL_Insert B_COMPARE two_nodes 4 = Some (h', True, ref) \<and> BAVL_tree h' [3, 4, 5]"
proof -
  have "Tree_Insert B_COMPARE 4 [3, 5] = [3, 4, 5::nat]" by (simp add: B_COMPARE_def)
  moreover have "Tree_sorted B_COMPARE [3, 5::nat]" by (simp add: Tree_sorted_def B_COMPARE_def)
  ultimately show ?thesis
    using BAVL_Insert_result [of "\<lambda>_. True" B_COMPARE two_nodes "[3, 5]" "\<lambda>n. n" 4, OF bcmp.comparator_axioms two_nodes_tree] by auto
qed

text \<open>C24.  The search down the tree is equivalent to a linear search through the nodes, and the neighbours returned by
  the iteration are those of the sequence.\<close>

theorem BAVL_search_equivalent:
  assumes "comparator carrier cmp" "BAVL_tree h xs" "Tree_sorted (\<lambda>p q. cmp (key p) (key q)) xs" "\<forall>p \<in> set xs. carrier (key p)" "carrier k"
  shows "BAVL_LookupExact (\<lambda>p. cmp k (key p)) h = Some (find (\<lambda>p. cmp k (key p) = 0) xs) \<and>
    BAVL_GetFirst h = Some (hd_opt xs) \<and> BAVL_GetLast h = Some (hd_opt (rev xs)) \<and>
    (\<forall>as n bs. xs = as @ n # bs \<longrightarrow> BAVL_GetNext h n = Some (hd_opt bs) \<and> BAVL_GetPrev h n = Some (hd_opt (rev as)))"
  using comparator.BAVL_Lookup_keyed [OF assms] BAVL_ends [OF assms(2)] neighbour_spec [OF assms(2)]
  by (simp add: Tree_LookupExact_def BAVL_GetNext_def BAVL_GetPrev_def)

theorem BAVL_search_equivalent_witness:
  "BAVL_LookupExact (B_COMPARE 5) two_nodes = Some (Some 5) \<and> BAVL_GetNext two_nodes 3 = Some (Some 5) \<and> BAVL_GetPrev two_nodes 3 = Some None"
proof -
  have srt: "Tree_sorted B_COMPARE [3, 5::nat]" by (simp add: Tree_sorted_def B_COMPARE_def)
  have "find (\<lambda>p. B_COMPARE 5 p = 0) [3, 5::nat] = Some 5" by (simp add: B_COMPARE_def)
  moreover have "[3, 5::nat] = [] @ 3 # [5]" by simp
  ultimately show ?thesis
    using BAVL_search_equivalent [of "\<lambda>_. True" B_COMPARE two_nodes "[3, 5]" "\<lambda>n. n" 5, OF bcmp.comparator_axioms two_nodes_tree srt]
    by (fastforce dest: spec [of _ "[]"])
qed

text \<open>A removal takes the node out of the sequence, and a lookup then finds what it found before, except the removed node.\<close>

theorem BAVL_Remove_lookup:
  assumes "comparator carrier cmp" "BAVL_tree h xs" "Tree_sorted (\<lambda>p q. cmp (key p) (key q)) xs" "\<forall>p \<in> set xs. carrier (key p)"
    and "n \<in> set xs" "carrier k"
  shows "\<exists>h'. BAVL_Remove h n = Some h' \<and> BAVL_tree h' (remove1 n xs) \<and>
    BAVL_LookupExact (\<lambda>p. cmp k (key p)) h' = (if k = key n then Some None else BAVL_LookupExact (\<lambda>p. cmp k (key p)) h)"
  by (rule comparator.BAVL_Remove_keyed [OF assms])

theorem BAVL_Remove_lookup_witness:
  "\<exists>h. BAVL_Remove two_nodes 3 = Some h \<and> BAVL_tree h [5] \<and> BAVL_LookupExact (B_COMPARE 3) h = Some None"
proof -
  have srt: "Tree_sorted B_COMPARE [3, 5::nat]" by (simp add: Tree_sorted_def B_COMPARE_def)
  show ?thesis
    using BAVL_Remove_lookup [of "\<lambda>_. True" B_COMPARE two_nodes "[3, 5]" "\<lambda>n. n" 3 3, OF bcmp.comparator_axioms two_nodes_tree srt] by auto
qed

text \<open>The pointers of a tree with \<open>N\<close> nodes form a binary tree whose height \<open>H\<close> satisfies \<open>2 ^ (H div 2) \<le> N + 1\<close>, which bounds
  the loops of the searches and of the rebalancing; every balance field is -1, 0 or 1.\<close>

theorem BAVL_height_bound:
  assumes "BAVL_tree h xs"
  shows "\<exists>t. bt_root h = ptr t \<and> tr h None t \<and> inorder t = xs \<and> 2 ^ (height t div 2) \<le> length xs + 1 \<and> (\<forall>n \<in> set xs. \<bar>bt_balance h n\<bar> \<le> 1)"
proof -
  obtain t where t: "rep h t" "avl (bt_balance h) t" "inorder t = xs" using assms by (auto simp: BAVL_tree_def)
  have "\<forall>n \<in> set_tree t. \<bar>bt_balance h n\<bar> \<le> 1" using t(2) by (induction t) auto
  moreover have "length xs + 1 = size1 t" using t(3) by (metis length_inorder size1_size)
  ultimately show ?thesis using t avl_size [OF t(2)] by (intro exI [of _ t]) (auto simp: rep_def)
qed

theorem BAVL_height_bound_witness: "\<bar>bt_balance two_nodes 3\<bar> \<le> 1 \<and> \<bar>bt_balance two_nodes 5\<bar> \<le> 1"
  using BAVL_height_bound [OF two_nodes_tree] by auto

end
