(* ===== verification/LinkedList.thy ===== *)
theory LinkedList
  imports Prelude
begin

text \<open>
  The two intrusive doubly linked lists of the code base, at pointer level:
  \<^verbatim>\<open>structure/LinkedList1.h\<close> (used by the fair queue, the UDP gateway client, the fragment
  assembler and the TCP client list) and the template \<^verbatim>\<open>structure/SLinkedList_impl.h\<close>
  (used by \<^verbatim>\<open>base/BPending.c\<close>).  A pointer is an \<open>'a option\<close> (\<open>None\<close> is \<^verbatim>\<open>NULL\<close>); the
  memory holds one function per node field.  The representation predicate \<open>dlseg\<close> says that a
  chain of nodes is a given list; every operation is shown to act on that list as intended and
  to leave every other list threaded through the same memory alone.
\<close>

subsection \<open>Memory and the representation predicate\<close>

record 'a dl_heap =
  nd_prev :: "'a \<Rightarrow> 'a option"
  nd_next :: "'a \<Rightarrow> 'a option"

definition or_else :: "'a option \<Rightarrow> 'a option \<Rightarrow> 'a option" where
  "or_else a b = (case a of None \<Rightarrow> b | Some x \<Rightarrow> Some x)"

lemma or_else_simps [simp]: "or_else None b = b" "or_else (Some x) b = Some x"
  by (simp_all add: or_else_def)

fun dlseg :: "'a dl_heap \<Rightarrow> 'a option \<Rightarrow> 'a list \<Rightarrow> 'a option \<Rightarrow> bool" where
  "dlseg h pr [] nx = True"
| "dlseg h pr (x # xs) nx =
     (nd_prev h x = pr \<and> nd_next h x = or_else (hd_opt xs) nx \<and>
      dlseg h (Some x) xs nx)"

lemma dlseg_append:
  "dlseg h pr (xs @ ys) nx \<longleftrightarrow>
   dlseg h pr xs (or_else (hd_opt ys) nx) \<and> dlseg h (or_else (last_opt xs) pr) ys nx"
proof (induction xs arbitrary: pr)
  case Nil
  then show ?case by simp
next
  case (Cons x xs)
  have "or_else (hd_opt (xs @ ys)) nx = or_else (hd_opt xs) (or_else (hd_opt ys) nx)"
    by (cases xs) auto
  moreover have "or_else (last_opt (x # xs)) pr = or_else (last_opt xs) (Some x)"
    by (cases xs rule: rev_cases) (auto simp: last_opt_append last_opt_Cons)
  ultimately show ?case using Cons.IH [of "Some x"] by auto
qed

lemma dlseg_cong:
  "(\<And>x. x \<in> set xs \<Longrightarrow> nd_prev h' x = nd_prev h x \<and> nd_next h' x = nd_next h x) \<Longrightarrow>
   dlseg h' pr xs nx = dlseg h pr xs nx"
  by (induction xs arbitrary: pr) auto

text \<open>Only the first node's back pointer and the last node's forward pointer see the outside.\<close>

lemma dlseg_set_pr:
  "dlseg h pr (x # xs) nx \<Longrightarrow> x \<notin> set xs \<Longrightarrow>
   dlseg (h\<lparr>nd_prev := (nd_prev h)(x := pr')\<rparr>) pr' (x # xs) nx"
proof -
  assume a: "dlseg h pr (x # xs) nx" and x: "x \<notin> set xs"
  have "dlseg (h\<lparr>nd_prev := (nd_prev h)(x := pr')\<rparr>) (Some x) xs nx = dlseg h (Some x) xs nx"
    by (rule dlseg_cong) (use x in auto)
  with a show ?thesis by simp
qed

lemma dlseg_set_nx:
  assumes "dlseg h pr (xs @ [x]) nx" and "x \<notin> set xs"
  shows "dlseg (h\<lparr>nd_next := (nd_next h)(x := nx')\<rparr>) pr (xs @ [x]) nx'"
proof -
  have "dlseg (h\<lparr>nd_next := (nd_next h)(x := nx')\<rparr>) pr xs (Some x) = dlseg h pr xs (Some x)"
    by (rule dlseg_cong) (use assms in auto)
  with assms show ?thesis by (simp add: dlseg_append)
qed

lemma dlseg_first_prev: "dlseg h pr (x # xs) nx \<Longrightarrow> nd_prev h x = pr"
  by simp

lemma dlseg_next: "dlseg h pr (xs @ a # ys) nx \<Longrightarrow> nd_next h a = or_else (hd_opt ys) nx"
  by (cases ys) (auto simp: dlseg_append)

lemma dlseg_prev: "dlseg h pr (xs @ a # ys) nx \<Longrightarrow> nd_prev h a = or_else (last_opt xs) pr"
  by (auto simp: dlseg_append)

subsection \<open>\<^verbatim>\<open>LinkedList1.h\<close>\<close>

record 'a LinkedList1 =
  ll_first :: "'a option"
  ll_last :: "'a option"

type_synonym 'a ll_state = "'a LinkedList1 \<times> 'a dl_heap"

definition LinkedList1_Init :: "'a dl_heap \<Rightarrow> 'a ll_state" where
  "LinkedList1_Init h = (\<lparr>ll_first = None, ll_last = None\<rparr>, h)"

definition LinkedList1_IsEmpty :: "'a ll_state \<Rightarrow> bool" where
  "LinkedList1_IsEmpty s = (ll_first (fst s) = None)"

definition LinkedList1_GetFirst :: "'a ll_state \<Rightarrow> 'a option" where
  "LinkedList1_GetFirst s = ll_first (fst s)"

definition LinkedList1_GetLast :: "'a ll_state \<Rightarrow> 'a option" where
  "LinkedList1_GetLast s = ll_last (fst s)"

definition LinkedList1Node_Next :: "'a \<Rightarrow> 'a ll_state \<Rightarrow> 'a option" where
  "LinkedList1Node_Next node s = nd_next (snd s) node"

definition LinkedList1Node_Prev :: "'a \<Rightarrow> 'a ll_state \<Rightarrow> 'a option" where
  "LinkedList1Node_Prev node s = nd_prev (snd s) node"

definition LinkedList1_Prepend :: "'a \<Rightarrow> 'a ll_state \<Rightarrow> 'a ll_state" where
  "LinkedList1_Prepend node s =
     (let (l, h) = s;
          h = h\<lparr>nd_prev := (nd_prev h)(node := None)\<rparr>;
          h = h\<lparr>nd_next := (nd_next h)(node := ll_first l)\<rparr>;
          (l, h) = (case ll_first l of
                      Some f \<Rightarrow> (l, h\<lparr>nd_prev := (nd_prev h)(f := Some node)\<rparr>)
                    | None \<Rightarrow> (l\<lparr>ll_last := Some node\<rparr>, h))
      in (l\<lparr>ll_first := Some node\<rparr>, h))"

definition LinkedList1_Append :: "'a \<Rightarrow> 'a ll_state \<Rightarrow> 'a ll_state" where
  "LinkedList1_Append node s =
     (let (l, h) = s;
          h = h\<lparr>nd_prev := (nd_prev h)(node := ll_last l)\<rparr>;
          h = h\<lparr>nd_next := (nd_next h)(node := None)\<rparr>;
          (l, h) = (case ll_last l of
                      Some f \<Rightarrow> (l, h\<lparr>nd_next := (nd_next h)(f := Some node)\<rparr>)
                    | None \<Rightarrow> (l\<lparr>ll_first := Some node\<rparr>, h))
      in (l\<lparr>ll_last := Some node\<rparr>, h))"

definition LinkedList1_InsertBefore :: "'a \<Rightarrow> 'a \<Rightarrow> 'a ll_state \<Rightarrow> 'a ll_state" where
  "LinkedList1_InsertBefore node target s =
     (let (l, h) = s;
          h = h\<lparr>nd_prev := (nd_prev h)(node := nd_prev h target)\<rparr>;
          h = h\<lparr>nd_next := (nd_next h)(node := Some target)\<rparr>;
          (l, h) = (case nd_prev h target of
                      Some q \<Rightarrow> (l, h\<lparr>nd_next := (nd_next h)(q := Some node)\<rparr>)
                    | None \<Rightarrow> (l\<lparr>ll_first := Some node\<rparr>, h))
      in (l, h\<lparr>nd_prev := (nd_prev h)(target := Some node)\<rparr>))"

definition LinkedList1_InsertAfter :: "'a \<Rightarrow> 'a \<Rightarrow> 'a ll_state \<Rightarrow> 'a ll_state" where
  "LinkedList1_InsertAfter node target s =
     (let (l, h) = s;
          h = h\<lparr>nd_prev := (nd_prev h)(node := Some target)\<rparr>;
          h = h\<lparr>nd_next := (nd_next h)(node := nd_next h target)\<rparr>;
          (l, h) = (case nd_next h target of
                      Some q \<Rightarrow> (l, h\<lparr>nd_prev := (nd_prev h)(q := Some node)\<rparr>)
                    | None \<Rightarrow> (l\<lparr>ll_last := Some node\<rparr>, h))
      in (l, h\<lparr>nd_next := (nd_next h)(target := Some node)\<rparr>))"

definition LinkedList1_Remove :: "'a \<Rightarrow> 'a ll_state \<Rightarrow> 'a ll_state" where
  "LinkedList1_Remove node s =
     (let (l, h) = s;
          (l, h) = (case nd_prev h node of
                      Some q \<Rightarrow> (l, h\<lparr>nd_next := (nd_next h)(q := nd_next h node)\<rparr>)
                    | None \<Rightarrow> (l\<lparr>ll_first := nd_next h node\<rparr>, h))
      in (case nd_next h node of
            Some q \<Rightarrow> (l, h\<lparr>nd_prev := (nd_prev h)(q := nd_prev h node)\<rparr>)
          | None \<Rightarrow> (l\<lparr>ll_last := nd_prev h node\<rparr>, h)))"

definition LinkedList1_InsertListAfter ::
  "'a LinkedList1 \<Rightarrow> 'a option \<Rightarrow> 'a ll_state \<Rightarrow> 'a ll_state" where
  "LinkedList1_InsertListAfter ins target s =
     (case (ll_first ins, ll_last ins) of
        (Some i_first, Some i_last) \<Rightarrow>
          (let (l, h) = s;
               t_next = (case target of Some t \<Rightarrow> nd_next h t | None \<Rightarrow> ll_first l);
               h = h\<lparr>nd_prev := (nd_prev h)(i_first := target)\<rparr>;
               h = h\<lparr>nd_next := (nd_next h)(i_last := t_next)\<rparr>;
               (l, h) = (case target of
                           Some t \<Rightarrow> (l, h\<lparr>nd_next := (nd_next h)(t := Some i_first)\<rparr>)
                         | None \<Rightarrow> (l\<lparr>ll_first := Some i_first\<rparr>, h))
           in (case t_next of
                 Some t \<Rightarrow> (l, h\<lparr>nd_prev := (nd_prev h)(t := Some i_last)\<rparr>)
               | None \<Rightarrow> (l\<lparr>ll_last := Some i_last\<rparr>, h)))
      | _ \<Rightarrow> s)"

definition LL_rep :: "'a ll_state \<Rightarrow> 'a list \<Rightarrow> bool" where
  "LL_rep s xs \<longleftrightarrow>
     distinct xs \<and> ll_first (fst s) = hd_opt xs \<and> ll_last (fst s) = last_opt xs \<and>
     dlseg (snd s) None xs None"

lemmas LL_ops_def =
  LinkedList1_Prepend_def LinkedList1_Append_def LinkedList1_InsertBefore_def
  LinkedList1_InsertAfter_def LinkedList1_Remove_def LinkedList1_InsertListAfter_def


subsection \<open>The operations act on the represented list\<close>

text \<open>An update at a node outside a segment does not change the segment.\<close>

lemma dl_heap_upd_id [simp]:
  "h\<lparr>nd_prev := nd_prev h\<rparr> = h" "h\<lparr>nd_next := nd_next h\<rparr> = h"
  by (cases h; simp)+

lemma dlseg_frame [simp]:
  "x \<notin> set xs \<Longrightarrow> dlseg (h\<lparr>nd_prev := f(x := v)\<rparr>) pr xs nx = dlseg (h\<lparr>nd_prev := f\<rparr>) pr xs nx"
  "x \<notin> set xs \<Longrightarrow> dlseg (h\<lparr>nd_next := g(x := v)\<rparr>) pr xs nx = dlseg (h\<lparr>nd_next := g\<rparr>) pr xs nx"
  "x \<notin> set xs \<Longrightarrow> dlseg (h\<lparr>nd_prev := f(x := v), nd_next := g\<rparr>) pr xs nx =
                   dlseg (h\<lparr>nd_prev := f, nd_next := g\<rparr>) pr xs nx"
  "x \<notin> set xs \<Longrightarrow> dlseg (h\<lparr>nd_next := g(x := v), nd_prev := f\<rparr>) pr xs nx =
                   dlseg (h\<lparr>nd_next := g, nd_prev := f\<rparr>) pr xs nx"
  by (rule dlseg_cong; auto)+

lemma list_end_cases:
  obtains "xs = []" | ys y where "xs = ys @ [y]"
  by (cases xs rule: rev_cases) auto

lemma LL_rep_Init: "LL_rep (LinkedList1_Init h) []"
  by (simp add: LL_rep_def LinkedList1_Init_def)

lemma LL_rep_Prepend:
  assumes "LL_rep s xs" and "a \<notin> set xs"
  shows "LL_rep (LinkedList1_Prepend a s) (a # xs)"
  using assms
  by (cases s; cases xs)
     (auto simp: LL_rep_def LinkedList1_Prepend_def last_opt_Cons)

lemma LL_rep_Append:
  assumes "LL_rep s xs" and "a \<notin> set xs"
  shows "LL_rep (LinkedList1_Append a s) (xs @ [a])"
  using assms
  by (cases s; cases xs rule: list_end_cases)
     (auto simp: LL_rep_def LinkedList1_Append_def dlseg_append last_opt_append hd_opt_append
        Let_def)

lemma LL_rep_Remove_split:
  assumes "LL_rep s (xs @ a # ys)"
  shows "LL_rep (LinkedList1_Remove a s) (xs @ ys)"
  using assms
  by (cases s; cases xs rule: list_end_cases; cases ys)
     (auto simp: LL_rep_def LinkedList1_Remove_def dlseg_append last_opt_append
        hd_opt_append Let_def)

lemma LL_rep_InsertBefore:
  assumes "LL_rep s (xs @ t # ys)" and "a \<notin> set (xs @ t # ys)"
  shows "LL_rep (LinkedList1_InsertBefore a t s) (xs @ a # t # ys)"
  using assms
  by (cases s; cases xs rule: list_end_cases; cases ys)
     (auto simp: LL_rep_def LinkedList1_InsertBefore_def dlseg_append last_opt_append
        hd_opt_append Let_def)

lemma LL_rep_InsertAfter:
  assumes "LL_rep s (xs @ t # ys)" and "a \<notin> set (xs @ t # ys)"
  shows "LL_rep (LinkedList1_InsertAfter a t s) (xs @ t # a # ys)"
  using assms
  by (cases s; cases xs rule: list_end_cases; cases ys)
     (auto simp: LL_rep_def LinkedList1_InsertAfter_def dlseg_append last_opt_append
        hd_opt_append Let_def)


lemma dlseg_relink:
  assumes "dlseg h pr zs nx" and "distinct zs" and "zs \<noteq> []"
    and "nd_prev h' (hd zs) = pr'" and "nd_next h' (last zs) = nx'"
    and "\<And>x. x \<in> set (tl zs) \<Longrightarrow> nd_prev h' x = nd_prev h x"
    and "\<And>x. x \<in> set (butlast zs) \<Longrightarrow> nd_next h' x = nd_next h x"
  shows "dlseg h' pr' zs nx'"
  using assms
proof (induction zs arbitrary: pr pr')
  case Nil
  then show ?case by simp
next
  case (Cons z zs)
  show ?case
  proof (cases zs)
    case Nil
    with Cons.prems show ?thesis by simp
  next
    case (Cons y ys)
    have "dlseg h' (Some z) zs nx'"
      by (rule Cons.IH) (use Cons.prems Cons in auto)
    then show ?thesis using Cons.prems Cons by simp
  qed
qed

definition upd_opt :: "('a \<Rightarrow> 'b) \<Rightarrow> 'a option \<Rightarrow> 'b \<Rightarrow> 'a \<Rightarrow> 'b" where
  "upd_opt f a v = (case a of None \<Rightarrow> f | Some x \<Rightarrow> f(x := v))"

lemma upd_opt_other: "a \<noteq> Some x \<Longrightarrow> upd_opt f a v x = f x"
  by (cases a) (auto simp: upd_opt_def)

lemma upd_opt_same [simp]: "upd_opt f (Some x) v x = v"
  by (simp add: upd_opt_def)

lemma distinct_ends:
  assumes "distinct zs" and "zs \<noteq> []"
  shows "hd zs \<notin> set (tl zs)" and "last zs \<notin> set (butlast zs)"
  using assms by (cases zs; simp) (use assms in \<open>cases zs rule: rev_cases; simp\<close>)

lemma dlseg_hd: "dlseg h pr xs nx \<Longrightarrow> xs \<noteq> [] \<Longrightarrow> nd_prev h (hd xs) = pr"
  by (cases xs) auto

lemma dlseg_last: "dlseg h pr xs nx \<Longrightarrow> xs \<noteq> [] \<Longrightarrow> nd_next h (last xs) = nx"
  by (cases xs rule: rev_cases) (auto simp: dlseg_append)

lemma InsertListAfter_eq:
  assumes s: "LL_rep (l, h) (xs @ ys)" and f: "ll_first ins = Some z" "ll_last ins = Some z'"
    and z: "z' \<notin> set xs"
  shows "LinkedList1_InsertListAfter ins (last_opt xs) (l, h) =
    (\<lparr>ll_first = (if xs = [] then Some z else ll_first l),
      ll_last = (if ys = [] then Some z' else ll_last l), \<dots> = LinkedList1.more l\<rparr>,
     h\<lparr>nd_prev := upd_opt ((nd_prev h)(z := last_opt xs)) (hd_opt ys) (Some z'),
       nd_next := upd_opt ((nd_next h)(z' := hd_opt ys)) (last_opt xs) (Some z)\<rparr>)"
proof -
  have "(case last_opt xs of Some t \<Rightarrow> nd_next h t | None \<Rightarrow> ll_first l) = hd_opt ys"
    using s by (cases xs rule: list_end_cases; cases ys) (auto simp: LL_rep_def dlseg_append)
  then show ?thesis
    using f by (cases xs rule: list_end_cases; cases ys)
      (auto simp: LinkedList1_InsertListAfter_def upd_opt_def Let_def)
qed

lemma LL_rep_InsertListAfter:
  assumes s: "LL_rep s (xs @ ys)" and i: "LL_rep (ins, snd s) zs"
    and d: "set zs \<inter> set (xs @ ys) = {}"
  shows "LL_rep (LinkedList1_InsertListAfter ins (last_opt xs) s) (xs @ zs @ ys)"
proof (cases "zs = []")
  case True
  with s i show ?thesis
    by (cases s) (auto simp: LL_rep_def LinkedList1_InsertListAfter_def)
next
  case False
  obtain l h where sl: "s = (l, h)" by (cases s)
  have zi: "ll_first ins = Some (hd zs)" "ll_last ins = Some (last zs)" "distinct zs"
      "dlseg h None zs None" "hd_opt zs = Some (hd zs)" "last_opt zs = Some (last zs)"
    using i False sl by (auto simp: LL_rep_def last_opt_def hd_opt_def split: list.splits)
  have sg: "dlseg h None xs (hd_opt ys)" "dlseg h (last_opt xs) ys None" "distinct xs"
      "distinct ys" "set xs \<inter> set ys = {}"
    using s sl by (auto simp: LL_rep_def dlseg_append or_else_def split: option.splits)
  have mem: "hd zs \<in> set zs" "last zs \<in> set zs" using False by auto
  have dis: "x \<in> set zs \<Longrightarrow> x \<notin> set xs \<and> x \<notin> set ys" for x using d by auto
  define h' where "h' = h\<lparr>nd_prev := upd_opt ((nd_prev h)(hd zs := last_opt xs)) (hd_opt ys) (Some (last zs)),
       nd_next := upd_opt ((nd_next h)(last zs := hd_opt ys)) (last_opt xs) (Some (hd zs))\<rparr>"
  have in_ends: "hd_opt ys = Some x \<Longrightarrow> x \<in> set ys" "last_opt xs = Some x \<Longrightarrow> x \<in> set xs" for x
    by (auto dest: hd_opt_SomeD last_opt_SomeD)
  have prev': "nd_prev h' x = (if hd_opt ys = Some x then Some (last zs)
                 else if x = hd zs then last_opt xs else nd_prev h x)" for x
    by (cases "hd_opt ys") (auto simp: h'_def upd_opt_def)
  have next': "nd_next h' x = (if last_opt xs = Some x then Some (hd zs)
                 else if x = last zs then hd_opt ys else nd_next h x)" for x
    by (cases "last_opt xs") (auto simp: h'_def upd_opt_def)
  have zx: "x \<in> set zs \<Longrightarrow> hd_opt ys \<noteq> Some x \<and> last_opt xs \<noteq> Some x" for x
    using dis in_ends by blast
  have xx: "x \<in> set xs \<Longrightarrow> hd_opt ys \<noteq> Some x \<and> x \<noteq> hd zs \<and> x \<noteq> last zs" for x
    using dis mem in_ends sg(5) by blast
  have yx: "x \<in> set ys \<Longrightarrow> last_opt xs \<noteq> Some x \<and> x \<noteq> hd zs \<and> x \<noteq> last zs" for x
    using dis mem in_ends sg(5) by blast
  have X: "dlseg h' None xs (Some (hd zs))"
  proof (cases "xs = []")
    case ne: False
    show ?thesis
    proof (rule dlseg_relink [OF sg(1,3) ne])
      show "nd_prev h' (hd xs) = None"
        using xx [OF hd_in_set [OF ne]] dlseg_hd [OF sg(1) ne] by (simp add: prev')
      show "nd_next h' (last xs) = Some (hd zs)" using ne by (simp add: next' last_opt_def)
      show "nd_prev h' x = nd_prev h x" if "x \<in> set (tl xs)" for x
        using xx [OF list.set_sel(2) [OF ne that]] by (simp add: prev')
      show "nd_next h' x = nd_next h x" if "x \<in> set (butlast xs)" for x
        using xx [OF in_set_butlastD [OF that]] distinct_ends(2) [OF sg(3) ne] that ne
        by (auto simp: next' last_opt_def)
    qed
  qed simp
  have Z: "dlseg h' (last_opt xs) zs (hd_opt ys)"
  proof (rule dlseg_relink [OF zi(4,3) False])
    show "nd_prev h' (hd zs) = last_opt xs" using zx [OF mem(1)] by (simp add: prev')
    show "nd_next h' (last zs) = hd_opt ys" using zx [OF mem(2)] by (simp add: next')
    show "nd_prev h' x = nd_prev h x" if "x \<in> set (tl zs)" for x
      using zx [OF list.set_sel(2) [OF False that]] distinct_ends(1) [OF zi(3) False] that
      by (auto simp: prev')
    show "nd_next h' x = nd_next h x" if "x \<in> set (butlast zs)" for x
      using zx [OF in_set_butlastD [OF that]] distinct_ends(2) [OF zi(3) False] that
      by (auto simp: next')
  qed
  have Y: "dlseg h' (Some (last zs)) ys None"
  proof (cases "ys = []")
    case ne: False
    show ?thesis
    proof (rule dlseg_relink [OF sg(2,4) ne])
      have hy: "hd_opt ys = Some (hd ys)" using ne by (cases ys) auto
      show "nd_prev h' (hd ys) = Some (last zs)" by (simp add: prev' hy)
      show "nd_next h' (last ys) = None"
        using yx [OF last_in_set [OF ne]] dlseg_last [OF sg(2) ne] by (simp add: next')
      show "nd_prev h' x = nd_prev h x" if "x \<in> set (tl ys)" for x
        using yx [OF list.set_sel(2) [OF ne that]] distinct_ends(1) [OF sg(4) ne] that
        by (auto simp: prev' hy)
      show "nd_next h' x = nd_next h x" if "x \<in> set (butlast ys)" for x
        using yx [OF in_set_butlastD [OF that]] by (simp add: next')
    qed
  qed simp
  have "LinkedList1_InsertListAfter ins (last_opt xs) s = 
    (\<lparr>ll_first = (if xs = [] then Some (hd zs) else ll_first l),
      ll_last = (if ys = [] then Some (last zs) else ll_last l), \<dots> = LinkedList1.more l\<rparr>, h')"
    unfolding sl h'_def by (rule InsertListAfter_eq) (use s sl zi mem dis in auto)
  moreover have "dlseg h' None (xs @ zs @ ys) None"
    using X Y Z zi(5,6) False
    by (cases "hd_opt ys"; cases "last_opt xs") (simp_all add: dlseg_append hd_opt_append)
  moreover have "distinct (xs @ zs @ ys)" using s zi(3) d by (auto simp: LL_rep_def)
  ultimately show ?thesis using s zi(5,6) False
    by (auto simp: LL_rep_def sl hd_opt_append last_opt_append)
qed


subsection \<open>\<^verbatim>\<open>SLinkedList_impl.h\<close>\<close>

text \<open>The template is instantiated with or without the \<^verbatim>\<open>last\<close> pointer
  (\<^verbatim>\<open>SLINKEDLIST_PARAM_FEATURE_LAST\<close>); the flag is the first argument of every operation whose
  text depends on it.\<close>

record 'a SLinkedList =
  sl_first :: "'a option"
  sl_last :: "'a option"

type_synonym 'a sl_state = "'a SLinkedList \<times> 'a dl_heap"

definition SLinkedListNext :: "'a \<Rightarrow> 'a sl_state \<Rightarrow> 'a option" where
  "SLinkedListNext entry s = nd_next (snd s) entry"

definition SLinkedListPrev :: "'a \<Rightarrow> 'a sl_state \<Rightarrow> 'a option" where
  "SLinkedListPrev entry s = nd_prev (snd s) entry"

definition SLinkedList_Init :: "'a dl_heap \<Rightarrow> 'a sl_state" where
  "SLinkedList_Init h = (\<lparr>sl_first = None, sl_last = None\<rparr>, h)"

definition SLinkedList_Prepend :: "bool \<Rightarrow> 'a \<Rightarrow> 'a sl_state \<Rightarrow> 'a sl_state" where
  "SLinkedList_Prepend feature_last entry s =
     (let (l, h) = s;
          h = h\<lparr>nd_prev := (nd_prev h)(entry := None)\<rparr>;
          h = h\<lparr>nd_next := (nd_next h)(entry := sl_first l)\<rparr>;
          (l, h) = (case sl_first l of
                      Some f \<Rightarrow> (l, h\<lparr>nd_prev := (nd_prev h)(f := Some entry)\<rparr>)
                    | None \<Rightarrow> (if feature_last then l\<lparr>sl_last := Some entry\<rparr> else l, h))
      in (l\<lparr>sl_first := Some entry\<rparr>, h))"

definition SLinkedList_Append :: "'a \<Rightarrow> 'a sl_state \<Rightarrow> 'a sl_state" where
  "SLinkedList_Append entry s =
     (let (l, h) = s;
          h = h\<lparr>nd_next := (nd_next h)(entry := None)\<rparr>;
          h = h\<lparr>nd_prev := (nd_prev h)(entry := sl_last l)\<rparr>;
          (l, h) = (case sl_last l of
                      Some f \<Rightarrow> (l, h\<lparr>nd_next := (nd_next h)(f := Some entry)\<rparr>)
                    | None \<Rightarrow> (l\<lparr>sl_first := Some entry\<rparr>, h))
      in (l\<lparr>sl_last := Some entry\<rparr>, h))"

definition SLinkedList_InsertBefore :: "'a \<Rightarrow> 'a \<Rightarrow> 'a sl_state \<Rightarrow> 'a sl_state" where
  "SLinkedList_InsertBefore entry before_entry s =
     (let (l, h) = s;
          h = h\<lparr>nd_prev := (nd_prev h)(entry := nd_prev h before_entry)\<rparr>;
          h = h\<lparr>nd_next := (nd_next h)(entry := Some before_entry)\<rparr>;
          (l, h) = (case nd_prev h before_entry of
                      Some q \<Rightarrow> (l, h\<lparr>nd_next := (nd_next h)(q := Some entry)\<rparr>)
                    | None \<Rightarrow> (l\<lparr>sl_first := Some entry\<rparr>, h))
      in (l, h\<lparr>nd_prev := (nd_prev h)(before_entry := Some entry)\<rparr>))"

definition SLinkedList_InsertAfter :: "bool \<Rightarrow> 'a \<Rightarrow> 'a \<Rightarrow> 'a sl_state \<Rightarrow> 'a sl_state" where
  "SLinkedList_InsertAfter feature_last entry after_entry s =
     (let (l, h) = s;
          h = h\<lparr>nd_next := (nd_next h)(entry := nd_next h after_entry)\<rparr>;
          h = h\<lparr>nd_prev := (nd_prev h)(entry := Some after_entry)\<rparr>;
          (l, h) = (case nd_next h after_entry of
                      Some q \<Rightarrow> (l, h\<lparr>nd_prev := (nd_prev h)(q := Some entry)\<rparr>)
                    | None \<Rightarrow> (if feature_last then l\<lparr>sl_last := Some entry\<rparr> else l, h))
      in (l, h\<lparr>nd_next := (nd_next h)(after_entry := Some entry)\<rparr>))"

definition SLinkedList_Remove :: "bool \<Rightarrow> 'a \<Rightarrow> 'a sl_state \<Rightarrow> 'a sl_state" where
  "SLinkedList_Remove feature_last entry s =
     (let (l, h) = s;
          (l, h) = (case nd_prev h entry of
                      Some q \<Rightarrow> (l, h\<lparr>nd_next := (nd_next h)(q := nd_next h entry)\<rparr>)
                    | None \<Rightarrow> (l\<lparr>sl_first := nd_next h entry\<rparr>, h))
      in (case nd_next h entry of
            Some q \<Rightarrow> (l, h\<lparr>nd_prev := (nd_prev h)(q := nd_prev h entry)\<rparr>)
          | None \<Rightarrow> (if feature_last then l\<lparr>sl_last := nd_prev h entry\<rparr> else l, h)))"

definition SLinkedList_First :: "'a sl_state \<Rightarrow> 'a option" where
  "SLinkedList_First s = sl_first (fst s)"

definition SLinkedList_Last :: "'a sl_state \<Rightarrow> 'a option" where
  "SLinkedList_Last s = sl_last (fst s)"

definition SLinkedList_IsEmpty :: "'a sl_state \<Rightarrow> bool" where
  "SLinkedList_IsEmpty s = (sl_first (fst s) = None)"

definition SL_rep :: "bool \<Rightarrow> 'a sl_state \<Rightarrow> 'a list \<Rightarrow> bool" where
  "SL_rep fl s xs \<longleftrightarrow>
     distinct xs \<and> sl_first (fst s) = hd_opt xs \<and> (fl \<longrightarrow> sl_last (fst s) = last_opt xs) \<and>
     dlseg (snd s) None xs None"

lemma SL_rep_Init: "SL_rep fl (SLinkedList_Init h) []"
  by (simp add: SL_rep_def SLinkedList_Init_def)

lemma SL_rep_Prepend:
  assumes "SL_rep fl s xs" and "a \<notin> set xs"
  shows "SL_rep fl (SLinkedList_Prepend fl a s) (a # xs)"
  using assms
  by (cases s; cases xs) (auto simp: SL_rep_def SLinkedList_Prepend_def)

lemma SL_rep_Append:
  assumes "SL_rep True s xs" and "a \<notin> set xs"
  shows "SL_rep True (SLinkedList_Append a s) (xs @ [a])"
  using assms
  by (cases s; cases xs rule: list_end_cases)
     (auto simp: SL_rep_def SLinkedList_Append_def dlseg_append last_opt_append hd_opt_append
        Let_def)

lemma SL_rep_Remove_split:
  assumes "SL_rep fl s (xs @ a # ys)"
  shows "SL_rep fl (SLinkedList_Remove fl a s) (xs @ ys)"
  using assms
  by (cases s; cases xs rule: list_end_cases; cases ys)
     (auto simp: SL_rep_def SLinkedList_Remove_def dlseg_append last_opt_append
        hd_opt_append Let_def)

lemma SL_rep_InsertBefore:
  assumes "SL_rep fl s (xs @ t # ys)" and "a \<notin> set (xs @ t # ys)"
  shows "SL_rep fl (SLinkedList_InsertBefore a t s) (xs @ a # t # ys)"
  using assms
  by (cases s; cases xs rule: list_end_cases; cases ys)
     (auto simp: SL_rep_def SLinkedList_InsertBefore_def dlseg_append last_opt_append
        hd_opt_append Let_def)

lemma SL_rep_InsertAfter:
  assumes "SL_rep fl s (xs @ t # ys)" and "a \<notin> set (xs @ t # ys)"
  shows "SL_rep fl (SLinkedList_InsertAfter fl a t s) (xs @ t # a # ys)"
  using assms
  by (cases s; cases xs rule: list_end_cases; cases ys)
     (auto simp: SL_rep_def SLinkedList_InsertAfter_def dlseg_append last_opt_append
        hd_opt_append Let_def)

subsection \<open>The list interface the components rely on\<close>

text \<open>
  What a client of an intrusive list may assume: the operations act on an abstract list of
  distinct nodes.  \<open>node_list\<close> is the part both implementations have; \<open>node_queue\<close> adds the
  tail operations.
\<close>

locale node_list =
  fixes rep :: "'s \<Rightarrow> 'a list \<Rightarrow> bool"
    and prepend :: "'a \<Rightarrow> 's \<Rightarrow> 's"
    and remove :: "'a \<Rightarrow> 's \<Rightarrow> 's"
    and first :: "'s \<Rightarrow> 'a option"
  assumes rep_distinct: "rep s xs \<Longrightarrow> distinct xs"
    and rep_first: "rep s xs \<Longrightarrow> first s = hd_opt xs"
    and rep_prepend: "rep s xs \<Longrightarrow> a \<notin> set xs \<Longrightarrow> rep (prepend a s) (a # xs)"
    and rep_remove: "rep s (xs @ a # ys) \<Longrightarrow> rep (remove a s) (xs @ ys)"
begin

lemma rep_remove1: "rep s xs \<Longrightarrow> a \<in> set xs \<Longrightarrow> rep (remove a s) (remove1 a xs)"
proof -
  assume r: "rep s xs" and a: "a \<in> set xs"
  from a obtain us vs where x: "xs = us @ a # vs" and n: "a \<notin> set us"
    by (meson split_list_first)
  with r show ?thesis by (simp add: rep_remove remove1_middle)
qed

lemma rep_pop: "rep s (a # xs) \<Longrightarrow> first s = Some a \<and> rep (remove a s) xs"
  using rep_first [of s "a # xs"] rep_remove [of s "[]" a xs] by simp

lemma move_to_front:
  "rep s xs \<Longrightarrow> a \<in> set xs \<Longrightarrow> rep (prepend a (remove a s)) (a # remove1 a xs)"
  using rep_distinct [of s xs] by (simp add: rep_prepend rep_remove1)

lemma rep_unique: "rep s xs \<Longrightarrow> rep s ys \<Longrightarrow> xs = ys"
proof (induction xs arbitrary: ys s)
  case Nil
  then show ?case using rep_first [of s "[]"] rep_first [of s ys] by simp
next
  case (Cons x xs)
  then have "hd_opt ys = Some x" using rep_first [of s "x # xs"] rep_first [of s ys] by simp
  then obtain ys' where ys: "ys = x # ys'" by (auto dest: hd_opt_SomeD)
  have "xs = ys'"
    using Cons.prems ys by (intro Cons.IH [of "remove x s"]) (simp_all add: rep_pop)
  with ys show ?case by simp
qed

end

locale node_queue = node_list +
  fixes append :: "'a \<Rightarrow> 's \<Rightarrow> 's"
    and last_node :: "'s \<Rightarrow> 'a option"
  assumes rep_last: "rep s xs \<Longrightarrow> last_node s = last_opt xs"
    and rep_append: "rep s xs \<Longrightarrow> a \<notin> set xs \<Longrightarrow> rep (append a s) (xs @ [a])"
begin

lemma move_to_back:
  "rep s xs \<Longrightarrow> a \<in> set xs \<Longrightarrow> rep (append a (remove a s)) (remove1 a xs @ [a])"
  using rep_distinct [of s xs] by (simp add: rep_append rep_remove1)

end

lemma LL_repD:
  "LL_rep s xs \<Longrightarrow> distinct xs" "LL_rep s xs \<Longrightarrow> LinkedList1_GetFirst s = hd_opt xs"
  "LL_rep s xs \<Longrightarrow> LinkedList1_GetLast s = last_opt xs"
  by (simp_all add: LL_rep_def LinkedList1_GetFirst_def LinkedList1_GetLast_def)

lemma SL_repD:
  "SL_rep fl s xs \<Longrightarrow> distinct xs" "SL_rep fl s xs \<Longrightarrow> SLinkedList_First s = hd_opt xs"
  "SL_rep True s xs \<Longrightarrow> SLinkedList_Last s = last_opt xs"
  by (simp_all add: SL_rep_def SLinkedList_First_def SLinkedList_Last_def)

interpretation ll: node_queue LL_rep LinkedList1_Prepend LinkedList1_Remove LinkedList1_GetFirst
  LinkedList1_Append LinkedList1_GetLast
  by unfold_locales
     (simp_all add: LL_repD LL_rep_Prepend LL_rep_Remove_split LL_rep_Append)

interpretation sl: node_list "SL_rep fl" "SLinkedList_Prepend fl" "SLinkedList_Remove fl"
  SLinkedList_First for fl
  by unfold_locales (simp_all add: SL_repD SL_rep_Prepend SL_rep_Remove_split)

interpretation slq: node_queue "SL_rep True" "SLinkedList_Prepend True" "SLinkedList_Remove True"
  SLinkedList_First SLinkedList_Append SLinkedList_Last
  by unfold_locales (simp_all add: SL_repD SL_rep_Append)

subsection \<open>Several lists through one memory\<close>

text \<open>\<open>same_outside A h h'\<close>: the two memories agree on the nodes outside \<open>A\<close>.\<close>

definition same_outside :: "'a set \<Rightarrow> 'a dl_heap \<Rightarrow> 'a dl_heap \<Rightarrow> bool" where
  "same_outside A h h' \<longleftrightarrow> (\<forall>x. x \<notin> A \<longrightarrow> nd_prev h' x = nd_prev h x \<and> nd_next h' x = nd_next h x)"

lemma LL_rep_frame:
  "LL_rep (l, h) xs \<Longrightarrow> same_outside A h h' \<Longrightarrow> set xs \<inter> A = {} \<Longrightarrow> LL_rep (l, h') xs"
  by (auto simp: LL_rep_def same_outside_def cong: dlseg_cong)
     (metis disjoint_iff dlseg_cong)

lemma Remove_same_outside:
  assumes "LL_rep (l, h) (xs @ a # ys)"
  shows "same_outside (set (xs @ a # ys)) h (snd (LinkedList1_Remove a (l, h)))"
  using assms
  by (cases xs rule: list_end_cases; cases ys)
     (auto simp: LL_rep_def dlseg_append LinkedList1_Remove_def Let_def same_outside_def)

lemma Append_same_outside:
  assumes "LL_rep (l, h) xs"
  shows "same_outside (insert a (set xs)) h (snd (LinkedList1_Append a (l, h)))"
  using assms
  by (cases xs rule: list_end_cases)
     (auto simp: LL_rep_def LinkedList1_Append_def Let_def same_outside_def)

text \<open>Moving a node from one list to another list threaded through the same memory, the way
  \<^verbatim>\<open>FragmentProtoAssembler.c\<close> moves frames between its used and free lists: the node leaves the
  first list, becomes the last element of the second, and nothing else changes in either.\<close>

theorem move_between_lists:
  assumes r1: "LL_rep (l1, h) (xs @ a # ys)" and r2: "LL_rep (l2, h) zs"
    and dis: "set (xs @ a # ys) \<inter> set zs = {}"
    and eq1: "LinkedList1_Remove a (l1, h) = (l1', h1)"
    and eq2: "LinkedList1_Append a (l2, h1) = (l2', h2)"
  shows "LL_rep (l1', h2) (xs @ ys) \<and> LL_rep (l2', h2) (zs @ [a])"
proof -
  have l1: "LL_rep (l1', h1) (xs @ ys)" using LL_rep_Remove_split [OF r1] eq1 by simp
  have so1: "same_outside (set (xs @ a # ys)) h h1" using Remove_same_outside [OF r1] eq1 by simp
  have l2: "LL_rep (l2, h1) zs" by (rule LL_rep_frame [OF r2 so1]) (use dis in auto)
  have "a \<notin> set zs" using dis by auto
  then have l2': "LL_rep (l2', h2) (zs @ [a])" using LL_rep_Append [OF l2] eq2 by metis
  have so2: "same_outside (insert a (set zs)) h1 h2" using Append_same_outside [OF l2, of a] eq2 by simp
  have "a \<notin> set (xs @ ys)" using LL_repD(1) [OF r1] by auto
  then have "LL_rep (l1', h2) (xs @ ys)"
    by (intro LL_rep_frame [OF l1 so2]) (use dis in auto)
  with l2' show ?thesis by simp
qed

definition ex_heap :: "nat dl_heap" where
  "ex_heap = \<lparr>nd_prev = (\<lambda>_. None)(1 \<mapsto> 0, 2 \<mapsto> 1), nd_next = (\<lambda>_. None)(0 \<mapsto> 1, 1 \<mapsto> 2)\<rparr>"

theorem move_between_lists_witness:
  "\<exists>l1' h1 l2' h2.
     LinkedList1_Remove 1 (\<lparr>ll_first = Some 0, ll_last = Some 2\<rparr>, ex_heap) = (l1', h1) \<and>
     LinkedList1_Append 1 (\<lparr>ll_first = Some 3, ll_last = Some 3\<rparr>, h1) = (l2', h2) \<and>
     LL_rep (l1', h2) [0, 2] \<and> LL_rep (l2', h2) [3, 1]"
proof -
  obtain l1' h1 where e1: "LinkedList1_Remove 1 (\<lparr>ll_first = Some 0, ll_last = Some 2\<rparr>, ex_heap) = (l1', h1)"
    by (cases "LinkedList1_Remove 1 (\<lparr>ll_first = Some 0, ll_last = Some 2\<rparr>, ex_heap)")
  obtain l2' h2 where e2: "LinkedList1_Append 1 (\<lparr>ll_first = Some 3, ll_last = Some 3\<rparr>, h1) = (l2', h2)"
    by (cases "LinkedList1_Append 1 (\<lparr>ll_first = Some 3, ll_last = Some 3\<rparr>, h1)")
  have "LL_rep (l1', h2) ([0] @ [2]) \<and> LL_rep (l2', h2) ([3] @ [1])"
    by (rule move_between_lists [OF _ _ _ e1 e2]) (simp_all add: LL_rep_def ex_heap_def)
  with e1 e2 show ?thesis by auto
qed

end
