(* ===== verification/Pending.thy ===== *)
theory Pending
  imports LinkedList
begin

text \<open>
  The job queue of the event loop, \<^verbatim>\<open>base/BPending.c\<close>.  Every asynchronous step of the flow
  components is a job (\<^verbatim>\<open>BPending\<close> or \<^verbatim>\<open>BSmallPending\<close>) of a \<^verbatim>\<open>BPendingGroup\<close>.  The group keeps
  its jobs in an \<^verbatim>\<open>SLinkedList\<close> without \<^verbatim>\<open>last\<close> pointer; a job that is not pending is marked by
  a \<^verbatim>\<open>next\<close> pointer to itself.  The group is shown to be a stack of distinct jobs in which
  setting a job moves it to the front.
\<close>

subsection \<open>State and operations\<close>

text \<open>The fields of all job objects (\<open>'a\<close> is the job's address), the list head of the group.
  Debug counters and debug objects are compiled out (\<^verbatim>\<open>NDEBUG\<close>).\<close>

record ('a, 'h, 'u) BPendingGroup =
  pg_jobs :: "'a SLinkedList"
  pg_nodes :: "'a dl_heap"
  pg_handler :: "'a \<Rightarrow> 'h"
  pg_user :: "'a \<Rightarrow> 'u"

definition pg_list :: "('a, 'h, 'u) BPendingGroup \<Rightarrow> 'a sl_state" where
  "pg_list g = (pg_jobs g, pg_nodes g)"

definition pg_with_list :: "('a, 'h, 'u) BPendingGroup \<Rightarrow> 'a sl_state \<Rightarrow> ('a, 'h, 'u) BPendingGroup" where
  "pg_with_list g s = g\<lparr>pg_jobs := fst s, pg_nodes := snd s\<rparr>"

definition set_self_next :: "'a \<Rightarrow> ('a, 'h, 'u) BPendingGroup \<Rightarrow> ('a, 'h, 'u) BPendingGroup" where
  "set_self_next p g =
     g\<lparr>pg_nodes := (pg_nodes g)\<lparr>nd_next := (nd_next (pg_nodes g))(p := Some p)\<rparr>\<rparr>"

definition BPendingGroup_Init :: "('a, 'h, 'u) BPendingGroup \<Rightarrow> ('a, 'h, 'u) BPendingGroup" where
  "BPendingGroup_Init g = pg_with_list g (SLinkedList_Init (pg_nodes g))"

definition BPendingGroup_HasJobs :: "('a, 'h, 'u) BPendingGroup \<Rightarrow> bool" where
  "BPendingGroup_HasJobs g = (\<not> SLinkedList_IsEmpty (pg_list g))"

text \<open>\<open>None\<close> is the dereference of a \<^verbatim>\<open>NULL\<close> first pointer; otherwise the job's handler and its
  argument, which the code calls last, and the group at that moment.\<close>

definition BPendingGroup_ExecuteJob ::
  "('a, 'h, 'u) BPendingGroup \<Rightarrow> ('h \<times> 'u \<times> ('a, 'h, 'u) BPendingGroup) option" where
  "BPendingGroup_ExecuteJob g =
     (case SLinkedList_First (pg_list g) of
        None \<Rightarrow> None
      | Some p \<Rightarrow>
          (let g = pg_with_list g (SLinkedList_Remove False p (pg_list g));
               g = set_self_next p g
           in Some (pg_handler g p, pg_user g p, g)))"

definition BPendingGroup_PeekJob :: "('a, 'h, 'u) BPendingGroup \<Rightarrow> 'a option" where
  "BPendingGroup_PeekJob g = SLinkedList_First (pg_list g)"

definition BSmallPending_SetHandler ::
  "'a \<Rightarrow> 'h \<Rightarrow> 'u \<Rightarrow> ('a, 'h, 'u) BPendingGroup \<Rightarrow> ('a, 'h, 'u) BPendingGroup" where
  "BSmallPending_SetHandler p handler user g =
     g\<lparr>pg_handler := (pg_handler g)(p := handler), pg_user := (pg_user g)(p := user)\<rparr>"

definition BSmallPending_Init ::
  "'a \<Rightarrow> 'h \<Rightarrow> 'u \<Rightarrow> ('a, 'h, 'u) BPendingGroup \<Rightarrow> ('a, 'h, 'u) BPendingGroup" where
  "BSmallPending_Init p handler user g =
     set_self_next p
       (g\<lparr>pg_handler := (pg_handler g)(p := handler), pg_user := (pg_user g)(p := user)\<rparr>)"

definition BSmallPending_IsSet :: "'a \<Rightarrow> ('a, 'h, 'u) BPendingGroup \<Rightarrow> bool" where
  "BSmallPending_IsSet p g = (nd_next (pg_nodes g) p \<noteq> Some p)"

definition BSmallPending_Free :: "'a \<Rightarrow> ('a, 'h, 'u) BPendingGroup \<Rightarrow> ('a, 'h, 'u) BPendingGroup" where
  "BSmallPending_Free p g =
     (if nd_next (pg_nodes g) p \<noteq> Some p
      then pg_with_list g (SLinkedList_Remove False p (pg_list g)) else g)"

definition BSmallPending_Set :: "'a \<Rightarrow> ('a, 'h, 'u) BPendingGroup \<Rightarrow> ('a, 'h, 'u) BPendingGroup" where
  "BSmallPending_Set p g =
     (let g = (if nd_next (pg_nodes g) p \<noteq> Some p
               then pg_with_list g (SLinkedList_Remove False p (pg_list g)) else g)
      in pg_with_list g (SLinkedList_Prepend False p (pg_list g)))"

definition BSmallPending_Unset :: "'a \<Rightarrow> ('a, 'h, 'u) BPendingGroup \<Rightarrow> ('a, 'h, 'u) BPendingGroup" where
  "BSmallPending_Unset p g =
     (if nd_next (pg_nodes g) p \<noteq> Some p
      then set_self_next p (pg_with_list g (SLinkedList_Remove False p (pg_list g))) else g)"

text \<open>\<^verbatim>\<open>BPending\<close> is a \<^verbatim>\<open>BSmallPending\<close> that remembers its group.\<close>

definition BPending_Init ::
  "'a \<Rightarrow> 'h \<Rightarrow> 'u \<Rightarrow> ('a, 'h, 'u) BPendingGroup \<Rightarrow> ('a, 'h, 'u) BPendingGroup" where
  "BPending_Init p handler user g = BSmallPending_Init p handler user g"

definition BPending_Free :: "'a \<Rightarrow> ('a, 'h, 'u) BPendingGroup \<Rightarrow> ('a, 'h, 'u) BPendingGroup" where
  "BPending_Free p g = BSmallPending_Free p g"

definition BPending_Set :: "'a \<Rightarrow> ('a, 'h, 'u) BPendingGroup \<Rightarrow> ('a, 'h, 'u) BPendingGroup" where
  "BPending_Set p g = BSmallPending_Set p g"

definition BPending_Unset :: "'a \<Rightarrow> ('a, 'h, 'u) BPendingGroup \<Rightarrow> ('a, 'h, 'u) BPendingGroup" where
  "BPending_Unset p g = BSmallPending_Unset p g"

definition BPending_IsSet :: "'a \<Rightarrow> ('a, 'h, 'u) BPendingGroup \<Rightarrow> bool" where
  "BPending_IsSet p g = BSmallPending_IsSet p g"

subsection \<open>Invariant\<close>

text \<open>\<open>pg_rep live g js\<close>: the initialised jobs are \<open>live\<close>, the pending ones are \<open>js\<close> in the order
  in which they will run, and a live job's \<^verbatim>\<open>next\<close> pointer tells whether it is pending.\<close>

definition pg_rep :: "'a set \<Rightarrow> ('a, 'h, 'u) BPendingGroup \<Rightarrow> 'a list \<Rightarrow> bool" where
  "pg_rep live g js \<longleftrightarrow>
     SL_rep False (pg_list g) js \<and> set js \<subseteq> live \<and>
     (\<forall>p \<in> live - set js. nd_next (pg_nodes g) p = Some p)"

lemma pg_list_with [simp]: "pg_list (pg_with_list g s) = s"
  by (simp add: pg_list_def pg_with_list_def)

lemma pg_with_list_sel [simp]:
  "pg_nodes (pg_with_list g s) = snd s" "pg_jobs (pg_with_list g s) = fst s"
  "pg_handler (pg_with_list g s) = pg_handler g" "pg_user (pg_with_list g s) = pg_user g"
  by (simp_all add: pg_with_list_def)

lemma pg_list_set_self_next:
  "pg_list (set_self_next p g) =
     (pg_jobs g, (pg_nodes g)\<lparr>nd_next := (nd_next (pg_nodes g))(p := Some p)\<rparr>)"
  by (simp add: pg_list_def set_self_next_def)

lemma SL_rep_next_neq:
  assumes "SL_rep fl (l, h) js" and "p \<in> set js"
  shows "nd_next h p \<noteq> Some p"
proof -
  obtain us vs where js: "js = us @ p # vs" using assms(2) by (meson split_list)
  with assms(1) have "nd_next h p = hd_opt vs" and "p \<notin> set vs"
    by (auto simp: SL_rep_def dlseg_append or_else_def split: option.splits)
  then show ?thesis by (auto dest: hd_opt_SomeD)
qed

lemma pg_rep_IsSet: "pg_rep live g js \<Longrightarrow> p \<in> live \<Longrightarrow> BSmallPending_IsSet p g \<longleftrightarrow> p \<in> set js"
  using SL_rep_next_neq [of False "pg_jobs g" "pg_nodes g" js p]
  by (auto simp: pg_rep_def BSmallPending_IsSet_def pg_list_def)

text \<open>List operations touch only list nodes and the node they insert.\<close>

lemma SL_Remove_next_outside:
  assumes "SL_rep fl (l, h) (us @ p # vs)" and "x \<notin> set (us @ p # vs)"
  shows "nd_next (snd (SLinkedList_Remove fl p (l, h))) x = nd_next h x"
  using assms
  by (cases us rule: list_end_cases; cases vs)
     (auto simp: SL_rep_def dlseg_append SLinkedList_Remove_def Let_def)

lemma SL_Prepend_next_outside:
  assumes "x \<noteq> p"
  shows "nd_next (snd (SLinkedList_Prepend fl p (l, h))) x = nd_next h x"
  using assms by (auto simp: SLinkedList_Prepend_def Let_def split: option.splits)

lemma SL_rep_frame_next:
  "SL_rep fl (l, h) js \<Longrightarrow> p \<notin> set js \<Longrightarrow> SL_rep fl (l, h\<lparr>nd_next := (nd_next h)(p := v)\<rparr>) js"
  by (simp add: SL_rep_def)

subsection \<open>The operations on the stack of jobs\<close>

lemma pg_rep_GroupInit: "pg_rep {} (BPendingGroup_Init g) []"
  by (simp add: pg_rep_def BPendingGroup_Init_def SL_rep_Init)

lemma pg_rep_SetHandler:
  "pg_rep live g js \<Longrightarrow> pg_rep live (BSmallPending_SetHandler p handler user g) js"
  by (simp add: pg_rep_def BSmallPending_SetHandler_def pg_list_def)

lemma pg_rep_Init:
  assumes "pg_rep live g js" and "p \<notin> live"
  shows "pg_rep (insert p live) (BSmallPending_Init p handler user g) js"
proof -
  have "p \<notin> set js" using assms by (auto simp: pg_rep_def)
  then show ?thesis using assms
    by (auto simp: pg_rep_def BSmallPending_Init_def pg_list_def set_self_next_def
        intro: SL_rep_frame_next)
qed

text \<open>Removing a pending job: the shared step of \<^verbatim>\<open>ExecuteJob\<close>, \<^verbatim>\<open>Set\<close>, \<^verbatim>\<open>Unset\<close> and \<^verbatim>\<open>Free\<close>.\<close>

lemma pg_rep_remove:
  assumes r: "pg_rep live g js" and p: "p \<in> set js"
  defines "g' \<equiv> pg_with_list g (SLinkedList_Remove False p (pg_list g))"
  shows "SL_rep False (pg_list g') (remove1 p js)"
    and "\<forall>x \<in> live - set js. nd_next (pg_nodes g') x = Some x"
    and "pg_handler g' = pg_handler g" and "pg_user g' = pg_user g"
proof -
  have sl: "SL_rep False (pg_list g) js" using r by (simp add: pg_rep_def)
  show "SL_rep False (pg_list g') (remove1 p js)"
    using sl.rep_remove1 [OF sl p] by (simp add: g'_def)
  obtain us vs where js: "js = us @ p # vs" using p by (meson split_list)
  show "\<forall>x \<in> live - set js. nd_next (pg_nodes g') x = Some x"
  proof
    fix x assume x: "x \<in> live - set js"
    then have "nd_next (pg_nodes g) x = Some x" using r by (auto simp: pg_rep_def)
    then show "nd_next (pg_nodes g') x = Some x"
      using SL_Remove_next_outside [of False "pg_jobs g" "pg_nodes g" us p vs x] sl js x
      by (simp add: g'_def pg_with_list_def pg_list_def)
  qed
qed (simp_all add: g'_def pg_with_list_def)

lemma pg_rep_remove_self:
  assumes "pg_rep live g js" and "p \<in> set js"
  shows "pg_rep live (set_self_next p (pg_with_list g (SLinkedList_Remove False p (pg_list g))))
           (remove1 p js)"
proof -
  let ?g = "pg_with_list g (SLinkedList_Remove False p (pg_list g))"
  note rm = pg_rep_remove [OF assms]
  have d: "distinct js" using assms(1) by (auto simp: pg_rep_def dest: SL_repD)
  have "SL_rep False (pg_jobs ?g, (pg_nodes ?g)\<lparr>nd_next := (nd_next (pg_nodes ?g))(p := Some p)\<rparr>)
          (remove1 p js)"
    by (rule SL_rep_frame_next) (use rm(1) d in \<open>simp_all add: pg_list_def\<close>)
  moreover have "nd_next (pg_nodes (set_self_next p ?g)) x = Some x"
    if "x \<in> live - set (remove1 p js)" for x
    using that rm(2) d by (cases "x = p") (simp_all add: set_self_next_def)
  moreover have "set (remove1 p js) \<subseteq> live" using assms(1) d by (auto simp: pg_rep_def)
  ultimately show ?thesis by (simp add: pg_rep_def pg_list_set_self_next)
qed

lemma pg_rep_Unset:
  assumes "pg_rep live g js" and "p \<in> live"
  shows "pg_rep live (BSmallPending_Unset p g) (remove1 p js)"
  using pg_rep_IsSet [OF assms] pg_rep_remove_self [OF assms(1), of p] assms(1)
  by (cases "p \<in> set js") (simp_all add: BSmallPending_Unset_def BSmallPending_IsSet_def remove1_idem)

lemma pg_rep_Free:
  assumes "pg_rep live g js" and "p \<in> live"
  shows "pg_rep (live - {p}) (BSmallPending_Free p g) (remove1 p js)"
proof (cases "p \<in> set js")
  case True
  have "distinct js" using assms(1) by (auto simp: pg_rep_def dest: SL_repD)
  then show ?thesis
    using pg_rep_remove [OF assms(1) True] pg_rep_IsSet [OF assms] True assms
    by (auto simp: pg_rep_def BSmallPending_Free_def BSmallPending_IsSet_def)
next
  case False
  then show ?thesis using pg_rep_IsSet [OF assms] assms
    by (auto simp: pg_rep_def BSmallPending_Free_def BSmallPending_IsSet_def remove1_idem)
qed

lemma pg_rep_Set:
  assumes r: "pg_rep live g js" and p: "p \<in> live"
  shows "pg_rep live (BSmallPending_Set p g) (p # remove1 p js)"
proof -
  define g' where "g' = (if nd_next (pg_nodes g) p \<noteq> Some p
       then pg_with_list g (SLinkedList_Remove False p (pg_list g)) else g)"
  have d: "distinct js" using r by (auto simp: pg_rep_def dest: SL_repD)
  have g': "SL_rep False (pg_list g') (remove1 p js)"
      "\<forall>x \<in> live - set js. nd_next (pg_nodes g') x = Some x"
    using pg_rep_remove [OF r] pg_rep_IsSet [OF r p] r
    by (cases "p \<in> set js"; simp add: g'_def BSmallPending_IsSet_def pg_rep_def remove1_idem)+
  have "SL_rep False (SLinkedList_Prepend False p (pg_list g')) (p # remove1 p js)"
    using g'(1) d by (simp add: SL_rep_Prepend)
  moreover have "nd_next (snd (SLinkedList_Prepend False p (pg_list g'))) x = Some x"
    if "x \<in> live - set (p # remove1 p js)" for x
    using that g'(2) d by (simp add: pg_list_def SL_Prepend_next_outside)
  moreover have "set (p # remove1 p js) \<subseteq> live" using r p d by (auto simp: pg_rep_def)
  ultimately show ?thesis
    unfolding pg_rep_def BSmallPending_Set_def Let_def g'_def [symmetric]
    by simp
qed

lemma pg_rep_ExecuteJob:
  assumes "pg_rep live g (p # js)"
  shows "\<exists>g'. BPendingGroup_ExecuteJob g = Some (pg_handler g p, pg_user g p, g') \<and>
              pg_rep live g' js \<and> pg_handler g' = pg_handler g \<and> pg_user g' = pg_user g"
proof -
  have f: "SLinkedList_First (pg_list g) = Some p"
    using assms by (auto simp: pg_rep_def dest: SL_repD)
  show ?thesis
    using pg_rep_remove_self [OF assms, of p] pg_rep_remove [OF assms, of p]
    by (auto simp: BPendingGroup_ExecuteJob_def f Let_def set_self_next_def)
qed

lemma pg_rep_empty: "pg_rep live g [] \<Longrightarrow> BPendingGroup_ExecuteJob g = None"
  by (auto simp: pg_rep_def BPendingGroup_ExecuteJob_def dest: SL_repD)

lemma pg_rep_HasJobs: "pg_rep live g js \<Longrightarrow> BPendingGroup_HasJobs g \<longleftrightarrow> js \<noteq> []"
  by (auto simp: pg_rep_def BPendingGroup_HasJobs_def SLinkedList_IsEmpty_def SL_rep_def)

lemma pg_rep_PeekJob: "pg_rep live g js \<Longrightarrow> BPendingGroup_PeekJob g = hd_opt js"
  by (auto simp: pg_rep_def BPendingGroup_PeekJob_def dest: SL_repD)

lemma pg_handler_ops [simp]:
  "pg_handler (BSmallPending_Set p g) = pg_handler g"
  "pg_handler (BSmallPending_Unset p g) = pg_handler g"
  "pg_handler (BSmallPending_Free p g) = pg_handler g"
  by (simp_all add: BSmallPending_Set_def BSmallPending_Unset_def BSmallPending_Free_def Let_def
      pg_with_list_def set_self_next_def)


subsection \<open>The abstract job stack and the refinement\<close>

datatype 'a job_op = Op_Set 'a | Op_Unset 'a | Op_Execute

fun spec_run :: "'a list \<Rightarrow> 'a job_op list \<Rightarrow> 'a list \<times> 'a list" where
  "spec_run js [] = (js, [])"
| "spec_run js (Op_Set p # ops) = spec_run (p # remove1 p js) ops"
| "spec_run js (Op_Unset p # ops) = spec_run (remove1 p js) ops"
| "spec_run js (Op_Execute # ops) =
     (case js of
        [] \<Rightarrow> spec_run [] ops
      | j # js' \<Rightarrow> (let (k, out) = spec_run js' ops in (k, j # out)))"

text \<open>Running a sequence of calls against an implementation; \<^verbatim>\<open>Execute\<close> is guarded by
  \<^verbatim>\<open>HasJobs\<close>, as in the reactor's loop.  The result lists the handlers called.\<close>

fun impl_run ::
  "('a \<Rightarrow> 's \<Rightarrow> 's) \<Rightarrow> ('a \<Rightarrow> 's \<Rightarrow> 's) \<Rightarrow> ('s \<Rightarrow> ('h \<times> 'u \<times> 's) option) \<Rightarrow>
   's \<Rightarrow> 'a job_op list \<Rightarrow> 's \<times> 'h list" where
  "impl_run st un ex g [] = (g, [])"
| "impl_run st un ex g (Op_Set p # ops) = impl_run st un ex (st p g) ops"
| "impl_run st un ex g (Op_Unset p # ops) = impl_run st un ex (un p g) ops"
| "impl_run st un ex g (Op_Execute # ops) =
     (case ex g of
        None \<Rightarrow> impl_run st un ex g ops
      | Some (hdl, u, g') \<Rightarrow> (let (k, out) = impl_run st un ex g' ops in (k, hdl # out)))"

fun job_of :: "'a job_op \<Rightarrow> 'a set" where
  "job_of (Op_Set p) = {p}"
| "job_of (Op_Unset p) = {p}"
| "job_of Op_Execute = {}"

locale job_stack =
  fixes rep :: "'a set \<Rightarrow> 's \<Rightarrow> 'a list \<Rightarrow> bool"
    and set_job :: "'a \<Rightarrow> 's \<Rightarrow> 's" and unset_job :: "'a \<Rightarrow> 's \<Rightarrow> 's"
    and is_set :: "'a \<Rightarrow> 's \<Rightarrow> bool"
    and exec :: "'s \<Rightarrow> ('h \<times> 'u \<times> 's) option" and handler :: "'s \<Rightarrow> 'a \<Rightarrow> 'h"
  assumes rep_distinct: "rep live g js \<Longrightarrow> distinct js"
    and rep_set: "rep live g js \<Longrightarrow> p \<in> live \<Longrightarrow> rep live (set_job p g) (p # remove1 p js)"
    and rep_unset: "rep live g js \<Longrightarrow> p \<in> live \<Longrightarrow> rep live (unset_job p g) (remove1 p js)"
    and rep_is_set: "rep live g js \<Longrightarrow> p \<in> live \<Longrightarrow> is_set p g \<longleftrightarrow> p \<in> set js"
    and rep_exec_None: "rep live g [] \<Longrightarrow> exec g = None"
    and rep_exec: "rep live g (p # js) \<Longrightarrow>
          \<exists>u g'. exec g = Some (handler g p, u, g') \<and> rep live g' js \<and> handler g' = handler g"
    and handler_set: "handler (set_job p g) = handler g"
    and handler_unset: "handler (unset_job p g) = handler g"
begin

lemma is_set_after_set: "rep live g js \<Longrightarrow> p \<in> live \<Longrightarrow> is_set p (set_job p g)"
  using rep_is_set [OF rep_set] by simp

lemma is_set_after_unset: "rep live g js \<Longrightarrow> p \<in> live \<Longrightarrow> \<not> is_set p (unset_job p g)"
  using rep_is_set [OF rep_unset] rep_distinct [of live g js] by simp

lemma is_set_other:
  "rep live g js \<Longrightarrow> p \<in> live \<Longrightarrow> q \<in> live \<Longrightarrow> q \<noteq> p \<Longrightarrow>
   is_set q (set_job p g) = is_set q g \<and> is_set q (unset_job p g) = is_set q g"
  using rep_is_set [OF rep_set, of live g js p q] rep_is_set [OF rep_unset, of live g js p q]
    rep_is_set [of live g js q] rep_distinct [of live g js] by simp

lemma simulation:
  "rep live g js \<Longrightarrow> \<Union> (job_of ` set ops) \<subseteq> live \<Longrightarrow>
   \<exists>g'. impl_run set_job unset_job exec g ops = (g', map (handler g) (snd (spec_run js ops))) \<and>
        rep live g' (fst (spec_run js ops))"
proof (induction ops arbitrary: g js)
  case Nil
  then show ?case by simp
next
  case (Cons oper ops)
  show ?case
  proof (cases oper)
    case (Op_Set p)
    then have "rep live (set_job p g) (p # remove1 p js)" using Cons.prems by (simp add: rep_set)
    from Cons.IH [OF this] Cons.prems Op_Set show ?thesis by (simp add: handler_set)
  next
    case (Op_Unset p)
    then have "rep live (unset_job p g) (remove1 p js)" using Cons.prems by (simp add: rep_unset)
    from Cons.IH [OF this] Cons.prems Op_Unset show ?thesis by (simp add: handler_unset)
  next
    case Op_Execute
    show ?thesis
    proof (cases js)
      case Nil
      with Cons Op_Execute show ?thesis by (simp add: rep_exec_None)
    next
      case (Cons j js')
      with Cons.prems obtain u g' where
        ex: "exec g = Some (handler g j, u, g')" and r: "rep live g' js'" and h: "handler g' = handler g"
        using rep_exec [of live g j js'] by auto
      from Cons.IH [OF r] Cons.prems Cons Op_Execute ex h show ?thesis
        by (auto simp: split_beta)
    qed
  qed
qed

end

lemma pg_rep_distinct: "pg_rep live g js \<Longrightarrow> distinct js"
  by (auto simp: pg_rep_def dest: SL_repD)

lemma pg_rep_exec:
  assumes "pg_rep live g (p # js)"
  shows "\<exists>u g'. BPendingGroup_ExecuteJob g = Some (pg_handler g p, u, g') \<and>
           pg_rep live g' js \<and> pg_handler g' = pg_handler g"
  using pg_rep_ExecuteJob [OF assms] by blast

interpretation pg: job_stack pg_rep BPending_Set BPending_Unset BPending_IsSet
  BPendingGroup_ExecuteJob pg_handler
  by unfold_locales
     (simp_all add: BPending_Set_def BPending_Unset_def BPending_IsSet_def pg_rep_Set pg_rep_Unset
       pg_rep_IsSet pg_rep_empty pg_rep_distinct pg_rep_exec)

text \<open>C25.  The job queue is a stack.  From any state in which the jobs \<open>js\<close> are pending, any
  sequence of \<^verbatim>\<open>BPending_Set\<close>, \<^verbatim>\<open>BPending_Unset\<close> and guarded \<^verbatim>\<open>BPendingGroup_ExecuteJob\<close> calls on
  initialised jobs calls exactly the handlers that the abstract stack (setting moves to the
  front, executing pops the front) calls, in that order, and ends in a state that represents the
  abstract result.\<close>

theorem BPending_refines_job_stack:
  fixes g :: "('a, 'h, 'u) BPendingGroup"
  assumes "pg_rep live g js" and "\<Union> (job_of ` set ops) \<subseteq> live"
  shows "\<exists>g'. impl_run BPending_Set BPending_Unset BPendingGroup_ExecuteJob g ops =
                (g', map (pg_handler g) (snd (spec_run js ops))) \<and>
              pg_rep live g' (fst (spec_run js ops))"
  using assms by (rule pg.simulation)

definition ex_group :: "(nat, nat, nat) BPendingGroup" where
  "ex_group = BPending_Init 1 10 0 (BPending_Init 0 20 0 (BPendingGroup_Init
     \<lparr>pg_jobs = \<lparr>sl_first = None, sl_last = None\<rparr>,
      pg_nodes = \<lparr>nd_prev = (\<lambda>_. None), nd_next = (\<lambda>_. None)\<rparr>,
      pg_handler = (\<lambda>_. 0), pg_user = (\<lambda>_. 0)\<rparr>))"

lemma ex_group_rep: "pg_rep {1, 0} ex_group []"
  unfolding ex_group_def BPending_Init_def
  by (intro pg_rep_Init pg_rep_GroupInit) simp_all

theorem BPending_refines_job_stack_witness:
  "\<exists>g'. impl_run BPending_Set BPending_Unset BPendingGroup_ExecuteJob ex_group
          [Op_Set 0, Op_Set 1, Op_Set 0, Op_Execute, Op_Execute] = (g', [20, 10]) \<and> pg_rep {1, 0} g' []"
  using BPending_refines_job_stack [OF ex_group_rep,
      of "[Op_Set 0, Op_Set 1, Op_Set 0, Op_Execute, Op_Execute]"]
  by (simp add: ex_group_def BPending_Init_def BSmallPending_Init_def set_self_next_def)

end
