(* ===== verification/FlowInterface.thy ===== *)
theory FlowInterface
  imports Pending "HOL-Library.Sublist"
begin

text \<open>
  The four interfaces through which the flow components exchange data:
  \<^verbatim>\<open>flow/PacketPassInterface\<close>, \<^verbatim>\<open>flow/PacketRecvInterface\<close>, \<^verbatim>\<open>flow/StreamPassInterface\<close> and
  \<^verbatim>\<open>flow/StreamRecvInterface\<close> (\<^verbatim>\<open>.h\<close> and \<^verbatim>\<open>.c\<close>).  An operation is submitted by the user side, handed
  to the provider by a job, completed by the provider, and reported back by another job.  The
  jobs live in the event loop's group (theory Pending); every \<^verbatim>\<open>ASSERT\<close> of the code is a guard of
  the step relations below, and the invariant shows that the asserts inside the jobs hold.
\<close>

subsection \<open>Jobs and states\<close>

datatype iface_state = STATE_NONE | STATE_OPERATION_PENDING | STATE_BUSY | STATE_DONE_PENDING

text \<open>The addresses of the job objects embedded in interface \<open>i\<close>, and the job functions.\<close>

datatype 'i iface_job = JobOperation 'i | JobRequestCancel 'i | JobDone 'i

datatype iface_handler = H_job_operation | H_job_requestcancel | H_job_done

type_synonym 'i iface_group = "('i iface_job, iface_handler, 'i) BPendingGroup"

subsection \<open>\<^verbatim>\<open>PacketPassInterface\<close>\<close>

record 'f PacketPassInterface =
  ppi_mtu :: int
  ppi_handler_operation :: 'f
  ppi_handler_requestcancel :: "'f option"
  ppi_handler_done :: "'f option"
  ppi_job_operation_data :: "byte list"
  ppi_job_operation_len :: int
  ppi_state :: iface_state
  ppi_cancel_requested :: bool

text \<open>The field values that \<^verbatim>\<open>Init\<close> leaves uninitialised are those of the argument \<open>i\<close>.\<close>

definition PacketPassInterface_Init ::
  "'i \<Rightarrow> int \<Rightarrow> 'f \<Rightarrow> 'f PacketPassInterface \<times> 'i iface_group \<Rightarrow> 'f PacketPassInterface \<times> 'i iface_group" where
  "PacketPassInterface_Init k mtu handler_operation s =
     (let (i, g) = s;
          i = i\<lparr>ppi_mtu := mtu, ppi_handler_operation := handler_operation,
                ppi_handler_requestcancel := None, ppi_handler_done := None\<rparr>;
          g = BPending_Init (JobOperation k) H_job_operation k g;
          g = BPending_Init (JobRequestCancel k) H_job_requestcancel k g;
          g = BPending_Init (JobDone k) H_job_done k g
      in (i\<lparr>ppi_state := STATE_NONE\<rparr>, g))"

definition PacketPassInterface_Free :: "'i \<Rightarrow> 'i iface_group \<Rightarrow> 'i iface_group" where
  "PacketPassInterface_Free k g =
     (let g = BPending_Free (JobDone k) g;
          g = BPending_Free (JobRequestCancel k) g
      in BPending_Free (JobOperation k) g)"

definition PacketPassInterface_EnableCancel :: "'f \<Rightarrow> 'f PacketPassInterface \<Rightarrow> 'f PacketPassInterface" where
  "PacketPassInterface_EnableCancel h i = i\<lparr>ppi_handler_requestcancel := Some h\<rparr>"

definition PacketPassInterface_Done ::
  "'i \<Rightarrow> 'f PacketPassInterface \<times> 'i iface_group \<Rightarrow> 'f PacketPassInterface \<times> 'i iface_group" where
  "PacketPassInterface_Done k s =
     (let (i, g) = s;
          g = BPending_Unset (JobRequestCancel k) g;
          g = BPending_Set (JobDone k) g
      in (i\<lparr>ppi_state := STATE_DONE_PENDING\<rparr>, g))"

definition PacketPassInterface_GetMTU :: "'f PacketPassInterface \<Rightarrow> int" where
  "PacketPassInterface_GetMTU i = ppi_mtu i"

definition PacketPassInterface_Sender_Init :: "'f \<Rightarrow> 'f PacketPassInterface \<Rightarrow> 'f PacketPassInterface" where
  "PacketPassInterface_Sender_Init h i = i\<lparr>ppi_handler_done := Some h\<rparr>"

definition PacketPassInterface_Sender_Send ::
  "'i \<Rightarrow> byte list \<Rightarrow> int \<Rightarrow> 'f PacketPassInterface \<times> 'i iface_group \<Rightarrow>
   'f PacketPassInterface \<times> 'i iface_group" where
  "PacketPassInterface_Sender_Send k data data_len s =
     (let (i, g) = s;
          i = i\<lparr>ppi_job_operation_data := data, ppi_job_operation_len := data_len\<rparr>;
          g = BPending_Set (JobOperation k) g
      in (i\<lparr>ppi_state := STATE_OPERATION_PENDING, ppi_cancel_requested := False\<rparr>, g))"

definition PacketPassInterface_Sender_RequestCancel ::
  "'i \<Rightarrow> 'f PacketPassInterface \<times> 'i iface_group \<Rightarrow> 'f PacketPassInterface \<times> 'i iface_group" where
  "PacketPassInterface_Sender_RequestCancel k s =
     (let (i, g) = s
      in if ppi_cancel_requested i then (i, g)
         else (let i = i\<lparr>ppi_cancel_requested := True\<rparr>
               in if ppi_state i = STATE_OPERATION_PENDING
                  then (let g = BPending_Unset (JobOperation k) g;
                            g = BPending_Set (JobDone k) g
                        in (i\<lparr>ppi_state := STATE_DONE_PENDING\<rparr>, g))
                  else if ppi_state i = STATE_BUSY
                  then (i, BPending_Set (JobRequestCancel k) g)
                  else (i, g)))"

definition PacketPassInterface_HasCancel :: "'f PacketPassInterface \<Rightarrow> bool" where
  "PacketPassInterface_HasCancel i = (ppi_handler_requestcancel i \<noteq> None)"

text \<open>The job functions set the state and then call a handler; the second component is the call.\<close>

definition ppi_job_operation :: "'f PacketPassInterface \<Rightarrow> 'f PacketPassInterface \<times> ('f \<times> byte list \<times> int)" where
  "ppi_job_operation i =
     (i\<lparr>ppi_state := STATE_BUSY\<rparr>,
      (ppi_handler_operation i, ppi_job_operation_data i, ppi_job_operation_len i))"

definition ppi_job_requestcancel :: "'f PacketPassInterface \<Rightarrow> 'f PacketPassInterface \<times> 'f option" where
  "ppi_job_requestcancel i = (i, ppi_handler_requestcancel i)"

definition ppi_job_done :: "'f PacketPassInterface \<Rightarrow> 'f PacketPassInterface \<times> 'f option" where
  "ppi_job_done i = (i\<lparr>ppi_state := STATE_NONE\<rparr>, ppi_handler_done i)"

subsection \<open>\<^verbatim>\<open>PacketRecvInterface\<close>\<close>

record 'f PacketRecvInterface =
  pri_mtu :: int
  pri_handler_operation :: 'f
  pri_handler_done :: "'f option"
  pri_job_operation_data :: nat \<comment> \<open>address of the destination buffer\<close>
  pri_job_done_len :: int
  pri_state :: iface_state

definition PacketRecvInterface_Init ::
  "'i \<Rightarrow> int \<Rightarrow> 'f \<Rightarrow> 'f PacketRecvInterface \<times> 'i iface_group \<Rightarrow> 'f PacketRecvInterface \<times> 'i iface_group" where
  "PacketRecvInterface_Init k mtu handler_operation s =
     (let (i, g) = s;
          i = i\<lparr>pri_mtu := mtu, pri_handler_operation := handler_operation, pri_handler_done := None\<rparr>;
          g = BPending_Init (JobOperation k) H_job_operation k g;
          g = BPending_Init (JobDone k) H_job_done k g
      in (i\<lparr>pri_state := STATE_NONE\<rparr>, g))"

definition PacketRecvInterface_Free :: "'i \<Rightarrow> 'i iface_group \<Rightarrow> 'i iface_group" where
  "PacketRecvInterface_Free k g = (let g = BPending_Free (JobDone k) g in BPending_Free (JobOperation k) g)"

definition PacketRecvInterface_Done ::
  "'i \<Rightarrow> int \<Rightarrow> 'f PacketRecvInterface \<times> 'i iface_group \<Rightarrow> 'f PacketRecvInterface \<times> 'i iface_group" where
  "PacketRecvInterface_Done k data_len s =
     (let (i, g) = s;
          i = i\<lparr>pri_job_done_len := data_len\<rparr>;
          g = BPending_Set (JobDone k) g
      in (i\<lparr>pri_state := STATE_DONE_PENDING\<rparr>, g))"

definition PacketRecvInterface_GetMTU :: "'f PacketRecvInterface \<Rightarrow> int" where
  "PacketRecvInterface_GetMTU i = pri_mtu i"

definition PacketRecvInterface_Receiver_Init :: "'f \<Rightarrow> 'f PacketRecvInterface \<Rightarrow> 'f PacketRecvInterface" where
  "PacketRecvInterface_Receiver_Init h i = i\<lparr>pri_handler_done := Some h\<rparr>"

definition PacketRecvInterface_Receiver_Recv ::
  "'i \<Rightarrow> nat \<Rightarrow> 'f PacketRecvInterface \<times> 'i iface_group \<Rightarrow> 'f PacketRecvInterface \<times> 'i iface_group" where
  "PacketRecvInterface_Receiver_Recv k data s =
     (let (i, g) = s;
          i = i\<lparr>pri_job_operation_data := data\<rparr>;
          g = BPending_Set (JobOperation k) g
      in (i\<lparr>pri_state := STATE_OPERATION_PENDING\<rparr>, g))"

definition pri_job_operation :: "'f PacketRecvInterface \<Rightarrow> 'f PacketRecvInterface \<times> ('f \<times> nat)" where
  "pri_job_operation i =
     (i\<lparr>pri_state := STATE_BUSY\<rparr>, (pri_handler_operation i, pri_job_operation_data i))"

definition pri_job_done :: "'f PacketRecvInterface \<Rightarrow> 'f PacketRecvInterface \<times> ('f option \<times> int)" where
  "pri_job_done i = (i\<lparr>pri_state := STATE_NONE\<rparr>, (pri_handler_done i, pri_job_done_len i))"


subsection \<open>\<^verbatim>\<open>StreamPassInterface\<close> and \<^verbatim>\<open>StreamRecvInterface\<close>\<close>

text \<open>The two files have the same code up to names; the data argument is an address in both.\<close>

record 'f StreamInterface =
  si_handler_operation :: 'f
  si_handler_done :: "'f option"
  si_job_operation_data :: nat
  si_job_operation_len :: int
  si_job_done_len :: int
  si_state :: iface_state

type_synonym ('f, 'i) si_pair = "'f StreamInterface \<times> 'i iface_group"

definition StreamPassInterface_Init :: "'i \<Rightarrow> 'f \<Rightarrow> ('f, 'i) si_pair \<Rightarrow> ('f, 'i) si_pair" where
  "StreamPassInterface_Init k handler_operation s =
     (let (i, g) = s;
          i = i\<lparr>si_handler_operation := handler_operation, si_handler_done := None\<rparr>;
          g = BPending_Init (JobOperation k) H_job_operation k g;
          g = BPending_Init (JobDone k) H_job_done k g
      in (i\<lparr>si_state := STATE_NONE\<rparr>, g))"

definition StreamPassInterface_Free :: "'i \<Rightarrow> 'i iface_group \<Rightarrow> 'i iface_group" where
  "StreamPassInterface_Free k g = (let g = BPending_Free (JobDone k) g in BPending_Free (JobOperation k) g)"

definition StreamPassInterface_Done :: "'i \<Rightarrow> int \<Rightarrow> ('f, 'i) si_pair \<Rightarrow> ('f, 'i) si_pair" where
  "StreamPassInterface_Done k data_len s =
     (let (i, g) = s;
          i = i\<lparr>si_job_done_len := data_len\<rparr>;
          g = BPending_Set (JobDone k) g
      in (i\<lparr>si_state := STATE_DONE_PENDING\<rparr>, g))"

definition StreamPassInterface_Sender_Init :: "'f \<Rightarrow> 'f StreamInterface \<Rightarrow> 'f StreamInterface" where
  "StreamPassInterface_Sender_Init h i = i\<lparr>si_handler_done := Some h\<rparr>"

definition StreamPassInterface_Sender_Send ::
  "'i \<Rightarrow> nat \<Rightarrow> int \<Rightarrow> ('f, 'i) si_pair \<Rightarrow> ('f, 'i) si_pair" where
  "StreamPassInterface_Sender_Send k data data_len s =
     (let (i, g) = s;
          i = i\<lparr>si_job_operation_data := data, si_job_operation_len := data_len\<rparr>;
          g = BPending_Set (JobOperation k) g
      in (i\<lparr>si_state := STATE_OPERATION_PENDING\<rparr>, g))"

definition spi_job_operation :: "'f StreamInterface \<Rightarrow> 'f StreamInterface \<times> ('f \<times> nat \<times> int)" where
  "spi_job_operation i =
     (i\<lparr>si_state := STATE_BUSY\<rparr>,
      (si_handler_operation i, si_job_operation_data i, si_job_operation_len i))"

definition spi_job_done :: "'f StreamInterface \<Rightarrow> 'f StreamInterface \<times> ('f option \<times> int)" where
  "spi_job_done i = (i\<lparr>si_state := STATE_NONE\<rparr>, (si_handler_done i, si_job_done_len i))"

definition StreamRecvInterface_Init :: "'i \<Rightarrow> 'f \<Rightarrow> ('f, 'i) si_pair \<Rightarrow> ('f, 'i) si_pair" where
  "StreamRecvInterface_Init k handler_operation s =
     (let (i, g) = s;
          i = i\<lparr>si_handler_operation := handler_operation, si_handler_done := None\<rparr>;
          g = BPending_Init (JobOperation k) H_job_operation k g;
          g = BPending_Init (JobDone k) H_job_done k g
      in (i\<lparr>si_state := STATE_NONE\<rparr>, g))"

definition StreamRecvInterface_Free :: "'i \<Rightarrow> 'i iface_group \<Rightarrow> 'i iface_group" where
  "StreamRecvInterface_Free k g = (let g = BPending_Free (JobDone k) g in BPending_Free (JobOperation k) g)"

definition StreamRecvInterface_Done :: "'i \<Rightarrow> int \<Rightarrow> ('f, 'i) si_pair \<Rightarrow> ('f, 'i) si_pair" where
  "StreamRecvInterface_Done k data_len s =
     (let (i, g) = s;
          i = i\<lparr>si_job_done_len := data_len\<rparr>;
          g = BPending_Set (JobDone k) g
      in (i\<lparr>si_state := STATE_DONE_PENDING\<rparr>, g))"

definition StreamRecvInterface_Receiver_Init :: "'f \<Rightarrow> 'f StreamInterface \<Rightarrow> 'f StreamInterface" where
  "StreamRecvInterface_Receiver_Init h i = i\<lparr>si_handler_done := Some h\<rparr>"

definition StreamRecvInterface_Receiver_Recv ::
  "'i \<Rightarrow> nat \<Rightarrow> int \<Rightarrow> ('f, 'i) si_pair \<Rightarrow> ('f, 'i) si_pair" where
  "StreamRecvInterface_Receiver_Recv k data data_len s =
     (let (i, g) = s;
          i = i\<lparr>si_job_operation_data := data, si_job_operation_len := data_len\<rparr>;
          g = BPending_Set (JobOperation k) g
      in (i\<lparr>si_state := STATE_OPERATION_PENDING\<rparr>, g))"

definition sri_job_operation :: "'f StreamInterface \<Rightarrow> 'f StreamInterface \<times> ('f \<times> nat \<times> int)" where
  "sri_job_operation i =
     (i\<lparr>si_state := STATE_BUSY\<rparr>,
      (si_handler_operation i, si_job_operation_data i, si_job_operation_len i))"

definition sri_job_done :: "'f StreamInterface \<Rightarrow> 'f StreamInterface \<times> ('f option \<times> int)" where
  "sri_job_done i = (i\<lparr>si_state := STATE_NONE\<rparr>, (si_handler_done i, si_job_done_len i))"

subsection \<open>Steps\<close>

text \<open>Labels of the steps of one interface.  \<open>L_submit\<close> and \<open>L_done\<close> are seen by the user,
  \<open>L_operation\<close>, \<open>L_complete\<close> and \<open>L_call_cancel\<close> by the provider; \<open>L_other\<close> is any step of
  the event loop or of other components on the same group.\<close>

datatype 'd iface_label =
    L_submit 'd | L_operation 'd | L_complete int | L_done int
  | L_request_cancel | L_call_cancel | L_other

fun owner :: "'i iface_job \<Rightarrow> 'i" where
  "owner (JobOperation k) = k" | "owner (JobRequestCancel k) = k" | "owner (JobDone k) = k"

fun job_fun :: "'i iface_job \<Rightarrow> iface_handler" where
  "job_fun (JobOperation k) = H_job_operation"
| "job_fun (JobRequestCancel k) = H_job_requestcancel"
| "job_fun (JobDone k) = H_job_done"

inductive other_step :: "'i iface_job set \<Rightarrow> 'i \<Rightarrow> 'i iface_group \<Rightarrow> 'i iface_group \<Rightarrow> bool"
  for live k where
  other_set: "p \<in> live \<Longrightarrow> owner p \<noteq> k \<Longrightarrow> other_step live k g (BPending_Set p g)"
| other_unset: "p \<in> live \<Longrightarrow> owner p \<noteq> k \<Longrightarrow> other_step live k g (BPending_Unset p g)"
| other_exec: "BPendingGroup_ExecuteJob g = Some (f, u, g') \<Longrightarrow> u \<noteq> k \<Longrightarrow> other_step live k g g'"

inductive ppi_step ::
  "'i iface_job set \<Rightarrow> 'i \<Rightarrow> 'f PacketPassInterface \<times> 'i iface_group \<Rightarrow> (byte list \<times> int) iface_label \<Rightarrow>
   'f PacketPassInterface \<times> 'i iface_group \<Rightarrow> bool" for live k where
  ppi_send: "ppi_state i = STATE_NONE \<Longrightarrow> ppi_handler_done i \<noteq> None \<Longrightarrow> 0 \<le> len \<Longrightarrow> len \<le> ppi_mtu i \<Longrightarrow>
     ppi_step live k (i, g) (L_submit (data, len)) (PacketPassInterface_Sender_Send k data len (i, g))"
| ppi_done: "ppi_state i = STATE_BUSY \<Longrightarrow>
     ppi_step live k (i, g) (L_complete 0) (PacketPassInterface_Done k (i, g))"
| ppi_cancel: "ppi_state i \<noteq> STATE_NONE \<Longrightarrow> ppi_handler_requestcancel i \<noteq> None \<Longrightarrow>
     ppi_step live k (i, g) L_request_cancel (PacketPassInterface_Sender_RequestCancel k (i, g))"
| ppi_run_operation: "BPendingGroup_ExecuteJob g = Some (H_job_operation, k, g') \<Longrightarrow>
     ppi_job_operation i = (i', h, data, len) \<Longrightarrow> ppi_step live k (i, g) (L_operation (data, len)) (i', g')"
| ppi_run_requestcancel: "BPendingGroup_ExecuteJob g = Some (H_job_requestcancel, k, g') \<Longrightarrow>
     ppi_job_requestcancel i = (i', h) \<Longrightarrow> ppi_step live k (i, g) L_call_cancel (i', g')"
| ppi_run_done: "BPendingGroup_ExecuteJob g = Some (H_job_done, k, g') \<Longrightarrow>
     ppi_job_done i = (i', h) \<Longrightarrow> ppi_step live k (i, g) (L_done 0) (i', g')"
| ppi_other: "other_step live k g g' \<Longrightarrow> ppi_step live k (i, g) L_other (i, g')"

inductive pri_step ::
  "'i iface_job set \<Rightarrow> 'i \<Rightarrow> 'f PacketRecvInterface \<times> 'i iface_group \<Rightarrow> nat iface_label \<Rightarrow>
   'f PacketRecvInterface \<times> 'i iface_group \<Rightarrow> bool" for live k where
  pri_recv: "pri_state i = STATE_NONE \<Longrightarrow> pri_handler_done i \<noteq> None \<Longrightarrow>
     pri_step live k (i, g) (L_submit data) (PacketRecvInterface_Receiver_Recv k data (i, g))"
| pri_done: "pri_state i = STATE_BUSY \<Longrightarrow> 0 \<le> len \<Longrightarrow> len \<le> pri_mtu i \<Longrightarrow>
     pri_step live k (i, g) (L_complete len) (PacketRecvInterface_Done k len (i, g))"
| pri_run_operation: "BPendingGroup_ExecuteJob g = Some (H_job_operation, k, g') \<Longrightarrow>
     pri_job_operation i = (i', h, data) \<Longrightarrow> pri_step live k (i, g) (L_operation data) (i', g')"
| pri_run_done: "BPendingGroup_ExecuteJob g = Some (H_job_done, k, g') \<Longrightarrow>
     pri_job_done i = (i', h, len) \<Longrightarrow> pri_step live k (i, g) (L_done len) (i', g')"
| pri_other: "other_step live k g g' \<Longrightarrow> pri_step live k (i, g) L_other (i, g')"

inductive spi_step ::
  "'i iface_job set \<Rightarrow> 'i \<Rightarrow> ('f, 'i) si_pair \<Rightarrow> (nat \<times> int) iface_label \<Rightarrow> ('f, 'i) si_pair \<Rightarrow> bool"
  for live k where
  spi_send: "si_state i = STATE_NONE \<Longrightarrow> si_handler_done i \<noteq> None \<Longrightarrow> 0 < len \<Longrightarrow>
     spi_step live k (i, g) (L_submit (data, len)) (StreamPassInterface_Sender_Send k data len (i, g))"
| spi_done: "si_state i = STATE_BUSY \<Longrightarrow> 0 < len \<Longrightarrow> len \<le> si_job_operation_len i \<Longrightarrow>
     spi_step live k (i, g) (L_complete len) (StreamPassInterface_Done k len (i, g))"
| spi_run_operation: "BPendingGroup_ExecuteJob g = Some (H_job_operation, k, g') \<Longrightarrow>
     spi_job_operation i = (i', h, data, len) \<Longrightarrow> spi_step live k (i, g) (L_operation (data, len)) (i', g')"
| spi_run_done: "BPendingGroup_ExecuteJob g = Some (H_job_done, k, g') \<Longrightarrow>
     spi_job_done i = (i', h, len) \<Longrightarrow> spi_step live k (i, g) (L_done len) (i', g')"
| spi_other: "other_step live k g g' \<Longrightarrow> spi_step live k (i, g) L_other (i, g')"

inductive sri_step ::
  "'i iface_job set \<Rightarrow> 'i \<Rightarrow> ('f, 'i) si_pair \<Rightarrow> (nat \<times> int) iface_label \<Rightarrow> ('f, 'i) si_pair \<Rightarrow> bool"
  for live k where
  sri_recv: "si_state i = STATE_NONE \<Longrightarrow> si_handler_done i \<noteq> None \<Longrightarrow> 0 < len \<Longrightarrow>
     sri_step live k (i, g) (L_submit (data, len)) (StreamRecvInterface_Receiver_Recv k data len (i, g))"
| sri_done: "si_state i = STATE_BUSY \<Longrightarrow> 0 < len \<Longrightarrow> len \<le> si_job_operation_len i \<Longrightarrow>
     sri_step live k (i, g) (L_complete len) (StreamRecvInterface_Done k len (i, g))"
| sri_run_operation: "BPendingGroup_ExecuteJob g = Some (H_job_operation, k, g') \<Longrightarrow>
     sri_job_operation i = (i', h, data, len) \<Longrightarrow> sri_step live k (i, g) (L_operation (data, len)) (i', g')"
| sri_run_done: "BPendingGroup_ExecuteJob g = Some (H_job_done, k, g') \<Longrightarrow>
     sri_job_done i = (i', h, len) \<Longrightarrow> sri_step live k (i, g) (L_done len) (i', g')"
| sri_other: "other_step live k g g' \<Longrightarrow> sri_step live k (i, g) L_other (i, g')"

subsection \<open>Invariant\<close>

definition group_ok :: "'i iface_job set \<Rightarrow> 'i iface_group \<Rightarrow> 'i iface_job list \<Rightarrow> bool" where
  "group_ok live g js \<longleftrightarrow>
     pg_rep live g js \<and> (\<forall>p \<in> live. pg_user g p = owner p \<and> pg_handler g p = job_fun p)"

definition phase_ok :: "'i \<Rightarrow> iface_state \<Rightarrow> 'i iface_job list \<Rightarrow> bool" where
  "phase_ok k st js \<longleftrightarrow>
     (JobOperation k \<in> set js \<longleftrightarrow> st = STATE_OPERATION_PENDING) \<and>
     (JobDone k \<in> set js \<longleftrightarrow> st = STATE_DONE_PENDING)"

definition iface_ok :: "'i iface_job set \<Rightarrow> 'i \<Rightarrow> iface_state \<Rightarrow> 'i iface_group \<Rightarrow> bool" where
  "iface_ok live k st g \<longleftrightarrow>
     {JobOperation k, JobDone k} \<subseteq> live \<and> (\<exists>js. group_ok live g js \<and> phase_ok k st js)"

definition ppi_inv :: "'i iface_job set \<Rightarrow> 'i \<Rightarrow> 'f PacketPassInterface \<times> 'i iface_group \<Rightarrow> bool" where
  "ppi_inv live k s \<longleftrightarrow>
     {JobOperation k, JobDone k, JobRequestCancel k} \<subseteq> live \<and>
     (ppi_state (fst s) = STATE_OPERATION_PENDING \<longrightarrow> \<not> ppi_cancel_requested (fst s)) \<and>
     (\<exists>js. group_ok live (snd s) js \<and> phase_ok k (ppi_state (fst s)) js \<and>
        (JobRequestCancel k \<in> set js \<longrightarrow>
           ppi_state (fst s) = STATE_BUSY \<and> ppi_cancel_requested (fst s) \<and>
           ppi_handler_requestcancel (fst s) \<noteq> None))"

definition pri_inv :: "'i iface_job set \<Rightarrow> 'i \<Rightarrow> 'f PacketRecvInterface \<times> 'i iface_group \<Rightarrow> bool" where
  "pri_inv live k s \<longleftrightarrow> iface_ok live k (pri_state (fst s)) (snd s)"

definition si_inv :: "'i iface_job set \<Rightarrow> 'i \<Rightarrow> ('f, 'i) si_pair \<Rightarrow> bool" where
  "si_inv live k s \<longleftrightarrow> iface_ok live k (si_state (fst s)) (snd s)"

lemma pg_user_ops [simp]:
  "pg_user (BPending_Set p g) = pg_user g" "pg_user (BPending_Unset p g) = pg_user g"
  "pg_handler (BPending_Set p g) = pg_handler g" "pg_handler (BPending_Unset p g) = pg_handler g"
  by (simp_all add: BPending_Set_def BPending_Unset_def BSmallPending_Set_def
      BSmallPending_Unset_def Let_def set_self_next_def)

lemma group_ok_set:
  "group_ok live g js \<Longrightarrow> p \<in> live \<Longrightarrow> group_ok live (BPending_Set p g) (p # remove1 p js)"
  by (simp add: group_ok_def pg.rep_set)

lemma group_ok_unset:
  "group_ok live g js \<Longrightarrow> p \<in> live \<Longrightarrow> group_ok live (BPending_Unset p g) (remove1 p js)"
  by (simp add: group_ok_def pg.rep_unset)

lemma group_ok_distinct: "group_ok live g js \<Longrightarrow> distinct js"
  by (auto simp: group_ok_def dest: pg_rep_distinct)

lemma group_ok_exec:
  assumes "group_ok live g js" and "BPendingGroup_ExecuteJob g = Some (f, u, g')"
  shows "\<exists>p js'. js = p # js' \<and> f = job_fun p \<and> u = owner p \<and> p \<in> live \<and> group_ok live g' js'"
proof (cases js)
  case Nil
  with assms have "BPendingGroup_ExecuteJob g = None"
    using pg_rep_empty [of live g] by (simp add: group_ok_def)
  with assms(2) show ?thesis by simp
next
  case (Cons p js')
  from assms(1) Cons have r: "pg_rep live g (p # js')" by (simp add: group_ok_def)
  then have "p \<in> live" by (auto simp: pg_rep_def)
  with pg_rep_ExecuteJob [OF r] assms Cons show ?thesis by (auto simp: group_ok_def)
qed

lemma other_step_ok:
  assumes "other_step live k g g'" and "group_ok live g js"
  shows "\<exists>js'. group_ok live g' js' \<and> (\<forall>p. owner p = k \<longrightarrow> p \<in> set js' \<longleftrightarrow> p \<in> set js)"
  using assms
proof (cases rule: other_step.cases)
  case (other_set p)
  with group_ok_set [OF assms(2), of p] group_ok_distinct [OF assms(2)] show ?thesis
    by (intro exI [of _ "p # remove1 p js"]) auto
next
  case (other_unset p)
  with group_ok_unset [OF assms(2), of p] group_ok_distinct [OF assms(2)] show ?thesis
    by (intro exI [of _ "remove1 p js"]) auto
next
  case (other_exec f u)
  with group_ok_exec [OF assms(2)] show ?thesis by fastforce
qed

subsection \<open>The protocol of an interface\<close>

text \<open>What the two sides of an interface may rely on, as an automaton over the labels: one
  operation at a time; the provider sees the arguments that were submitted; the result it
  completes with is the one reported; a cancelled operation that the provider has not seen is
  reported without having been run; the provider is asked to cancel at most once per operation
  and only while it runs it.\<close>

datatype cancel_phase = C_none | C_requested | C_called

datatype 'd phase = P_idle | P_submitted 'd | P_busy 'd cancel_phase | P_done int

fun proto_step :: "'d phase \<Rightarrow> 'd iface_label \<Rightarrow> 'd phase option" where
  "proto_step p L_other = Some p"
| "proto_step P_idle (L_submit d) = Some (P_submitted d)"
| "proto_step (P_submitted d) (L_operation d') = (if d' = d then Some (P_busy d C_none) else None)"
| "proto_step (P_submitted d) L_request_cancel = Some (P_done 0)"
| "proto_step (P_busy d c) (L_complete n) = Some (P_done n)"
| "proto_step (P_busy d c) L_request_cancel = Some (P_busy d (if c = C_none then C_requested else c))"
| "proto_step (P_busy d C_requested) L_call_cancel = Some (P_busy d C_called)"
| "proto_step (P_done n) (L_done n') = (if n' = n then Some P_idle else None)"
| "proto_step (P_done n) L_request_cancel = Some (P_done n)"
| "proto_step _ _ = None"

fun proto_run :: "'d phase \<Rightarrow> 'd iface_label list \<Rightarrow> 'd phase option" where
  "proto_run p [] = Some p"
| "proto_run p (l # ls) = (case proto_step p l of None \<Rightarrow> None | Some q \<Rightarrow> proto_run q ls)"

fun submits :: "'d iface_label list \<Rightarrow> 'd list" where
  "submits [] = []"
| "submits (L_submit d # ls) = d # submits ls"
| "submits (_ # ls) = submits ls"

fun operations :: "'d iface_label list \<Rightarrow> 'd list" where
  "operations [] = []"
| "operations (L_operation d # ls) = d # operations ls"
| "operations (_ # ls) = operations ls"

fun dones :: "'d iface_label list \<Rightarrow> int list" where
  "dones [] = []"
| "dones (L_done n # ls) = n # dones ls"
| "dones (_ # ls) = dones ls"

fun completes :: "'d iface_label list \<Rightarrow> int list" where
  "completes [] = []"
| "completes (L_complete n # ls) = n # completes ls"
| "completes (_ # ls) = completes ls"

text \<open>The arguments submitted and not yet handed over, the operations not yet reported, the
  results completed and not yet reported.\<close>

fun unsent :: "'d phase \<Rightarrow> 'd list" where
  "unsent (P_submitted d) = [d]" | "unsent _ = []"

fun outstanding :: "'d phase \<Rightarrow> nat" where
  "outstanding P_idle = 0" | "outstanding _ = 1"

fun unreported :: "'d phase \<Rightarrow> int list" where
  "unreported (P_done n) = [n]" | "unreported _ = []"

lemma proto_run_snoc:
  "proto_run p (ls @ [l]) = (case proto_run p ls of None \<Rightarrow> None | Some q \<Rightarrow> proto_step q l)"
  by (induction ls arbitrary: p) (auto split: option.splits)

lemma proto_balance:
  "proto_run p ls = Some q \<Longrightarrow>
   outstanding p + length (submits ls) = length (dones ls) + outstanding q"
proof (induction ls arbitrary: p)
  case (Cons l ls)
  then obtain r where "proto_step p l = Some r" "proto_run r ls = Some q"
    by (auto split: option.splits)
  with Cons.IH [of r] show ?case
    by (cases "(p, l)" rule: proto_step.cases) (auto split: if_splits)
qed simp

lemma proto_operations:
  "proto_run p ls = Some q \<Longrightarrow> L_request_cancel \<notin> set ls \<Longrightarrow>
   unsent p @ submits ls = operations ls @ unsent q \<and>
   unreported p @ completes ls = dones ls @ unreported q"
proof (induction ls arbitrary: p)
  case (Cons l ls)
  then obtain r where "proto_step p l = Some r" "proto_run r ls = Some q"
    by (auto split: option.splits)
  with Cons.IH [of r] Cons.prems(2) show ?case
    by (cases "(p, l)" rule: proto_step.cases) (auto split: if_splits)
qed simp

lemma proto_operations_subseq:
  "proto_run p ls = Some q \<Longrightarrow> subseq (operations ls) (unsent p @ submits ls)"
proof (induction ls arbitrary: p)
  case (Cons l ls)
  then obtain r where "proto_step p l = Some r" "proto_run r ls = Some q"
    by (auto split: option.splits)
  with Cons.IH [of r] show ?case
    by (cases "(p, l)" rule: proto_step.cases) (auto split: if_splits)
qed simp

inductive trace :: "('s \<Rightarrow> 'l \<Rightarrow> 's \<Rightarrow> bool) \<Rightarrow> 's \<Rightarrow> 'l list \<Rightarrow> 's \<Rightarrow> bool" for step where
  trace_Nil: "trace step s [] s"
| trace_snoc: "trace step s ls t \<Longrightarrow> step t l u \<Longrightarrow> trace step s (ls @ [l]) u"

lemma trace_Cons: "trace step t ls u \<Longrightarrow> step s l t \<Longrightarrow> trace step s (l # ls) u"
proof (induction rule: trace.induct)
  case (trace_Nil t)
  then show ?case using trace.trace_snoc [OF trace.trace_Nil, of step s l t] by simp
next
  case (trace_snoc t ls t' l' u)
  then show ?case using trace.trace_snoc [of step s "l # ls" t' l' u] by simp
qed

locale two_phase =
  fixes step :: "'s \<Rightarrow> 'd iface_label \<Rightarrow> 's \<Rightarrow> bool" and inv :: "'s \<Rightarrow> bool" and abs :: "'s \<Rightarrow> 'd phase"
  assumes inv_step: "inv s \<Longrightarrow> step s l t \<Longrightarrow> inv t"
    and sim_step: "inv s \<Longrightarrow> step s l t \<Longrightarrow> proto_step (abs s) l = Some (abs t)"
begin

lemma trace_inv: "trace step s ls t \<Longrightarrow> inv s \<Longrightarrow> inv t"
  by (induction rule: trace.induct) (auto intro: inv_step)

lemma trace_proto: "trace step s ls t \<Longrightarrow> inv s \<Longrightarrow> proto_run (abs s) ls = Some (abs t)"
  by (induction rule: trace.induct) (auto simp: proto_run_snoc sim_step trace_inv)

lemma exactly_once:
  assumes "trace step s ls t" and "inv s" and "abs s = P_idle"
  shows "length (submits ls) = length (dones ls) + outstanding (abs t)"
    and "subseq (operations ls) (submits ls)"
    and "L_request_cancel \<notin> set ls \<Longrightarrow>
      submits ls = operations ls @ unsent (abs t) \<and> completes ls = dones ls @ unreported (abs t)"
  using proto_balance [OF trace_proto [OF assms(1,2)]]
    proto_operations_subseq [OF trace_proto [OF assms(1,2)]]
    proto_operations [OF trace_proto [OF assms(1,2)]] assms(3) by simp_all

end

subsection \<open>The four interfaces follow the protocol\<close>

definition ppi_cancel_phase :: "'i \<Rightarrow> 'f PacketPassInterface \<times> 'i iface_group \<Rightarrow> cancel_phase" where
  "ppi_cancel_phase k s =
     (if \<not> ppi_cancel_requested (fst s) then C_none
      else if BPending_IsSet (JobRequestCancel k) (snd s) then C_requested else C_called)"

definition ppi_phase :: "'i \<Rightarrow> 'f PacketPassInterface \<times> 'i iface_group \<Rightarrow> (byte list \<times> int) phase" where
  "ppi_phase k s =
     (let d = (ppi_job_operation_data (fst s), ppi_job_operation_len (fst s)) in
      case ppi_state (fst s) of
        STATE_NONE \<Rightarrow> P_idle
      | STATE_OPERATION_PENDING \<Rightarrow> P_submitted d
      | STATE_BUSY \<Rightarrow> P_busy d (ppi_cancel_phase k s)
      | STATE_DONE_PENDING \<Rightarrow> P_done 0)"

definition pri_phase :: "'f PacketRecvInterface \<times> 'i iface_group \<Rightarrow> nat phase" where
  "pri_phase s =
     (case pri_state (fst s) of
        STATE_NONE \<Rightarrow> P_idle
      | STATE_OPERATION_PENDING \<Rightarrow> P_submitted (pri_job_operation_data (fst s))
      | STATE_BUSY \<Rightarrow> P_busy (pri_job_operation_data (fst s)) C_none
      | STATE_DONE_PENDING \<Rightarrow> P_done (pri_job_done_len (fst s)))"

definition si_phase :: "('f, 'i) si_pair \<Rightarrow> (nat \<times> int) phase" where
  "si_phase s =
     (let d = (si_job_operation_data (fst s), si_job_operation_len (fst s)) in
      case si_state (fst s) of
        STATE_NONE \<Rightarrow> P_idle
      | STATE_OPERATION_PENDING \<Rightarrow> P_submitted d
      | STATE_BUSY \<Rightarrow> P_busy d C_none
      | STATE_DONE_PENDING \<Rightarrow> P_done (si_job_done_len (fst s)))"

lemma group_ok_IsSet: "group_ok live g js \<Longrightarrow> p \<in> live \<Longrightarrow> BPending_IsSet p g \<longleftrightarrow> p \<in> set js"
  unfolding group_ok_def by (blast dest: pg.rep_is_set)

lemma iface_ok_set_operation:
  assumes "iface_ok live k STATE_NONE g"
  shows "iface_ok live k STATE_OPERATION_PENDING (BPending_Set (JobOperation k) g)"
proof -
  obtain js where "group_ok live g js" and "phase_ok k STATE_NONE js" and "{JobOperation k, JobDone k} \<subseteq> live"
    using assms by (auto simp: iface_ok_def)
  with group_ok_set [of live g js "JobOperation k"] show ?thesis
    unfolding iface_ok_def
    by (intro conjI exI [of _ "JobOperation k # remove1 (JobOperation k) js"])
       (auto simp: phase_ok_def)
qed

lemma iface_ok_set_done:
  assumes "iface_ok live k STATE_BUSY g"
  shows "iface_ok live k STATE_DONE_PENDING (BPending_Set (JobDone k) g)"
proof -
  obtain js where "group_ok live g js" and "phase_ok k STATE_BUSY js" and "{JobOperation k, JobDone k} \<subseteq> live"
    using assms by (auto simp: iface_ok_def)
  with group_ok_set [of live g js "JobDone k"] show ?thesis
    unfolding iface_ok_def
    by (intro conjI exI [of _ "JobDone k # remove1 (JobDone k) js"])
       (auto simp: phase_ok_def)
qed

lemma iface_ok_run_operation:
  assumes "iface_ok live k st g" and "BPendingGroup_ExecuteJob g = Some (H_job_operation, k, g')"
  shows "st = STATE_OPERATION_PENDING \<and> iface_ok live k STATE_BUSY g'"
proof -
  obtain js where r: "group_ok live g js" and "phase_ok k st js" and "{JobOperation k, JobDone k} \<subseteq> live"
    using assms by (auto simp: iface_ok_def)
  moreover obtain p js' where "js = p # js'" "H_job_operation = job_fun p" "k = owner p" "group_ok live g' js'"
    using group_ok_exec [OF r assms(2)] by blast
  ultimately show ?thesis using group_ok_distinct [OF r]
    by (cases p) (auto simp: phase_ok_def iface_ok_def)
qed

lemma iface_ok_run_done:
  assumes "iface_ok live k st g" and "BPendingGroup_ExecuteJob g = Some (H_job_done, k, g')"
  shows "st = STATE_DONE_PENDING \<and> iface_ok live k STATE_NONE g'"
proof -
  obtain js where r: "group_ok live g js" and "phase_ok k st js" and "{JobOperation k, JobDone k} \<subseteq> live"
    using assms by (auto simp: iface_ok_def)
  moreover obtain p js' where "js = p # js'" "H_job_done = job_fun p" "k = owner p" "group_ok live g' js'"
    using group_ok_exec [OF r assms(2)] by blast
  ultimately show ?thesis using group_ok_distinct [OF r]
    by (cases p) (auto simp: phase_ok_def iface_ok_def)
qed

lemma iface_ok_other:
  assumes "iface_ok live k st g" and "other_step live k g g'"
  shows "iface_ok live k st g'"
proof -
  obtain js where r: "group_ok live g js" and "phase_ok k st js" and "{JobOperation k, JobDone k} \<subseteq> live"
    using assms by (auto simp: iface_ok_def)
  moreover obtain js' where "group_ok live g' js'" and "\<And>p. owner p = k \<Longrightarrow> p \<in> set js' \<longleftrightarrow> p \<in> set js"
    using other_step_ok [OF assms(2) r] by blast
  ultimately show ?thesis by (auto simp: iface_ok_def phase_ok_def)
qed

lemma pri_simulation:
  assumes "pri_inv live k s" and "pri_step live k s l t"
  shows "pri_inv live k t \<and> proto_step (pri_phase s) l = Some (pri_phase t)"
  using assms(2,1)
proof (cases rule: pri_step.cases)
  case (pri_run_operation g g' i)
  with assms(1) iface_ok_run_operation [of live k "pri_state i" g g'] show ?thesis
    by (auto simp: pri_inv_def pri_phase_def pri_job_operation_def)
next
  case (pri_run_done g g' i)
  with assms(1) iface_ok_run_done [of live k "pri_state i" g g'] show ?thesis
    by (auto simp: pri_inv_def pri_phase_def pri_job_done_def)
qed (auto simp: pri_inv_def pri_phase_def PacketRecvInterface_Receiver_Recv_def PacketRecvInterface_Done_def
       iface_ok_set_operation iface_ok_set_done iface_ok_other Let_def split: iface_state.splits)

interpretation pri: two_phase "pri_step live k" "pri_inv live k" pri_phase for live k
  by unfold_locales (simp_all add: pri_simulation)

lemma spi_simulation:
  assumes "si_inv live k s" and "spi_step live k s l t"
  shows "si_inv live k t \<and> proto_step (si_phase s) l = Some (si_phase t)"
  using assms(2,1)
proof (cases rule: spi_step.cases)
  case (spi_run_operation g g' i)
  with assms(1) iface_ok_run_operation [of live k "si_state i" g g'] show ?thesis
    by (auto simp: si_inv_def si_phase_def spi_job_operation_def)
next
  case (spi_run_done g g' i)
  with assms(1) iface_ok_run_done [of live k "si_state i" g g'] show ?thesis
    by (auto simp: si_inv_def si_phase_def spi_job_done_def)
qed (auto simp: si_inv_def si_phase_def StreamPassInterface_Sender_Send_def StreamPassInterface_Done_def
       iface_ok_set_operation iface_ok_set_done iface_ok_other Let_def split: iface_state.splits)

interpretation spi: two_phase "spi_step live k" "si_inv live k" si_phase for live k
  by unfold_locales (simp_all add: spi_simulation)

lemma sri_simulation:
  assumes "si_inv live k s" and "sri_step live k s l t"
  shows "si_inv live k t \<and> proto_step (si_phase s) l = Some (si_phase t)"
  using assms(2,1)
proof (cases rule: sri_step.cases)
  case (sri_run_operation g g' i)
  with assms(1) iface_ok_run_operation [of live k "si_state i" g g'] show ?thesis
    by (auto simp: si_inv_def si_phase_def sri_job_operation_def)
next
  case (sri_run_done g g' i)
  with assms(1) iface_ok_run_done [of live k "si_state i" g g'] show ?thesis
    by (auto simp: si_inv_def si_phase_def sri_job_done_def)
qed (auto simp: si_inv_def si_phase_def StreamRecvInterface_Receiver_Recv_def StreamRecvInterface_Done_def
       iface_ok_set_operation iface_ok_set_done iface_ok_other Let_def split: iface_state.splits)

interpretation sri: two_phase "sri_step live k" "si_inv live k" si_phase for live k
  by unfold_locales (simp_all add: sri_simulation)

text \<open>\<^verbatim>\<open>PacketPassInterface\<close> has the cancel job on top.\<close>

lemma ppi_invE:
  assumes "ppi_inv live k (i, g)"
  obtains js where "group_ok live g js" "distinct js" "phase_ok k (ppi_state i) js"
    "JobRequestCancel k \<in> set js \<Longrightarrow>
       ppi_state i = STATE_BUSY \<and> ppi_cancel_requested i \<and> ppi_handler_requestcancel i \<noteq> None"
    "JobOperation k \<in> live" "JobDone k \<in> live" "JobRequestCancel k \<in> live"
    "ppi_state i = STATE_OPERATION_PENDING \<Longrightarrow> \<not> ppi_cancel_requested i"
    "BPending_IsSet (JobRequestCancel k) g \<longleftrightarrow> JobRequestCancel k \<in> set js"
  using assms group_ok_distinct group_ok_IsSet unfolding ppi_inv_def by fastforce

lemma ppi_invI:
  assumes "group_ok live g js" "phase_ok k (ppi_state i) js"
    "JobRequestCancel k \<in> set js \<Longrightarrow>
       ppi_state i = STATE_BUSY \<and> ppi_cancel_requested i \<and> ppi_handler_requestcancel i \<noteq> None"
    "JobOperation k \<in> live" "JobDone k \<in> live" "JobRequestCancel k \<in> live"
    "ppi_state i = STATE_OPERATION_PENDING \<Longrightarrow> \<not> ppi_cancel_requested i"
  shows "ppi_inv live k (i, g) \<and> (BPending_IsSet (JobRequestCancel k) g \<longleftrightarrow> JobRequestCancel k \<in> set js)"
  using assms group_ok_IsSet [OF assms(1)] unfolding ppi_inv_def by auto

lemma ppi_simulation_send:
  assumes "ppi_inv live k (i, g)" and "ppi_state i = STATE_NONE"
  shows "ppi_inv live k (PacketPassInterface_Sender_Send k data len (i, g))"
    and "ppi_phase k (PacketPassInterface_Sender_Send k data len (i, g)) = P_submitted (data, len)"
proof -
  from assms(1) show "ppi_inv live k (PacketPassInterface_Sender_Send k data len (i, g))"
  proof (rule ppi_invE)
    fix js
    assume a: "group_ok live g js" "distinct js" "phase_ok k (ppi_state i) js"
      "JobRequestCancel k \<in> set js \<Longrightarrow> ppi_state i = STATE_BUSY \<and> ppi_cancel_requested i \<and>
         ppi_handler_requestcancel i \<noteq> None"
      "JobOperation k \<in> live" "JobDone k \<in> live" "JobRequestCancel k \<in> live"
    then have "JobRequestCancel k \<notin> set js" using assms(2) by auto
    with a assms(2) group_ok_set [OF a(1,5)] show ?thesis
      unfolding PacketPassInterface_Sender_Send_def Let_def
      by (auto intro!: ppi_invI [THEN conjunct1] simp: phase_ok_def)
  qed
qed (simp add: PacketPassInterface_Sender_Send_def ppi_phase_def Let_def)

lemma ppi_simulation_done:
  assumes "ppi_inv live k (i, g)" and "ppi_state i = STATE_BUSY"
  shows "ppi_inv live k (PacketPassInterface_Done k (i, g))"
    and "ppi_phase k (PacketPassInterface_Done k (i, g)) = P_done 0"
proof -
  from assms(1) show "ppi_inv live k (PacketPassInterface_Done k (i, g))"
  proof (rule ppi_invE)
    fix js
    assume a: "group_ok live g js" "distinct js" "phase_ok k (ppi_state i) js"
      "JobOperation k \<in> live" "JobDone k \<in> live" "JobRequestCancel k \<in> live"
    with assms(2) group_ok_set [OF group_ok_unset [OF a(1,6)] a(5)] show ?thesis
      unfolding PacketPassInterface_Done_def Let_def
      by (auto intro!: ppi_invI [THEN conjunct1] simp: phase_ok_def)
  qed
qed (simp add: PacketPassInterface_Done_def ppi_phase_def Let_def)

lemma ppi_simulation_cancel:
  assumes "ppi_inv live k (i, g)" and "ppi_state i \<noteq> STATE_NONE" and "ppi_handler_requestcancel i \<noteq> None"
  defines "t \<equiv> PacketPassInterface_Sender_RequestCancel k (i, g)"
  shows "ppi_inv live k t \<and> proto_step (ppi_phase k (i, g)) L_request_cancel = Some (ppi_phase k t)"
  using assms(1)
proof (rule ppi_invE)
  fix js
  assume a: "group_ok live g js" "distinct js" "phase_ok k (ppi_state i) js"
    "JobOperation k \<in> live" "JobDone k \<in> live" "JobRequestCancel k \<in> live"
    and c: "JobRequestCancel k \<in> set js \<Longrightarrow> ppi_state i = STATE_BUSY \<and> ppi_cancel_requested i \<and>
         ppi_handler_requestcancel i \<noteq> None"
    "ppi_state i = STATE_OPERATION_PENDING \<Longrightarrow> \<not> ppi_cancel_requested i"
    and set: "BPending_IsSet (JobRequestCancel k) g \<longleftrightarrow> JobRequestCancel k \<in> set js"
  have cancel_set: "ppi_inv live k (i\<lparr>ppi_cancel_requested := True\<rparr>, BPending_Set (JobRequestCancel k) g) \<and>
      BPending_IsSet (JobRequestCancel k) (BPending_Set (JobRequestCancel k) g)"
    if "ppi_state i = STATE_BUSY"
    using ppi_invI [OF group_ok_set [OF a(1,6)], of k "i\<lparr>ppi_cancel_requested := True\<rparr>"] a assms(3) that
    by (auto simp: phase_ok_def)
  have op_done: "ppi_inv live k (i\<lparr>ppi_cancel_requested := True, ppi_state := STATE_DONE_PENDING\<rparr>,
      BPending_Set (JobDone k) (BPending_Unset (JobOperation k) g))"
    if "ppi_state i = STATE_OPERATION_PENDING"
    using group_ok_set [OF group_ok_unset [OF a(1,4)] a(5)] a c(1) that
    by (auto intro!: ppi_invI [THEN conjunct1] simp: phase_ok_def)
  have same: "ppi_inv live k (i\<lparr>ppi_cancel_requested := True\<rparr>, g)" if "ppi_state i = STATE_DONE_PENDING"
    using a c that by (auto intro!: ppi_invI [THEN conjunct1] simp: phase_ok_def)
  show ?thesis
    using assms(1,2) cancel_set op_done same c
    by (cases "ppi_state i")
       (auto simp: t_def PacketPassInterface_Sender_RequestCancel_def Let_def ppi_phase_def
         ppi_cancel_phase_def)
qed

lemma ppi_simulation_run:
  assumes "ppi_inv live k (i, g)" and "BPendingGroup_ExecuteJob g = Some (f, k, g')"
  shows "case f of
      H_job_operation \<Rightarrow> ppi_inv live k (fst (ppi_job_operation i), g') \<and>
        ppi_state i = STATE_OPERATION_PENDING \<and> \<not> ppi_cancel_requested i
    | H_job_done \<Rightarrow> ppi_inv live k (fst (ppi_job_done i), g') \<and> ppi_state i = STATE_DONE_PENDING
    | H_job_requestcancel \<Rightarrow> ppi_inv live k (i, g') \<and> ppi_state i = STATE_BUSY \<and>
        ppi_cancel_requested i \<and> ppi_handler_requestcancel i \<noteq> None \<and>
        BPending_IsSet (JobRequestCancel k) g \<and> \<not> BPending_IsSet (JobRequestCancel k) g'"
  using assms(1)
proof (rule ppi_invE)
  fix js
  assume a: "group_ok live g js" "distinct js" "phase_ok k (ppi_state i) js"
    "JobOperation k \<in> live" "JobDone k \<in> live" "JobRequestCancel k \<in> live"
    and c: "JobRequestCancel k \<in> set js \<Longrightarrow> ppi_state i = STATE_BUSY \<and> ppi_cancel_requested i \<and>
         ppi_handler_requestcancel i \<noteq> None"
    "ppi_state i = STATE_OPERATION_PENDING \<Longrightarrow> \<not> ppi_cancel_requested i"
    and set: "BPending_IsSet (JobRequestCancel k) g \<longleftrightarrow> JobRequestCancel k \<in> set js"
  obtain p js' where p: "js = p # js'" "f = job_fun p" "k = owner p" "group_ok live g' js'"
    using group_ok_exec [OF a(1) assms(2)] by blast
  note inv = ppi_invI [OF p(4) _ _ a(4-6)]
  show ?thesis
    using p a c set group_ok_IsSet [OF p(4) a(6)]
    by (cases p)
       (auto simp: ppi_job_operation_def ppi_job_done_def phase_ok_def
         intro!: inv [THEN conjunct1])
qed

lemma ppi_simulation_other:
  assumes "ppi_inv live k (i, g)" and "other_step live k g g'"
  shows "ppi_inv live k (i, g') \<and> ppi_phase k (i, g') = ppi_phase k (i, g)"
  using assms(1)
proof (rule ppi_invE)
  fix js
  assume a: "group_ok live g js" "phase_ok k (ppi_state i) js"
    "JobOperation k \<in> live" "JobDone k \<in> live" "JobRequestCancel k \<in> live"
    and c: "JobRequestCancel k \<in> set js \<Longrightarrow> ppi_state i = STATE_BUSY \<and> ppi_cancel_requested i \<and>
         ppi_handler_requestcancel i \<noteq> None"
    "ppi_state i = STATE_OPERATION_PENDING \<Longrightarrow> \<not> ppi_cancel_requested i"
    and set: "BPending_IsSet (JobRequestCancel k) g \<longleftrightarrow> JobRequestCancel k \<in> set js"
  obtain js' where js': "group_ok live g' js'" and eq: "\<And>p. owner p = k \<Longrightarrow> p \<in> set js' \<longleftrightarrow> p \<in> set js"
    using other_step_ok [OF assms(2) a(1)] by blast
  have "ppi_inv live k (i, g') \<and> (BPending_IsSet (JobRequestCancel k) g' \<longleftrightarrow> JobRequestCancel k \<in> set js')"
    using js' a c eq by (intro ppi_invI) (auto simp: phase_ok_def)
  with eq set show ?thesis by (auto simp: ppi_phase_def ppi_cancel_phase_def Let_def split: iface_state.splits)
qed

lemma ppi_simulation:
  assumes "ppi_inv live k s" and "ppi_step live k s l t"
  shows "ppi_inv live k t \<and> proto_step (ppi_phase k s) l = Some (ppi_phase k t)"
  using assms(2,1)
proof (cases rule: ppi_step.cases)
  case (ppi_run_operation g g' i i' h data len)
  with assms(1) ppi_simulation_run [of live k i g H_job_operation g'] show ?thesis
    by (auto simp: ppi_job_operation_def ppi_phase_def ppi_cancel_phase_def)
next
  case (ppi_run_done g g' i)
  with assms(1) ppi_simulation_run [of live k i g H_job_done g'] show ?thesis
    by (auto simp: ppi_job_done_def ppi_phase_def)
next
  case (ppi_run_requestcancel g g' i)
  with assms(1) ppi_simulation_run [of live k i g H_job_requestcancel g'] show ?thesis
    by (auto simp: ppi_job_requestcancel_def ppi_phase_def ppi_cancel_phase_def)
next
  case (ppi_other g g' i)
  with assms(1) ppi_simulation_other [of live k i g g'] show ?thesis by simp
next
  case (ppi_send i len g data)
  with assms(1) ppi_simulation_send [of live k i g data len] show ?thesis
    by (simp add: ppi_phase_def Let_def)
next
  case (ppi_done i g)
  with assms(1) ppi_simulation_done [of live k i g] show ?thesis
    by (simp add: ppi_phase_def Let_def)
next
  case (ppi_cancel i g)
  with assms(1) ppi_simulation_cancel [of live k i g] show ?thesis by simp
qed

interpretation ppi: two_phase "ppi_step live k" "ppi_inv live k" "ppi_phase k" for live k
  by unfold_locales (simp_all add: ppi_simulation)

text \<open>\<^verbatim>\<open>Init\<close> establishes the invariants, \<^verbatim>\<open>Free\<close> gives the jobs back.\<close>

lemma group_ok_init:
  "group_ok live g js \<Longrightarrow> p \<notin> live \<Longrightarrow> group_ok (insert p live) (BPending_Init p (job_fun p) (owner p) g) js"
  using pg_rep_Init [of live g js p "job_fun p" "owner p"]
  by (auto simp: group_ok_def BPending_Init_def BSmallPending_Init_def set_self_next_def)

lemma group_ok_live: "group_ok live g js \<Longrightarrow> set js \<subseteq> live"
  by (simp add: group_ok_def pg_rep_def)

lemma ppi_inv_Init:
  assumes "group_ok live g js" and "JobOperation k \<notin> live" "JobRequestCancel k \<notin> live" "JobDone k \<notin> live"
  shows "ppi_inv ({JobOperation k, JobRequestCancel k, JobDone k} \<union> live) k (PacketPassInterface_Init k mtu h (i, g))"
proof -
  have "group_ok ({JobDone k, JobRequestCancel k, JobOperation k} \<union> live)
     (snd (PacketPassInterface_Init k mtu h (i, g))) js"
    using assms group_ok_init [of _ _ js "JobDone k"] group_ok_init [of _ _ js "JobRequestCancel k"]
      group_ok_init [of live g js "JobOperation k"]
    by (auto simp: PacketPassInterface_Init_def Let_def)
  then show ?thesis using assms group_ok_live [OF assms(1)]
    by (auto simp: ppi_inv_def phase_ok_def PacketPassInterface_Init_def Let_def insert_commute)
qed

lemma si_inv_Init:
  assumes "group_ok live g js" and "JobOperation k \<notin> live" "JobDone k \<notin> live"
  shows "si_inv ({JobOperation k, JobDone k} \<union> live) k (StreamPassInterface_Init k h (i, g))"
    and "si_inv ({JobOperation k, JobDone k} \<union> live) k (StreamRecvInterface_Init k h (i, g))"
  using group_ok_init [OF group_ok_init [OF assms(1,2)], of "JobDone k"] assms group_ok_live [OF assms(1)]
  by (auto simp: si_inv_def iface_ok_def phase_ok_def StreamPassInterface_Init_def
      StreamRecvInterface_Init_def Let_def insert_commute)

lemma pri_inv_Init:
  assumes "group_ok live g js" and "JobOperation k \<notin> live" "JobDone k \<notin> live"
  shows "pri_inv ({JobOperation k, JobDone k} \<union> live) k (PacketRecvInterface_Init k mtu h (i, g))"
  using group_ok_init [OF group_ok_init [OF assms(1,2)], of "JobDone k"] assms group_ok_live [OF assms(1)]
  by (auto simp: pri_inv_def iface_ok_def phase_ok_def PacketRecvInterface_Init_def Let_def insert_commute)

text \<open>C26.  \<^verbatim>\<open>PacketPassInterface\<close>: starting from an initialised, idle interface, whatever the two
  sides and the rest of the event loop do (as long as they keep to the documented call
  conditions), every submitted packet is reported done exactly once and at most one is in
  flight; the provider's handler gets the submitted packets, unchanged, in order, each at most
  once; and when no cancel was requested it gets all of them, except the one still waiting.\<close>

theorem PacketPassInterface_exactly_once:
  assumes "trace (ppi_step live k) s ls t" and "ppi_inv live k s" and "ppi_state (fst s) = STATE_NONE"
  shows "proto_run P_idle ls = Some (ppi_phase k t) \<and>
    length (submits ls) = length (dones ls) + (if ppi_state (fst t) = STATE_NONE then 0 else 1) \<and>
    subseq (operations ls) (submits ls) \<and>
    (L_request_cancel \<notin> set ls \<longrightarrow>
       submits ls = operations ls @ (if ppi_state (fst t) = STATE_OPERATION_PENDING
         then [(ppi_job_operation_data (fst t), ppi_job_operation_len (fst t))] else []))"
proof -
  have idle: "ppi_phase k s = P_idle" using assms(3) by (simp add: ppi_phase_def Let_def)
  note once = ppi.exactly_once [OF assms(1,2) idle]
  show ?thesis
    using once ppi.trace_proto [OF assms(1,2)] idle
    by (auto simp: ppi_phase_def Let_def split: iface_state.splits)
qed

definition ex_iface_group :: "nat iface_group" where
  "ex_iface_group = BPendingGroup_Init
     \<lparr>pg_jobs = \<lparr>sl_first = None, sl_last = None\<rparr>,
      pg_nodes = \<lparr>nd_prev = (\<lambda>_. None), nd_next = (\<lambda>_. None)\<rparr>,
      pg_handler = (\<lambda>_. H_job_done), pg_user = (\<lambda>_. 0)\<rparr>"

lemma ex_iface_group_ok: "group_ok {} ex_iface_group []"
  using pg_rep_GroupInit by (simp add: group_ok_def ex_iface_group_def)

definition ex_ppi :: "nat PacketPassInterface" where
  "ex_ppi = \<lparr>ppi_mtu = 4, ppi_handler_operation = 7, ppi_handler_requestcancel = None,
     ppi_handler_done = Some 8, ppi_job_operation_data = [], ppi_job_operation_len = 0,
     ppi_state = STATE_NONE, ppi_cancel_requested = False\<rparr>"

definition ex_ppi_live :: "nat iface_job set" where
  "ex_ppi_live = {JobOperation 0, JobRequestCancel 0, JobDone 0} \<union> {}"

lemma ex_ppi_live_run:
  "\<exists>(s :: nat PacketPassInterface \<times> nat iface_group) t. trace (ppi_step ex_ppi_live 0) s [L_submit ([1, 2], 2), L_operation ([1, 2], 2), L_complete 0, L_done 0] t
     \<and> ppi_inv ex_ppi_live 0 s \<and> ppi_state (fst s) = STATE_NONE \<and> ppi_state (fst t) = STATE_NONE"
proof -
  define s where "s = (ex_ppi, snd (PacketPassInterface_Init (0 :: nat) 4 (7 :: nat) (ex_ppi, ex_iface_group)))"
  define t1 where "t1 = PacketPassInterface_Sender_Send 0 [1, 2] 2 s"
  define t2 where "t2 = (fst (ppi_job_operation (fst t1)), snd (snd (the (BPendingGroup_ExecuteJob (snd t1)))))"
  define t3 where "t3 = PacketPassInterface_Done 0 t2"
  define t4 where "t4 = (fst (ppi_job_done (fst t3)), snd (snd (the (BPendingGroup_ExecuteJob (snd t3)))))"
  note defs = s_def t1_def t2_def t3_def t4_def ex_ppi_def ex_iface_group_def PacketPassInterface_Init_def
    PacketPassInterface_Sender_Send_def PacketPassInterface_Done_def ppi_job_operation_def ppi_job_done_def
    BPendingGroup_Init_def BPending_Init_def BSmallPending_Init_def BPending_Set_def BSmallPending_Set_def
    BPending_Unset_def BSmallPending_Unset_def BPendingGroup_ExecuteJob_def SLinkedList_First_def
    SLinkedList_Remove_def SLinkedList_Prepend_def SLinkedList_Init_def pg_list_def pg_with_list_def
    set_self_next_def Let_def
  have inv: "ppi_inv ex_ppi_live 0 s"
    using ppi_inv_Init [OF ex_iface_group_ok, of 0 4 "7 :: nat" ex_ppi]
    by (simp add: ppi_inv_def s_def ex_ppi_def PacketPassInterface_Init_def Let_def ex_ppi_live_def)
  have 1: "ppi_step ex_ppi_live 0 s (L_submit ([1, 2], 2)) t1"
    unfolding t1_def s_def by (rule ppi_send) (simp_all add: ex_ppi_def)
  have 2: "ppi_step ex_ppi_live 0 t1 (L_operation ([1, 2], 2)) t2"
    using ppi_run_operation [of "snd t1" 0 _ "fst t1" _ _ "[1, 2]" 2 ex_ppi_live]
    by (simp add: defs)
  have 3: "ppi_step ex_ppi_live 0 t2 (L_complete 0) t3"
    using ppi_done [of "fst t2" ex_ppi_live 0 "snd t2"] by (simp add: t3_def) (simp add: t2_def ppi_job_operation_def)
  have 4: "ppi_step ex_ppi_live 0 t3 (L_done 0) t4"
    using ppi_run_done [of "snd t3" 0 _ "fst t3" _ _ ex_ppi_live]
    by (simp add: defs)
  have "trace (ppi_step ex_ppi_live 0) s [L_submit ([1, 2], 2), L_operation ([1, 2], 2), L_complete 0, L_done 0] t4"
    by (rule trace_Cons [where step = "ppi_step ex_ppi_live 0"] trace_Nil 1 2 3 4)+
  with inv show ?thesis
    by (intro exI [of _ s] exI [of _ t4]) (simp add: s_def t4_def ppi_job_done_def ex_ppi_def)
qed

theorem PacketPassInterface_exactly_once_witness:
  "\<exists>(s :: nat PacketPassInterface \<times> nat iface_group) t. trace (ppi_step ex_ppi_live 0) s [L_submit ([1, 2], 2), L_operation ([1, 2], 2), L_complete 0, L_done 0] t
     \<and> proto_run P_idle [L_submit ([1, 2], 2), L_operation ([1, 2], 2), L_complete 0, L_done 0] = Some (ppi_phase 0 t)"
proof -
  obtain s t :: "nat PacketPassInterface \<times> nat iface_group" where
    r: "trace (ppi_step ex_ppi_live 0) s [L_submit ([1, 2], 2), L_operation ([1, 2], 2), L_complete 0, L_done 0] t"
      "ppi_inv ex_ppi_live 0 s" "ppi_state (fst s) = STATE_NONE"
    using ex_ppi_live_run by blast
  from PacketPassInterface_exactly_once [OF r] r(1) show ?thesis by (intro exI [of _ s] exI [of _ t]) simp
qed

lemma spi_no_cancel: "trace (spi_step live k) s ls t \<Longrightarrow> L_request_cancel \<notin> set ls"
  by (induction rule: trace.induct) (auto elim: spi_step.cases)

text \<open>\<^verbatim>\<open>StreamPassInterface\<close>: with the same freedom for both sides, the lengths with which the
  provider completes the operations are the lengths reported to the user, in order, and the
  operations are the submitted ones in order; at most one is in flight.\<close>

theorem StreamPassInterface_exactly_once:
  assumes "trace (spi_step live k) s ls t" and "si_inv live k s" and "si_state (fst s) = STATE_NONE"
  shows "length (submits ls) = length (dones ls) + (if si_state (fst t) = STATE_NONE then 0 else 1) \<and>
    submits ls = operations ls @ (if si_state (fst t) = STATE_OPERATION_PENDING
         then [(si_job_operation_data (fst t), si_job_operation_len (fst t))] else []) \<and>
    completes ls = dones ls @ (if si_state (fst t) = STATE_DONE_PENDING then [si_job_done_len (fst t)] else [])"
proof -
  have idle: "si_phase s = P_idle" using assms(3) by (simp add: si_phase_def Let_def)
  note once = spi.exactly_once [OF assms(1,2) idle]
  show ?thesis
    using once spi_no_cancel [OF assms(1)]
    by (auto simp: si_phase_def Let_def split: iface_state.splits)
qed

definition ex_spi :: "nat StreamInterface" where
  "ex_spi = \<lparr>si_handler_operation = 7, si_handler_done = Some 8, si_job_operation_data = 0,
     si_job_operation_len = 0, si_job_done_len = 0, si_state = STATE_NONE\<rparr>"

definition ex_spi_live :: "nat iface_job set" where
  "ex_spi_live = {JobOperation 0, JobDone 0} \<union> {}"

lemma ex_spi_live_run:
  "\<exists>(s :: (nat, nat) si_pair) t. trace (spi_step ex_spi_live 0) s [L_submit (100, 2), L_operation (100, 2), L_complete 1] t
     \<and> si_inv ex_spi_live 0 s \<and> si_state (fst s) = STATE_NONE \<and> si_state (fst t) = STATE_DONE_PENDING"
proof -
  define s where "s = (ex_spi, snd (StreamPassInterface_Init (0 :: nat) (7 :: nat) (ex_spi, ex_iface_group)))"
  define t1 where "t1 = StreamPassInterface_Sender_Send 0 100 2 s"
  define t2 where "t2 = (fst (spi_job_operation (fst t1)), snd (snd (the (BPendingGroup_ExecuteJob (snd t1)))))"
  define t3 where "t3 = StreamPassInterface_Done 0 1 t2"
  note defs = s_def t1_def t2_def ex_spi_def ex_iface_group_def StreamPassInterface_Init_def
    StreamPassInterface_Sender_Send_def spi_job_operation_def
    BPendingGroup_Init_def BPending_Init_def BSmallPending_Init_def BPending_Set_def BSmallPending_Set_def
    BPendingGroup_ExecuteJob_def SLinkedList_First_def
    SLinkedList_Remove_def SLinkedList_Prepend_def SLinkedList_Init_def pg_list_def pg_with_list_def
    set_self_next_def Let_def
  have inv: "si_inv ex_spi_live 0 s"
    using si_inv_Init(1) [OF ex_iface_group_ok, of 0 "7 :: nat" ex_spi]
    by (simp add: si_inv_def s_def ex_spi_def StreamPassInterface_Init_def Let_def ex_spi_live_def)
  have 1: "spi_step ex_spi_live 0 s (L_submit (100, 2)) t1"
    unfolding t1_def s_def by (rule spi_send) (simp_all add: ex_spi_def)
  have 2: "spi_step ex_spi_live 0 t1 (L_operation (100, 2)) t2"
    using spi_run_operation [of "snd t1" 0 _ "fst t1" _ _ 100 2 ex_spi_live]
    by (simp add: defs)
  have 3: "spi_step ex_spi_live 0 t2 (L_complete 1) t3"
    using spi_done [of "fst t2" 1 ex_spi_live 0 "snd t2"] by (simp add: t3_def) (simp add: defs)
  have "trace (spi_step ex_spi_live 0) s [L_submit (100, 2), L_operation (100, 2), L_complete 1] t3"
    by (rule trace_Cons [where step = "spi_step ex_spi_live 0"] trace_Nil 1 2 3)+
  with inv show ?thesis
    by (intro exI [of _ s] exI [of _ t3]) (simp add: s_def t3_def StreamPassInterface_Done_def ex_spi_def Let_def split_beta)
qed

theorem StreamPassInterface_exactly_once_witness:
  "\<exists>(s :: (nat, nat) si_pair) t. trace (spi_step ex_spi_live 0) s [L_submit (100, 2), L_operation (100, 2), L_complete 1] t
     \<and> si_job_done_len (fst t) = 1"
proof -
  obtain s t :: "(nat, nat) si_pair" where r: "trace (spi_step ex_spi_live 0) s [L_submit (100, 2), L_operation (100, 2), L_complete 1] t"
     "si_inv ex_spi_live 0 s" "si_state (fst s) = STATE_NONE" "si_state (fst t) = STATE_DONE_PENDING"
    using ex_spi_live_run by blast
  from StreamPassInterface_exactly_once [OF r(1-3)] r(4) have "si_job_done_len (fst t) = 1" by simp
  with r(1) show ?thesis by blast
qed

end
