(* ===== verification/PacketProto.thy ===== *)
theory PacketProto
  imports ByteOrder
begin

text \<open>
  Framing of packets over a stream: \<^verbatim>\<open>protocol/packetproto.h\<close>, \<^verbatim>\<open>flow/PacketProtoEncoder.c\<close> and
  \<^verbatim>\<open>flow/PacketProtoDecoder.c\<close>.  A packet is a 16-bit little-endian length followed by the
  payload.  The decoder keeps a buffer of one maximal frame; handlers return the new state and
  the interface calls they make.  The main result is that an encoded sequence of packets, cut
  into chunks in any way and interleaved in any way with the completions of the output, is
  decoded to exactly that sequence.
\<close>

subsection \<open>Wire format\<close>

definition sizeof_packetproto_header :: nat where
  "sizeof_packetproto_header = 2"

definition PACKETPROTO_ENCLEN :: "nat \<Rightarrow> nat" where
  "PACKETPROTO_ENCLEN len = sizeof_packetproto_header + len"

definition PACKETPROTO_MAXPAYLOAD :: nat where
  "PACKETPROTO_MAXPAYLOAD = 65535"

text \<open>The frame of a packet, as the format's documentation describes it.\<close>

definition pp_frame :: "byte list \<Rightarrow> byte list" where
  "pp_frame p = mem_bytes16 (of_nat (length p)) @ p"

subsection \<open>Encoder\<close>

text \<open>Packets live in a memory; the encoder keeps the address of the output packet.\<close>

record PacketProtoEncoder =
  pe_input_mtu :: nat
  pe_output_mtu :: nat
  pe_output_packet :: "nat option"

datatype pe_call = Pe_Receiver_Recv nat | Pe_Done nat

definition PacketProtoEncoder_Init :: "nat \<Rightarrow> PacketProtoEncoder" where
  "PacketProtoEncoder_Init input_mtu =
     \<lparr>pe_input_mtu = input_mtu, pe_output_mtu = PACKETPROTO_ENCLEN input_mtu, pe_output_packet = None\<rparr>"

definition PacketProtoEncoder_output_handler_recv ::
  "PacketProtoEncoder \<Rightarrow> nat \<Rightarrow> PacketProtoEncoder \<times> pe_call" where
  "PacketProtoEncoder_output_handler_recv enc data =
     (enc\<lparr>pe_output_packet := Some data\<rparr>, Pe_Receiver_Recv (data + sizeof_packetproto_header))"

text \<open>\<open>None\<close>: the assertion that an output packet is pending fails.\<close>

definition PacketProtoEncoder_input_handler_done ::
  "PacketProtoEncoder \<Rightarrow> byte list \<Rightarrow> nat \<Rightarrow> (PacketProtoEncoder \<times> byte list \<times> pe_call) option" where
  "PacketProtoEncoder_input_handler_done enc mem in_len =
     (case pe_output_packet enc of
        None \<Rightarrow> None
      | Some output_packet \<Rightarrow>
          (let len = htol16 (of_nat in_len);
               mem = overwrite output_packet (mem_bytes16 len) mem
           in Some (enc\<lparr>pe_output_packet := None\<rparr>, mem, Pe_Done (PACKETPROTO_ENCLEN in_len))))"

subsection \<open>Decoder\<close>

record PacketProtoDecoder =
  pd_output_mtu :: nat
  pd_buf_size :: nat
  pd_buf_start :: nat
  pd_buf_used :: nat
  pd_buf :: "byte list"

datatype pd_call =
    Pd_Sender_Send "byte list"   \<comment> \<open>\<^verbatim>\<open>PacketPassInterface_Sender_Send\<close> on the output\<close>
  | Pd_Receiver_Recv nat nat     \<comment> \<open>\<^verbatim>\<open>StreamRecvInterface_Receiver_Recv\<close>: buffer offset and length\<close>
  | Pd_handler_error

definition PacketProtoDecoder_process_data :: "PacketProtoDecoder \<Rightarrow> PacketProtoDecoder \<times> pd_call list" where
  "PacketProtoDecoder_process_data enc =
     (let data = pd_buf_start enc;
          left = pd_buf_used enc;
          finish = (\<lambda>was_error.
            let enc = (if was_error then enc\<lparr>pd_buf_start := 0, pd_buf_used := 0\<rparr>
                       else if pd_buf_start enc + pd_buf_used enc = pd_buf_size enc
                       then enc\<lparr>pd_buf := overwrite 0 (slice (pd_buf_start enc) (pd_buf_used enc) (pd_buf enc)) (pd_buf enc),
                                pd_buf_start := 0\<rparr>
                       else enc);
                fill = pd_buf_start enc + pd_buf_used enc
            in (enc, Pd_Receiver_Recv fill (pd_buf_size enc - fill) # (if was_error then [Pd_handler_error] else [])))
      in if left < sizeof_packetproto_header then finish False
         else (let header_len = badvpn_read_le16 (slice data sizeof_packetproto_header (pd_buf enc));
                   data = data + sizeof_packetproto_header;
                   left = left - sizeof_packetproto_header;
                   data_len = unat (ltoh16 header_len)
               in if data_len > pd_output_mtu enc then finish True
                  else if left < data_len then finish False
                  else (enc\<lparr>pd_buf_start := pd_buf_start enc + (sizeof_packetproto_header + data_len),
                            pd_buf_used := pd_buf_used enc - (sizeof_packetproto_header + data_len)\<rparr>,
                        [Pd_Sender_Send (slice data data_len (pd_buf enc))])))"

definition PacketProtoDecoder_input_handler_done ::
  "PacketProtoDecoder \<Rightarrow> nat \<Rightarrow> PacketProtoDecoder \<times> pd_call list" where
  "PacketProtoDecoder_input_handler_done enc data_len =
     PacketProtoDecoder_process_data (enc\<lparr>pd_buf_used := pd_buf_used enc + data_len\<rparr>)"

definition PacketProtoDecoder_output_handler_done ::
  "PacketProtoDecoder \<Rightarrow> PacketProtoDecoder \<times> pd_call list" where
  "PacketProtoDecoder_output_handler_done enc = PacketProtoDecoder_process_data enc"

text \<open>\<open>malloc_ok\<close> is whether the allocation succeeds and \<open>mem\<close> the fresh memory's contents.\<close>

definition PacketProtoDecoder_Init ::
  "bool \<Rightarrow> (nat \<Rightarrow> byte list) \<Rightarrow> nat \<Rightarrow> (PacketProtoDecoder \<times> pd_call list) option" where
  "PacketProtoDecoder_Init malloc_ok mem mtu =
     (let output_mtu = min mtu PACKETPROTO_MAXPAYLOAD;
          buf_size = PACKETPROTO_ENCLEN output_mtu
      in if \<not> malloc_ok then None
         else Some (\<lparr>pd_output_mtu = output_mtu, pd_buf_size = buf_size, pd_buf_start = 0, pd_buf_used = 0,
                     pd_buf = mem buf_size\<rparr>, [Pd_Receiver_Recv 0 buf_size]))"

definition PacketProtoDecoder_Reset :: "PacketProtoDecoder \<Rightarrow> PacketProtoDecoder" where
  "PacketProtoDecoder_Reset enc =
     enc\<lparr>pd_buf_start := pd_buf_start enc + pd_buf_used enc, pd_buf_used := 0\<rparr>"

subsection \<open>The decoder with its two interfaces\<close>

text \<open>At any time one interface call is outstanding: a receive into a region of the buffer or a
  send.  An event completes it; \<open>None\<close> means the event does not fit the outstanding call.\<close>

datatype pd_mode = Receiving nat nat | Sending

datatype pd_event = Ev_input "byte list" | Ev_output_done

fun pd_outstanding :: "pd_call list \<Rightarrow> pd_mode" where
  "pd_outstanding (Pd_Receiver_Recv off len # cs) = Receiving off len"
| "pd_outstanding _ = Sending"

fun pd_event_step ::
  "PacketProtoDecoder \<times> pd_mode \<Rightarrow> pd_event \<Rightarrow> ((PacketProtoDecoder \<times> pd_mode) \<times> pd_call list) option" where
  "pd_event_step (d, Receiving off len) (Ev_input bs) =
     (if bs = [] \<or> len < length bs then None
      else (let (d', cs) = PacketProtoDecoder_input_handler_done (d\<lparr>pd_buf := overwrite off bs (pd_buf d)\<rparr>) (length bs)
            in Some ((d', pd_outstanding cs), cs)))"
| "pd_event_step (d, Sending) Ev_output_done =
     (let (d', cs) = PacketProtoDecoder_output_handler_done d in Some ((d', pd_outstanding cs), cs))"
| "pd_event_step _ _ = None"

fun pd_run ::
  "PacketProtoDecoder \<times> pd_mode \<Rightarrow> pd_event list \<Rightarrow> ((PacketProtoDecoder \<times> pd_mode) \<times> pd_call list) option" where
  "pd_run s [] = Some (s, [])"
| "pd_run s (e # es) =
     (case pd_event_step s e of
        None \<Rightarrow> None
      | Some (t, cs) \<Rightarrow> (case pd_run t es of None \<Rightarrow> None | Some (u, cs') \<Rightarrow> Some (u, cs @ cs')))"

fun pd_input :: "pd_event list \<Rightarrow> byte list" where
  "pd_input [] = []"
| "pd_input (Ev_input bs # es) = bs @ pd_input es"
| "pd_input (Ev_output_done # es) = pd_input es"

fun pd_sent :: "pd_call list \<Rightarrow> byte list list" where
  "pd_sent [] = []"
| "pd_sent (Pd_Sender_Send p # cs) = p # pd_sent cs"
| "pd_sent (_ # cs) = pd_sent cs"

subsection \<open>Invariant\<close>

definition pd_ok :: "PacketProtoDecoder \<Rightarrow> bool" where
  "pd_ok d \<longleftrightarrow>
     pd_output_mtu d \<le> PACKETPROTO_MAXPAYLOAD \<and> pd_buf_size d = PACKETPROTO_ENCLEN (pd_output_mtu d) \<and>
     length (pd_buf d) = pd_buf_size d \<and> pd_buf_start d + pd_buf_used d \<le> pd_buf_size d"

text \<open>A receive always asks for a non-empty region, which starts at the end of the used part.\<close>

fun pd_mode_ok :: "PacketProtoDecoder \<Rightarrow> pd_mode \<Rightarrow> bool" where
  "pd_mode_ok d (Receiving off len) \<longleftrightarrow>
     off = pd_buf_start d + pd_buf_used d \<and> off + len = pd_buf_size d \<and> 0 < len"
| "pd_mode_ok d Sending \<longleftrightarrow> True"

definition pd_buffered :: "PacketProtoDecoder \<Rightarrow> byte list" where
  "pd_buffered d = slice (pd_buf_start d) (pd_buf_used d) (pd_buf d)"

text \<open>The length announced by the first two buffered bytes.\<close>

definition pd_announced :: "byte list \<Rightarrow> nat" where
  "pd_announced bs = unat (badvpn_read_le16 (take 2 bs))"

lemma length_pd_buffered [simp]: "pd_ok d \<Longrightarrow> length (pd_buffered d) = pd_buf_used d"
  by (simp add: pd_ok_def pd_buffered_def)

lemma pd_process_cases:
  assumes "pd_ok d"
  obtains (error) "2 \<le> pd_buf_used d" "pd_output_mtu d < pd_announced (pd_buffered d)"
      "PacketProtoDecoder_process_data d =
         (d\<lparr>pd_buf_start := 0, pd_buf_used := 0\<rparr>, [Pd_Receiver_Recv 0 (pd_buf_size d), Pd_handler_error])"
    | (packet) "2 \<le> pd_buf_used d" "pd_announced (pd_buffered d) \<le> pd_output_mtu d"
      "2 + pd_announced (pd_buffered d) \<le> pd_buf_used d"
      "PacketProtoDecoder_process_data d =
         (d\<lparr>pd_buf_start := pd_buf_start d + (2 + pd_announced (pd_buffered d)),
            pd_buf_used := pd_buf_used d - (2 + pd_announced (pd_buffered d))\<rparr>,
          [Pd_Sender_Send (slice 2 (pd_announced (pd_buffered d)) (pd_buffered d))])"
    | (wait) d' where "pd_buf_used d < 2 \<or>
        pd_announced (pd_buffered d) \<le> pd_output_mtu d \<and> pd_buf_used d < 2 + pd_announced (pd_buffered d)"
      "PacketProtoDecoder_process_data d =
         (d', [Pd_Receiver_Recv (pd_buf_start d' + pd_buf_used d') (pd_buf_size d' - (pd_buf_start d' + pd_buf_used d'))])"
      "pd_output_mtu d' = pd_output_mtu d" "pd_buf_size d' = pd_buf_size d"
      "pd_buf_used d' = pd_buf_used d" "length (pd_buf d') = length (pd_buf d)"
      "pd_buffered d' = pd_buffered d" "pd_buf_start d' + pd_buf_used d' < pd_buf_size d"
proof -
  note k = assms [unfolded pd_ok_def PACKETPROTO_ENCLEN_def sizeof_packetproto_header_def]
  have ann: "2 \<le> pd_buf_used d \<Longrightarrow>
     unat (ltoh16 (badvpn_read_le16 (slice (pd_buf_start d) 2 (pd_buf d)))) = pd_announced (pd_buffered d)"
    by (simp add: ltoh16_def htol16_def pd_announced_def pd_buffered_def take_slice)
  consider (1) "2 \<le> pd_buf_used d" "pd_output_mtu d < pd_announced (pd_buffered d)"
    | (2) "2 \<le> pd_buf_used d" "pd_announced (pd_buffered d) \<le> pd_output_mtu d"
        "2 + pd_announced (pd_buffered d) \<le> pd_buf_used d"
    | (3) "pd_buf_used d < 2 \<or>
        pd_announced (pd_buffered d) \<le> pd_output_mtu d \<and> pd_buf_used d < 2 + pd_announced (pd_buffered d)"
    by linarith
  then show thesis
  proof cases
    case 1
    with ann show ?thesis
      by (intro error)
         (simp_all add: PacketProtoDecoder_process_data_def sizeof_packetproto_header_def Let_def not_less)
  next
    case 2
    with ann k show ?thesis
      by (intro packet)
         (simp_all add: PacketProtoDecoder_process_data_def sizeof_packetproto_header_def Let_def not_less
           pd_buffered_def [of d] slice_slice)
  next
    case 3
    define d' where "d' = (if pd_buf_start d + pd_buf_used d = pd_buf_size d
        then d\<lparr>pd_buf := overwrite 0 (pd_buffered d) (pd_buf d), pd_buf_start := 0\<rparr> else d)"
    have step: "PacketProtoDecoder_process_data d =
         (d', [Pd_Receiver_Recv (pd_buf_start d' + pd_buf_used d') (pd_buf_size d' - (pd_buf_start d' + pd_buf_used d'))])"
      using 3 ann
      by (auto simp: PacketProtoDecoder_process_data_def sizeof_packetproto_header_def Let_def d'_def
          pd_buffered_def not_less)
    have buffered: "pd_buffered d' = pd_buffered d"
      using k slice_overwrite_same [of 0 "pd_buffered d" "pd_buf d"] assms
      by (auto simp: d'_def) (simp add: pd_buffered_def)
    have fields: "pd_output_mtu d' = pd_output_mtu d" "pd_buf_size d' = pd_buf_size d"
        "pd_buf_used d' = pd_buf_used d" "length (pd_buf d') = length (pd_buf d)"
        "pd_buf_start d' + pd_buf_used d' < pd_buf_size d"
      using 3 k length_pd_buffered [OF assms] by (auto simp: d'_def)
    show ?thesis by (rule wait [OF 3 step fields(1-4) buffered fields(5)])
  qed
qed

text \<open>Frames determine their packets.\<close>

lemma pd_announced_frame:
  "length p \<le> 65535 \<Longrightarrow> pd_announced (pp_frame p @ rest) = length p"
  by (simp add: pd_announced_def pp_frame_def unsigned_of_nat take_bit_nat_eq_self)

lemma pp_frame_announced:
  assumes "2 + pd_announced bs \<le> length bs"
  shows "bs = pp_frame (slice 2 (pd_announced bs) bs) @ drop (2 + pd_announced bs) bs"
proof -
  obtain a b cs where bs: "bs = a # b # cs"
    using assms by (cases bs; cases "tl bs") auto
  have "of_nat (pd_announced bs) = badvpn_read_le16 [a, b]"
    by (simp add: pd_announced_def bs)
  with assms have "mem_bytes16 (of_nat (length (slice 2 (pd_announced bs) bs))) = [a, b]"
    by (simp add: slice_def)
  then show ?thesis
    by (simp add: pp_frame_def bs slice_def)
qed

lemma length_pp_frame [simp]: "length (pp_frame p) = 2 + length p"
  by (simp add: pp_frame_def)

lemma pd_announced_short: "2 \<le> length bs \<Longrightarrow> pd_announced (bs @ cs) = pd_announced bs"
  by (simp add: pd_announced_def)

subsection \<open>Decoding a framed stream\<close>

text \<open>One call of \<^verbatim>\<open>process_data\<close>, when the buffered bytes followed by \<open>fut\<close> are the frames of
  \<open>ps\<close>: it submits the first packet, or keeps the buffer and asks for more.\<close>

lemma pd_process_frames:
  assumes ok: "pd_ok d" and frames: "pd_buffered d @ fut = concat (map pp_frame ps)"
    and mtu: "\<forall>p \<in> set ps. length p \<le> pd_output_mtu d"
    and step: "PacketProtoDecoder_process_data d = (d', cs)"
  shows "pd_ok d' \<and> pd_mode_ok d' (pd_outstanding cs) \<and> pd_output_mtu d' = pd_output_mtu d \<and>
    Pd_handler_error \<notin> set cs \<and>
    (\<exists>ps'. ps = pd_sent cs @ ps' \<and> pd_buffered d' @ fut = concat (map pp_frame ps') \<and>
       (pd_outstanding cs \<noteq> Sending \<and> ps' \<noteq> [] \<longrightarrow> fut \<noteq> []))"
proof -
  have hd_len: "pd_announced (pd_buffered d) = length p \<and> p \<in> set ps \<and> (\<exists>ps'. ps = p # ps')"
    if "2 \<le> pd_buf_used d" "ps = p # ps'" for p ps'
  proof -
    have "pd_announced (pd_buffered d) = pd_announced (pd_buffered d @ fut)"
      using that ok by (simp add: pd_announced_short)
    also have "\<dots> = length p"
      using mtu ok that by (simp add: frames pd_announced_frame pd_ok_def PACKETPROTO_MAXPAYLOAD_def)
    finally show ?thesis using that by simp
  qed
  have nonempty: "ps \<noteq> []" if "0 < pd_buf_used d"
    using that ok frames length_pd_buffered [OF ok] by (cases ps) auto
  show ?thesis
  proof (rule pd_process_cases [OF ok], goal_cases error packet wait)
    case error
    then obtain p ps' where "ps = p # ps'" using nonempty by (cases ps) auto
    with hd_len error mtu show ?thesis by fastforce
  next
    case packet
    let ?n = "2 + pd_announced (pd_buffered d)" and ?bs = "pd_buffered d"
    obtain p ps' where ps: "ps = p # ps'" using nonempty packet by (cases ps) auto
    have len: "pd_announced ?bs = length p" using hd_len [OF packet(1) ps] by simp
    have bs: "?bs = pp_frame (slice 2 (pd_announced ?bs) ?bs) @ drop ?n ?bs"
      by (rule pp_frame_announced) (use packet ok in simp)
    have "pp_frame (slice 2 (pd_announced ?bs) ?bs) @ drop ?n ?bs @ fut = pp_frame p @ concat (map pp_frame ps')"
      using frames ps bs by (metis append.assoc concat.simps(2) list.simps(9))
    moreover have "length (slice 2 (pd_announced ?bs) ?bs) = length p"
      using packet ok len by simp
    ultimately have "slice 2 (pd_announced ?bs) ?bs = p" and "drop ?n ?bs @ fut = concat (map pp_frame ps')"
      by (auto simp: pp_frame_def append_eq_append_conv)
    with packet step ps ok show ?thesis
      by (auto simp: pd_ok_def pd_buffered_def drop_slice add.assoc)
  next
    case (wait e)
    have "fut \<noteq> []" if "ps = p # ps'" for p ps'
    proof
      assume "fut = []"
      with frames that have b: "pd_buffered d = pp_frame p @ concat (map pp_frame ps')" by simp
      then have "2 + length p \<le> pd_buf_used d" using length_pd_buffered [OF ok] by simp
      with hd_len [OF _ that] wait show False by auto
    qed
    with wait step ok show ?thesis
      by (auto simp: pd_ok_def frames neq_Nil_conv)
  qed
qed

lemma pd_step_frames:
  assumes "pd_ok d" "pd_mode_ok d m" and "pd_buffered d @ pd_input [e] @ fut = concat (map pp_frame ps)"
    and "\<forall>p \<in> set ps. length p \<le> pd_output_mtu d"
    and "pd_event_step (d, m) e = Some ((d', m'), cs)"
  shows "pd_ok d' \<and> pd_mode_ok d' m' \<and> pd_output_mtu d' = pd_output_mtu d \<and> Pd_handler_error \<notin> set cs \<and>
    (\<exists>ps'. ps = pd_sent cs @ ps' \<and> pd_buffered d' @ fut = concat (map pp_frame ps') \<and>
       (m' \<noteq> Sending \<and> ps' \<noteq> [] \<longrightarrow> fut \<noteq> []))"
proof (cases e)
  case (Ev_input bs)
  then obtain off len where m: "m = Receiving off len"
    using assms(5) by (cases m) auto
  define d1 where "d1 = d\<lparr>pd_buf := overwrite off bs (pd_buf d), pd_buf_used := pd_buf_used d + length bs\<rparr>"
  from assms(5) Ev_input m have bs: "bs \<noteq> []" "length bs \<le> len"
    and step: "PacketProtoDecoder_process_data d1 = (d', cs)" and m': "m' = pd_outstanding cs"
    by (auto simp: PacketProtoDecoder_input_handler_done_def d1_def split: if_splits prod.splits)
  have "pd_ok d1" using assms(1,2) bs m by (auto simp: pd_ok_def d1_def)
  moreover have "pd_buffered d1 = pd_buffered d @ bs"
    using assms(1,2) bs m slice_overwrite_extend [of "pd_buf_start d" "pd_buf_used d" bs "pd_buf d"]
    by (simp add: pd_buffered_def d1_def pd_ok_def)
  ultimately show ?thesis
    using pd_process_frames [of d1 fut ps d' cs] step assms(3,4) Ev_input m'
    by (simp add: d1_def)
next
  case Ev_output_done
  then have "m = Sending" using assms(5) by (cases m) auto
  with assms(5) Ev_output_done have "PacketProtoDecoder_process_data d = (d', cs)" "m' = pd_outstanding cs"
    by (auto simp: PacketProtoDecoder_output_handler_done_def split: prod.splits)
  with pd_process_frames [of d fut ps d' cs] assms Ev_output_done show ?thesis by simp
qed

lemma pd_sent_append [simp]: "pd_sent (xs @ ys) = pd_sent xs @ pd_sent ys"
  by (induction xs rule: pd_sent.induct) simp_all

lemma pd_input_Cons: "pd_input (e # es) = pd_input [e] @ pd_input es"
  by (cases e) simp_all

lemma pd_run_frames:
  assumes "pd_ok d" "pd_mode_ok d m" and "pd_buffered d @ pd_input es @ fut = concat (map pp_frame ps)"
    and "\<forall>p \<in> set ps. length p \<le> pd_output_mtu d"
    and "m \<noteq> Sending \<and> ps \<noteq> [] \<longrightarrow> pd_input es @ fut \<noteq> []"
    and "pd_run (d, m) es = Some ((d', m'), cs)"
  shows "pd_ok d' \<and> pd_mode_ok d' m' \<and> Pd_handler_error \<notin> set cs \<and>
    (\<exists>ps'. ps = pd_sent cs @ ps' \<and> pd_buffered d' @ fut = concat (map pp_frame ps') \<and>
       (m' \<noteq> Sending \<and> ps' \<noteq> [] \<longrightarrow> fut \<noteq> []))"
  using assms
proof (induction es arbitrary: d m ps cs)
  case Nil
  then show ?case by simp
next
  case (Cons e es)
  from Cons.prems(6) obtain d1 m1 cs1 cs2 where 1: "pd_event_step (d, m) e = Some ((d1, m1), cs1)"
    and 2: "pd_run (d1, m1) es = Some ((d', m'), cs2)" and cs: "cs = cs1 @ cs2"
    by (auto split: option.splits)
  have fr: "pd_buffered d @ pd_input [e] @ pd_input es @ fut = concat (map pp_frame ps)"
    using Cons.prems(3) pd_input_Cons [of e es] by simp
  from pd_step_frames [OF Cons.prems(1,2) fr Cons.prems(4) 1] obtain ps1 where
    s: "pd_ok d1" "pd_mode_ok d1 m1" "pd_output_mtu d1 = pd_output_mtu d" "Pd_handler_error \<notin> set cs1"
      "ps = pd_sent cs1 @ ps1" "pd_buffered d1 @ pd_input es @ fut = concat (map pp_frame ps1)"
      "m1 \<noteq> Sending \<and> ps1 \<noteq> [] \<longrightarrow> pd_input es @ fut \<noteq> []" by blast
  then have "\<forall>p \<in> set ps1. length p \<le> pd_output_mtu d1" using Cons.prems(4) by auto
  from Cons.IH [OF s(1,2,6) this s(7) 2] s cs show ?case by auto
qed

text \<open>\<^verbatim>\<open>process_data\<close> consumes at least a header with each packet it submits, so completing the
  sends leads back to a receive.\<close>

lemma pd_drains:
  "pd_ok d \<Longrightarrow> \<exists>k d' off len cs. pd_run (d, Sending) (replicate k Ev_output_done) = Some ((d', Receiving off len), cs)"
proof (induction "pd_buf_used d" arbitrary: d rule: less_induct)
  case less
  have one: "\<exists>k d' off len cs. pd_run (d, Sending) (replicate k Ev_output_done) = Some ((d', Receiving off len), cs)"
    if "PacketProtoDecoder_process_data d = (d1, Pd_Receiver_Recv o1 l1 # cs1)" for d1 o1 l1 cs1
    by (rule exI [of _ 1]) (simp add: PacketProtoDecoder_output_handler_done_def that)
  show ?case
  proof (rule pd_process_cases [OF less.prems], goal_cases error packet wait)
    case packet
    define d1 where "d1 = d\<lparr>pd_buf_start := pd_buf_start d + (2 + pd_announced (pd_buffered d)),
        pd_buf_used := pd_buf_used d - (2 + pd_announced (pd_buffered d))\<rparr>"
    have "pd_buf_used d1 < pd_buf_used d" and "pd_ok d1"
      using packet less.prems by (auto simp: d1_def pd_ok_def)
    then obtain k d' off len cs where
      "pd_run (d1, Sending) (replicate k Ev_output_done) = Some ((d', Receiving off len), cs)"
      using less.hyps by blast
    then have "pd_run (d, Sending) (replicate (Suc k) Ev_output_done) =
        Some ((d', Receiving off len), Pd_Sender_Send (slice 2 (pd_announced (pd_buffered d)) (pd_buffered d)) # cs)"
      using packet(4) by (simp add: PacketProtoDecoder_output_handler_done_def d1_def)
    then show ?case by blast
  qed (use one in auto)
qed

definition pd_initial :: "(nat \<Rightarrow> byte list) \<Rightarrow> nat \<Rightarrow> PacketProtoDecoder \<times> pd_mode" where
  "pd_initial mem mtu = (case PacketProtoDecoder_Init True mem mtu of Some (d, cs) \<Rightarrow> (d, pd_outstanding cs))"

lemma pd_initial_ok:
  assumes "\<And>n. length (mem n) = n" and "pd_initial mem mtu = (d, m)"
  shows "pd_ok d \<and> pd_mode_ok d m \<and> pd_buffered d = [] \<and> pd_output_mtu d = min mtu PACKETPROTO_MAXPAYLOAD \<and> m \<noteq> Sending"
  using assms
  by (auto simp: pd_initial_def PacketProtoDecoder_Init_def Let_def pd_ok_def pd_buffered_def
      PACKETPROTO_ENCLEN_def sizeof_packetproto_header_def)

lemma pd_run_initial:
  assumes "\<And>n. length (mem n) = n" and "\<forall>p \<in> set ps. length p \<le> min mtu PACKETPROTO_MAXPAYLOAD"
    and "pd_input es @ fut = concat (map pp_frame ps)"
    and "pd_run (pd_initial mem mtu) es = Some ((d, m), cs)"
  shows "Pd_handler_error \<notin> set cs \<and> (\<exists>ps'. ps = pd_sent cs @ ps') \<and>
    (fut = [] \<and> m \<noteq> Sending \<longrightarrow> pd_sent cs = ps)"
proof -
  obtain d0 m0 where i: "pd_initial mem mtu = (d0, m0)" by fastforce
  note ok = pd_initial_ok [OF assms(1) i]
  have ne: "m0 \<noteq> Sending \<and> ps \<noteq> [] \<longrightarrow> pd_input es @ fut \<noteq> []"
    using assms(3) by (cases ps) (auto simp: pp_frame_def mem_bytes16_def)
  have "pd_buffered d0 @ pd_input es @ fut = concat (map pp_frame ps)" using ok assms(3) by simp
  from pd_run_frames [OF _ _ this _ ne] ok assms(2,4) i show ?thesis by fastforce
qed

text \<open>C6.  Decoding inverts framing for every chunking.  Start a decoder with output MTU \<open>mtu\<close>,
  feed it any prefix of the frames of packets \<open>ps\<close> (no longer than the MTU and 65535) cut into
  chunks in any way the decoder's receive requests allow, and complete its sends in any order of
  events: it never reports an error, the packets it submits are the first ones of \<open>ps\<close> in order,
  and once it waits for input after the whole stream it has submitted all of them.\<close>

theorem PacketProtoDecoder_decodes:
  assumes "\<And>n. length (mem n) = n" and "\<forall>p \<in> set ps. length p \<le> min mtu PACKETPROTO_MAXPAYLOAD"
    and "pd_input es @ fut = concat (map pp_frame ps)"
    and "pd_run (pd_initial mem mtu) es = Some ((d, m), cs)"
  shows "Pd_handler_error \<notin> set cs \<and> (\<exists>ps'. ps = pd_sent cs @ ps') \<and>
    (fut = [] \<and> m \<noteq> Sending \<longrightarrow> pd_sent cs = ps)"
  using pd_run_initial [OF assms] .

text \<open>The invariant is kept on arbitrary input, errors and resets included.\<close>

lemma pd_process_ok:
  assumes ok: "pd_ok d" and step: "PacketProtoDecoder_process_data d = (d', cs)"
  shows "pd_ok d' \<and> pd_mode_ok d' (pd_outstanding cs)"
  by (rule pd_process_cases [OF ok])
     (use ok step in \<open>auto simp: pd_ok_def PACKETPROTO_ENCLEN_def sizeof_packetproto_header_def\<close>)

lemma pd_step_ok:
  assumes "pd_ok d" "pd_mode_ok d m" and "pd_event_step (d, m) e = Some ((d', m'), cs)"
  shows "pd_ok d' \<and> pd_mode_ok d' m'"
  using assms(3)
proof (cases "((d, m), e)" rule: pd_event_step.cases)
  case (1 d off len bs)
  define d1 where "d1 = d\<lparr>pd_buf := overwrite off bs (pd_buf d), pd_buf_used := pd_buf_used d + length bs\<rparr>"
  from 1 assms have "pd_ok d1" by (auto simp: pd_ok_def d1_def split: if_splits)
  from pd_process_ok [OF this] assms(3) 1 show ?thesis
    by (auto simp: PacketProtoDecoder_input_handler_done_def d1_def split: if_splits prod.splits)
next
  case (2 d)
  with pd_process_ok assms show ?thesis
    by (auto simp: PacketProtoDecoder_output_handler_done_def split: prod.splits)
qed simp_all

lemma pd_run_ok:
  "pd_ok d \<Longrightarrow> pd_mode_ok d m \<Longrightarrow> pd_run (d, m) es = Some ((d', m'), cs) \<Longrightarrow> pd_ok d' \<and> pd_mode_ok d' m'"
  by (induction es arbitrary: d m cs) (fastforce split: option.splits dest: pd_step_ok)+

lemma pd_run_append:
  "pd_run s es = Some (t, cs) \<Longrightarrow> pd_run t fs = Some (u, cs') \<Longrightarrow> pd_run s (es @ fs) = Some (u, cs @ cs')"
  by (induction es arbitrary: s cs) (auto split: option.splits)

lemma pd_reset_ok:
  "pd_ok d \<Longrightarrow> pd_mode_ok d m \<Longrightarrow>
   pd_ok (PacketProtoDecoder_Reset d) \<and> pd_mode_ok (PacketProtoDecoder_Reset d) m \<and>
   pd_buffered (PacketProtoDecoder_Reset d) = []"
  by (cases m) (simp_all add: PacketProtoDecoder_Reset_def pd_ok_def pd_buffered_def)

text \<open>After any events at all (arbitrary bytes, errors included) from a state that satisfies
  the invariant, completing the pending sends finitely often makes the decoder ask for input
  again, and the region it asks for is non-empty and lies inside the buffer, right behind the
  unprocessed bytes: the precondition of the stream interface, and no byte is overwritten.\<close>

theorem PacketProtoDecoder_always_receives:
  assumes "pd_ok d" "pd_mode_ok d m" and "pd_run (d, m) es = Some ((d1, m1), cs1)"
  shows "\<exists>k d' off len cs. pd_run (d, m) (es @ replicate k Ev_output_done) = Some ((d', Receiving off len), cs) \<and>
    0 < len \<and> off + len = length (pd_buf d') \<and> off = pd_buf_start d' + pd_buf_used d'"
proof -
  have 1: "pd_ok d1" "pd_mode_ok d1 m1" using pd_run_ok [OF assms] by auto
  have "\<exists>k d' off len cs. pd_run (d1, m1) (replicate k Ev_output_done) = Some ((d', Receiving off len), cs)"
  proof (cases m1)
    case (Receiving off len)
    then show ?thesis by (intro exI [of _ 0]) simp
  next
    case Sending
    with pd_drains [OF 1(1)] show ?thesis by simp
  qed
  then obtain k d' off len cs where
    2: "pd_run (d1, m1) (replicate k Ev_output_done) = Some ((d', Receiving off len), cs)" by blast
  with pd_run_ok [OF 1 2] have "0 < len \<and> off + len = length (pd_buf d') \<and> off = pd_buf_start d' + pd_buf_used d'"
    by (simp add: pd_ok_def)
  with pd_run_append [OF assms(3) 2] show ?thesis by blast
qed

text \<open>A header that announces more than the output MTU: the error handler is called exactly
  once, after a receive into the whole buffer was started; nothing is submitted and the
  buffered bytes are dropped.\<close>

theorem PacketProtoDecoder_oversize_error:
  assumes "pd_ok d" and "2 \<le> pd_buf_used d" and "pd_output_mtu d < pd_announced (pd_buffered d)"
  shows "PacketProtoDecoder_process_data d =
    (d\<lparr>pd_buf_start := 0, pd_buf_used := 0\<rparr>, [Pd_Receiver_Recv 0 (pd_buf_size d), Pd_handler_error])"
  by (rule pd_process_cases [OF assms(1)]) (use assms in auto)

subsection \<open>Encoding\<close>

text \<open>One packet through the encoder: asked for output at address \<open>a\<close> of a memory, it
  requests the input packet two bytes further; when the input has written \<open>p\<close> there and reports
  its length, the region at \<open>a\<close> holds the frame of \<open>p\<close>, the reported length is the frame's
  length and within the output MTU, and the rest of the memory is untouched.\<close>

theorem PacketProtoEncoder_encodes:
  assumes "length p \<le> mtu" and "mtu \<le> PACKETPROTO_MAXPAYLOAD" and "a + 2 + mtu \<le> length mem"
    and "PacketProtoEncoder_output_handler_recv (PacketProtoEncoder_Init mtu) a = (enc, Pe_Receiver_Recv addr)"
  shows "\<exists>enc' mem'. PacketProtoEncoder_input_handler_done enc (overwrite addr p mem) (length p) =
      Some (enc', mem', Pe_Done (length (pp_frame p))) \<and>
    mem' = overwrite a (pp_frame p) mem \<and> length (pp_frame p) \<le> pe_output_mtu enc' \<and> enc' = PacketProtoEncoder_Init mtu"
proof -
  have "overwrite a (mem_bytes16 (of_nat (length p))) (overwrite (a + 2) p mem) = overwrite a (pp_frame p) mem"
    using assms(1,3) by (simp add: overwrite_def pp_frame_def min_def)
  with assms show ?thesis
    by (auto simp: PacketProtoEncoder_output_handler_recv_def PacketProtoEncoder_Init_def
        PacketProtoEncoder_input_handler_done_def PACKETPROTO_ENCLEN_def sizeof_packetproto_header_def
        Let_def htol16_def)
qed

subsection \<open>Examples\<close>

definition ex_chunks :: "pd_event list" where
  "ex_chunks = [Ev_input [2], Ev_input [0, 7, 8, 1], Ev_output_done, Ev_input [0], Ev_input [9], Ev_output_done]"

definition ex_mem :: "nat \<Rightarrow> byte list" where
  "ex_mem n = replicate n 0"

lemmas pd_eval = pd_initial_def PacketProtoDecoder_Init_def ex_chunks_def ex_mem_def
  PacketProtoDecoder_input_handler_done_def PacketProtoDecoder_output_handler_done_def
  PacketProtoDecoder_process_data_def PACKETPROTO_ENCLEN_def PACKETPROTO_MAXPAYLOAD_def
  sizeof_packetproto_header_def Let_def overwrite_def slice_def badvpn_read_le16_def ltoh16_def htol16_def

lemma ex_run:
  "\<exists>d cs. pd_run (pd_initial ex_mem 4) ex_chunks = Some ((d, Receiving 3 3), cs)"
  by (simp add: pd_eval)

theorem PacketProtoDecoder_decodes_witness:
  "\<exists>d m cs. pd_run (pd_initial ex_mem 4) ex_chunks = Some ((d, m), cs) \<and> pd_sent cs = [[7, 8], [9]]"
proof -
  obtain d cs where r: "pd_run (pd_initial ex_mem 4) ex_chunks = Some ((d, Receiving 3 3), cs)"
    using ex_run by blast
  have "pd_input ex_chunks @ [] = concat (map pp_frame [[7, 8], [9]])"
    by (simp add: ex_chunks_def pp_frame_def mem_bytes16_def)
  from PacketProtoDecoder_decodes [OF _ _ this r] have "pd_sent cs = [[7, 8], [9]]"
    by (simp add: ex_mem_def PACKETPROTO_MAXPAYLOAD_def)
  with r show ?thesis by blast
qed

lemma ex_initial_ok: "pd_ok (fst (pd_initial ex_mem 4)) \<and> pd_mode_ok (fst (pd_initial ex_mem 4)) (snd (pd_initial ex_mem 4))"
  using pd_initial_ok [of ex_mem 4] by (simp add: ex_mem_def pd_initial_def PacketProtoDecoder_Init_def Let_def)

theorem PacketProtoDecoder_always_receives_witness:
  "\<exists>k d' off len cs. pd_run (pd_initial ex_mem 4) ([Ev_input [1, 0, 9]] @ replicate k Ev_output_done) =
     Some ((d', Receiving off len), cs) \<and> 0 < len"
proof -
  have "\<exists>d1 m1 cs1. pd_run (pd_initial ex_mem 4) [Ev_input [1, 0, 9]] = Some ((d1, m1), cs1)"
    by (simp add: pd_eval)
  then obtain d1 m1 cs1 where
    "pd_run (fst (pd_initial ex_mem 4), snd (pd_initial ex_mem 4)) [Ev_input [1, 0, 9]] = Some ((d1, m1), cs1)" by auto
  from PacketProtoDecoder_always_receives [OF _ _ this] ex_initial_ok show ?thesis
    unfolding prod.collapse by blast
qed

definition ex_oversize :: PacketProtoDecoder where
  "ex_oversize = \<lparr>pd_output_mtu = 4, pd_buf_size = 6, pd_buf_start = 1, pd_buf_used = 2, pd_buf = [0, 5, 0, 0, 0, 0]\<rparr>"

theorem PacketProtoDecoder_oversize_error_witness:
  "PacketProtoDecoder_process_data ex_oversize =
     (ex_oversize\<lparr>pd_buf_start := 0, pd_buf_used := 0\<rparr>, [Pd_Receiver_Recv 0 6, Pd_handler_error])"
proof -
  have "pd_ok ex_oversize" "2 \<le> pd_buf_used ex_oversize"
    "pd_output_mtu ex_oversize < pd_announced (pd_buffered ex_oversize)"
    by (simp_all add: ex_oversize_def pd_ok_def pd_announced_def pd_buffered_def pd_eval)
  from PacketProtoDecoder_oversize_error [OF this] show ?thesis by (simp add: ex_oversize_def)
qed

theorem PacketProtoEncoder_encodes_witness:
  "\<exists>enc enc'. PacketProtoEncoder_input_handler_done enc (overwrite 3 [7, 8] [0, 0, 0, 0, 0, 0, 0, 0]) (length [7, 8 :: byte]) =
     Some (enc', [0, 2, 0, 7, 8, 0, 0, 0], Pe_Done (length (pp_frame [7, 8])))"
proof -
  have r: "PacketProtoEncoder_output_handler_recv (PacketProtoEncoder_Init 4) 1 =
      (fst (PacketProtoEncoder_output_handler_recv (PacketProtoEncoder_Init 4) 1), Pe_Receiver_Recv 3)"
    by (simp add: PacketProtoEncoder_output_handler_recv_def sizeof_packetproto_header_def)
  have "overwrite 1 (pp_frame [7, 8]) [0, 0, 0, 0, 0, 0, 0, 0 :: byte] = [0, 2, 0, 7, 8, 0, 0, 0]"
    by (simp add: pp_frame_def mem_bytes16_def overwrite_def)
  with PacketProtoEncoder_encodes [OF _ _ _ r, of "[7, 8]" "[0, 0, 0, 0, 0, 0, 0, 0]"] show ?thesis
    by (auto simp: PACKETPROTO_MAXPAYLOAD_def simp del: length_pp_frame)
qed

end
