(* ===== verification/IpProto.thy ===== *)
theory IpProto
  imports ByteOrder
begin

text \<open>
  IPv4, IPv6 and UDP headers: \<^verbatim>\<open>misc/ipv4_proto.h\<close>, \<^verbatim>\<open>misc/ipv6_proto.h\<close> and
  \<^verbatim>\<open>misc/udp_proto.h\<close>.  A header struct keeps its multi-byte fields as loaded from memory
  (network byte order in a little-endian host word).  The checksum routines are related to the
  one's complement sum of RFC 1071, and the check functions are shown to return regions inside
  the packet.
\<close>

unbundle bit_operations_syntax

subsection \<open>Headers\<close>

record ipv4_header =
  version4_ihl4 :: byte
  ds :: byte
  total_length :: u16
  identification :: u16
  flags3_fragmentoffset13 :: u16
  ttl :: byte
  protocol :: byte
  ip_checksum :: u16
  source_address :: u32
  destination_address :: u32

record ipv6_header =
  version4_tc4 :: byte
  tc4_fl4 :: byte
  fl :: u16
  payload_length :: u16
  next_header :: byte
  hop_limit :: byte
  source_address6 :: "byte list"
  destination_address6 :: "byte list"

record udp_header =
  source_port :: u16
  dest_port :: u16
  udp_length :: u16
  udp_cksum :: u16

text \<open>Memory image of a struct and the inverse \<^verbatim>\<open>memcpy\<close>.\<close>

definition ipv4_header_bytes :: "ipv4_header \<Rightarrow> byte list" where
  "ipv4_header_bytes h =
     [version4_ihl4 h, ds h] @ mem_bytes16 (total_length h) @
     mem_bytes16 (identification h) @ mem_bytes16 (flags3_fragmentoffset13 h) @
     [ttl h, protocol h] @ mem_bytes16 (ip_checksum h) @
     mem_bytes32 (source_address h) @ mem_bytes32 (destination_address h)"

definition ipv4_header_of :: "byte list \<Rightarrow> ipv4_header" where
  "ipv4_header_of d =
     \<lparr>version4_ihl4 = d ! 0, ds = d ! 1, total_length = badvpn_read_le16 (slice 2 2 d),
      identification = badvpn_read_le16 (slice 4 2 d),
      flags3_fragmentoffset13 = badvpn_read_le16 (slice 6 2 d),
      ttl = d ! 8, protocol = d ! 9, ip_checksum = badvpn_read_le16 (slice 10 2 d),
      source_address = badvpn_read_le32 (slice 12 4 d),
      destination_address = badvpn_read_le32 (slice 16 4 d)\<rparr>"

definition ipv6_header_bytes :: "ipv6_header \<Rightarrow> byte list" where
  "ipv6_header_bytes h =
     [version4_tc4 h, tc4_fl4 h] @ mem_bytes16 (fl h) @ mem_bytes16 (payload_length h) @
     [next_header h, hop_limit h] @ source_address6 h @ destination_address6 h"

definition ipv6_header_of :: "byte list \<Rightarrow> ipv6_header" where
  "ipv6_header_of d =
     \<lparr>version4_tc4 = d ! 0, tc4_fl4 = d ! 1, fl = badvpn_read_le16 (slice 2 2 d),
      payload_length = badvpn_read_le16 (slice 4 2 d), next_header = d ! 6, hop_limit = d ! 7,
      source_address6 = slice 8 16 d, destination_address6 = slice 24 16 d\<rparr>"

definition udp_header_bytes :: "udp_header \<Rightarrow> byte list" where
  "udp_header_bytes h =
     mem_bytes16 (source_port h) @ mem_bytes16 (dest_port h) @ mem_bytes16 (udp_length h) @
     mem_bytes16 (udp_cksum h)"

definition udp_header_of :: "byte list \<Rightarrow> udp_header" where
  "udp_header_of d =
     \<lparr>source_port = badvpn_read_le16 (slice 0 2 d), dest_port = badvpn_read_le16 (slice 2 2 d),
      udp_length = badvpn_read_le16 (slice 4 2 d), udp_cksum = badvpn_read_le16 (slice 6 2 d)\<rparr>"

abbreviation (input) "sizeof_ipv4_header \<equiv> (20 :: nat)"
abbreviation (input) "sizeof_ipv6_header \<equiv> (40 :: nat)"
abbreviation (input) "sizeof_udp_header \<equiv> (8 :: nat)"
abbreviation (input) "IPV4_PROTOCOL_UDP \<equiv> (17 :: byte)"
abbreviation (input) "IPV6_NEXT_UDP \<equiv> (17 :: byte)"

definition IPV4_GET_VERSION :: "ipv4_header \<Rightarrow> byte" where
  "IPV4_GET_VERSION h = drop_bit 4 (version4_ihl4 h AND 0xF0)"

definition IPV4_GET_IHL :: "ipv4_header \<Rightarrow> byte" where
  "IPV4_GET_IHL h = drop_bit 0 (version4_ihl4 h AND 0x0F)"

definition IPV4_MAKE_VERSION_IHL :: "nat \<Rightarrow> byte" where
  "IPV4_MAKE_VERSION_IHL sz = of_nat (sz div 4) + push_bit 4 4"

subsection \<open>Checksums\<close>

definition udp_checksum_summer :: "byte list \<Rightarrow> nat \<Rightarrow> u32" where
  "udp_checksum_summer data len =
     foldl (\<lambda>t i. t + ucast (badvpn_read_be16 (drop (2 * i) data))) 0 [0 ..< len div 2]"

text \<open>The loop \<^verbatim>\<open>while (t >> 16) t = (t & 0xFFFF) + (t >> 16)\<close>.\<close>

lemma low16: "unat ((t :: u32) AND 0xFFFF) = unat t mod 65536"
proof -
  have "t AND 0xFFFF = take_bit 16 t" by (simp add: take_bit_eq_mask mask_eq_exp_minus_1)
  then show ?thesis by (simp add: take_bit_eq_mod unat_mod)
qed

lemma high16: "unat (drop_bit 16 (t :: u32)) = unat t div 65536"
  by (simp add: drop_bit_eq_div unat_div)

lemma high16_zero: "drop_bit 16 (t :: u32) = 0 \<longleftrightarrow> unat t < 65536"
  using high16 [of t] unsigned_eq_0_iff [of "drop_bit 16 t"] by (metis div_eq_0_iff zero_neq_numeral)

lemma fold_carry_unat:
  "unat (((t :: u32) AND 0xFFFF) + drop_bit 16 t) = unat t mod 65536 + unat t div 65536"
proof -
  have "unat t < 2 ^ 32" using unsigned_less [of t] by simp
  then have "unat t mod 65536 + unat t div 65536 < 2 ^ 32" by linarith
  then show ?thesis by (simp add: unat_word_ariths low16 high16)
qed

lemma mod_div_less: "65536 \<le> (n :: nat) \<Longrightarrow> n mod 65536 + n div 65536 < n"
proof -
  assume "65536 \<le> n"
  then have "0 < n div 65536" by (simp add: div_greater_zero_iff)
  moreover have "n = 65536 * (n div 65536) + n mod 65536" by simp
  ultimately show ?thesis by linarith
qed

function fold_carry :: "u32 \<Rightarrow> u32" where
  "fold_carry t = (if drop_bit 16 t \<noteq> 0 then fold_carry ((t AND 0xFFFF) + drop_bit 16 t) else t)"
  by pat_completeness auto

termination
  by (relation "measure unat") (auto simp: fold_carry_unat high16_zero mod_div_less)

declare fold_carry.simps [simp del]

definition ipv4_checksum :: "ipv4_header \<Rightarrow> byte list \<Rightarrow> nat \<Rightarrow> u16" where
  "ipv4_checksum header extra extra_len =
     (let t = foldl (\<lambda>t i. t + ucast (badvpn_read_be16 (drop (2 * i) (ipv4_header_bytes header)))) 0
                [0 ..< sizeof_ipv4_header div 2];
          t = foldl (\<lambda>t i. t + ucast (badvpn_read_be16 (drop (2 * i) extra))) t [0 ..< extra_len div 2];
          t = fold_carry t
      in hton16 (ucast (NOT t)))"

definition udp_checksum :: "udp_header \<Rightarrow> byte list \<Rightarrow> nat \<Rightarrow> u32 \<Rightarrow> u32 \<Rightarrow> u16" where
  "udp_checksum header payload payload_len source_addr dest_addr =
     (let t = 0;
          t = t + udp_checksum_summer (mem_bytes32 source_addr) 4;
          t = t + udp_checksum_summer (mem_bytes32 dest_addr) 4;
          x = hton16 17;
          t = t + udp_checksum_summer (mem_bytes16 x) 2;
          x = hton16 (of_nat (sizeof_udp_header + payload_len));
          t = t + udp_checksum_summer (mem_bytes16 x) 2;
          t = t + udp_checksum_summer (udp_header_bytes header) sizeof_udp_header;
          t = (if payload_len mod 2 = 0 then t + udp_checksum_summer payload payload_len
               else (let t = t + udp_checksum_summer payload (payload_len - 1);
                         x = hton16 (push_bit 8 (ucast (payload ! (payload_len - 1))))
                     in t + udp_checksum_summer (mem_bytes16 x) 2));
          t = fold_carry t;
          t = (if t = 0 then 0xFFFF else t)
      in hton16 (ucast (NOT t)))"

definition udp_ip6_checksum :: "udp_header \<Rightarrow> byte list \<Rightarrow> nat \<Rightarrow> byte list \<Rightarrow> byte list \<Rightarrow> u16" where
  "udp_ip6_checksum header payload payload_len source_addr dest_addr =
     (let t = 0;
          t = t + udp_checksum_summer source_addr 16;
          t = t + udp_checksum_summer dest_addr 16;
          x = hton32 (of_nat (sizeof_udp_header + payload_len));
          t = t + udp_checksum_summer (mem_bytes32 x) 4;
          x = hton32 17;
          t = t + udp_checksum_summer (mem_bytes32 x) 4;
          t = t + udp_checksum_summer (udp_header_bytes header) sizeof_udp_header;
          t = (if payload_len mod 2 = 0 then t + udp_checksum_summer payload payload_len
               else (let t = t + udp_checksum_summer payload (payload_len - 1);
                         y = hton16 (push_bit 8 (ucast (payload ! (payload_len - 1))))
                     in t + udp_checksum_summer (mem_bytes16 y) 2));
          t = fold_carry t;
          t = (if t = 0 then 0xFFFF else t)
      in hton16 (ucast (NOT t)))"

subsection \<open>Checking packets\<close>

text \<open>\<open>None\<close> is the return value 0; otherwise the header and the payload region.\<close>

definition ipv4_check :: "byte list \<Rightarrow> (ipv4_header \<times> byte list) option" where
  "ipv4_check data =
     (let data_len = length data in
      if data_len < sizeof_ipv4_header then None
      else (let out_header = ipv4_header_of data in
        if IPV4_GET_VERSION out_header \<noteq> 4 then None
        else (let header_len = unat (IPV4_GET_IHL out_header) * 4 in
          if header_len < sizeof_ipv4_header then None
          else if header_len > data_len then None
          else (let tot_length = unat (ntoh16 (total_length out_header)) in
            if tot_length < header_len then None
            else if tot_length > data_len then None
            else (let checksum_in_packet = ip_checksum out_header;
                      checksum_computed = ipv4_checksum (out_header\<lparr>ip_checksum := hton16 0\<rparr>)
                        (drop sizeof_ipv4_header data) (header_len - sizeof_ipv4_header)
                  in if checksum_in_packet \<noteq> checksum_computed then None
                     else Some (out_header, slice header_len (tot_length - header_len) data))))))"

definition ipv6_check :: "byte list \<Rightarrow> (ipv6_header \<times> byte list) option" where
  "ipv6_check data =
     (let data_len = length data in
      if data_len < sizeof_ipv6_header then None
      else (let out_header = ipv6_header_of data in
        if drop_bit 4 (ntoh8 (version4_tc4 out_header)) \<noteq> 6 then None
        else (let pl = unat (ntoh16 (payload_length out_header)) in
          if pl > data_len - sizeof_ipv6_header then None
          else Some (out_header, slice sizeof_ipv6_header pl data))))"

definition udp_check :: "byte list \<Rightarrow> (udp_header \<times> byte list) option" where
  "udp_check data =
     (let data_len = length data in
      if data_len < sizeof_udp_header then None
      else (let out_header = udp_header_of data;
                data = drop sizeof_udp_header data;
                data_len = data_len - sizeof_udp_header;
                ulength = unat (ntoh16 (udp_length out_header))
            in if ulength < sizeof_udp_header then None
               else if ulength > sizeof_udp_header + data_len then None
               else (let data_len = ulength - sizeof_udp_header in Some (out_header, take data_len data))))"

subsection \<open>The one's complement sum of RFC 1071\<close>

text \<open>The sum of the big-endian 16-bit words of a byte sequence, an odd last byte padded with
  zero.  A sequence with its checksum in place has a sum divisible by 65535.\<close>

fun be16_sum :: "byte list \<Rightarrow> nat" where
  "be16_sum [] = 0"
| "be16_sum [a] = 256 * unat a"
| "be16_sum (a # b # xs) = 256 * unat a + unat b + be16_sum xs"

lemma be16_sum_append: "even (length xs) \<Longrightarrow> be16_sum (xs @ ys) = be16_sum xs + be16_sum ys"
  by (induction xs rule: be16_sum.induct) simp_all

lemma unat_byte_less: "unat (b :: byte) < 256"
  using unsigned_less [of b, where 'a = nat] by simp

lemma unat_u16_less: "unat (x :: u16) < 65536"
  using unsigned_less [of x, where 'a = nat] by simp

lemma be16_sum_le: "be16_sum xs \<le> 65535 * ((length xs + 1) div 2)"
proof (induction xs rule: be16_sum.induct)
  case (2 a)
  then show ?case using unat_byte_less [of a] by simp
next
  case (3 a b xs)
  have "(length (a # b # xs) + 1) div 2 = (length xs + 1) div 2 + 1" by simp
  with 3 show ?case using unat_byte_less [of a] unat_byte_less [of b] by simp
qed simp

lemma unat_read_be16: "unat (badvpn_read_be16 (a # b # xs)) = 256 * unat a + unat b"
proof -
  have "badvpn_read_be16 (a # b # xs) = push_bit 8 (ucast a) OR ucast b"
    by (simp add: badvpn_read_be16_def)
  also have "\<dots> = push_bit 8 (ucast a) + ucast b"
    by (rule disjunctive_add [symmetric]) (auto simp: bit_simps dest: bit_imp_le_length)
  also have "\<dots> = of_nat (256 * unat a + unat b)"
    by (simp add: push_bit_eq_mult mult.commute)
  finally have "unat (badvpn_read_be16 (a # b # xs)) = (256 * unat a + unat b) mod 2 ^ 16"
    by (simp only: unat_of_nat) simp
  then show ?thesis using unat_byte_less [of a] unat_byte_less [of b] by simp
qed

lemma ucast_read_be16: "(ucast (badvpn_read_be16 (a # b # xs)) :: u32) = of_nat (be16_sum [a, b])"
proof -
  have "(ucast (badvpn_read_be16 (a # b # xs)) :: u32) = of_nat (unat (badvpn_read_be16 (a # b # xs)))" by simp
  then show ?thesis by (simp only: unat_read_be16 be16_sum.simps)  simp
qed

lemma summer_loop:
  "2 * n \<le> length data \<Longrightarrow>
   foldl (\<lambda>t i. t + ucast (badvpn_read_be16 (drop (2 * i) data))) t [0 ..< n] =
     (t :: u32) + of_nat (be16_sum (take (2 * n) data))"
proof (induction n)
  case (Suc n)
  then obtain a b rest where d: "drop (2 * n) data = a # b # rest"
    by (metis Cons_nth_drop_Suc Suc_le_lessD less_SucI mult_Suc_right add_2_eq_Suc Suc_leD)
  have "take (2 * Suc n) data = take (2 * n) data @ take 2 (drop (2 * n) data)"
    using take_add [of "2 * n" 2 data] by simp
  then have "be16_sum (take (2 * Suc n) data) = be16_sum (take (2 * n) data) + be16_sum [a, b]"
    using Suc.prems d by (simp add: be16_sum_append)
  with Suc d show ?case by (simp add: ucast_read_be16 del: be16_sum.simps)
qed simp

lemma summer_eq:
  "even len \<Longrightarrow> len \<le> length data \<Longrightarrow> udp_checksum_summer data len = of_nat (be16_sum (take len data))"
  using summer_loop [of "len div 2" data 0] by (simp add: udp_checksum_summer_def)

lemma mod65536: "(65536 * q + r) mod 65535 = (q + r) mod (65535 :: nat)"
proof -
  have "65536 * q + r = (q + r) + 65535 * q" by simp
  then show ?thesis by (simp only: mod_mult_self2)
qed

lemma fold_carry_spec:
  "unat (fold_carry t) < 65536 \<and> unat (fold_carry t) mod 65535 = unat t mod 65535 \<and>
   (fold_carry t = 0 \<longleftrightarrow> t = 0)"
proof (induction t rule: fold_carry.induct)
  case (1 t)
  show ?case
  proof (cases "drop_bit 16 t = 0")
    case True
    then show ?thesis by (simp add: fold_carry.simps [of t] high16_zero)
  next
    case False
    let ?u = "(t AND 0xFFFF) + drop_bit 16 t"
    have step: "fold_carry t = fold_carry ?u" using False by (simp add: fold_carry.simps [of t])
    have "unat t = 65536 * (unat t div 65536) + unat t mod 65536" by simp
    also have "\<dots> mod 65535 = (unat t div 65536 + unat t mod 65536) mod 65535"
      by (rule mod65536)
    finally have "unat ?u mod 65535 = unat t mod 65535"
      by (simp only: fold_carry_unat) (simp add: add.commute)
    moreover have "?u \<noteq> 0 \<and> t \<noteq> 0" using False fold_carry_unat [of t] high16_zero [of t]
      by (metis add_is_0 div_eq_0_iff unsigned_0 zero_neq_numeral drop_bit_of_0)
    ultimately show ?thesis using 1 False by (simp add: step)
  qed
qed

text \<open>The returned value, read in network order, is the complement of the folded sum.\<close>

lemma unat_NOT16: "unat (NOT (u :: u16)) = 65535 - unat u"
proof -
  have b: "0 \<le> uint u" "uint u < 65536" using uint_lt2p [of u] by simp_all
  have "uint (NOT u) = (- uint u - 1) mod 65536"
    by (simp add: unsigned_not_eq not_int_def take_bit_eq_mod)
  also have "- uint u - 1 = (65535 - uint u) + 65536 * (- 1)" by simp
  also have "\<dots> mod 65536 = (65535 - uint u) mod 65536" by (rule mod_mult_self2)
  also have "\<dots> = 65535 - uint u" using b by (intro mod_pos_pos_trivial) linarith+
  finally have "uint (NOT u) = 65535 - uint u" .
  moreover have "int (unat u) = uint u" "int (unat (NOT u)) = uint (NOT u)" by simp_all
  ultimately show ?thesis using unat_u16_less [of u] by linarith
qed

lemma unat_complement:
  assumes "unat (t :: u32) < 65536"
  shows "unat (ucast (NOT t) :: u16) = 65535 - unat t"
proof -
  have "(ucast (NOT t) :: u16) = NOT (ucast t)" by (rule bit_word_eqI) (simp add: bit_simps)
  moreover have "unat (ucast t :: u16) = unat t"
    using assms by (simp add: unsigned_ucast_eq take_bit_nat_eq_self)
  ultimately show ?thesis by (simp only: unat_NOT16)
qed

lemma be16_sum_hton16: "be16_sum (mem_bytes16 (hton16 x)) = unat x"
proof -
  obtain a b where ab: "mem_bytes16 (hton16 x) = [a, b]" by (simp add: mem_bytes16_def)
  then have "be16_sum (mem_bytes16 (hton16 x)) = unat (badvpn_read_be16 (mem_bytes16 (hton16 x)))"
    by (simp only: unat_read_be16) simp
  then show ?thesis by simp
qed

text \<open>Adding the checksum of a sum to it gives a multiple of 65535.\<close>

lemma complement_sum:
  assumes "n < 2 ^ 32"
  shows "(n + be16_sum (mem_bytes16 (hton16 (ucast (NOT (fold_carry (of_nat n))))))) mod 65535 = 0"
proof -
  let ?t = "fold_carry (of_nat n)"
  have "unat ?t mod 65535 = n mod 65535" and l: "unat ?t < 65536"
    using fold_carry_spec [of "of_nat n"] assms by (simp_all add: unat_of_nat)
  then have "(n + (65535 - unat ?t)) mod 65535 = (unat ?t + (65535 - unat ?t)) mod 65535"
    by (metis mod_add_left_eq)
  with l show ?thesis by (simp add: be16_sum_hton16 unat_complement)
qed

subsection \<open>Header images\<close>

lemma length_header_bytes [simp]:
  "length (ipv4_header_bytes h) = 20" "length (udp_header_bytes u) = 8"
  by (simp_all add: ipv4_header_bytes_def udp_header_bytes_def)

lemma length_ipv6_header_bytes:
  "length (source_address6 h) = 16 \<Longrightarrow> length (destination_address6 h) = 16 \<Longrightarrow> length (ipv6_header_bytes h) = 40"
  by (simp add: ipv6_header_bytes_def)

lemma read_le16_prefix: "badvpn_read_le16 (mem_bytes16 x @ r) = x"
proof -
  have "badvpn_read_le16 (mem_bytes16 x @ r) = badvpn_read_le16 (mem_bytes16 x)"
    by (simp add: badvpn_read_le16_def mem_bytes16_def)
  then show ?thesis by simp
qed

text \<open>Splitting an image at a given offset.\<close>

lemma slice_append_skip [simp]: "length xs = n \<Longrightarrow> slice n len (xs @ ys) = take len ys"
  by (simp add: slice_def)

lemma slice_past: "n \<le> off \<Longrightarrow> length xs = n \<Longrightarrow> slice off len (xs @ ys) = slice (off - n) len ys"
  by (simp add: slice_def)

lemma mem_bytes16_eq: "\<exists>a b. mem_bytes16 x = [a, b] \<and> badvpn_read_le16 [a, b] = x"
  using read_mem_bytes16 [of x] by (simp add: mem_bytes16_def)

lemma mem_bytes32_eq: "\<exists>a b c d. mem_bytes32 x = [a, b, c, d] \<and> badvpn_read_le32 [a, b, c, d] = x"
  using read_mem_bytes32 [of x] by (simp add: mem_bytes32_def)

lemma ipv4_header_of_bytes [simp]: "ipv4_header_of (ipv4_header_bytes h @ rest) = h"
proof -
  obtain a1 b1 a2 b2 a3 b3 a4 b4 where
    "mem_bytes16 (total_length h) = [a1, b1]" "badvpn_read_le16 [a1, b1] = total_length h"
    "mem_bytes16 (identification h) = [a2, b2]" "badvpn_read_le16 [a2, b2] = identification h"
    "mem_bytes16 (flags3_fragmentoffset13 h) = [a3, b3]" "badvpn_read_le16 [a3, b3] = flags3_fragmentoffset13 h"
    "mem_bytes16 (ip_checksum h) = [a4, b4]" "badvpn_read_le16 [a4, b4] = ip_checksum h"
    using mem_bytes16_eq by metis
  moreover obtain c1 c2 c3 c4 e1 e2 e3 e4 where
    "mem_bytes32 (source_address h) = [c1, c2, c3, c4]" "badvpn_read_le32 [c1, c2, c3, c4] = source_address h"
    "mem_bytes32 (destination_address h) = [e1, e2, e3, e4]"
    "badvpn_read_le32 [e1, e2, e3, e4] = destination_address h"
    using mem_bytes32_eq by metis
  ultimately show ?thesis
    by (simp add: ipv4_header_bytes_def ipv4_header_of_def slice_def)
qed

lemma udp_header_of_bytes [simp]: "udp_header_of (udp_header_bytes h @ rest) = h"
proof -
  obtain a1 b1 a2 b2 a3 b3 a4 b4 where
    "mem_bytes16 (source_port h) = [a1, b1]" "badvpn_read_le16 [a1, b1] = source_port h"
    "mem_bytes16 (dest_port h) = [a2, b2]" "badvpn_read_le16 [a2, b2] = dest_port h"
    "mem_bytes16 (udp_length h) = [a3, b3]" "badvpn_read_le16 [a3, b3] = udp_length h"
    "mem_bytes16 (udp_cksum h) = [a4, b4]" "badvpn_read_le16 [a4, b4] = udp_cksum h"
    using mem_bytes16_eq by metis
  then show ?thesis
    by (simp add: udp_header_bytes_def udp_header_of_def slice_def)
qed

lemma ipv6_header_of_bytes [simp]:
  assumes "length (source_address6 h) = 16" "length (destination_address6 h) = 16"
  shows "ipv6_header_of (ipv6_header_bytes h @ rest) = h"
proof -
  obtain a1 b1 a2 b2 where
    "mem_bytes16 (fl h) = [a1, b1]" "badvpn_read_le16 [a1, b1] = fl h"
    "mem_bytes16 (payload_length h) = [a2, b2]" "badvpn_read_le16 [a2, b2] = payload_length h"
    using mem_bytes16_eq by metis
  with assms show ?thesis
    by (simp add: ipv6_header_bytes_def ipv6_header_of_def slice_def)
qed

text \<open>The sum of a header splits into the sum without checksum and the checksum.\<close>

lemma be16_sum_ipv4_header:
  "be16_sum (ipv4_header_bytes (h\<lparr>ip_checksum := c\<rparr>)) =
   be16_sum (ipv4_header_bytes (h\<lparr>ip_checksum := 0\<rparr>)) + be16_sum (mem_bytes16 c)"
  by (simp add: ipv4_header_bytes_def mem_bytes16_def mem_bytes32_def)

lemma be16_sum_udp_header:
  "be16_sum (udp_header_bytes (h\<lparr>udp_cksum := c\<rparr>)) =
   be16_sum (udp_header_bytes (h\<lparr>udp_cksum := 0\<rparr>)) + be16_sum (mem_bytes16 c)"
  by (simp add: udp_header_bytes_def mem_bytes16_def)

subsection \<open>Checksum properties\<close>

lemma ipv4_checksum_eq:
  assumes "even len" "len \<le> length extra"
  shows "ipv4_checksum h extra len =
    hton16 (ucast (NOT (fold_carry (of_nat (be16_sum (ipv4_header_bytes h) + be16_sum (take len extra))))))"
proof -
  have "2 * (len div 2) = len" using assms by simp
  with summer_loop [of 10 "ipv4_header_bytes h" 0] summer_loop [of "len div 2" extra] assms show ?thesis
    by (simp add: ipv4_checksum_def Let_def)
qed

lemma ipv4_checksum_sum:
  assumes "even len" "len \<le> length extra" "len \<le> 65535"
  shows "be16_sum (ipv4_header_bytes (h\<lparr>ip_checksum := ipv4_checksum (h\<lparr>ip_checksum := 0\<rparr>) extra len\<rparr>) @ take len extra)
    mod 65535 = 0"
proof -
  let ?n = "be16_sum (ipv4_header_bytes (h\<lparr>ip_checksum := 0\<rparr>)) + be16_sum (take len extra)"
  have "?n \<le> 65535 * 10 + 65535 * ((len + 1) div 2)"
    using be16_sum_le [of "ipv4_header_bytes (h\<lparr>ip_checksum := 0\<rparr>)"] be16_sum_le [of "take len extra"] assms
    by (simp add: min.absorb2)
  also have "\<dots> < 2 ^ 32" using assms(3) by simp
  finally have "?n < 2 ^ 32" .
  from complement_sum [OF this] show ?thesis
    using be16_sum_ipv4_header [where h = h and c = "ipv4_checksum (h\<lparr>ip_checksum := 0\<rparr>) extra len"]
      ipv4_checksum_eq [OF assms(1,2), of "h\<lparr>ip_checksum := 0\<rparr>"]
    by (simp add: be16_sum_append ac_simps)
qed

text \<open>The IPv4 header checksum is the one of RFC 1071: a header (with options \<open>extra\<close>) that
  carries the value computed by \<^verbatim>\<open>ipv4_checksum\<close> over itself with a zero checksum field has a
  one's complement sum of zero, so every conforming receiver accepts it.\<close>

theorem ipv4_checksum_rfc1071:
  assumes "even len" "len \<le> length extra" "len \<le> 65535"
  shows "be16_sum (ipv4_header_bytes (h\<lparr>ip_checksum := ipv4_checksum (h\<lparr>ip_checksum := 0\<rparr>) extra len\<rparr>) @ take len extra)
    mod 65535 = 0"
  using ipv4_checksum_sum [OF assms] .

text \<open>The pseudo headers of RFC 768 and RFC 8200.\<close>

definition udp_pseudo :: "u32 \<Rightarrow> u32 \<Rightarrow> nat \<Rightarrow> byte list" where
  "udp_pseudo sa da len = mem_bytes32 sa @ mem_bytes32 da @ [0, 17] @ mem_bytes16 (hton16 (of_nat len))"

definition udp6_pseudo :: "byte list \<Rightarrow> byte list \<Rightarrow> nat \<Rightarrow> byte list" where
  "udp6_pseudo sa da len = sa @ da @ mem_bytes32 (hton32 (of_nat len)) @ [0, 0, 0, 17]"

lemma be16_sum_last:
  assumes "odd (length xs)"
  shows "be16_sum xs = be16_sum (take (length xs - 1) xs) + 256 * unat (xs ! (length xs - 1))"
proof -
  obtain ys y where xs: "xs = ys @ [y]" using assms by (cases xs rule: rev_cases) auto
  with assms show ?thesis by (simp add: be16_sum_append nth_append)
qed

lemma payload_sum:
  "(if length payload mod 2 = 0 then t + udp_checksum_summer payload (length payload)
    else (let t = t + udp_checksum_summer payload (length payload - 1);
              x = hton16 (push_bit 8 (ucast (payload ! (length payload - 1))))
          in t + udp_checksum_summer (mem_bytes16 x) 2)) = t + of_nat (be16_sum payload)"
proof (cases "even (length payload)")
  case True
  then show ?thesis by (simp add: summer_eq)
next
  case False
  let ?b = "payload ! (length payload - 1)"
  have "push_bit 8 (ucast ?b :: u16) = of_nat (256 * unat ?b)"
    by (simp add: push_bit_eq_mult mult.commute)
  moreover have "unat (of_nat (256 * unat ?b) :: u16) = 256 * unat ?b"
    using unat_byte_less [of ?b] by (simp only: unat_of_nat) simp
  ultimately have "be16_sum (mem_bytes16 (hton16 (push_bit 8 (ucast ?b)))) = 256 * unat ?b"
    by (simp only: be16_sum_hton16)
  with False show ?thesis
    by (simp add: summer_eq be16_sum_last [OF False] odd_iff_mod_2_eq_one del: of_nat_mult)
qed

lemma udp_total_bound:
  assumes "length payload \<le> 65535" "length ps \<le> 40" "even (length ps)"
  shows "be16_sum (ps @ udp_header_bytes h @ payload) < 2 ^ 32"
proof -
  have "be16_sum (ps @ udp_header_bytes h @ payload) \<le> 65535 * ((length (ps @ udp_header_bytes h @ payload) + 1) div 2)"
    by (rule be16_sum_le)
  also have "\<dots> < 2 ^ 32" using assms by simp
  finally show ?thesis .
qed

text \<open>The branch for a zero sum is never taken: the protocol number makes the sum positive.\<close>

lemma checksum_positive:
  assumes "0 < n" "n < 2 ^ 32"
  shows "fold_carry (of_nat n) \<noteq> 0"
proof -
  have "(of_nat n :: u32) \<noteq> 0" using assms by (simp add: word_of_nat_eq_0_iff nat_dvd_not_less)
  then show ?thesis using fold_carry_spec by blast
qed

lemma udp_checksum_eq:
  assumes "length payload \<le> 65535"
  shows "udp_checksum h payload (length payload) sa da =
    hton16 (ucast (NOT (fold_carry (of_nat
      (be16_sum (udp_pseudo sa da (8 + length payload) @ udp_header_bytes h @ payload))))))"
proof -
  let ?n = "be16_sum (udp_pseudo sa da (8 + length payload) @ udp_header_bytes h @ payload)"
  have split: "?n = be16_sum (mem_bytes32 sa) + be16_sum (mem_bytes32 da) + 17 +
      be16_sum (mem_bytes16 (hton16 (of_nat (8 + length payload)))) + be16_sum (udp_header_bytes h) + be16_sum payload"
    by (simp add: udp_pseudo_def be16_sum_append)
  have "?n < 2 ^ 32" by (rule udp_total_bound) (use assms in \<open>simp_all add: udp_pseudo_def\<close>)
  moreover have "0 < ?n" by (simp add: split)
  ultimately have "fold_carry (of_nat ?n) \<noteq> 0" by (simp only: checksum_positive) simp
  moreover have "of_nat ?n = udp_checksum_summer (mem_bytes32 sa) 4 + udp_checksum_summer (mem_bytes32 da) 4 +
      udp_checksum_summer (mem_bytes16 (hton16 17)) 2 +
      udp_checksum_summer (mem_bytes16 (hton16 (of_nat (8 + length payload)))) 2 +
      udp_checksum_summer (udp_header_bytes h) 8 + of_nat (be16_sum payload)"
    by (simp add: split summer_eq be16_sum_hton16)
  ultimately show ?thesis
    unfolding udp_checksum_def Let_def payload_sum [unfolded Let_def] by simp
qed

lemma udp_ip6_checksum_eq:
  assumes "length payload \<le> 65535" "length sa = 16" "length da = 16"
  shows "udp_ip6_checksum h payload (length payload) sa da =
    hton16 (ucast (NOT (fold_carry (of_nat
      (be16_sum (udp6_pseudo sa da (8 + length payload) @ udp_header_bytes h @ payload))))))"
proof -
  let ?l = "mem_bytes32 (hton32 (of_nat (8 + length payload)))"
  let ?n = "be16_sum (udp6_pseudo sa da (8 + length payload) @ udp_header_bytes h @ payload)"
  have split: "?n = be16_sum sa + be16_sum da + be16_sum ?l + 17 + be16_sum (udp_header_bytes h) + be16_sum payload"
    using assms by (simp add: udp6_pseudo_def be16_sum_append)
  have "?n < 2 ^ 32" by (rule udp_total_bound) (use assms in \<open>simp_all add: udp6_pseudo_def\<close>)
  moreover have "0 < ?n" by (simp add: split)
  ultimately have "fold_carry (of_nat ?n) \<noteq> 0" by (simp only: checksum_positive) simp
  moreover have "mem_bytes32 (hton32 17) = [0, 0, 0, 17]"
    by (simp add: mem_bytes32_hton) (simp add: mem_bytes32_def)
  then have "of_nat ?n = udp_checksum_summer sa 16 + udp_checksum_summer da 16 + udp_checksum_summer ?l 4 +
      udp_checksum_summer (mem_bytes32 (hton32 17)) 4 + udp_checksum_summer (udp_header_bytes h) 8 +
      of_nat (be16_sum payload)"
    using assms by (simp add: split summer_eq)
  ultimately show ?thesis
    unfolding udp_ip6_checksum_def Let_def payload_sum [unfolded Let_def] by simp
qed

lemma be16_sum_cksum_part:
  assumes "even (length ps)"
  shows "be16_sum (ps @ udp_header_bytes (h\<lparr>udp_cksum := c\<rparr>) @ payload) =
    be16_sum (ps @ udp_header_bytes (h\<lparr>udp_cksum := 0\<rparr>) @ payload) + be16_sum (mem_bytes16 c)"
  using assms be16_sum_udp_header [where h = h and c = c] by (simp add: be16_sum_append)

text \<open>C33.  UDP checksums are those of RFC 768 up to the representation of zero: a datagram that
  carries the value computed by \<^verbatim>\<open>udp_checksum\<close> (IPv4) or \<^verbatim>\<open>udp_ip6_checksum\<close> (IPv6) over a zero
  checksum field has, together with its pseudo header, a one's complement sum of zero; this
  holds for payloads of even and of odd length.\<close>

theorem udp_checksum_rfc768:
  assumes "length payload \<le> 65535" "length sa6 = 16" "length da6 = 16"
  shows "be16_sum (udp_pseudo sa da (8 + length payload) @
      udp_header_bytes (h\<lparr>udp_cksum := udp_checksum (h\<lparr>udp_cksum := 0\<rparr>) payload (length payload) sa da\<rparr>) @ payload)
      mod 65535 = 0 \<and>
    be16_sum (udp6_pseudo sa6 da6 (8 + length payload) @
      udp_header_bytes (h\<lparr>udp_cksum := udp_ip6_checksum (h\<lparr>udp_cksum := 0\<rparr>) payload (length payload) sa6 da6\<rparr>) @ payload)
      mod 65535 = 0"
proof
  let ?p4 = "udp_pseudo sa da (8 + length payload)" and ?p6 = "udp6_pseudo sa6 da6 (8 + length payload)"
  have e: "even (length ?p4)" "length ?p4 \<le> 40" "even (length ?p6)" "length ?p6 \<le> 40"
    using assms by (simp_all add: udp_pseudo_def udp6_pseudo_def)
  show "be16_sum (?p4 @ udp_header_bytes (h\<lparr>udp_cksum := udp_checksum (h\<lparr>udp_cksum := 0\<rparr>) payload (length payload) sa da\<rparr>) @ payload) mod 65535 = 0"
    by (subst be16_sum_cksum_part [OF e(1)], subst udp_checksum_eq [OF assms(1)])
       (rule complement_sum [OF udp_total_bound [OF assms(1) e(2,1)]])
  show "be16_sum (?p6 @ udp_header_bytes (h\<lparr>udp_cksum := udp_ip6_checksum (h\<lparr>udp_cksum := 0\<rparr>) payload (length payload) sa6 da6\<rparr>) @ payload) mod 65535 = 0"
    by (subst be16_sum_cksum_part [OF e(3)], subst udp_ip6_checksum_eq [OF assms])
       (rule complement_sum [OF udp_total_bound [OF assms(1) e(4,3)]])
qed

text \<open>The representation of zero is the wrong one: \<^verbatim>\<open>udp_checksum\<close> never returns all ones,
  the value that RFC 768 requires when the computed checksum is zero; it returns 0, which on
  the wire means that the sender computed no checksum.\<close>

theorem udp_checksum_never_all_ones:
  assumes "length payload \<le> 65535"
  shows "udp_checksum h payload (length payload) sa da \<noteq> 0xFFFF \<and>
    (be16_sum (udp_pseudo sa da (8 + length payload) @ udp_header_bytes h @ payload) mod 65535 = 0 \<longrightarrow>
     udp_checksum h payload (length payload) sa da = 0)"
proof -
  let ?n = "be16_sum (udp_pseudo sa da (8 + length payload) @ udp_header_bytes h @ payload)"
  let ?t = "fold_carry (of_nat ?n)"
  have n: "?n < 2 ^ 32" by (rule udp_total_bound) (use assms in \<open>simp_all add: udp_pseudo_def\<close>)
  have "0 < ?n" by (simp add: udp_pseudo_def be16_sum_append)
  with n have t: "?t \<noteq> 0" by (simp only: checksum_positive) simp
  have l: "unat ?t < 65536" and m: "unat ?t mod 65535 = ?n mod 65535"
    using fold_carry_spec [of "of_nat ?n"] n by (simp_all add: unat_of_nat)
  have "0 < unat ?t" using t by (simp add: unsigned_eq_0_iff zero_less_iff_neq_zero)
  then have c: "unat (ucast (NOT ?t) :: u16) < 65535" using l by (simp add: unat_complement)
  have ones: "hton16 0xFFFF = 0xFFFF" and zero: "hton16 0 = 0"
    by (simp_all add: hton16_def badvpn_reverse16_def mem_bytes16_def badvpn_read_le16_def)
  have "udp_checksum h payload (length payload) sa da \<noteq> 0xFFFF"
  proof
    assume "udp_checksum h payload (length payload) sa da = 0xFFFF"
    then have "ntoh16 (hton16 (ucast (NOT ?t))) = ntoh16 0xFFFF"
      by (simp only: udp_checksum_eq [OF assms])
    then have "(ucast (NOT ?t) :: u16) = 0xFFFF" by (simp only: ntoh16_hton16) (simp add: ntoh16_def ones)
    with c show False by simp
  qed
  moreover have "udp_checksum h payload (length payload) sa da = 0" if "?n mod 65535 = 0"
  proof -
    have "unat ?t = 65535" using that m l \<open>0 < unat ?t\<close> by (auto simp: mod_eq_0_iff_dvd dvd_def)
    then have "unat (ucast (NOT ?t) :: u16) = 0" using l by (simp add: unat_complement)
    then have "(ucast (NOT ?t) :: u16) = 0" by (simp add: unsigned_eq_0_iff)
    then show ?thesis by (simp only: udp_checksum_eq [OF assms] zero)
  qed
  ultimately show ?thesis by blast
qed

subsection \<open>Accepted packets\<close>

lemma hton16_0 [simp]: "hton16 0 = 0"
  by (simp add: hton16_def badvpn_reverse16_def mem_bytes16_def badvpn_read_le16_def)

lemma IHL_bound: "unat (IPV4_GET_IHL h) \<le> 15"
proof -
  have "IPV4_GET_IHL h = take_bit 4 (version4_ihl4 h)"
    by (simp add: IPV4_GET_IHL_def take_bit_eq_mask mask_eq_exp_minus_1)
  then show ?thesis by (simp add: take_bit_eq_mod unat_mod)
qed

lemma ipv4_header_split:
  assumes "20 \<le> length data"
  shows "ipv4_header_bytes (ipv4_header_of data) = take 20 data"
proof -
  have sl: "slice i 2 data = [data ! i, data ! (i + 1)]" if "i + 1 < length data" for i
    by (rule nth_equalityI) (use that in \<open>auto simp: less_Suc_eq numeral_eq_Suc\<close>)
  have sl4: "slice i 4 data = [data ! i, data ! (i + 1), data ! (i + 2), data ! (i + 3)]" if "i + 3 < length data" for i
    by (rule nth_equalityI) (use that in \<open>auto simp: less_Suc_eq numeral_eq_Suc\<close>)
  have m: "mem_bytes16 (badvpn_read_le16 (slice i 2 data)) = slice i 2 data" if "i + 1 < length data" for i
    using sl [OF that] by simp
  have m4: "mem_bytes32 (badvpn_read_le32 (slice i 4 data)) = slice i 4 data" if "i + 3 < length data" for i
    using sl4 [OF that] by simp
  have "ipv4_header_bytes (ipv4_header_of data) = slice 0 2 data @ slice 2 2 data @ slice 4 2 data @ slice 6 2 data @
      slice 8 2 data @ slice 10 2 data @ slice 12 4 data @ slice 16 4 data"
    using assms sl [of 0] sl [of 8] by (simp add: ipv4_header_bytes_def ipv4_header_of_def m m4)
  also have "\<dots> = slice 0 20 data"
    using slice_append_slice [of 16 4 data 0] slice_append_slice [of 12 4 data 4] slice_append_slice [of 10 2 data 8]
      slice_append_slice [of 8 2 data 10] slice_append_slice [of 6 2 data 12] slice_append_slice [of 4 2 data 14]
      slice_append_slice [of 2 2 data 16] slice_append_slice [of 0 2 data 18, unfolded add_0] by simp
  finally show ?thesis by (simp add: slice_def)
qed

lemma ipv4_check_SomeD:
  assumes "ipv4_check data = Some (h, payload)"
  shows "\<exists>hl. hl = unat (IPV4_GET_IHL h) * 4 \<and> IPV4_GET_VERSION h = 4 \<and> 20 \<le> hl \<and> hl \<le> 60 \<and>
    hl + length payload = unat (ntoh16 (total_length h)) \<and> hl + length payload \<le> length data \<and>
    payload = slice hl (length payload) data \<and> ipv4_header_bytes h = take 20 data \<and>
    be16_sum (take hl data) mod 65535 = 0"
proof -
  let ?hl = "unat (IPV4_GET_IHL h) * 4"
  from assms have h: "h = ipv4_header_of data" "20 \<le> length data" "IPV4_GET_VERSION h = 4" "20 \<le> ?hl"
      "?hl \<le> length data" "?hl \<le> unat (ntoh16 (total_length h))" "unat (ntoh16 (total_length h)) \<le> length data"
    and p: "payload = slice ?hl (unat (ntoh16 (total_length h)) - ?hl) data"
    and c: "ip_checksum h = ipv4_checksum (h\<lparr>ip_checksum := 0\<rparr>) (drop 20 data) (?hl - 20)"
    by (auto simp: ipv4_check_def Let_def split: if_splits)
  have img: "ipv4_header_bytes h = take 20 data" using h by (simp add: ipv4_header_split)
  have e: "even (?hl - 20)" by simp
  have same: "h\<lparr>ip_checksum := ipv4_checksum (h\<lparr>ip_checksum := 0\<rparr>) (drop 20 data) (?hl - 20)\<rparr> = h"
    by (simp flip: c)
  have "?hl - 20 \<le> length (drop 20 data)" "?hl - 20 \<le> 65535" using h(5) IHL_bound [of h] by simp_all
  from ipv4_checksum_sum [OF e this, of h]
  have "be16_sum (ipv4_header_bytes h @ take (?hl - 20) (drop 20 data)) mod 65535 = 0" by (simp only: same)
  moreover have "ipv4_header_bytes h @ take (?hl - 20) (drop 20 data) = take ?hl data"
    using take_add [of 20 "?hl - 20" data] h(4) img by simp
  ultimately have sum: "be16_sum (take ?hl data) mod 65535 = 0" by simp
  have len: "?hl + length payload = unat (ntoh16 (total_length h))" using h p by simp
  then have "payload = slice ?hl (length payload) data" using p by (metis add_diff_cancel_left')
  with sum len h img show ?thesis using IHL_bound [of h] by (intro exI [of _ ?hl] conjI; linarith | assumption | simp)+
qed

text \<open>What \<^verbatim>\<open>ipv4_check\<close> accepts: the version is 4, the header length is between 20 and 60 and
  within the packet, the header words with options sum to zero in one's complement, and the
  payload is the region from the end of the header up to the announced total length, which lies
  within the packet; trailing bytes are cut off.\<close>

theorem ipv4_check_sound:
  assumes "ipv4_check data = Some (h, payload)"
  shows "\<exists>hl. hl = unat (IPV4_GET_IHL h) * 4 \<and> IPV4_GET_VERSION h = 4 \<and> 20 \<le> hl \<and> hl \<le> 60 \<and>
    hl + length payload = unat (ntoh16 (total_length h)) \<and> hl + length payload \<le> length data \<and>
    payload = slice hl (length payload) data \<and> ipv4_header_bytes h = take 20 data \<and>
    be16_sum (take hl data) mod 65535 = 0"
  using ipv4_check_SomeD [OF assms] .

lemma udp_check_sound:
  assumes "udp_check data = Some (h, payload)"
  shows "8 + length payload = unat (ntoh16 (udp_length h)) \<and> 8 + length payload \<le> length data \<and>
    payload = slice 8 (length payload) data"
  using assms by (auto simp: udp_check_def Let_def slice_def min_def split: if_splits)

lemma ipv6_check_sound:
  assumes "ipv6_check data = Some (h, payload)"
  shows "length payload = unat (ntoh16 (payload_length h)) \<and> 40 + length payload \<le> length data \<and>
    payload = slice 40 (length payload) data"
  using assms by (auto simp: ipv6_check_def Let_def split: if_splits)

text \<open>Packets built from proper headers are accepted, with trailing bytes ignored.\<close>

lemma unat_ntoh_length: "n < 65536 \<Longrightarrow> unat (ntoh16 (hton16 (of_nat n))) = n"
  by (simp add: unat_of_nat)

lemma ipv4_check_build:
  assumes "version4_ihl4 h = 0x45" "total_length h = hton16 (of_nat (20 + length payload))"
    "ip_checksum h = ipv4_checksum (h\<lparr>ip_checksum := 0\<rparr>) [] 0" "20 + length payload \<le> 65535"
  shows "ipv4_check (ipv4_header_bytes h @ payload @ stray) = Some (h, payload)"
proof -
  have "IPV4_GET_VERSION h = 4" "unat (IPV4_GET_IHL h) * 4 = 20"
    by (simp_all add: IPV4_GET_VERSION_def IPV4_GET_IHL_def assms(1))
  moreover have "unat (ntoh16 (total_length h)) = 20 + length payload"
    using assms(2,4) unat_ntoh_length [of "20 + length payload"] by simp
  moreover have "ipv4_checksum (h\<lparr>ip_checksum := 0\<rparr>) (payload @ stray) 0 = ip_checksum h"
    by (simp add: assms(3) ipv4_checksum_def)
  ultimately show ?thesis
    by (simp add: ipv4_check_def Let_def slice_def)
qed

lemma udp_check_build:
  assumes "udp_length h = hton16 (of_nat (8 + length payload))" "8 + length payload \<le> 65535"
  shows "udp_check (udp_header_bytes h @ payload @ stray) = Some (h, payload)"
proof -
  have "unat (ntoh16 (udp_length h)) = 8 + length payload"
    using assms unat_ntoh_length [of "8 + length payload"] by simp
  then show ?thesis by (simp add: udp_check_def Let_def)
qed

lemma ipv6_check_build:
  assumes "version4_tc4 h = 0x60" "payload_length h = hton16 (of_nat (length payload))" "length payload \<le> 65535"
    "length (source_address6 h) = 16" "length (destination_address6 h) = 16"
  shows "ipv6_check (ipv6_header_bytes h @ payload @ stray) = Some (h, payload)"
proof -
  have "unat (ntoh16 (payload_length h)) = length payload"
    using assms unat_ntoh_length [of "length payload"] by simp
  with assms show ?thesis
    by (simp add: ipv6_check_def Let_def length_ipv6_header_bytes ntoh8_def hton8_def slice_def)
qed

subsection \<open>Examples\<close>

definition ex_ip0 :: ipv4_header where
  "ex_ip0 = \<lparr>version4_ihl4 = 0x45, ds = 0, total_length = hton16 (of_nat (20 + length [1, 2 :: byte])),
     identification = 0, flags3_fragmentoffset13 = 0, ttl = 64, protocol = 17, ip_checksum = 0,
     source_address = 1, destination_address = 2\<rparr>"

definition ex_ip :: ipv4_header where
  "ex_ip = ex_ip0\<lparr>ip_checksum := ipv4_checksum ex_ip0 [] 0\<rparr>"

definition ex_udp :: udp_header where
  "ex_udp = \<lparr>source_port = 1, dest_port = 2, udp_length = 3, udp_cksum = 0\<rparr>"

lemma ex_ip0_cksum: "ex_ip0\<lparr>ip_checksum := 0\<rparr> = ex_ip0"
  by (simp add: ex_ip0_def)

lemma ex_ip_accepted: "ipv4_check (ipv4_header_bytes ex_ip @ [1, 2] @ [9]) = Some (ex_ip, [1, 2])"
  by (rule ipv4_check_build) (simp_all add: ex_ip_def ex_ip0_cksum, simp_all add: ex_ip0_def)

theorem ipv4_checksum_rfc1071_witness:
  "be16_sum (ipv4_header_bytes (ex_ip0\<lparr>ip_checksum := ipv4_checksum ex_ip0 [1, 2] 2\<rparr>) @ [1, 2]) mod 65535 = 0"
  using ipv4_checksum_rfc1071 [of 2 "[1, 2]" ex_ip0] by (simp add: ex_ip0_cksum)

theorem udp_checksum_rfc768_witness:
  "be16_sum (udp_pseudo 1 2 (8 + length [7 :: byte]) @
     udp_header_bytes (ex_udp\<lparr>udp_cksum := udp_checksum (ex_udp\<lparr>udp_cksum := 0\<rparr>) [7] (length [7 :: byte]) 1 2\<rparr>) @ [7]) mod 65535 = 0"
  using udp_checksum_rfc768 [of "[7]" "replicate 16 0" "replicate 16 0" 1 2 ex_udp] by simp

theorem udp_checksum_never_all_ones_witness:
  "udp_checksum ex_udp [7] (length [7 :: byte]) 1 2 \<noteq> 0xFFFF"
  using udp_checksum_never_all_ones [of "[7]" ex_udp 1 2] by simp

theorem ipv4_check_sound_witness:
  "\<exists>h. ipv4_check (ipv4_header_bytes ex_ip @ [1, 2] @ [9]) = Some (h, [1, 2]) \<and> IPV4_GET_VERSION h = 4"
  using ipv4_check_sound [OF ex_ip_accepted] ex_ip_accepted by blast

end
