(* ===== verification/DeviceUdp.thy ===== *)
theory DeviceUdp
  imports IpProto Addr
begin

text \<open>
  The UDP side of \<^verbatim>\<open>tun2socks/tun2socks.c\<close>: packets read from the tun device
  (\<^verbatim>\<open>device_read_handler_send\<close>) are first offered to the DNS redirection
  (\<^verbatim>\<open>process_device_dns_packet\<close>, with its table of outstanding queries), then to the UDP relay
  (\<^verbatim>\<open>process_device_udp_packet\<close>), and otherwise handed to the TCP/IP stack; datagrams coming back
  from the relay are wrapped by \<^verbatim>\<open>udpgw_client_handler_received\<close>.  The query table is a BAVL tree
  keyed by the source port, seen here as a finite map.
\<close>

unbundle bit_operations_syntax

subsection \<open>Options and state\<close>

record Connection =
  con_local_addr :: BAddr
  con_remote_addr :: BAddr
  con_port :: u16
  con_count :: int

type_synonym con_table = "u16 \<Rightarrow> Connection option"

record dev_options =
  opt_dnsgw :: "(u32 \<times> u16) option"   \<comment> \<open>\<^verbatim>\<open>options.dnsgw\<close> and the parsed \<^verbatim>\<open>dnsgw\<close> address\<close>
  opt_udpgw :: bool                    \<comment> \<open>\<^verbatim>\<open>options.udpgw_remote_server_addr\<close> is set\<close>
  opt_transparent_dns :: bool
  opt_netif_ip6addr :: bool
  netif_ipaddr :: u32
  udp_mtu :: nat
  tap_mtu :: nat

record dev_state =
  dns_init :: bool
  connections_tree :: con_table

subsection \<open>The table of outstanding DNS queries\<close>

definition conaddr_comparator :: "u16 \<Rightarrow> u16 \<Rightarrow> int" where
  "conaddr_comparator v1 v2 = (if v1 = v2 then 0 else if v1 > v2 then 1 else -1)"

definition find_connection :: "u16 \<Rightarrow> con_table \<Rightarrow> Connection option" where
  "find_connection port t = t port"

definition remove_connection :: "Connection \<Rightarrow> con_table \<Rightarrow> con_table" where
  "remove_connection con t =
     (let con = con\<lparr>con_count := con_count con - 1\<rparr>
      in if con_count con \<le> 0 then t(con_port con := None) else t(con_port con \<mapsto> con))"

definition insert_connection :: "BAddr \<Rightarrow> BAddr \<Rightarrow> u16 \<Rightarrow> con_table \<Rightarrow> con_table" where
  "insert_connection local_addr remote_addr port t =
     (case find_connection port t of
        Some con \<Rightarrow> t(port \<mapsto> con\<lparr>con_count := con_count con + 1\<rparr>)
      | None \<Rightarrow> t(port \<mapsto> \<lparr>con_local_addr = local_addr, con_remote_addr = remote_addr, con_port = port, con_count = 1\<rparr>))"

subsection \<open>Packets from the device\<close>

text \<open>\<open>None\<close>: the function returns 0 (in which case the table is unchanged); otherwise the new
  state and the packet submitted to the device.\<close>

definition process_device_dns_packet ::
  "dev_options \<Rightarrow> dev_state \<Rightarrow> byte list \<Rightarrow> (dev_state \<times> byte list) option" where
  "process_device_dns_packet opts st data =
     (case opt_dnsgw opts of
        None \<Rightarrow> None
      | Some (dnsgw_ip, dnsgw_port) \<Rightarrow>
          (let ip_version = (if length data > 0 then drop_bit 4 (data ! 0) else 0) in
           if ip_version = 4 then
             (if length data < sizeof_ipv4_header \<or> data ! 9 \<noteq> IPV4_PROTOCOL_UDP then None
              else case ipv4_check data of
                None \<Rightarrow> None
              | Some (iph, data) \<Rightarrow>
                (case udp_check data of
                   None \<Rightarrow> None
                 | Some (udph, data) \<Rightarrow>
                   (let checksum_in_packet = udp_cksum udph;
                        udph = udph\<lparr>udp_cksum := 0\<rparr>;
                        checksum_computed = udp_checksum udph data (length data) (source_address iph) (destination_address iph);
                        to_dns = (dest_port udph = hton16 53);
                        from_dns = (source_port udph = dnsgw_port);
                        finish = (\<lambda>st iph udph.
                          let iph = iph\<lparr>ip_checksum := hton16 0\<rparr>;
                              iph = iph\<lparr>ip_checksum := ipv4_checksum iph [] 0\<rparr>;
                              udph = udph\<lparr>udp_cksum := hton16 0\<rparr>;
                              udph = udph\<lparr>udp_cksum := udp_checksum udph data (length data) (source_address iph) (destination_address iph)\<rparr>
                          in Some (st, ipv4_header_bytes iph @ udp_header_bytes udph @ data))
                    in if checksum_in_packet \<noteq> checksum_computed then None
                       else if \<not> to_dns \<and> \<not> from_dns then None
                       else if to_dns then
                         (let st = (if dns_init st then st else st\<lparr>dns_init := True, connections_tree := (\<lambda>_. None)\<rparr>);
                              local_addr = BAddr_InitIPv4 (source_address iph) (source_port udph);
                              remote_addr = BAddr_InitIPv4 (destination_address iph) (dest_port udph);
                              st = st\<lparr>connections_tree := insert_connection local_addr remote_addr (source_port udph) (connections_tree st)\<rparr>;
                              iph = iph\<lparr>destination_address := dnsgw_ip, source_address := netif_ipaddr opts\<rparr>;
                              udph = udph\<lparr>dest_port := dnsgw_port\<rparr>
                          in finish st iph udph)
                       else if \<not> dns_init st then None
                       else (case find_connection (dest_port udph) (connections_tree st) of
                               None \<Rightarrow> None
                             | Some con \<Rightarrow>
                                 (let iph = iph\<lparr>source_address := ip4 (con_remote_addr con), destination_address := ip4 (con_local_addr con)\<rparr>;
                                      udph = udph\<lparr>source_port := port4 (con_remote_addr con)\<rparr>;
                                      st = st\<lparr>connections_tree := remove_connection con (connections_tree st)\<rparr>
                                  in finish st iph udph)))))
           else None))"

text \<open>\<open>None\<close>: the function returns 0; otherwise the arguments of \<^verbatim>\<open>SocksUdpGwClient_SubmitPacket\<close>:
  local address, remote address, whether it is DNS, payload.\<close>

definition process_device_udp_packet ::
  "dev_options \<Rightarrow> byte list \<Rightarrow> (BAddr \<times> BAddr \<times> bool \<times> byte list) option" where
  "process_device_udp_packet opts data =
     (if \<not> opt_udpgw opts then None
      else (let ip_version = (if length data > 0 then drop_bit 4 (data ! 0) else 0);
                submit = (\<lambda>local_addr remote_addr is_dns data.
                  if length data > udp_mtu opts then None else Some (local_addr, remote_addr, is_dns, data))
        in if ip_version = 4 then
             (if length data < sizeof_ipv4_header \<or> data ! 9 \<noteq> IPV4_PROTOCOL_UDP then None
              else case ipv4_check data of
                None \<Rightarrow> None
              | Some (iph, data) \<Rightarrow>
                (case udp_check data of
                   None \<Rightarrow> None
                 | Some (udph, data) \<Rightarrow>
                   (let checksum_in_packet = udp_cksum udph;
                        udph = udph\<lparr>udp_cksum := 0\<rparr>;
                        checksum_computed = udp_checksum udph data (length data) (source_address iph) (destination_address iph)
                    in if checksum_in_packet \<noteq> checksum_computed then None
                       else (let local_addr = BAddr_InitIPv4 (source_address iph) (source_port udph);
                                 remote_addr = BAddr_InitIPv4 (destination_address iph) (dest_port udph);
                                 is_dns = (opt_transparent_dns opts \<and> destination_address iph = netif_ipaddr opts \<and>
                                           dest_port udph = hton16 53)
                             in submit local_addr remote_addr is_dns data))))
           else if ip_version = 6 then
             (if \<not> opt_netif_ip6addr opts then None
              else if length data < sizeof_ipv6_header \<or> data ! 6 \<noteq> IPV6_NEXT_UDP then None
              else case ipv6_check data of
                None \<Rightarrow> None
              | Some (iph, data) \<Rightarrow>
                (case udp_check data of
                   None \<Rightarrow> None
                 | Some (udph, data) \<Rightarrow>
                   (let checksum_in_packet = udp_cksum udph;
                        udph = udph\<lparr>udp_cksum := 0\<rparr>;
                        checksum_computed = udp_ip6_checksum udph data (length data) (source_address6 iph) (destination_address6 iph)
                    in if checksum_in_packet \<noteq> checksum_computed then None
                       else (let local_addr = BAddr_InitIPv6 (source_address6 iph) (source_port udph);
                                 remote_addr = BAddr_InitIPv6 (destination_address6 iph) (dest_port udph)
                             in submit local_addr remote_addr False data))))
           else None))"

datatype dev_action =
    To_device "byte list" | To_udpgw BAddr BAddr bool "byte list" | To_stack "byte list" | Dropped

text \<open>\<open>pbuf_ok\<close>: whether lwIP's allocation succeeds.\<close>

definition device_read_handler_send ::
  "dev_options \<Rightarrow> bool \<Rightarrow> dev_state \<Rightarrow> byte list \<Rightarrow> dev_state \<times> dev_action" where
  "device_read_handler_send opts pbuf_ok st data =
     (case process_device_dns_packet opts st data of
        Some (st, packet) \<Rightarrow> (st, To_device packet)
      | None \<Rightarrow>
          (case process_device_udp_packet opts data of
             Some (local_addr, remote_addr, is_dns, payload) \<Rightarrow> (st, To_udpgw local_addr remote_addr is_dns payload)
           | None \<Rightarrow> if length data > 65535 then (st, Dropped)
                     else if \<not> pbuf_ok then (st, Dropped)
                     else (st, To_stack data)))"

subsection \<open>Packets to the device\<close>

definition udpgw_client_handler_received ::
  "dev_options \<Rightarrow> BAddr \<Rightarrow> BAddr \<Rightarrow> byte list \<Rightarrow> byte list option" where
  "udpgw_client_handler_received opts local_addr remote_addr data =
     (case (local_addr, remote_addr) of
        (BADDR_IPV4 lip lport, BADDR_IPV4 rip rport) \<Rightarrow>
          (if length data > 65535 - (sizeof_ipv4_header + sizeof_udp_header) \<or>
              int (length data) > int (tap_mtu opts) - int (sizeof_ipv4_header + sizeof_udp_header) then None
           else (let iph = \<lparr>version4_ihl4 = IPV4_MAKE_VERSION_IHL sizeof_ipv4_header, ds = hton8 0,
                       total_length = hton16 (of_nat (sizeof_ipv4_header + sizeof_udp_header + length data)),
                       identification = hton16 0, flags3_fragmentoffset13 = hton16 0, ttl = hton8 64,
                       protocol = hton8 IPV4_PROTOCOL_UDP, ip_checksum = hton16 0,
                       source_address = rip, destination_address = lip\<rparr>;
                     iph = iph\<lparr>ip_checksum := ipv4_checksum iph [] 0\<rparr>;
                     udph = \<lparr>source_port = rport, dest_port = lport,
                       udp_length = hton16 (of_nat (sizeof_udp_header + length data)), udp_cksum = hton16 0\<rparr>;
                     udph = udph\<lparr>udp_cksum := udp_checksum udph data (length data) (source_address iph) (destination_address iph)\<rparr>
                 in Some (ipv4_header_bytes iph @ udp_header_bytes udph @ data)))
      | (BADDR_IPV6 lip lport, BADDR_IPV6 rip rport) \<Rightarrow>
          (if \<not> opt_netif_ip6addr opts then None
           else if length data > 65535 - sizeof_udp_header \<or>
              int (length data) > int (tap_mtu opts) - int (sizeof_ipv6_header + sizeof_udp_header) then None
           else (let iph = \<lparr>version4_tc4 = hton8 (push_bit 4 6), tc4_fl4 = hton8 0, fl = hton16 0,
                       payload_length = hton16 (of_nat (sizeof_udp_header + length data)),
                       next_header = hton8 IPV6_NEXT_UDP, hop_limit = hton8 64,
                       source_address6 = take 16 rip, destination_address6 = take 16 lip\<rparr>;
                     udph = \<lparr>source_port = rport, dest_port = lport,
                       udp_length = hton16 (of_nat (sizeof_udp_header + length data)), udp_cksum = hton16 0\<rparr>;
                     udph = udph\<lparr>udp_cksum := udp_ip6_checksum udph data (length data) (source_address6 iph) (destination_address6 iph)\<rparr>
                 in Some (ipv6_header_bytes iph @ udp_header_bytes udph @ data)))
      | _ \<Rightarrow> None)"

subsection \<open>Well-formed UDP packets\<close>

text \<open>An IPv4/UDP packet without options, as the code builds it: correct lengths and checksums.\<close>

definition udp4_headers_ok :: "ipv4_header \<Rightarrow> udp_header \<Rightarrow> byte list \<Rightarrow> bool" where
  "udp4_headers_ok iph udph data \<longleftrightarrow>
     version4_ihl4 iph = 0x45 \<and> protocol iph = 17 \<and> total_length iph = hton16 (of_nat (28 + length data)) \<and>
     ip_checksum iph = ipv4_checksum (iph\<lparr>ip_checksum := 0\<rparr>) [] 0 \<and>
     udp_length udph = hton16 (of_nat (8 + length data)) \<and>
     udp_cksum udph = udp_checksum (udph\<lparr>udp_cksum := 0\<rparr>) data (length data) (source_address iph) (destination_address iph) \<and>
     28 + length data \<le> 65535"

definition udp4_packet :: "ipv4_header \<Rightarrow> udp_header \<Rightarrow> byte list \<Rightarrow> byte list" where
  "udp4_packet iph udph data = ipv4_header_bytes iph @ udp_header_bytes udph @ data"

lemma ipv4_header_bytes_nth:
  "(ipv4_header_bytes h @ r) ! 0 = version4_ihl4 h" "(ipv4_header_bytes h @ r) ! 9 = protocol h"
  by (simp_all add: ipv4_header_bytes_def mem_bytes16_def)

lemma udp4_packet_parses:
  assumes "udp4_headers_ok iph udph data"
  shows "ipv4_check (udp4_packet iph udph data) = Some (iph, udp_header_bytes udph @ data)"
    and "udp_check (udp_header_bytes udph @ data) = Some (udph, data)"
    and "drop_bit 4 (udp4_packet iph udph data ! 0) = 4" "udp4_packet iph udph data ! 9 = 17"
    and "20 \<le> length (udp4_packet iph udph data)" "udp4_packet iph udph data \<noteq> []"
proof -
  have a: "version4_ihl4 iph = 0x45" "total_length iph = hton16 (of_nat (20 + length (udp_header_bytes udph @ data)))"
    "ip_checksum iph = ipv4_checksum (iph\<lparr>ip_checksum := 0\<rparr>) [] 0" "20 + length (udp_header_bytes udph @ data) \<le> 65535"
    "udp_length udph = hton16 (of_nat (8 + length data))" "8 + length data \<le> 65535" "protocol iph = 17"
    using assms by (auto simp: udp4_headers_ok_def)
  show "ipv4_check (udp4_packet iph udph data) = Some (iph, udp_header_bytes udph @ data)"
    using ipv4_check_build [OF a(1-4), of "[]"] by (simp add: udp4_packet_def)
  show "udp_check (udp_header_bytes udph @ data) = Some (udph, data)"
    using udp_check_build [OF a(5,6), of "[]"] by simp
  show "drop_bit 4 (udp4_packet iph udph data ! 0) = 4" "udp4_packet iph udph data ! 9 = 17"
    by (simp_all add: udp4_packet_def ipv4_header_bytes_nth a)
  show "20 \<le> length (udp4_packet iph udph data)" "udp4_packet iph udph data \<noteq> []"
    by (simp_all add: udp4_packet_def flip: length_greater_0_conv)
qed

lemma process_udp_of_packet:
  assumes "udp4_headers_ok iph udph data" "opt_udpgw opts" "length data \<le> udp_mtu opts"
  shows "process_device_udp_packet opts (udp4_packet iph udph data) =
    Some (BADDR_IPV4 (source_address iph) (source_port udph), BADDR_IPV4 (destination_address iph) (dest_port udph),
      opt_transparent_dns opts \<and> destination_address iph = netif_ipaddr opts \<and> dest_port udph = hton16 53, data)"
  using assms(2,3) udp4_packet_parses [OF assms(1)] assms(1)
  by (simp add: process_device_udp_packet_def Let_def BAddr_InitIPv4_def BAddr_MakeIPv4_def udp4_headers_ok_def)

subsection \<open>Datagrams through the relay\<close>

lemma received_ipv4:
  assumes "udpgw_client_handler_received opts (BADDR_IPV4 lip lport) (BADDR_IPV4 rip rport) data = Some packet"
  shows "\<exists>iph udph. packet = udp4_packet iph udph data \<and> udp4_headers_ok iph udph data \<and>
    source_address iph = rip \<and> destination_address iph = lip \<and> source_port udph = rport \<and> dest_port udph = lport"
proof -
  define iph0 where "iph0 = \<lparr>version4_ihl4 = 0x45, ds = 0, total_length = hton16 (of_nat (28 + length data)),
      identification = 0, flags3_fragmentoffset13 = 0, ttl = 64, protocol = 17, ip_checksum = 0,
      source_address = rip, destination_address = lip\<rparr>"
  define udph0 where "udph0 = \<lparr>source_port = rport, dest_port = lport,
      udp_length = hton16 (of_nat (8 + length data)), udp_cksum = 0\<rparr>"
  define iph where "iph = iph0\<lparr>ip_checksum := ipv4_checksum iph0 [] 0\<rparr>"
  define udph where "udph = udph0\<lparr>udp_cksum := udp_checksum udph0 data (length data) rip lip\<rparr>"
  have 0: "iph0\<lparr>ip_checksum := 0\<rparr> = iph0" "udph0\<lparr>udp_cksum := 0\<rparr> = udph0"
    by (simp_all add: iph0_def udph0_def)
  have "packet = udp4_packet iph udph data" "28 + length data \<le> 65535"
    using assms
    by (auto simp: udpgw_client_handler_received_def Let_def udp4_packet_def iph_def udph_def iph0_def udph0_def
        IPV4_MAKE_VERSION_IHL_def hton8_def split: if_splits)
  moreover have "udp4_headers_ok iph udph data"
    using \<open>28 + length data \<le> 65535\<close>
    by (simp add: udp4_headers_ok_def iph_def udph_def 0) (simp add: iph0_def udph0_def)
  moreover have "source_address iph = rip" "destination_address iph = lip" "source_port udph = rport" "dest_port udph = lport"
    by (simp_all add: iph_def udph_def iph0_def udph0_def)
  ultimately show ?thesis by blast
qed

lemma ipv6_header_bytes_nth:
  "(ipv6_header_bytes h @ r) ! 0 = version4_tc4 h" "(ipv6_header_bytes h @ r) ! 6 = next_header h"
  by (simp_all add: ipv6_header_bytes_def mem_bytes16_def)

lemma received_ipv6:
  assumes "udpgw_client_handler_received opts (BADDR_IPV6 lip lport) (BADDR_IPV6 rip rport) data = Some packet"
    and len: "length lip = 16" "length rip = 16" and "opt_udpgw opts" "length data \<le> udp_mtu opts"
  shows "length packet \<le> tap_mtu opts"
    and "process_device_udp_packet opts packet = Some (BADDR_IPV6 rip rport, BADDR_IPV6 lip lport, False, data)"
proof -
  define iph where "iph = \<lparr>version4_tc4 = 0x60, tc4_fl4 = 0, fl = 0,
      payload_length = hton16 (of_nat (8 + length data)), next_header = 17, hop_limit = 64,
      source_address6 = rip, destination_address6 = lip\<rparr>"
  define udph where "udph = \<lparr>source_port = rport, dest_port = lport, udp_length = hton16 (of_nat (8 + length data)),
      udp_cksum = udp_ip6_checksum \<lparr>source_port = rport, dest_port = lport,
        udp_length = hton16 (of_nat (8 + length data)), udp_cksum = 0\<rparr> data (length data) rip lip\<rparr>"
  have p: "packet = ipv6_header_bytes iph @ udp_header_bytes udph @ data" and ip6: "opt_netif_ip6addr opts"
    and b: "8 + length data \<le> 65535" "48 + length data \<le> tap_mtu opts"
    using assms(1) len
    by (auto simp: udpgw_client_handler_received_def Let_def iph_def udph_def hton8_def split: if_splits)
  have 6: "length (source_address6 iph) = 16" "length (destination_address6 iph) = 16"
    using len by (simp_all add: iph_def)
  show "length packet \<le> tap_mtu opts" using b by (simp add: p length_ipv6_header_bytes [OF 6])
  have "payload_length iph = hton16 (of_nat (length (udp_header_bytes udph @ data)))"
    by (simp add: iph_def)
  then have c6: "ipv6_check packet = Some (iph, udp_header_bytes udph @ data)"
    using ipv6_check_build [of iph "udp_header_bytes udph @ data" "[]"] 6 b by (simp add: p) (simp add: iph_def)
  have cu: "udp_check (udp_header_bytes udph @ data) = Some (udph, data)"
    using udp_check_build [of udph data "[]"] b by (simp add: udph_def)
  have "packet ! 0 = 0x60" "packet ! 6 = 17" "40 \<le> length packet" "packet \<noteq> []"
    using length_ipv6_header_bytes [OF 6] by (simp_all add: p ipv6_header_bytes_nth iph_def flip: length_greater_0_conv)
  then show "process_device_udp_packet opts packet = Some (BADDR_IPV6 rip rport, BADDR_IPV6 lip lport, False, data)"
    using c6 cu assms(4,5) ip6 len
    by (simp add: process_device_udp_packet_def Let_def udph_def iph_def BAddr_InitIPv6_def BAddr_MakeIPv6_def)
qed

text \<open>C32.  A datagram delivered by the relay is wrapped into a packet that the program's own
  parser, and so any receiver that checks lengths and checksums, reads back: the addresses and
  ports are the given ones with the remote side as source, the payload is unchanged, and the
  packet fits the device MTU.  IPv4 and IPv6.\<close>

theorem received_packet_roundtrip:
  assumes "udpgw_client_handler_received opts local_addr remote_addr data = Some packet"
    and "BAddr_ok local_addr" "BAddr_ok remote_addr" and "opt_udpgw opts" "length data \<le> udp_mtu opts"
  shows "length packet \<le> tap_mtu opts \<and>
    (\<exists>is_dns. process_device_udp_packet opts packet = Some (remote_addr, local_addr, is_dns, data))"
proof -
  consider (v4) lip lport rip rport where "local_addr = BADDR_IPV4 lip lport" "remote_addr = BADDR_IPV4 rip rport"
    | (v6) lip lport rip rport where "local_addr = BADDR_IPV6 lip lport" "remote_addr = BADDR_IPV6 rip rport"
    using assms(1) by (auto simp: udpgw_client_handler_received_def split: BAddr.splits)
  then show ?thesis
  proof cases
    case v4
    with received_ipv4 [of opts lip lport rip rport data packet] assms(1) obtain iph udph where
      p: "packet = udp4_packet iph udph data" "udp4_headers_ok iph udph data"
        "source_address iph = rip" "destination_address iph = lip" "source_port udph = rport" "dest_port udph = lport"
      by auto
    have "length packet \<le> tap_mtu opts"
      using assms(1) v4 by (auto simp: udpgw_client_handler_received_def Let_def split: if_splits)
    with process_udp_of_packet [OF p(2) assms(4,5)] p v4 show ?thesis by auto
  next
    case v6
    with received_ipv6 [of opts lip lport rip rport data packet] assms show ?thesis by auto
  qed
qed

subsection \<open>DNS redirection\<close>

text \<open>The headers with both checksums computed, as the end of \<^verbatim>\<open>process_device_dns_packet\<close> does.\<close>

definition seal_ip :: "ipv4_header \<Rightarrow> ipv4_header" where
  "seal_ip iph = iph\<lparr>ip_checksum := ipv4_checksum (iph\<lparr>ip_checksum := 0\<rparr>) [] 0\<rparr>"

definition seal_udp :: "ipv4_header \<Rightarrow> udp_header \<Rightarrow> byte list \<Rightarrow> udp_header" where
  "seal_udp iph udph data =
     udph\<lparr>udp_cksum := udp_checksum (udph\<lparr>udp_cksum := 0\<rparr>) data (length data) (source_address iph) (destination_address iph)\<rparr>"

lemma seal_ok:
  assumes "version4_ihl4 iph = 0x45" "protocol iph = 17" "total_length iph = hton16 (of_nat (28 + length data))"
    "udp_length udph = hton16 (of_nat (8 + length data))" "28 + length data \<le> 65535"
  shows "udp4_headers_ok (seal_ip iph) (seal_udp iph udph data) data"
  using assms by (simp add: udp4_headers_ok_def seal_ip_def seal_udp_def)

definition dns_ready :: "dev_state \<Rightarrow> dev_state" where
  "dns_ready st = (if dns_init st then st else st\<lparr>dns_init := True, connections_tree := (\<lambda>_. None)\<rparr>)"

lemma dns_query_step:
  assumes ok: "udp4_headers_ok iph udph data" and gw: "opt_dnsgw opts = Some (gip, gport)"
    and q: "dest_port udph = hton16 53"
  shows "process_device_dns_packet opts st (udp4_packet iph udph data) =
    (let st = dns_ready st;
         iph' = iph\<lparr>destination_address := gip, source_address := netif_ipaddr opts\<rparr>;
         udph' = udph\<lparr>dest_port := gport\<rparr>
     in Some (st\<lparr>connections_tree := insert_connection (BADDR_IPV4 (source_address iph) (source_port udph))
                  (BADDR_IPV4 (destination_address iph) (dest_port udph)) (source_port udph) (connections_tree st)\<rparr>,
              udp4_packet (seal_ip iph') (seal_udp iph' udph' data) data))"
  using udp4_packet_parses [OF ok] ok gw q
  by (simp add: process_device_dns_packet_def Let_def udp4_headers_ok_def seal_ip_def seal_udp_def
      udp4_packet_def [of "_ \<lparr>ip_checksum := _\<rparr>"] BAddr_InitIPv4_def BAddr_MakeIPv4_def dns_ready_def)

lemma dns_reply_step:
  assumes ok: "udp4_headers_ok iph udph data" and gw: "opt_dnsgw opts = Some (gip, gport)"
    and r: "dest_port udph \<noteq> hton16 53" "source_port udph = gport"
    and t: "dns_init st" "connections_tree st (dest_port udph) = Some con"
  shows "process_device_dns_packet opts st (udp4_packet iph udph data) =
    (let iph' = iph\<lparr>source_address := ip4 (con_remote_addr con), destination_address := ip4 (con_local_addr con)\<rparr>;
         udph' = udph\<lparr>source_port := port4 (con_remote_addr con)\<rparr>
     in Some (st\<lparr>connections_tree := remove_connection con (connections_tree st)\<rparr>,
              udp4_packet (seal_ip iph') (seal_udp iph' udph' data) data))"
  using udp4_packet_parses [OF ok] ok gw r t
  by (simp add: process_device_dns_packet_def Let_def udp4_headers_ok_def seal_ip_def seal_udp_def
      udp4_packet_def [of "_ \<lparr>ip_checksum := _\<rparr>"] find_connection_def)

text \<open>DNS redirection translates back and forth.  A query from a source port without an
  outstanding query is sent on to the DNS gateway from the interface address, as a well-formed
  packet with the same payload; the gateway's reply to that port is delivered to the client as
  a well-formed packet from the server and port the client asked; and the table is then as
  before the query.\<close>

theorem dns_redirection_roundtrip:
  assumes q: "udp4_headers_ok qi qu qd" "dest_port qu = hton16 53"
    and r: "udp4_headers_ok ri ru rd" "source_port ru = gport" "dest_port ru = source_port qu" "source_port qu \<noteq> hton16 53"
    and gw: "opt_dnsgw opts = Some (gip, gport)"
    and free: "dns_init st" "connections_tree st (source_port qu) = None"
  shows "\<exists>st1 i1 u1 st2 i2 u2.
    process_device_dns_packet opts st (udp4_packet qi qu qd) = Some (st1, udp4_packet i1 u1 qd) \<and>
    udp4_headers_ok i1 u1 qd \<and> source_address i1 = netif_ipaddr opts \<and> source_port u1 = source_port qu \<and>
    destination_address i1 = gip \<and> dest_port u1 = gport \<and>
    process_device_dns_packet opts st1 (udp4_packet ri ru rd) = Some (st2, udp4_packet i2 u2 rd) \<and>
    udp4_headers_ok i2 u2 rd \<and> source_address i2 = destination_address qi \<and> source_port u2 = dest_port qu \<and>
    destination_address i2 = source_address qi \<and> dest_port u2 = source_port qu \<and> st2 = st"
proof -
  define st1 where "st1 = st\<lparr>connections_tree := insert_connection (BADDR_IPV4 (source_address qi) (source_port qu))
      (BADDR_IPV4 (destination_address qi) (dest_port qu)) (source_port qu) (connections_tree st)\<rparr>"
  define con where "con = \<lparr>con_local_addr = BADDR_IPV4 (source_address qi) (source_port qu),
      con_remote_addr = BADDR_IPV4 (destination_address qi) (dest_port qu), con_port = source_port qu, con_count = 1\<rparr>"
  define qi' where "qi' = qi\<lparr>destination_address := gip, source_address := netif_ipaddr opts\<rparr>"
  define qu' where "qu' = qu\<lparr>dest_port := gport\<rparr>"
  define ri' where "ri' = ri\<lparr>source_address := destination_address qi, destination_address := source_address qi\<rparr>"
  define ru' where "ru' = ru\<lparr>source_port := dest_port qu\<rparr>"
  have tab: "connections_tree st1 (dest_port ru) = Some con" "dns_init st1"
    using free r by (simp_all add: st1_def con_def insert_connection_def find_connection_def)
  have "st1\<lparr>connections_tree := remove_connection con (connections_tree st1)\<rparr> = st"
    using free by (simp add: st1_def con_def remove_connection_def insert_connection_def find_connection_def fun_upd_idem)
  with dns_reply_step [OF r(1) gw _ r(2) tab(2,1)] r have
    2: "process_device_dns_packet opts st1 (udp4_packet ri ru rd) =
      Some (st, udp4_packet (seal_ip ri') (seal_udp ri' ru' rd) rd)"
    by (simp add: ri'_def ru'_def con_def Let_def)
  have 1: "process_device_dns_packet opts st (udp4_packet qi qu qd) =
      Some (st1, udp4_packet (seal_ip qi') (seal_udp qi' qu' qd) qd)"
    using dns_query_step [OF q(1) gw q(2), of st] free by (simp add: st1_def qi'_def qu'_def dns_ready_def Let_def)
  have "udp4_headers_ok (seal_ip qi') (seal_udp qi' qu' qd) qd" "udp4_headers_ok (seal_ip ri') (seal_udp ri' ru' rd) rd"
    by (rule seal_ok; use q(1) r(1) in \<open>simp add: udp4_headers_ok_def qi'_def qu'_def ri'_def ru'_def\<close>)+
  with 1 2 r(3) show ?thesis
    by (intro exI [of _ st1] exI [of _ "seal_ip qi'"] exI [of _ "seal_udp qi' qu' qd"] exI [of _ st]
        exI [of _ "seal_ip ri'"] exI [of _ "seal_udp ri' ru' rd"])
       (simp add: seal_ip_def seal_udp_def qi'_def qu'_def ri'_def ru'_def)
qed

subsection \<open>The table invariant\<close>

definition con_table_ok :: "con_table \<Rightarrow> bool" where
  "con_table_ok t \<longleftrightarrow> (\<forall>p c. t p = Some c \<longrightarrow> con_port c = p \<and> 0 < con_count c)"

text \<open>Queries sent to the gateway and not yet answered, by source port.\<close>

definition outstanding_queries :: "con_table \<Rightarrow> u16 \<Rightarrow> int" where
  "outstanding_queries t p = (case t p of None \<Rightarrow> 0 | Some c \<Rightarrow> con_count c)"

lemma insert_connection_counts:
  assumes "con_table_ok t"
  shows "con_table_ok (insert_connection l r p t)"
    and "outstanding_queries (insert_connection l r p t) = (outstanding_queries t)(p := outstanding_queries t p + 1)"
proof -
  have pos: "0 < con_count c + 1" if "t p = Some c" for c
  proof -
    have "0 < con_count c" using assms that by (auto simp: con_table_ok_def)
    then show ?thesis by simp
  qed
  show "con_table_ok (insert_connection l r p t)"
    using assms pos by (auto simp: con_table_ok_def insert_connection_def find_connection_def split: option.splits)
  show "outstanding_queries (insert_connection l r p t) = (outstanding_queries t)(p := outstanding_queries t p + 1)"
    by (auto simp: insert_connection_def find_connection_def outstanding_queries_def fun_eq_iff split: option.splits)
qed

lemma remove_connection_counts:
  assumes "con_table_ok t" "t p = Some con"
  shows "con_table_ok (remove_connection con t)"
    and "outstanding_queries (remove_connection con t) = (outstanding_queries t)(p := outstanding_queries t p - 1)"
    and "0 < outstanding_queries t p"
proof -
  have c: "con_port con = p" "0 < con_count con" using assms by (auto simp: con_table_ok_def)
  show "con_table_ok (remove_connection con t)"
    using assms c by (auto simp: con_table_ok_def remove_connection_def Let_def)
  show "outstanding_queries (remove_connection con t) = (outstanding_queries t)(p := outstanding_queries t p - 1)"
    using assms(2) c by (auto simp: remove_connection_def Let_def outstanding_queries_def fun_eq_iff)
  show "0 < outstanding_queries t p" using assms(2) c by (simp add: outstanding_queries_def)
qed

text \<open>Every successful call of \<^verbatim>\<open>process_device_dns_packet\<close> has one of two forms.\<close>

lemma dns_packet_cases:
  assumes "process_device_dns_packet opts st data = Some (st', packet)"
  shows "(\<exists>l r p. st' = (dns_ready st)\<lparr>connections_tree := insert_connection l r p (connections_tree (dns_ready st))\<rparr>) \<or>
    (\<exists>p con. dns_init st \<and> connections_tree st p = Some con \<and>
       st' = st\<lparr>connections_tree := remove_connection con (connections_tree st)\<rparr>)"
proof -
  obtain gip gport iph ipd udph payload where p:
    "opt_dnsgw opts = Some (gip, gport)" "ipv4_check data = Some (iph, ipd)" "udp_check ipd = Some (udph, payload)"
    using assms by (auto simp: process_device_dns_packet_def Let_def split: option.splits if_splits)
  show ?thesis
  proof (cases "dest_port udph = hton16 53")
    case True
    with assms p have "st' = (dns_ready st)\<lparr>connections_tree := insert_connection
        (BAddr_InitIPv4 (source_address iph) (source_port udph)) (BAddr_InitIPv4 (destination_address iph) (hton16 53))
        (source_port udph) (connections_tree (dns_ready st))\<rparr>"
      by (auto simp: process_device_dns_packet_def Let_def dns_ready_def split: if_splits)
    then show ?thesis by blast
  next
    case False
    with assms p obtain con where "dns_init st" "connections_tree st (dest_port udph) = Some con"
        "st' = st\<lparr>connections_tree := remove_connection con (connections_tree st)\<rparr>"
      by (auto simp: process_device_dns_packet_def Let_def find_connection_def split: if_splits option.splits)
    then show ?thesis by blast
  qed
qed

text \<open>The query table counts outstanding queries: every packet the DNS redirection handles
  either records one more query for exactly one source port or takes one back from a port that
  had one, and leaves the other ports alone; no entry has a count below one, so an entry
  disappears exactly with its last outstanding query.\<close>

theorem dns_table_counts:
  assumes "process_device_dns_packet opts st data = Some (st', packet)"
    and "dns_init st" "con_table_ok (connections_tree st)"
  shows "dns_init st' \<and> con_table_ok (connections_tree st') \<and>
    (\<exists>p. outstanding_queries (connections_tree st') =
           (outstanding_queries (connections_tree st))(p := outstanding_queries (connections_tree st) p + 1) \<or>
         0 < outstanding_queries (connections_tree st) p \<and>
         outstanding_queries (connections_tree st') =
           (outstanding_queries (connections_tree st))(p := outstanding_queries (connections_tree st) p - 1))"
  using dns_packet_cases [OF assms(1)]
proof (elim disjE exE conjE)
  fix l r p
  assume "st' = (dns_ready st)\<lparr>connections_tree := insert_connection l r p (connections_tree (dns_ready st))\<rparr>"
  with insert_connection_counts [OF assms(3), of l r p] assms(2) show ?thesis
    by (auto simp: dns_ready_def)
next
  fix p con
  assume "connections_tree st p = Some con" "st' = st\<lparr>connections_tree := remove_connection con (connections_tree st)\<rparr>"
  with remove_connection_counts [OF assms(3), of p con] assms(2) show ?thesis by auto
qed

subsection \<open>Limits of the redirection\<close>

lemma dns_packet_shape:
  assumes "process_device_dns_packet opts st data = Some (st', packet)" and "ipv4_check data = Some (iph, ipd)"
  shows "\<exists>iph' udph payload. packet = ipv4_header_bytes iph' @ udp_header_bytes udph @ payload \<and>
    total_length iph' = total_length iph \<and> 8 + length payload \<le> length ipd \<and> version4_ihl4 iph' = version4_ihl4 iph"
proof -
  obtain gip gport udph payload where p: "opt_dnsgw opts = Some (gip, gport)" "udp_check ipd = Some (udph, payload)"
    using assms by (auto simp: process_device_dns_packet_def Let_def split: option.splits if_splits)
  have "\<exists>iph' udph'. packet = ipv4_header_bytes iph' @ udp_header_bytes udph' @ payload \<and>
      total_length iph' = total_length iph \<and> version4_ihl4 iph' = version4_ihl4 iph"
  proof (cases "dest_port udph = hton16 53")
    case True
    let ?i = "iph\<lparr>destination_address := gip, source_address := netif_ipaddr opts\<rparr>"
    from True assms p have "packet = ipv4_header_bytes (seal_ip ?i) @
        udp_header_bytes (seal_udp ?i (udph\<lparr>dest_port := gport\<rparr>) payload) @ payload"
      by (simp add: process_device_dns_packet_def Let_def seal_ip_def seal_udp_def split: if_splits)
    then show ?thesis by (intro exI conjI) (assumption, simp_all add: seal_ip_def)
  next
    case False
    with assms p obtain con where con: "connections_tree st (dest_port udph) = Some con"
      by (auto simp: process_device_dns_packet_def Let_def find_connection_def split: if_splits option.splits)
    let ?i = "iph\<lparr>source_address := ip4 (con_remote_addr con), destination_address := ip4 (con_local_addr con)\<rparr>"
    from False con assms p have "packet = ipv4_header_bytes (seal_ip ?i) @
        udp_header_bytes (seal_udp ?i (udph\<lparr>source_port := port4 (con_remote_addr con)\<rparr>) payload) @ payload"
      by (simp add: process_device_dns_packet_def Let_def seal_ip_def seal_udp_def find_connection_def split: if_splits)
    then show ?thesis by (intro exI conjI) (assumption, simp_all add: seal_ip_def)
  qed
  with udp_check_sound [OF p(2)] show ?thesis by blast
qed

text \<open>The redirection copies only the first 20 bytes of the IP header but keeps its length
  fields: a DNS query that arrives with IP options is accepted and forwarded as a packet whose
  announced total length exceeds its size, which \<^verbatim>\<open>ipv4_check\<close> itself rejects.\<close>

theorem dns_redirection_ip_options:
  assumes "process_device_dns_packet opts st data = Some (st', packet)"
    and "ipv4_check data = Some (iph, ipd)" and "5 < unat (IPV4_GET_IHL iph)"
  shows "ipv4_check packet = None"
proof (rule ccontr)
  assume "ipv4_check packet \<noteq> None"
  then obtain h p where hp: "ipv4_check packet = Some (h, p)" by (cases "ipv4_check packet") auto
  from dns_packet_shape [OF assms(1,2)] obtain iph' udph payload where
    k: "packet = ipv4_header_bytes iph' @ udp_header_bytes udph @ payload" "total_length iph' = total_length iph"
      "8 + length payload \<le> length ipd" by blast
  have "ipv4_header_bytes h = take 20 packet" using ipv4_check_SomeD [OF hp] by blast
  then have "ipv4_header_bytes h = ipv4_header_bytes iph'" by (simp add: k(1))
  then have "h = iph'" using ipv4_header_of_bytes [of h "[]"] ipv4_header_of_bytes [of iph' "[]"] by simp
  then have "unat (ntoh16 (total_length iph)) \<le> length packet" using ipv4_check_SomeD [OF hp] k(2) by auto
  moreover have "unat (IPV4_GET_IHL iph) * 4 + length ipd = unat (ntoh16 (total_length iph))"
    using ipv4_check_SomeD [OF assms(2)] by auto
  ultimately show False using assms(3) k by simp
qed

text \<open>Entries of the query table are keyed by the source port alone: when a query from a port
  to server \<open>r1\<close> is outstanding and another one goes from the same port to a different server,
  the gateway's next reply to that port is delivered as coming from \<open>r1\<close>.\<close>

theorem dns_reply_from_first_server:
  assumes q: "udp4_headers_ok qi qu qd" "dest_port qu = hton16 53"
    and r: "udp4_headers_ok ri ru rd" "source_port ru = gport" "dest_port ru = source_port qu" "source_port qu \<noteq> hton16 53"
    and gw: "opt_dnsgw opts = Some (gip, gport)"
    and busy: "dns_init st" "connections_tree st (source_port qu) = Some con" "con_remote_addr con = BADDR_IPV4 r1 rp"
  shows "\<exists>st1 out st2 i u. process_device_dns_packet opts st (udp4_packet qi qu qd) = Some (st1, out) \<and>
    process_device_dns_packet opts st1 (udp4_packet ri ru rd) = Some (st2, udp4_packet i u rd) \<and> source_address i = r1"
proof -
  define st1 where "st1 = st\<lparr>connections_tree := insert_connection (BADDR_IPV4 (source_address qi) (source_port qu))
      (BADDR_IPV4 (destination_address qi) (dest_port qu)) (source_port qu) (connections_tree st)\<rparr>"
  have tab: "connections_tree st1 (dest_port ru) = Some (con\<lparr>con_count := con_count con + 1\<rparr>)" "dns_init st1"
    using busy r by (simp_all add: st1_def insert_connection_def find_connection_def)
  have "\<exists>out. process_device_dns_packet opts st (udp4_packet qi qu qd) = Some (st1, out)"
    using dns_query_step [OF q(1) gw q(2), of st] busy by (simp add: st1_def dns_ready_def Let_def)
  moreover have "\<exists>st2 i u. process_device_dns_packet opts st1 (udp4_packet ri ru rd) = Some (st2, udp4_packet i u rd) \<and>
      source_address i = r1"
    using dns_reply_step [OF r(1) gw _ r(2) tab(2,1)] r busy(3) by (auto simp: Let_def seal_ip_def)
  ultimately show ?thesis by blast
qed

subsection \<open>Examples\<close>

definition ex_opts :: dev_options where
  "ex_opts = \<lparr>opt_dnsgw = Some (5, 6), opt_udpgw = True, opt_transparent_dns = False, opt_netif_ip6addr = True,
     netif_ipaddr = 7, udp_mtu = 100, tap_mtu = 1500\<rparr>"

definition ex_iph0 :: "byte list \<Rightarrow> u32 \<Rightarrow> u32 \<Rightarrow> ipv4_header" where
  "ex_iph0 data sa da = \<lparr>version4_ihl4 = 0x45, ds = 0, total_length = hton16 (of_nat (28 + length data)), identification = 0,
     flags3_fragmentoffset13 = 0, ttl = 64, protocol = 17, ip_checksum = 0, source_address = sa, destination_address = da\<rparr>"

definition ex_udph0 :: "byte list \<Rightarrow> u16 \<Rightarrow> u16 \<Rightarrow> udp_header" where
  "ex_udph0 data sp dp =
     \<lparr>source_port = sp, dest_port = dp, udp_length = hton16 (of_nat (8 + length data)), udp_cksum = 0\<rparr>"

definition ex_iph where "ex_iph data sa da = seal_ip (ex_iph0 data sa da)"
definition ex_udph where "ex_udph data sa da sp dp = seal_udp (ex_iph0 data sa da) (ex_udph0 data sp dp) data"

lemma ex_packet_ok: "28 + length data \<le> 65535 \<Longrightarrow> udp4_headers_ok (ex_iph data sa da) (ex_udph data sa da sp dp) data"
  unfolding ex_iph_def ex_udph_def by (rule seal_ok) (simp_all add: ex_iph0_def ex_udph0_def)

lemma ex_packet_fields [simp]:
  "source_address (ex_iph data sa da) = sa" "destination_address (ex_iph data sa da) = da"
  "source_port (ex_udph data sa da sp dp) = sp" "dest_port (ex_udph data sa da sp dp) = dp"
  by (simp_all add: ex_iph_def ex_udph_def seal_ip_def seal_udp_def ex_iph0_def ex_udph0_def)

lemma hton16_neq_53: "2 \<noteq> hton16 53"
  by (simp add: hton16_def badvpn_reverse16_def mem_bytes16_def badvpn_read_le16_def)

definition ex_st :: dev_state where
  "ex_st = \<lparr>dns_init = True, connections_tree = (\<lambda>_. None)\<rparr>"

definition ex_st_busy :: dev_state where
  "ex_st_busy = \<lparr>dns_init = True, connections_tree = [2 \<mapsto> \<lparr>con_local_addr = BADDR_IPV4 1 2,
     con_remote_addr = BADDR_IPV4 3 4, con_port = 2, con_count = 1\<rparr>]\<rparr>"

theorem received_packet_roundtrip_witness:
  "\<exists>packet is_dns. udpgw_client_handler_received ex_opts (BADDR_IPV4 1 2) (BADDR_IPV4 3 4) [9] = Some packet \<and>
     process_device_udp_packet ex_opts packet = Some (BADDR_IPV4 3 4, BADDR_IPV4 1 2, is_dns, [9])"
proof -
  obtain packet where p: "udpgw_client_handler_received ex_opts (BADDR_IPV4 1 2) (BADDR_IPV4 3 4) [9] = Some packet"
    by (auto simp: udpgw_client_handler_received_def ex_opts_def Let_def)
  from received_packet_roundtrip [OF p] p show ?thesis by (auto simp: ex_opts_def)
qed

theorem dns_redirection_roundtrip_witness:
  "\<exists>st1 i1 u1 i2 u2.
    process_device_dns_packet ex_opts ex_st (udp4_packet (ex_iph [8] 1 3) (ex_udph [8] 1 3 2 (hton16 53)) [8]) =
      Some (st1, udp4_packet i1 u1 [8]) \<and> destination_address i1 = 5 \<and>
    process_device_dns_packet ex_opts st1 (udp4_packet (ex_iph [9] 5 7) (ex_udph [9] 5 7 6 2) [9]) =
      Some (ex_st, udp4_packet i2 u2 [9]) \<and> source_address i2 = 3 \<and> destination_address i2 = 1"
proof -
  have "udp4_headers_ok (ex_iph [8] 1 3) (ex_udph [8] 1 3 2 (hton16 53)) [8]"
    "udp4_headers_ok (ex_iph [9] 5 7) (ex_udph [9] 5 7 6 2) [9]"
    by (rule ex_packet_ok; simp)+
  from dns_redirection_roundtrip [OF this(1) _ this(2), of 6 ex_opts 5 ex_st] hton16_neq_53 show ?thesis
    by (auto simp: ex_opts_def ex_st_def)
qed

theorem dns_reply_from_first_server_witness:
  "\<exists>st1 out st2 i u.
    process_device_dns_packet ex_opts ex_st_busy (udp4_packet (ex_iph [8] 1 9) (ex_udph [8] 1 9 2 (hton16 53)) [8]) =
      Some (st1, out) \<and>
    process_device_dns_packet ex_opts st1 (udp4_packet (ex_iph [9] 5 7) (ex_udph [9] 5 7 6 2) [9]) =
      Some (st2, udp4_packet i u [9]) \<and> source_address i = 3"
proof -
  have "udp4_headers_ok (ex_iph [8] 1 9) (ex_udph [8] 1 9 2 (hton16 53)) [8]"
    "udp4_headers_ok (ex_iph [9] 5 7) (ex_udph [9] 5 7 6 2) [9]"
    by (rule ex_packet_ok; simp)+
  from dns_reply_from_first_server [OF this(1) _ this(2), of 6 ex_opts 5 ex_st_busy _ 3 4] hton16_neq_53 show ?thesis
    by (auto simp: ex_opts_def ex_st_busy_def)
qed

theorem dns_table_counts_witness:
  "\<exists>st' packet. process_device_dns_packet ex_opts ex_st (udp4_packet (ex_iph [8] 1 3) (ex_udph [8] 1 3 2 (hton16 53)) [8]) =
     Some (st', packet) \<and> con_table_ok (connections_tree st')"
proof -
  have "udp4_headers_ok (ex_iph [8] 1 3) (ex_udph [8] 1 3 2 (hton16 53)) [8]" by (rule ex_packet_ok) simp
  then obtain st' packet where p: "process_device_dns_packet ex_opts ex_st
      (udp4_packet (ex_iph [8] 1 3) (ex_udph [8] 1 3 2 (hton16 53)) [8]) = Some (st', packet)"
    using dns_query_step [of "ex_iph [8] 1 3" "ex_udph [8] 1 3 2 (hton16 53)" "[8]" ex_opts 5 6 ex_st]
    by (auto simp: ex_opts_def Let_def)
  from dns_table_counts [OF p] p show ?thesis by (auto simp: ex_st_def con_table_ok_def)
qed

definition ex_opt_iph :: ipv4_header where
  "ex_opt_iph = (let h = (ex_iph0 [8, 9, 8, 9, 8] 1 3)\<lparr>version4_ihl4 := 0x46\<rparr> in h\<lparr>ip_checksum := ipv4_checksum h [1, 1, 1, 1] 4\<rparr>)"

definition ex_opt_data :: "byte list" where
  "ex_opt_data = ipv4_header_bytes ex_opt_iph @ [1, 1, 1, 1] @ udp_header_bytes (ex_udph [8] 1 3 2 (hton16 53)) @ [8]"

lemma ex_opt_check:
  "ipv4_check ex_opt_data = Some (ex_opt_iph, udp_header_bytes (ex_udph [8] 1 3 2 (hton16 53)) @ [8])"
proof -
  have v: "IPV4_GET_VERSION ex_opt_iph = 4" "unat (IPV4_GET_IHL ex_opt_iph) = 6"
    by (simp_all add: IPV4_GET_VERSION_def IPV4_GET_IHL_def ex_opt_iph_def Let_def)
  have t: "unat (ntoh16 (total_length ex_opt_iph)) = 33"
    using unat_ntoh_length [of 33] by (simp add: ex_opt_iph_def ex_iph0_def Let_def)
  have "ip_checksum ex_opt_iph = ipv4_checksum (ex_opt_iph\<lparr>ip_checksum := 0\<rparr>) (drop 20 ex_opt_data) 4"
    by (simp add: ex_opt_data_def ipv4_checksum_eq) (simp add: ex_opt_iph_def Let_def ipv4_checksum_eq ex_iph0_def)
  then show ?thesis using v t
    by (simp add: ipv4_check_def Let_def) (simp add: ex_opt_data_def slice_def)
qed

theorem dns_redirection_ip_options_witness:
  "\<exists>st' packet. process_device_dns_packet ex_opts ex_st ex_opt_data = Some (st', packet) \<and> ipv4_check packet = None"
proof -
  let ?u = "ex_udph [8] 1 3 2 (hton16 53)"
  have ok: "udp4_headers_ok (ex_iph [8] 1 3) ?u [8]" by (rule ex_packet_ok) simp
  note u = udp4_packet_parses(2) [OF ok]
  have c: "udp_cksum ?u = udp_checksum (?u\<lparr>udp_cksum := 0\<rparr>) [8] (length [8 :: byte]) 1 3"
    using ok by (simp add: udp4_headers_ok_def)
  have b: "drop_bit 4 (ex_opt_data ! 0) = 4" "ex_opt_data ! 9 = 17" "20 \<le> length ex_opt_data" "ex_opt_data \<noteq> []"
    by (simp_all add: ex_opt_data_def ipv4_header_bytes_nth flip: length_greater_0_conv)
       (simp_all add: ex_opt_iph_def ex_iph0_def Let_def)
  have a: "source_address ex_opt_iph = 1" "destination_address ex_opt_iph = 3"
    by (simp_all add: ex_opt_iph_def ex_iph0_def Let_def)
  obtain st' packet where p: "process_device_dns_packet ex_opts ex_st ex_opt_data = Some (st', packet)"
    using ex_opt_check u b c a by (simp add: process_device_dns_packet_def ex_opts_def Let_def)
  have "5 < unat (IPV4_GET_IHL ex_opt_iph)" by (simp add: IPV4_GET_IHL_def ex_opt_iph_def Let_def)
  from dns_redirection_ip_options [OF p ex_opt_check this] p show ?thesis by blast
qed

end
