(* ===== verification/SocksClient.thy ===== *)
theory SocksClient
  imports Addr "HOL-Library.Sublist" "HOL-Library.Code_Target_Nat"
begin

text \<open>
  \<^verbatim>\<open>socksclient/BSocksClient.c\<close>: the client side of a SOCKS5 handshake (RFC 1928 and the
  username/password method of RFC 1929) as a state machine over an asynchronous connection.  Every
  allocation may fail, the connection may fail at any time, and the server's bytes arrive in
  arbitrary pieces.  Shown: what is sent and what must have been received when the client reports
  that it is up, that it never takes a byte too many, that a conforming server always brings it up,
  that it always has exactly one operation outstanding, the order of the events it reports (which is
  what the handlers of \<^verbatim>\<open>tun2socks.c\<close> rely on), and that all resources are released once.
\<close>

subsection \<open>Sizes with overflow: \<^verbatim>\<open>misc/bsize.h\<close>\<close>

text \<open>\<open>smax\<close> is \<^verbatim>\<open>SIZE_MAX\<close>, which depends on the platform.\<close>

record bsize_t =
  is_overflow :: bool
  bvalue :: nat

definition bsize_fromsize :: "nat \<Rightarrow> bsize_t" where
  "bsize_fromsize v = \<lparr>is_overflow = False, bvalue = v\<rparr>"

definition bsize_overflow :: bsize_t where
  "bsize_overflow = \<lparr>is_overflow = True, bvalue = 0\<rparr>"

definition bsize_tosize :: "bsize_t \<Rightarrow> nat option" where
  "bsize_tosize s = (if is_overflow s then None else Some (bvalue s))"

definition bsize_toint :: "bsize_t \<Rightarrow> int option" where
  "bsize_toint s = (if is_overflow s \<or> int (bvalue s) > INT_MAX then None else Some (int (bvalue s)))"

definition bsize_add :: "nat \<Rightarrow> bsize_t \<Rightarrow> bsize_t \<Rightarrow> bsize_t" where
  "bsize_add smax s1 s2 = \<lparr>is_overflow = (is_overflow s1 \<or> is_overflow s2 \<or> bvalue s2 > smax - bvalue s1),
     bvalue = (bvalue s1 + bvalue s2) mod (smax + 1)\<rparr>"

definition bsize_max :: "bsize_t \<Rightarrow> bsize_t \<Rightarrow> bsize_t" where
  "bsize_max s1 s2 = \<lparr>is_overflow = (is_overflow s1 \<or> is_overflow s2),
     bvalue = of_bool (bvalue s1 > bvalue s2) * bvalue s1 + of_bool (bvalue s1 \<le> bvalue s2) * bvalue s2\<rparr>"

definition bsize_mul :: "nat \<Rightarrow> bsize_t \<Rightarrow> bsize_t \<Rightarrow> bsize_t" where
  "bsize_mul smax s1 s2 = \<lparr>is_overflow = (is_overflow s1 \<or> is_overflow s2 \<or> (bvalue s1 \<noteq> 0 \<and> bvalue s2 > smax div bvalue s1)),
     bvalue = (bvalue s1 * bvalue s2) mod (smax + 1)\<rparr>"

text \<open>The flag is set exactly when the true size does not fit, and otherwise the value is the true
  size.\<close>

definition bsize_ok :: "nat \<Rightarrow> bsize_t \<Rightarrow> nat \<Rightarrow> bool" where
  "bsize_ok smax s n \<longleftrightarrow> bvalue s \<le> smax \<and> (is_overflow s \<longleftrightarrow> smax < n) \<and> (n \<le> smax \<longrightarrow> bvalue s = n)"

lemma bsize_ok_fromsize: "n \<le> smax \<Longrightarrow> bsize_ok smax (bsize_fromsize n) n"
  by (simp add: bsize_ok_def bsize_fromsize_def)

lemma bsize_ok_add: "bsize_ok smax s1 m \<Longrightarrow> bsize_ok smax s2 n \<Longrightarrow> bsize_ok smax (bsize_add smax s1 s2) (m + n)"
  using mod_less_divisor [of "smax + 1" "bvalue s1 + bvalue s2"]
  by (auto simp: bsize_ok_def bsize_add_def simp del: mod_less_divisor)

lemma bsize_ok_max: "bsize_ok smax s1 m \<Longrightarrow> bsize_ok smax s2 n \<Longrightarrow> bsize_ok smax (bsize_max s1 s2) (max m n)"
  by (auto simp: bsize_ok_def bsize_max_def max_def)

lemma bsize_ok_mul:
  assumes "bsize_ok smax s1 m" "bsize_ok smax s2 n" "m \<le> smax" "n \<le> smax"
  shows "bsize_ok smax (bsize_mul smax s1 s2) (m * n)"
proof -
  have v: "bvalue s1 = m" "bvalue s2 = n" "\<not> is_overflow s1" "\<not> is_overflow s2" using assms by (auto simp: bsize_ok_def)
  have "smax < m * n \<longleftrightarrow> m \<noteq> 0 \<and> smax div m < n"
    by (cases "m = 0") (simp_all add: div_less_iff_less_mult mult.commute)
  moreover have "(m * n) mod (smax + 1) \<le> smax" using mod_less_divisor [of "smax + 1" "m * n"] by linarith
  ultimately show ?thesis by (auto simp: bsize_ok_def bsize_mul_def v)
qed

subsection \<open>State and operations\<close>

abbreviation (input) "SOCKS_VERSION \<equiv> (0x05 :: byte)"
abbreviation (input) "SOCKS_METHOD_NO_AUTHENTICATION_REQUIRED \<equiv> (0x00 :: byte)"
abbreviation (input) "SOCKS_METHOD_USERNAME_PASSWORD \<equiv> (0x02 :: byte)"
abbreviation (input) "SOCKS_CMD_CONNECT \<equiv> (0x01 :: byte)"
abbreviation (input) "SOCKS_ATYP_IPV4 \<equiv> (0x01 :: byte)"
abbreviation (input) "SOCKS_ATYP_IPV6 \<equiv> (0x04 :: byte)"
abbreviation (input) "SOCKS_REP_SUCCEEDED \<equiv> (0x00 :: byte)"

abbreviation (input) "sizeof_socks_client_hello_header \<equiv> (2 :: nat)"
abbreviation (input) "sizeof_socks_client_hello_method \<equiv> (1 :: nat)"
abbreviation (input) "sizeof_socks_server_hello \<equiv> (2 :: nat)"
abbreviation (input) "sizeof_socks_request_header \<equiv> (4 :: nat)"
abbreviation (input) "sizeof_socks_reply_header \<equiv> (4 :: nat)"
abbreviation (input) "sizeof_socks_addr_ipv4 \<equiv> (6 :: nat)"
abbreviation (input) "sizeof_socks_addr_ipv6 \<equiv> (18 :: nat)"

datatype socks_event = BSOCKSCLIENT_EVENT_ERROR | BSOCKSCLIENT_EVENT_UP | BSOCKSCLIENT_EVENT_ERROR_CLOSED

record BSocksClient_auth_info =
  auth_type :: byte
  au_username :: "byte list"
  au_password :: "byte list"

datatype socks_state = STATE_CONNECTING | STATE_SENDING_HELLO | STATE_SENT_HELLO | STATE_SENDING_PASSWORD
  | STATE_SENT_PASSWORD | STATE_SENDING_REQUEST | STATE_SENT_REQUEST | STATE_RECEIVED_REPLY_HEADER | STATE_UP

text \<open>\<open>send_out\<close> and \<open>recv_out\<close> say which operation of the connection is outstanding; \<open>gone\<close> that an
  error was reported, after which the object may only be freed.\<close>

record BSocksClient =
  auth_infos :: "BSocksClient_auth_info list"
  dest_addr :: BAddr
  sc_state :: socks_state
  sc_buffer :: "byte list option"
  recv_dest :: nat
  recv_len :: nat
  recv_total :: nat
  send_out :: bool
  recv_out :: "nat option"
  gone :: bool

datatype sc_act = SC_handler socks_event | SC_send "byte list" | SC_recv nat
  | SC_connector_init | SC_connector_free | SC_con_init | SC_con_free
  | SC_control_init | SC_control_free | SC_up_init | SC_up_free

definition BSocksClient_auth_none :: BSocksClient_auth_info where
  "BSocksClient_auth_none = \<lparr>auth_type = SOCKS_METHOD_NO_AUTHENTICATION_REQUIRED, au_username = [], au_password = []\<rparr>"

definition BSocksClient_auth_password :: "byte list \<Rightarrow> byte list \<Rightarrow> BSocksClient_auth_info" where
  "BSocksClient_auth_password u p = \<lparr>auth_type = SOCKS_METHOD_USERNAME_PASSWORD, au_username = u, au_password = p\<rparr>"

definition report_error :: "BSocksClient \<Rightarrow> socks_event \<Rightarrow> BSocksClient \<times> sc_act list" where
  "report_error ob e = (ob\<lparr>gone := True\<rparr>, [SC_handler e])"

text \<open>The control interfaces: created and destroyed together; destroying them abandons the operations
  on them.\<close>

definition init_control_io :: "BSocksClient \<Rightarrow> BSocksClient \<times> sc_act list" where
  "init_control_io ob = (ob\<lparr>send_out := False, recv_out := None\<rparr>, [SC_control_init])"

definition free_control_io :: "BSocksClient \<Rightarrow> BSocksClient \<times> sc_act list" where
  "free_control_io ob = (ob\<lparr>send_out := False, recv_out := None\<rparr>, [SC_control_free])"

definition init_up_io :: "BSocksClient \<Rightarrow> BSocksClient \<times> sc_act list" where
  "init_up_io ob = (ob, [SC_up_init])"

definition free_up_io :: "BSocksClient \<Rightarrow> BSocksClient \<times> sc_act list" where
  "free_up_io ob = (ob, [SC_up_free])"

text \<open>\<open>alloc\<close> is the allocator's answer to \<^verbatim>\<open>BRealloc\<close>: failure, or memory whose bytes beyond the old
  contents are arbitrary.\<close>

definition reserve_buffer :: "(nat \<Rightarrow> byte) option \<Rightarrow> BSocksClient \<Rightarrow> bsize_t \<Rightarrow> BSocksClient option" where
  "reserve_buffer alloc ob sz =
     (if is_overflow sz then None
      else case alloc of
        None \<Rightarrow> None
      | Some g \<Rightarrow>
          (let old = (case sc_buffer ob of None \<Rightarrow> [] | Some b \<Rightarrow> b)
           in Some (ob\<lparr>sc_buffer := Some (map (\<lambda>i. if i < length old then old ! i else g i) [0 ..< bvalue sz])\<rparr>)))"

definition buf :: "BSocksClient \<Rightarrow> byte list" where
  "buf ob = (case sc_buffer ob of None \<Rightarrow> [] | Some b \<Rightarrow> b)"

definition write_buf :: "nat \<Rightarrow> byte list \<Rightarrow> BSocksClient \<Rightarrow> BSocksClient" where
  "write_buf off bs ob = ob\<lparr>sc_buffer := Some (overwrite off bs (buf ob))\<rparr>"

definition do_receive :: "BSocksClient \<Rightarrow> BSocksClient \<times> sc_act list" where
  "do_receive ob = (ob\<lparr>recv_out := Some (recv_total ob - recv_len ob)\<rparr>, [SC_recv (recv_total ob - recv_len ob)])"

definition start_receive :: "BSocksClient \<Rightarrow> nat \<Rightarrow> nat \<Rightarrow> BSocksClient \<times> sc_act list" where
  "start_receive ob dest tot = do_receive (ob\<lparr>recv_dest := dest, recv_len := 0, recv_total := tot\<rparr>)"

definition send_buf :: "BSocksClient \<Rightarrow> nat \<Rightarrow> BSocksClient \<times> sc_act list" where
  "send_buf ob n = (ob\<lparr>send_out := True\<rparr>, [SC_send (take n (buf ob))])"

definition connector_handler :: "nat \<Rightarrow> bool \<Rightarrow> (nat \<Rightarrow> byte) option \<Rightarrow> BSocksClient \<Rightarrow> bool \<Rightarrow> BSocksClient \<times> sc_act list" where
  "connector_handler smax con_ok alloc ob is_error =
     (if is_error then report_error ob BSOCKSCLIENT_EVENT_ERROR
      else if \<not> con_ok then report_error ob BSOCKSCLIENT_EVENT_ERROR
      else
       (let (ob, a1) = init_control_io ob;
            a1 = SC_con_init # a1;
            n = length (auth_infos ob);
            fail1 = (let (ob, a2) = free_control_io ob; (ob, a3) = report_error ob BSOCKSCLIENT_EVENT_ERROR
                     in (ob, a1 @ a2 @ SC_con_free # a3))
        in if n = 0 \<or> n > 255 then fail1
           else
            (let sz = bsize_add smax (bsize_fromsize sizeof_socks_client_hello_header)
                          (bsize_mul smax (bsize_fromsize n) (bsize_fromsize sizeof_socks_client_hello_method))
             in case reserve_buffer alloc ob sz of
                  None \<Rightarrow> fail1
                | Some ob \<Rightarrow>
                    (let ob = write_buf 0 [hton8 SOCKS_VERSION, hton8 (of_nat n)] ob;
                         ob = write_buf 2 (map (\<lambda>ai. hton8 (auth_type ai)) (auth_infos ob)) ob;
                         (ob, a2) = send_buf ob (bvalue sz)
                     in (ob\<lparr>sc_state := STATE_SENDING_HELLO\<rparr>, a1 @ a2)))))"

definition connection_handler :: "BSocksClient \<Rightarrow> bool \<Rightarrow> BSocksClient \<times> sc_act list" where
  "connection_handler ob recvclosed =
     (if sc_state ob = STATE_UP \<and> recvclosed then report_error ob BSOCKSCLIENT_EVENT_ERROR_CLOSED
      else report_error ob BSOCKSCLIENT_EVENT_ERROR)"

definition auth_finished :: "nat \<Rightarrow> (nat \<Rightarrow> byte) option \<Rightarrow> BSocksClient \<Rightarrow> BSocksClient \<times> sc_act list" where
  "auth_finished smax alloc ob =
     (let sz = bsize_fromsize sizeof_socks_request_header;
          sz = (case dest_addr ob of
              BADDR_IPV4 _ _ \<Rightarrow> bsize_add smax sz (bsize_fromsize sizeof_socks_addr_ipv4)
            | BADDR_IPV6 _ _ \<Rightarrow> bsize_add smax sz (bsize_fromsize sizeof_socks_addr_ipv6)
            | _ \<Rightarrow> sz)
      in case reserve_buffer alloc ob sz of
           None \<Rightarrow> report_error ob BSOCKSCLIENT_EVENT_ERROR
         | Some ob \<Rightarrow>
             (let (atyp, addr) = (case dest_addr ob of
                  BADDR_IPV4 ip port \<Rightarrow> (hton8 SOCKS_ATYP_IPV4, mem_bytes32 ip @ mem_bytes16 port)
                | BADDR_IPV6 ip port \<Rightarrow> (hton8 SOCKS_ATYP_IPV6, ip @ mem_bytes16 port)
                | _ \<Rightarrow> (0, []));  \<comment> \<open>excluded by an assertion\<close>
                  ob = write_buf sizeof_socks_request_header addr ob;
                  ob = write_buf 0 [hton8 SOCKS_VERSION, hton8 SOCKS_CMD_CONNECT, hton8 0, atyp] ob;
                  (ob, a) = send_buf ob (bvalue sz)
              in (ob\<lparr>sc_state := STATE_SENDING_REQUEST\<rparr>, a)))"

definition received_hello :: "nat \<Rightarrow> (nat \<Rightarrow> byte) option \<Rightarrow> BSocksClient \<Rightarrow> BSocksClient \<times> sc_act list" where
  "received_hello smax alloc ob =
     (let ver = buf ob ! 0; mth = buf ob ! 1 in
      if ntoh8 ver \<noteq> SOCKS_VERSION then report_error ob BSOCKSCLIENT_EVENT_ERROR
      else case find (\<lambda>ai. auth_type ai = ntoh8 mth) (auth_infos ob) of
        None \<Rightarrow> report_error ob BSOCKSCLIENT_EVENT_ERROR
      | Some ai \<Rightarrow>
          if auth_type ai = SOCKS_METHOD_NO_AUTHENTICATION_REQUIRED then auth_finished smax alloc ob
          else if auth_type ai = SOCKS_METHOD_USERNAME_PASSWORD then
            (let ul = length (au_username ai); pl = length (au_password ai) in
             if ul = 0 \<or> ul > 255 \<or> pl = 0 \<or> pl > 255 then report_error ob BSOCKSCLIENT_EVENT_ERROR
             else
              (let sz = bsize_fromsize (1 + 1 + ul + 1 + pl)
               in case reserve_buffer alloc ob sz of
                    None \<Rightarrow> report_error ob BSOCKSCLIENT_EVENT_ERROR
                  | Some ob \<Rightarrow>
                      (let ob = write_buf 0 ([1, of_nat ul] @ au_username ai @ [of_nat pl] @ au_password ai) ob;
                           (ob, a) = send_buf ob (bvalue sz)
                       in (ob\<lparr>sc_state := STATE_SENDING_PASSWORD\<rparr>, a))))
          else (ob, []))"  \<comment> \<open>excluded by an assertion\<close>

definition received_reply_header :: "BSocksClient \<Rightarrow> BSocksClient \<times> sc_act list" where
  "received_reply_header ob =
     (let ver = buf ob ! 0; rep = buf ob ! 1; atyp = buf ob ! 3;
          go = (\<lambda>addr_len. let (ob, a) = start_receive ob sizeof_socks_reply_header addr_len
                           in (ob\<lparr>sc_state := STATE_RECEIVED_REPLY_HEADER\<rparr>, a)) in
      if ntoh8 ver \<noteq> SOCKS_VERSION then report_error ob BSOCKSCLIENT_EVENT_ERROR
      else if ntoh8 rep \<noteq> SOCKS_REP_SUCCEEDED then report_error ob BSOCKSCLIENT_EVENT_ERROR
      else if ntoh8 atyp = SOCKS_ATYP_IPV4 then go sizeof_socks_addr_ipv4
      else if ntoh8 atyp = SOCKS_ATYP_IPV6 then go sizeof_socks_addr_ipv6
      else report_error ob BSOCKSCLIENT_EVENT_ERROR)"

definition received_password_reply :: "nat \<Rightarrow> (nat \<Rightarrow> byte) option \<Rightarrow> BSocksClient \<Rightarrow> BSocksClient \<times> sc_act list" where
  "received_password_reply smax alloc ob =
     (if buf ob ! 0 \<noteq> 1 then report_error ob BSOCKSCLIENT_EVENT_ERROR
      else if buf ob ! 1 \<noteq> 0 then report_error ob BSOCKSCLIENT_EVENT_ERROR
      else auth_finished smax alloc ob)"

definition received_reply_rest :: "BSocksClient \<Rightarrow> BSocksClient \<times> sc_act list" where
  "received_reply_rest ob =
     (let ob = ob\<lparr>sc_buffer := None\<rparr>;
          (ob, a1) = free_control_io ob;
          (ob, a2) = init_up_io ob
      in (ob\<lparr>sc_state := STATE_UP\<rparr>, a1 @ a2 @ [SC_handler BSOCKSCLIENT_EVENT_UP]))"

definition recv_handler_done :: "nat \<Rightarrow> (nat \<Rightarrow> byte) option \<Rightarrow> BSocksClient \<Rightarrow> nat \<Rightarrow> BSocksClient \<times> sc_act list" where
  "recv_handler_done smax alloc ob data_len =
     (let ob = ob\<lparr>recv_len := recv_len ob + data_len\<rparr>
      in if recv_len ob < recv_total ob then do_receive ob
         else case sc_state ob of
           STATE_SENT_HELLO \<Rightarrow> received_hello smax alloc ob
         | STATE_SENT_REQUEST \<Rightarrow> received_reply_header ob
         | STATE_SENT_PASSWORD \<Rightarrow> received_password_reply smax alloc ob
         | STATE_RECEIVED_REPLY_HEADER \<Rightarrow> received_reply_rest ob
         | _ \<Rightarrow> (ob, []))"  \<comment> \<open>excluded by an assertion\<close>

definition send_handler_done :: "nat \<Rightarrow> (nat \<Rightarrow> byte) option \<Rightarrow> BSocksClient \<Rightarrow> BSocksClient \<times> sc_act list" where
  "send_handler_done smax alloc ob =
     (let await = (\<lambda>sz tot st. case reserve_buffer alloc ob sz of
              None \<Rightarrow> report_error ob BSOCKSCLIENT_EVENT_ERROR
            | Some ob \<Rightarrow> (let (ob, a) = start_receive ob 0 tot in (ob\<lparr>sc_state := st\<rparr>, a)))
      in case sc_state ob of
           STATE_SENDING_HELLO \<Rightarrow>
             await (bsize_fromsize sizeof_socks_server_hello) sizeof_socks_server_hello STATE_SENT_HELLO
         | STATE_SENDING_REQUEST \<Rightarrow>
             await (bsize_add smax (bsize_fromsize sizeof_socks_reply_header)
                      (bsize_max (bsize_fromsize sizeof_socks_addr_ipv4) (bsize_fromsize sizeof_socks_addr_ipv6)))
                   sizeof_socks_reply_header STATE_SENT_REQUEST
         | STATE_SENDING_PASSWORD \<Rightarrow> await (bsize_fromsize 2) 2 STATE_SENT_PASSWORD
         | _ \<Rightarrow> (ob, []))"  \<comment> \<open>excluded by an assertion\<close>

definition BSocksClient_Init :: "bool \<Rightarrow> BSocksClient_auth_info list \<Rightarrow> BAddr \<Rightarrow> (BSocksClient \<times> sc_act list) option" where
  "BSocksClient_Init connector_ok ais dest =
     (if \<not> connector_ok then None
      else Some (\<lparr>auth_infos = ais, dest_addr = dest, sc_state = STATE_CONNECTING, sc_buffer = None,
                  recv_dest = 0, recv_len = 0, recv_total = 0, send_out = False, recv_out = None, gone = False\<rparr>,
                 [SC_connector_init]))"

definition BSocksClient_Free :: "BSocksClient \<Rightarrow> BSocksClient \<times> sc_act list" where
  "BSocksClient_Free ob =
     (let (ob, a1) = (if sc_state ob \<noteq> STATE_CONNECTING
            then (let (ob, a) = (if sc_state ob = STATE_UP then free_up_io ob else free_control_io ob)
                  in (ob, a @ [SC_con_free]))
            else (ob, []))
      in (ob\<lparr>sc_buffer := None\<rparr>, a1 @ [SC_connector_free]))"


subsection \<open>Runs\<close>

type_synonym alloc = "(nat \<Rightarrow> byte) option"

text \<open>What can happen to the object: the connector's verdict (with the result of \<^verbatim>\<open>BConnection_Init\<close>),
  an error or the end of the connection, bytes received, a packet sent; with the allocator's answer
  where the handler allocates.  Received bytes are written where the receive operation asked for
  them.\<close>

datatype sc_event = SC_connector bool bool alloc | SC_connection bool | SC_received alloc "byte list" | SC_sent alloc

fun sc_enabled :: "BSocksClient \<Rightarrow> sc_event \<Rightarrow> bool" where
  "sc_enabled ob (SC_connector _ _ _) = (\<not> gone ob \<and> sc_state ob = STATE_CONNECTING)"
| "sc_enabled ob (SC_connection _) = (\<not> gone ob \<and> sc_state ob \<noteq> STATE_CONNECTING)"
| "sc_enabled ob (SC_received _ bs) = (\<not> gone ob \<and> (case recv_out ob of None \<Rightarrow> False | Some n \<Rightarrow> bs \<noteq> [] \<and> length bs \<le> n))"
| "sc_enabled ob (SC_sent _) = (\<not> gone ob \<and> send_out ob)"

fun sc_step :: "nat \<Rightarrow> BSocksClient \<Rightarrow> sc_event \<Rightarrow> BSocksClient \<times> sc_act list" where
  "sc_step smax ob (SC_connector is_error con_ok alloc) = connector_handler smax con_ok alloc ob is_error"
| "sc_step smax ob (SC_connection recvclosed) = connection_handler ob recvclosed"
| "sc_step smax ob (SC_received alloc bs) =
     recv_handler_done smax alloc ((write_buf (recv_dest ob + recv_len ob) bs ob)\<lparr>recv_out := None\<rparr>) (length bs)"
| "sc_step smax ob (SC_sent alloc) = send_handler_done smax alloc (ob\<lparr>send_out := False\<rparr>)"

fun sc_run :: "nat \<Rightarrow> BSocksClient \<Rightarrow> sc_event list \<Rightarrow> (BSocksClient \<times> sc_act list) option" where
  "sc_run smax ob [] = Some (ob, [])"
| "sc_run smax ob (e # es) =
     (if sc_enabled ob e
      then (case sc_run smax (fst (sc_step smax ob e)) es of
              None \<Rightarrow> None | Some (ob', acts) \<Rightarrow> Some (ob', snd (sc_step smax ob e) @ acts))
      else None)"

text \<open>What was sent, received and reported during a run.\<close>

fun tx_of :: "sc_act list \<Rightarrow> byte list list" where
  "tx_of [] = []"
| "tx_of (SC_send bs # acts) = bs # tx_of acts"
| "tx_of (_ # acts) = tx_of acts"

fun events_of :: "sc_act list \<Rightarrow> socks_event list" where
  "events_of [] = []"
| "events_of (SC_handler e # acts) = e # events_of acts"
| "events_of (_ # acts) = events_of acts"

fun rx_of :: "sc_event list \<Rightarrow> byte list" where
  "rx_of [] = []"
| "rx_of (SC_received _ bs # es) = bs @ rx_of es"
| "rx_of (_ # es) = rx_of es"

lemma tx_of_append [simp]: "tx_of (a @ b) = tx_of a @ tx_of b"
  by (induction a rule: tx_of.induct) auto

lemma events_of_append [simp]: "events_of (a @ b) = events_of a @ events_of b"
  by (induction a rule: events_of.induct) auto

subsection \<open>The messages of the protocol\<close>

text \<open>RFC 1928, sections 3 and 4, and RFC 1929.\<close>

definition hello_msg :: "BSocksClient_auth_info list \<Rightarrow> byte list" where
  "hello_msg ais = [5, of_nat (length ais)] @ map auth_type ais"

definition password_msg :: "BSocksClient_auth_info \<Rightarrow> byte list" where
  "password_msg ai = [1, of_nat (length (au_username ai))] @ au_username ai @
     [of_nat (length (au_password ai))] @ au_password ai"

fun request_msg :: "BAddr \<Rightarrow> byte list" where
  "request_msg (BADDR_IPV4 ip port) = [5, 1, 0, 1] @ mem_bytes32 ip @ mem_bytes16 port"
| "request_msg (BADDR_IPV6 ip port) = [5, 1, 0, 4] @ ip @ mem_bytes16 port"
| "request_msg _ = []"

definition addr_len :: "byte \<Rightarrow> nat option" where
  "addr_len atyp = (if atyp = 1 then Some 6 else if atyp = 4 then Some 18 else None)"

definition cred_ok :: "BSocksClient_auth_info \<Rightarrow> bool" where
  "cred_ok ai \<longleftrightarrow> 0 < length (au_username ai) \<and> length (au_username ai) \<le> 255 \<and>
     0 < length (au_password ai) \<and> length (au_password ai) \<le> 255"

definition chosen :: "BSocksClient_auth_info list \<Rightarrow> byte \<Rightarrow> BSocksClient_auth_info \<Rightarrow> bool" where
  "chosen ais mth ai \<longleftrightarrow> find (\<lambda>ai. auth_type ai = mth) ais = Some ai"

text \<open>Authentication has succeeded: what has been sent and received until then.\<close>

definition authed :: "BSocksClient_auth_info list \<Rightarrow> byte list list \<Rightarrow> byte list \<Rightarrow> bool" where
  "authed ais tx rx \<longleftrightarrow>
     (\<exists>ai. chosen ais 0 ai \<and> tx = [hello_msg ais] \<and> rx = [5, 0]) \<or>
     (\<exists>ai. chosen ais 2 ai \<and> cred_ok ai \<and> tx = [hello_msg ais, password_msg ai] \<and> rx = [5, 2, 1, 0])"

text \<open>The whole handshake: the packets sent and the bytes received.\<close>

definition handshake :: "BSocksClient_auth_info list \<Rightarrow> BAddr \<Rightarrow> byte list list \<Rightarrow> byte list \<Rightarrow> bool" where
  "handshake ais dest tx rx \<longleftrightarrow> 0 < length ais \<and> length ais \<le> 255 \<and>
     (\<exists>tx0 rx0 r atyp a. authed ais tx0 rx0 \<and> tx = tx0 @ [request_msg dest] \<and>
        rx = rx0 @ [5, 0, r, atyp] @ a \<and> addr_len atyp = Some (length a))"

text \<open>What the assertions of \<^verbatim>\<open>BSocksClient_Init\<close> require.\<close>

definition sc_args_ok :: "BSocksClient_auth_info list \<Rightarrow> BAddr \<Rightarrow> bool" where
  "sc_args_ok ais dest \<longleftrightarrow> (\<forall>ai \<in> set ais. auth_type ai = 0 \<or> auth_type ai = 2) \<and>
     (case dest of BADDR_IPV4 _ _ \<Rightarrow> True | BADDR_IPV6 ip _ \<Rightarrow> length ip = 16 | _ \<Rightarrow> False)"

subsection \<open>Invariant\<close>

definition sending :: "BSocksClient \<Rightarrow> bool" where
  "sending ob \<longleftrightarrow> send_out ob \<and> recv_out ob = None \<and> sc_buffer ob \<noteq> None"

definition receiving :: "BSocksClient \<Rightarrow> nat \<Rightarrow> nat \<Rightarrow> byte list \<Rightarrow> bool" where
  "receiving ob dest tot bs \<longleftrightarrow> \<not> send_out ob \<and> sc_buffer ob \<noteq> None \<and> recv_dest ob = dest \<and> recv_total ob = tot \<and>
     recv_len ob < tot \<and> recv_out ob = Some (tot - recv_len ob) \<and> dest + tot \<le> length (buf ob) \<and>
     bs = slice dest (recv_len ob) (buf ob)"

definition sc_inv :: "BSocksClient \<Rightarrow> byte list list \<Rightarrow> byte list \<Rightarrow> bool" where
  "sc_inv ob tx rx \<longleftrightarrow> sc_args_ok (auth_infos ob) (dest_addr ob) \<and>
     (sc_state ob \<noteq> STATE_CONNECTING \<longrightarrow> 0 < length (auth_infos ob) \<and> length (auth_infos ob) \<le> 255) \<and>
     (\<not> gone ob \<longrightarrow> (case sc_state ob of
        STATE_CONNECTING \<Rightarrow> tx = [] \<and> rx = [] \<and> \<not> send_out ob \<and> recv_out ob = None
      | STATE_SENDING_HELLO \<Rightarrow> tx = [hello_msg (auth_infos ob)] \<and> rx = [] \<and> sending ob
      | STATE_SENT_HELLO \<Rightarrow> tx = [hello_msg (auth_infos ob)] \<and> receiving ob 0 2 rx
      | STATE_SENDING_PASSWORD \<Rightarrow> (\<exists>ai. chosen (auth_infos ob) 2 ai \<and> cred_ok ai \<and>
          tx = [hello_msg (auth_infos ob), password_msg ai]) \<and> rx = [5, 2] \<and> sending ob
      | STATE_SENT_PASSWORD \<Rightarrow> (\<exists>ai. chosen (auth_infos ob) 2 ai \<and> cred_ok ai \<and>
          tx = [hello_msg (auth_infos ob), password_msg ai]) \<and> (\<exists>bs. rx = [5, 2] @ bs \<and> receiving ob 0 2 bs)
      | STATE_SENDING_REQUEST \<Rightarrow> (\<exists>tx0. authed (auth_infos ob) tx0 rx \<and> tx = tx0 @ [request_msg (dest_addr ob)]) \<and> sending ob
      | STATE_SENT_REQUEST \<Rightarrow> (\<exists>tx0 rx0 bs. authed (auth_infos ob) tx0 rx0 \<and> tx = tx0 @ [request_msg (dest_addr ob)] \<and>
          rx = rx0 @ bs \<and> receiving ob 0 4 bs \<and> 22 \<le> length (buf ob))
      | STATE_RECEIVED_REPLY_HEADER \<Rightarrow> (\<exists>tx0 rx0 r atyp al bs. authed (auth_infos ob) tx0 rx0 \<and>
          tx = tx0 @ [request_msg (dest_addr ob)] \<and> rx = rx0 @ [5, 0, r, atyp] @ bs \<and>
          addr_len atyp = Some al \<and> receiving ob 4 al bs)
      | STATE_UP \<Rightarrow> handshake (auth_infos ob) (dest_addr ob) tx rx \<and> \<not> send_out ob \<and> recv_out ob = None))"

lemma overwrite_all: "length bs = length b \<Longrightarrow> overwrite 0 bs b = bs"
  by (simp add: overwrite_def)

lemma overwrite_two: "length b = n + length cs \<Longrightarrow> length bs = n \<Longrightarrow> overwrite n cs (overwrite 0 bs b) = bs @ cs"
  by (simp add: overwrite_def)

lemma overwrite_two': "length b = n + length cs \<Longrightarrow> length bs = n \<Longrightarrow> overwrite 0 bs (overwrite n cs b) = bs @ cs"
  by (simp add: overwrite_def)

lemma reserve_bufferD:
  assumes "reserve_buffer alloc ob sz = Some ob'"
  obtains b where "ob' = ob\<lparr>sc_buffer := Some b\<rparr>" "length b = bvalue sz" "\<not> is_overflow sz"
  using assms by (auto simp: reserve_buffer_def Let_def split: if_splits option.splits)

lemma reserve_buffer_None: "reserve_buffer alloc ob sz = None \<longleftrightarrow> is_overflow sz \<or> alloc = None"
  by (auto simp: reserve_buffer_def Let_def split: if_splits option.splits)

lemma report_error_simps [simp]:
  "gone (fst (report_error ob e))" "auth_infos (fst (report_error ob e)) = auth_infos ob"
  "dest_addr (fst (report_error ob e)) = dest_addr ob" "sc_state (fst (report_error ob e)) = sc_state ob"
  "tx_of (snd (report_error ob e)) = []" "events_of (snd (report_error ob e)) = [e]"
  by (simp_all add: report_error_def)

lemma sc_inv_error: "sc_inv ob tx rx \<Longrightarrow> sc_inv (fst (report_error ob e)) tx' rx'"
  by (simp add: sc_inv_def)


definition sc_base :: "BSocksClient \<Rightarrow> bool" where
  "sc_base ob \<longleftrightarrow> sc_args_ok (auth_infos ob) (dest_addr ob) \<and> 0 < length (auth_infos ob) \<and> length (auth_infos ob) \<le> 255"

lemma sc_inv_base: "sc_inv ob tx rx \<Longrightarrow> sc_state ob \<noteq> STATE_CONNECTING \<Longrightarrow> sc_base ob"
  by (auto simp: sc_inv_def sc_base_def)

lemma sc_inv_gone: "sc_base ob \<Longrightarrow> gone ob \<Longrightarrow> sc_inv ob tx rx"
  by (auto simp: sc_inv_def sc_base_def)

lemma sc_base_report_error [simp]: "sc_base (fst (report_error ob e)) = sc_base ob"
  by (simp add: sc_base_def)

lemma sc_inv_report_error: "sc_base ob \<Longrightarrow> sc_inv (fst (report_error ob e)) tx rx"
  by (rule sc_inv_gone) simp_all

lemma bvalue_simps:
  "bvalue (bsize_fromsize n) = n" "\<not> is_overflow (bsize_fromsize n)"
  "65535 \<le> smax \<Longrightarrow> m + n \<le> 65535 \<Longrightarrow> bvalue (bsize_add smax (bsize_fromsize m) (bsize_fromsize n)) = m + n"
  "65535 \<le> smax \<Longrightarrow> m + n \<le> 65535 \<Longrightarrow> \<not> is_overflow (bsize_add smax (bsize_fromsize m) (bsize_fromsize n))"
  "65535 \<le> smax \<Longrightarrow> n \<le> 65535 \<Longrightarrow> bsize_mul smax (bsize_fromsize n) (bsize_fromsize 1) = bsize_fromsize n"
  "bsize_max (bsize_fromsize m) (bsize_fromsize n) = bsize_fromsize (max m n)"
  by (auto simp: bsize_fromsize_def bsize_add_def bsize_mul_def bsize_max_def max_def div_eq_0_iff)

lemma length_mem_bytes: "length (mem_bytes16 p) = 2" "length (mem_bytes32 i) = 4"
  by (simp_all add: mem_bytes16_def mem_bytes32_def)

lemma hton8_id [simp]: "hton8 x = x" "ntoh8 x = x"
  by (simp_all add: hton8_def ntoh8_def)

lemma auth_finished_request:
  assumes "65535 \<le> smax" "sc_args_ok (auth_infos ob) (dest_addr ob)" "alloc \<noteq> None"
  obtains b where "auth_finished smax alloc ob =
    (ob\<lparr>sc_buffer := Some b, send_out := True, sc_state := STATE_SENDING_REQUEST\<rparr>, [SC_send (request_msg (dest_addr ob))])"
proof (cases "dest_addr ob")
  case (BADDR_IPV4 ip port)
  let ?sz = "bsize_add smax (bsize_fromsize 4) (bsize_fromsize 6)"
  have v: "bvalue ?sz = 10" "\<not> is_overflow ?sz" using assms(1) bvalue_simps(3,4) [of smax 4 6] by simp_all
  then obtain ob' where r: "reserve_buffer alloc ob ?sz = Some ob'"
    using assms(3) reserve_buffer_None [of alloc ob ?sz] by auto
  then obtain b where b: "ob' = ob\<lparr>sc_buffer := Some b\<rparr>" "length b = 10" using v by (elim reserve_bufferD) auto
  have "overwrite 0 [5, 1, 0, 1] (overwrite 4 (mem_bytes32 ip @ mem_bytes16 port) b) = request_msg (dest_addr ob)"
    using b(2) overwrite_two' [of b 4 "mem_bytes32 ip @ mem_bytes16 port" "[5, 1, 0, 1]"] BADDR_IPV4 by (simp add: length_mem_bytes)
  then show thesis using that BADDR_IPV4 r b v
    by (auto simp: auth_finished_def Let_def write_buf_def send_buf_def buf_def length_mem_bytes)
next
  case (BADDR_IPV6 ip port)
  let ?sz = "bsize_add smax (bsize_fromsize 4) (bsize_fromsize 18)"
  have l: "length ip = 16" using assms(2) BADDR_IPV6 by (simp add: sc_args_ok_def)
  have v: "bvalue ?sz = 22" "\<not> is_overflow ?sz" using assms(1) bvalue_simps(3,4) [of smax 4 18] by simp_all
  then obtain ob' where r: "reserve_buffer alloc ob ?sz = Some ob'"
    using assms(3) reserve_buffer_None [of alloc ob ?sz] by auto
  then obtain b where b: "ob' = ob\<lparr>sc_buffer := Some b\<rparr>" "length b = 22" using v by (elim reserve_bufferD) auto
  have "overwrite 0 [5, 1, 0, 4] (overwrite 4 (ip @ mem_bytes16 port) b) = request_msg (dest_addr ob)"
    using b(2) l overwrite_two' [of b 4 "ip @ mem_bytes16 port" "[5, 1, 0, 4]"] BADDR_IPV6 by (simp add: length_mem_bytes)
  then show thesis using that BADDR_IPV6 r b v l
    by (auto simp: auth_finished_def Let_def write_buf_def send_buf_def buf_def length_mem_bytes)
qed (use assms(2) in \<open>auto simp: sc_args_ok_def\<close>)

lemma auth_finished_fail: "auth_finished smax None ob = report_error ob BSOCKSCLIENT_EVENT_ERROR"
  by (simp add: auth_finished_def Let_def reserve_buffer_def)

lemma auth_finished_inv:
  assumes "65535 \<le> smax" "sc_base ob" "authed (auth_infos ob) tx rx" "recv_out ob = None"
  shows "sc_inv (fst (auth_finished smax alloc ob)) (tx @ tx_of (snd (auth_finished smax alloc ob))) rx"
proof (cases alloc)
  case None
  then show ?thesis using assms(2) by (simp add: auth_finished_fail sc_inv_report_error)
next
  case (Some g)
  obtain b where "auth_finished smax alloc ob =
      (ob\<lparr>sc_buffer := Some b, send_out := True, sc_state := STATE_SENDING_REQUEST\<rparr>, [SC_send (request_msg (dest_addr ob))])"
    using assms Some by (elim auth_finished_request [of smax ob alloc]) (auto simp: sc_base_def)
  with assms show ?thesis by (auto simp: sc_inv_def sc_base_def sending_def)
qed

lemma connector_handler_inv:
  assumes "65535 \<le> smax" "sc_inv ob tx rx" "\<not> gone ob" "sc_state ob = STATE_CONNECTING"
  shows "sc_inv (fst (connector_handler smax con_ok alloc ob is_error)) (tx @ tx_of (snd (connector_handler smax con_ok alloc ob is_error))) rx"
proof -
  let ?n = "length (auth_infos ob)"
  let ?sz = "bsize_add smax (bsize_fromsize 2) (bsize_mul smax (bsize_fromsize ?n) (bsize_fromsize 1))"
  have inv: "tx = []" "rx = []" "sc_args_ok (auth_infos ob) (dest_addr ob)" "recv_out ob = None" using assms by (auto simp: sc_inv_def)
  show ?thesis
  proof (cases "is_error \<or> \<not> con_ok \<or> ?n = 0 \<or> ?n > 255 \<or> alloc = None")
    case True
    then show ?thesis
      using assms inv by (auto simp: connector_handler_def Let_def report_error_def init_control_io_def free_control_io_def
        reserve_buffer_def sc_inv_def split: option.splits)
  next
    case False
    have v: "bvalue ?sz = 2 + ?n" "\<not> is_overflow ?sz"
      using assms(1) False bvalue_simps(3,4) [of smax 2 ?n] bvalue_simps(5) [of smax ?n] by simp_all
    let ?ob1 = "ob\<lparr>send_out := False, recv_out := None\<rparr>"
    obtain ob' where r: "reserve_buffer alloc ?ob1 ?sz = Some ob'"
      using False v reserve_buffer_None [of alloc ?ob1 ?sz] by auto
    then obtain b where b: "ob' = ?ob1\<lparr>sc_buffer := Some b\<rparr>" "length b = 2 + ?n" using v by (elim reserve_bufferD) auto
    have h: "overwrite 2 (map auth_type (auth_infos ob)) (overwrite 0 [5, of_nat ?n] b) = hello_msg (auth_infos ob)"
      using b(2) overwrite_two [of b 2 "map auth_type (auth_infos ob)" "[5, of_nat ?n]"] by (simp add: hello_msg_def)
    have "length (hello_msg (auth_infos ob)) = 2 + ?n" by (simp add: hello_msg_def)
    then have "connector_handler smax con_ok alloc ob is_error =
        (ob\<lparr>send_out := True, recv_out := None, sc_buffer := Some (hello_msg (auth_infos ob)), sc_state := STATE_SENDING_HELLO\<rparr>,
         [SC_con_init, SC_control_init, SC_send (hello_msg (auth_infos ob))])"
      using False r b v h
      by (simp add: connector_handler_def Let_def init_control_io_def write_buf_def send_buf_def buf_def)
    with assms inv False show ?thesis by (auto simp: sc_inv_def sending_def)
  qed
qed


text \<open>Received bytes extend what has been received of the current message.\<close>

definition absorb :: "BSocksClient \<Rightarrow> byte list \<Rightarrow> BSocksClient" where
  "absorb ob bs = (write_buf (recv_dest ob + recv_len ob) bs ob)\<lparr>recv_out := None, recv_len := recv_len ob + length bs\<rparr>"

lemma absorb_simps [simp]:
  "auth_infos (absorb ob bs) = auth_infos ob" "dest_addr (absorb ob bs) = dest_addr ob" "sc_state (absorb ob bs) = sc_state ob"
  "recv_dest (absorb ob bs) = recv_dest ob" "recv_total (absorb ob bs) = recv_total ob" "send_out (absorb ob bs) = send_out ob"
  "gone (absorb ob bs) = gone ob" "recv_len (absorb ob bs) = recv_len ob + length bs" "recv_out (absorb ob bs) = None"
  "sc_base (absorb ob bs) = sc_base ob"
  by (simp_all add: absorb_def write_buf_def sc_base_def)

lemma recv_handler_done_absorb:
  "recv_handler_done smax alloc ((write_buf (recv_dest ob + recv_len ob) bs ob)\<lparr>recv_out := None\<rparr>) (length bs) =
     (let ob = absorb ob bs
      in if recv_len ob < recv_total ob then do_receive ob
         else case sc_state ob of
           STATE_SENT_HELLO \<Rightarrow> received_hello smax alloc ob
         | STATE_SENT_REQUEST \<Rightarrow> received_reply_header ob
         | STATE_SENT_PASSWORD \<Rightarrow> received_password_reply smax alloc ob
         | STATE_RECEIVED_REPLY_HEADER \<Rightarrow> received_reply_rest ob
         | _ \<Rightarrow> (ob, []))"
  by (simp add: recv_handler_done_def absorb_def write_buf_def Let_def)

lemma receiving_absorb:
  assumes "receiving ob d t old" "length bs \<le> t - recv_len ob"
  shows "slice d (recv_len ob + length bs) (buf (absorb ob bs)) = old @ bs"
    and "length (buf (absorb ob bs)) = length (buf ob)"
  using assms slice_overwrite_extend [of d "recv_len ob" bs "buf ob"]
  by (auto simp: receiving_def absorb_def write_buf_def buf_def)

lemma receiving_partial:
  assumes "receiving ob d t old" "recv_out ob = Some n" "length bs \<le> n" "recv_len (absorb ob bs) < recv_total (absorb ob bs)"
  shows "receiving (fst (do_receive (absorb ob bs))) d t (old @ bs)"
proof -
  have n: "n = t - recv_len ob" using assms by (simp add: receiving_def)
  have "sc_buffer (absorb ob bs) \<noteq> None" by (simp add: absorb_def write_buf_def)
  moreover have "buf (fst (do_receive (absorb ob bs))) = buf (absorb ob bs)" by (simp add: do_receive_def buf_def)
  ultimately show ?thesis
    using assms receiving_absorb [OF assms(1), of bs] n unfolding receiving_def by (auto simp: do_receive_def)
qed

lemma receiving_complete:
  assumes "receiving ob d t old" "recv_out ob = Some n" "length bs \<le> n" "\<not> recv_len (absorb ob bs) < recv_total (absorb ob bs)"
  shows "slice d t (buf (absorb ob bs)) = old @ bs" "length (buf (absorb ob bs)) = length (buf ob)" "length (old @ bs) = t"
proof -
  have n: "n = t - recv_len ob" "recv_len ob < t" "recv_total ob = t" "d + t \<le> length (buf ob)" using assms by (auto simp: receiving_def)
  with assms have l: "recv_len ob + length bs = t" by simp
  have "length bs \<le> t - recv_len ob" using assms(3) n by simp
  from receiving_absorb [OF assms(1) this] l
  show "slice d t (buf (absorb ob bs)) = old @ bs" "length (buf (absorb ob bs)) = length (buf ob)" by simp_all
  then show "length (old @ bs) = t" using n by (metis length_slice)
qed

lemma slice_0_2D: "slice 0 2 b = m \<Longrightarrow> 2 \<le> length b \<Longrightarrow> m = [b ! 0, b ! 1]"
  by (cases b; cases "tl b") (auto simp: slice_def)

lemma slice_0_4D: "slice 0 4 b = m \<Longrightarrow> 4 \<le> length b \<Longrightarrow> m = [b ! 0, b ! 1, b ! 2, b ! 3]"
  by (cases b; cases "tl b"; cases "tl (tl b)"; cases "tl (tl (tl b))") (auto simp: slice_def numeral_eq_Suc)

lemma received_hello_inv:
  assumes "65535 \<le> smax" "sc_base ob" "slice 0 2 (buf ob) = rx" "2 \<le> length (buf ob)" "recv_out ob = None" "\<not> gone ob"
    and "sc_state ob = STATE_SENT_HELLO" and r_def: "r = received_hello smax alloc ob"
  shows "sc_inv (fst r) ([hello_msg (auth_infos ob)] @ tx_of (snd r)) rx"
proof -
  have rx: "rx = [buf ob ! 0, buf ob ! 1]" using slice_0_2D assms(3,4) by blast
  show ?thesis
  proof (cases "buf ob ! 0 = 5 \<and> find (\<lambda>ai. auth_type ai = buf ob ! 1) (auth_infos ob) \<noteq> None")
    case False
    then have "r = report_error ob BSOCKSCLIENT_EVENT_ERROR"
      by (auto simp: r_def received_hello_def Let_def split: option.splits)
    with assms(2) show ?thesis by (simp add: sc_inv_report_error)
  next
    case True
    then obtain ai where f: "find (\<lambda>ai. auth_type ai = buf ob ! 1) (auth_infos ob) = Some ai" by auto
    then have ai: "auth_type ai = buf ob ! 1" "ai \<in> set (auth_infos ob)" by (auto simp: find_Some_iff)
    consider (none) "auth_type ai = 0" | (pw) "auth_type ai = 2" using ai(2) assms(2) by (auto simp: sc_base_def sc_args_ok_def)
    then show ?thesis
    proof cases
      case none
      then have "r = auth_finished smax alloc ob" using True f by (simp add: r_def received_hello_def Let_def)
      moreover have "authed (auth_infos ob) [hello_msg (auth_infos ob)] rx"
        using f none ai rx True by (auto simp: authed_def chosen_def)
      ultimately show ?thesis using auth_finished_inv assms(1,2,5) by blast
    next
      case pw
      let ?sz = "bsize_fromsize (1 + 1 + length (au_username ai) + 1 + length (au_password ai))"
      show ?thesis
      proof (cases "cred_ok ai \<and> alloc \<noteq> None")
        case False
        then have "r = report_error ob BSOCKSCLIENT_EVENT_ERROR"
          using True f pw by (auto simp: r_def received_hello_def Let_def cred_ok_def reserve_buffer_def bvalue_simps split: option.splits)
        with assms(2) show ?thesis by (simp add: sc_inv_report_error)
      next
        case ok: True
        then obtain ob' where rb: "reserve_buffer alloc ob ?sz = Some ob'"
          using reserve_buffer_None [of alloc ob ?sz] bvalue_simps(2) by auto
        then obtain b where b: "ob' = ob\<lparr>sc_buffer := Some b\<rparr>" "length b = length (password_msg ai)"
          by (elim reserve_bufferD) (simp add: bvalue_simps password_msg_def)
        have "r = (ob\<lparr>sc_buffer := Some (password_msg ai), send_out := True, sc_state := STATE_SENDING_PASSWORD\<rparr>, [SC_send (password_msg ai)])"
          using True f pw ok rb b overwrite_all [OF b(2) [symmetric]]
          by (auto simp: r_def received_hello_def Let_def cred_ok_def write_buf_def send_buf_def buf_def bvalue_simps(1) password_msg_def)
        then show ?thesis using assms f pw ai rx True ok by (auto simp: sc_inv_def sc_base_def sending_def chosen_def)
      qed
    qed
  qed
qed


lemma received_password_reply_inv:
  assumes "65535 \<le> smax" "sc_base ob" "slice 0 2 (buf ob) = m" "2 \<le> length (buf ob)" "recv_out ob = None"
    and "chosen (auth_infos ob) 2 ai" "cred_ok ai" and r_def: "r = received_password_reply smax alloc ob"
  shows "sc_inv (fst r) ([hello_msg (auth_infos ob), password_msg ai] @ tx_of (snd r)) ([5, 2] @ m)"
proof (cases "m = [1, 0]")
  case True
  have m: "m = [buf ob ! 0, buf ob ! 1]" using slice_0_2D assms(3,4) by blast
  with True have "r = auth_finished smax alloc ob" by (simp add: r_def received_password_reply_def)
  moreover have "authed (auth_infos ob) [hello_msg (auth_infos ob), password_msg ai] ([5, 2] @ m)"
    using assms(6,7) True by (auto simp: authed_def)
  ultimately show ?thesis using auth_finished_inv [OF assms(1,2) _ assms(5)] by blast
next
  case False
  have "m = [buf ob ! 0, buf ob ! 1]" using slice_0_2D assms(3,4) by blast
  with False have "r = report_error ob BSOCKSCLIENT_EVENT_ERROR" by (auto simp: r_def received_password_reply_def)
  with assms(2) show ?thesis by (simp add: sc_inv_report_error)
qed

lemma received_reply_header_inv:
  assumes "sc_base ob" "slice 0 4 (buf ob) = m" "22 \<le> length (buf ob)" "recv_out ob = None" "\<not> send_out ob" "sc_buffer ob \<noteq> None"
    and "authed (auth_infos ob) tx0 rx0" and r_def: "r = received_reply_header ob"
  shows "sc_inv (fst r) (tx0 @ [request_msg (dest_addr ob)] @ tx_of (snd r)) (rx0 @ m)"
proof -
  have m: "m = [buf ob ! 0, buf ob ! 1, buf ob ! 2, buf ob ! 3]"
    by (rule slice_0_4D [OF assms(2)]) (use assms(3) in simp)
  show ?thesis
  proof (cases "buf ob ! 0 = 5 \<and> buf ob ! 1 = 0 \<and> addr_len (buf ob ! 3) \<noteq> None")
    case False
    then have "r = report_error ob BSOCKSCLIENT_EVENT_ERROR"
      by (auto simp: r_def received_reply_header_def Let_def addr_len_def split: if_splits)
    with assms(1) show ?thesis by (simp add: sc_inv_report_error)
  next
    case True
    then obtain al where al: "addr_len (buf ob ! 3) = Some al" by auto
    then have le: "0 < al" "4 + al \<le> length (buf ob)" using assms(3) by (auto simp: addr_len_def split: if_splits)
    define ob' where "ob' = ob\<lparr>recv_dest := 4, recv_len := 0, recv_total := al, recv_out := Some al, sc_state := STATE_RECEIVED_REPLY_HEADER\<rparr>"
    have r: "r = (ob', [SC_recv al])"
      using True al by (auto simp: r_def received_reply_header_def Let_def start_receive_def do_receive_def addr_len_def ob'_def split: if_splits)
    have "receiving ob' 4 al []"
      using assms le by (auto simp: receiving_def ob'_def buf_def)
    moreover have "rx0 @ m = rx0 @ [5, 0, buf ob ! 2, buf ob ! 3] @ []" using m True by simp
    ultimately show ?thesis using assms(1,7) al unfolding r sc_inv_def sc_base_def
      by (simp add: ob'_def) blast
  qed
qed

lemma received_reply_rest_inv:
  assumes "sc_base ob" "authed (auth_infos ob) tx0 rx0" "addr_len atyp = Some (length a)" and r_def: "r = received_reply_rest ob"
  shows "sc_inv (fst r) (tx0 @ [request_msg (dest_addr ob)] @ tx_of (snd r)) (rx0 @ [5, 0, rsv, atyp] @ a)"
  using assms unfolding sc_inv_def sc_base_def handshake_def
  by (auto simp: received_reply_rest_def Let_def free_control_io_def init_up_io_def)

lemma reserve_then_receive:
  assumes "reserve_buffer alloc ob sz = Some ob'" "tot \<le> bvalue sz" "0 < tot" "\<not> send_out ob"
  shows "receiving ((fst (start_receive ob' 0 tot))\<lparr>sc_state := st\<rparr>) 0 tot []"
    and "length (buf ((fst (start_receive ob' 0 tot))\<lparr>sc_state := st\<rparr>)) = bvalue sz"
  using assms(1)
  by (rule reserve_bufferD; use assms in \<open>simp add: receiving_def start_receive_def do_receive_def buf_def\<close>)+

lemma start_receive_simps [simp]:
  "auth_infos (fst (start_receive ob d t)) = auth_infos ob" "dest_addr (fst (start_receive ob d t)) = dest_addr ob"
  "gone (fst (start_receive ob d t)) = gone ob" "tx_of (snd (start_receive ob d t)) = []"
  "events_of (snd (start_receive ob d t)) = []"
  by (simp_all add: start_receive_def do_receive_def)

lemma send_handler_done_inv:
  assumes "65535 \<le> smax" "sc_inv ob tx rx" "\<not> gone ob" "send_out ob"
    and r_def: "r = send_handler_done smax alloc (ob\<lparr>send_out := False\<rparr>)"
  shows "sc_inv (fst r) (tx @ tx_of (snd r)) rx"
proof -
  let ?ob = "ob\<lparr>send_out := False\<rparr>"
  let ?sz = "bsize_add smax (bsize_fromsize 4) (bsize_max (bsize_fromsize 6) (bsize_fromsize 18))"
  have sz: "bvalue ?sz = 22" using assms(1) bvalue_simps(3) [of smax 4 18] by (simp add: bvalue_simps(6))
  have nc: "sc_state ob \<noteq> STATE_CONNECTING" using assms by (auto simp: sc_inv_def)
  have base: "sc_base ?ob" using sc_inv_base [OF assms(2) nc] by (simp add: sc_base_def)
  define await where "await = (\<lambda>sz tot st. case reserve_buffer alloc ?ob sz of
              None \<Rightarrow> report_error ?ob BSOCKSCLIENT_EVENT_ERROR
            | Some ob \<Rightarrow> (let (ob, a) = start_receive ob 0 tot in (ob\<lparr>sc_state := st\<rparr>, a)))"
  have await: "sc_inv (fst (await sz tot st)) (tx @ tx_of (snd (await sz tot st))) rx"
    if "tot \<le> bvalue sz" "0 < tot" "st \<noteq> STATE_CONNECTING"
      and go: "\<And>ob'. auth_infos ob' = auth_infos ob \<Longrightarrow> dest_addr ob' = dest_addr ob \<Longrightarrow> sc_state ob' = st \<Longrightarrow> \<not> gone ob' \<Longrightarrow>
        receiving ob' 0 tot [] \<Longrightarrow> length (buf ob') = bvalue sz \<Longrightarrow> sc_base ob' \<Longrightarrow> sc_inv ob' tx rx" for sz tot st
  proof (cases "reserve_buffer alloc ?ob sz")
    case None
    with base show ?thesis by (simp add: await_def sc_inv_report_error)
  next
    case (Some ob1)
    then obtain b where b: "ob1 = ?ob\<lparr>sc_buffer := Some b\<rparr>" by (rule reserve_bufferD)
    let ?ob' = "(fst (start_receive ob1 0 tot))\<lparr>sc_state := st\<rparr>"
    have "sc_inv ?ob' tx rx"
      using reserve_then_receive [OF Some that(1,2), of st] assms(3) base by (intro go) (auto simp: b sc_base_def)
    then show ?thesis using Some by (simp add: await_def Let_def split_beta)
  qed
  show ?thesis
  proof (cases "sc_state ob")
    case STATE_SENDING_HELLO
    then have "r = await (bsize_fromsize 2) 2 STATE_SENT_HELLO" by (simp add: r_def send_handler_done_def await_def)
    then show ?thesis using STATE_SENDING_HELLO assms(2,3)
      by (simp only:) (rule await; auto simp: bvalue_simps(1) sc_inv_def)
  next
    case STATE_SENDING_PASSWORD
    then have "r = await (bsize_fromsize 2) 2 STATE_SENT_PASSWORD" by (simp add: r_def send_handler_done_def await_def)
    then show ?thesis using STATE_SENDING_PASSWORD assms(2,3)
      by (simp only:) (rule await; auto simp: bvalue_simps(1) sc_inv_def)
  next
    case STATE_SENDING_REQUEST
    then have "r = await ?sz 4 STATE_SENT_REQUEST" by (simp add: r_def send_handler_done_def await_def)
    then show ?thesis using STATE_SENDING_REQUEST assms(2,3) sz
      by (simp only:) (rule await; force simp: sc_inv_def)
  qed (use assms nc in \<open>auto simp: sc_inv_def receiving_def\<close>)
qed


lemma do_receive_simps [simp]:
  "auth_infos (fst (do_receive ob)) = auth_infos ob" "dest_addr (fst (do_receive ob)) = dest_addr ob"
  "gone (fst (do_receive ob)) = gone ob" "sc_state (fst (do_receive ob)) = sc_state ob"
  "buf (fst (do_receive ob)) = buf ob" "tx_of (snd (do_receive ob)) = []" "events_of (snd (do_receive ob)) = []"
  by (simp_all add: do_receive_def buf_def)

lemma received_partial_inv:
  assumes "sc_inv ob tx rx" "\<not> gone ob" "recv_out ob = Some n" "length bs \<le> n"
    and part: "recv_len (absorb ob bs) < recv_total (absorb ob bs)"
  shows "sc_inv (fst (do_receive (absorb ob bs))) tx (rx @ bs)"
proof -
  have more: "receiving (fst (do_receive (absorb ob bs))) d t (old @ bs)" "length (buf (absorb ob bs)) = length (buf ob)"
    if "receiving ob d t old" for d t old
    using receiving_partial [OF that assms(3,4) part] receiving_absorb(2) [OF that, of bs] assms(3,4) that by (auto simp: receiving_def)
  show ?thesis
  proof (cases "sc_state ob")
    case STATE_SENT_HELLO
    with assms(1,2) more show ?thesis by (auto simp: sc_inv_def)
  next
    case STATE_SENT_PASSWORD
    with assms(1,2) obtain m where "rx = [5, 2] @ m" "receiving ob 0 2 m" by (auto simp: sc_inv_def)
    with more(1) [of 0 2 m] STATE_SENT_PASSWORD assms(1,2) show ?thesis by (auto simp: sc_inv_def)
  next
    case STATE_SENT_REQUEST
    with assms(1,2) obtain tx0 rx0 m where h: "authed (auth_infos ob) tx0 rx0" "tx = tx0 @ [request_msg (dest_addr ob)]"
      "rx = rx0 @ m" "receiving ob 0 4 m" "22 \<le> length (buf ob)" by (auto simp: sc_inv_def)
    have "rx @ bs = rx0 @ (m @ bs)" using h(3) by simp
    with more [OF h(4)] STATE_SENT_REQUEST assms(1,2) h show ?thesis unfolding sc_inv_def by auto
  next
    case STATE_RECEIVED_REPLY_HEADER
    with assms(1,2) obtain tx0 rx0 r atyp al m where h: "authed (auth_infos ob) tx0 rx0" "tx = tx0 @ [request_msg (dest_addr ob)]"
      "rx = rx0 @ [5, 0, r, atyp] @ m" "addr_len atyp = Some al" "receiving ob 4 al m" by (auto simp: sc_inv_def)
    have "rx @ bs = rx0 @ [5, 0, r, atyp] @ (m @ bs)" using h(3) by simp
    with more(1) [OF h(5)] STATE_RECEIVED_REPLY_HEADER assms(1,2) h(1,2,4) show ?thesis unfolding sc_inv_def by auto
  qed (use assms in \<open>auto simp: sc_inv_def sending_def\<close>)
qed

lemma received_complete_inv:
  assumes smax: "65535 \<le> smax" and inv: "sc_inv ob tx rx" "\<not> gone ob" and out: "recv_out ob = Some n" "length bs \<le> n"
    and full: "\<not> recv_len (absorb ob bs) < recv_total (absorb ob bs)"
    and r: "r = sc_step smax ob (SC_received alloc bs)"
  shows "sc_inv (fst r) (tx @ tx_of (snd r)) (rx @ bs)"
proof -
  have nc: "sc_state ob \<noteq> STATE_CONNECTING" using inv out by (auto simp: sc_inv_def)
  have base: "sc_base (absorb ob bs)" using sc_inv_base [OF inv(1) nc] by simp
  have b: "sc_buffer (absorb ob bs) \<noteq> None" by (simp add: absorb_def write_buf_def)
  have step: "r = (case sc_state ob of STATE_SENT_HELLO \<Rightarrow> received_hello smax alloc (absorb ob bs)
      | STATE_SENT_REQUEST \<Rightarrow> received_reply_header (absorb ob bs)
      | STATE_SENT_PASSWORD \<Rightarrow> received_password_reply smax alloc (absorb ob bs)
      | STATE_RECEIVED_REPLY_HEADER \<Rightarrow> received_reply_rest (absorb ob bs) | _ \<Rightarrow> (absorb ob bs, []))"
    using full by (simp add: r recv_handler_done_absorb Let_def)
  note cpl = receiving_complete [OF _ out full]
  show ?thesis
  proof (cases "sc_state ob")
    case STATE_SENT_HELLO
    then have h: "tx = [hello_msg (auth_infos ob)]" "receiving ob 0 2 rx" using inv by (auto simp: sc_inv_def)
    moreover have "2 \<le> length (buf (absorb ob bs))" using cpl(2) [OF h(2)] h(2) by (simp add: receiving_def)
    ultimately show ?thesis
      using received_hello_inv [OF smax base cpl(1) [OF h(2)], where r = r and alloc = alloc] STATE_SENT_HELLO step inv(2) by simp
  next
    case STATE_SENT_PASSWORD
    then obtain ai m where h: "chosen (auth_infos ob) 2 ai" "cred_ok ai" "tx = [hello_msg (auth_infos ob), password_msg ai]"
      "rx = [5, 2] @ m" "receiving ob 0 2 m" using inv by (auto simp: sc_inv_def)
    moreover have "2 \<le> length (buf (absorb ob bs))" using cpl(2) [OF h(5)] h(5) by (simp add: receiving_def)
    ultimately show ?thesis
      using received_password_reply_inv [OF smax base cpl(1) [OF h(5)], where r = r and alloc = alloc and ai = ai] STATE_SENT_PASSWORD step by simp
  next
    case STATE_SENT_REQUEST
    then obtain tx0 rx0 m where h: "authed (auth_infos ob) tx0 rx0" "tx = tx0 @ [request_msg (dest_addr ob)]"
      "rx = rx0 @ m" "receiving ob 0 4 m" "22 \<le> length (buf ob)" using inv by (auto simp: sc_inv_def)
    then show ?thesis
      using received_reply_header_inv [OF base cpl(1) [OF h(4)], where r = r and ?tx0.0 = tx0 and ?rx0.0 = rx0] cpl(2) [OF h(4)] b
        STATE_SENT_REQUEST step by (simp add: receiving_def)
  next
    case STATE_RECEIVED_REPLY_HEADER
    then obtain tx0 rx0 v atyp al m where h: "authed (auth_infos ob) tx0 rx0" "tx = tx0 @ [request_msg (dest_addr ob)]"
      "rx = rx0 @ [5, 0, v, atyp] @ m" "addr_len atyp = Some al" "receiving ob 4 al m" using inv by (auto simp: sc_inv_def)
    then show ?thesis
      using received_reply_rest_inv [OF base, where r = r and a = "m @ bs" and ?tx0.0 = tx0 and ?rx0.0 = rx0 and atyp = atyp and rsv = v]
        cpl(3) [OF h(5)] STATE_RECEIVED_REPLY_HEADER step by simp
  qed (use inv out in \<open>auto simp: sc_inv_def sending_def\<close>)
qed

lemma sc_step_inv:
  assumes "65535 \<le> smax" "sc_inv ob tx rx" "sc_enabled ob e"
  shows "sc_inv (fst (sc_step smax ob e)) (tx @ tx_of (snd (sc_step smax ob e))) (rx @ rx_of [e])"
proof (cases e)
  case (SC_received alloc bs)
  with assms(3) obtain n where n: "\<not> gone ob" "recv_out ob = Some n" "length bs \<le> n" by (auto split: option.splits)
  show ?thesis
  proof (cases "recv_len (absorb ob bs) < recv_total (absorb ob bs)")
    case True
    then have "sc_step smax ob e = do_receive (absorb ob bs)" by (simp add: SC_received recv_handler_done_absorb Let_def)
    with received_partial_inv [OF assms(2) n True] show ?thesis by (simp add: SC_received)
  next
    case False
    from received_complete_inv [OF assms(1,2) n False refl, of alloc] show ?thesis by (simp add: SC_received)
  qed
next
  case (SC_sent alloc)
  with assms show ?thesis using send_handler_done_inv [OF assms(1,2) _ _ refl] by simp
next
  case (SC_connector is_error con_ok alloc)
  with assms connector_handler_inv [of smax ob tx rx] show ?thesis by simp
next
  case (SC_connection rc)
  with assms sc_inv_base [OF assms(2)] show ?thesis by (auto simp: connection_handler_def sc_inv_report_error)
qed

lemma sc_run_inv:
  "sc_run smax ob es = Some (ob', acts) \<Longrightarrow> 65535 \<le> smax \<Longrightarrow> sc_inv ob tx rx \<Longrightarrow> sc_inv ob' (tx @ tx_of acts) (rx @ rx_of es)"
proof (induction es arbitrary: ob tx rx acts)
  case (Cons e es)
  from Cons.prems(1) obtain acts' where r: "sc_enabled ob e" "sc_run smax (fst (sc_step smax ob e)) es = Some (ob', acts')"
    "acts = snd (sc_step smax ob e) @ acts'"
    by (auto simp del: sc_step.simps split: if_splits option.splits)
  have rx: "rx_of (e # es) = rx_of [e] @ rx_of es" by (cases e) simp_all
  show ?case
    using Cons.IH [OF r(2) Cons.prems(2) sc_step_inv [OF Cons.prems(2,3) r(1)]] unfolding rx r(3) by simp
qed simp

lemma BSocksClient_Init_inv:
  "BSocksClient_Init ok ais dest = Some (ob, acts) \<Longrightarrow> sc_args_ok ais dest \<Longrightarrow> sc_inv ob [] [] \<and> tx_of acts = [] \<and> \<not> gone ob \<and>
     auth_infos ob = ais \<and> dest_addr ob = dest \<and> sc_state ob = STATE_CONNECTING"
  by (auto simp: BSocksClient_Init_def sc_inv_def split: if_splits)


subsection \<open>Events and resources\<close>

lemmas sc_op_defs = connection_handler_def report_error_def init_control_io_def free_control_io_def init_up_io_def
  free_up_io_def do_receive_def start_receive_def send_buf_def write_buf_def Let_def

text \<open>What one step does to the reported events and to the resources: the connection is held in every
  state but the first, the control interfaces during the handshake and the data interfaces when up.\<close>

definition sc_accounts :: "BSocksClient \<Rightarrow> BSocksClient \<times> sc_act list \<Rightarrow> bool" where
  "sc_accounts ob r \<longleftrightarrow> (let st = sc_state ob; st' = sc_state (fst r); acts = snd r in
     (\<exists>err. events_of acts = (if st' = STATE_UP \<and> st \<noteq> STATE_UP then [BSOCKSCLIENT_EVENT_UP] else []) @ err \<and>
        (if gone (fst r) then err = [BSOCKSCLIENT_EVENT_ERROR] \<or> err = [BSOCKSCLIENT_EVENT_ERROR_CLOSED] \<and> st' = STATE_UP
         else err = [])) \<and>
     (st = STATE_UP \<longrightarrow> st' = STATE_UP) \<and>
     of_bool (st \<noteq> STATE_CONNECTING) + count_list acts SC_con_init = of_bool (st' \<noteq> STATE_CONNECTING) + count_list acts SC_con_free \<and>
     of_bool (st \<notin> {STATE_CONNECTING, STATE_UP}) + count_list acts SC_control_init =
       of_bool (st' \<notin> {STATE_CONNECTING, STATE_UP}) + count_list acts SC_control_free \<and>
     of_bool (st = STATE_UP) + count_list acts SC_up_init = of_bool (st' = STATE_UP) + (count_list acts SC_up_free :: nat) \<and>
     count_list acts SC_connector_init = 0 \<and> count_list acts SC_connector_free = 0 \<and>
     auth_infos (fst r) = auth_infos ob \<and> dest_addr (fst r) = dest_addr ob)"

lemma sc_accounts_report_error:
  "\<not> gone ob \<Longrightarrow> sc_accounts ob (report_error ob BSOCKSCLIENT_EVENT_ERROR)"
  "\<not> gone ob \<Longrightarrow> sc_accounts ob (connection_handler ob rc)"
proof -
  have err: "sc_accounts ob (report_error ob e)" if "e = BSOCKSCLIENT_EVENT_ERROR \<or> e = BSOCKSCLIENT_EVENT_ERROR_CLOSED \<and> sc_state ob = STATE_UP" for e
    using that unfolding sc_accounts_def report_error_def Let_def
    by (intro conjI exI [of _ "[e]"]) simp_all
  then show "sc_accounts ob (report_error ob BSOCKSCLIENT_EVENT_ERROR)" by simp
  show "sc_accounts ob (connection_handler ob rc)" using err by (simp add: connection_handler_def)
qed

lemma sc_accounts_quiet:
  "\<not> gone (fst r) \<Longrightarrow> snd r = [SC_send bs] \<or> snd r = [SC_recv n] \<or> snd r = [] \<Longrightarrow>
   sc_state ob \<notin> {STATE_CONNECTING, STATE_UP} \<Longrightarrow> sc_state (fst r) \<notin> {STATE_CONNECTING, STATE_UP} \<Longrightarrow>
   auth_infos (fst r) = auth_infos ob \<Longrightarrow> dest_addr (fst r) = dest_addr ob \<Longrightarrow> sc_accounts ob r"
  by (elim disjE) (simp_all add: sc_accounts_def Let_def)

lemma reserve_buffer_fields:
  "reserve_buffer alloc ob sz = Some ob' \<Longrightarrow> gone ob' = gone ob \<and> auth_infos ob' = auth_infos ob \<and> dest_addr ob' = dest_addr ob \<and>
     sc_state ob' = sc_state ob"
  by (elim reserve_bufferD) simp

lemma auth_finished_accounts:
  assumes "\<not> gone ob" "sc_state ob \<notin> {STATE_CONNECTING, STATE_UP}"
  shows "sc_accounts ob (auth_finished smax alloc ob)"
proof -
  define sz where "sz = (case dest_addr ob of
      BADDR_IPV4 _ _ \<Rightarrow> bsize_add smax (bsize_fromsize 4) (bsize_fromsize 6)
    | BADDR_IPV6 _ _ \<Rightarrow> bsize_add smax (bsize_fromsize 4) (bsize_fromsize 18) | _ \<Rightarrow> bsize_fromsize 4)"
  show ?thesis
  proof (cases "reserve_buffer alloc ob sz")
    case None
    then have "auth_finished smax alloc ob = report_error ob BSOCKSCLIENT_EVENT_ERROR"
      unfolding auth_finished_def Let_def sz_def [symmetric] by simp
    with assms show ?thesis by (simp add: sc_accounts_report_error)
  next
    case (Some ob')
    then show ?thesis using assms reserve_buffer_fields [OF Some]
      unfolding auth_finished_def Let_def sz_def [symmetric]
      by (intro sc_accounts_quiet) (auto simp: sc_op_defs split_beta)
  qed
qed

lemma received_hello_accounts:
  assumes "\<not> gone ob" "sc_state ob \<notin> {STATE_CONNECTING, STATE_UP}"
  shows "sc_accounts ob (received_hello smax alloc ob)"
proof -
  have q: "sc_accounts ob (case reserve_buffer alloc ob sz of None \<Rightarrow> report_error ob BSOCKSCLIENT_EVENT_ERROR
      | Some ob \<Rightarrow> let ob = write_buf 0 bs ob; (ob, a) = send_buf ob n in (ob\<lparr>sc_state := STATE_SENDING_PASSWORD\<rparr>, a))" for sz bs n
  proof (cases "reserve_buffer alloc ob sz")
    case (Some ob')
    with assms reserve_buffer_fields [OF Some] show ?thesis
      by simp (intro sc_accounts_quiet; auto simp: sc_op_defs)
  qed (use assms in \<open>simp add: sc_accounts_report_error\<close>)
  have "sc_accounts ob (ob, [])" using assms by (intro sc_accounts_quiet) auto
  then show ?thesis
    using assms q auth_finished_accounts [OF assms] sc_accounts_report_error(1) [OF assms(1)]
    unfolding received_hello_def Let_def by (simp split: option.splits if_splits)
qed

lemma received_other_accounts:
  assumes "\<not> gone ob" "sc_state ob \<notin> {STATE_CONNECTING, STATE_UP}"
  shows "sc_accounts ob (received_reply_header ob)" "sc_accounts ob (received_reply_rest ob)"
    "sc_accounts ob (received_password_reply smax alloc ob)"
proof -
  have "sc_accounts ob (let (ob, a) = start_receive ob d n in (ob\<lparr>sc_state := STATE_RECEIVED_REPLY_HEADER\<rparr>, a))" for d n
    using assms by (intro sc_accounts_quiet) (auto simp: sc_op_defs)
  then show "sc_accounts ob (received_reply_header ob)"
    using sc_accounts_report_error(1) [OF assms(1)] by (simp add: received_reply_header_def Let_def)
  show "sc_accounts ob (received_password_reply smax alloc ob)"
    using auth_finished_accounts [OF assms] sc_accounts_report_error(1) [OF assms(1)] by (simp add: received_password_reply_def)
  show "sc_accounts ob (received_reply_rest ob)"
    using assms by (simp add: sc_accounts_def received_reply_rest_def sc_op_defs)
qed

lemma sc_accounts_cong:
  "sc_state ob' = sc_state ob \<Longrightarrow> auth_infos ob' = auth_infos ob \<Longrightarrow> dest_addr ob' = dest_addr ob \<Longrightarrow>
   sc_accounts ob' r = sc_accounts ob r"
  by (simp add: sc_accounts_def)

lemma send_handler_done_accounts:
  assumes "\<not> gone ob" "sc_state ob \<notin> {STATE_CONNECTING, STATE_UP}"
  shows "sc_accounts ob (send_handler_done smax alloc ob)"
proof -
  have q: "sc_accounts ob (case reserve_buffer alloc ob sz of None \<Rightarrow> report_error ob BSOCKSCLIENT_EVENT_ERROR
      | Some ob \<Rightarrow> let (ob, a) = start_receive ob 0 tot in (ob\<lparr>sc_state := st\<rparr>, a))"
    if "st \<notin> {STATE_CONNECTING, STATE_UP}" for sz tot st
  proof (cases "reserve_buffer alloc ob sz")
    case (Some ob')
    with assms that reserve_buffer_fields [OF Some] show ?thesis
      by simp (intro sc_accounts_quiet; auto simp: sc_op_defs)
  qed (use assms in \<open>simp add: sc_accounts_report_error\<close>)
  have "sc_accounts ob (ob, [])" using assms by (intro sc_accounts_quiet) auto
  then show ?thesis unfolding send_handler_done_def Let_def using q [unfolded Let_def]
    by (cases "sc_state ob") simp_all
qed

lemma connector_handler_accounts:
  assumes "\<not> gone ob" "sc_state ob = STATE_CONNECTING"
  shows "sc_accounts ob (connector_handler smax con_ok alloc ob is_error)"
proof (cases "is_error \<or> \<not> con_ok")
  case True
  with sc_accounts_report_error(1) [OF assms(1)] show ?thesis by (auto simp: connector_handler_def)
next
  case False
  let ?ob = "ob\<lparr>send_out := False, recv_out := None\<rparr>"
  let ?n = "length (auth_infos ob)"
  let ?sz = "bsize_add smax (bsize_fromsize 2) (bsize_mul smax (bsize_fromsize ?n) (bsize_fromsize 1))"
  show ?thesis
  proof (cases "?n = 0 \<or> ?n > 255 \<or> reserve_buffer alloc ?ob ?sz = None")
    case True
    then have "connector_handler smax con_ok alloc ob is_error =
        (?ob\<lparr>gone := True\<rparr>, [SC_con_init, SC_control_init, SC_control_free, SC_con_free, SC_handler BSOCKSCLIENT_EVENT_ERROR])"
      using False by (auto simp: connector_handler_def sc_op_defs)
    with assms show ?thesis by (simp add: sc_accounts_def)
  next
    case ok: False
    then obtain ob' where r: "reserve_buffer alloc ?ob ?sz = Some ob'" by auto
    with ok False assms reserve_buffer_fields [OF r] show ?thesis
      by (simp add: connector_handler_def sc_op_defs sc_accounts_def)
  qed
qed

lemma sc_inv_recv_state:
  assumes "sc_inv ob tx rx" "\<not> gone ob" "recv_out ob \<noteq> None \<or> send_out ob"
  shows "sc_state ob \<notin> {STATE_CONNECTING, STATE_UP}"
  using assms by (auto simp: sc_inv_def)

lemma sc_step_accounts:
  assumes inv: "sc_inv ob tx rx" and en: "sc_enabled ob e"
  shows "sc_accounts ob (sc_step smax ob e)"
proof (cases e)
  case (SC_received alloc bs)
  then have st: "\<not> gone ob" "sc_state ob \<notin> {STATE_CONNECTING, STATE_UP}"
    using sc_inv_recv_state [OF inv] en by (auto split: option.splits)
  then have st': "\<not> gone (absorb ob bs)" "sc_state (absorb ob bs) \<notin> {STATE_CONNECTING, STATE_UP}" by auto
  have d: "sc_accounts (absorb ob bs) (do_receive (absorb ob bs))" "sc_accounts (absorb ob bs) (absorb ob bs, [])"
    using st' by (intro sc_accounts_quiet; simp add: do_receive_def)+
  note acc = received_hello_accounts [OF st', of smax alloc] received_other_accounts(1,2) [OF st']
    received_other_accounts(3) [OF st', of smax alloc] d
  have "sc_accounts (absorb ob bs) (sc_step smax ob e)"
  proof (cases "recv_len (absorb ob bs) < recv_total (absorb ob bs)")
    case True
    with acc show ?thesis by (simp only: SC_received sc_step.simps recv_handler_done_absorb Let_def if_True)
  next
    case False
    with acc show ?thesis
      unfolding SC_received sc_step.simps recv_handler_done_absorb Let_def if_not_P [OF False]
      by (cases "sc_state (absorb ob bs)") (simp_all only: socks_state.case)
  qed
  then show ?thesis by (subst (asm) sc_accounts_cong [of "absorb ob bs" ob]) simp_all
next
  case (SC_sent alloc)
  let ?ob = "ob\<lparr>send_out := False\<rparr>"
  have "\<not> gone ?ob" "sc_state ?ob \<notin> {STATE_CONNECTING, STATE_UP}" using sc_inv_recv_state [OF inv] en SC_sent by auto
  from send_handler_done_accounts [OF this, of smax alloc] sc_accounts_cong [of ?ob ob] show ?thesis by (simp add: SC_sent)
next
  case (SC_connector is_error con_ok alloc)
  with en connector_handler_accounts show ?thesis by simp
next
  case (SC_connection rc)
  with en sc_accounts_report_error show ?thesis by simp
qed


lemma sc_accounts_trans:
  assumes "\<not> gone (fst r1)" "sc_accounts ob r1" "sc_accounts (fst r1) r2"
  shows "sc_accounts ob (fst r2, snd r1 @ snd r2)"
proof -
  obtain ob1 a1 ob2 a2 where r: "r1 = (ob1, a1)" "r2 = (ob2, a2)" by (cases r1, cases r2)
  have up: "sc_state ob = STATE_UP \<longrightarrow> sc_state ob1 = STATE_UP" "sc_state ob1 = STATE_UP \<longrightarrow> sc_state ob2 = STATE_UP"
    using assms(2,3) by (auto simp: sc_accounts_def Let_def r)
  note acc1 = assms(2) [unfolded sc_accounts_def Let_def r fst_conv snd_conv]
    and acc2 = assms(3) [unfolded sc_accounts_def Let_def r fst_conv snd_conv]
  from acc1 assms(1) have e1: "events_of a1 = (if sc_state ob1 = STATE_UP \<and> sc_state ob \<noteq> STATE_UP then [BSOCKSCLIENT_EVENT_UP] else [])"
    by (simp only: r fst_conv if_False) (elim conjE exE, simp only: append_Nil2)
  from acc2 obtain err where e2: "events_of a2 = (if sc_state ob2 = STATE_UP \<and> sc_state ob1 \<noteq> STATE_UP then [BSOCKSCLIENT_EVENT_UP] else []) @ err"
      "if gone ob2 then err = [BSOCKSCLIENT_EVENT_ERROR] \<or> err = [BSOCKSCLIENT_EVENT_ERROR_CLOSED] \<and> sc_state ob2 = STATE_UP else err = []"
    by blast
  have ev: "\<exists>err. events_of (a1 @ a2) = (if sc_state ob2 = STATE_UP \<and> sc_state ob \<noteq> STATE_UP then [BSOCKSCLIENT_EVENT_UP] else []) @ err \<and>
      (if gone ob2 then err = [BSOCKSCLIENT_EVENT_ERROR] \<or> err = [BSOCKSCLIENT_EVENT_ERROR_CLOSED] \<and> sc_state ob2 = STATE_UP else err = [])"
    by (rule exI [of _ err]) (use up e1 e2 in \<open>cases "sc_state ob1 = STATE_UP"; simp\<close>)
  have num: "x + count_list (a1 @ a2) i = z + count_list (a1 @ a2) f"
    if "x + count_list a1 i = y + count_list a1 f" "y + count_list a2 i = z + count_list a2 f" for x y z i f
    using that by simp
  note held = num [OF acc1 [THEN conjunct2, THEN conjunct2, THEN conjunct1] acc2 [THEN conjunct2, THEN conjunct2, THEN conjunct1]]
    num [OF acc1 [THEN conjunct2, THEN conjunct2, THEN conjunct2, THEN conjunct1] acc2 [THEN conjunct2, THEN conjunct2, THEN conjunct2, THEN conjunct1]]
    num [OF acc1 [THEN conjunct2, THEN conjunct2, THEN conjunct2, THEN conjunct2, THEN conjunct1] acc2 [THEN conjunct2, THEN conjunct2, THEN conjunct2, THEN conjunct2, THEN conjunct1]]
  have rest: "count_list (a1 @ a2) SC_connector_init = 0" "count_list (a1 @ a2) SC_connector_free = 0"
      "auth_infos ob2 = auth_infos ob" "dest_addr ob2 = dest_addr ob"
    using acc1 acc2 by (simp_all only: count_list_append)
  from up have "sc_state ob = STATE_UP \<longrightarrow> sc_state ob2 = STATE_UP" by blast
  with ev held rest show ?thesis unfolding sc_accounts_def Let_def r fst_conv snd_conv by (intro conjI)
qed

lemma sc_accounts_refl: "\<not> gone ob \<Longrightarrow> sc_accounts ob (ob, [])"
  by (simp add: sc_accounts_def Let_def)

lemma sc_run_accounts:
  "sc_run smax ob es = Some (ob', acts) \<Longrightarrow> 65535 \<le> smax \<Longrightarrow> sc_inv ob tx rx \<Longrightarrow> \<not> gone ob \<Longrightarrow> sc_accounts ob (ob', acts)"
proof (induction es arbitrary: ob tx rx acts)
  case (Cons e es)
  from Cons.prems(1) obtain acts' where r: "sc_enabled ob e" "sc_run smax (fst (sc_step smax ob e)) es = Some (ob', acts')"
    "acts = snd (sc_step smax ob e) @ acts'"
    by (auto simp del: sc_step.simps split: if_splits option.splits)
  note acc = sc_step_accounts [OF Cons.prems(3) r(1), of smax]
  show ?case
  proof (cases "gone (fst (sc_step smax ob e))")
    case True
    then have "es = []" using r(2) by (cases es; cases "hd es") (auto simp del: sc_step.simps split: if_splits)
    then have "(ob', acts) = sc_step smax ob e" using r(2,3) by (simp add: prod_eq_iff del: sc_step.simps)
    with acc show ?thesis by metis
  next
    case False
    have "sc_accounts (fst (sc_step smax ob e)) (ob', acts')"
      using Cons.IH [OF r(2) Cons.prems(2) sc_step_inv [OF Cons.prems(2,3) r(1)] False] .
    from sc_accounts_trans [OF False acc this] show ?thesis by (simp add: r(3))
  qed
qed (simp add: sc_accounts_refl)

lemma BSocksClient_Free_counts:
  "snd (BSocksClient_Free ob) = (if sc_state ob = STATE_CONNECTING then [] else if sc_state ob = STATE_UP then [SC_up_free, SC_con_free]
     else [SC_control_free, SC_con_free]) @ [SC_connector_free]"
  by (auto simp: BSocksClient_Free_def sc_op_defs split: if_splits)

subsection \<open>A conforming server\<close>

definition env_ok :: "sc_event \<Rightarrow> bool" where
  "env_ok e = (case e of SC_connector is_error con_ok alloc \<Rightarrow> \<not> is_error \<and> con_ok \<and> alloc \<noteq> None
     | SC_connection _ \<Rightarrow> False | SC_received alloc _ \<Rightarrow> alloc \<noteq> None | SC_sent alloc \<Rightarrow> alloc \<noteq> None)"

lemma authed_cases:
  assumes "authed ais tx rx"
  obtains (none) ai where "chosen ais 0 ai" "rx = [5, 0]"
  | (password) ai where "chosen ais 2 ai" "cred_ok ai" "rx = [5, 2, 1, 0]"
  using assms by (auto simp: authed_def)

lemma handshake_stream:
  assumes "handshake ais dest tx s"
  obtains tx0 rx0 r atyp a where "authed ais tx0 rx0" "s = rx0 @ [5, 0, r, atyp] @ a" "addr_len atyp = Some (length a)"
    "6 \<le> length a" "2 \<le> length rx0"
proof -
  obtain tx0 rx0 r atyp a where h: "authed ais tx0 rx0" "s = rx0 @ [5, 0, r, atyp] @ a" "addr_len atyp = Some (length a)"
    using assms by (auto simp: handshake_def)
  moreover have "6 \<le> length a" using h(3) by (auto simp: addr_len_def split: if_splits)
  moreover have "2 \<le> length rx0" using h(1) by (auto elim: authed_cases)
  ultimately show thesis by (rule that)
qed

lemma authed_prefix_unique:
  assumes "authed ais tx rx" "authed ais' tx' rx'" "prefix rx s" "prefix rx' s"
  shows "rx = rx'"
  using assms by (elim authed_cases) (auto simp: prefix_def)

text \<open>No handler reports an error when the environment and the server cooperate.\<close>

lemma reserve_ok: "alloc \<noteq> None \<Longrightarrow> \<not> is_overflow sz \<Longrightarrow> \<exists>ob'. reserve_buffer alloc ob sz = Some ob' \<and> gone ob' = gone ob"
  using reserve_buffer_None [of alloc ob sz] reserve_buffer_fields by (cases "reserve_buffer alloc ob sz") blast+

lemma auth_finished_ok:
  assumes "65535 \<le> smax" "sc_base ob" "alloc \<noteq> None" "\<not> gone ob"
  shows "\<not> gone (fst (auth_finished smax alloc ob))"
  using assms by (elim auth_finished_request [of smax ob alloc, rotated 2]) (auto simp: sc_base_def)

lemma received_hello_ok:
  assumes "65535 \<le> smax" "sc_base ob" "alloc \<noteq> None" "\<not> gone ob" "buf ob ! 0 = 5" "chosen (auth_infos ob) (buf ob ! 1) ai"
    and "auth_type ai = 2 \<longrightarrow> cred_ok ai"
  shows "\<not> gone (fst (received_hello smax alloc ob))"
proof -
  obtain ob' where "reserve_buffer alloc ob (bsize_fromsize (Suc (Suc (Suc (length (au_username ai) + length (au_password ai)))))) = Some ob'" "gone ob' = gone ob"
    using reserve_ok [OF assms(3) bvalue_simps(2)] by blast
  then show ?thesis
    using assms auth_finished_ok [OF assms(1-4)]
    by (auto simp: received_hello_def chosen_def Let_def write_buf_def send_buf_def cred_ok_def)
qed

lemma send_handler_done_ok:
  assumes "65535 \<le> smax" "alloc \<noteq> None" "\<not> gone ob"
  shows "\<not> gone (fst (send_handler_done smax alloc ob))"
proof -
  have "\<not> is_overflow (bsize_add smax (bsize_fromsize 4) (bsize_fromsize 18))" using assms(1) bvalue_simps(4) [of smax 4 18] by simp
  then have sz: "\<not> is_overflow (bsize_add smax (bsize_fromsize 4) (bsize_max (bsize_fromsize 6) (bsize_fromsize 18)))"
    by (simp add: bvalue_simps(6))
  show ?thesis
    using assms(3) reserve_ok [OF assms(2) sz, of ob] reserve_ok [OF assms(2) bvalue_simps(2) [of 2], of ob]
    by (cases "sc_state ob") (auto simp: send_handler_done_def Let_def split_beta)
qed

lemma connector_handler_ok:
  assumes "65535 \<le> smax" "alloc \<noteq> None" "\<not> gone ob" "0 < length (auth_infos ob)" "length (auth_infos ob) \<le> 255"
  shows "\<not> gone (fst (connector_handler smax True alloc ob False))"
proof -
  let ?ob = "ob\<lparr>send_out := False, recv_out := None\<rparr>"
  let ?sz = "bsize_add smax (bsize_fromsize 2) (bsize_mul smax (bsize_fromsize (length (auth_infos ob))) (bsize_fromsize 1))"
  have "\<not> is_overflow ?sz"
    using assms bvalue_simps(4) [of smax 2 "length (auth_infos ob)"] bvalue_simps(5) [of smax "length (auth_infos ob)"] by simp
  from reserve_ok [OF assms(2) this, of ?ob] assms show ?thesis
    by (auto simp: connector_handler_def Let_def init_control_io_def write_buf_def send_buf_def)
qed


lemma received_header_ok:
  assumes "\<not> gone ob" "buf ob ! 0 = 5" "buf ob ! 1 = 0" "addr_len (buf ob ! 3) \<noteq> None"
  shows "\<not> gone (fst (received_reply_header ob))"
  using assms by (auto simp: received_reply_header_def Let_def addr_len_def split_beta split: if_splits)

lemma prefix_take_nth: "prefix xs ys \<Longrightarrow> i < length xs \<Longrightarrow> xs ! i = ys ! i"
  by (auto simp: prefix_def nth_append)

lemma sc_received_ok:
  assumes smax: "65535 \<le> smax" and inv: "sc_inv ob tx rx" "\<not> gone ob" and out: "recv_out ob = Some n" "length bs \<le> n"
    and hs: "handshake (auth_infos ob) (dest_addr ob) txs s" "prefix (rx @ bs) s" and alloc: "alloc \<noteq> None"
  shows "\<not> gone (fst (sc_step smax ob (SC_received alloc bs)))"
proof (cases "recv_len (absorb ob bs) < recv_total (absorb ob bs)")
  case True
  then have "sc_step smax ob (SC_received alloc bs) = do_receive (absorb ob bs)" by (simp add: recv_handler_done_absorb Let_def)
  with inv(2) show ?thesis by simp
next
  case full: False
  let ?ob = "absorb ob bs"
  have nc: "sc_state ob \<noteq> STATE_CONNECTING" using inv out by (auto simp: sc_inv_def)
  then have base: "sc_base ?ob" using sc_inv_base [OF inv(1)] by simp
  have ng: "\<not> gone ?ob" using inv(2) by simp
  note cpl = receiving_complete [OF _ out full]
  obtain tx1 rx1 v' atyp' a' where s: "authed (auth_infos ob) tx1 rx1" "s = rx1 @ [5, 0, v', atyp'] @ a'" "addr_len atyp' = Some (length a')"
    using hs(1) by (rule handshake_stream)
  have step: "sc_step smax ob (SC_received alloc bs) = (case sc_state ob of STATE_SENT_HELLO \<Rightarrow> received_hello smax alloc ?ob
      | STATE_SENT_REQUEST \<Rightarrow> received_reply_header ?ob
      | STATE_SENT_PASSWORD \<Rightarrow> received_password_reply smax alloc ?ob
      | STATE_RECEIVED_REPLY_HEADER \<Rightarrow> received_reply_rest ?ob | _ \<Rightarrow> (?ob, []))"
    using full by (simp add: recv_handler_done_absorb Let_def)
  show ?thesis
  proof (cases "sc_state ob")
    case STATE_SENT_HELLO
    then have r: "receiving ob 0 2 rx" using inv by (auto simp: sc_inv_def)
    have m: "rx @ bs = [buf ?ob ! 0, buf ?ob ! 1]"
      by (rule slice_0_2D [OF cpl(1) [OF r]]) (use cpl(2) [OF r] r in \<open>simp add: receiving_def\<close>)
    obtain ai where "buf ?ob ! 0 = 5" "chosen (auth_infos ob) (buf ?ob ! 1) ai" "buf ?ob ! 1 = 2 \<longrightarrow> cred_ok ai"
      using s(1) hs(2) unfolding m s(2) by (elim authed_cases) auto
    moreover from this have "auth_type ai = buf ?ob ! 1" by (auto simp: chosen_def find_Some_iff)
    ultimately show ?thesis
      using received_hello_ok [OF smax base alloc ng, of ai] STATE_SENT_HELLO by (simp only: step socks_state.case absorb_simps) simp
  next
    case STATE_SENT_PASSWORD
    then obtain m0 where r: "rx = [5, 2] @ m0" "receiving ob 0 2 m0" using inv by (auto simp: sc_inv_def)
    have m: "m0 @ bs = [buf ?ob ! 0, buf ?ob ! 1]"
      by (rule slice_0_2D [OF cpl(1) [OF r(2)]]) (use cpl(2) [OF r(2)] r(2) in \<open>simp add: receiving_def\<close>)
    have "prefix ([5, 2] @ [buf ?ob ! 0, buf ?ob ! 1]) s" using hs(2) unfolding r(1) m [symmetric] by simp
    then have "buf ?ob ! 0 = 1 \<and> buf ?ob ! 1 = 0"
      using s(1) unfolding s(2) by (elim authed_cases) auto
    then show ?thesis
      using auth_finished_ok [OF smax base alloc ng] STATE_SENT_PASSWORD
      by (simp only: step socks_state.case) (simp add: received_password_reply_def)
  next
    case STATE_SENT_REQUEST
    then obtain tx0 rx0 m0 where r: "authed (auth_infos ob) tx0 rx0" "rx = rx0 @ m0" "receiving ob 0 4 m0" using inv by (auto simp: sc_inv_def)
    have m: "m0 @ bs = [buf ?ob ! 0, buf ?ob ! 1, buf ?ob ! 2, buf ?ob ! 3]"
      by (rule slice_0_4D [OF cpl(1) [OF r(3)]]) (use cpl(2) [OF r(3)] r(3) in \<open>simp add: receiving_def\<close>)
    have p: "prefix (rx0 @ [buf ?ob ! 0, buf ?ob ! 1, buf ?ob ! 2, buf ?ob ! 3]) s" using hs(2) unfolding r(2) m [symmetric] by simp
    then have "rx0 = rx1" by (intro authed_prefix_unique [OF r(1) s(1)]) (auto simp: s(2) prefix_def)
    with p have "buf ?ob ! 0 = 5 \<and> buf ?ob ! 1 = 0 \<and> buf ?ob ! 3 = atyp'" unfolding s(2) by simp
    with s(3) show ?thesis
      using received_header_ok [OF ng] STATE_SENT_REQUEST by (simp only: step socks_state.case) simp
  next
    case STATE_RECEIVED_REPLY_HEADER
    then show ?thesis using ng
      by (simp only: step socks_state.case) (simp add: received_reply_rest_def Let_def free_control_io_def init_up_io_def)
  qed (use step ng in simp_all)
qed

lemma sc_step_ok:
  assumes "65535 \<le> smax" "sc_inv ob tx rx" "sc_enabled ob e" "env_ok e"
    and hs: "handshake (auth_infos ob) (dest_addr ob) txs s" "prefix (rx @ rx_of [e]) s"
  shows "\<not> gone (fst (sc_step smax ob e))"
proof (cases e)
  case (SC_received alloc bs)
  with assms(3) obtain n where "\<not> gone ob" "recv_out ob = Some n" "length bs \<le> n" by (auto split: option.splits)
  with sc_received_ok [OF assms(1,2) _ _ _ hs(1), of n bs alloc] assms(4) hs(2) SC_received show ?thesis
    by (simp add: env_ok_def del: sc_step.simps)
next
  case (SC_sent alloc)
  with assms send_handler_done_ok [of smax alloc "ob\<lparr>send_out := False\<rparr>"] show ?thesis by (simp add: env_ok_def)
next
  case (SC_connector is_error con_ok alloc)
  with assms connector_handler_ok [of smax alloc ob] show ?thesis by (auto simp: env_ok_def handshake_def)
next
  case (SC_connection b)
  with assms(4) show ?thesis by (simp add: env_ok_def)
qed

lemma sc_inv_complete_up:
  assumes inv: "sc_inv ob tx s" "\<not> gone ob" and hs: "handshake (auth_infos ob) (dest_addr ob) txs s"
  shows "sc_state ob = STATE_UP"
proof -
  obtain tx1 rx1 v' atyp' a' where s: "authed (auth_infos ob) tx1 rx1" "s = rx1 @ [5, 0, v', atyp'] @ a'" "addr_len atyp' = Some (length a')"
      "6 \<le> length a'" "2 \<le> length rx1"
    using hs by (rule handshake_stream)
  then have len: "12 \<le> length s" by simp
  have rcv: "length m < t" if "receiving ob d t m" for d t m
    using that by (auto simp: receiving_def)
  have au: "length r \<le> 4" if "authed (auth_infos ob) t r" for t r using that by (auto elim: authed_cases)
  show ?thesis
  proof (cases "sc_state ob")
    case STATE_RECEIVED_REPLY_HEADER
    then obtain tx0 rx0 v atyp al m where r: "authed (auth_infos ob) tx0 rx0" "s = rx0 @ [5, 0, v, atyp] @ m"
      "addr_len atyp = Some al" "receiving ob 4 al m" using inv by (auto simp: sc_inv_def)
    have "prefix rx0 s" "prefix rx1 s" by (simp add: r(2), simp add: s(2))
    with r(1) s(1) have "rx0 = rx1" by (rule authed_prefix_unique)
    with r(2) s(2) have "atyp = atyp'" "m = a'" by auto
    with r(3) s(3) rcv [OF r(4)] show ?thesis by simp
  next
    case STATE_SENT_REQUEST
    then obtain tx0 rx0 m where "authed (auth_infos ob) tx0 rx0" "s = rx0 @ m" "receiving ob 0 4 m" using inv by (auto simp: sc_inv_def)
    with au rcv have "length rx0 \<le> 4" "length m < 4" "length s = length rx0 + length m" by auto
    with len show ?thesis by simp
  next
    case STATE_SENDING_REQUEST
    then obtain tx0 where "authed (auth_infos ob) tx0 s" using inv by (auto simp: sc_inv_def)
    with au [of tx0 s] len show ?thesis by simp
  qed (use inv len rcv in \<open>force simp: sc_inv_def\<close>)+
qed

lemma sc_run_ok:
  "sc_run smax ob es = Some (ob', acts) \<Longrightarrow> 65535 \<le> smax \<Longrightarrow> sc_inv ob tx rx \<Longrightarrow> \<not> gone ob \<Longrightarrow> list_all env_ok es \<Longrightarrow>
   handshake (auth_infos ob) (dest_addr ob) txs s \<Longrightarrow> prefix (rx @ rx_of es) s \<Longrightarrow>
   \<not> gone ob' \<and> auth_infos ob' = auth_infos ob \<and> dest_addr ob' = dest_addr ob"
proof (induction es arbitrary: ob tx rx acts)
  case (Cons e es)
  from Cons.prems(1) obtain acts' where r: "sc_enabled ob e" "sc_run smax (fst (sc_step smax ob e)) es = Some (ob', acts')"
    by (auto simp del: sc_step.simps split: if_splits option.splits)
  have rx: "rx_of (e # es) = rx_of [e] @ rx_of es" by (cases e) simp_all
  have "prefix (rx @ rx_of [e]) (rx @ rx_of (e # es))" unfolding rx by simp
  with Cons.prems(7) have p: "prefix (rx @ rx_of [e]) s" by (rule prefix_order.trans [rotated])
  have fields: "auth_infos (fst (sc_step smax ob e)) = auth_infos ob" "dest_addr (fst (sc_step smax ob e)) = dest_addr ob"
    using sc_step_accounts [OF Cons.prems(3) r(1), of smax] by (auto simp: sc_accounts_def Let_def)
  have ng: "\<not> gone (fst (sc_step smax ob e))"
    using sc_step_ok [OF Cons.prems(2,3) r(1) _ Cons.prems(6) p] Cons.prems(5) by simp
  show ?case
    using Cons.IH [OF r(2) Cons.prems(2) sc_step_inv [OF Cons.prems(2,3) r(1)] ng] Cons.prems(5-7) fields rx by simp
qed simp


subsection \<open>Properties\<close>

text \<open>C12.  When the SOCKS client is up, a complete and successful handshake has taken place: the packets sent
  are the hello with the configured methods, the credentials of the chosen method if it needs any, and
  the request for the destination, and nothing else; the bytes received are exactly the server's
  replies to them, all positive.  No byte of the data that follows the handshake has been consumed.
  Allocations may have failed or succeeded in any way, and the bytes arrived in any pieces.\<close>

theorem BSocksClient_up_handshake:
  assumes "65535 \<le> smax" "sc_args_ok ais dest" "BSocksClient_Init ok ais dest = Some (ob0, acts0)"
    and "sc_run smax ob0 es = Some (ob, acts)" "\<not> gone ob" "sc_state ob = STATE_UP"
  shows "handshake ais dest (tx_of acts) (rx_of es)"
proof -
  have i: "sc_inv ob0 [] []" "\<not> gone ob0" "auth_infos ob0 = ais" "dest_addr ob0 = dest"
    using BSocksClient_Init_inv [OF assms(3,2)] by auto
  have "sc_accounts ob0 (ob, acts)" by (rule sc_run_accounts [OF assms(4,1) i(1,2)])
  then have "auth_infos ob = ais" "dest_addr ob = dest" using i by (auto simp: sc_accounts_def Let_def)
  with sc_run_inv [OF assms(4,1) i(1)] assms(5,6) show ?thesis by (simp add: sc_inv_def)
qed

definition ex_ais :: "BSocksClient_auth_info list" where
  "ex_ais = [BSocksClient_auth_none, BSocksClient_auth_password [97] [98]]"

definition ex_dest :: BAddr where
  "ex_dest = BADDR_IPV4 0x0100007F 0x5000"

definition ex_ob :: BSocksClient where
  "ex_ob = fst (the (BSocksClient_Init True ex_ais ex_dest))"

definition ex_alloc :: alloc where
  "ex_alloc = Some (\<lambda>_. 0)"

definition ex_server :: "byte list" where
  "ex_server = [5, 2, 1, 0, 5, 0, 0, 1, 10, 0, 0, 1, 0, 80]"

definition ex_socks_run :: "sc_event list" where
  "ex_socks_run = [SC_connector False True ex_alloc, SC_sent ex_alloc, SC_received ex_alloc [5], SC_received ex_alloc [2], SC_sent ex_alloc,
     SC_received ex_alloc [1, 0], SC_sent ex_alloc, SC_received ex_alloc [5, 0, 0], SC_received ex_alloc [1],
     SC_received ex_alloc [10, 0, 0, 1, 0], SC_received ex_alloc [80]]"

definition ex_result :: "BSocksClient \<times> sc_act list" where
  "ex_result = the (sc_run 65535 ex_ob ex_socks_run)"

lemma ex_init: "BSocksClient_Init True ex_ais ex_dest = Some (ex_ob, [SC_connector_init])"
  by (simp add: ex_ob_def BSocksClient_Init_def)

lemma ex_socks_ran: "sc_run 65535 ex_ob ex_socks_run = Some (fst ex_result, snd ex_result)"
proof -
  have "sc_run 65535 ex_ob ex_socks_run \<noteq> None" by code_simp
  then show ?thesis by (auto simp: ex_result_def)
qed

lemma ex_args: "sc_args_ok ex_ais ex_dest"
  by code_simp

lemma ex_handshake: "handshake ex_ais ex_dest [hello_msg ex_ais, password_msg (BSocksClient_auth_password [97] [98]), request_msg ex_dest] ex_server"
  unfolding handshake_def
  by (intro conjI exI [of _ "[hello_msg ex_ais, password_msg (BSocksClient_auth_password [97] [98])]"] exI [of _ "[5, 2, 1, 0]"]
        exI [of _ 0] exI [of _ 1] exI [of _ "[10, 0, 0, 1, 0, 80]"])
     (simp_all add: ex_ais_def authed_def chosen_def cred_ok_def BSocksClient_auth_none_def BSocksClient_auth_password_def
        ex_server_def addr_len_def)

theorem BSocksClient_up_handshake_witness:
  "handshake ex_ais ex_dest [[5, 2, 0, 2], [1, 1, 97, 1, 98], [5, 1, 0, 1, 127, 0, 0, 1, 0, 80]] ex_server"
proof -
  have "\<not> gone (fst ex_result) \<and> sc_state (fst ex_result) = STATE_UP" by code_simp
  moreover have "tx_of (snd ex_result) = [[5, 2, 0, 2], [1, 1, 97, 1, 98], [5, 1, 0, 1, 127, 0, 0, 1, 0, 80]]" by code_simp
  moreover have "rx_of ex_socks_run = ex_server" by code_simp
  ultimately show ?thesis using BSocksClient_up_handshake [OF _ ex_args ex_init ex_socks_ran] by simp
qed



text \<open>C34.  The events a SOCKS client reports: nothing, or up, or an error, or up and then an error, where the
  end of the stream is reported as such only when up; and the object is finished exactly after an error.
  Moreover, after \<^verbatim>\<open>BSocksClient_Free\<close> every resource that was acquired (connector, connection, control
  and data interfaces) has been released exactly as often, and the buffer is gone.\<close>

theorem BSocksClient_events_and_resources:
  assumes "65535 \<le> smax" "sc_args_ok ais dest" "BSocksClient_Init ok ais dest = Some (ob0, acts0)"
    and "sc_run smax ob0 es = Some (ob, acts)" and "BSocksClient_Free ob = (ob', acts')"
  shows "(\<exists>up err. events_of acts = up @ err \<and> up = (if sc_state ob = STATE_UP then [BSOCKSCLIENT_EVENT_UP] else []) \<and>
      (if gone ob then err = [BSOCKSCLIENT_EVENT_ERROR] \<or> err = [BSOCKSCLIENT_EVENT_ERROR_CLOSED] \<and> sc_state ob = STATE_UP
       else err = [])) \<and>
    (let al = acts0 @ acts @ acts' in
      count_list al SC_connector_init = count_list al SC_connector_free \<and> count_list al SC_con_init = count_list al SC_con_free \<and>
      count_list al SC_control_init = count_list al SC_control_free \<and> count_list al SC_up_init = count_list al SC_up_free \<and>
      sc_buffer ob' = None)"
proof -
  have i: "sc_inv ob0 [] []" "\<not> gone ob0" "sc_state ob0 = STATE_CONNECTING"
    using BSocksClient_Init_inv [OF assms(3,2)] by auto
  note acc = sc_run_accounts [OF assms(4,1) i(1,2), unfolded sc_accounts_def Let_def i(3) fst_conv snd_conv]
  have ev: "\<exists>up err. events_of acts = up @ err \<and> up = (if sc_state ob = STATE_UP then [BSOCKSCLIENT_EVENT_UP] else []) \<and>
      (if gone ob then err = [BSOCKSCLIENT_EVENT_ERROR] \<or> err = [BSOCKSCLIENT_EVENT_ERROR_CLOSED] \<and> sc_state ob = STATE_UP
       else err = [])"
    using acc [THEN conjunct1] by (cases "sc_state ob = STATE_UP") auto
  have a0: "acts0 = [SC_connector_init]" using assms(3) by (auto simp: BSocksClient_Init_def split: if_splits)
  have fr: "acts' = (if sc_state ob = STATE_CONNECTING then [] else if sc_state ob = STATE_UP then [SC_up_free, SC_con_free]
      else [SC_control_free, SC_con_free]) @ [SC_connector_free]" "sc_buffer ob' = None"
    using assms(5) by (auto simp: BSocksClient_Free_def sc_op_defs split: if_splits)
  from acc have "count_list acts SC_con_init = of_bool (sc_state ob \<noteq> STATE_CONNECTING) + count_list acts SC_con_free"
    "count_list acts SC_control_init = of_bool (sc_state ob \<notin> {STATE_CONNECTING, STATE_UP}) + count_list acts SC_control_free"
    "count_list acts SC_up_init = of_bool (sc_state ob = STATE_UP) + count_list acts SC_up_free"
    "count_list acts SC_connector_init = 0" "count_list acts SC_connector_free = 0" by simp_all
  with ev fr show ?thesis by (cases "sc_state ob") (simp_all add: a0 Let_def)
qed

theorem BSocksClient_events_and_resources_witness:
  "events_of (snd ex_result) = [BSOCKSCLIENT_EVENT_UP]"
proof -
  have "\<not> gone (fst ex_result) \<and> sc_state (fst ex_result) = STATE_UP" by code_simp
  with BSocksClient_events_and_resources [OF _ ex_args ex_init ex_socks_ran, of "fst (BSocksClient_Free (fst ex_result))"
      "snd (BSocksClient_Free (fst ex_result))"]
  show ?thesis by simp
qed

text \<open>The handshake never gets stuck and stays within its buffer: in every state between connecting and
  up exactly one operation is outstanding, either a send or a receive, and the region a receive will
  fill is nonempty and lies within the allocated buffer.\<close>

theorem BSocksClient_progress:
  assumes "65535 \<le> smax" "sc_args_ok ais dest" "BSocksClient_Init ok ais dest = Some (ob0, acts0)"
    and "sc_run smax ob0 es = Some (ob, acts)" "\<not> gone ob" "sc_state ob \<noteq> STATE_CONNECTING" "sc_state ob \<noteq> STATE_UP"
  shows "(send_out ob \<longleftrightarrow> recv_out ob = None) \<and>
    (\<forall>n. recv_out ob = Some n \<longrightarrow> 0 < n \<and> n = recv_total ob - recv_len ob \<and>
       (\<exists>b. sc_buffer ob = Some b \<and> recv_dest ob + recv_len ob + n \<le> length b))"
proof -
  have i: "sc_inv ob0 [] []" using BSocksClient_Init_inv [OF assms(3,2)] by auto
  have inv: "sc_inv ob (tx_of acts) (rx_of es)" using sc_run_inv [OF assms(4,1) i] by simp
  consider "sending ob" | d t m where "receiving ob d t m"
    using inv assms(5-7) by (cases "sc_state ob") (auto simp: sc_inv_def)
  then show ?thesis by cases (auto simp: sending_def receiving_def buf_def)
qed

theorem BSocksClient_progress_witness:
  "\<exists>ob acts. sc_run 65535 ex_ob [SC_connector False True ex_alloc] = Some (ob, acts) \<and> send_out ob"
proof -
  let ?r = "sc_run 65535 ex_ob [SC_connector False True ex_alloc]"
  have "?r \<noteq> None" by code_simp
  then obtain ob acts where r: "?r = Some (ob, acts)" by auto
  have "\<not> gone (fst (the ?r)) \<and> sc_state (fst (the ?r)) = STATE_SENDING_HELLO \<and> recv_out (fst (the ?r)) = None" by code_simp
  with r have "\<not> gone ob" "sc_state ob = STATE_SENDING_HELLO" "recv_out ob = None" by simp_all
  with BSocksClient_progress [OF _ ex_args ex_init r] r show ?thesis by simp
qed

end
