(* ===== verification/TcpClient.thy ===== *)
theory TcpClient
  imports SocksClient
begin

text \<open>
  The TCP side of \<^verbatim>\<open>tun2socks/tun2socks.c\<close>: one \<^verbatim>\<open>struct tcp_client\<close> couples a connection of the
  embedded TCP/IP stack (the client side) with a connection through the SOCKS server.  Data of
  the client is collected in \<^verbatim>\<open>buf\<close> and passed to SOCKS; data from SOCKS is received into
  \<^verbatim>\<open>socks_recv_buf\<close> and queued to the client.  Each side can close on its own; the other side is
  kept until the data buffered for it is delivered, and the structure is freed when both are
  closed.  The TCP/IP stack is vendored code: its results are a parameter of the handlers.
\<close>

subsection \<open>State\<close>

datatype err_t = ERR_OK | ERR_MEM | ERR_ABRT | ERR_OTHER

text \<open>The results of the stack's functions during one handler: the send buffer space and the
  result of the \<open>i\<close>-th \<^verbatim>\<open>tcp_write\<close>, of \<^verbatim>\<open>tcp_output\<close> and of \<^verbatim>\<open>tcp_close\<close>.\<close>

record tcp_stack =
  tcp_sndbuf :: "nat \<Rightarrow> nat"
  tcp_write :: "nat \<Rightarrow> err_t"
  tcp_output :: err_t
  tcp_close :: err_t

text \<open>The callbacks installed on the pcb and the interface operations in progress are part of the
  state: \<open>send_req\<close> is the length of the outstanding \<^verbatim>\<open>StreamPassInterface_Sender_Send\<close>,
  \<open>recv_req\<close> says whether a \<^verbatim>\<open>StreamRecvInterface_Receiver_Recv\<close> is outstanding.  \<open>freed\<close> is set
  by \<^verbatim>\<open>client_dealloc\<close>.\<close>

record tcp_client =
  client_closed :: bool
  cl_buf :: "byte list"
  buf_used :: nat
  socks_up :: bool
  socks_closed :: bool
  socks_recv_buf :: "byte list"
  socks_recv_buf_used :: int
  socks_recv_buf_sent :: nat
  socks_recv_waiting :: bool
  socks_recv_tcp_pending :: nat
  cb_err :: bool
  cb_recv :: bool
  cb_sent :: bool
  send_req :: "nat option"
  recv_req :: bool
  freed :: bool

text \<open>Calls to the stack and to the SOCKS client that the handlers make.\<close>

datatype client_act =
    A_tcp_close | A_tcp_abort | A_tcp_recved nat | A_tcp_write "byte list" | A_tcp_output
  | A_socks_free | A_socks_send "byte list" | A_socks_recv | A_dealloc

subsection \<open>Accepting and closing\<close>

text \<open>The client structure after a successful \<^verbatim>\<open>listener_accept_func\<close>; \<open>wnd\<close> and \<open>rcv\<close> are the
  sizes of the two buffers and \<open>m1\<close>, \<open>m2\<close> their initial contents.\<close>

definition listener_accept_func :: "byte list \<Rightarrow> byte list \<Rightarrow> tcp_client" where
  "listener_accept_func m1 m2 =
     \<lparr>client_closed = False, cl_buf = m1, buf_used = 0, socks_up = False, socks_closed = False,
      socks_recv_buf = m2, socks_recv_buf_used = 0, socks_recv_buf_sent = 0, socks_recv_waiting = False,
      socks_recv_tcp_pending = 0, cb_err = True, cb_recv = True, cb_sent = False,
      send_req = None, recv_req = False, freed = False\<rparr>"

definition client_dealloc :: "tcp_client \<Rightarrow> tcp_client \<times> client_act list" where
  "client_dealloc c = (c\<lparr>freed := True\<rparr>, [A_dealloc])"

function (sequential)
  client_handle_freed_client :: "err_t \<Rightarrow> tcp_client \<Rightarrow> tcp_client \<times> client_act list" and
  client_free_client :: "err_t \<Rightarrow> tcp_client \<Rightarrow> tcp_client \<times> client_act list" and
  client_free_socks :: "err_t \<Rightarrow> tcp_client \<Rightarrow> tcp_client \<times> client_act list" where
  "client_handle_freed_client close_err c =
     (let c = c\<lparr>client_closed := True\<rparr>
      in if buf_used c > 0 \<and> \<not> socks_closed c then (c, [])
         else if \<not> socks_closed c then client_free_socks close_err c
         else client_dealloc c)"
| "client_free_client close_err c =
     (let c = c\<lparr>cb_err := False, cb_recv := False, cb_sent := False\<rparr>;
          acts = (if close_err = ERR_OK then [A_tcp_close] else [A_tcp_close, A_tcp_abort]);
          (c, acts') = client_handle_freed_client close_err c
      in (c, acts @ acts'))"
| "client_free_socks close_err c =
     (let c = (if socks_up c \<and> \<not> client_closed c then c\<lparr>cb_recv := False\<rparr> else c);
          c = c\<lparr>send_req := None, recv_req := False\<rparr>;
          c = c\<lparr>socks_closed := True\<rparr>
      in if socks_up c \<and> (socks_recv_buf_used c \<ge> 0 \<or> socks_recv_tcp_pending c > 0) \<and> \<not> client_closed c
         then (c, [A_socks_free])
         else (let (c, acts) = (if \<not> client_closed c then client_free_client close_err c else client_dealloc c)
               in (c, A_socks_free # acts)))"
  by pat_completeness auto

termination
  by (relation "measure (\<lambda>x. case x of
        Inl (e, c) \<Rightarrow> if socks_closed c then 1 else 2
      | Inr (Inl (e, c)) \<Rightarrow> if socks_closed c then 2 else 3
      | Inr (Inr (e, c)) \<Rightarrow> if client_closed c then 1 else 4)")
     (auto split: if_splits)

declare client_handle_freed_client.simps [simp del] client_free_client.simps [simp del]
  client_free_socks.simps [simp del]

definition client_abort_client :: "err_t \<Rightarrow> tcp_client \<Rightarrow> tcp_client \<times> client_act list" where
  "client_abort_client close_err c =
     (let c = c\<lparr>cb_err := False, cb_recv := False, cb_sent := False\<rparr>;
          (c, acts) = client_handle_freed_client close_err c
      in (c, A_tcp_abort # acts))"

definition client_murder :: "tcp_client \<Rightarrow> tcp_client \<times> client_act list" where
  "client_murder c =
     (let (c, acts1) = (if \<not> client_closed c
            then (c\<lparr>cb_err := False, cb_recv := False, cb_sent := False, client_closed := True\<rparr>, [A_tcp_abort])
            else (c, []));
          (c, acts2) = (if \<not> socks_closed c
            then (c\<lparr>send_req := None, recv_req := False, socks_closed := True\<rparr>, [A_socks_free]) else (c, []));
          (c, acts3) = client_dealloc c
      in (c, acts1 @ acts2 @ acts3))"

definition client_err_func :: "err_t \<Rightarrow> tcp_client \<Rightarrow> tcp_client \<times> client_act list" where
  "client_err_func close_err c = client_handle_freed_client close_err c"

subsection \<open>From the client to SOCKS\<close>

definition client_send_to_socks :: "tcp_client \<Rightarrow> tcp_client \<times> client_act list" where
  "client_send_to_socks c =
     (c\<lparr>send_req := Some (buf_used c)\<rparr>, [A_socks_send (take (buf_used c) (cl_buf c))])"

text \<open>\<open>p = None\<close> is the \<^verbatim>\<open>NULL\<close> pbuf that signals the end of the client's data.  The job that
  \<^verbatim>\<open>SYNC_COMMIT\<close> runs after a send was started is the next step of the state machine.\<close>

definition client_recv_func ::
  "err_t \<Rightarrow> tcp_client \<Rightarrow> byte list option \<Rightarrow> tcp_client \<times> client_act list \<times> err_t" where
  "client_recv_func close_err c p =
     (case p of
        None \<Rightarrow> (let (c, acts) = client_free_client close_err c in (c, acts, ERR_ABRT))
      | Some data \<Rightarrow>
          (if length data > length (cl_buf c) - buf_used c then (c, [], ERR_MEM)
           else (let c = c\<lparr>cl_buf := overwrite (buf_used c) data (cl_buf c)\<rparr>;
                     c = c\<lparr>buf_used := buf_used c + length data\<rparr>;
                     (c, acts) = (if buf_used c = length data \<and> socks_up c then client_send_to_socks c else (c, []))
                 in (c, acts, ERR_OK))))"

definition client_socks_send_handler_done ::
  "err_t \<Rightarrow> tcp_client \<Rightarrow> nat \<Rightarrow> tcp_client \<times> client_act list" where
  "client_socks_send_handler_done close_err c data_len =
     (let c = c\<lparr>send_req := None\<rparr>;
          c = c\<lparr>cl_buf := overwrite 0 (slice data_len (buf_used c - data_len) (cl_buf c)) (cl_buf c)\<rparr>;
          c = c\<lparr>buf_used := buf_used c - data_len\<rparr>;
          acts = (if \<not> client_closed c then [A_tcp_recved data_len] else []);
          (c, acts') = (if buf_used c > 0 then client_send_to_socks c
                        else if client_closed c then client_free_socks close_err c
                        else (c, []))
      in (c, acts @ acts'))"

subsection \<open>From SOCKS to the client\<close>

definition client_socks_recv_initiate :: "tcp_client \<Rightarrow> tcp_client \<times> client_act list" where
  "client_socks_recv_initiate c = (c\<lparr>recv_req := True\<rparr>, [A_socks_recv])"

text \<open>The loop of \<^verbatim>\<open>client_socks_recv_send_out\<close>, at its \<open>i\<close>-th write; the last component says
  whether \<^verbatim>\<open>tcp_write\<close> failed for good.\<close>

function send_out_loop :: "tcp_stack \<Rightarrow> nat \<Rightarrow> tcp_client \<Rightarrow> tcp_client \<times> client_act list \<times> bool" where
  "send_out_loop st i c =
     (let to_write = min (nat (socks_recv_buf_used c - int (socks_recv_buf_sent c))) (tcp_sndbuf st i) in
      if to_write = 0 then (c, [], False)
      else case tcp_write st i of
        ERR_OK \<Rightarrow>
          (let act = A_tcp_write (slice (socks_recv_buf_sent c) to_write (socks_recv_buf c));
               c = c\<lparr>socks_recv_buf_sent := socks_recv_buf_sent c + to_write,
                     socks_recv_tcp_pending := socks_recv_tcp_pending c + to_write\<rparr>
           in if int (socks_recv_buf_sent c) < socks_recv_buf_used c
              then (let (c, acts, fail) = send_out_loop st (Suc i) c in (c, act # acts, fail))
              else (c, [act], False))
      | ERR_MEM \<Rightarrow> (c, [], False)
      | _ \<Rightarrow> (c, [], True))"
  by pat_completeness auto

termination
  by (relation "measure (\<lambda>(st, i, c). nat (socks_recv_buf_used c - int (socks_recv_buf_sent c)))") auto

declare send_out_loop.simps [simp del]

text \<open>The last component is the return value: \<open>True\<close> for 0, \<open>False\<close> for -1 (the client was
  aborted).\<close>

definition client_socks_recv_send_out :: "tcp_stack \<Rightarrow> tcp_client \<Rightarrow> tcp_client \<times> client_act list \<times> bool" where
  "client_socks_recv_send_out st c =
     (let abort = (\<lambda>c acts. let (c, acts') = client_abort_client (tcp_close st) c in (c, acts @ acts', False));
          (c, acts, fail) = send_out_loop st 0 c
      in if fail then abort c acts
         else if tcp_output st \<noteq> ERR_OK then abort c (acts @ [A_tcp_output])
         else if int (socks_recv_buf_sent c) < socks_recv_buf_used c then
           (if socks_recv_tcp_pending c = 0 then abort c (acts @ [A_tcp_output])
            else (c\<lparr>socks_recv_waiting := True\<rparr>, acts @ [A_tcp_output], True))
         else (c\<lparr>socks_recv_buf_used := -1\<rparr>, acts @ [A_tcp_output], True))"

definition client_socks_recv_handler_done ::
  "tcp_stack \<Rightarrow> tcp_client \<Rightarrow> nat \<Rightarrow> tcp_client \<times> client_act list" where
  "client_socks_recv_handler_done st c data_len =
     (let c = c\<lparr>recv_req := False\<rparr> in
      if client_closed c then (c, [])
      else (let c = c\<lparr>socks_recv_buf_used := int data_len, socks_recv_buf_sent := 0, socks_recv_waiting := False\<rparr>;
                (c, acts, ok) = client_socks_recv_send_out st c
            in if \<not> ok then (c, acts)
               else if socks_recv_buf_used c = -1
               then (let (c, acts') = client_socks_recv_initiate c in (c, acts @ acts'))
               else (c, acts)))"

definition client_sent_func :: "tcp_stack \<Rightarrow> tcp_client \<Rightarrow> nat \<Rightarrow> tcp_client \<times> client_act list \<times> err_t" where
  "client_sent_func st c len =
     (let c = c\<lparr>socks_recv_tcp_pending := socks_recv_tcp_pending c - len\<rparr> in
      if socks_recv_buf_used c > 0 then
        (let c = c\<lparr>socks_recv_waiting := False\<rparr>;
             (c, acts, ok) = client_socks_recv_send_out st c
         in if \<not> ok then (c, acts, ERR_ABRT)
            else if socks_recv_buf_used c = -1 \<and> \<not> socks_closed c
            then (let (c, acts') = client_socks_recv_initiate c in (c, acts @ acts', ERR_OK))
            else (c, acts, ERR_OK))
      else if socks_closed c \<and> socks_recv_tcp_pending c = 0
      then (let (c, acts) = client_free_client (tcp_close st) c in (c, acts, ERR_ABRT))
      else (c, [], ERR_OK))"

definition client_socks_handler :: "err_t \<Rightarrow> tcp_client \<Rightarrow> socks_event \<Rightarrow> tcp_client \<times> client_act list" where
  "client_socks_handler close_err c event =
     (case event of
        BSOCKSCLIENT_EVENT_ERROR \<Rightarrow> client_free_socks close_err c
      | BSOCKSCLIENT_EVENT_UP \<Rightarrow>
          (let c = c\<lparr>socks_recv_buf_used := -1, socks_recv_tcp_pending := 0\<rparr>;
               c = (if \<not> client_closed c then c\<lparr>cb_sent := True\<rparr> else c);
               c = c\<lparr>socks_up := True\<rparr>;
               (c, acts1) = (if buf_used c > 0 then client_send_to_socks c else (c, []));
               (c, acts2) = (if \<not> client_closed c then client_socks_recv_initiate c else (c, []))
           in (c, acts1 @ acts2))
      | BSOCKSCLIENT_EVENT_ERROR_CLOSED \<Rightarrow> client_free_socks close_err c)"

subsection \<open>The state machine\<close>

text \<open>What can happen to a client that is not freed.  The guards are the call conditions that the
  stack and the SOCKS client keep: callbacks only while installed and the pcb exists, at most
  one outstanding operation per interface, completed with at most the requested length.\<close>

datatype client_event =
    Ev_client_data "byte list" | Ev_client_fin | Ev_client_err | Ev_client_sent nat
  | Ev_socks socks_event | Ev_send_done nat | Ev_recv_done "byte list" | Ev_murder

definition client_enabled :: "tcp_client \<Rightarrow> client_event \<Rightarrow> bool" where
  "client_enabled c ev \<longleftrightarrow> \<not> freed c \<and>
     (case ev of
        Ev_client_data bs \<Rightarrow> \<not> client_closed c \<and> cb_recv c \<and> bs \<noteq> []
      | Ev_client_fin \<Rightarrow> \<not> client_closed c \<and> cb_recv c
      | Ev_client_err \<Rightarrow> \<not> client_closed c \<and> cb_err c
      | Ev_client_sent n \<Rightarrow> \<not> client_closed c \<and> cb_sent c \<and> 0 < n \<and> n \<le> socks_recv_tcp_pending c
      | Ev_socks e \<Rightarrow> \<not> socks_closed c \<and> (e = BSOCKSCLIENT_EVENT_UP \<longrightarrow> \<not> socks_up c) \<and>
                       (e = BSOCKSCLIENT_EVENT_ERROR_CLOSED \<longrightarrow> socks_up c)
      | Ev_send_done n \<Rightarrow> (case send_req c of None \<Rightarrow> False | Some m \<Rightarrow> 0 < n \<and> n \<le> m)
      | Ev_recv_done bs \<Rightarrow> recv_req c \<and> bs \<noteq> [] \<and> length bs \<le> length (socks_recv_buf c)
      | Ev_murder \<Rightarrow> True)"

definition client_step :: "tcp_stack \<Rightarrow> tcp_client \<Rightarrow> client_event \<Rightarrow> tcp_client \<times> client_act list" where
  "client_step st c ev =
     (case ev of
        Ev_client_data bs \<Rightarrow> (let (c, acts, e) = client_recv_func (tcp_close st) c (Some bs) in (c, acts))
      | Ev_client_fin \<Rightarrow> (let (c, acts, e) = client_recv_func (tcp_close st) c None in (c, acts))
      | Ev_client_err \<Rightarrow> client_err_func (tcp_close st) c
      | Ev_client_sent n \<Rightarrow> (let (c, acts, e) = client_sent_func st c n in (c, acts))
      | Ev_socks e \<Rightarrow> client_socks_handler (tcp_close st) c e
      | Ev_send_done n \<Rightarrow> client_socks_send_handler_done (tcp_close st) c n
      | Ev_recv_done bs \<Rightarrow>
          client_socks_recv_handler_done st (c\<lparr>socks_recv_buf := overwrite 0 bs (socks_recv_buf c)\<rparr>) (length bs)
      | Ev_murder \<Rightarrow> client_murder c)"

text \<open>A run: a list of events, each with the stack's results for it.\<close>

fun client_run :: "tcp_client \<Rightarrow> (tcp_stack \<times> client_event) list \<Rightarrow> (tcp_client \<times> client_act list) option" where
  "client_run c [] = Some (c, [])"
| "client_run c ((st, ev) # evs) =
     (if client_enabled c ev
      then (let (c1, acts1) = client_step st c ev
            in case client_run c1 evs of None \<Rightarrow> None | Some (c2, acts2) \<Rightarrow> Some (c2, acts1 @ acts2))
      else None)"

subsection \<open>Invariant\<close>

text \<open>Data received from SOCKS is being queued to the client.\<close>

definition queuing :: "tcp_client \<Rightarrow> bool" where
  "queuing c \<longleftrightarrow> 0 < socks_recv_buf_used c \<and> socks_recv_buf_used c \<le> int (length (socks_recv_buf c)) \<and>
     int (socks_recv_buf_sent c) < socks_recv_buf_used c"

text \<open>A send to SOCKS is outstanding exactly when SOCKS is up and there is data for it.\<close>

definition send_ok :: "tcp_client \<Rightarrow> bool" where
  "send_ok c \<longleftrightarrow>
     (case send_req c of None \<Rightarrow> socks_up c \<longrightarrow> buf_used c = 0 | Some m \<Rightarrow> socks_up c \<and> 0 < m \<and> m \<le> buf_used c)"

definition recv_ok :: "tcp_client \<Rightarrow> bool" where
  "recv_ok c \<longleftrightarrow> (recv_req c \<longrightarrow> socks_up c \<and> socks_recv_buf_used c = -1)"

lemma send_ok_frame [simp]:
  "send_ok (c\<lparr>client_closed := v_client_closed\<rparr>) = send_ok c"
  "send_ok (c\<lparr>cb_err := v_cb_err\<rparr>) = send_ok c"
  "send_ok (c\<lparr>cb_recv := v_cb_recv\<rparr>) = send_ok c"
  "send_ok (c\<lparr>cb_sent := v_cb_sent\<rparr>) = send_ok c"
  "send_ok (c\<lparr>socks_recv_buf := v_socks_recv_buf\<rparr>) = send_ok c"
  "send_ok (c\<lparr>socks_recv_buf_used := v_socks_recv_buf_used\<rparr>) = send_ok c"
  "send_ok (c\<lparr>socks_recv_buf_sent := v_socks_recv_buf_sent\<rparr>) = send_ok c"
  "send_ok (c\<lparr>socks_recv_waiting := v_socks_recv_waiting\<rparr>) = send_ok c"
  "send_ok (c\<lparr>socks_recv_tcp_pending := v_socks_recv_tcp_pending\<rparr>) = send_ok c"
  "send_ok (c\<lparr>recv_req := v_recv_req\<rparr>) = send_ok c"
  "send_ok (c\<lparr>freed := v_freed\<rparr>) = send_ok c"
  "send_ok (c\<lparr>cl_buf := v_cl_buf\<rparr>) = send_ok c"
  by (simp_all add: send_ok_def split: option.split)

lemma recv_ok_frame [simp]:
  "recv_ok (c\<lparr>client_closed := v_client_closed\<rparr>) = recv_ok c"
  "recv_ok (c\<lparr>cb_err := v_cb_err\<rparr>) = recv_ok c"
  "recv_ok (c\<lparr>cb_recv := v_cb_recv\<rparr>) = recv_ok c"
  "recv_ok (c\<lparr>cb_sent := v_cb_sent\<rparr>) = recv_ok c"
  "recv_ok (c\<lparr>socks_recv_buf := v_socks_recv_buf\<rparr>) = recv_ok c"
  "recv_ok (c\<lparr>socks_recv_buf_sent := v_socks_recv_buf_sent\<rparr>) = recv_ok c"
  "recv_ok (c\<lparr>socks_recv_waiting := v_socks_recv_waiting\<rparr>) = recv_ok c"
  "recv_ok (c\<lparr>socks_recv_tcp_pending := v_socks_recv_tcp_pending\<rparr>) = recv_ok c"
  "recv_ok (c\<lparr>send_req := v_send_req\<rparr>) = recv_ok c"
  "recv_ok (c\<lparr>freed := v_freed\<rparr>) = recv_ok c"
  "recv_ok (c\<lparr>cl_buf := v_cl_buf\<rparr>) = recv_ok c"
  "recv_ok (c\<lparr>buf_used := v_buf_used\<rparr>) = recv_ok c"
  by (simp_all add: recv_ok_def)

text \<open>The four phases: both sides closed (freed); only the client closed (data for SOCKS remains);
  only SOCKS closed (data for the client is still unconfirmed); both open.\<close>

definition client_ok :: "tcp_client \<Rightarrow> bool" where
  "client_ok c \<longleftrightarrow> buf_used c \<le> length (cl_buf c) \<and>
     (if client_closed c then
        (if socks_closed c then freed c \<and> send_req c = None \<and> \<not> recv_req c
         else \<not> freed c \<and> 0 < buf_used c \<and> send_ok c \<and> recv_ok c)
      else \<not> freed c \<and> cb_err c \<and>
        (if socks_closed c then
           socks_up c \<and> cb_sent c \<and> \<not> cb_recv c \<and> 0 < socks_recv_tcp_pending c \<and> send_req c = None \<and> \<not> recv_req c \<and>
           (socks_recv_buf_used c \<noteq> -1 \<longrightarrow> queuing c \<and> socks_recv_waiting c)
         else cb_recv c \<and> send_ok c \<and>
           (if \<not> socks_up c then \<not> recv_req c \<and> \<not> cb_sent c
            else cb_sent c \<and>
              (if socks_recv_buf_used c = -1 then recv_req c
               else queuing c \<and> socks_recv_waiting c \<and> 0 < socks_recv_tcp_pending c \<and> \<not> recv_req c))))"

lemma client_ok_accept: "client_ok (listener_accept_func m1 m2)"
  by (simp add: client_ok_def send_ok_def listener_accept_func_def)

text \<open>The closing functions, case by case.\<close>

lemma handle_freed_eq:
  "\<not> socks_closed c \<Longrightarrow> client_handle_freed_client e c =
     (if 0 < buf_used c then (c\<lparr>client_closed := True\<rparr>, [])
      else (c\<lparr>client_closed := True, send_req := None, recv_req := False, socks_closed := True, freed := True\<rparr>,
            [A_socks_free, A_dealloc]))"
  "socks_closed c \<Longrightarrow> client_handle_freed_client e c = (c\<lparr>client_closed := True, freed := True\<rparr>, [A_dealloc])"
  by (simp_all add: client_handle_freed_client.simps client_free_socks.simps client_dealloc_def Let_def)

lemma free_client_eq:
  "client_free_client e c =
     (let r = client_handle_freed_client e (c\<lparr>cb_err := False, cb_recv := False, cb_sent := False\<rparr>)
      in (fst r, (if e = ERR_OK then [A_tcp_close] else [A_tcp_close, A_tcp_abort]) @ snd r))"
  by (simp add: client_free_client.simps Let_def split_beta)

lemma free_socks_eq:
  "client_closed c \<Longrightarrow> client_free_socks e c =
     (c\<lparr>send_req := None, recv_req := False, socks_closed := True, freed := True\<rparr>, [A_socks_free, A_dealloc])"
  "\<not> client_closed c \<Longrightarrow> socks_up c \<Longrightarrow> 0 \<le> socks_recv_buf_used c \<or> 0 < socks_recv_tcp_pending c \<Longrightarrow>
   client_free_socks e c =
     (c\<lparr>cb_recv := False, send_req := None, recv_req := False, socks_closed := True\<rparr>, [A_socks_free])"
  "\<not> client_closed c \<Longrightarrow> \<not> (socks_up c \<and> (0 \<le> socks_recv_buf_used c \<or> 0 < socks_recv_tcp_pending c)) \<Longrightarrow>
   client_free_socks e c =
     (c\<lparr>cb_recv := False, send_req := None, recv_req := False, socks_closed := True, cb_err := False,
        cb_sent := False, client_closed := True, freed := True\<rparr>,
      A_socks_free # (if e = ERR_OK then [A_tcp_close] else [A_tcp_close, A_tcp_abort]) @ [A_dealloc])"
  by (simp_all add: client_free_socks.simps free_client_eq handle_freed_eq client_dealloc_def Let_def)

lemmas closing = handle_freed_eq free_client_eq free_socks_eq client_abort_client_def Let_def

text \<open>The bytes queued to the client, and how often a call was made.\<close>

fun written :: "client_act list \<Rightarrow> byte list" where
  "written [] = []"
| "written (A_tcp_write bs # acts) = bs @ written acts"
| "written (_ # acts) = written acts"

lemma written_append [simp]: "written (xs @ ys) = written xs @ written ys"
  by (induction xs rule: written.induct) simp_all

fun is_write :: "client_act \<Rightarrow> bool" where
  "is_write (A_tcp_write _) = True"
| "is_write _ = False"

lemma send_out_loop_spec:
  assumes "int (socks_recv_buf_sent c) \<le> socks_recv_buf_used c" "send_out_loop st i c = (c', acts, fail)"
  shows "\<exists>k. c' = c\<lparr>socks_recv_buf_sent := socks_recv_buf_sent c + k, socks_recv_tcp_pending := socks_recv_tcp_pending c + k\<rparr> \<and>
    int (socks_recv_buf_sent c + k) \<le> socks_recv_buf_used c \<and>
    written acts = slice (socks_recv_buf_sent c) k (socks_recv_buf c) \<and> list_all is_write acts"
  using assms
proof (induction st i c arbitrary: c' acts fail rule: send_out_loop.induct)
  case (1 st i c)
  define k where "k = min (nat (socks_recv_buf_used c - int (socks_recv_buf_sent c))) (tcp_sndbuf st i)"
  define d where "d = c\<lparr>socks_recv_buf_sent := socks_recv_buf_sent c + k, socks_recv_tcp_pending := socks_recv_tcp_pending c + k\<rparr>"
  define w where "w = A_tcp_write (slice (socks_recv_buf_sent c) k (socks_recv_buf c))"
  have unf: "send_out_loop st i c =
      (if k = 0 then (c, [], False)
       else case tcp_write st i of
         ERR_OK \<Rightarrow> (if int (socks_recv_buf_sent d) < socks_recv_buf_used d
                    then (let (c, acts, fail) = send_out_loop st (Suc i) d in (c, w # acts, fail))
                    else (d, [w], False))
       | ERR_MEM \<Rightarrow> (c, [], False) | _ \<Rightarrow> (c, [], True))"
    unfolding k_def d_def w_def by (subst send_out_loop.simps) (simp only: Let_def)
  have le: "int (socks_recv_buf_sent c + k) \<le> socks_recv_buf_used c" using 1(2) by (simp add: k_def)
  consider (none) "c' = c" "acts = []"
    | (one) "c' = d" "acts = [w]"
    | (more) c2 acts2 f2 where "k \<noteq> 0" "tcp_write st i = ERR_OK" "int (socks_recv_buf_sent d) < socks_recv_buf_used d"
        "send_out_loop st (Suc i) d = (c2, acts2, f2)" "c' = c2" "acts = w # acts2"
    using 1(3) unfolding unf by (auto split: if_splits err_t.splits prod.splits)
  then show ?case
  proof cases
    case none
    with 1(2) show ?thesis by (intro exI [of _ 0]) simp
  next
    case one
    with le show ?thesis by (intro exI [of _ k]) (simp add: d_def w_def)
  next
    case more
    from 1(1) [OF k_def more(1,2) refl _ more(3) _ more(4)] le obtain j where
      j: "c2 = d\<lparr>socks_recv_buf_sent := socks_recv_buf_sent d + j, socks_recv_tcp_pending := socks_recv_tcp_pending d + j\<rparr>"
        "int (socks_recv_buf_sent d + j) \<le> socks_recv_buf_used d"
        "written acts2 = slice (socks_recv_buf_sent d) j (socks_recv_buf d)" "list_all is_write acts2"
      by (auto simp: d_def)
    then show ?thesis using more(5,6)
      by (intro exI [of _ "k + j"]) (simp add: d_def w_def slice_append_slice add.assoc)
  qed
qed

lemma send_out_cases:
  assumes "queuing c" "client_socks_recv_send_out st c = (c', acts, ok)"
  obtains (abort) k acts1 where "\<not> ok"
      "c' = fst (client_abort_client (tcp_close st)
         (c\<lparr>socks_recv_buf_sent := socks_recv_buf_sent c + k, socks_recv_tcp_pending := socks_recv_tcp_pending c + k\<rparr>))"
      "acts = acts1 @ snd (client_abort_client (tcp_close st)
         (c\<lparr>socks_recv_buf_sent := socks_recv_buf_sent c + k, socks_recv_tcp_pending := socks_recv_tcp_pending c + k\<rparr>))"
      "written acts1 = slice (socks_recv_buf_sent c) k (socks_recv_buf c)"
      "\<forall>a \<in> set acts1. is_write a \<or> a = A_tcp_output" "int (socks_recv_buf_sent c + k) \<le> socks_recv_buf_used c"
    | (wait) k where "ok" "int (socks_recv_buf_sent c + k) < socks_recv_buf_used c" "0 < socks_recv_tcp_pending c + k"
      "c' = c\<lparr>socks_recv_buf_sent := socks_recv_buf_sent c + k, socks_recv_tcp_pending := socks_recv_tcp_pending c + k,
              socks_recv_waiting := True\<rparr>"
      "written acts = slice (socks_recv_buf_sent c) k (socks_recv_buf c)"
      "\<forall>a \<in> set acts. is_write a \<or> a = A_tcp_output"
    | (all) k where "ok" "int (socks_recv_buf_sent c + k) = socks_recv_buf_used c" "0 < k"
      "c' = c\<lparr>socks_recv_buf_sent := socks_recv_buf_sent c + k, socks_recv_tcp_pending := socks_recv_tcp_pending c + k,
              socks_recv_buf_used := -1\<rparr>"
      "written acts = slice (socks_recv_buf_sent c) k (socks_recv_buf c)"
      "\<forall>a \<in> set acts. is_write a \<or> a = A_tcp_output"
proof -
  have q: "int (socks_recv_buf_sent c) \<le> socks_recv_buf_used c" "int (socks_recv_buf_sent c) < socks_recv_buf_used c"
    using assms(1) by (simp_all add: queuing_def)
  obtain d w fail where l: "send_out_loop st 0 c = (d, w, fail)" by (metis prod_cases3)
  from send_out_loop_spec [OF q(1) l] obtain k where
    k: "d = c\<lparr>socks_recv_buf_sent := socks_recv_buf_sent c + k, socks_recv_tcp_pending := socks_recv_tcp_pending c + k\<rparr>"
      "int (socks_recv_buf_sent c + k) \<le> socks_recv_buf_used c"
      "written w = slice (socks_recv_buf_sent c) k (socks_recv_buf c)" "\<forall>a \<in> set w. is_write a"
    by (auto simp: list_all_iff)
  consider (1) w' where "\<not> ok" "c' = fst (client_abort_client (tcp_close st) d)" "w' = w \<or> w' = w @ [A_tcp_output]"
        "acts = w' @ snd (client_abort_client (tcp_close st) d)"
    | (2) "ok" "int (socks_recv_buf_sent d) < socks_recv_buf_used d" "socks_recv_tcp_pending d \<noteq> 0"
        "c' = d\<lparr>socks_recv_waiting := True\<rparr>" "acts = w @ [A_tcp_output]"
    | (3) "ok" "\<not> int (socks_recv_buf_sent d) < socks_recv_buf_used d"
        "c' = d\<lparr>socks_recv_buf_used := -1\<rparr>" "acts = w @ [A_tcp_output]"
    using assms(2) by (auto simp: client_socks_recv_send_out_def l Let_def split_beta split: if_splits)
  then show thesis
  proof cases
    case 1
    show ?thesis by (rule abort [of k w']) (use 1 k in auto)
  next
    case 2
    show ?thesis by (rule wait [of k]) (use 2 k in auto)
  next
    case 3
    show ?thesis by (rule all [of k]) (use 3 k q in auto)
  qed
qed

text \<open>The part of the invariant that does not concern the client side.\<close>

definition socks_side_ok :: "tcp_client \<Rightarrow> bool" where
  "socks_side_ok c \<longleftrightarrow> buf_used c \<le> length (cl_buf c) \<and>
     (if socks_closed c then send_req c = None \<and> \<not> recv_req c else send_ok c \<and> recv_ok c)"

lemma client_ok_socks_side: "client_ok c \<Longrightarrow> socks_side_ok c"
  by (auto simp: client_ok_def socks_side_ok_def recv_ok_def split: if_splits)

lemma ok_handle_freed:
  "socks_side_ok c \<Longrightarrow> \<not> freed c \<Longrightarrow> client_ok (fst (client_handle_freed_client e c))"
  by (cases "socks_closed c"; cases "0 < buf_used c")
     (simp_all add: handle_freed_eq client_ok_def socks_side_ok_def)

lemma ok_abort: "socks_side_ok c \<Longrightarrow> \<not> freed c \<Longrightarrow> client_ok (fst (client_abort_client e c))"
  using ok_handle_freed [of "c\<lparr>cb_err := False, cb_recv := False, cb_sent := False\<rparr>" e]
  by (simp add: client_abort_client_def Let_def split_beta socks_side_ok_def)

lemma ok_free_client: "socks_side_ok c \<Longrightarrow> \<not> freed c \<Longrightarrow> client_ok (fst (client_free_client e c))"
  using ok_handle_freed [of "c\<lparr>cb_err := False, cb_recv := False, cb_sent := False\<rparr>" e]
  by (simp add: free_client_eq Let_def socks_side_ok_def)

lemma ok_free_socks:
  assumes "client_ok c" "\<not> socks_closed c"
  shows "client_ok (fst (client_free_socks e c))"
proof (cases "client_closed c")
  case True
  with assms show ?thesis by (simp add: free_socks_eq client_ok_def)
next
  case open': False
  show ?thesis
  proof (cases "socks_up c \<and> (0 \<le> socks_recv_buf_used c \<or> 0 < socks_recv_tcp_pending c)")
    case True
    with assms open' show ?thesis
      by (cases "socks_recv_buf_used c = -1") (auto simp: free_socks_eq client_ok_def queuing_def)
  next
    case False
    with assms open' show ?thesis by (simp add: free_socks_eq client_ok_def)
  qed
qed

lemma ok_recv_func:
  assumes "client_ok c" "client_enabled c (Ev_client_data bs)"
  shows "client_ok (fst (client_recv_func e c (Some bs)))"
proof (cases "length bs > length (cl_buf c) - buf_used c")
  case True
  with assms show ?thesis by (simp add: client_recv_func_def)
next
  case False
  have "\<not> client_closed c" "cb_recv c" "bs \<noteq> []" using assms(2) by (simp_all add: client_enabled_def)
  moreover have "buf_used c \<le> length (cl_buf c)" using assms(1) by (simp add: client_ok_def)
  then have "buf_used c + length bs \<le> length (cl_buf c)" using False by linarith
  ultimately show ?thesis using assms(1) False
    by (cases "send_req c"; cases "socks_closed c"; cases "socks_up c"; cases "socks_recv_buf_used c = -1")
       (simp_all add: client_recv_func_def client_send_to_socks_def client_ok_def send_ok_def queuing_def Let_def)
qed

lemma ok_send_done:
  assumes "client_ok c" "client_enabled c (Ev_send_done n)"
  shows "client_ok (fst (client_socks_send_handler_done e c n))"
proof -
  define d where "d = c\<lparr>send_req := None, cl_buf := overwrite 0 (slice n (buf_used c - n) (cl_buf c)) (cl_buf c),
      buf_used := buf_used c - n\<rparr>"
  obtain m where m: "send_req c = Some m" "0 < n" "n \<le> m" "\<not> freed c"
    using assms(2) by (auto simp: client_enabled_def split: option.splits)
  then have n: "\<not> socks_closed c" "n \<le> buf_used c" "socks_up c" "buf_used c \<le> length (cl_buf c)"
    using assms(1) by (auto simp: client_ok_def send_ok_def split: if_splits)
  have r: "fst (client_socks_send_handler_done e c n) =
      fst (if 0 < buf_used d then client_send_to_socks d else if client_closed d then client_free_socks e d else (d, []))"
    by (simp add: client_socks_send_handler_done_def d_def Let_def split_beta)
  show ?thesis
    using assms(1) m n unfolding r
    by (cases "client_closed c"; cases "buf_used c = n"; cases "socks_recv_buf_used c = -1")
       (simp_all add: d_def client_send_to_socks_def client_ok_def send_ok_def recv_ok_def free_socks_eq queuing_def)
qed

lemma ok_recv_done:
  assumes "client_ok c" "client_enabled c (Ev_recv_done bs)"
  shows "client_ok (fst (client_socks_recv_handler_done st (c\<lparr>socks_recv_buf := overwrite 0 bs (socks_recv_buf c)\<rparr>) (length bs)))"
proof -
  define d where "d = c\<lparr>socks_recv_buf := overwrite 0 bs (socks_recv_buf c), recv_req := False\<rparr>"
  define d1 where "d1 = d\<lparr>socks_recv_buf_used := int (length bs), socks_recv_buf_sent := 0, socks_recv_waiting := False\<rparr>"
  have c: "recv_req c" "bs \<noteq> []" "length bs \<le> length (socks_recv_buf c)" "\<not> freed c"
    using assms(2) by (auto simp: client_enabled_def)
  then have up: "\<not> socks_closed c" "socks_up c"
    using assms(1) by (auto simp: client_ok_def recv_ok_def split: if_splits)
  show ?thesis
  proof (cases "client_closed c")
    case True
    with assms(1) c up show ?thesis
      by (simp add: client_socks_recv_handler_done_def client_ok_def recv_ok_def Let_def)
  next
    case False
    have q: "queuing d1" using c by (simp add: d1_def d_def queuing_def)
    obtain c' acts ok where so: "client_socks_recv_send_out st d1 = (c', acts, ok)" by (metis prod_cases3)
    have r: "fst (client_socks_recv_handler_done st (c\<lparr>socks_recv_buf := overwrite 0 bs (socks_recv_buf c)\<rparr>) (length bs)) =
        (if ok \<and> socks_recv_buf_used c' = -1 then c'\<lparr>recv_req := True\<rparr> else c')"
      using False so
      by (simp add: client_socks_recv_handler_done_def client_socks_recv_initiate_def Let_def d_def d1_def split_beta)
    show ?thesis unfolding r
    proof (rule send_out_cases [OF q so], goal_cases abort wait all)
      case (abort k acts1)
      have "socks_side_ok (d1\<lparr>socks_recv_buf_sent := socks_recv_buf_sent d1 + k, socks_recv_tcp_pending := socks_recv_tcp_pending d1 + k\<rparr>)"
        using client_ok_socks_side [OF assms(1)] up
        by (simp add: socks_side_ok_def d1_def d_def recv_ok_def)
      with abort c(4) ok_abort show ?case by (simp add: d1_def d_def)
    next
      case (wait k)
      with assms(1) c False q up show ?case
        by (simp add: client_ok_def d1_def d_def queuing_def)
    next
      case (all k)
      with assms(1) c False q up show ?case
        by (simp add: client_ok_def d1_def d_def queuing_def)
    qed
  qed
qed

lemma client_ok_queuing:
  assumes "client_ok c" "client_enabled c (Ev_client_sent n)" "0 < socks_recv_buf_used c"
  shows "queuing c" "socks_up c"
  using assms by (cases "socks_closed c"; cases "socks_up c"; simp add: client_ok_def client_enabled_def)+

lemma ok_sent:
  assumes "client_ok c" "client_enabled c (Ev_client_sent n)"
  shows "client_ok (fst (client_sent_func st c n))"
proof -
  define d where "d = c\<lparr>socks_recv_tcp_pending := socks_recv_tcp_pending c - n\<rparr>"
  define d1 where "d1 = d\<lparr>socks_recv_waiting := False\<rparr>"
  have c: "\<not> client_closed c" "cb_sent c" "0 < n" "n \<le> socks_recv_tcp_pending c" "\<not> freed c"
    using assms(2) by (simp_all add: client_enabled_def)
  show ?thesis
  proof (cases "0 < socks_recv_buf_used c")
    case True
    have up: "socks_up c" "queuing c"
      using client_ok_queuing [OF assms True] by simp_all
    obtain c' acts ok where so: "client_socks_recv_send_out st d1 = (c', acts, ok)" by (metis prod_cases3)
    have r: "fst (client_sent_func st c n) =
        (if ok \<and> socks_recv_buf_used c' = -1 \<and> \<not> socks_closed c' then c'\<lparr>recv_req := True\<rparr> else c')"
      using True so
      by (simp add: client_sent_func_def client_socks_recv_initiate_def Let_def d_def d1_def split_beta)
    have q: "queuing d1" using up by (simp add: d1_def d_def queuing_def)
    show ?thesis unfolding r
    proof (rule send_out_cases [OF q so], goal_cases abort wait all)
      case (abort k acts1)
      have "socks_side_ok (d1\<lparr>socks_recv_buf_sent := socks_recv_buf_sent d1 + k, socks_recv_tcp_pending := socks_recv_tcp_pending d1 + k\<rparr>)"
        using client_ok_socks_side [OF assms(1)]
        by (simp add: socks_side_ok_def d1_def d_def)
      with abort c(5) ok_abort show ?case by (simp add: d1_def d_def)
    next
      case (wait k)
      with assms(1) c q up True show ?case
        by (simp add: client_ok_def d1_def d_def queuing_def)
    next
      case (all k)
      with assms(1) c q up True show ?case
        by (simp add: client_ok_def d1_def d_def queuing_def)
    qed
  next
    case False
    show ?thesis
    proof (cases "socks_closed c \<and> socks_recv_tcp_pending c = n")
      case True
      have "socks_side_ok d" using client_ok_socks_side [OF assms(1)] by (simp add: d_def socks_side_ok_def)
      with True False c(5) ok_free_client [of d] show ?thesis
        by (simp add: client_sent_func_def Let_def d_def split_beta)
    next
      case more: False
      have "socks_recv_buf_used c = -1 \<and> socks_up c" using assms(1) c False
        by (cases "socks_closed c"; cases "socks_up c"; auto simp: client_ok_def queuing_def split: if_splits)
      moreover have "client_sent_func st c n = (d, [], ERR_OK)"
        using more False c(4) by (auto simp: client_sent_func_def Let_def d_def)
      ultimately show ?thesis using assms(1) c more
        by (cases "socks_closed c") (auto simp: d_def client_ok_def)
    qed
  qed
qed

lemma ok_socks_handler:
  assumes "client_ok c" "client_enabled c (Ev_socks ev)"
  shows "client_ok (fst (client_socks_handler e c ev))"
proof (cases "ev = BSOCKSCLIENT_EVENT_UP")
  case True
  with assms have "\<not> socks_up c" "\<not> socks_closed c" by (simp_all add: client_enabled_def)
  with True assms(1) show ?thesis
    by (cases "client_closed c"; cases "buf_used c = 0"; cases "send_req c")
       (simp_all add: client_socks_handler_def client_send_to_socks_def client_socks_recv_initiate_def Let_def
         client_ok_def send_ok_def recv_ok_def)
next
  case False
  then have "client_socks_handler e c ev = client_free_socks e c"
    by (cases ev) (simp_all add: client_socks_handler_def)
  with assms ok_free_socks [of c e] show ?thesis by (simp add: client_enabled_def)
qed

lemma ok_murder: "client_ok c \<Longrightarrow> \<not> freed c \<Longrightarrow> client_ok (fst (client_murder c))"
  by (cases "client_closed c"; cases "socks_closed c")
     (simp_all add: client_murder_def client_dealloc_def Let_def client_ok_def)

lemma client_step_ok:
  assumes "client_ok c" "client_enabled c ev"
  shows "client_ok (fst (client_step st c ev))"
proof -
  have nf: "\<not> freed c" using assms(2) by (simp add: client_enabled_def)
  show ?thesis
  proof (cases ev)
    case (Ev_client_data bs)
    with assms ok_recv_func [of c bs "tcp_close st"] show ?thesis by (simp add: client_step_def split_beta Let_def)
  next
    case Ev_client_fin
    with assms nf ok_free_client [OF client_ok_socks_side] show ?thesis
      by (simp add: client_step_def client_recv_func_def split_beta Let_def)
  next
    case Ev_client_err
    with assms nf ok_handle_freed [OF client_ok_socks_side] show ?thesis
      by (simp add: client_step_def client_err_func_def)
  next
    case (Ev_client_sent n)
    with assms ok_sent [of c n st] show ?thesis by (simp add: client_step_def split_beta Let_def)
  qed (use assms nf ok_socks_handler ok_send_done ok_recv_done ok_murder in \<open>simp_all add: client_step_def\<close>)
qed

lemma client_run_ok: "client_run c evs = Some (c', acts) \<Longrightarrow> client_ok c \<Longrightarrow> client_ok c'"
proof (induction evs arbitrary: c acts)
  case (Cons x evs)
  obtain st ev where x: "x = (st, ev)" by fastforce
  with Cons.prems obtain acts2 where e: "client_enabled c ev" "client_run (fst (client_step st c ev)) evs = Some (c', acts2)"
    by (auto simp: Let_def split_beta split: if_splits option.splits)
  from Cons.IH [OF e(2) client_step_ok [OF Cons.prems(2) e(1)]] show ?case .
qed simp

subsection \<open>Resources\<close>

text \<open>How the calls of one step account for the closed sides.\<close>

definition accounts :: "tcp_client \<Rightarrow> tcp_client \<times> client_act list \<Rightarrow> bool" where
  "accounts c r \<longleftrightarrow>
     count_list (snd r) A_socks_free + of_bool (socks_closed c) = (of_bool (socks_closed (fst r)) :: nat) \<and>
     count_list (snd r) A_dealloc + of_bool (freed c) = (of_bool (freed (fst r)) :: nat)"

lemma accounts_handle_freed: "\<not> freed c \<Longrightarrow> accounts c (client_handle_freed_client e c)"
  by (cases "socks_closed c") (simp_all add: handle_freed_eq accounts_def)

lemma accounts_free_client: "\<not> freed c \<Longrightarrow> accounts c (client_free_client e c)"
  using accounts_handle_freed [of "c\<lparr>cb_err := False, cb_recv := False, cb_sent := False\<rparr>" e]
  by (simp add: free_client_eq Let_def accounts_def)

lemma accounts_abort: "\<not> freed c \<Longrightarrow> accounts c (client_abort_client e c)"
  using accounts_handle_freed [of "c\<lparr>cb_err := False, cb_recv := False, cb_sent := False\<rparr>" e]
  by (simp add: client_abort_client_def Let_def accounts_def split_beta)

lemma accounts_free_socks: "\<not> freed c \<Longrightarrow> \<not> socks_closed c \<Longrightarrow> accounts c (client_free_socks e c)"
  by (cases "client_closed c"; cases "socks_up c \<and> (0 \<le> socks_recv_buf_used c \<or> 0 < socks_recv_tcp_pending c)")
     (auto simp: free_socks_eq accounts_def)

lemma count_list_write: "\<forall>a \<in> set acts. is_write a \<or> a = A_tcp_output \<Longrightarrow>
   count_list acts A_socks_free = 0 \<and> count_list acts A_dealloc = 0"
  by (auto simp: count_list_0_iff)

lemma accounts_send_out:
  assumes "queuing c" "\<not> freed c"
  shows "accounts c (case client_socks_recv_send_out st c of (c', acts, ok) \<Rightarrow> (c', acts))"
proof -
  obtain c' acts ok where so: "client_socks_recv_send_out st c = (c', acts, ok)" by (metis prod_cases3)
  show ?thesis
  proof (rule send_out_cases [OF assms(1) so], goal_cases abort wait all)
    case (abort k acts1)
    let ?d = "c\<lparr>socks_recv_buf_sent := socks_recv_buf_sent c + k, socks_recv_tcp_pending := socks_recv_tcp_pending c + k\<rparr>"
    have "accounts ?d (client_abort_client (tcp_close st) ?d)" using assms(2) by (intro accounts_abort) simp
    with abort count_list_write [of acts1] show ?case by (simp add: so accounts_def)
  next
    case (wait k)
    with count_list_write [of acts] show ?case by (simp add: so accounts_def)
  next
    case (all k)
    with count_list_write [of acts] show ?case by (simp add: so accounts_def)
  qed
qed

lemma client_step_accounts:
  assumes "client_ok c" "client_enabled c ev"
  shows "accounts c (client_step st c ev)"
proof -
  have nf: "\<not> freed c" using assms(2) by (simp add: client_enabled_def)
  show ?thesis
  proof (cases ev)
    case (Ev_client_data bs)
    then show ?thesis
      by (simp add: client_step_def client_recv_func_def client_send_to_socks_def accounts_def Let_def)
  next
    case Ev_client_fin
    with nf accounts_free_client [of c] show ?thesis
      by (simp add: client_step_def client_recv_func_def Let_def split_beta)
  next
    case Ev_client_err
    with nf accounts_handle_freed show ?thesis by (simp add: client_step_def client_err_func_def)
  next
    case (Ev_client_sent n)
    define d where "d = c\<lparr>socks_recv_tcp_pending := socks_recv_tcp_pending c - n, socks_recv_waiting := False\<rparr>"
    have en: "client_enabled c (Ev_client_sent n)" using assms(2) Ev_client_sent by simp
    show ?thesis
    proof (cases "0 < socks_recv_buf_used c")
      case True
      obtain c' acts ok where so: "client_socks_recv_send_out st d = (c', acts, ok)" by (metis prod_cases3)
      have "queuing d" using client_ok_queuing [OF assms(1) en True] by (simp add: d_def queuing_def)
      from accounts_send_out [OF this, of st] nf so have "accounts c (c', acts)" by (simp add: d_def accounts_def)
      then show ?thesis using True so Ev_client_sent
        by (simp add: client_step_def client_sent_func_def client_socks_recv_initiate_def Let_def d_def accounts_def)
    next
      case False
      with nf accounts_free_client [of "c\<lparr>socks_recv_tcp_pending := 0\<rparr>" "tcp_close st"] Ev_client_sent show ?thesis
        by (auto simp: client_step_def client_sent_func_def Let_def split_beta accounts_def)
    qed
  next
    case (Ev_socks e)
    with assms(2) nf accounts_free_socks [of c "tcp_close st"] show ?thesis
      by (cases e) (auto simp: client_step_def client_enabled_def client_socks_handler_def client_send_to_socks_def
          client_socks_recv_initiate_def Let_def accounts_def)
  next
    case (Ev_send_done n)
    have "send_req c \<noteq> None" using assms(2) Ev_send_done by (auto simp: client_enabled_def split: option.splits)
    then have "\<not> socks_closed c" using assms(1) by (auto simp: client_ok_def split: if_splits)
    with nf Ev_send_done show ?thesis
      by (auto simp: client_step_def client_socks_send_handler_done_def client_send_to_socks_def Let_def free_socks_eq
          accounts_def split_beta)
  next
    case (Ev_recv_done bs)
    define d where "d = c\<lparr>socks_recv_buf := overwrite 0 bs (socks_recv_buf c), recv_req := False,
      socks_recv_buf_used := int (length bs), socks_recv_buf_sent := 0, socks_recv_waiting := False\<rparr>"
    obtain c' acts ok where so: "client_socks_recv_send_out st d = (c', acts, ok)" by (metis prod_cases3)
    have "queuing d" using assms(2) Ev_recv_done by (simp add: d_def queuing_def client_enabled_def)
    from accounts_send_out [OF this, of st] nf so have "accounts c (c', acts)" by (simp add: d_def accounts_def)
    with so Ev_recv_done show ?thesis
      by (simp add: client_step_def client_socks_recv_handler_done_def client_socks_recv_initiate_def Let_def d_def accounts_def)
  next
    case Ev_murder
    with nf show ?thesis by (simp add: client_step_def client_murder_def client_dealloc_def accounts_def Let_def)
  qed
qed

lemma client_run_accounts:
  "client_run c evs = Some (c', acts) \<Longrightarrow> client_ok c \<Longrightarrow> accounts c (c', acts)"
proof (induction evs arbitrary: c acts)
  case (Cons x evs)
  obtain st ev where x: "x = (st, ev)" by fastforce
  with Cons.prems obtain acts2 where e: "client_enabled c ev" "client_run (fst (client_step st c ev)) evs = Some (c', acts2)"
      "acts = snd (client_step st c ev) @ acts2"
    by (auto simp: Let_def split_beta split: if_splits option.splits)
  from Cons.IH [OF e(2) client_step_ok [OF Cons.prems(2) e(1)]] client_step_accounts [OF Cons.prems(2) e(1), of st] e(3)
  show ?case by (simp add: accounts_def)
qed (simp add: accounts_def)

subsection \<open>Data\<close>

text \<open>Bytes accepted from the client, bytes that SOCKS has taken, bytes received from SOCKS.\<close>

fun client_in :: "tcp_client \<Rightarrow> client_event \<Rightarrow> byte list" where
  "client_in c (Ev_client_data bs) = (if length bs > length (cl_buf c) - buf_used c then [] else bs)"
| "client_in c _ = []"

fun socks_out :: "tcp_client \<Rightarrow> client_event \<Rightarrow> byte list" where
  "socks_out c (Ev_send_done n) = take n (cl_buf c)"
| "socks_out c _ = []"

fun socks_in :: "tcp_client \<Rightarrow> client_event \<Rightarrow> byte list" where
  "socks_in c (Ev_recv_done bs) = (if client_closed c then [] else bs)"
| "socks_in c _ = []"

fun over_run :: "(tcp_client \<Rightarrow> client_event \<Rightarrow> byte list) \<Rightarrow> tcp_client \<Rightarrow> (tcp_stack \<times> client_event) list \<Rightarrow> byte list" where
  "over_run f c [] = []"
| "over_run f c ((st, ev) # evs) = f c ev @ over_run f (fst (client_step st c ev)) evs"

text \<open>The closing functions and the writing loop leave the client's buffer alone.\<close>

lemma keep_buf [simp]:
  "cl_buf (fst (client_handle_freed_client e c)) = cl_buf c" "buf_used (fst (client_handle_freed_client e c)) = buf_used c"
  "cl_buf (fst (client_free_client e c)) = cl_buf c" "buf_used (fst (client_free_client e c)) = buf_used c"
  "cl_buf (fst (client_abort_client e c)) = cl_buf c" "buf_used (fst (client_abort_client e c)) = buf_used c"
  "cl_buf (fst (client_free_socks e c)) = cl_buf c" "buf_used (fst (client_free_socks e c)) = buf_used c"
  by (simp_all add: client_handle_freed_client.simps client_free_client.simps client_free_socks.simps
      client_abort_client_def client_dealloc_def Let_def split_beta)

lemma closing_written [simp]:
  "written (snd (client_handle_freed_client e c)) = []" "written (snd (client_free_client e c)) = []"
  "written (snd (client_abort_client e c)) = []" "written (snd (client_free_socks e c)) = []"
  by (simp_all add: client_handle_freed_client.simps client_free_client.simps client_free_socks.simps
      client_abort_client_def client_dealloc_def Let_def split_beta)

lemma send_out_keep:
  assumes "queuing c" "client_socks_recv_send_out st c = (c', acts, ok)"
  shows "cl_buf c' = cl_buf c" "buf_used c' = buf_used c"
  by (rule send_out_cases [OF assms]; simp)+

text \<open>The two handlers that queue data, in terms of \<^verbatim>\<open>client_socks_recv_send_out\<close>.\<close>

lemma step_sent_queuing:
  assumes "client_ok c" "client_enabled c (Ev_client_sent n)" "0 < socks_recv_buf_used c"
  obtains c' acts ok where "queuing (c\<lparr>socks_recv_tcp_pending := socks_recv_tcp_pending c - n, socks_recv_waiting := False\<rparr>)"
    "client_socks_recv_send_out st (c\<lparr>socks_recv_tcp_pending := socks_recv_tcp_pending c - n, socks_recv_waiting := False\<rparr>) = (c', acts, ok)"
    "fst (client_step st c (Ev_client_sent n)) = (if ok \<and> socks_recv_buf_used c' = -1 \<and> \<not> socks_closed c' then c'\<lparr>recv_req := True\<rparr> else c')"
    "written (snd (client_step st c (Ev_client_sent n))) = written acts"
proof -
  let ?d = "c\<lparr>socks_recv_tcp_pending := socks_recv_tcp_pending c - n, socks_recv_waiting := False\<rparr>"
  obtain c' acts ok where so: "client_socks_recv_send_out st ?d = (c', acts, ok)" by (metis prod_cases3)
  have q: "queuing ?d" using client_ok_queuing [OF assms] by (simp add: queuing_def)
  show thesis
    by (rule that [OF q so])
       (use so assms(3) in \<open>simp_all add: client_step_def client_sent_func_def client_socks_recv_initiate_def Let_def\<close>)
qed

lemma step_recv_queuing:
  assumes "client_enabled c (Ev_recv_done bs)" "\<not> client_closed c"
  defines "d \<equiv> c\<lparr>socks_recv_buf := overwrite 0 bs (socks_recv_buf c), recv_req := False,
      socks_recv_buf_used := int (length bs), socks_recv_buf_sent := 0, socks_recv_waiting := False\<rparr>"
  obtains c' acts ok where "queuing d" "client_socks_recv_send_out st d = (c', acts, ok)"
    "fst (client_step st c (Ev_recv_done bs)) = (if ok \<and> socks_recv_buf_used c' = -1 then c'\<lparr>recv_req := True\<rparr> else c')"
    "written (snd (client_step st c (Ev_recv_done bs))) = written acts"
proof -
  obtain c' acts ok where so: "client_socks_recv_send_out st d = (c', acts, ok)" by (metis prod_cases3)
  have q: "queuing d" using assms(1) by (simp add: d_def queuing_def client_enabled_def)
  show thesis
    by (rule that [OF q so])
       (use so assms(2) in \<open>simp_all add: client_step_def client_socks_recv_handler_done_def client_socks_recv_initiate_def Let_def d_def\<close>)
qed

lemma take_overwrite_drop:
  assumes "n \<le> m" "m \<le> length xs"
  shows "take n xs @ take (m - n) (overwrite 0 (slice n (m - n) xs) xs) = take m xs"
proof -
  have "take (m - n) (overwrite 0 (slice n (m - n) xs) xs) = take (m - n) (drop n xs)"
    using assms by (simp add: overwrite_def slice_def min_def)
  then show ?thesis using take_add [of n "m - n" xs] assms by simp
qed

lemma step_client_to_socks:
  assumes "client_ok c" "client_enabled c ev"
  shows "take (buf_used c) (cl_buf c) @ client_in c ev =
    socks_out c ev @ take (buf_used (fst (client_step st c ev))) (cl_buf (fst (client_step st c ev)))"
proof (cases ev)
  case (Ev_client_data bs)
  have "buf_used c \<le> length (cl_buf c)" using assms(1) by (simp add: client_ok_def)
  show ?thesis
  proof (cases "length (cl_buf c) - buf_used c < length bs")
    case True
    with Ev_client_data show ?thesis by (simp add: client_step_def client_recv_func_def)
  next
    case False
    have "buf_used (fst (client_step st c ev)) = buf_used c + length bs"
      "cl_buf (fst (client_step st c ev)) = overwrite (buf_used c) bs (cl_buf c)"
      using False Ev_client_data by (simp_all add: client_step_def client_recv_func_def client_send_to_socks_def Let_def)
    then show ?thesis using False Ev_client_data \<open>buf_used c \<le> length (cl_buf c)\<close> by (simp add: overwrite_def)
  qed
next
  case (Ev_client_sent n)
  show ?thesis
  proof (cases "0 < socks_recv_buf_used c")
    case True
    show ?thesis
    proof (rule step_sent_queuing [OF assms(1) assms(2) [unfolded Ev_client_sent] True, of st], goal_cases step)
      case (step c' acts ok)
      from step(3) send_out_keep [OF step(1,2)] Ev_client_sent show ?case by simp
    qed
  next
    case False
    with Ev_client_sent show ?thesis by (simp add: client_step_def client_sent_func_def Let_def split_beta)
  qed
next
  case (Ev_recv_done bs)
  show ?thesis
  proof (cases "client_closed c")
    case True
    with Ev_recv_done show ?thesis by (simp add: client_step_def client_socks_recv_handler_done_def Let_def)
  next
    case False
    show ?thesis
    proof (rule step_recv_queuing [OF assms(2) [unfolded Ev_recv_done] False, of st], goal_cases step)
      case (step c' acts ok)
      from step(3) send_out_keep [OF step(1,2)] Ev_recv_done show ?case by simp
    qed
  qed
next
  case (Ev_send_done n)
  then obtain m where "send_req c = Some m" "n \<le> m" using assms(2) by (auto simp: client_enabled_def split: option.splits)
  then have "n \<le> buf_used c" "buf_used c \<le> length (cl_buf c)"
    using assms(1) by (auto simp: client_ok_def send_ok_def split: if_splits)
  then show ?thesis using Ev_send_done take_overwrite_drop [of n "buf_used c" "cl_buf c"]
    by (simp add: client_step_def client_socks_send_handler_done_def client_send_to_socks_def Let_def split_beta)
next
  case (Ev_socks e)
  then show ?thesis
    by (cases e) (simp_all add: client_step_def client_socks_handler_def client_send_to_socks_def client_socks_recv_initiate_def Let_def)
qed (simp_all add: client_step_def client_recv_func_def client_err_func_def client_murder_def client_dealloc_def Let_def split_beta)

lemma run_client_to_socks:
  "client_run c evs = Some (c', acts) \<Longrightarrow> client_ok c \<Longrightarrow>
   take (buf_used c) (cl_buf c) @ over_run client_in c evs = over_run socks_out c evs @ take (buf_used c') (cl_buf c')"
proof (induction evs arbitrary: c acts)
  case (Cons x evs)
  obtain st ev where x: "x = (st, ev)" by fastforce
  with Cons.prems obtain acts2 where e: "client_enabled c ev" "client_run (fst (client_step st c ev)) evs = Some (c', acts2)"
    by (auto simp: Let_def split_beta split: if_splits option.splits)
  have "take (buf_used c) (cl_buf c) @ over_run client_in c (x # evs) =
      socks_out c ev @ take (buf_used (fst (client_step st c ev))) (cl_buf (fst (client_step st c ev))) @
      over_run client_in (fst (client_step st c ev)) evs"
    using step_client_to_socks [OF Cons.prems(2) e(1), of st] x by simp
  also have "\<dots> = over_run socks_out c (x # evs) @ take (buf_used c') (cl_buf c')"
    using Cons.IH [OF e(2) client_step_ok [OF Cons.prems(2) e(1)]] x by simp
  finally show ?case .
qed simp

text \<open>The bytes received from SOCKS that are not yet queued to the client.\<close>

definition unqueued :: "tcp_client \<Rightarrow> byte list" where
  "unqueued c = (if socks_up c \<and> 0 < socks_recv_buf_used c
     then slice (socks_recv_buf_sent c) (nat (socks_recv_buf_used c) - socks_recv_buf_sent c) (socks_recv_buf c) else [])"

lemma unqueued_frame [simp]:
  "unqueued (c\<lparr>socks_recv_tcp_pending := v1\<rparr>) = unqueued c" "unqueued (c\<lparr>socks_recv_waiting := v2\<rparr>) = unqueued c"
  "unqueued (c\<lparr>recv_req := v3\<rparr>) = unqueued c" "unqueued (c\<lparr>send_req := v4\<rparr>) = unqueued c"
  "unqueued (c\<lparr>cl_buf := v5\<rparr>) = unqueued c" "unqueued (c\<lparr>buf_used := v6\<rparr>) = unqueued c"
  "unqueued (c\<lparr>cb_recv := v7\<rparr>) = unqueued c" "unqueued (c\<lparr>socks_closed := v8\<rparr>) = unqueued c"
  by (simp_all add: unqueued_def)

lemma abort_closed [simp]: "client_closed (fst (client_abort_client e c))"
  by (cases "socks_closed c") (simp_all add: client_abort_client_def handle_freed_eq Let_def split_beta)

lemma handle_freed_closed [simp]: "client_closed (fst (client_handle_freed_client e c))"
  by (cases "socks_closed c") (simp_all add: handle_freed_eq)

lemma free_client_closed [simp]: "client_closed (fst (client_free_client e c))"
  by (cases "socks_closed c") (simp_all add: free_client_eq handle_freed_eq Let_def)

lemma free_socks_unqueued: "\<not> client_closed (fst (client_free_socks e c)) \<Longrightarrow> unqueued (fst (client_free_socks e c)) = unqueued c"
  by (cases "client_closed c"; cases "socks_up c \<and> (0 \<le> socks_recv_buf_used c \<or> 0 < socks_recv_tcp_pending c)")
     (auto simp: free_socks_eq)

lemma slice_split: "k \<le> n \<Longrightarrow> slice off n xs = slice off k xs @ slice (off + k) (n - k) xs"
  by (simp add: slice_append_slice)

text \<open>Queuing takes a prefix of the data, and all of it is accounted for while the client is open.\<close>

lemma send_out_data:
  assumes "queuing c" "socks_up c" "client_socks_recv_send_out st c = (c', acts, ok)"
  shows "\<exists>rest. unqueued c = written acts @ rest \<and> (\<not> client_closed c' \<longrightarrow> ok \<and> rest = unqueued c' \<and> socks_up c')"
proof -
  have split: "unqueued c = slice (socks_recv_buf_sent c) k (socks_recv_buf c) @
      slice (socks_recv_buf_sent c + k) (nat (socks_recv_buf_used c) - (socks_recv_buf_sent c + k)) (socks_recv_buf c)"
    if "int (socks_recv_buf_sent c + k) \<le> socks_recv_buf_used c" for k
    using assms(1,2) that slice_split [of k "nat (socks_recv_buf_used c) - socks_recv_buf_sent c" "socks_recv_buf_sent c" "socks_recv_buf c"]
    by (simp add: unqueued_def queuing_def)
  show ?thesis
  proof (rule send_out_cases [OF assms(1,3)], goal_cases abort wait all)
    case (abort k acts1)
    with split [of k] show ?case by auto
  next
    case (wait k)
    with split [of k] assms(1,2) show ?case by (auto simp: unqueued_def queuing_def)
  next
    case (all k)
    with split [of k] assms(1,2) show ?case by (auto simp: unqueued_def queuing_def)
  qed
qed

lemma step_socks_to_client:
  assumes "client_ok c" "client_enabled c ev" "\<not> client_closed c"
  shows "\<exists>rest. unqueued c @ socks_in c ev = written (snd (client_step st c ev)) @ rest \<and>
    (\<not> client_closed (fst (client_step st c ev)) \<longrightarrow> rest = unqueued (fst (client_step st c ev)))"
proof (cases ev)
  case (Ev_client_sent n)
  show ?thesis
  proof (cases "0 < socks_recv_buf_used c")
    case True
    note up = client_ok_queuing [OF assms(1) assms(2) [unfolded Ev_client_sent] True]
    from step_sent_queuing [OF assms(1) assms(2) [unfolded Ev_client_sent] True, of st] obtain c' acts ok where
      r: "queuing (c\<lparr>socks_recv_tcp_pending := socks_recv_tcp_pending c - n, socks_recv_waiting := False\<rparr>)"
      "client_socks_recv_send_out st (c\<lparr>socks_recv_tcp_pending := socks_recv_tcp_pending c - n, socks_recv_waiting := False\<rparr>) = (c', acts, ok)"
      "fst (client_step st c (Ev_client_sent n)) = (if ok \<and> socks_recv_buf_used c' = -1 \<and> \<not> socks_closed c' then c'\<lparr>recv_req := True\<rparr> else c')"
      "written (snd (client_step st c (Ev_client_sent n))) = written acts" by blast
    from send_out_data [OF r(1) _ r(2)] up(2) obtain rest where
      "unqueued c = written acts @ rest" "\<not> client_closed c' \<longrightarrow> rest = unqueued c'"
      by auto
    then show ?thesis using r(3,4) Ev_client_sent by (intro exI [of _ rest]) simp
  next
    case False
    with Ev_client_sent show ?thesis
      by (simp add: client_step_def client_sent_func_def Let_def split_beta)
  qed
next
  case (Ev_recv_done bs)
  define d where "d = c\<lparr>socks_recv_buf := overwrite 0 bs (socks_recv_buf c), recv_req := False,
      socks_recv_buf_used := int (length bs), socks_recv_buf_sent := 0, socks_recv_waiting := False\<rparr>"
  have en: "recv_req c" "length bs \<le> length (socks_recv_buf c)" "bs \<noteq> []" using assms(2) Ev_recv_done by (simp_all add: client_enabled_def)
  then have up: "socks_up c" "socks_recv_buf_used c = -1"
    using assms(1,3) by (auto simp: client_ok_def split: if_splits)
  have bs: "unqueued d = bs" using up en by (simp add: d_def unqueued_def overwrite_def slice_def)
  from step_recv_queuing [OF assms(2) [unfolded Ev_recv_done] assms(3), of st, folded d_def] obtain c' acts ok where
    r: "queuing d" "client_socks_recv_send_out st d = (c', acts, ok)"
    "fst (client_step st c (Ev_recv_done bs)) = (if ok \<and> socks_recv_buf_used c' = -1 then c'\<lparr>recv_req := True\<rparr> else c')"
    "written (snd (client_step st c (Ev_recv_done bs))) = written acts" by blast
  from send_out_data [OF r(1) _ r(2)] up bs obtain rest where
    "bs = written acts @ rest" "\<not> client_closed c' \<longrightarrow> rest = unqueued c'"
    by (auto simp: d_def)
  then show ?thesis using r(3,4) Ev_recv_done up assms(3) by (intro exI [of _ rest]) (simp add: unqueued_def [of c])
next
  case (Ev_socks e)
  show ?thesis
  proof (cases "e = BSOCKSCLIENT_EVENT_UP")
    case True
    with assms(2) Ev_socks have "\<not> socks_up c" by (simp add: client_enabled_def)
    with True Ev_socks show ?thesis
      by (simp add: client_step_def client_socks_handler_def client_send_to_socks_def client_socks_recv_initiate_def
          Let_def unqueued_def)
  next
    case False
    then have "client_step st c ev = client_free_socks (tcp_close st) c"
      using Ev_socks by (cases e) (simp_all add: client_step_def client_socks_handler_def)
    with free_socks_unqueued [of "tcp_close st" c] Ev_socks show ?thesis by auto
  qed
next
  case (Ev_send_done n)
  then show ?thesis using assms(3)
    by (auto simp: client_step_def client_socks_send_handler_done_def client_send_to_socks_def Let_def split_beta unqueued_def)
qed (auto simp: client_step_def client_recv_func_def client_send_to_socks_def client_err_func_def client_murder_def
      client_dealloc_def Let_def split_beta unqueued_def)

lemma step_closed:
  assumes "client_ok c" "client_enabled c ev" "client_closed c"
  shows "client_closed (fst (client_step st c ev)) \<and> written (snd (client_step st c ev)) = [] \<and> socks_in c ev = []"
  using assms
  by (cases ev)
     (auto simp: client_enabled_def client_step_def client_socks_handler_def client_send_to_socks_def Let_def
       client_socks_send_handler_done_def client_socks_recv_handler_done_def client_murder_def client_dealloc_def
       free_socks_eq split_beta split: socks_event.splits)

lemma run_closed:
  "client_run c evs = Some (c', acts) \<Longrightarrow> client_ok c \<Longrightarrow> client_closed c \<Longrightarrow> client_closed c' \<and> written acts = []"
proof (induction evs arbitrary: c acts)
  case (Cons x evs)
  obtain st ev where x: "x = (st, ev)" by fastforce
  with Cons.prems obtain acts2 where e: "client_enabled c ev" "client_run (fst (client_step st c ev)) evs = Some (c', acts2)"
      "acts = snd (client_step st c ev) @ acts2"
    by (auto simp: Let_def split_beta split: if_splits option.splits)
  from Cons.IH [OF e(2) client_step_ok [OF Cons.prems(2) e(1)]] step_closed [OF Cons.prems(2) e(1) Cons.prems(3), of st] e(3)
  show ?case by simp
qed simp

lemma run_socks_to_client:
  "client_run c evs = Some (c', acts) \<Longrightarrow> client_ok c \<Longrightarrow> \<not> client_closed c \<Longrightarrow>
   \<exists>rest. unqueued c @ over_run socks_in c evs = written acts @ rest \<and> (\<not> client_closed c' \<longrightarrow> rest = unqueued c')"
proof (induction evs arbitrary: c acts)
  case (Cons x evs)
  obtain st ev where x: "x = (st, ev)" by fastforce
  let ?d = "fst (client_step st c ev)"
  from Cons.prems x obtain acts2 where e: "client_enabled c ev" "client_run ?d evs = Some (c', acts2)"
      "acts = snd (client_step st c ev) @ acts2"
    by (auto simp: Let_def split_beta split: if_splits option.splits)
  have ok: "client_ok ?d" by (rule client_step_ok [OF Cons.prems(2) e(1)])
  obtain rest where r: "unqueued c @ socks_in c ev = written (snd (client_step st c ev)) @ rest"
      "\<not> client_closed ?d \<Longrightarrow> rest = unqueued ?d"
    using step_socks_to_client [OF Cons.prems(2) e(1) Cons.prems(3), of st] by blast
  have split: "unqueued c @ over_run socks_in c (x # evs) =
      written (snd (client_step st c ev)) @ rest @ over_run socks_in ?d evs"
    using r(1) x by (simp add: append_assoc [symmetric] del: append_assoc)
  show ?case
  proof (cases "client_closed ?d")
    case False
    from Cons.IH [OF e(2) ok False] r(2) [OF False] split e(3) show ?thesis by auto
  next
    case True
    have "client_closed c' \<and> written acts2 = []" by (rule run_closed [OF e(2) ok True])
    with split e(3) show ?thesis by auto
  qed
qed simp

subsection \<open>Properties\<close>


text \<open>C4.  A half-closed connection never gets stuck.  When only the client is closed, data for
  SOCKS remains and, once SOCKS is up, a send of it is outstanding.  When only SOCKS is closed,
  the client still has unconfirmed data, so the stack will report progress through the installed
  sent callback, and any data not yet queued waits for exactly that.  While both are open and
  SOCKS is up, either a receive is outstanding or received data waits for confirmation.\<close>

theorem client_never_stuck:
  assumes "client_run (listener_accept_func m1 m2) evs = Some (c, acts)" and "\<not> freed c"
  shows "(client_closed c \<longrightarrow> 0 < buf_used c \<and> (socks_up c \<longrightarrow> send_req c \<noteq> None)) \<and>
    (socks_closed c \<longrightarrow> 0 < socks_recv_tcp_pending c \<and> cb_sent c \<and> (socks_recv_buf_used c \<noteq> -1 \<longrightarrow> socks_recv_waiting c)) \<and>
    (\<not> client_closed c \<and> \<not> socks_closed c \<and> socks_up c \<longrightarrow>
       recv_req c \<or> socks_recv_waiting c \<and> 0 < socks_recv_tcp_pending c)"
  using client_run_ok [OF assms(1) client_ok_accept] assms(2)
  by (auto simp: client_ok_def send_ok_def split: if_splits option.splits)


text \<open>C3.  Data from SOCKS to the client: the bytes written to the client's connection are a prefix
  of the bytes received from SOCKS, in order and without duplication; while the client is open,
  exactly the bytes waiting in the receive buffer are missing.\<close>

theorem socks_to_client_data:
  assumes "client_run (listener_accept_func m1 m2) evs = Some (c, acts)"
  shows "\<exists>rest. over_run socks_in (listener_accept_func m1 m2) evs = written acts @ rest \<and>
    (\<not> client_closed c \<longrightarrow> rest = unqueued c)"
  using run_socks_to_client [OF assms client_ok_accept] by (simp add: listener_accept_func_def unqueued_def)

subsection \<open>Example\<close>

definition ex_stack :: tcp_stack where
  "ex_stack = \<lparr>tcp_sndbuf = (\<lambda>i. if i = 0 then 1 else 0), tcp_write = (\<lambda>_. ERR_OK), tcp_output = ERR_OK, tcp_close = ERR_OK\<rparr>"

definition ex_events :: "(tcp_stack \<times> client_event) list" where
  "ex_events = map (Pair ex_stack)
     [Ev_client_data [1, 2], Ev_socks BSOCKSCLIENT_EVENT_UP, Ev_recv_done [7, 8], Ev_send_done 1,
      Ev_socks BSOCKSCLIENT_EVENT_ERROR_CLOSED, Ev_client_sent 1]"

lemmas client_eval = ex_events_def ex_stack_def listener_accept_func_def client_enabled_def client_step_def
  client_recv_func_def client_socks_handler_def client_send_to_socks_def client_socks_recv_initiate_def
  client_socks_recv_handler_done_def client_socks_recv_send_out_def send_out_loop.simps client_socks_send_handler_done_def
  client_sent_func_def client_abort_client_def Let_def overwrite_def slice_def

lemma ex_client_run:
  "\<exists>c acts. client_run (listener_accept_func [0, 0, 0] [0, 0]) ex_events = Some (c, acts) \<and> socks_closed c \<and> \<not> client_closed c"
  by (simp add: client_eval free_socks_eq)


theorem client_never_stuck_witness:
  "\<exists>c acts. client_run (listener_accept_func [0, 0, 0] [0, 0]) ex_events = Some (c, acts) \<and> 0 < socks_recv_tcp_pending c"
proof -
  obtain c acts where r: "client_run (listener_accept_func [0, 0, 0] [0, 0]) ex_events = Some (c, acts)"
      "socks_closed c" "\<not> client_closed c"
    using ex_client_run by blast
  have "\<not> freed c" using client_run_ok [OF r(1) client_ok_accept] r(3) by (simp add: client_ok_def)
  from client_never_stuck [OF r(1) this] r show ?thesis by auto
qed


theorem socks_to_client_data_witness:
  "\<exists>c acts rest. client_run (listener_accept_func [0, 0, 0] [0, 0]) ex_events = Some (c, acts) \<and>
     over_run socks_in (listener_accept_func [0, 0, 0] [0, 0]) ex_events = written acts @ rest"
  using ex_client_run socks_to_client_data by blast

end
