(* ===== verification/ProxiedConnection.thy ===== *)
theory ProxiedConnection
  imports TcpClient
begin

text \<open>
  The composition of \<^verbatim>\<open>struct tcp_client\<close> (\<^verbatim>\<open>TcpClient\<close>) with the \<^verbatim>\<open>BSocksClient\<close> it owns (\<^verbatim>\<open>SocksClient\<close>): the events that
  the SOCKS client reports are passed to \<^verbatim>\<open>client_socks_handler\<close>, and when the connection gives up the SOCKS
  client, \<^verbatim>\<open>BSocksClient_Free\<close> runs.  Shown: the SOCKS client keeps the call conditions that the model of the
  connection assumes of it, so every composed run is a run of that model; application data is sent
  only after the complete handshake for the destination; and all resources are released.
\<close>

subsection \<open>The composed system\<close>

record proxied =
  px_client :: tcp_client
  px_socks :: BSocksClient

text \<open>An event of the SOCKS client, with the results of the stack during its handlers, or one of the connection itself.\<close>

datatype px_event = PX_socks tcp_stack sc_event | PX_client tcp_stack client_event

text \<open>A step records the events of the connection, its actions and those of the SOCKS client.\<close>

type_synonym px_log = "(tcp_stack \<times> client_event) list \<times> client_act list \<times> sc_act list"

definition px_release :: "client_act list \<Rightarrow> BSocksClient \<Rightarrow> BSocksClient \<times> sc_act list" where
  "px_release acts ob = (if A_socks_free \<in> set acts then BSocksClient_Free ob else (ob, []))"

fun px_calls :: "tcp_stack \<Rightarrow> proxied \<Rightarrow> socks_event list \<Rightarrow> proxied \<times> px_log" where
  "px_calls st s [] = (s, [], [], [])"
| "px_calls st s (e # es) =
     (if socks_closed (px_client s) then (s, [], [], [])
      else (let (c, as) = client_step st (px_client s) (Ev_socks e);
                (ob, bs) = px_release as (px_socks s);
                (s', log, as', bs') = px_calls st \<lparr>px_client = c, px_socks = ob\<rparr> es
            in (s', (st, Ev_socks e) # log, as @ as', bs @ bs')))"

fun px_step :: "nat \<Rightarrow> proxied \<Rightarrow> px_event \<Rightarrow> proxied \<times> px_log" where
  "px_step smax s (PX_socks st e) =
     (let (ob, bs) = sc_step smax (px_socks s) e;
          (s', log, as, bs') = px_calls st (s\<lparr>px_socks := ob\<rparr>) (events_of bs)
      in (s', log, as, bs @ bs'))"
| "px_step smax s (PX_client st ev) =
     (let (c, as) = client_step st (px_client s) ev; (ob, bs) = px_release as (px_socks s)
      in (\<lparr>px_client = c, px_socks = ob\<rparr>, [(st, ev)], as, bs))"

fun px_enabled :: "proxied \<Rightarrow> px_event \<Rightarrow> bool" where
  "px_enabled s (PX_socks st e) = (\<not> socks_closed (px_client s) \<and> sc_enabled (px_socks s) e)"
| "px_enabled s (PX_client st ev) = (client_enabled (px_client s) ev \<and> (case ev of Ev_socks _ \<Rightarrow> False | _ \<Rightarrow> True))"

fun px_run :: "nat \<Rightarrow> proxied \<Rightarrow> px_event list \<Rightarrow> (proxied \<times> px_log) option" where
  "px_run smax s [] = Some (s, [], [], [])"
| "px_run smax s (e # es) =
     (if px_enabled s e
      then (let (s1, log, as, bs) = px_step smax s e
            in case px_run smax s1 es of None \<Rightarrow> None
               | Some (s2, log', as', bs') \<Rightarrow> Some (s2, log @ log', as @ as', bs @ bs'))
      else None)"

fun socks_events :: "px_event list \<Rightarrow> sc_event list" where
  "socks_events [] = []"
| "socks_events (PX_socks st e # es) = e # socks_events es"
| "socks_events (_ # es) = socks_events es"

subsection \<open>What the handlers of the connection do to the SOCKS side\<close>

lemma up_closing [simp]:
  "socks_up (fst (client_handle_freed_client e c)) = socks_up c" "socks_up (fst (client_free_client e c)) = socks_up c"
  "socks_up (fst (client_abort_client e c)) = socks_up c" "socks_up (fst (client_free_socks e c)) = socks_up c"
proof -
  have h: "socks_up (fst (client_handle_freed_client e c)) = socks_up c" for c by (cases "socks_closed c") (simp_all add: handle_freed_eq)
  show "socks_up (fst (client_handle_freed_client e c)) = socks_up c" "socks_up (fst (client_free_client e c)) = socks_up c"
    "socks_up (fst (client_abort_client e c)) = socks_up c"
    by (simp_all add: h free_client_eq client_abort_client_def Let_def split_beta)
  show "socks_up (fst (client_free_socks e c)) = socks_up c"
    by (cases "client_closed c"; cases "socks_up c \<and> (0 \<le> socks_recv_buf_used c \<or> 0 < socks_recv_tcp_pending c)") (simp_all add: free_socks_eq)
qed

lemma up_send_out_loop [simp]: "socks_up (fst (send_out_loop st i c)) = socks_up c"
proof (induction st i c rule: send_out_loop.induct)
  case (1 st i c)
  then show ?case by (subst send_out_loop.simps) (auto simp: Let_def split_beta split: err_t.splits)
qed

lemma up_send_out [simp]: "socks_up (fst (client_socks_recv_send_out st c)) = socks_up c"
  by (auto simp: client_socks_recv_send_out_def Let_def split_beta)

lemma up_client_step:
  assumes "\<forall>e. ev \<noteq> Ev_socks e"
  shows "socks_up (fst (client_step st c ev)) = socks_up c"
  using assms
  by (cases ev)
     (auto simp: client_step_def client_recv_func_def client_send_to_socks_def client_err_func_def client_sent_func_def
        client_socks_recv_initiate_def client_socks_send_handler_done_def client_socks_recv_handler_done_def client_murder_def
        client_dealloc_def Let_def split_beta)

lemma closed_free_socks: "socks_closed (fst (client_free_socks e c))"
  by (cases "client_closed c"; cases "socks_up c \<and> (0 \<le> socks_recv_buf_used c \<or> 0 < socks_recv_tcp_pending c)") (simp_all add: free_socks_eq)

lemma up_event:
  "socks_up (fst (client_step st c (Ev_socks BSOCKSCLIENT_EVENT_UP)))"
  "socks_closed (fst (client_step st c (Ev_socks BSOCKSCLIENT_EVENT_UP))) = socks_closed c"
  by (simp_all add: client_step_def client_socks_handler_def client_send_to_socks_def client_socks_recv_initiate_def Let_def)

lemma error_event: "e \<noteq> BSOCKSCLIENT_EVENT_UP \<Longrightarrow> socks_closed (fst (client_step st c (Ev_socks e)))"
  by (cases e) (simp_all add: client_step_def client_socks_handler_def closed_free_socks)

lemma socks_free_iff:
  assumes "client_ok c" "client_enabled c ev"
  shows "A_socks_free \<in> set (snd (client_step st c ev)) \<longleftrightarrow> \<not> socks_closed c \<and> socks_closed (fst (client_step st c ev))"
    and "socks_closed c \<Longrightarrow> socks_closed (fst (client_step st c ev))"
proof -
  let ?n = "count_list (snd (client_step st c ev)) A_socks_free" and ?c = "fst (client_step st c ev)"
  have n: "?n + of_bool (socks_closed c) = (of_bool (socks_closed ?c) :: nat)" using client_step_accounts [OF assms, of st] by (simp add: accounts_def)
  have "A_socks_free \<in> set (snd (client_step st c ev)) \<longleftrightarrow> ?n \<noteq> 0" by (simp add: count_list_0_iff)
  then show "A_socks_free \<in> set (snd (client_step st c ev)) \<longleftrightarrow> \<not> socks_closed c \<and> socks_closed ?c" "socks_closed c \<Longrightarrow> socks_closed ?c"
    using n by (cases "socks_closed c"; cases "socks_closed ?c"; simp)+
qed

lemma client_run_append:
  "client_run c xs = Some (c1, as) \<Longrightarrow> client_run c1 ys = Some (c2, bs) \<Longrightarrow> client_run c (xs @ ys) = Some (c2, as @ bs)"
  by (induction xs arbitrary: c as) (auto simp: Let_def split_beta split: if_splits option.splits)

subsection \<open>Resources\<close>

text \<open>The resources of a SOCKS client: how they are acquired and released, and when they are held.\<close>

definition px_resources :: "(sc_act \<times> sc_act \<times> (socks_state \<Rightarrow> bool)) list" where
  "px_resources = [(SC_connector_init, SC_connector_free, \<lambda>st. True), (SC_con_init, SC_con_free, \<lambda>st. st \<noteq> STATE_CONNECTING),
     (SC_control_init, SC_control_free, \<lambda>st. st \<noteq> STATE_CONNECTING \<and> st \<noteq> STATE_UP), (SC_up_init, SC_up_free, \<lambda>st. st = STATE_UP)]"

definition px_holds :: "(socks_state \<Rightarrow> bool) \<Rightarrow> proxied \<Rightarrow> bool" where
  "px_holds P s \<longleftrightarrow> \<not> socks_closed (px_client s) \<and> P (sc_state (px_socks s))"

definition px_accounts :: "proxied \<Rightarrow> proxied \<Rightarrow> sc_act list \<Rightarrow> bool" where
  "px_accounts s s' bs \<longleftrightarrow> (\<forall>(i, f, P) \<in> set px_resources.
     of_bool (px_holds P s) + count_list bs i = (of_bool (px_holds P s') + count_list bs f :: nat))"

lemma px_accounts_trans: "px_accounts s1 s2 as \<Longrightarrow> px_accounts s2 s3 bs \<Longrightarrow> px_accounts s1 s3 (as @ bs)"
  unfolding px_accounts_def by (fastforce simp: count_list_append)

lemma px_accounts_refl: "socks_closed c' = socks_closed (px_client s) \<Longrightarrow> px_accounts s \<lparr>px_client = c', px_socks = px_socks s\<rparr> []"
  by (simp add: px_accounts_def px_holds_def)

lemma px_accounts_socks:
  assumes "\<not> socks_closed (px_client s)" "sc_accounts (px_socks s) (ob, bs)"
  shows "px_accounts s (s\<lparr>px_socks := ob\<rparr>) bs"
  using assms by (auto simp: px_accounts_def px_resources_def px_holds_def sc_accounts_def Let_def)

lemma px_release_accounts:
  assumes "client_ok (px_client s)" "client_enabled (px_client s) ev" "client_step st (px_client s) ev = (c, as)" "px_release as (px_socks s) = (ob, bs)"
  shows "px_accounts s \<lparr>px_client = c, px_socks = ob\<rparr> bs" "tx_of bs = []" "\<not> socks_closed c \<Longrightarrow> ob = px_socks s"
proof -
  note f = socks_free_iff [OF assms(1,2), of st, unfolded assms(3) fst_conv snd_conv]
  show "px_accounts s \<lparr>px_client = c, px_socks = ob\<rparr> bs"
  proof (cases "A_socks_free \<in> set as")
    case True
    then have "bs = snd (BSocksClient_Free (px_socks s))" using assms(4) by (simp add: px_release_def)
    then show ?thesis using True f by (auto simp: px_accounts_def px_resources_def px_holds_def BSocksClient_Free_counts count_list_append)
  next
    case False
    then have "ob = px_socks s" "bs = []" using assms(4) by (simp_all add: px_release_def)
    moreover have "socks_closed c = socks_closed (px_client s)" using False f by auto
    ultimately show ?thesis using px_accounts_refl [of c s] by simp
  qed
  show "tx_of bs = []" using assms(4) BSocksClient_Free_counts [of "px_socks s"] by (auto simp: px_release_def split: if_splits)
  show "ob = px_socks s" if "\<not> socks_closed c" using that f assms(4) by (auto simp: px_release_def split: if_splits)
qed

subsection \<open>Composed runs\<close>

definition px_inv :: "proxied \<Rightarrow> byte list list \<Rightarrow> byte list \<Rightarrow> bool" where
  "px_inv s tx rx \<longleftrightarrow> client_ok (px_client s) \<and>
     (\<not> socks_closed (px_client s) \<longrightarrow> \<not> gone (px_socks s) \<and> sc_inv (px_socks s) tx rx \<and>
        (socks_up (px_client s) \<longleftrightarrow> sc_state (px_socks s) = STATE_UP))"

lemma not_freed: "client_ok c \<Longrightarrow> \<not> socks_closed c \<Longrightarrow> \<not> freed c"
  by (auto simp: client_ok_def split: if_splits)

text \<open>One reported event is delivered.\<close>

lemma px_call:
  assumes ok: "client_ok (px_client s)" "\<not> socks_closed (px_client s)"
    and ev: "e = BSOCKSCLIENT_EVENT_UP \<longrightarrow> \<not> socks_up (px_client s)" "e = BSOCKSCLIENT_EVENT_ERROR_CLOSED \<longrightarrow> socks_up (px_client s)"
  shows "\<exists>c as ob bs. px_calls st s (e # es) =
      (case px_calls st \<lparr>px_client = c, px_socks = ob\<rparr> es of (s', log, as', bs') \<Rightarrow> (s', (st, Ev_socks e) # log, as @ as', bs @ bs')) \<and>
    client_run (px_client s) [(st, Ev_socks e)] = Some (c, as) \<and> client_ok c \<and> px_accounts s \<lparr>px_client = c, px_socks = ob\<rparr> bs \<and> tx_of bs = [] \<and>
    (if e = BSOCKSCLIENT_EVENT_UP then socks_up c \<and> \<not> socks_closed c \<and> ob = px_socks s else socks_closed c)"
proof -
  obtain c as where st: "client_step st (px_client s) (Ev_socks e) = (c, as)" by fastforce
  obtain ob bs where re: "px_release as (px_socks s) = (ob, bs)" by fastforce
  have en: "client_enabled (px_client s) (Ev_socks e)" using ok ev not_freed [OF ok] by (simp add: client_enabled_def)
  note r = px_release_accounts [OF ok(1) en st re]
  have "client_ok c" using client_step_ok [OF ok(1) en, of st] st by simp
  moreover have "if e = BSOCKSCLIENT_EVENT_UP then socks_up c \<and> \<not> socks_closed c \<and> ob = px_socks s else socks_closed c"
    using up_event [of st "px_client s"] error_event [of e st "px_client s"] st ok(2) r(3) by auto
  moreover have "px_calls st s (e # es) =
      (case px_calls st \<lparr>px_client = c, px_socks = ob\<rparr> es of (s', log, as', bs') \<Rightarrow> (s', (st, Ev_socks e) # log, as @ as', bs @ bs'))"
    using ok(2) st re by (simp add: split_beta)
  moreover have "client_run (px_client s) [(st, Ev_socks e)] = Some (c, as)" using en st by simp
  ultimately show ?thesis using r(1,2) by blast
qed

lemma px_calls_error:
  assumes ok: "client_ok (px_client s)" "\<not> socks_closed (px_client s)" and inv: "sc_inv (px_socks s) tx rx"
    and up: "socks_up (px_client s) \<longleftrightarrow> sc_state (px_socks s) = STATE_UP"
    and err: "if gone (px_socks s) then err = [BSOCKSCLIENT_EVENT_ERROR] \<or> err = [BSOCKSCLIENT_EVENT_ERROR_CLOSED] \<and> sc_state (px_socks s) = STATE_UP
      else err = []"
  shows "\<exists>s' log as bs. px_calls st s err = (s', log, as, bs) \<and> client_run (px_client s) log = Some (px_client s', as) \<and> px_inv s' tx rx \<and>
    px_accounts s s' bs \<and> tx_of bs = []"
proof (cases "gone (px_socks s)")
  case True
  then obtain e where e: "err = [e]" "e \<noteq> BSOCKSCLIENT_EVENT_UP" "e = BSOCKSCLIENT_EVENT_ERROR_CLOSED \<longrightarrow> socks_up (px_client s)" using err up by auto
  from px_call [OF ok, of e st "[]"] e show ?thesis by (fastforce simp: px_inv_def)
next
  case False
  moreover have "px_accounts s s []" by (simp add: px_accounts_def)
  ultimately show ?thesis using ok inv up err by (simp add: px_inv_def)
qed

lemma px_step_ok:
  assumes inv: "px_inv s tx rx" and en: "px_enabled s e" and smax: "65535 \<le> smax" and st: "px_step smax s e = (s', log, as, bs)"
  shows "client_run (px_client s) log = Some (px_client s', as) \<and> px_inv s' (tx @ tx_of bs) (rx @ rx_of (socks_events [e])) \<and> px_accounts s s' bs"
proof (cases e)
  case (PX_client tst ev)
  obtain c as' where c: "client_step tst (px_client s) ev = (c, as')" by fastforce
  obtain ob bs' where re: "px_release as' (px_socks s) = (ob, bs')" by fastforce
  have en': "client_enabled (px_client s) ev" "\<forall>x. ev \<noteq> Ev_socks x" using en PX_client by (auto split: client_event.splits)
  have ok: "client_ok (px_client s)" using inv by (simp add: px_inv_def)
  note r = px_release_accounts [OF ok en'(1) c re]
  have "client_ok c" using client_step_ok [OF ok en'(1), of tst] c by simp
  moreover have "socks_up c = socks_up (px_client s)" using up_client_step [OF en'(2), of tst "px_client s"] c by simp
  moreover have "\<not> socks_closed c \<Longrightarrow> \<not> socks_closed (px_client s)" using socks_free_iff(2) [OF ok en'(1), of tst] c by auto
  ultimately show ?thesis using PX_client st c re r en'(1) inv by (auto simp: px_inv_def)
next
  case (PX_socks tst e')
  let ?ob = "px_socks s"
  obtain ob b1 where sc: "sc_step smax ?ob e' = (ob, b1)" by fastforce
  have en': "\<not> socks_closed (px_client s)" "sc_enabled ?ob e'" using en PX_socks by simp_all
  have i: "sc_inv ?ob tx rx" "client_ok (px_client s)" "socks_up (px_client s) \<longleftrightarrow> sc_state ?ob = STATE_UP" using inv en'(1) by (simp_all add: px_inv_def)
  have acc: "sc_accounts ?ob (ob, b1)" using sc_step_accounts [OF i(1) en'(2), of smax] sc by simp
  have inv': "sc_inv ob (tx @ tx_of b1) (rx @ rx_of [e'])" using sc_step_inv [OF smax i(1) en'(2)] sc by simp
  let ?s = "s\<lparr>px_socks := ob\<rparr>"
  note a0 = px_accounts_socks [OF en'(1) acc]
  define up where "up = (sc_state ob = STATE_UP \<and> \<not> socks_up (px_client s))"
  from acc obtain err where err: "events_of b1 = (if up then [BSOCKSCLIENT_EVENT_UP] else []) @ err"
    "if gone ob then err = [BSOCKSCLIENT_EVENT_ERROR] \<or> err = [BSOCKSCLIENT_EVENT_ERROR_CLOSED] \<and> sc_state ob = STATE_UP else err = []"
    unfolding sc_accounts_def Let_def fst_conv snd_conv up_def i(3) by blast
  have mono: "socks_up (px_client s) \<Longrightarrow> sc_state ob = STATE_UP" using acc i(3) by (simp add: sc_accounts_def Let_def)
  have "\<exists>s' log as bs. px_calls tst ?s (events_of b1) = (s', log, as, bs) \<and> client_run (px_client s) log = Some (px_client s', as) \<and>
    px_inv s' (tx @ tx_of b1) (rx @ rx_of [e']) \<and> px_accounts ?s s' bs \<and> tx_of bs = []"
  proof (cases up)
    case False
    then have "socks_up (px_client s) \<longleftrightarrow> sc_state ob = STATE_UP" using mono by (auto simp: up_def)
    then show ?thesis using px_calls_error [of ?s "tx @ tx_of b1" "rx @ rx_of [e']" err tst] i(2) en'(1) inv' err False by simp
  next
    case True
    then have nup: "\<not> socks_up (px_client s)" "sc_state ob = STATE_UP" by (auto simp: up_def)
    from px_call [of ?s BSOCKSCLIENT_EVENT_UP tst err] i(2) en'(1) nup obtain c as bs where
      c: "px_calls tst ?s (BSOCKSCLIENT_EVENT_UP # err) = (case px_calls tst \<lparr>px_client = c, px_socks = ob\<rparr> err of (s', log, as', bs') \<Rightarrow>
          (s', (tst, Ev_socks BSOCKSCLIENT_EVENT_UP) # log, as @ as', bs @ bs'))"
      "client_run (px_client s) [(tst, Ev_socks BSOCKSCLIENT_EVENT_UP)] = Some (c, as)" "client_ok c" "px_accounts ?s \<lparr>px_client = c, px_socks = ob\<rparr> bs"
      "tx_of bs = []" "socks_up c" "\<not> socks_closed c" by auto
    have "\<exists>s' log as bs. px_calls tst \<lparr>px_client = c, px_socks = ob\<rparr> err = (s', log, as, bs) \<and> client_run c log = Some (px_client s', as) \<and>
      px_inv s' (tx @ tx_of b1) (rx @ rx_of [e']) \<and> px_accounts \<lparr>px_client = c, px_socks = ob\<rparr> s' bs \<and> tx_of bs = []"
      using px_calls_error [of "\<lparr>px_client = c, px_socks = ob\<rparr>" "tx @ tx_of b1" "rx @ rx_of [e']" err tst] c(3,6,7) inv' nup(2) err(2) by (simp cong: if_cong)
    then obtain s' log as' bs' where
      d: "px_calls tst \<lparr>px_client = c, px_socks = ob\<rparr> err = (s', log, as', bs')" "client_run c log = Some (px_client s', as')"
      "px_inv s' (tx @ tx_of b1) (rx @ rx_of [e'])" "px_accounts \<lparr>px_client = c, px_socks = ob\<rparr> s' bs'" "tx_of bs' = []" by blast
    show ?thesis using True err(1) c(1,5) d client_run_append [OF c(2) d(2)] px_accounts_trans [OF c(4) d(4)] by auto
  qed
  then show ?thesis using PX_socks st sc px_accounts_trans [OF a0] by (auto simp del: sc_step.simps)
qed

text \<open>The SOCKS client keeps its credentials and its destination.\<close>

lemma px_calls_args:
  "px_calls st s es = (s', log, as, bs) \<Longrightarrow> \<not> socks_closed (px_client s') \<Longrightarrow> client_ok (px_client s) \<Longrightarrow>
     client_run (px_client s) log = Some (px_client s', as) \<Longrightarrow> px_socks s' = px_socks s \<and> \<not> socks_closed (px_client s)"
proof (induction st s es arbitrary: s' log as bs rule: px_calls.induct)
  case (2 st s e es)
  show ?case
  proof (cases "socks_closed (px_client s)")
    case False
    obtain c as1 where c: "client_step st (px_client s) (Ev_socks e) = (c, as1)" by fastforce
    obtain ob b1 where re: "px_release as1 (px_socks s) = (ob, b1)" by fastforce
    obtain s2 log2 as2 bs2 where r: "px_calls st \<lparr>px_client = c, px_socks = ob\<rparr> es = (s2, log2, as2, bs2)" by (metis prod_cases4)
    have eq: "s' = s2" "log = (st, Ev_socks e) # log2" "as = as1 @ as2" using "2.prems"(1) False c re r by simp_all
    have run: "client_enabled (px_client s) (Ev_socks e)" "client_run c log2 = Some (px_client s2, as2)"
      using "2.prems"(4) eq c by (auto split: if_splits option.splits)
    have "client_ok c" using client_step_ok [OF "2.prems"(3) run(1), of st] c by simp
    then have "ob = px_socks s2 \<and> \<not> socks_closed c"
      using "2.IH" [OF False c [symmetric] refl re [symmetric] refl r] "2.prems"(2) eq run(2) by simp
    then show ?thesis using px_release_accounts(3) [OF "2.prems"(3) run(1) c re] eq False by simp
  qed (use 2 in auto)
qed auto

lemma px_step_args:
  assumes inv: "px_inv s tx rx" and en: "px_enabled s e" and smax: "65535 \<le> smax" and st: "px_step smax s e = (s', log, as, bs)"
    and op: "\<not> socks_closed (px_client s')"
  shows "auth_infos (px_socks s') = auth_infos (px_socks s) \<and> dest_addr (px_socks s') = dest_addr (px_socks s) \<and> \<not> socks_closed (px_client s)"
proof -
  note run = px_step_ok [OF inv en smax st, THEN conjunct1]
  have ok: "client_ok (px_client s)" using inv by (simp add: px_inv_def)
  show ?thesis
  proof (cases e)
    case (PX_client tst ev)
    obtain c as' where c: "client_step tst (px_client s) ev = (c, as')" by fastforce
    obtain ob bs' where re: "px_release as' (px_socks s) = (ob, bs')" by fastforce
    have en': "client_enabled (px_client s) ev" using en PX_client by simp
    have "s' = \<lparr>px_client = c, px_socks = ob\<rparr>" using st PX_client c re by simp
    then show ?thesis using px_release_accounts(3) [OF ok en' c re] socks_free_iff(2) [OF ok en', of tst] c op by auto
  next
    case (PX_socks tst e')
    obtain ob b1 where sc: "sc_step smax (px_socks s) e' = (ob, b1)" by fastforce
    have en': "\<not> socks_closed (px_client s)" "sc_enabled (px_socks s) e'" using en PX_socks by simp_all
    have i: "sc_inv (px_socks s) tx rx" using inv en'(1) by (simp add: px_inv_def)
    have acc: "sc_accounts (px_socks s) (ob, b1)" using sc_step_accounts [OF i en'(2), of smax] sc by simp
    obtain bs' where "px_calls tst (s\<lparr>px_socks := ob\<rparr>) (events_of b1) = (s', log, as, bs')"
      using st PX_socks sc by (auto simp del: sc_step.simps split: prod.splits)
    from px_calls_args [OF this op] ok run have "px_socks s' = ob" by simp
    then show ?thesis using acc en'(1) by (auto simp: sc_accounts_def Let_def)
  qed
qed

lemma rx_of_append: "rx_of (xs @ ys) = rx_of xs @ rx_of ys"
  by (induction xs rule: rx_of.induct) auto

lemma px_run_ok:
  assumes "px_run smax s es = Some (s', log, as, bs)" and "px_inv s tx rx" and smax: "65535 \<le> smax"
  shows "client_run (px_client s) log = Some (px_client s', as) \<and> px_inv s' (tx @ tx_of bs) (rx @ rx_of (socks_events es)) \<and> px_accounts s s' bs \<and>
    (\<not> socks_closed (px_client s') \<longrightarrow> auth_infos (px_socks s') = auth_infos (px_socks s) \<and> dest_addr (px_socks s') = dest_addr (px_socks s) \<and>
       \<not> socks_closed (px_client s))"
  using assms(1,2)
proof (induction es arbitrary: s tx rx log as bs)
  case (Cons e es)
  obtain s1 log1 as1 bs1 where st: "px_step smax s e = (s1, log1, as1, bs1)" by (metis prod_cases4)
  from Cons.prems(1) st obtain log2 as2 bs2 where r: "px_enabled s e" "px_run smax s1 es = Some (s', log2, as2, bs2)"
    "log = log1 @ log2" "as = as1 @ as2" "bs = bs1 @ bs2"
    by (auto simp del: px_step.simps px_enabled.simps split: if_splits option.splits)
  note s1 = px_step_ok [OF Cons.prems(2) r(1) smax st]
  note ih = Cons.IH [OF r(2), of "tx @ tx_of bs1" "rx @ rx_of (socks_events [e])"]
  have "rx_of (socks_events (e # es)) = rx_of (socks_events [e]) @ rx_of (socks_events es)"
    using rx_of_append [of "socks_events [e]" "socks_events es"] by (cases e) simp_all
  then show ?case
    using s1 ih r(3-5) client_run_append [of "px_client s" log1 "px_client s1" as1 log2 "px_client s'" as2] px_accounts_trans [of s s1 bs1 s' bs2]
      px_step_args [OF Cons.prems(2) r(1) smax st] by auto
qed (simp add: px_accounts_def)

text \<open>The composed system after \<^verbatim>\<open>listener_accept_func\<close>.\<close>

lemma px_inv_init:
  assumes "BSocksClient_Init ok ais dest = Some (ob, bs)" "sc_args_ok ais dest"
  shows "px_inv \<lparr>px_client = listener_accept_func m1 m2, px_socks = ob\<rparr> [] []"
  using BSocksClient_Init_inv [OF assms] client_ok_accept [of m1 m2] by (simp add: px_inv_def) (simp add: listener_accept_func_def)

text \<open>C14.  A proxied connection and its SOCKS client work together: every run of the two is a run of the
  connection alone, that is the SOCKS client keeps the conditions under which the connection is correct;
  the two agree on whether the data phase is reached; and the connection has data outstanding to or from the SOCKS
  client only after the complete handshake for its destination was sent and received.\<close>

theorem proxied_connection_composes:
  assumes "65535 \<le> smax" "sc_args_ok ais dest" "BSocksClient_Init ok ais dest = Some (ob0, bs0)"
    and "px_run smax \<lparr>px_client = listener_accept_func m1 m2, px_socks = ob0\<rparr> es = Some (s, log, as, bs)"
  shows "client_run (listener_accept_func m1 m2) log = Some (px_client s, as) \<and>
    (\<not> socks_closed (px_client s) \<longrightarrow> (socks_up (px_client s) \<longleftrightarrow> sc_state (px_socks s) = STATE_UP)) \<and>
    (send_req (px_client s) \<noteq> None \<or> recv_req (px_client s) \<longrightarrow> handshake ais dest (tx_of bs) (rx_of (socks_events es)))"
proof -
  note r = px_run_ok [OF assms(4) px_inv_init [OF assms(3,2)] assms(1)]
  have init: "auth_infos ob0 = ais" "dest_addr ob0 = dest" using BSocksClient_Init_inv [OF assms(3,2)] by simp_all
  have "handshake ais dest (tx_of bs) (rx_of (socks_events es))" if "send_req (px_client s) \<noteq> None \<or> recv_req (px_client s)"
  proof -
    have ok: "client_ok (px_client s)" using r by (simp add: px_inv_def)
    then have "\<not> socks_closed (px_client s)" "socks_up (px_client s)"
      using that by (auto simp: client_ok_def send_ok_def recv_ok_def split: if_splits)
    then show ?thesis using r init by (auto simp: px_inv_def sc_inv_def)
  qed
  then show ?thesis using r by (simp add: px_inv_def)
qed

text \<open>A connection that has given up its SOCKS client has released everything the SOCKS client acquired
  during its life (connector, connection, handshake and data interfaces), each exactly as often as it was acquired;
  until then at most the resources of the SOCKS client's current state are held.\<close>

theorem proxied_connection_resources:
  assumes "65535 \<le> smax" "sc_args_ok ais dest" "BSocksClient_Init ok ais dest = Some (ob0, bs0)"
    and "px_run smax \<lparr>px_client = listener_accept_func m1 m2, px_socks = ob0\<rparr> es = Some (s, log, as, bs)"
    and "(i, f, P) \<in> set px_resources"
  shows "count_list (bs0 @ bs) i =
    (count_list (bs0 @ bs) f + (if socks_closed (px_client s) then 0 else of_bool (P (sc_state (px_socks s)))) :: nat)"
proof -
  let ?s0 = "\<lparr>px_client = listener_accept_func m1 m2, px_socks = ob0\<rparr>"
  have "bs0 = [SC_connector_init]" "sc_state ob0 = STATE_CONNECTING" using assms(3) by (auto simp: BSocksClient_Init_def split: if_splits)
  moreover have "px_accounts ?s0 s bs" using px_run_ok [OF assms(4) px_inv_init [OF assms(3,2)] assms(1)] by simp
  moreover have "\<not> socks_closed (px_client ?s0)" by (simp add: listener_accept_func_def)
  ultimately show ?thesis using assms(5) by (auto simp: px_accounts_def px_resources_def px_holds_def count_list_append)
qed

subsection \<open>Example\<close>

text \<open>The connection receives data, the handshake completes, the data is sent and the client closes.\<close>

definition ex_px :: proxied where
  "ex_px = \<lparr>px_client = listener_accept_func [0, 0, 0] [0, 0], px_socks = ex_ob\<rparr>"

definition ex_px_run :: "px_event list" where
  "ex_px_run = PX_client ex_stack (Ev_client_data [1, 2]) # map (PX_socks ex_stack) ex_socks_run"

definition ex_px_close :: "px_event list" where
  "ex_px_close = ex_px_run @ [PX_client ex_stack (Ev_send_done 2), PX_client ex_stack Ev_client_fin]"

lemma ex_px_ran:
  "px_run 65535 ex_px ex_px_run \<noteq> None" "send_req (px_client (fst (the (px_run 65535 ex_px ex_px_run)))) = Some 2"
  "map_option (tx_of \<circ> snd \<circ> snd \<circ> snd) (px_run 65535 ex_px ex_px_run) =
     Some [[5, 2, 0, 2], [1, 1, 97, 1, 98], [5, 1, 0, 1, 127, 0, 0, 1, 0, 80]]"
  "rx_of (socks_events ex_px_run) = ex_server"
  by code_simp+

theorem proxied_connection_composes_witness:
  "handshake ex_ais ex_dest [[5, 2, 0, 2], [1, 1, 97, 1, 98], [5, 1, 0, 1, 127, 0, 0, 1, 0, 80]] ex_server"
proof -
  obtain s log as bs where r: "px_run 65535 ex_px ex_px_run = Some (s, log, as, bs)" using ex_px_ran(1) by auto
  from proxied_connection_composes [OF _ ex_args ex_init r [unfolded ex_px_def]] r ex_px_ran(2-4) show ?thesis by simp
qed

lemma ex_px_closed:
  "px_run 65535 ex_px ex_px_close \<noteq> None" "socks_closed (px_client (fst (the (px_run 65535 ex_px ex_px_close))))"
  by code_simp+

theorem proxied_connection_resources_witness:
  "\<exists>s log as bs. px_run 65535 ex_px ex_px_close = Some (s, log, as, bs) \<and> count_list bs SC_up_init = count_list bs SC_up_free"
proof -
  obtain s log as bs where r: "px_run 65535 ex_px ex_px_close = Some (s, log, as, bs)" using ex_px_closed(1) by auto
  have "(SC_up_init, SC_up_free, \<lambda>st. st = STATE_UP) \<in> set px_resources" by (simp add: px_resources_def)
  from proxied_connection_resources [OF _ ex_args ex_init r [unfolded ex_px_def] this] r ex_px_closed(2) show ?thesis by simp
qed

end
