(* ===== verification/FairQueue.thy ===== *)
theory FairQueue
  imports SearchTree
begin

text \<open>
  \<^verbatim>\<open>flow/PacketPassFairQueue.c\<close>: the queue through which all UDP connections share one stream to
  the gateway.  Every flow has a 64-bit virtual time that grows with the bytes it sends; queued
  flows are kept in a search tree by time (ties by address), of which the model keeps the in-order
  sequence of flow addresses.  Shown: the assertions of the code, that the queue never idles while
  a packet waits, that the wrap-around of the time never disturbs the order, what each flow gets to
  send while another one waits, and that every packet is passed on once and in order.
\<close>

subsection \<open>State and operations\<close>

definition FAIRQUEUE_MAX_TIME :: u64 where
  "FAIRQUEUE_MAX_TIME = - 1"

record PacketPassFairQueueFlow =
  handler_busy :: bool
  time :: u64
  is_queued :: bool
  queued_data :: "byte list"

record PacketPassFairQueue =
  out_mtu :: nat
  use_cancel :: bool
  packet_weight :: nat
  sending_flow :: "nat option"
  sending_len :: nat
  previous_flow :: "nat option"
  queued_tree :: "nat list"
  flows_list :: "nat list"
  freeing :: bool
  schedule_job :: bool
  flow :: "nat \<Rightarrow> PacketPassFairQueueFlow"   \<comment> \<open>the flow objects by address\<close>

text \<open>What the queue does to its neighbours: a packet or a cancellation to the output, completion
  of a flow's packet, and the one-shot busy handler of a flow.\<close>

datatype fq_act = FQ_Send "byte list" | FQ_RequestCancel | FQ_Done nat | FQ_busy nat

definition compare_flows :: "(nat \<Rightarrow> PacketPassFairQueueFlow) \<Rightarrow> nat \<Rightarrow> nat \<Rightarrow> int" where
  "compare_flows fl f1 f2 =
     (let cmp = B_COMPARE (time (fl f1)) (time (fl f2)) in if cmp \<noteq> 0 then cmp else B_COMPARE f1 f2)"

definition get_current_time :: "PacketPassFairQueue \<Rightarrow> u64" where
  "get_current_time m =
     (case sending_flow m of
        Some f \<Rightarrow> time (flow m f)
      | None \<Rightarrow>
          (let first = map_option (\<lambda>f. time (flow m f)) (Tree_GetFirst (queued_tree m));
               have = (case previous_flow m of
                  None \<Rightarrow> first
                | Some p \<Rightarrow> (case first of
                      None \<Rightarrow> Some (time (flow m p))
                    | Some t \<Rightarrow> if time (flow m p) < t then Some (time (flow m p)) else first))
           in case have of None \<Rightarrow> 0 | Some t \<Rightarrow> t))"

definition subtract_time :: "u64 \<Rightarrow> nat \<Rightarrow> nat \<Rightarrow> (nat \<Rightarrow> PacketPassFairQueueFlow) \<Rightarrow> nat \<Rightarrow> PacketPassFairQueueFlow" where
  "subtract_time subtract f someflow fl =
     (if subtract > time (fl someflow) \<and> someflow \<noteq> f
      then fl(someflow := (fl someflow)\<lparr>time := 0\<rparr>)
      else fl(someflow := (fl someflow)\<lparr>time := time (fl someflow) - subtract\<rparr>))"

definition increment_sent_flow :: "nat \<Rightarrow> u64 \<Rightarrow> PacketPassFairQueue \<Rightarrow> PacketPassFairQueue" where
  "increment_sent_flow f amount m =
     (let m = (if amount > FAIRQUEUE_MAX_TIME - time (flow m f)
               then (let subtract = (case Tree_GetFirst (queued_tree m) of
                            None \<Rightarrow> time (flow m f) | Some first_flow \<Rightarrow> time (flow m first_flow))
                     in m\<lparr>flow := fold (subtract_time subtract f) (flows_list m) (flow m)\<rparr>)
               else m)
      in m\<lparr>flow := (flow m)(f := (flow m f)\<lparr>time := time (flow m f) + amount\<rparr>)\<rparr>)"

definition schedule :: "PacketPassFairQueue \<Rightarrow> PacketPassFairQueue \<times> fq_act list" where
  "schedule m =
     (case Tree_GetFirst (queued_tree m) of
        None \<Rightarrow> (m, [])   \<comment> \<open>excluded by an assertion\<close>
      | Some qflow \<Rightarrow>
          (let m = m\<lparr>queued_tree := Tree_Remove qflow (queued_tree m),
                     flow := (flow m)(qflow := (flow m qflow)\<lparr>is_queued := False\<rparr>)\<rparr>;
               data = queued_data (flow m qflow)
           in (m\<lparr>sending_flow := Some qflow, sending_len := length data\<rparr>, [FQ_Send data])))"

definition schedule_job_handler :: "PacketPassFairQueue \<Rightarrow> PacketPassFairQueue \<times> fq_act list" where
  "schedule_job_handler m =
     (let m = m\<lparr>previous_flow := None\<rparr>
      in if queued_tree m \<noteq> [] then schedule m else (m, []))"

definition input_handler_send :: "nat \<Rightarrow> byte list \<Rightarrow> PacketPassFairQueue \<Rightarrow> PacketPassFairQueue \<times> fq_act list" where
  "input_handler_send f data m =
     (let m = (if previous_flow m = Some f then m\<lparr>previous_flow := None\<rparr>
               else m\<lparr>flow := (flow m)(f := (flow m f)\<lparr>time := bmax_uint64 (time (flow m f)) (get_current_time m)\<rparr>)\<rparr>);
          m = m\<lparr>flow := (flow m)(f := (flow m f)\<lparr>queued_data := data\<rparr>)\<rparr>;
          m = m\<lparr>queued_tree := Tree_Insert (compare_flows (flow m)) f (queued_tree m)\<rparr>;
          m = m\<lparr>flow := (flow m)(f := (flow m f)\<lparr>is_queued := True\<rparr>)\<rparr>
      in if sending_flow m = None \<and> \<not> schedule_job m then schedule m else (m, []))"

definition output_handler_done :: "PacketPassFairQueue \<Rightarrow> PacketPassFairQueue \<times> fq_act list" where
  "output_handler_done m =
     (case sending_flow m of
        None \<Rightarrow> (m, [])   \<comment> \<open>excluded by an assertion\<close>
      | Some f \<Rightarrow>
          (let m = m\<lparr>sending_flow := None, previous_flow := Some f\<rparr>;
               m = increment_sent_flow f (of_nat (packet_weight m) + of_nat (sending_len m)) m;
               m = m\<lparr>schedule_job := True\<rparr>
           in if handler_busy (flow m f)
              then (m\<lparr>flow := (flow m)(f := (flow m f)\<lparr>handler_busy := False\<rparr>)\<rparr>, [FQ_Done f, FQ_busy f])
              else (m, [FQ_Done f])))"

definition PacketPassFairQueue_Init :: "nat \<Rightarrow> bool \<Rightarrow> nat \<Rightarrow> (nat \<Rightarrow> PacketPassFairQueueFlow) \<Rightarrow> PacketPassFairQueue option" where
  "PacketPassFairQueue_Init mtu cancel weight mem =
     (if \<not> (int mtu \<le> uint FAIRQUEUE_MAX_TIME \<and> int weight \<le> uint (FAIRQUEUE_MAX_TIME - of_nat mtu)) then None
      else Some \<lparr>out_mtu = mtu, use_cancel = cancel, packet_weight = weight, sending_flow = None, sending_len = 0,
                 previous_flow = None, queued_tree = [], flows_list = [], freeing = False, schedule_job = False,
                 flow = mem\<rparr>)"

definition PacketPassFairQueue_PrepareFree :: "PacketPassFairQueue \<Rightarrow> PacketPassFairQueue" where
  "PacketPassFairQueue_PrepareFree m = m\<lparr>freeing := True\<rparr>"

definition PacketPassFairQueue_GetMTU :: "PacketPassFairQueue \<Rightarrow> nat" where
  "PacketPassFairQueue_GetMTU m = out_mtu m"

definition PacketPassFairQueueFlow_Init :: "nat \<Rightarrow> PacketPassFairQueue \<Rightarrow> PacketPassFairQueue" where
  "PacketPassFairQueueFlow_Init f m =
     m\<lparr>flow := (flow m)(f := (flow m f)\<lparr>handler_busy := False, time := 0, is_queued := False\<rparr>),
       flows_list := flows_list m @ [f]\<rparr>"

definition PacketPassFairQueueFlow_Free :: "nat \<Rightarrow> PacketPassFairQueue \<Rightarrow> PacketPassFairQueue" where
  "PacketPassFairQueueFlow_Free f m =
     (let m = (if sending_flow m = Some f then m\<lparr>sending_flow := None\<rparr> else m);
          m = (if previous_flow m = Some f then m\<lparr>previous_flow := None\<rparr> else m);
          m = (if is_queued (flow m f) then m\<lparr>queued_tree := Tree_Remove f (queued_tree m)\<rparr> else m)
      in m\<lparr>flows_list := remove1 f (flows_list m)\<rparr>)"

definition PacketPassFairQueueFlow_IsBusy :: "nat \<Rightarrow> PacketPassFairQueue \<Rightarrow> bool" where
  "PacketPassFairQueueFlow_IsBusy f m = (sending_flow m = Some f)"

definition PacketPassFairQueueFlow_RequestCancel :: "nat \<Rightarrow> PacketPassFairQueue \<Rightarrow> PacketPassFairQueue \<times> fq_act list" where
  "PacketPassFairQueueFlow_RequestCancel f m = (m, [FQ_RequestCancel])"

definition PacketPassFairQueueFlow_SetBusyHandler :: "nat \<Rightarrow> bool \<Rightarrow> PacketPassFairQueue \<Rightarrow> PacketPassFairQueue" where
  "PacketPassFairQueueFlow_SetBusyHandler f handler m = m\<lparr>flow := (flow m)(f := (flow m f)\<lparr>handler_busy := handler\<rparr>)\<rparr>"

subsection \<open>Runs\<close>

text \<open>What may happen to a queue: calls of its users, completion by the output, execution of the
  scheduled job.  \<open>fq_enabled\<close> is what callers owe: users submit at most one packet at a time per flow
  (the contract of \<^verbatim>\<open>PacketPassInterface\<close>), do not free a flow that is being sent unless the whole
  queue goes away, and do nothing but free once \<^verbatim>\<open>PrepareFree\<close> was called; the output completes only
  what was given to it; a job runs only when it is set.\<close>

datatype fq_event = FQ_flow_init nat | FQ_flow_free nat | FQ_input nat "byte list" | FQ_output_done
  | FQ_job | FQ_prepare_free | FQ_set_busy nat bool | FQ_cancel nat

fun fq_enabled :: "PacketPassFairQueue \<Rightarrow> fq_event \<Rightarrow> bool" where
  "fq_enabled m (FQ_flow_init f) = (\<not> freeing m \<and> f \<notin> set (flows_list m))"
| "fq_enabled m (FQ_flow_free f) = (f \<in> set (flows_list m) \<and> (freeing m \<or> sending_flow m \<noteq> Some f))"
| "fq_enabled m (FQ_input f data) =
     (\<not> freeing m \<and> f \<in> set (flows_list m) \<and> sending_flow m \<noteq> Some f \<and> \<not> is_queued (flow m f) \<and> length data \<le> out_mtu m)"
| "fq_enabled m FQ_output_done = (\<not> freeing m \<and> sending_flow m \<noteq> None)"
| "fq_enabled m FQ_job = (\<not> freeing m \<and> schedule_job m)"
| "fq_enabled m FQ_prepare_free = True"
| "fq_enabled m (FQ_set_busy f h) = (\<not> freeing m \<and> sending_flow m = Some f)"
| "fq_enabled m (FQ_cancel f) = (\<not> freeing m \<and> sending_flow m = Some f \<and> use_cancel m)"

fun fq_step :: "PacketPassFairQueue \<Rightarrow> fq_event \<Rightarrow> PacketPassFairQueue \<times> fq_act list" where
  "fq_step m (FQ_flow_init f) = (PacketPassFairQueueFlow_Init f m, [])"
| "fq_step m (FQ_flow_free f) = (PacketPassFairQueueFlow_Free f m, [])"
| "fq_step m (FQ_input f data) = input_handler_send f data m"
| "fq_step m FQ_output_done = output_handler_done m"
| "fq_step m FQ_job = schedule_job_handler (m\<lparr>schedule_job := False\<rparr>)"
| "fq_step m FQ_prepare_free = (PacketPassFairQueue_PrepareFree m, [])"
| "fq_step m (FQ_set_busy f h) = (PacketPassFairQueueFlow_SetBusyHandler f h m, [])"
| "fq_step m (FQ_cancel f) = PacketPassFairQueueFlow_RequestCancel f m"

inductive fq_run :: "PacketPassFairQueue \<Rightarrow> fq_event list \<Rightarrow> PacketPassFairQueue \<Rightarrow> bool" where
  fq_run_Nil: "fq_run m [] m"
| fq_run_Cons: "fq_enabled m e \<Longrightarrow> fq_run (fst (fq_step m e)) es m' \<Longrightarrow> fq_run m (e # es) m'"

inductive_simps fq_run_simps: "fq_run m [] m'" "fq_run m (e # es) m'"

fun fq_exec :: "PacketPassFairQueue \<Rightarrow> fq_event list \<Rightarrow> PacketPassFairQueue option" where
  "fq_exec m [] = Some m"
| "fq_exec m (e # es) = (if fq_enabled m e then fq_exec (fst (fq_step m e)) es else None)"

lemma fq_run_exec: "fq_run m es m' \<longleftrightarrow> fq_exec m es = Some m'"
  by (induction m es rule: fq_exec.induct) (auto simp: fq_run_simps)


subsection \<open>Times\<close>

lemma unat_less_u64: "unat (x :: u64) < 2 ^ 64"
  using unsigned_less [of x] by simp

lemma unat_max_minus: "unat (FAIRQUEUE_MAX_TIME - t) = 2 ^ 64 - 1 - unat t"
proof -
  have "unat (- 1 :: u64) = 2 ^ 64 - 1" by (simp add: unsigned_minus_1_eq_mask mask_eq_exp_minus_1)
  moreover have "t \<le> (- 1 :: u64)" by simp
  ultimately show ?thesis by (simp add: FAIRQUEUE_MAX_TIME_def unat_sub)
qed

lemma compare_flows_less:
  "compare_flows fl f g < 0 \<longleftrightarrow> time (fl f) < time (fl g) \<or> time (fl f) = time (fl g) \<and> f < g"
  by (auto simp: compare_flows_def Let_def B_COMPARE_def)

interpretation flow_order: comparator "\<lambda>_. True" "compare_flows fl" for fl
  by unfold_locales (auto simp: compare_flows_def Let_def B_COMPARE_def split: if_splits)

lemma compare_flows_time: "compare_flows fl f g < 0 \<Longrightarrow> time (fl f) \<le> time (fl g)"
  by (auto simp: compare_flows_less)

lemma Tree_sorted_hd_time:
  "Tree_sorted (compare_flows fl) (f # t) \<Longrightarrow> g \<in> set (f # t) \<Longrightarrow> time (fl f) \<le> time (fl g)"
  by (auto simp: Tree_sorted_def compare_flows_time)

lemma fold_subtract_time:
  "distinct fs \<Longrightarrow> fold (subtract_time s f) fs fl g =
     (if g \<in> set fs then (fl g)\<lparr>time := (if s > time (fl g) \<and> g \<noteq> f then 0 else time (fl g) - s)\<rparr> else fl g)"
proof (induction fs arbitrary: fl)
  case (Cons x fs)
  then show ?case by (cases "g = x") (simp_all add: subtract_time_def)
qed simp

lemma unat_add_sub_exact:
  fixes t a s :: "'a::len word"
  assumes "unat s \<le> unat t + unat a" "unat t + unat a - unat s < 2 ^ LENGTH('a)"
  shows "unat (t - s + a) = unat t + unat a - unat s"
proof -
  have "t - s + a = of_nat (unat t + unat a - unat s)"
    using assms(1) by (simp add: of_nat_diff)
  with assms(2) show ?thesis by (simp add: unat_of_nat)
qed

text \<open>How much \<^verbatim>\<open>increment_sent_flow\<close> subtracts from all times: nothing unless the time of the flow
  would overflow.\<close>

definition sub_of :: "nat \<Rightarrow> u64 \<Rightarrow> PacketPassFairQueue \<Rightarrow> u64" where
  "sub_of f amount m =
     (if amount > FAIRQUEUE_MAX_TIME - time (flow m f)
      then (case Tree_GetFirst (queued_tree m) of None \<Rightarrow> time (flow m f) | Some g \<Rightarrow> time (flow m g)) else 0)"

lemma increment_sent_flow_flow:
  assumes "distinct (flows_list m)" "f \<in> set (flows_list m)"
  shows "flow (increment_sent_flow f amount m) g =
    (if g = f then (flow m f)\<lparr>time := time (flow m f) - sub_of f amount m + amount\<rparr>
     else if g \<in> set (flows_list m) then (flow m g)\<lparr>time := (if sub_of f amount m > time (flow m g) then 0 else time (flow m g) - sub_of f amount m)\<rparr>
     else flow m g)"
  using assms by (auto simp: increment_sent_flow_def Let_def sub_of_def fold_subtract_time split: option.splits)

lemma increment_sent_flow_fields [simp]:
  "out_mtu (increment_sent_flow f a m) = out_mtu m" "use_cancel (increment_sent_flow f a m) = use_cancel m"
  "packet_weight (increment_sent_flow f a m) = packet_weight m" "sending_flow (increment_sent_flow f a m) = sending_flow m"
  "sending_len (increment_sent_flow f a m) = sending_len m" "previous_flow (increment_sent_flow f a m) = previous_flow m"
  "queued_tree (increment_sent_flow f a m) = queued_tree m" "flows_list (increment_sent_flow f a m) = flows_list m"
  "freeing (increment_sent_flow f a m) = freeing m" "schedule_job (increment_sent_flow f a m) = schedule_job m"
  by (simp_all add: increment_sent_flow_def Let_def)

text \<open>The situation in which the code increments: the flow is registered, not queued, and no queued
  flow is behind it.\<close>

definition fq_times_ok :: "nat \<Rightarrow> PacketPassFairQueue \<Rightarrow> bool" where
  "fq_times_ok f m \<longleftrightarrow> distinct (flows_list m) \<and> f \<in> set (flows_list m) \<and> f \<notin> set (queued_tree m) \<and>
     set (queued_tree m) \<subseteq> set (flows_list m) \<and> Tree_sorted (compare_flows (flow m)) (queued_tree m) \<and>
     (\<forall>g \<in> set (queued_tree m). time (flow m f) \<le> time (flow m g))"

lemma unat_mono: "(x :: 'a::len word) \<le> y \<Longrightarrow> unat x \<le> unat y"
  by (simp add: word_le_nat_alt)

lemma sub_of_le_queued:
  assumes "fq_times_ok f m" "g \<in> set (queued_tree m)"
  shows "sub_of f amount m \<le> time (flow m g)"
  using assms by (cases "queued_tree m")
    (auto simp: fq_times_ok_def sub_of_def Tree_GetFirst_def hd_opt_def Tree_sorted_def dest: compare_flows_time)

lemma sub_of_bounds:
  assumes "fq_times_ok f m"
  shows "unat (sub_of f amount m) \<le> unat (time (flow m f)) + unat amount"
    and "unat (time (flow m f)) + unat amount - unat (sub_of f amount m) < 2 ^ 64"
proof -
  define t where "t = time (flow m f)"
  note max = unat_max_minus [of t]
  show "unat (sub_of f amount m) \<le> unat (time (flow m f)) + unat amount"
  proof (cases "amount > FAIRQUEUE_MAX_TIME - t")
    case True
    then have "unat t + unat amount \<ge> 2 ^ 64" using max by (simp add: word_less_nat_alt)
    with unat_less_u64 [of "sub_of f amount m"] show ?thesis by (simp add: t_def)
  qed (simp add: sub_of_def t_def)
  show "unat (time (flow m f)) + unat amount - unat (sub_of f amount m) < 2 ^ 64"
  proof (cases "amount > FAIRQUEUE_MAX_TIME - t")
    case True
    have "t \<le> sub_of f amount m"
      using True assms by (cases "queued_tree m") (auto simp: fq_times_ok_def sub_of_def Tree_GetFirst_def hd_opt_def t_def)
    then show ?thesis using unat_less_u64 [of amount] by (simp add: t_def word_le_nat_alt)
  next
    case False
    then show ?thesis using max unat_less_u64 [of t] by (simp add: sub_of_def t_def word_le_nat_alt not_less)
  qed
qed

lemma increment_sent_flow_exact:
  assumes ok: "fq_times_ok f m" and m': "m' = increment_sent_flow f amount m" and s: "s = unat (sub_of f amount m)"
  shows "unat (time (flow m' f)) + s = unat (time (flow m f)) + unat amount"
    and "g \<in> set (queued_tree m) \<Longrightarrow> unat (time (flow m' g)) + s = unat (time (flow m g))"
    and "g \<in> set (flows_list m) \<Longrightarrow> g \<noteq> f \<Longrightarrow> unat (time (flow m' g)) = unat (time (flow m g)) - s"
    and "s \<noteq> 0 \<Longrightarrow> unat (time (flow m f)) + unat amount \<ge> 2 ^ 64"
proof -
  have d: "distinct (flows_list m)" "f \<in> set (flows_list m)" using ok by (auto simp: fq_times_ok_def)
  note fl = increment_sent_flow_flow [OF d, of amount]
  show "unat (time (flow m' f)) + s = unat (time (flow m f)) + unat amount"
    using sub_of_bounds [OF ok, of amount]
    by (simp add: m' fl s unat_add_sub_exact)
  show other: "unat (time (flow m' g)) = unat (time (flow m g)) - s" if "g \<in> set (flows_list m)" "g \<noteq> f"
    using that by (auto simp: m' fl s word_less_nat_alt unat_sub_if')
  show "unat (time (flow m' g)) + s = unat (time (flow m g))" if g: "g \<in> set (queued_tree m)"
  proof -
    have "g \<in> set (flows_list m)" "g \<noteq> f" using ok g by (auto simp: fq_times_ok_def)
    with other unat_mono [OF sub_of_le_queued [OF ok g, of amount]] show ?thesis by (simp add: s)
  qed
  show "unat (time (flow m f)) + unat amount \<ge> 2 ^ 64" if "s \<noteq> 0"
    using that unat_less_u64 [of "time (flow m f)"]
    by (auto simp: s sub_of_def word_less_nat_alt unat_max_minus split: if_splits)
qed

lemma increment_sent_flow_sorted:
  assumes ok: "fq_times_ok f m"
  shows "Tree_sorted (compare_flows (flow (increment_sent_flow f amount m))) (queued_tree m)"
proof (rule Tree_sorted_cong)
  show "Tree_sorted (compare_flows (flow m)) (queued_tree m)" using ok by (simp add: fq_times_ok_def)
  fix g h assume gh: "g \<in> set (queued_tree m)" "h \<in> set (queued_tree m)" "compare_flows (flow m) g h < 0"
  note ex = increment_sent_flow_exact(2) [OF ok refl refl, of _ amount]
  show "compare_flows (flow (increment_sent_flow f amount m)) g h < 0"
    using gh(3) ex [OF gh(1)] ex [OF gh(2)]
    by (auto simp: compare_flows_less word_less_nat_alt word_unat_eq_iff)
qed


subsection \<open>Invariant\<close>

text \<open>The queue's consistency: the tree holds exactly the queued flows in order of time, the flow
  being sent is not queued and no queued flow is behind it, the previous flow is remembered only
  until the scheduling job runs, and while packets wait something is being sent or scheduled.\<close>

definition fq_tree_ok :: "PacketPassFairQueue \<Rightarrow> bool" where
  "fq_tree_ok m \<longleftrightarrow> distinct (flows_list m) \<and>
     (\<forall>f. f \<in> set (queued_tree m) \<longleftrightarrow> f \<in> set (flows_list m) \<and> is_queued (flow m f)) \<and>
     Tree_sorted (compare_flows (flow m)) (queued_tree m) \<and>
     (\<forall>f \<in> set (queued_tree m). length (queued_data (flow m f)) \<le> out_mtu m)"

definition fq_sending_ok :: "PacketPassFairQueue \<Rightarrow> bool" where
  "fq_sending_ok m \<longleftrightarrow> (\<forall>f. sending_flow m = Some f \<longrightarrow>
     f \<in> set (flows_list m) \<and> \<not> is_queued (flow m f) \<and> previous_flow m = None \<and> \<not> schedule_job m \<and>
     sending_len m \<le> out_mtu m \<and> (\<forall>g \<in> set (queued_tree m). time (flow m f) \<le> time (flow m g)))"

definition fq_previous_ok :: "PacketPassFairQueue \<Rightarrow> bool" where
  "fq_previous_ok m \<longleftrightarrow> (\<forall>f. previous_flow m = Some f \<longrightarrow>
     f \<in> set (flows_list m) \<and> \<not> is_queued (flow m f) \<and> schedule_job m)"

definition fq_active :: "PacketPassFairQueue \<Rightarrow> bool" where
  "fq_active m \<longleftrightarrow> (\<not> freeing m \<longrightarrow> queued_tree m \<noteq> [] \<longrightarrow> sending_flow m \<noteq> None \<or> schedule_job m)"

definition fq_inv :: "PacketPassFairQueue \<Rightarrow> bool" where
  "fq_inv m \<longleftrightarrow> fq_tree_ok m \<and> fq_sending_ok m \<and> fq_previous_ok m \<and> fq_active m \<and>
     packet_weight m + out_mtu m < 2 ^ 64"

lemmas fq_inv_defs = fq_inv_def fq_tree_ok_def fq_sending_ok_def fq_previous_ok_def fq_active_def

lemma fq_tree_distinct: "fq_tree_ok m \<Longrightarrow> distinct (queued_tree m)"
  using flow_order.Tree_sorted_distinct by (auto simp: fq_tree_ok_def)

lemma set_Tree_Remove: "fq_tree_ok m \<Longrightarrow> set (Tree_Remove f (queued_tree m)) = set (queued_tree m) - {f}"
  by (simp add: Tree_Remove_def fq_tree_distinct)

lemma compare_flows_cong:
  "(\<And>g. g \<in> set t \<Longrightarrow> time (fl' g) = time (fl g)) \<Longrightarrow> Tree_sorted (compare_flows fl) t \<Longrightarrow> Tree_sorted (compare_flows fl') t"
  by (rule Tree_sorted_cong) (auto simp: compare_flows_less)

text \<open>\<^verbatim>\<open>schedule\<close> sends the first queued flow.\<close>

lemma schedule_inv:
  assumes "fq_tree_ok m" "queued_tree m \<noteq> []" "sending_flow m = None" "previous_flow m = None" "\<not> schedule_job m"
    "packet_weight m + out_mtu m < 2 ^ 64"
  shows "fq_inv (fst (schedule m))"
proof -
  obtain f t where ft: "queued_tree m = f # t" using assms(2) by (cases "queued_tree m") auto
  have nt: "f \<notin> set t" using fq_tree_distinct [OF assms(1)] ft by simp
  have rem: "Tree_Remove f (queued_tree m) = t" by (simp add: Tree_Remove_def ft)
  have sch: "fst (schedule m) = m\<lparr>queued_tree := t, flow := (flow m)(f := (flow m f)\<lparr>is_queued := False\<rparr>),
      sending_flow := Some f, sending_len := length (queued_data (flow m f))\<rparr>"
    using rem by (simp add: schedule_def Tree_GetFirst_def ft hd_opt_def Let_def)
  have hd: "\<forall>g \<in> set t. time (flow m f) \<le> time (flow m g)"
    using assms(1) Tree_sorted_hd_time [of "flow m" f t] ft by (auto simp: fq_tree_ok_def)
  have "Tree_sorted (compare_flows (flow m)) t" using assms(1) ft by (simp add: fq_tree_ok_def Tree_sorted_def)
  then have "Tree_sorted (compare_flows ((flow m)(f := (flow m f)\<lparr>is_queued := False\<rparr>))) t"
    by (rule compare_flows_cong [rotated]) simp
  moreover have "g \<in> set (queued_tree m) \<longleftrightarrow> g \<in> set (flows_list m) \<and> is_queued (flow m g)" for g
    using assms(1) by (simp add: fq_tree_ok_def)
  ultimately show ?thesis
    using assms ft nt hd unfolding sch fq_inv_defs by (auto split: if_splits)
qed

lemma busy_self: "\<not> handler_busy r \<Longrightarrow> r\<lparr>handler_busy := False\<rparr> = r"
  by (cases r) simp

text \<open>The state after \<^verbatim>\<open>input_handler_send\<close> has queued the flow and before it schedules.\<close>

definition queue_time :: "nat \<Rightarrow> PacketPassFairQueue \<Rightarrow> u64" where
  "queue_time f m = (if previous_flow m = Some f then time (flow m f) else max (time (flow m f)) (get_current_time m))"

definition queue_flow :: "nat \<Rightarrow> byte list \<Rightarrow> PacketPassFairQueue \<Rightarrow> PacketPassFairQueue" where
  "queue_flow f data m =
     (let fl = (flow m)(f := (flow m f)\<lparr>time := queue_time f m, queued_data := data, is_queued := True\<rparr>)
      in m\<lparr>previous_flow := (if previous_flow m = Some f then None else previous_flow m),
           queued_tree := Tree_Insert (compare_flows fl) f (queued_tree m), flow := fl\<rparr>)"

lemma input_handler_send_queue:
  "input_handler_send f data m =
     (if sending_flow m = None \<and> \<not> schedule_job m then schedule (queue_flow f data m) else (queue_flow f data m, []))"
proof -
  have cmp: "compare_flows ((flow m)(f := (flow m f)\<lparr>time := t, queued_data := data, is_queued := True\<rparr>)) =
      compare_flows ((flow m)(f := (flow m f)\<lparr>time := t, queued_data := data\<rparr>))" for t
    by (auto simp: compare_flows_def fun_eq_iff)
  show ?thesis
  proof (cases "previous_flow m = Some f")
    case True
    with cmp [of "time (flow m f)"] show ?thesis
      by (simp add: input_handler_send_def queue_flow_def queue_time_def Let_def)
  next
    case False
    with cmp [of "max (time (flow m f)) (get_current_time m)"] show ?thesis
      by (simp add: input_handler_send_def queue_flow_def queue_time_def Let_def)
  qed
qed

lemma queue_flow_simps:
  "flow (queue_flow f data m) g =
     (if g = f then (flow m f)\<lparr>time := queue_time f m, queued_data := data, is_queued := True\<rparr> else flow m g)"
  "set (queued_tree (queue_flow f data m)) = insert f (set (queued_tree m))"
  "flows_list (queue_flow f data m) = flows_list m" "out_mtu (queue_flow f data m) = out_mtu m"
  "packet_weight (queue_flow f data m) = packet_weight m" "sending_flow (queue_flow f data m) = sending_flow m"
  "sending_len (queue_flow f data m) = sending_len m" "schedule_job (queue_flow f data m) = schedule_job m"
  "freeing (queue_flow f data m) = freeing m"
  "previous_flow (queue_flow f data m) = (if previous_flow m = Some f then None else previous_flow m)"
  by (simp_all add: queue_flow_def Let_def flow_order.set_Tree_Insert)

lemma queue_flow_tree_ok:
  assumes ok: "fq_tree_ok m" and f: "f \<in> set (flows_list m)" "\<not> is_queued (flow m f)" "length data \<le> out_mtu m"
  shows "fq_tree_ok (queue_flow f data m)"
proof -
  let ?fl = "flow (queue_flow f data m)"
  have nq: "f \<notin> set (queued_tree m)" using ok f by (auto simp: fq_tree_ok_def)
  have "Tree_sorted (compare_flows ?fl) (queued_tree m)"
    using ok nq by (intro compare_flows_cong [of _ ?fl "flow m"]) (auto simp: queue_flow_simps fq_tree_ok_def)
  then have "Tree_sorted (compare_flows ?fl) (queued_tree (queue_flow f data m))"
    using flow_order.Tree_Insert_sorted [where fl = ?fl and t = "queued_tree m" and x = f] by (simp add: queue_flow_def Let_def)
  with ok f show ?thesis unfolding fq_tree_ok_def by (auto simp: queue_flow_simps)
qed

lemma input_handler_send_inv:
  assumes inv: "fq_inv m" and en: "fq_enabled m (FQ_input f data)"
  shows "fq_inv (fst (input_handler_send f data m))"
proof -
  let ?m2 = "queue_flow f data m"
  have tree: "fq_tree_ok ?m2" using inv en by (intro queue_flow_tree_ok) (auto simp: fq_inv_def)
  show ?thesis
  proof (cases "sending_flow m = None \<and> \<not> schedule_job m")
    case True
    have "queued_tree ?m2 \<noteq> []" using queue_flow_simps(2) [of f data m] by force
    moreover have "previous_flow m = None" using True inv by (cases "previous_flow m") (auto simp: fq_inv_defs)
    ultimately show ?thesis using True tree inv schedule_inv [of ?m2]
      by (simp add: input_handler_send_queue queue_flow_simps fq_inv_def)
  next
    case False
    have "time (flow m g) \<le> queue_time f m" if "sending_flow m = Some g" for g
      using that inv by (auto simp: queue_time_def get_current_time_def fq_inv_defs)
    then have "fq_sending_ok ?m2"
      using inv en unfolding fq_inv_def fq_sending_ok_def by (auto simp: queue_flow_simps)
    moreover have "fq_previous_ok ?m2"
      using inv en unfolding fq_inv_def fq_previous_ok_def by (auto simp: queue_flow_simps)
    moreover have "fq_active ?m2" using False by (auto simp: fq_active_def queue_flow_simps)
    ultimately show ?thesis using False tree inv by (auto simp: input_handler_send_queue queue_flow_simps fq_inv_def)
  qed
qed

lemma fq_inv_times_ok:
  "fq_inv m \<Longrightarrow> sending_flow m = Some f \<Longrightarrow> fq_times_ok f (m\<lparr>sending_flow := None, previous_flow := Some f\<rparr>)"
  by (auto simp: fq_inv_defs fq_times_ok_def)

lemma output_handler_done_inv:
  assumes inv: "fq_inv m" and f: "sending_flow m = Some f"
  shows "fq_inv (fst (output_handler_done m))"
proof -
  define m1 where "m1 = m\<lparr>sending_flow := None, previous_flow := Some f\<rparr>"
  define m2 where "m2 = increment_sent_flow f (of_nat (packet_weight m) + of_nat (sending_len m)) m1"
  define m3 where "m3 = fst (output_handler_done m)"
  have ok: "fq_times_ok f m1" unfolding m1_def by (rule fq_inv_times_ok [OF inv f])
  have m3: "m3 = m2\<lparr>schedule_job := True, flow := (flow m2)(f := (flow m2 f)\<lparr>handler_busy := False\<rparr>)\<rparr>"
  proof -
    have "m3 = (if handler_busy (flow m2 f) then m2\<lparr>schedule_job := True, flow := (flow m2)(f := (flow m2 f)\<lparr>handler_busy := False\<rparr>)\<rparr>
        else m2\<lparr>schedule_job := True\<rparr>)"
      by (simp add: m3_def output_handler_done_def f m1_def m2_def Let_def)
    then show ?thesis by (cases m2) (simp add: busy_self)
  qed
  have fl: "is_queued (flow m2 g) = is_queued (flow m g)" "queued_data (flow m2 g) = queued_data (flow m g)" for g
    using increment_sent_flow_flow [of m1 f _ g] ok by (auto simp: m2_def m1_def fq_times_ok_def)
  have "Tree_sorted (compare_flows (flow m2)) (queued_tree m)"
    using increment_sent_flow_sorted [OF ok] by (simp add: m2_def m1_def)
  then have "Tree_sorted (compare_flows (flow m3)) (queued_tree m)"
    by (rule compare_flows_cong [rotated]) (simp add: m3)
  with inv fl have "fq_tree_ok m3" by (auto simp: fq_inv_defs m3 m2_def m1_def)
  moreover have "fq_sending_ok m3" "fq_active m3" by (simp_all add: fq_inv_defs m3 m2_def m1_def)
  moreover have "fq_previous_ok m3" using inv f fl by (auto simp: fq_inv_defs m3 m2_def m1_def)
  ultimately show ?thesis using inv by (auto simp: fq_inv_def m3_def [symmetric]) (simp add: m3 m2_def m1_def)
qed


lemma schedule_job_handler_inv:
  assumes inv: "fq_inv m" and en: "schedule_job m"
  shows "fq_inv (fst (schedule_job_handler (m\<lparr>schedule_job := False\<rparr>)))"
proof -
  define m1 where "m1 = m\<lparr>schedule_job := False, previous_flow := None\<rparr>"
  have sn: "sending_flow m = None" using inv en by (cases "sending_flow m") (auto simp: fq_inv_defs)
  have ok: "fq_tree_ok m1" using inv by (auto simp: fq_inv_defs m1_def)
  have sj: "schedule_job_handler (m\<lparr>schedule_job := False\<rparr>) = (if queued_tree m1 \<noteq> [] then schedule m1 else (m1, []))"
    by (simp add: schedule_job_handler_def Let_def m1_def)
  show ?thesis
  proof (cases "queued_tree m1 = []")
    case True
    with ok sn inv show ?thesis by (simp add: sj fq_inv_def) (auto simp: fq_inv_defs m1_def)
  next
    case False
    with ok sn inv schedule_inv [of m1] show ?thesis by (simp add: sj m1_def fq_inv_def)
  qed
qed

lemma PacketPassFairQueueFlow_Init_inv:
  assumes inv: "fq_inv m" and f: "f \<notin> set (flows_list m)"
  shows "fq_inv (PacketPassFairQueueFlow_Init f m)"
proof -
  have nq: "f \<notin> set (queued_tree m)" using inv f by (auto simp: fq_inv_defs)
  have "Tree_sorted (compare_flows (flow (PacketPassFairQueueFlow_Init f m))) (queued_tree m)"
    by (rule compare_flows_cong [of _ _ "flow m"])
       (use inv nq in \<open>auto simp: fq_inv_defs PacketPassFairQueueFlow_Init_def\<close>)
  moreover have fl: "flow (PacketPassFairQueueFlow_Init f m) = (flow m)(f := (flow m f)\<lparr>handler_busy := False, time := 0, is_queued := False\<rparr>)"
    "flows_list (PacketPassFairQueueFlow_Init f m) = flows_list m @ [f]"
    "queued_tree (PacketPassFairQueueFlow_Init f m) = queued_tree m"
    by (simp_all add: PacketPassFairQueueFlow_Init_def)
  moreover have rest: "out_mtu (PacketPassFairQueueFlow_Init f m) = out_mtu m"
    "packet_weight (PacketPassFairQueueFlow_Init f m) = packet_weight m" "schedule_job (PacketPassFairQueueFlow_Init f m) = schedule_job m"
    "freeing (PacketPassFairQueueFlow_Init f m) = freeing m" "sending_len (PacketPassFairQueueFlow_Init f m) = sending_len m"
    "sending_flow (PacketPassFairQueueFlow_Init f m) = sending_flow m" "previous_flow (PacketPassFairQueueFlow_Init f m) = previous_flow m"
    by (simp_all add: PacketPassFairQueueFlow_Init_def)
  ultimately have "fq_tree_ok (PacketPassFairQueueFlow_Init f m)"
    using inv f nq unfolding fq_inv_def fq_tree_ok_def by (auto simp: fl rest)
  moreover have "fq_sending_ok (PacketPassFairQueueFlow_Init f m)" "fq_previous_ok (PacketPassFairQueueFlow_Init f m)"
    using inv f nq unfolding fq_inv_def fq_sending_ok_def fq_previous_ok_def by (auto simp: fl rest)
  ultimately show ?thesis using inv by (simp add: fq_inv_def fq_active_def fl rest)
qed

lemma PacketPassFairQueueFlow_Free_inv:
  assumes inv: "fq_inv m" and f: "f \<in> set (flows_list m)" "freeing m \<or> sending_flow m \<noteq> Some f"
  shows "fq_inv (PacketPassFairQueueFlow_Free f m)"
proof -
  let ?m' = "PacketPassFairQueueFlow_Free f m"
  have ok: "fq_tree_ok m" using inv by (simp add: fq_inv_def)
  have q: "set (queued_tree ?m') = set (queued_tree m) - {f}"
    using ok set_Tree_Remove [OF ok, of f] by (auto simp: PacketPassFairQueueFlow_Free_def Let_def fq_tree_ok_def)
  have srt: "Tree_sorted (compare_flows (flow m)) (queued_tree ?m')"
    using ok Tree_Remove_sorted by (auto simp: PacketPassFairQueueFlow_Free_def Let_def fq_tree_ok_def)
  have fl: "flow ?m' = flow m" "flows_list ?m' = remove1 f (flows_list m)" "out_mtu ?m' = out_mtu m"
    "packet_weight ?m' = packet_weight m" "schedule_job ?m' = schedule_job m" "freeing ?m' = freeing m"
    "sending_len ?m' = sending_len m"
    "sending_flow ?m' = (if sending_flow m = Some f then None else sending_flow m)"
    "previous_flow ?m' = (if previous_flow m = Some f then None else previous_flow m)"
    by (simp_all add: PacketPassFairQueueFlow_Free_def Let_def)
  have flset: "set (flows_list ?m') = set (flows_list m) - {f}" using ok by (simp add: fl fq_tree_ok_def)
  have "fq_tree_ok ?m'" using ok q srt flset unfolding fq_tree_ok_def by (auto simp: fl)
  moreover have "fq_sending_ok ?m'" "fq_previous_ok ?m'"
    using inv q flset unfolding fq_inv_defs by (auto simp: fl split: if_splits)
  moreover have "fq_active ?m'" using inv q f by (auto simp: fq_inv_defs fl)
  ultimately show ?thesis using inv by (simp add: fq_inv_def fl)
qed

lemma fq_step_inv: "fq_inv m \<Longrightarrow> fq_enabled m e \<Longrightarrow> fq_inv (fst (fq_step m e))"
proof (cases e)
  case (FQ_set_busy f h)
  assume inv: "fq_inv m"
  have "Tree_sorted (compare_flows (flow (PacketPassFairQueueFlow_SetBusyHandler f h m))) (queued_tree m)"
    by (rule compare_flows_cong [of _ _ "flow m"])
       (use inv in \<open>auto simp: fq_inv_defs PacketPassFairQueueFlow_SetBusyHandler_def\<close>)
  with inv FQ_set_busy show ?thesis by (auto simp: fq_inv_defs PacketPassFairQueueFlow_SetBusyHandler_def)
next
  case FQ_prepare_free
  assume "fq_inv m" with FQ_prepare_free show ?thesis by (auto simp: fq_inv_defs PacketPassFairQueue_PrepareFree_def)
qed (auto simp: PacketPassFairQueueFlow_Init_inv PacketPassFairQueueFlow_Free_inv input_handler_send_inv
  output_handler_done_inv schedule_job_handler_inv PacketPassFairQueueFlow_RequestCancel_def)

lemma fq_run_inv: "fq_run m es m' \<Longrightarrow> fq_inv m \<Longrightarrow> fq_inv m'"
  by (induction rule: fq_run.induct) (auto intro: fq_step_inv)

lemma PacketPassFairQueue_Init_inv: "PacketPassFairQueue_Init mtu c w mem = Some m \<Longrightarrow> fq_inv m"
proof -
  assume i: "PacketPassFairQueue_Init mtu c w mem = Some m"
  then have b: "int mtu \<le> uint FAIRQUEUE_MAX_TIME" "int w \<le> uint (FAIRQUEUE_MAX_TIME - of_nat mtu)"
    by (auto simp: PacketPassFairQueue_Init_def split: if_splits)
  have "uint FAIRQUEUE_MAX_TIME = 2 ^ 64 - 1"
    by (simp add: FAIRQUEUE_MAX_TIME_def unsigned_minus_1_eq_mask mask_eq_exp_minus_1)
  then have mtu: "mtu < 2 ^ 64" using b(1) by simp
  then have "unat (of_nat mtu :: u64) = mtu" by (simp add: unat_of_nat)
  then have "int w \<le> int (2 ^ 64 - 1 - mtu)"
    using b(2) unat_max_minus [of "of_nat mtu"] by (simp add: uint_nat)
  then have "w + mtu < 2 ^ 64" using mtu by simp
  with i show ?thesis by (auto simp: PacketPassFairQueue_Init_def fq_inv_defs Tree_sorted_def split: if_splits)
qed


subsection \<open>What a flow gets while another waits\<close>

lemma input_handler_send_time:
  "time (flow (fst (input_handler_send f data m)) g) =
     (if g = f \<and> previous_flow m \<noteq> Some f then max (time (flow m f)) (get_current_time m) else time (flow m g))"
  by (auto simp: input_handler_send_def Let_def schedule_def split: option.splits)

lemma schedule_time [simp]: "time (flow (fst (schedule m)) g) = time (flow m g)"
  by (auto simp: schedule_def Let_def split: option.splits)

definition served :: "nat \<Rightarrow> PacketPassFairQueue \<Rightarrow> fq_event \<Rightarrow> nat" where
  "served f m e = (if e = FQ_output_done \<and> sending_flow m = Some f then packet_weight m + sending_len m else 0)"

definition vtime :: "PacketPassFairQueue \<Rightarrow> nat \<Rightarrow> nat" where
  "vtime m f = unat (time (flow m f))"

definition lag :: "nat \<Rightarrow> nat \<Rightarrow> PacketPassFairQueue \<Rightarrow> int" where
  "lag f g m = int (vtime m g) - int (vtime m f)"

lemma vtime_cong: "time (flow m' f) = time (flow m f) \<Longrightarrow> vtime m' f = vtime m f"
  and vtime_mono: "time (flow m f) \<le> time (flow m' g) \<Longrightarrow> vtime m f \<le> vtime m' g"
  by (simp_all add: vtime_def unat_mono)

lemma output_handler_done_exact:
  assumes inv: "fq_inv m" and h: "sending_flow m = Some h"
  defines "m' \<equiv> fst (output_handler_done m)" and "a \<equiv> packet_weight m + sending_len m"
  shows "\<exists>s. vtime m' h + s = vtime m h + a \<and>
    (\<forall>g \<in> set (queued_tree m). vtime m' g + s = vtime m g) \<and>
    (\<forall>g \<in> set (flows_list m) - {h}. vtime m' g = vtime m g - s) \<and> (s \<noteq> 0 \<longrightarrow> vtime m h + a \<ge> 2 ^ 64)"
proof -
  define m1 where "m1 = m\<lparr>sending_flow := None, previous_flow := Some h\<rparr>"
  define w :: u64 where "w = of_nat (packet_weight m) + of_nat (sending_len m)"
  have ok: "fq_times_ok h m1" unfolding m1_def by (rule fq_inv_times_ok [OF inv h])
  have "packet_weight m + sending_len m < 2 ^ 64" using inv h by (auto simp: fq_inv_defs)
  then have w: "unat w = a" by (simp add: w_def a_def unat_of_nat flip: of_nat_add)
  have t: "vtime m' x = vtime (increment_sent_flow h w m1) x" for x
    by (rule vtime_cong) (simp add: m'_def output_handler_done_def h Let_def w_def m1_def)
  have m1: "vtime m1 x = vtime m x" "set (queued_tree m1) = set (queued_tree m)" "set (flows_list m1) = set (flows_list m)" for x
    by (simp_all add: m1_def vtime_def)
  note ex = increment_sent_flow_exact [OF ok refl refl, where amount = w, folded vtime_def, folded t, unfolded w m1]
  show ?thesis by (rule exI [of _ "unat (sub_of h w m1)"]) (use ex in blast)
qed

lemma output_handler_done_lag:
  assumes inv: "fq_inv m" and h: "sending_flow m = Some h" and g: "g \<in> set (queued_tree m)" and f: "f \<in> set (flows_list m)"
  shows "lag f g (fst (output_handler_done m)) \<le> lag f g m - int (served f m FQ_output_done)"
proof -
  let ?m' = "fst (output_handler_done m)"
  obtain s where h': "vtime ?m' h + s = vtime m h + (packet_weight m + sending_len m)"
    and q: "\<And>g. g \<in> set (queued_tree m) \<Longrightarrow> vtime ?m' g + s = vtime m g"
    and o: "\<And>g. g \<in> set (flows_list m) \<Longrightarrow> g \<noteq> h \<Longrightarrow> vtime ?m' g = vtime m g - s"
    using output_handler_done_exact [OF inv h] by blast
  show ?thesis using h' q [OF g] o [OF f] h by (cases "f = h") (simp_all add: lag_def served_def)
qed

lemma fq_step_lag:
  assumes inv: "fq_inv m" and en: "fq_enabled m e" and g: "g \<in> set (queued_tree m)" and f: "f \<in> set (flows_list m)"
  shows "lag f g (fst (fq_step m e)) \<le> lag f g m - int (served f m e)"
proof (cases e)
  case (FQ_input h data)
  have gh: "g \<noteq> h" using g en inv FQ_input by (auto simp: fq_inv_defs)
  then have "vtime (fst (fq_step m e)) g = vtime m g" by (intro vtime_cong) (simp add: FQ_input input_handler_send_time)
  moreover have "vtime m f \<le> vtime (fst (fq_step m e)) f"
    by (intro vtime_mono) (simp add: FQ_input input_handler_send_time)
  ultimately show ?thesis by (simp add: lag_def served_def FQ_input)
next
  case (FQ_flow_init h)
  then have "h \<noteq> f" "h \<noteq> g" using en f g inv by (auto simp: fq_inv_defs)
  then show ?thesis by (simp add: FQ_flow_init lag_def vtime_def served_def PacketPassFairQueueFlow_Init_def)
next
  case FQ_output_done
  with en obtain h where "sending_flow m = Some h" by auto
  with output_handler_done_lag [OF inv _ g f] show ?thesis by (simp add: FQ_output_done)
qed (auto simp: lag_def vtime_def served_def PacketPassFairQueueFlow_Free_def Let_def schedule_job_handler_def
  PacketPassFairQueue_PrepareFree_def PacketPassFairQueueFlow_SetBusyHandler_def PacketPassFairQueueFlow_RequestCancel_def)

text \<open>The virtual time (bytes and packet weights) that flow \<open>f\<close> is charged for during a run, and that
  flow \<open>g\<close> has a packet waiting in every state of it.\<close>

fun service :: "nat \<Rightarrow> PacketPassFairQueue \<Rightarrow> fq_event list \<Rightarrow> nat" where
  "service f m [] = 0"
| "service f m (e # es) = served f m e + service f (fst (fq_step m e)) es"

fun waits :: "nat \<Rightarrow> PacketPassFairQueue \<Rightarrow> fq_event list \<Rightarrow> bool" where
  "waits g m [] = (g \<in> set (queued_tree m))"
| "waits g m (e # es) = (g \<in> set (queued_tree m) \<and> waits g (fst (fq_step m e)) es)"

lemma waits_queued: "waits g m es \<Longrightarrow> g \<in> set (queued_tree m)"
  by (cases es) auto

lemma schedule_flows_list [simp]:
  "flows_list (fst (schedule m)) = flows_list m" "out_mtu (fst (schedule m)) = out_mtu m"
  "packet_weight (fst (schedule m)) = packet_weight m"
  by (simp_all add: schedule_def Let_def split: option.splits)

lemma fq_step_fields:
  "out_mtu (fst (fq_step m e)) = out_mtu m" "packet_weight (fst (fq_step m e)) = packet_weight m"
  "fq_enabled m e \<Longrightarrow> f \<in> set (flows_list m) \<Longrightarrow> e \<noteq> FQ_flow_free f \<Longrightarrow> f \<in> set (flows_list (fst (fq_step m e)))"
  by (cases e; auto simp: PacketPassFairQueueFlow_Free_def PacketPassFairQueueFlow_Init_def Let_def schedule_job_handler_def
    PacketPassFairQueue_PrepareFree_def PacketPassFairQueueFlow_SetBusyHandler_def PacketPassFairQueueFlow_RequestCancel_def
    input_handler_send_def output_handler_done_def in_set_remove1 split: option.splits)+

lemma fq_run_fields: "fq_run m es m' \<Longrightarrow> out_mtu m' = out_mtu m \<and> packet_weight m' = packet_weight m"
  by (induction rule: fq_run.induct) (auto simp: fq_step_fields(1,2))

lemma sending_lag:
  "fq_inv m \<Longrightarrow> sending_flow m = Some f \<Longrightarrow> g \<in> set (queued_tree m) \<Longrightarrow> 0 \<le> lag f g m"
  using vtime_mono [of m f m g] by (auto simp: fq_inv_def fq_sending_ok_def lag_def)

lemma service_bound:
  assumes "fq_run m es m'" "fq_inv m" "waits g m es" "f \<in> set (flows_list m)" "FQ_flow_free f \<notin> set es"
  shows "int (service f m es) \<le> (if lag f g m < 0 then 0 else lag f g m + int (packet_weight m + out_mtu m))"
  using assms
proof (induction rule: fq_run.induct)
  case (fq_run_Cons m e es m')
  let ?m1 = "fst (fq_step m e)"
  have g: "g \<in> set (queued_tree m)" "waits g ?m1 es" using fq_run_Cons.prems by auto
  have IH: "int (service f ?m1 es) \<le> (if lag f g ?m1 < 0 then 0 else lag f g ?m1 + int (packet_weight m + out_mtu m))"
  proof -
    have "f \<in> set (flows_list ?m1)" using fq_run_Cons.prems fq_run_Cons.hyps by (intro fq_step_fields(3)) auto
    with fq_run_Cons g show ?thesis by (simp add: fq_step_inv fq_step_fields(1,2) cong: if_cong)
  qed
  have step: "lag f g ?m1 \<le> lag f g m - int (served f m e)"
    using fq_run_Cons g by (intro fq_step_lag) simp_all
  show ?case
  proof (cases "served f m e = 0")
    case True
    then show ?thesis using IH step by (auto split: if_splits)
  next
    case False
    then have s: "sending_flow m = Some f" "served f m e = packet_weight m + sending_len m"
      by (auto simp: served_def split: if_splits)
    have "0 \<le> lag f g m" "sending_len m \<le> out_mtu m"
      using sending_lag [OF _ s(1) g(1)] fq_run_Cons.prems s(1) by (auto simp: fq_inv_defs)
    then show ?thesis using IH step s(2) by (auto split: if_splits)
  qed
qed (auto simp: waits_queued)


subsection \<open>Delivery\<close>

text \<open>What a flow submits during a run, what the queue passes on for it and how many of its packets
  are reported done.\<close>

fun submitted_now :: "nat \<Rightarrow> fq_event \<Rightarrow> byte list list" where
  "submitted_now f (FQ_input g data) = (if g = f then [data] else [])"
| "submitted_now f _ = []"

fun sent_data :: "fq_act list \<Rightarrow> byte list list" where
  "sent_data [] = []"
| "sent_data (FQ_Send d # acts) = d # sent_data acts"
| "sent_data (_ # acts) = sent_data acts"

definition sent_now :: "nat \<Rightarrow> PacketPassFairQueue \<times> fq_act list \<Rightarrow> byte list list" where
  "sent_now f r = (if sending_flow (fst r) = Some f then sent_data (snd r) else [])"

fun submitted :: "nat \<Rightarrow> fq_event list \<Rightarrow> byte list list" where
  "submitted f [] = []"
| "submitted f (e # es) = submitted_now f e @ submitted f es"

fun sent_for :: "nat \<Rightarrow> PacketPassFairQueue \<Rightarrow> fq_event list \<Rightarrow> byte list list" where
  "sent_for f m [] = []"
| "sent_for f m (e # es) = sent_now f (fq_step m e) @ sent_for f (fst (fq_step m e)) es"

fun done_for :: "nat \<Rightarrow> PacketPassFairQueue \<Rightarrow> fq_event list \<Rightarrow> nat" where
  "done_for f m [] = 0"
| "done_for f m (e # es) = count_list (snd (fq_step m e)) (FQ_Done f) + done_for f (fst (fq_step m e)) es"

definition queued_now :: "nat \<Rightarrow> PacketPassFairQueue \<Rightarrow> byte list list" where
  "queued_now f m = (if is_queued (flow m f) then [queued_data (flow m f)] else [])"

definition sending_now :: "nat \<Rightarrow> PacketPassFairQueue \<Rightarrow> nat" where
  "sending_now f m = (if sending_flow m = Some f then 1 else 0)"

lemma schedule_delivers:
  assumes "fq_tree_ok m" "sending_flow m = None"
  shows "queued_now f m = sent_now f (schedule m) @ queued_now f (fst (schedule m))"
    and "sending_now f (fst (schedule m)) = length (sent_now f (schedule m))"
    and "count_list (snd (schedule m)) (FQ_Done f) = 0"
proof -
  have q: "is_queued (flow m g)" if "Tree_GetFirst (queued_tree m) = Some g" for g
    using that assms by (cases "queued_tree m") (auto simp: Tree_GetFirst_def hd_opt_def fq_tree_ok_def)
  show "queued_now f m = sent_now f (schedule m) @ queued_now f (fst (schedule m))"
    using assms q by (auto simp: schedule_def Let_def queued_now_def sent_now_def split: option.splits)
  show "sending_now f (fst (schedule m)) = length (sent_now f (schedule m))"
    using assms by (auto simp: schedule_def Let_def sending_now_def sent_now_def split: option.splits)
  show "count_list (snd (schedule m)) (FQ_Done f) = 0"
    by (simp add: schedule_def Let_def split: option.splits)
qed


lemma input_handler_send_delivers:
  assumes inv: "fq_inv m" and en: "fq_enabled m (FQ_input g data)"
  defines "r \<equiv> input_handler_send g data m"
  shows "queued_now f m @ submitted_now f (FQ_input g data) = sent_now f r @ queued_now f (fst r)"
    and "sending_now f m + length (sent_now f r) = count_list (snd r) (FQ_Done f) + sending_now f (fst r)"
proof -
  let ?m2 = "queue_flow g data m"
  have ok: "fq_tree_ok ?m2" using inv en by (intro queue_flow_tree_ok) (auto simp: fq_inv_def)
  have q: "queued_now f ?m2 = queued_now f m @ submitted_now f (FQ_input g data)"
    using en by (auto simp: queued_now_def queue_flow_simps)
  show "queued_now f m @ submitted_now f (FQ_input g data) = sent_now f r @ queued_now f (fst r)"
    using schedule_delivers(1) [OF ok, of f] q [symmetric]
    by (auto simp: r_def input_handler_send_queue queue_flow_simps sent_now_def)
  show "sending_now f m + length (sent_now f r) = count_list (snd r) (FQ_Done f) + sending_now f (fst r)"
    using schedule_delivers(2,3) [OF ok, of f]
    by (auto simp: r_def input_handler_send_queue queue_flow_simps sent_now_def sending_now_def)
qed

lemma fq_step_delivers:
  assumes inv: "fq_inv m" and en: "fq_enabled m e" and f: "f \<in> set (flows_list m)" "e \<noteq> FQ_flow_free f"
  shows "queued_now f m @ submitted_now f e = sent_now f (fq_step m e) @ queued_now f (fst (fq_step m e))"
    and "sending_now f m + length (sent_now f (fq_step m e)) =
      count_list (snd (fq_step m e)) (FQ_Done f) + sending_now f (fst (fq_step m e))"
proof -
  have "(queued_now f m @ submitted_now f e = sent_now f (fq_step m e) @ queued_now f (fst (fq_step m e))) \<and>
    (sending_now f m + length (sent_now f (fq_step m e)) = count_list (snd (fq_step m e)) (FQ_Done f) + sending_now f (fst (fq_step m e)))"
  proof (cases e)
    case (FQ_input g data)
    with inv en input_handler_send_delivers [of m g data f] show ?thesis by simp
  next
    case FQ_job
    define m1 where "m1 = m\<lparr>schedule_job := False, previous_flow := None\<rparr>"
    have n: "sending_flow m = None" using inv en FQ_job by (cases "sending_flow m") (auto simp: fq_inv_defs)
    have ok: "fq_tree_ok m1" using inv by (auto simp: fq_inv_defs m1_def)
    have st: "fq_step m e = (if queued_tree m1 \<noteq> [] then schedule m1 else (m1, []))"
      by (simp add: FQ_job schedule_job_handler_def Let_def m1_def)
    have "queued_now f m1 = queued_now f m" "sending_now f m1 = sending_now f m" "sending_now f m = 0" "sending_flow m1 = None"
      using n by (simp_all add: m1_def queued_now_def sending_now_def)
    moreover have "submitted_now f e = []" by (simp add: FQ_job)
    ultimately show ?thesis unfolding st using schedule_delivers [OF ok, of f] by (auto simp: sent_now_def)
  next
    case FQ_output_done
    then obtain h where h: "sending_flow m = Some h" using en by auto
    have d: "distinct (flows_list m)" "h \<in> set (flows_list m)" using inv h by (auto simp: fq_inv_defs)
    then have "is_queued (flow (fst (output_handler_done m)) x) = is_queued (flow m x)"
        "queued_data (flow (fst (output_handler_done m)) x) = queued_data (flow m x)" for x
      by (auto simp: output_handler_done_def h Let_def increment_sent_flow_flow)
    then show ?thesis
      using FQ_output_done h by (auto simp: queued_now_def sending_now_def sent_now_def output_handler_done_def Let_def)
  next
    case (FQ_flow_init g)
    with en f have "g \<noteq> f" by auto
    with FQ_flow_init show ?thesis
      by (simp add: PacketPassFairQueueFlow_Init_def queued_now_def sending_now_def sent_now_def)
  next
    case (FQ_flow_free g)
    with f have "g \<noteq> f" by auto
    with FQ_flow_free show ?thesis
      by (auto simp: PacketPassFairQueueFlow_Free_def Let_def queued_now_def sending_now_def sent_now_def)
  qed (auto simp: PacketPassFairQueue_PrepareFree_def PacketPassFairQueueFlow_SetBusyHandler_def
    PacketPassFairQueueFlow_RequestCancel_def queued_now_def sending_now_def sent_now_def)
  then show "queued_now f m @ submitted_now f e = sent_now f (fq_step m e) @ queued_now f (fst (fq_step m e))"
    "sending_now f m + length (sent_now f (fq_step m e)) = count_list (snd (fq_step m e)) (FQ_Done f) + sending_now f (fst (fq_step m e))"
    by auto
qed

lemma fq_run_delivers:
  assumes "fq_run m es m'" "fq_inv m" "f \<in> set (flows_list m)" "FQ_flow_free f \<notin> set es"
  shows "queued_now f m @ submitted f es = sent_for f m es @ queued_now f m' \<and>
    sending_now f m + length (sent_for f m es) = done_for f m es + sending_now f m'"
  using assms
proof (induction rule: fq_run.induct)
  case (fq_run_Cons m e es m')
  have "f \<in> set (flows_list (fst (fq_step m e)))" using fq_run_Cons.prems fq_run_Cons.hyps by (intro fq_step_fields(3)) auto
  with fq_run_Cons have IH: "queued_now f (fst (fq_step m e)) @ submitted f es = sent_for f (fst (fq_step m e)) es @ queued_now f m'"
    "sending_now f (fst (fq_step m e)) + length (sent_for f (fst (fq_step m e)) es) = done_for f (fst (fq_step m e)) es + sending_now f m'"
    by (auto simp: fq_step_inv)
  have e: "e \<noteq> FQ_flow_free f" using fq_run_Cons.prems by auto
  note st = fq_step_delivers [OF fq_run_Cons.prems(1) fq_run_Cons.hyps(1) fq_run_Cons.prems(2) e]
  have "queued_now f m @ submitted f (e # es) = (queued_now f m @ submitted_now f e) @ submitted f es" by simp
  also have "\<dots> = sent_for f m (e # es) @ queued_now f m'" unfolding st(1) using IH(1) by simp
  finally show ?case using IH(2) st(2) by simp
qed simp


subsection \<open>Properties\<close>


definition ex_mem :: "nat \<Rightarrow> PacketPassFairQueueFlow" where
  "ex_mem f = \<lparr>handler_busy = False, time = 0, is_queued = False, queued_data = []\<rparr>"

definition ex_fq :: PacketPassFairQueue where
  "ex_fq = the (PacketPassFairQueue_Init 100 False 1 ex_mem)"

definition ex_es :: "fq_event list" where
  "ex_es = [FQ_flow_init 1, FQ_flow_init 2, FQ_input 1 [7, 8], FQ_input 2 [9]]"

definition ex_m :: PacketPassFairQueue where
  "ex_m = the (fq_exec ex_fq ex_es)"

lemma ex_fq: "PacketPassFairQueue_Init 100 False 1 ex_mem = Some ex_fq"
proof -
  have "PacketPassFairQueue_Init 100 False 1 ex_mem \<noteq> None" by code_simp
  then show ?thesis by (auto simp: ex_fq_def)
qed

lemma ex_fq_run: "fq_run ex_fq ex_es ex_m"
proof -
  have "fq_exec ex_fq ex_es \<noteq> None" by code_simp
  then show ?thesis by (auto simp: fq_run_exec ex_m_def)
qed


text \<open>C27.  Fair sharing.  As long as flow \<open>g\<close> has a packet waiting, any other registered flow \<open>f\<close> is served
  at most the amount by which its virtual time is behind that of \<open>g\<close>, plus one packet; a flow that is
  ahead of \<open>g\<close> is not served at all.  In particular no flow can be starved, and the subtraction that keeps
  the 64-bit times from overflowing does not disturb this.\<close>

theorem PacketPassFairQueue_fair:
  assumes "PacketPassFairQueue_Init mtu cancel weight mem = Some m0" "fq_run m0 es0 m" "fq_run m es m'"
    and "waits g m es" "f \<in> set (flows_list m)" "FQ_flow_free f \<notin> set es"
  shows "int (service f m es) \<le> (if lag f g m < 0 then 0 else lag f g m + int (weight + mtu))"
proof -
  have "fq_inv m" by (rule fq_run_inv [OF assms(2) PacketPassFairQueue_Init_inv [OF assms(1)]])
  moreover have "packet_weight m = weight" "out_mtu m = mtu"
    using fq_run_fields [OF assms(2)] assms(1) by (auto simp: PacketPassFairQueue_Init_def split: if_splits)
  ultimately show ?thesis using service_bound [OF assms(3) _ assms(4-6)] by (simp cong: if_cong)
qed

theorem PacketPassFairQueue_fair_witness:
  "service 1 ex_m [FQ_output_done] = 3 \<and> int (service 1 ex_m [FQ_output_done]) \<le> 101"
proof -
  have "fq_exec ex_m [FQ_output_done] \<noteq> None" by code_simp
  then obtain m' where "fq_run ex_m [FQ_output_done] m'" by (auto simp: fq_run_exec)
  moreover have "waits 2 ex_m [FQ_output_done]" "(1 :: nat) \<in> set (flows_list ex_m)" by code_simp+
  moreover have "service 1 ex_m [FQ_output_done] = 3" "lag 1 2 ex_m = 0" by code_simp+
  ultimately show ?thesis using PacketPassFairQueue_fair [OF ex_fq ex_fq_run, of "[FQ_output_done]" m' 2 1] by simp
qed

text \<open>C29.  Delivery.  From the moment a flow is created until it is freed, the packets the queue passes to
  its output on behalf of the flow are exactly those submitted, in order and without loss or duplicate,
  except for the one still waiting; and every packet passed on is reported done exactly once, except for
  the one still being sent.\<close>

theorem PacketPassFairQueue_delivers:
  assumes "PacketPassFairQueue_Init mtu cancel weight mem = Some m0" "fq_run m0 es0 m1"
    and "fq_enabled m1 (FQ_flow_init f)" "fq_run (PacketPassFairQueueFlow_Init f m1) es m'" "FQ_flow_free f \<notin> set es"
  defines "m \<equiv> PacketPassFairQueueFlow_Init f m1"
  shows "submitted f es = sent_for f m es @ (if is_queued (flow m' f) then [queued_data (flow m' f)] else []) \<and>
    length (sent_for f m es) = done_for f m es + (if PacketPassFairQueueFlow_IsBusy f m' then 1 else 0)"
proof -
  have inv1: "fq_inv m1" by (rule fq_run_inv [OF assms(2) PacketPassFairQueue_Init_inv [OF assms(1)]])
  with assms(3) have inv: "fq_inv m" by (simp add: m_def PacketPassFairQueueFlow_Init_inv)
  have "f \<in> set (flows_list m)" "queued_now f m = []" by (simp_all add: m_def PacketPassFairQueueFlow_Init_def queued_now_def)
  moreover have "sending_now f m = 0"
    using inv1 assms(3) by (auto simp: m_def PacketPassFairQueueFlow_Init_def sending_now_def fq_inv_def fq_sending_ok_def)
  ultimately show ?thesis
    using fq_run_delivers [of m es m' f] inv assms(4,5)
    by (auto simp: m_def queued_now_def [of f m'] sending_now_def [of f m'] PacketPassFairQueueFlow_IsBusy_def)
qed

definition ex_es2 :: "fq_event list" where
  "ex_es2 = [FQ_input 3 [1], FQ_output_done, FQ_job, FQ_output_done, FQ_job]"

theorem PacketPassFairQueue_delivers_witness:
  "submitted 3 ex_es2 = sent_for 3 (PacketPassFairQueueFlow_Init 3 ex_m) ex_es2"
proof -
  have "fq_exec (PacketPassFairQueueFlow_Init 3 ex_m) ex_es2 \<noteq> None" by code_simp
  then obtain m' where m': "fq_exec (PacketPassFairQueueFlow_Init 3 ex_m) ex_es2 = Some m'" by blast
  have "\<not> is_queued (flow (the (fq_exec (PacketPassFairQueueFlow_Init 3 ex_m) ex_es2)) 3)" by code_simp
  then have "\<not> is_queued (flow m' 3)" by (simp add: m')
  moreover have "fq_enabled ex_m (FQ_flow_init 3)" "FQ_flow_free 3 \<notin> set ex_es2" by code_simp+
  ultimately show ?thesis
    using PacketPassFairQueue_delivers [OF ex_fq ex_fq_run, of 3 ex_es2 m'] m' by (simp add: fq_run_exec)
qed



end
