(* ===== verification/ChunkBuffer.thy ===== *)
theory ChunkBuffer
  imports ByteOrder
begin

text \<open>
  \<^verbatim>\<open>structure/ChunkBuffer2.h\<close>: the circular packet buffer.  Packets are stored as chunks of 4-byte
  blocks, a header block with the length followed by the data, contiguously from \<^verbatim>\<open>start\<close>; when the
  room up to the end of the buffer becomes too small for a packet of maximal length, the buffer
  wraps around to its beginning (at \<^verbatim>\<open>wrap\<close>, which need not be the end).  The memory is modelled
  byte by byte, headers included.  Shown: the buffer is a first-in first-out queue of packets, it
  never overwrites a stored packet, its assertions hold, and as long as it holds fewer packets than
  it was dimensioned for, there is room for another one of maximal length.
\<close>

subsection \<open>State and operations\<close>

text \<open>\<open>cb_mem\<close> is the memory of the blocks; \<open>input_dest\<close> and \<open>output_dest\<close> are byte offsets into it, \<open>None\<close> for
  \<^verbatim>\<open>NULL\<close>.\<close>

abbreviation (input) "sizeof_block \<equiv> (4 :: nat)"

record ChunkBuffer2 =
  cb_mem :: "byte list"
  cb_size :: int
  cb_wrap :: int
  cb_start :: int
  cb_used :: int
  cb_mtu :: int
  input_dest :: "nat option"
  input_avail :: int
  output_dest :: "nat option"
  output_avail :: int

definition block_len :: "byte list \<Rightarrow> int \<Rightarrow> int" where
  "block_len mem i = sint (badvpn_read_le32 (slice (4 * nat i) 4 mem))"

definition set_block_len :: "int \<Rightarrow> int \<Rightarrow> byte list \<Rightarrow> byte list" where
  "set_block_len i len mem = overwrite (4 * nat i) (mem_bytes32 (of_int len)) mem"

definition ChunkBuffer2_end :: "ChunkBuffer2 \<Rightarrow> int" where
  "ChunkBuffer2_end b =
     (if cb_used b \<ge> cb_wrap b - cb_start b then cb_used b - (cb_wrap b - cb_start b) else cb_start b + cb_used b)"

definition ChunkBuffer2_update_input :: "ChunkBuffer2 \<Rightarrow> ChunkBuffer2" where
  "ChunkBuffer2_update_input b =
     (let e = ChunkBuffer2_end b in
      if cb_size b - e - 1 < cb_mtu b then b\<lparr>input_dest := None, input_avail := -1\<rparr>
      else
       (let fr = (if cb_used b \<ge> cb_wrap b - cb_start b then cb_start b - e else cb_size b - e)
        in if fr > 0 then b\<lparr>input_dest := Some (4 * nat (e + 1)), input_avail := (fr - 1) * 4\<rparr>
           else b\<lparr>input_dest := None, input_avail := -1\<rparr>))"

definition ChunkBuffer2_update_output :: "ChunkBuffer2 \<Rightarrow> ChunkBuffer2" where
  "ChunkBuffer2_update_output b =
     (if cb_used b > 0
      then b\<lparr>output_dest := Some (4 * nat (cb_start b + 1)), output_avail := block_len (cb_mem b) (cb_start b)\<rparr>
      else b\<lparr>output_dest := None, output_avail := -1\<rparr>)"

definition ChunkBuffer2_calc_blocks :: "int \<Rightarrow> int \<Rightarrow> int" where
  "ChunkBuffer2_calc_blocks chunk_len num =
     (let chunk_data_blocks = int (bdivide_up (nat chunk_len) sizeof_block) in
      if chunk_data_blocks > INT_MAX - 1 then -1
      else
       (let chunk_blocks = 1 + chunk_data_blocks in
        if num > INT_MAX - 1 then -1
        else
         (let num_chunks = num + 1 in
          if chunk_blocks > INT_MAX div num_chunks then -1 else chunk_blocks * num_chunks)))"

definition ChunkBuffer2_Init :: "byte list \<Rightarrow> int \<Rightarrow> int \<Rightarrow> ChunkBuffer2" where
  "ChunkBuffer2_Init buffer blocks mtu =
     (let b = \<lparr>cb_mem = buffer, cb_size = blocks, cb_wrap = blocks, cb_start = 0, cb_used = 0,
               cb_mtu = int (bdivide_up (nat mtu) sizeof_block),
               input_dest = None, input_avail = -1, output_dest = None, output_avail = -1\<rparr>;
          b = ChunkBuffer2_update_input b
      in ChunkBuffer2_update_output b)"

definition ChunkBuffer2_SubmitPacket :: "ChunkBuffer2 \<Rightarrow> int \<Rightarrow> ChunkBuffer2" where
  "ChunkBuffer2_SubmitPacket b len =
     (let e = ChunkBuffer2_end b;
          blocklen = int (bdivide_up (nat len) sizeof_block);
          b = b\<lparr>cb_mem := set_block_len e len (cb_mem b)\<rparr>;
          b = b\<lparr>cb_used := cb_used b + (1 + blocklen)\<rparr>;
          b = (if cb_used b \<le> cb_wrap b - cb_start b \<and> cb_mtu b > cb_size b - (e + 1 + blocklen) - 1
               then b\<lparr>cb_wrap := e + 1 + blocklen\<rparr> else b);
          b = ChunkBuffer2_update_input b
      in if cb_used b = 1 + blocklen then ChunkBuffer2_update_output b else b)"

definition ChunkBuffer2_ConsumePacket :: "ChunkBuffer2 \<Rightarrow> ChunkBuffer2" where
  "ChunkBuffer2_ConsumePacket b =
     (let blocklen = int (bdivide_up (nat (block_len (cb_mem b) (cb_start b))) sizeof_block);
          data_wrapped = (cb_used b \<ge> cb_wrap b - cb_start b);
          b = b\<lparr>cb_start := cb_start b + (1 + blocklen), cb_used := cb_used b - (1 + blocklen)\<rparr>;
          b = (if cb_start b = cb_wrap b then b\<lparr>cb_start := 0, cb_wrap := cb_size b\<rparr> else b);
          b = (if data_wrapped then ChunkBuffer2_update_input b else b)
      in ChunkBuffer2_update_output b)"

subsection \<open>Chunks in memory\<close>

text \<open>\<open>chunks L mem p xs q\<close>: the packets \<open>xs\<close> are stored one after the other in the blocks from \<open>p\<close> up to \<open>q\<close>, and
  none of them begins after block \<open>L\<close>.\<close>

definition blk :: "byte list \<Rightarrow> int" where
  "blk x = int (bdivide_up (length x) 4)"

fun chunks :: "int \<Rightarrow> byte list \<Rightarrow> int \<Rightarrow> byte list list \<Rightarrow> int \<Rightarrow> bool" where
  "chunks L mem p [] q \<longleftrightarrow> p = q"
| "chunks L mem p (x # xs) q \<longleftrightarrow> p \<le> L \<and> block_len mem p = int (length x) \<and>
     slice (4 * nat (p + 1)) (length x) mem = x \<and> chunks L mem (p + (1 + blk x)) xs q"

definition blocks_of :: "byte list list \<Rightarrow> int" where
  "blocks_of xs = sum_list (map (\<lambda>x. 1 + blk x) xs)"

lemma blocks_of_simps [simp]:
  "blocks_of [] = 0" "blocks_of (x # xs) = 1 + blk x + blocks_of xs" "blocks_of (xs @ ys) = blocks_of xs + blocks_of ys"
  by (simp_all add: blocks_of_def)

lemma blk_nonneg [simp]: "0 \<le> blk x"
  by (simp add: blk_def)

lemma blocks_of_nonneg: "0 \<le> blocks_of xs"
  by (induction xs) (simp_all add: add_nonneg_nonneg)

lemma one_blk_pos: "0 < 1 + blk x"
  using blk_nonneg [of x] by linarith

lemma blocks_of_eq_0: "blocks_of xs = 0 \<longleftrightarrow> xs = []"
proof (cases xs)
  case (Cons x ys)
  have "0 < blocks_of (x # ys)" using one_blk_pos [of x] blocks_of_nonneg [of ys] unfolding blocks_of_simps by linarith
  with Cons show ?thesis by auto
qed simp

lemma length_le_blk: "int (length x) \<le> 4 * blk x"
  using bdivide_up_ge [of 4 "length x"] by (simp add: blk_def)

lemma blk_le_iff: "blk x \<le> k \<longleftrightarrow> int (length x) \<le> 4 * k"
proof (cases "0 \<le> k")
  case True
  then show ?thesis using bdivide_up_le_iff [of 4 "length x" "nat k"] by (auto simp: blk_def nat_le_iff le_nat_iff)
next
  case False
  then show ?thesis using length_le_blk [of x] blk_nonneg [of x] by linarith
qed

lemma blocks_of_le: "\<forall>x \<in> set xs. blk x \<le> m \<Longrightarrow> blocks_of xs \<le> int (length xs) * (1 + m)"
  by (induction xs) (auto simp: algebra_simps)

lemma chunks_length: "chunks L mem p xs q \<Longrightarrow> q = p + blocks_of xs"
proof (induction xs arbitrary: p)
  case (Cons x xs)
  from Cons.prems have "q = p + (1 + blk x) + blocks_of xs" by (intro Cons.IH) simp
  then show ?case by simp
qed simp

lemma chunks_append:
  "chunks L mem p (xs @ ys) q \<longleftrightarrow> chunks L mem p xs (p + blocks_of xs) \<and> chunks L mem (p + blocks_of xs) ys q"
  by (induction xs arbitrary: p) (auto simp: algebra_simps)

lemma chunks_weaken: "chunks L mem p xs q \<Longrightarrow> q \<le> L' + 1 \<Longrightarrow> chunks L' mem p xs q"
proof (induction xs arbitrary: p)
  case (Cons x xs)
  then have "q = p + (1 + blk x) + blocks_of xs" using chunks_length [of L mem p "x # xs" q] by simp
  then have "p \<le> L'" using Cons.prems(2) blk_nonneg [of x] blocks_of_nonneg [of xs] by linarith
  with Cons show ?case by simp
qed simp

text \<open>Writing outside the region of the chunks leaves them alone.\<close>

lemma block_len_overwrite:
  assumes "0 \<le> p" "4 * (p + 1) \<le> int off \<or> int off + int (length src) \<le> 4 * p" "off + length src \<le> length mem" "4 * (p + 1) \<le> int (length mem)"
  shows "block_len (overwrite off src mem) p = block_len mem p"
proof -
  have "slice (4 * nat p) 4 (overwrite off src mem) = slice (4 * nat p) 4 mem"
    by (rule slice_overwrite_disjoint) (use assms in auto)
  then show ?thesis by (simp add: block_len_def)
qed

lemma chunks_overwrite:
  assumes "chunks L mem p xs q" "0 \<le> p" "4 * q \<le> int (length mem)" "off + length src \<le> length mem"
    and "4 * q \<le> int off \<or> int off + int (length src) \<le> 4 * p"
  shows "chunks L (overwrite off src mem) p xs q"
  using assms
proof (induction xs arbitrary: p)
  case (Cons x xs)
  let ?p' = "p + (1 + blk x)"
  have q: "q = ?p' + blocks_of xs" "0 \<le> blocks_of xs" "0 \<le> blk x" "int (length x) \<le> 4 * blk x"
    using chunks_length [OF Cons.prems(1)] blocks_of_nonneg length_le_blk by auto
  have "chunks L (overwrite off src mem) ?p' xs q"
    by (rule Cons.IH) (use Cons.prems q in auto)
  moreover have "block_len (overwrite off src mem) p = block_len mem p"
    by (rule block_len_overwrite) (use Cons.prems q in auto)
  moreover have "slice (4 * nat (p + 1)) (length x) (overwrite off src mem) = slice (4 * nat (p + 1)) (length x) mem"
    by (rule slice_overwrite_disjoint) (use Cons.prems q in auto)
  ultimately show ?case using Cons.prems(1) by simp
qed simp

lemma block_len_set:
  assumes "0 \<le> p" "4 * (p + 1) \<le> int (length mem)" "0 \<le> len" "len \<le> INT_MAX"
  shows "block_len (set_block_len p len mem) p = len"
proof -
  have "slice (4 * nat p) (length (mem_bytes32 (of_int len))) (overwrite (4 * nat p) (mem_bytes32 (of_int len)) mem) = mem_bytes32 (of_int len)"
    by (rule slice_overwrite_same) (use assms in simp)
  then have "block_len (set_block_len p len mem) p = sint (of_int len :: 32 word)"
    by (simp add: block_len_def set_block_len_def)
  also have "\<dots> = len" using assms(3,4) by (simp add: signed_of_int signed_take_bit_int_eq_self)
  finally show ?thesis .
qed


subsection \<open>Representation\<close>

text \<open>What the two update functions compute.\<close>

definition calc_input :: "ChunkBuffer2 \<Rightarrow> nat option \<times> int" where
  "calc_input b =
     (let e = ChunkBuffer2_end b;
          fr = (if cb_used b \<ge> cb_wrap b - cb_start b then cb_start b - e else cb_size b - e)
      in if cb_size b - e - 1 < cb_mtu b \<or> fr \<le> 0 then (None, -1) else (Some (4 * nat (e + 1)), (fr - 1) * 4))"

definition calc_output :: "ChunkBuffer2 \<Rightarrow> nat option \<times> int" where
  "calc_output b = (if cb_used b > 0 then (Some (4 * nat (cb_start b + 1)), block_len (cb_mem b) (cb_start b)) else (None, -1))"

lemma update_input_calc: "ChunkBuffer2_update_input b = b\<lparr>input_dest := fst (calc_input b), input_avail := snd (calc_input b)\<rparr>"
  by (auto simp: ChunkBuffer2_update_input_def calc_input_def Let_def)

lemma update_output_calc: "ChunkBuffer2_update_output b = b\<lparr>output_dest := fst (calc_output b), output_avail := snd (calc_output b)\<rparr>"
  by (simp add: ChunkBuffer2_update_output_def calc_output_def)

definition cb_io :: "ChunkBuffer2 \<Rightarrow> bool" where
  "cb_io b \<longleftrightarrow> (input_dest b, input_avail b) = calc_input b \<and> (output_dest b, output_avail b) = calc_output b"

definition cb_limit :: "ChunkBuffer2 \<Rightarrow> int" where
  "cb_limit b = cb_size b - cb_mtu b - 1"

definition cb_geom :: "ChunkBuffer2 \<Rightarrow> bool" where
  "cb_geom b \<longleftrightarrow> int (length (cb_mem b)) = 4 * cb_size b \<and> 4 * cb_size b \<le> INT_MAX \<and> 0 \<le> cb_mtu b \<and> cb_mtu b < cb_size b \<and>
     0 \<le> cb_start b \<and> cb_start b < cb_wrap b \<and> cb_wrap b \<le> cb_size b \<and> 0 \<le> cb_used b \<and> cb_used b \<le> cb_wrap b \<and>
     cb_start b \<le> cb_limit b"

definition wrapped :: "ChunkBuffer2 \<Rightarrow> bool" where
  "wrapped b \<longleftrightarrow> cb_used b \<ge> cb_wrap b - cb_start b"

definition cb_shape :: "ChunkBuffer2 \<Rightarrow> byte list list \<Rightarrow> bool" where
  "cb_shape b pk \<longleftrightarrow>
     (if wrapped b
      then (\<exists>xs ys. pk = xs @ ys \<and> chunks (cb_limit b) (cb_mem b) (cb_start b) xs (cb_wrap b) \<and>
              chunks (cb_limit b) (cb_mem b) 0 ys (ChunkBuffer2_end b)) \<and> cb_limit b < cb_wrap b
      else cb_wrap b = cb_size b \<and> chunks (cb_limit b) (cb_mem b) (cb_start b) pk (ChunkBuffer2_end b) \<and>
           ChunkBuffer2_end b \<le> cb_limit b)"

text \<open>\<open>b\<close> is a well-formed buffer that holds the packets \<open>pk\<close>, oldest first.\<close>

definition cb_rep :: "ChunkBuffer2 \<Rightarrow> byte list list \<Rightarrow> bool" where
  "cb_rep b pk \<longleftrightarrow> cb_geom b \<and> cb_shape b pk \<and> cb_io b \<and> (\<forall>x \<in> set pk. blk x \<le> cb_mtu b)"

lemma end_wrapped: "wrapped b \<Longrightarrow> ChunkBuffer2_end b = cb_used b - (cb_wrap b - cb_start b)"
  and end_unwrapped: "\<not> wrapped b \<Longrightarrow> ChunkBuffer2_end b = cb_start b + cb_used b"
  by (simp_all add: ChunkBuffer2_end_def wrapped_def)

lemma end_bounds:
  assumes "cb_geom b" "cb_shape b pk"
  shows "0 \<le> ChunkBuffer2_end b" "ChunkBuffer2_end b \<le> cb_limit b" "wrapped b \<Longrightarrow> ChunkBuffer2_end b \<le> cb_start b"
  using assms by (auto simp: cb_geom_def cb_shape_def ChunkBuffer2_end_def wrapped_def split: if_splits)

lemma cb_shape_used: "cb_geom b \<Longrightarrow> cb_shape b pk \<Longrightarrow> cb_used b = blocks_of pk"
  by (auto simp: cb_shape_def end_wrapped end_unwrapped dest!: chunks_length split: if_splits)

text \<open>The input region: everything from the end of the stored data up to the first stored packet or to
  the end of the memory.\<close>

lemma calc_input_rep:
  assumes "cb_geom b" "cb_shape b pk"
  shows "calc_input b =
    (let e = ChunkBuffer2_end b; fr = (if wrapped b then cb_start b - e else cb_size b - e)
     in if fr \<le> 0 then (None, -1) else (Some (4 * nat (e + 1)), (fr - 1) * 4))"
  using end_bounds [OF assms] assms(1) by (auto simp: calc_input_def Let_def wrapped_def cb_limit_def)

lemma cb_io_input:
  assumes "cb_rep b pk" "input_dest b = Some d"
  shows "d = 4 * nat (ChunkBuffer2_end b + 1)"
    and "input_avail b = ((if wrapped b then cb_start b else cb_size b) - ChunkBuffer2_end b - 1) * 4"
    and "0 < (if wrapped b then cb_start b else cb_size b) - ChunkBuffer2_end b"
  using assms calc_input_rep [of b pk] by (auto simp: cb_rep_def cb_io_def Let_def split: if_splits)

lemma cb_rep_Init:
  assumes "int (length mem) = 4 * blocks" "4 * blocks \<le> INT_MAX" "0 \<le> mtu" "int (bdivide_up (nat mtu) 4) < blocks"
  shows "cb_rep (ChunkBuffer2_Init mem blocks mtu) []"
proof -
  let ?b = "ChunkBuffer2_Init mem blocks mtu"
  have f: "cb_mem ?b = mem" "cb_size ?b = blocks" "cb_wrap ?b = blocks" "cb_start ?b = 0" "cb_used ?b = 0"
    "cb_mtu ?b = int (bdivide_up (nat mtu) 4)"
    by (simp_all add: ChunkBuffer2_Init_def Let_def update_input_calc update_output_calc)
  have "0 \<le> int (bdivide_up (nat mtu) 4)" by simp
  with assms have "cb_geom ?b" by (simp add: cb_geom_def f cb_limit_def)
  moreover have "cb_shape ?b []" using assms by (simp add: cb_shape_def wrapped_def f ChunkBuffer2_end_def cb_limit_def)
  moreover have "cb_io ?b"
    by (simp add: cb_io_def ChunkBuffer2_Init_def Let_def update_input_calc update_output_calc)
       (simp add: calc_input_def calc_output_def ChunkBuffer2_end_def)
  ultimately show ?thesis by (simp add: cb_rep_def)
qed

text \<open>The receiver may write into the input region without disturbing what is stored.\<close>

lemma cb_rep_write:
  assumes rep: "cb_rep b pk" and d: "input_dest b = Some d" "int (length x) \<le> input_avail b"
  shows "cb_rep (b\<lparr>cb_mem := overwrite d x (cb_mem b)\<rparr>) pk" and "d + length x \<le> length (cb_mem b)"
proof -
  let ?b = "b\<lparr>cb_mem := overwrite d x (cb_mem b)\<rparr>" and ?e = "ChunkBuffer2_end b" and ?L = "cb_limit b"
  have g: "cb_geom b" "cb_shape b pk" using rep by (auto simp: cb_rep_def)
  note e = end_bounds [OF g]
  have dv: "int d = 4 * (?e + 1)" using cb_io_input(1) [OF rep d(1)] e(1) by simp
  have top: "int d + int (length x) \<le> 4 * (if wrapped b then cb_start b else cb_size b)"
    using cb_io_input(2) [OF rep d(1)] d(2) dv by (auto split: if_splits)
  show le: "d + length x \<le> length (cb_mem b)"
    using top g(1) by (auto simp: cb_geom_def split: if_splits)
  have same: "wrapped ?b = wrapped b" "ChunkBuffer2_end ?b = ?e" "cb_limit ?b = ?L" "calc_input ?b = calc_input b"
    by (simp_all add: wrapped_def ChunkBuffer2_end_def cb_limit_def calc_input_def)
  have keep: "chunks ?L (overwrite d x (cb_mem b)) p xs q"
    if "chunks ?L (cb_mem b) p xs q" "0 \<le> p" "q \<le> cb_size b" "q \<le> ?e \<or> wrapped b \<and> cb_start b \<le> p" for p xs q
    by (rule chunks_overwrite [OF that(1,2)]) (use that le top dv g(1) in \<open>auto simp: cb_geom_def\<close>)
  have "block_len (overwrite d x (cb_mem b)) (cb_start b) = block_len (cb_mem b) (cb_start b)" if "cb_used b > 0"
    by (rule block_len_overwrite)
       (use that le top dv g(1) in \<open>auto simp: cb_geom_def end_unwrapped split: if_splits\<close>)
  then have "calc_output ?b = calc_output b" by (simp add: calc_output_def)
  then have "cb_io ?b" using rep same by (simp add: cb_rep_def cb_io_def)
  moreover have "cb_geom ?b" using g(1) le by (simp add: cb_geom_def cb_limit_def)
  moreover have "cb_shape ?b pk"
  proof (cases "wrapped b")
    case True
    then obtain xs ys where c: "pk = xs @ ys" "chunks ?L (cb_mem b) (cb_start b) xs (cb_wrap b)" "chunks ?L (cb_mem b) 0 ys ?e" "?L < cb_wrap b"
      using g(2) by (auto simp: cb_shape_def)
    have "chunks ?L (overwrite d x (cb_mem b)) (cb_start b) xs (cb_wrap b)" "chunks ?L (overwrite d x (cb_mem b)) 0 ys ?e"
      by (rule keep; use c True g(1) e in \<open>auto simp: cb_geom_def cb_limit_def\<close>)+
    with c True show ?thesis by (auto simp: cb_shape_def same)
  next
    case False
    then have c: "cb_wrap b = cb_size b" "chunks ?L (cb_mem b) (cb_start b) pk ?e" "?e \<le> ?L" using g(2) by (auto simp: cb_shape_def)
    have "chunks ?L (overwrite d x (cb_mem b)) (cb_start b) pk ?e"
      by (rule keep) (use c g(1) in \<open>auto simp: cb_geom_def cb_limit_def\<close>)
    with c False show ?thesis by (simp add: cb_shape_def same)
  qed
  ultimately show "cb_rep ?b pk" using rep by (simp add: cb_rep_def)
qed


subsection \<open>Submitting\<close>

text \<open>The state after the new packet has been accounted for, before the input and output are updated.\<close>

definition cb_append :: "ChunkBuffer2 \<Rightarrow> byte list \<Rightarrow> ChunkBuffer2" where
  "cb_append b x =
     (let e = ChunkBuffer2_end b; e' = e + 1 + blk x
      in b\<lparr>cb_mem := set_block_len e (int (length x)) (cb_mem b), cb_used := cb_used b + (1 + blk x),
           cb_wrap := (if cb_used b + (1 + blk x) \<le> cb_wrap b - cb_start b \<and> cb_mtu b > cb_size b - e' - 1 then e' else cb_wrap b)\<rparr>)"

lemma SubmitPacket_append:
  "ChunkBuffer2_SubmitPacket b (int (length x)) =
     (let b' = ChunkBuffer2_update_input (cb_append b x)
      in if cb_used b = 0 then ChunkBuffer2_update_output b' else b')"
proof -
  have "ChunkBuffer2_SubmitPacket b (int (length x)) =
      (let b' = ChunkBuffer2_update_input (cb_append b x) in if cb_used b' = 1 + blk x then ChunkBuffer2_update_output b' else b')"
    unfolding ChunkBuffer2_SubmitPacket_def nat_int blk_def [symmetric] cb_append_def
    by (cases "cb_used b + (1 + blk x) \<le> cb_wrap b - cb_start b"; cases "cb_mtu b > cb_size b - (ChunkBuffer2_end b + 1 + blk x) - 1")
       (simp_all add: Let_def)
  moreover have "cb_used (ChunkBuffer2_update_input (cb_append b x)) = cb_used b + (1 + blk x)"
    by (simp add: update_input_calc cb_append_def Let_def)
  ultimately show ?thesis by (simp add: Let_def)
qed

lemma cb_append_fields [simp]:
  "cb_size (cb_append b x) = cb_size b" "cb_start (cb_append b x) = cb_start b" "cb_mtu (cb_append b x) = cb_mtu b"
  "cb_limit (cb_append b x) = cb_limit b" "cb_used (cb_append b x) = cb_used b + (1 + blk x)"
  "length (cb_mem (cb_append b x)) = length (set_block_len (ChunkBuffer2_end b) (int (length x)) (cb_mem b))"
  "output_dest (cb_append b x) = output_dest b" "output_avail (cb_append b x) = output_avail b"
  by (simp_all add: cb_append_def Let_def cb_limit_def)

lemma cb_append_chunks:
  assumes rep: "cb_rep b pk" and d: "input_dest b = Some d" "int (length x) \<le> input_avail b" and x: "slice d (length x) (cb_mem b) = x"
  defines "e \<equiv> ChunkBuffer2_end b" and "mem' \<equiv> cb_mem (cb_append b x)"
  shows "length mem' = length (cb_mem b)"
    and "e + (1 + blk x) \<le> (if wrapped b then cb_start b else cb_size b)"
    and "\<And>p xs q. chunks (cb_limit b) (cb_mem b) p xs q \<Longrightarrow> 0 \<le> p \<Longrightarrow> q \<le> cb_size b \<Longrightarrow> q \<le> e \<or> wrapped b \<and> cb_start b \<le> p \<Longrightarrow>
      chunks (cb_limit b) mem' p xs q"
    and "chunks (cb_limit b) mem' e [x] (e + (1 + blk x))"
    and "cb_used b > 0 \<Longrightarrow> block_len mem' (cb_start b) = block_len (cb_mem b) (cb_start b)"
proof -
  have g: "cb_geom b" "cb_shape b pk" using rep by (auto simp: cb_rep_def)
  note eb = end_bounds [OF g, folded e_def]
  note io = cb_io_input [OF rep d(1), folded e_def]
  have room: "blk x \<le> (if wrapped b then cb_start b else cb_size b) - e - 1"
    unfolding blk_le_iff using d(2) unfolding io(2) by linarith
  then show le: "e + (1 + blk x) \<le> (if wrapped b then cb_start b else cb_size b)" by simp
  have mem': "mem' = overwrite (4 * nat e) (mem_bytes32 (of_int (int (length x)))) (cb_mem b)"
    by (simp add: mem'_def cb_append_def Let_def set_block_len_def e_def)
  have top: "4 * (e + 1) \<le> int (length (cb_mem b))"
    using io(3) g(1) eb by (auto simp: cb_geom_def cb_limit_def split: if_splits)
  then have fits: "4 * nat e + length (mem_bytes32 (of_int (int (length x)))) \<le> length (cb_mem b)" using eb(1) by simp
  show "length mem' = length (cb_mem b)" using fits by (simp add: mem')
  show keep: "chunks (cb_limit b) mem' p xs q"
    if "chunks (cb_limit b) (cb_mem b) p xs q" "0 \<le> p" "q \<le> cb_size b" "q \<le> e \<or> wrapped b \<and> cb_start b \<le> p" for p xs q
    unfolding mem'
    by (rule chunks_overwrite [OF that(1,2)]) (use that fits g(1) eb io(3) in \<open>auto simp: cb_geom_def\<close>)
  show "block_len mem' (cb_start b) = block_len (cb_mem b) (cb_start b)" if "cb_used b > 0"
    unfolding mem'
    by (rule block_len_overwrite)
       (use that fits g(1) eb io(3) in \<open>auto simp: cb_geom_def e_def end_unwrapped split: if_splits\<close>)
  have xl: "int (length x) \<le> INT_MAX"
  proof -
    have "int (length x) \<le> 4 * cb_size b"
      using length_le_blk [of x] le eb(1) g(1) by (auto simp: cb_geom_def split: if_splits)
    then show ?thesis using g(1) by (simp add: cb_geom_def)
  qed
  have "block_len mem' e = int (length x)"
    using block_len_set [of e "cb_mem b" "int (length x)"] eb(1) top xl by (simp add: mem' set_block_len_def)
  moreover have "slice (4 * nat (e + 1)) (length x) mem' = x"
  proof -
    have bound: "4 * nat (e + 1) + length x \<le> length (cb_mem b)"
      using cb_rep_write(2) [OF rep d] io(1) by simp
    have "slice (4 * nat (e + 1)) (length x) mem' = slice (4 * nat (e + 1)) (length x) (cb_mem b)"
      unfolding mem' by (rule slice_overwrite_disjoint) (use fits bound eb(1) in auto)
    with x io(1) show ?thesis by simp
  qed
  ultimately show "chunks (cb_limit b) mem' e [x] (e + (1 + blk x))" using eb(2) by simp
qed

lemma cb_append_shape:
  assumes rep: "cb_rep b pk" and d: "input_dest b = Some d" "int (length x) \<le> input_avail b" and x: "slice d (length x) (cb_mem b) = x"
  shows "cb_geom (cb_append b x) \<and> cb_shape (cb_append b x) (pk @ [x])"
proof -
  let ?b = "cb_append b x" and ?e = "ChunkBuffer2_end b" and ?L = "cb_limit b"
  note ap = cb_append_chunks [OF assms]
  have g: "cb_geom b" "cb_shape b pk" using rep by (auto simp: cb_rep_def)
  note eb = end_bounds [OF g]
  show ?thesis
  proof (cases "wrapped b")
    case True
    then obtain xs ys where c: "pk = xs @ ys" "chunks ?L (cb_mem b) (cb_start b) xs (cb_wrap b)" "chunks ?L (cb_mem b) 0 ys ?e" "?L < cb_wrap b"
      using g(2) by (auto simp: cb_shape_def)
    have "\<not> cb_used b + (1 + blk x) \<le> cb_wrap b - cb_start b"
      using True blk_nonneg [of x] unfolding wrapped_def by linarith
    then have w: "cb_wrap ?b = cb_wrap b" by (simp add: cb_append_def Let_def)
    have "cb_wrap b - cb_start b \<le> cb_used b + (1 + blk x)" using True blk_nonneg [of x] unfolding wrapped_def by linarith
    then have wr: "wrapped ?b" "ChunkBuffer2_end ?b = ?e + (1 + blk x)"
      using True w by (simp_all add: wrapped_def ChunkBuffer2_end_def)
    have "chunks ?L (cb_mem ?b) (cb_start b) xs (cb_wrap b)" "chunks ?L (cb_mem ?b) 0 ys ?e"
      by (rule ap(3); use c True g(1) eb in \<open>auto simp: cb_geom_def cb_limit_def\<close>)+
    moreover have "?e = 0 + blocks_of ys" using chunks_length [OF c(3)] by simp
    ultimately have "chunks ?L (cb_mem ?b) 0 (ys @ [x]) (?e + (1 + blk x))"
      using ap(4) by (simp only: chunks_append)
    with c \<open>chunks ?L (cb_mem ?b) (cb_start b) xs (cb_wrap b)\<close> wr w have "cb_shape ?b (pk @ [x])"
      by (auto simp: cb_shape_def)
    moreover have "cb_geom ?b"
      using g(1) ap(1,2) True w by (auto simp: cb_geom_def end_wrapped add_nonneg_nonneg simp del: cb_append_fields(6))
    ultimately show ?thesis by simp
  next
    case False
    then have c: "cb_wrap b = cb_size b" "chunks ?L (cb_mem b) (cb_start b) pk ?e" "?e \<le> ?L" using g(2) by (auto simp: cb_shape_def)
    have e: "?e = cb_start b + cb_used b" using False by (rule end_unwrapped)
    have "chunks ?L (cb_mem ?b) (cb_start b) pk ?e"
      by (rule ap(3)) (use c g(1) in \<open>auto simp: cb_geom_def cb_limit_def\<close>)
    moreover have "?e = cb_start b + blocks_of pk" using chunks_length [OF c(2)] .
    ultimately have ch: "chunks ?L (cb_mem ?b) (cb_start b) (pk @ [x]) (?e + (1 + blk x))"
      using ap(4) by (simp only: chunks_append)
    have le: "?e + (1 + blk x) \<le> cb_size b" using ap(2) False by simp
    show ?thesis
    proof (cases "?L < ?e + (1 + blk x)")
      case True
      then have w: "cb_wrap ?b = ?e + (1 + blk x)"
        using le e c(1) by (auto simp: cb_append_def Let_def cb_limit_def)
      then have wr: "wrapped ?b" "ChunkBuffer2_end ?b = 0" using e by (auto simp: wrapped_def ChunkBuffer2_end_def)
      have "\<exists>xs ys. pk @ [x] = xs @ ys \<and> chunks ?L (cb_mem ?b) (cb_start b) xs (?e + (1 + blk x)) \<and> chunks ?L (cb_mem ?b) 0 ys 0"
        by (rule exI [of _ "pk @ [x]"], rule exI [of _ "[]"]) (use ch in simp)
      then have "cb_shape ?b (pk @ [x])" using wr w True by (simp add: cb_shape_def)
      moreover have "cb_geom ?b"
        using g(1) ap(1) w le e add_nonneg_pos [of "cb_used b", OF _ one_blk_pos [of x]]
        by (auto simp: cb_geom_def simp del: cb_append_fields(6))
      ultimately show ?thesis by simp
    next
      case f: False
      then have w: "cb_wrap ?b = cb_size b" using c(1) by (auto simp: cb_append_def Let_def cb_limit_def)
      have wr: "\<not> wrapped ?b" using f w e g(1) by (auto simp: wrapped_def cb_geom_def cb_limit_def)
      then have "ChunkBuffer2_end ?b = ?e + (1 + blk x)" using e by (simp add: end_unwrapped)
      then have "cb_shape ?b (pk @ [x])" using wr ch w f by (simp add: cb_shape_def)
      moreover have "cb_geom ?b"
        using g(1) ap(1) w le e by (auto simp: cb_geom_def add_nonneg_nonneg simp del: cb_append_fields(6))
      ultimately show ?thesis by simp
    qed
  qed
qed


lemma cb_geom_cong:
  "cb_mem b' = cb_mem b \<Longrightarrow> cb_size b' = cb_size b \<Longrightarrow> cb_wrap b' = cb_wrap b \<Longrightarrow> cb_start b' = cb_start b \<Longrightarrow>
   cb_used b' = cb_used b \<Longrightarrow> cb_mtu b' = cb_mtu b \<Longrightarrow>
   cb_geom b' = cb_geom b \<and> cb_shape b' pk = cb_shape b pk \<and> calc_input b' = calc_input b \<and> calc_output b' = calc_output b"
  by (simp add: cb_geom_def cb_shape_def cb_limit_def wrapped_def ChunkBuffer2_end_def calc_input_def calc_output_def)

lemma cb_rep_Submit:
  assumes rep: "cb_rep b pk" and d: "input_dest b = Some d" "int (length x) \<le> input_avail b" and x: "slice d (length x) (cb_mem b) = x"
    and mtu: "blk x \<le> cb_mtu b"
  shows "cb_rep (ChunkBuffer2_SubmitPacket b (int (length x))) (pk @ [x])"
proof -
  let ?b = "cb_append b x" and ?r = "ChunkBuffer2_SubmitPacket b (int (length x))"
  have sh: "cb_geom ?b" "cb_shape ?b (pk @ [x])" using cb_append_shape [OF rep d x] by auto
  have r: "cb_mem ?r = cb_mem ?b" "cb_size ?r = cb_size ?b" "cb_wrap ?r = cb_wrap ?b" "cb_start ?r = cb_start ?b"
    "cb_used ?r = cb_used ?b" "cb_mtu ?r = cb_mtu ?b"
    by (simp_all add: SubmitPacket_append Let_def update_input_calc update_output_calc)
  note same = cb_geom_cong [OF r, of "pk @ [x]"]
  have "cb_io ?r"
  proof (cases "cb_used b = 0")
    case True
    have "calc_output (?b\<lparr>input_dest := i, input_avail := a\<rparr>) = calc_output ?b" for i a
      by (simp add: calc_output_def)
    with True have "(input_dest ?r, input_avail ?r) = calc_input ?b \<and> (output_dest ?r, output_avail ?r) = calc_output ?b"
      by (simp add: SubmitPacket_append Let_def update_input_calc update_output_calc)
    with same show ?thesis by (simp add: cb_io_def)
  next
    case False
    with rep have "cb_used b > 0" by (simp add: cb_rep_def cb_geom_def)
    then have "calc_output ?b = calc_output b"
      using cb_append_chunks(5) [OF rep d x] by (simp add: calc_output_def add_pos_nonneg)
    moreover have "(output_dest b, output_avail b) = calc_output b" using rep by (simp add: cb_rep_def cb_io_def)
    ultimately have "(input_dest ?r, input_avail ?r) = calc_input ?b \<and> (output_dest ?r, output_avail ?r) = calc_output ?b"
      using False by (simp add: SubmitPacket_append Let_def update_input_calc)
    with same show ?thesis by (simp add: cb_io_def)
  qed
  with same sh rep mtu r show ?thesis by (auto simp: cb_rep_def)
qed

subsection \<open>Consuming\<close>

text \<open>The stored packet at the front is where the output points.\<close>

lemma cb_rep_front:
  assumes rep: "cb_rep b pk"
  shows "pk = [] \<Longrightarrow> output_dest b = None \<and> output_avail b = -1"
    and "pk = x # pk' \<Longrightarrow> \<exists>d. output_dest b = Some d \<and> output_avail b = int (length x) \<and> slice d (length x) (cb_mem b) = x \<and>
      d + length x \<le> length (cb_mem b) \<and> block_len (cb_mem b) (cb_start b) = int (length x)"
proof -
  have g: "cb_geom b" "cb_shape b pk" "cb_io b" using rep by (auto simp: cb_rep_def)
  have u: "cb_used b = blocks_of pk" using cb_shape_used g by blast
  then show "output_dest b = None \<and> output_avail b = -1" if "pk = []"
    using that g(3) by (auto simp: cb_io_def calc_output_def)
  show "\<exists>d. output_dest b = Some d \<and> output_avail b = int (length x) \<and> slice d (length x) (cb_mem b) = x \<and>
      d + length x \<le> length (cb_mem b) \<and> block_len (cb_mem b) (cb_start b) = int (length x)" if pk: "pk = x # pk'"
  proof -
    have "0 < cb_used b" using blk_nonneg [of x] blocks_of_nonneg [of pk'] unfolding u pk blocks_of_simps by linarith
    then have o: "output_dest b = Some (4 * nat (cb_start b + 1))" "output_avail b = block_len (cb_mem b) (cb_start b)"
      using g(3) by (auto simp: cb_io_def calc_output_def)
    obtain xs q where c: "chunks (cb_limit b) (cb_mem b) (cb_start b) (x # xs) q" "q \<le> cb_size b"
    proof (cases "wrapped b")
      case True
      then obtain xs ys where c: "pk = xs @ ys" "chunks (cb_limit b) (cb_mem b) (cb_start b) xs (cb_wrap b)"
        using g(2) by (auto simp: cb_shape_def)
      moreover have "xs \<noteq> []" using c(2) g(1) by (auto simp: cb_geom_def)
      ultimately obtain xs' where "xs = x # xs'" using pk by (cases xs) auto
      with c that [of xs' "cb_wrap b"] g(1) show thesis by (simp add: cb_geom_def)
    next
      case False
      then show thesis using g that [of pk' "ChunkBuffer2_end b"] pk by (auto simp: cb_shape_def cb_limit_def cb_geom_def)
    qed
    have q: "q = cb_start b + (1 + blk x) + blocks_of xs" using chunks_length [OF c(1)] by simp
    have "int (4 * nat (cb_start b + 1)) + int (length x) \<le> 4 * q"
      using g(1) length_le_blk [of x] q blocks_of_nonneg [of xs] by (simp add: cb_geom_def)
    also have "4 * q \<le> int (length (cb_mem b))" using c(2) g(1) by (simp add: cb_geom_def)
    finally have "4 * nat (cb_start b + 1) + length x \<le> length (cb_mem b)" unfolding of_nat_add [symmetric] of_nat_le_iff .
    with o c(1) show ?thesis by simp
  qed
qed

text \<open>The input region is bounded by the first stored packet or the end of the memory; consuming a packet
  only enlarges it and does not move its beginning.\<close>

definition cb_top :: "ChunkBuffer2 \<Rightarrow> int" where
  "cb_top b = (if wrapped b then cb_start b else cb_size b)"

lemma cb_rep_Consume_all:
  assumes rep: "cb_rep b (x # pk)"
  shows "cb_rep (ChunkBuffer2_ConsumePacket b) pk \<and> ChunkBuffer2_end (ChunkBuffer2_ConsumePacket b) = ChunkBuffer2_end b \<and>
    cb_top b \<le> cb_top (ChunkBuffer2_ConsumePacket b)"
proof -
  let ?L = "cb_limit b" and ?e = "ChunkBuffer2_end b" and ?s = "cb_start b + (1 + blk x)" and ?r = "ChunkBuffer2_ConsumePacket b"
  have g: "cb_geom b" "cb_shape b (x # pk)" "cb_io b" using rep by (auto simp: cb_rep_def)
  have hdr: "block_len (cb_mem b) (cb_start b) = int (length x)" using cb_rep_front(2) [OF rep refl] by auto
  have bl: "int (bdivide_up (nat (block_len (cb_mem b) (cb_start b))) 4) = blk x" by (simp add: hdr blk_def)
  define b1 where "b1 = b\<lparr>cb_start := (if ?s = cb_wrap b then 0 else ?s), cb_used := cb_used b - (1 + blk x),
     cb_wrap := (if ?s = cb_wrap b then cb_size b else cb_wrap b)\<rparr>"
  have r: "?r = ChunkBuffer2_update_output (if wrapped b then ChunkBuffer2_update_input b1 else b1)"
    unfolding ChunkBuffer2_ConsumePacket_def bl wrapped_def b1_def by (cases b; cases "?s = cb_wrap b") (simp_all add: Let_def)
  have f: "cb_mem ?r = cb_mem b1" "cb_size ?r = cb_size b1" "cb_wrap ?r = cb_wrap b1" "cb_start ?r = cb_start b1"
    "cb_used ?r = cb_used b1" "cb_mtu ?r = cb_mtu b1"
    unfolding r by (simp_all add: update_output_calc update_input_calc)
  note same = cb_geom_cong [OF f, of pk]
  note eb = end_bounds [OF g(1,2)]
  have L: "cb_limit b1 = ?L" by (simp add: b1_def cb_limit_def)
  have shape: "cb_geom b1 \<and> cb_shape b1 pk \<and> ChunkBuffer2_end b1 = ?e \<and> (\<not> wrapped b \<longrightarrow> \<not> wrapped b1) \<and> cb_top b \<le> cb_top b1"
  proof (cases "wrapped b")
    case True
    then obtain xs ys where c: "x # pk = xs @ ys" "chunks ?L (cb_mem b) (cb_start b) xs (cb_wrap b)" "chunks ?L (cb_mem b) 0 ys ?e" "?L < cb_wrap b"
      using g(2) by (auto simp: cb_shape_def)
    have "xs \<noteq> []" using c(2) g(1) by (auto simp: cb_geom_def)
    then obtain xs' where xs: "xs = x # xs'" "pk = xs' @ ys" using c(1) by (cases xs) auto
    have c': "chunks ?L (cb_mem b) ?s xs' (cb_wrap b)" using c(2) xs(1) by simp
    have e: "?e = cb_used b - (cb_wrap b - cb_start b)" using True by (rule end_wrapped)
    show ?thesis
    proof (cases "?s = cb_wrap b")
      case eq: True
      have "xs' = []" using chunks_length [OF c'] eq by (simp add: blocks_of_eq_0)
      moreover have "cb_used b - (1 + blk x) = ?e" using e eq by simp
      ultimately have b1: "b1 = b\<lparr>cb_start := 0, cb_used := ?e, cb_wrap := cb_size b\<rparr>" "pk = ys"
        using eq xs(2) by (simp_all add: b1_def)
      have "\<not> wrapped b1" "ChunkBuffer2_end b1 = ?e"
        using eb(2) g(1) by (auto simp: b1(1) wrapped_def ChunkBuffer2_end_def cb_geom_def cb_limit_def)
      moreover have "cb_geom b1" using g(1) eb by (auto simp: b1(1) cb_geom_def cb_limit_def)
      ultimately show ?thesis using c(3) eb(2) True L g(1) by (simp add: cb_shape_def b1 cb_top_def cb_geom_def)
    next
      case False
      have "xs' \<noteq> []" using c' False by auto
      then have s1: "?s \<le> ?L" using c' by (cases xs') simp_all
      have s: "?s < cb_wrap b"
        using chunks_length [OF c'] blocks_of_nonneg [of xs'] blocks_of_eq_0 [of xs'] \<open>xs' \<noteq> []\<close> by linarith
      have b1: "b1 = b\<lparr>cb_start := ?s, cb_used := cb_used b - (1 + blk x)\<rparr>" using False by (simp add: b1_def)
      have wr: "wrapped b1" "ChunkBuffer2_end b1 = ?e"
        using True e by (auto simp: b1 wrapped_def ChunkBuffer2_end_def)
      moreover have "cb_geom b1"
        using g(1) s s1 eb(1) e one_blk_pos [of x] unfolding b1 cb_geom_def cb_limit_def by simp
      moreover have "cb_shape b1 pk"
        using wr c' c(3,4) xs(2) unfolding cb_shape_def L by (auto simp: b1)
      moreover have "cb_start b \<le> cb_start b1" using one_blk_pos [of x] by (simp add: b1)
      ultimately show ?thesis using True by (simp add: cb_top_def)
    qed
  next
    case False
    then have c: "cb_wrap b = cb_size b" "chunks ?L (cb_mem b) ?s pk ?e" "?e \<le> ?L" using g(2) by (auto simp: cb_shape_def)
    have e: "?e = cb_start b + cb_used b" using False by (rule end_unwrapped)
    have s: "?s \<le> ?e" using chunks_length [OF c(2)] blocks_of_nonneg [of pk] by simp
    then have ns: "?s \<noteq> cb_wrap b" using c g(1) by (simp add: cb_geom_def cb_limit_def)
    then have b1: "b1 = b\<lparr>cb_start := ?s, cb_used := cb_used b - (1 + blk x)\<rparr>" by (simp add: b1_def)
    have wr: "\<not> wrapped b1" "ChunkBuffer2_end b1 = ?e" using False e by (auto simp: b1 wrapped_def ChunkBuffer2_end_def)
    moreover have "cb_geom b1"
      using g(1) s c e one_blk_pos [of x] unfolding b1 cb_geom_def cb_limit_def by simp
    moreover have "cb_shape b1 pk" using wr c L by (simp add: cb_shape_def b1)
    ultimately show ?thesis using False by (simp add: cb_top_def) (simp add: b1)
  qed
  have "(input_dest ?r, input_avail ?r) = calc_input b1"
  proof (cases "wrapped b")
    case True
    then show ?thesis unfolding r by (simp add: update_output_calc update_input_calc)
  next
    case False
    then have "calc_input b1 = calc_input b"
      using shape calc_input_rep [of b1 pk] calc_input_rep [OF g(1,2)] by (simp add: b1_def)
    with False g(3) show ?thesis unfolding r by (simp add: update_output_calc cb_io_def b1_def)
  qed
  moreover have "(output_dest ?r, output_avail ?r) = calc_output b1"
    unfolding r by (simp add: update_output_calc update_input_calc calc_output_def)
  ultimately have "cb_io ?r" using same by (simp add: cb_io_def)
  moreover have "cb_mtu b1 = cb_mtu b" by (simp add: b1_def)
  moreover have "ChunkBuffer2_end ?r = ChunkBuffer2_end b1" "cb_top ?r = cb_top b1"
    using f by (simp_all add: ChunkBuffer2_end_def cb_top_def wrapped_def)
  ultimately show ?thesis using shape same rep f by (simp add: cb_rep_def)
qed

lemmas cb_rep_Consume = cb_rep_Consume_all [THEN conjunct1]

lemma cb_io_calc:
  assumes "cb_rep b pk"
  shows "input_dest b = (if ChunkBuffer2_end b < cb_top b then Some (4 * nat (ChunkBuffer2_end b + 1)) else None)"
    and "input_avail b = (if ChunkBuffer2_end b < cb_top b then (cb_top b - ChunkBuffer2_end b - 1) * 4 else -1)"
  using assms calc_input_rep [of b pk] unfolding cb_rep_def cb_io_def Let_def cb_top_def by (auto split: if_splits)

lemma Consume_input:
  assumes "cb_rep b (x # pk)"
  shows "input_dest b = Some d \<Longrightarrow> input_dest (ChunkBuffer2_ConsumePacket b) = Some d"
    and "input_avail b \<le> input_avail (ChunkBuffer2_ConsumePacket b)"
  using cb_io_calc [OF assms] cb_io_calc [OF cb_rep_Consume [OF assms]] cb_rep_Consume_all [OF assms]
  by (auto split: if_splits)



subsection \<open>Capacity\<close>

text \<open>A buffer dimensioned by \<^verbatim>\<open>ChunkBuffer2_calc_blocks\<close> for \<open>num\<close> packets has room for a packet of maximal
  length whenever it stores fewer than \<open>num\<close>.\<close>

lemma ChunkBuffer2_calc_blocks_value:
  assumes "ChunkBuffer2_calc_blocks mtu num = n" "0 \<le> n" "0 \<le> mtu" "0 < num"
  shows "n = (1 + int (bdivide_up (nat mtu) 4)) * (num + 1)" "n \<le> INT_MAX"
proof -
  let ?c = "1 + int (bdivide_up (nat mtu) 4)"
  have c: "\<not> int (bdivide_up (nat mtu) 4) > INT_MAX - 1" "\<not> num > INT_MAX - 1" "\<not> ?c > INT_MAX div (num + 1)"
    and n: "n = ?c * (num + 1)"
    using assms(1,2) by (auto simp: ChunkBuffer2_calc_blocks_def Let_def split: if_splits)
  show "n = ?c * (num + 1)" by (fact n)
  have "?c * (num + 1) \<le> (INT_MAX div (num + 1)) * (num + 1)" using c(3) assms(4) by (intro mult_right_mono) auto
  also have "\<dots> = INT_MAX - INT_MAX mod (num + 1)" by (simp only: minus_mod_eq_div_mult)
  also have "\<dots> \<le> INT_MAX" using pos_mod_sign [of "num + 1" INT_MAX] assms(4) by linarith
  finally show "n \<le> INT_MAX" using n by simp
qed

lemma cb_rep_room:
  assumes rep: "cb_rep b pk" and cap: "cb_size b = (1 + cb_mtu b) * (num + 1)" and len: "int (length pk) < num"
  shows "input_dest b \<noteq> None" "4 * cb_mtu b \<le> input_avail b"
proof -
  have g: "cb_geom b" "cb_shape b pk" "cb_io b" using rep by (auto simp: cb_rep_def)
  note eb = end_bounds [OF g(1,2)]
  let ?e = "ChunkBuffer2_end b"
  let ?fr = "if wrapped b then cb_start b - ?e else cb_size b - ?e"
  have "cb_mtu b + 1 \<le> ?fr"
  proof (cases "wrapped b")
    case True
    have "cb_used b \<le> int (length pk) * (1 + cb_mtu b)"
      using cb_shape_used [OF g(1,2)] blocks_of_le [of pk "cb_mtu b"] rep by (simp add: cb_rep_def)
    also have "\<dots> \<le> (num - 1) * (1 + cb_mtu b)" using len g(1) by (intro mult_right_mono) (auto simp: cb_geom_def)
    finally have "cb_used b \<le> cb_size b - 2 * (1 + cb_mtu b)" unfolding cap by (simp add: algebra_simps)
    moreover have "cb_limit b < cb_wrap b" using g(2) True by (simp add: cb_shape_def)
    ultimately show ?thesis using True g(1) by (simp add: end_wrapped cb_limit_def cb_geom_def)
  next
    case False
    then show ?thesis using eb(2) by (simp add: cb_limit_def)
  qed
  moreover have "0 \<le> cb_mtu b" using g(1) by (simp add: cb_geom_def)
  ultimately have "\<not> ?fr \<le> 0" "cb_mtu b \<le> ?fr - 1" by linarith+
  then have "input_dest b = Some (4 * nat (?e + 1))" "input_avail b = (?fr - 1) * 4"
    using g(3) calc_input_rep [OF g(1,2)] unfolding cb_io_def Let_def by (auto split: if_splits)
  then show "input_dest b \<noteq> None" "4 * cb_mtu b \<le> input_avail b" using \<open>cb_mtu b \<le> ?fr - 1\<close> by simp_all
qed

end
