(* ===== verification/FlowBuffers.thy ===== *)
theory FlowBuffers
  imports ChunkBuffer "HOL-Library.Code_Target_Nat"
begin

text \<open>
  The interface of a first-in first-out packet queue and \<^verbatim>\<open>flow/PacketBuffer.c\<close>, a queue of packets between a
  receive and a pass interface on top of the circular buffer of \<^verbatim>\<open>ChunkBuffer\<close>.  The circular buffer is an
  interpretation of the interface, and so is \<^verbatim>\<open>SinglePacketBuffer\<close> in \<^verbatim>\<open>FlowElements\<close>.
\<close>

subsection \<open>The interface of a packet queue\<close>

text \<open>A bounded queue of packets of at most \<open>mtu\<close> bytes that has room at least as long as it stores fewer
  than \<open>cap\<close> packets.  \<open>rep s q\<close>: the state \<open>s\<close> stores the packets \<open>q\<close>, oldest first.\<close>

locale packet_fifo =
  fixes rep :: "'s \<Rightarrow> byte list list \<Rightarrow> bool" and room :: "'s \<Rightarrow> bool" and put :: "byte list \<Rightarrow> 's \<Rightarrow> 's"
    and first :: "'s \<Rightarrow> byte list option" and rest :: "'s \<Rightarrow> 's" and mtu :: nat and cap :: nat
  assumes put: "rep s q \<Longrightarrow> room s \<Longrightarrow> length x \<le> mtu \<Longrightarrow> rep (put x s) (q @ [x])"
    and first: "rep s q \<Longrightarrow> first s = hd_opt q"
    and rest: "rep s (x # q) \<Longrightarrow> rep (rest s) q"
    and room: "rep s q \<Longrightarrow> length q < cap \<Longrightarrow> room s"
begin

text \<open>Any sequence of operations that puts only when there is room and takes only when something is
  stored: \<open>Some x\<close> puts \<open>x\<close>, \<open>None\<close> takes the first packet.  The second component collects what was taken.\<close>

fun fifo_run :: "'s \<Rightarrow> byte list option list \<Rightarrow> ('s \<times> byte list list) option" where
  "fifo_run s [] = Some (s, [])"
| "fifo_run s (Some x # ops) = (if room s \<and> length x \<le> mtu then fifo_run (put x s) ops else None)"
| "fifo_run s (None # ops) =
     (case first s of None \<Rightarrow> None
      | Some x \<Rightarrow> (case fifo_run (rest s) ops of None \<Rightarrow> None | Some (s', xs) \<Rightarrow> Some (s', x # xs)))"

definition puts :: "byte list option list \<Rightarrow> byte list list" where
  "puts ops = concat (map (case_option [] (\<lambda>x. [x])) ops)"

lemma fifo_run_order:
  "rep s q \<Longrightarrow> fifo_run s ops = Some (s', out) \<Longrightarrow> \<exists>q'. rep s' q' \<and> q @ puts ops = out @ q'"
proof (induction s ops arbitrary: q out rule: fifo_run.induct)
  case (2 s x ops)
  then have "room s" "length x \<le> mtu" "fifo_run (put x s) ops = Some (s', out)" by (auto split: if_splits)
  with 2 put [of s q x] obtain q' where "rep s' q'" "(q @ [x]) @ puts ops = out @ q'" by metis
  then show ?case by (auto simp: puts_def)
next
  case (3 s ops)
  from 3(3) obtain x xs where x: "first s = Some x" "fifo_run (rest s) ops = Some (s', xs)" "out = x # xs"
    by (auto split: option.splits)
  with 3(2) obtain q0 where "q = x # q0" using first [of s q] by (auto dest: hd_opt_SomeD)
  with 3 x rest [of s x q0] obtain q' where "rep s' q'" "q0 @ puts ops = xs @ q'" by metis
  with x \<open>q = x # q0\<close> show ?case by (auto simp: puts_def)
qed (auto simp: puts_def)

lemma fifo_never_full: "rep s q \<Longrightarrow> \<not> room s \<Longrightarrow> cap \<le> length q"
  using room by force

end

subsection \<open>\<^verbatim>\<open>PacketBuffer\<close>\<close>

text \<open>\<open>pb_recv\<close> is the destination of the outstanding receive operation, \<open>pb_send\<close> says whether a send is
  outstanding.\<close>

record PacketBuffer =
  pb_input_mtu :: int
  pb_buf :: ChunkBuffer2
  pb_recv :: "nat option"
  pb_send :: bool

datatype pb_act = PB_Recv "nat option" | PB_Send "byte list"

definition out_packet :: "ChunkBuffer2 \<Rightarrow> byte list" where
  "out_packet b = (case output_dest b of None \<Rightarrow> [] | Some d \<Rightarrow> slice d (nat (output_avail b)) (cb_mem b))"

definition pb_schedule_recv :: "PacketBuffer \<Rightarrow> PacketBuffer \<times> pb_act list" where
  "pb_schedule_recv pb = (pb\<lparr>pb_recv := input_dest (pb_buf pb)\<rparr>, [PB_Recv (input_dest (pb_buf pb))])"

definition pb_schedule_send :: "PacketBuffer \<Rightarrow> PacketBuffer \<times> pb_act list" where
  "pb_schedule_send pb = (pb\<lparr>pb_send := True\<rparr>, [PB_Send (out_packet (pb_buf pb))])"

definition PacketBuffer_input_handler_done :: "PacketBuffer \<Rightarrow> int \<Rightarrow> PacketBuffer \<times> pb_act list" where
  "PacketBuffer_input_handler_done pb in_len =
     (let was_empty = (output_avail (pb_buf pb) < 0);
          pb = pb\<lparr>pb_buf := ChunkBuffer2_SubmitPacket (pb_buf pb) in_len\<rparr>;
          (pb, a1) = (if input_avail (pb_buf pb) \<ge> pb_input_mtu pb then pb_schedule_recv pb else (pb, []));
          (pb, a2) = (if was_empty then pb_schedule_send pb else (pb, []))
      in (pb, a1 @ a2))"

definition PacketBuffer_output_handler_done :: "PacketBuffer \<Rightarrow> PacketBuffer \<times> pb_act list" where
  "PacketBuffer_output_handler_done pb =
     (let was_full = (input_avail (pb_buf pb) < pb_input_mtu pb);
          pb = pb\<lparr>pb_buf := ChunkBuffer2_ConsumePacket (pb_buf pb)\<rparr>;
          (pb, a1) = (if was_full \<and> input_avail (pb_buf pb) \<ge> pb_input_mtu pb then pb_schedule_recv pb else (pb, []));
          (pb, a2) = (if output_avail (pb_buf pb) \<ge> 0 then pb_schedule_send pb else (pb, []))
      in (pb, a1 @ a2))"

text \<open>\<open>alloc n\<close> is the result of \<^verbatim>\<open>BAllocArray\<close> for \<open>n\<close> blocks: failure, or memory of that size.\<close>

definition PacketBuffer_Init :: "(int \<Rightarrow> byte list option) \<Rightarrow> int \<Rightarrow> int \<Rightarrow> (PacketBuffer \<times> pb_act list) option" where
  "PacketBuffer_Init alloc input_mtu num_packets =
     (let num_blocks = ChunkBuffer2_calc_blocks input_mtu num_packets in
      if num_blocks < 0 then None
      else case alloc num_blocks of
        None \<Rightarrow> None
      | Some mem \<Rightarrow> Some (pb_schedule_recv \<lparr>pb_input_mtu = input_mtu, pb_buf = ChunkBuffer2_Init mem num_blocks input_mtu,
                                         pb_recv = None, pb_send = False\<rparr>))"

text \<open>What can happen: the input has written a packet to the destination it was given, or the output has
  finished the packet it was given.\<close>

datatype pb_event = PB_in "byte list" | PB_out

fun pb_enabled :: "PacketBuffer \<Rightarrow> pb_event \<Rightarrow> bool" where
  "pb_enabled pb (PB_in x) = (pb_recv pb \<noteq> None \<and> int (length x) \<le> pb_input_mtu pb)"
| "pb_enabled pb PB_out = pb_send pb"

fun pb_step :: "PacketBuffer \<Rightarrow> pb_event \<Rightarrow> PacketBuffer \<times> pb_act list" where
  "pb_step pb (PB_in x) =
     (case pb_recv pb of None \<Rightarrow> (pb, [])
      | Some d \<Rightarrow> PacketBuffer_input_handler_done
                   (pb\<lparr>pb_recv := None, pb_buf := (pb_buf pb)\<lparr>cb_mem := overwrite d x (cb_mem (pb_buf pb))\<rparr>\<rparr>) (int (length x)))"
| "pb_step pb PB_out = PacketBuffer_output_handler_done (pb\<lparr>pb_send := False\<rparr>)"

fun pb_run :: "PacketBuffer \<Rightarrow> pb_event list \<Rightarrow> (PacketBuffer \<times> pb_act list) option" where
  "pb_run pb [] = Some (pb, [])"
| "pb_run pb (e # es) =
     (if pb_enabled pb e
      then (case pb_run (fst (pb_step pb e)) es of
              None \<Rightarrow> None | Some (pb', acts) \<Rightarrow> Some (pb', snd (pb_step pb e) @ acts))
      else None)"

fun pb_ins :: "pb_event list \<Rightarrow> byte list list" where
  "pb_ins [] = []"
| "pb_ins (PB_in x # es) = x # pb_ins es"
| "pb_ins (PB_out # es) = pb_ins es"

fun pb_outs :: "pb_event list \<Rightarrow> nat" where
  "pb_outs [] = 0"
| "pb_outs (PB_in x # es) = pb_outs es"
| "pb_outs (PB_out # es) = Suc (pb_outs es)"

fun pb_sends :: "pb_act list \<Rightarrow> byte list list" where
  "pb_sends [] = []"
| "pb_sends (PB_Send x # acts) = x # pb_sends acts"
| "pb_sends (PB_Recv _ # acts) = pb_sends acts"

lemma pb_sends_append [simp]: "pb_sends (a @ b) = pb_sends a @ pb_sends b"
  by (induction a rule: pb_sends.induct) auto

subsection \<open>The circular buffer as a packet queue\<close>

definition cb_put :: "byte list \<Rightarrow> ChunkBuffer2 \<Rightarrow> ChunkBuffer2" where
  "cb_put x b = (case input_dest b of None \<Rightarrow> b
     | Some d \<Rightarrow> ChunkBuffer2_SubmitPacket (b\<lparr>cb_mem := overwrite d x (cb_mem b)\<rparr>) (int (length x)))"

definition cb_first :: "ChunkBuffer2 \<Rightarrow> byte list option" where
  "cb_first b = (if output_avail b < 0 then None else Some (out_packet b))"

definition cb_sized :: "nat \<Rightarrow> nat \<Rightarrow> ChunkBuffer2 \<Rightarrow> byte list list \<Rightarrow> bool" where
  "cb_sized mtu num b q \<longleftrightarrow> cb_rep b q \<and> cb_mtu b = int (bdivide_up mtu 4) \<and>
     cb_size b = (1 + int (bdivide_up mtu 4)) * (int num + 1)"

lemma cb_put_fields:
  "cb_mtu (cb_put x b) = cb_mtu b" "cb_size (cb_put x b) = cb_size b"
  "cb_mtu (ChunkBuffer2_ConsumePacket b) = cb_mtu b" "cb_size (ChunkBuffer2_ConsumePacket b) = cb_size b"
  by (auto simp: cb_put_def ChunkBuffer2_SubmitPacket_def ChunkBuffer2_ConsumePacket_def Let_def update_input_calc update_output_calc
    split: option.splits)

lemma cb_rep_input_dest: "cb_rep b q \<Longrightarrow> int mtu \<le> input_avail b \<Longrightarrow> \<exists>d. input_dest b = Some d"
  using cb_io_calc [of b q] by (auto split: if_splits)

lemma cb_rep_put:
  assumes "cb_rep b q" "input_dest b = Some d" "int (length x) \<le> input_avail b" "blk x \<le> cb_mtu b"
  shows "cb_rep (cb_put x b) (q @ [x])"
proof -
  let ?b = "b\<lparr>cb_mem := overwrite d x (cb_mem b)\<rparr>"
  have "cb_rep ?b q" "d + length x \<le> length (cb_mem b)" using cb_rep_write [OF assms(1-3)] by auto
  moreover from this have "slice d (length x) (cb_mem ?b) = x" by (simp add: slice_overwrite_same)
  ultimately show ?thesis using cb_rep_Submit [of ?b q d x] assms by (simp add: cb_put_def)
qed

interpretation cb_fifo: packet_fifo "cb_sized mtu num" "\<lambda>b. int mtu \<le> input_avail b" cb_put cb_first
  ChunkBuffer2_ConsumePacket mtu num for mtu num
proof
  fix s q and x :: "byte list"
  assume rep: "cb_sized mtu num s q"
  then have r: "cb_rep s q" by (simp add: cb_sized_def)
  show "cb_first s = hd_opt q"
  proof (cases q)
    case Nil
    with cb_rep_front(1) [OF r] show ?thesis by (simp add: cb_first_def)
  next
    case (Cons y q')
    with cb_rep_front(2) [OF r Cons] show ?thesis by (auto simp: cb_first_def out_packet_def)
  qed
  show "int mtu \<le> input_avail s" if "length q < num"
  proof -
    have "4 * cb_mtu s \<le> input_avail s"
      using cb_rep_room(2) [OF r, of "int num"] rep that by (simp add: cb_sized_def)
    moreover have "mtu \<le> 4 * bdivide_up mtu 4" by (rule bdivide_up_ge) simp
    ultimately show ?thesis using rep by (simp add: cb_sized_def)
  qed
  assume room: "int mtu \<le> input_avail s" and x: "length x \<le> mtu"
  have "blk x \<le> cb_mtu s" using bdivide_up_mono [of 4 "length x" mtu] x rep by (simp add: cb_sized_def blk_def)
  moreover obtain d where "input_dest s = Some d" using cb_rep_input_dest [OF r room] by blast
  ultimately show "cb_sized mtu num (cb_put x s) (q @ [x])"
    using cb_rep_put [OF r, of d x] rep room x by (simp add: cb_sized_def cb_put_fields)
next
  fix s q and x :: "byte list"
  assume "cb_sized mtu num s (x # q)"
  then show "cb_sized mtu num (ChunkBuffer2_ConsumePacket s) q"
    using cb_rep_Consume [of s x q] by (simp add: cb_sized_def cb_put_fields)
qed

lemma cb_sized_Init:
  assumes "ChunkBuffer2_calc_blocks (int mtu) (int num) = n" "0 \<le> n" "0 < num" "int (length mem) = 4 * n" "4 * n \<le> INT_MAX"
  shows "cb_sized mtu num (ChunkBuffer2_Init mem n (int mtu)) []"
proof -
  have n: "n = (1 + int (bdivide_up mtu 4)) * (int num + 1)"
    using ChunkBuffer2_calc_blocks_value [OF assms(1,2)] assms(3) by simp
  have f: "cb_size (ChunkBuffer2_Init mem n (int mtu)) = n" "cb_mtu (ChunkBuffer2_Init mem n (int mtu)) = int (bdivide_up mtu 4)"
    by (simp_all add: ChunkBuffer2_Init_def Let_def update_input_calc update_output_calc)
  have "int (bdivide_up mtu 4) < n" unfolding n by (simp add: algebra_simps add_pos_nonneg)
  with cb_rep_Init [of mem n "int mtu"] assms have "cb_rep (ChunkBuffer2_Init mem n (int mtu)) []" by simp
  then show ?thesis unfolding cb_sized_def f using n by simp
qed


subsection \<open>\<^verbatim>\<open>PacketBuffer\<close> as a queue\<close>

definition pb_inv :: "nat \<Rightarrow> nat \<Rightarrow> PacketBuffer \<Rightarrow> byte list list \<Rightarrow> bool" where
  "pb_inv mtu num pb q \<longleftrightarrow> pb_input_mtu pb = int mtu \<and> cb_sized mtu num (pb_buf pb) q \<and>
     pb_recv pb = (if int mtu \<le> input_avail (pb_buf pb) then input_dest (pb_buf pb) else None) \<and> pb_send pb = (q \<noteq> [])"

definition heads :: "byte list list \<Rightarrow> byte list list" where
  "heads q = (case q of [] \<Rightarrow> [] | x # _ \<Rightarrow> [x])"

lemma cb_sized_first:
  assumes "cb_sized mtu num b q"
  shows "output_avail b < 0 \<longleftrightarrow> q = []" and "q \<noteq> [] \<Longrightarrow> out_packet b = hd q"
  using cb_fifo.first [OF assms] by (cases q; auto simp: cb_first_def split: if_splits)+

lemma pb_step_in:
  assumes inv: "pb_inv mtu num pb q" and en: "pb_enabled pb (PB_in x)"
  shows "pb_inv mtu num (fst (pb_step pb (PB_in x))) (q @ [x]) \<and> pb_sends (snd (pb_step pb (PB_in x))) = (if q = [] then [x] else [])"
proof -
  obtain d where d: "pb_recv pb = Some d" "input_dest (pb_buf pb) = Some d" "int mtu \<le> input_avail (pb_buf pb)"
    using inv en by (auto simp: pb_inv_def split: if_splits)
  have sz: "cb_sized mtu num (pb_buf pb) q" "pb_input_mtu pb = int mtu" "length x \<le> mtu" using inv en by (auto simp: pb_inv_def)
  define b where "b = cb_put x (pb_buf pb)"
  have b: "cb_sized mtu num b (q @ [x])" unfolding b_def by (rule cb_fifo.put [OF sz(1) d(3) sz(3)])
  have bs: "ChunkBuffer2_SubmitPacket ((pb_buf pb)\<lparr>cb_mem := overwrite d x (cb_mem (pb_buf pb))\<rparr>) (int (length x)) = b"
    by (simp add: b_def cb_put_def d)
  have out: "out_packet b = hd (q @ [x])" using cb_sized_first(2) [OF b] by simp
  show ?thesis
    using d sz b out inv cb_sized_first(1) [OF sz(1)]
    by (cases "q = []") (simp_all add: PacketBuffer_input_handler_done_def Let_def bs pb_schedule_recv_def pb_schedule_send_def pb_inv_def)
qed

lemma pb_step_out:
  assumes inv: "pb_inv mtu num pb q" and en: "pb_enabled pb PB_out"
  shows "\<exists>y q'. q = y # q' \<and> pb_inv mtu num (fst (pb_step pb PB_out)) q' \<and> pb_sends (snd (pb_step pb PB_out)) = heads q'"
proof -
  have sz: "cb_sized mtu num (pb_buf pb) q" "pb_input_mtu pb = int mtu" using inv by (auto simp: pb_inv_def)
  obtain y q' where q: "q = y # q'" using inv en by (cases q) (auto simp: pb_inv_def)
  define b where "b = ChunkBuffer2_ConsumePacket (pb_buf pb)"
  have b: "cb_sized mtu num b q'" unfolding b_def by (rule cb_fifo.rest) (use sz q in simp)
  have rep: "cb_rep (pb_buf pb) (y # q')" using sz q by (simp add: cb_sized_def)
  have inp: "int mtu \<le> input_avail (pb_buf pb) \<Longrightarrow> int mtu \<le> input_avail b \<and> input_dest b = input_dest (pb_buf pb)"
    using Consume_input [OF rep] cb_rep_input_dest [OF rep] unfolding b_def by fastforce
  have "pb_inv mtu num (fst (pb_step pb PB_out)) q'"
    using inv b inp sz cb_sized_first(1) [OF b]
    by (auto simp: PacketBuffer_output_handler_done_def Let_def b_def [symmetric] pb_schedule_recv_def pb_schedule_send_def pb_inv_def)
  moreover have "pb_sends (snd (pb_step pb PB_out)) = heads q'"
    using cb_sized_first [OF b]
    by (cases q') (auto simp: PacketBuffer_output_handler_done_def Let_def b_def [symmetric] pb_schedule_recv_def pb_schedule_send_def heads_def)
  ultimately show ?thesis using q by blast
qed

lemma pb_run_fifo:
  "pb_run pb es = Some (pb', acts) \<Longrightarrow> pb_inv mtu num pb q \<Longrightarrow>
   \<exists>q'. pb_inv mtu num pb' q' \<and> q' = drop (pb_outs es) (q @ pb_ins es) \<and>
     heads q @ pb_sends acts = take (pb_outs es) (q @ pb_ins es) @ heads q'"
proof (induction es arbitrary: pb q acts)
  case Nil
  then show ?case by auto
next
  case (Cons e es)
  from Cons.prems(1) obtain acts' where r: "pb_enabled pb e" "pb_run (fst (pb_step pb e)) es = Some (pb', acts')"
    "acts = snd (pb_step pb e) @ acts'"
    by (auto simp del: pb_step.simps split: if_splits option.splits)
  show ?case
  proof (cases e)
    case (PB_in x)
    with pb_step_in [OF Cons.prems(2)] r(1) have st: "pb_inv mtu num (fst (pb_step pb e)) (q @ [x])"
      "pb_sends (snd (pb_step pb e)) = (if q = [] then [x] else [])" by auto
    from Cons.IH [OF r(2) st(1)] obtain q' where "pb_inv mtu num pb' q'" "q' = drop (pb_outs es) (q @ x # pb_ins es)"
      "heads (q @ [x]) @ pb_sends acts' = take (pb_outs es) (q @ x # pb_ins es) @ heads q'" by auto
    moreover have "heads q @ (if q = [] then [x] else []) = heads (q @ [x])" by (cases q) (simp_all add: heads_def)
    ultimately show ?thesis using PB_in st(2) r(3) by (intro exI [of _ q']) (auto simp: append_assoc [symmetric] simp del: append_assoc)
  next
    case PB_out
    with pb_step_out [OF Cons.prems(2)] r(1) obtain y q1 where st: "q = y # q1" "pb_inv mtu num (fst (pb_step pb e)) q1"
      "pb_sends (snd (pb_step pb e)) = heads q1" by auto
    from Cons.IH [OF r(2) st(2)] obtain q' where "pb_inv mtu num pb' q'" "q' = drop (pb_outs es) (q1 @ pb_ins es)"
      "heads q1 @ pb_sends acts' = take (pb_outs es) (q1 @ pb_ins es) @ heads q'" by auto
    then show ?thesis using PB_out st r(3) by (intro exI [of _ q']) (simp add: heads_def)
  qed
qed

lemma pb_inv_Init:
  assumes "PacketBuffer_Init alloc (int mtu) (int num) = Some (pb, acts)" "0 < num"
    and mem: "\<And>n m. alloc n = Some m \<Longrightarrow> int (length m) = 4 * n \<and> 4 * n \<le> INT_MAX"
  shows "pb_inv mtu num pb []" "pb_sends acts = []"
proof -
  let ?n = "ChunkBuffer2_calc_blocks (int mtu) (int num)"
  obtain m where m: "0 \<le> ?n" "alloc ?n = Some m"
      "(pb, acts) = pb_schedule_recv \<lparr>pb_input_mtu = int mtu, pb_buf = ChunkBuffer2_Init m ?n (int mtu), pb_recv = None, pb_send = False\<rparr>"
    using assms(1) by (auto simp: PacketBuffer_Init_def Let_def split: if_splits option.splits)
  have "cb_sized mtu num (ChunkBuffer2_Init m ?n (int mtu)) []"
    using cb_sized_Init [OF refl m(1) assms(2)] mem [OF m(2)] by simp
  moreover from cb_fifo.room [OF this] assms(2) have "int mtu \<le> input_avail (ChunkBuffer2_Init m ?n (int mtu))" by simp
  ultimately show "pb_inv mtu num pb []" "pb_sends acts = []"
    using m(3) by (auto simp: pb_schedule_recv_def pb_inv_def)
qed

lemma pb_inv_recv:
  assumes "pb_inv mtu num pb q" "length q < num"
  shows "pb_recv pb \<noteq> None"
proof -
  have sz: "cb_sized mtu num (pb_buf pb) q" using assms(1) by (simp add: pb_inv_def)
  then have r: "int mtu \<le> input_avail (pb_buf pb)" using cb_fifo.room assms(2) by blast
  moreover from cb_rep_input_dest [OF _ r, of q] sz have "input_dest (pb_buf pb) \<noteq> None" by (auto simp: cb_sized_def)
  ultimately show ?thesis using assms(1) by (simp add: pb_inv_def)
qed

text \<open>Events that keep between 0 and \<open>num\<close> packets stored are all possible.\<close>

fun pb_within :: "nat \<Rightarrow> nat \<Rightarrow> nat \<Rightarrow> pb_event list \<Rightarrow> bool" where
  "pb_within mtu num n [] = True"
| "pb_within mtu num n (PB_in x # es) = (n < num \<and> length x \<le> mtu \<and> pb_within mtu num (Suc n) es)"
| "pb_within mtu num n (PB_out # es) = (0 < n \<and> pb_within mtu num (n - 1) es)"

lemma pb_run_within: "pb_within mtu num (length q) es \<Longrightarrow> pb_inv mtu num pb q \<Longrightarrow> pb_run pb es \<noteq> None"
proof (induction es arbitrary: pb q)
  case (Cons e es)
  show ?case
  proof (cases e)
    case (PB_in x)
    with Cons.prems have "pb_enabled pb e" using pb_inv_recv [of mtu num pb q] by (simp add: pb_inv_def)
    moreover from this pb_step_in [OF Cons.prems(2)] PB_in have "pb_run (fst (pb_step pb e)) es \<noteq> None"
      using Cons.IH [of "q @ [x]" "fst (pb_step pb e)"] Cons.prems(1) by simp
    ultimately show ?thesis by (auto simp del: pb_step.simps)
  next
    case PB_out
    with Cons.prems have "pb_enabled pb e" by (auto simp: pb_inv_def)
    moreover from this pb_step_out [OF Cons.prems(2)] PB_out have "pb_run (fst (pb_step pb e)) es \<noteq> None"
      using Cons.IH [of _ "fst (pb_step pb e)"] Cons.prems(1) by fastforce
    ultimately show ?thesis by (auto simp del: pb_step.simps)
  qed
qed simp

text \<open>C28.  A \<^verbatim>\<open>PacketBuffer\<close> is a first-in first-out queue.  After any interleaving of arriving and departing
  packets, the packets given to the output are, unchanged and in order, the first of the packets that
  arrived: those already finished and the one in progress, if any; a send is in progress exactly when
  a packet is stored; and as long as fewer packets are stored than the buffer was created for, a
  receive is outstanding, so neither side ever waits for the other without need.  This covers the
  wrap-around of the circular buffer and the reuse of its memory.\<close>

theorem PacketBuffer_fifo:
  assumes "PacketBuffer_Init alloc (int mtu) (int num) = Some (pb0, acts0)" "0 < num"
    and "\<And>n m. alloc n = Some m \<Longrightarrow> int (length m) = 4 * n \<and> 4 * n \<le> INT_MAX"
    and "pb_run pb0 es = Some (pb, acts)"
  shows "\<exists>stored. pb_ins es = take (pb_outs es) (pb_ins es) @ stored \<and>
    pb_sends acts = take (pb_outs es) (pb_ins es) @ (case stored of [] \<Rightarrow> [] | x # _ \<Rightarrow> [x]) \<and>
    (pb_send pb \<longleftrightarrow> stored \<noteq> []) \<and> (length stored < num \<longrightarrow> pb_recv pb \<noteq> None)"
proof -
  note i = pb_inv_Init [OF assms(1,2), OF assms(3)]
  obtain q' where q: "pb_inv mtu num pb q'" "q' = drop (pb_outs es) (pb_ins es)" "pb_sends acts = take (pb_outs es) (pb_ins es) @ heads q'"
    using pb_run_fifo [OF assms(4) i(1)] by (auto simp: heads_def)
  with pb_inv_recv [OF q(1)] show ?thesis by (intro exI [of _ q']) (auto simp: pb_inv_def heads_def)
qed

definition ex_pb_alloc :: "int \<Rightarrow> byte list option" where
  "ex_pb_alloc n = (if 4 * n \<le> 1000 \<and> 0 \<le> n then Some (replicate (nat (4 * n)) 0) else None)"

definition ex_pb :: PacketBuffer where
  "ex_pb = fst (the (PacketBuffer_Init ex_pb_alloc 5 2))"

definition ex_pb_events :: "pb_event list" where
  "ex_pb_events = [PB_in [1, 2, 3, 4, 5], PB_in [6], PB_out, PB_in [7, 8, 9], PB_out, PB_in [10], PB_out]"

theorem PacketBuffer_fifo_witness:
  "\<exists>acts pb. pb_run ex_pb ex_pb_events = Some (pb, acts) \<and> pb_sends acts = [[1, 2, 3, 4, 5], [6], [7, 8, 9], [10]]"
proof -
  have "PacketBuffer_Init ex_pb_alloc (int 5) (int 2) \<noteq> None" by code_simp
  then obtain acts0 where i: "PacketBuffer_Init ex_pb_alloc (int 5) (int 2) = Some (ex_pb, acts0)"
    by (auto simp: ex_pb_def)
  have al: "int (length m) = 4 * n \<and> 4 * n \<le> INT_MAX" if "ex_pb_alloc n = Some m" for n m
    using that by (auto simp: ex_pb_alloc_def split: if_splits)
  have "pb_within 5 2 0 ex_pb_events" by code_simp
  then obtain pb acts where r: "pb_run ex_pb ex_pb_events = Some (pb, acts)"
    using pb_run_within [of 5 2 "[]" ex_pb_events ex_pb] pb_inv_Init(1) [OF i _ al] by auto
  from PacketBuffer_fifo [OF i _ al r] obtain st where st: "pb_ins ex_pb_events = take (pb_outs ex_pb_events) (pb_ins ex_pb_events) @ st"
    "pb_sends acts = take (pb_outs ex_pb_events) (pb_ins ex_pb_events) @ (case st of [] \<Rightarrow> [] | x # _ \<Rightarrow> [x])" by auto
  have "pb_ins ex_pb_events = [[1, 2, 3, 4, 5], [6], [7, 8, 9], [10]]" "pb_outs ex_pb_events = 3"
    by (simp_all add: ex_pb_events_def)
  with st r show ?thesis by (auto simp: numeral_3_eq_3)
qed

end
