(* ===== verification/FlowElements.thy ===== *)
theory FlowElements
  imports FlowBuffers PacketProto
begin

text \<open>
  Further elements of the flow library: \<^verbatim>\<open>SinglePacketBuffer.c\<close>, \<^verbatim>\<open>BufferWriter.c\<close>,
  \<^verbatim>\<open>PacketStreamSender.c\<close>, \<^verbatim>\<open>PacketPassConnector.c\<close>, \<^verbatim>\<open>PacketPassInactivityMonitor.c\<close> and their
  composition \<^verbatim>\<open>PacketProtoFlow.c\<close> (asynchronous writing, framing and buffering).  Handlers return the
  new state and the interface calls they make; the runs compose them with an environment that completes
  the outstanding operations in any order.
\<close>

subsection \<open>\<^verbatim>\<open>SinglePacketBuffer\<close>\<close>

text \<open>\<open>spb_recv\<close> says whether a receive into the buffer is outstanding, \<open>spb_send\<close> the length of the
  packet being sent, if any.\<close>

record SinglePacketBuffer =
  spb_buf :: "byte list"
  spb_recv :: bool
  spb_send :: "int option"

definition SinglePacketBuffer_input_handler_done :: "SinglePacketBuffer \<Rightarrow> int \<Rightarrow> SinglePacketBuffer" where
  "SinglePacketBuffer_input_handler_done s in_len = s\<lparr>spb_send := Some in_len\<rparr>"

definition SinglePacketBuffer_output_handler_done :: "SinglePacketBuffer \<Rightarrow> SinglePacketBuffer" where
  "SinglePacketBuffer_output_handler_done s = s\<lparr>spb_recv := True\<rparr>"

definition SinglePacketBuffer_Init :: "(int \<Rightarrow> byte list option) \<Rightarrow> int \<Rightarrow> SinglePacketBuffer option" where
  "SinglePacketBuffer_Init alloc mtu =
     (case alloc mtu of None \<Rightarrow> None | Some buf \<Rightarrow> Some \<lparr>spb_buf = buf, spb_recv = True, spb_send = None\<rparr>)"

text \<open>The completions: the input writes a packet to the buffer, the output finishes it.\<close>

definition spb_put :: "byte list \<Rightarrow> SinglePacketBuffer \<Rightarrow> SinglePacketBuffer" where
  "spb_put x s = SinglePacketBuffer_input_handler_done
     (s\<lparr>spb_recv := False, spb_buf := overwrite 0 x (spb_buf s)\<rparr>) (int (length x))"

definition spb_first :: "SinglePacketBuffer \<Rightarrow> byte list option" where
  "spb_first s = (case spb_send s of None \<Rightarrow> None | Some n \<Rightarrow> Some (slice 0 (nat n) (spb_buf s)))"

definition spb_rest :: "SinglePacketBuffer \<Rightarrow> SinglePacketBuffer" where
  "spb_rest s = SinglePacketBuffer_output_handler_done (s\<lparr>spb_send := None\<rparr>)"

definition spb_rep :: "nat \<Rightarrow> SinglePacketBuffer \<Rightarrow> byte list list \<Rightarrow> bool" where
  "spb_rep mtu s q \<longleftrightarrow> length (spb_buf s) = mtu \<and> spb_recv s = (q = []) \<and> length q \<le> 1 \<and>
     (case q of [] \<Rightarrow> spb_send s = None | x # _ \<Rightarrow> spb_send s = Some (int (length x)) \<and> slice 0 (length x) (spb_buf s) = x)"

lemmas spb_defs = spb_put_def spb_first_def spb_rest_def spb_rep_def SinglePacketBuffer_input_handler_done_def
  SinglePacketBuffer_output_handler_done_def

interpretation spb_fifo: packet_fifo "spb_rep mtu" spb_recv spb_put spb_first spb_rest mtu 1 for mtu
proof
  fix s q and x :: "byte list"
  assume rep: "spb_rep mtu s q"
  show "spb_rep mtu (spb_put x s) (q @ [x])" if "spb_recv s" "length x \<le> mtu"
  proof -
    have "slice 0 (length x) (overwrite 0 x (spb_buf s)) = x"
      using rep that by (intro slice_overwrite_same) (simp add: spb_defs)
    moreover have "length (overwrite 0 x (spb_buf s)) = mtu" using rep that by (simp add: spb_defs)
    ultimately show ?thesis using rep that by (simp add: spb_defs)
  qed
  show "spb_first s = hd_opt q" using rep by (cases q) (auto simp: spb_defs)
  show "spb_recv s" if "length q < 1" using rep that by (simp add: spb_defs)
qed (auto simp: spb_defs)

lemma spb_rep_Init:
  "SinglePacketBuffer_Init alloc (int mtu) = Some s \<Longrightarrow> (\<And>n m. alloc n = Some m \<Longrightarrow> int (length m) = n) \<Longrightarrow> spb_rep mtu s []"
  by (fastforce simp: SinglePacketBuffer_Init_def spb_rep_def split: option.splits)

subsection \<open>\<^verbatim>\<open>BufferWriter\<close>\<close>

record BufferWriter =
  bw_mtu :: int
  bw_out_have :: bool
  bw_out :: nat

definition BufferWriter_Init :: "int \<Rightarrow> BufferWriter" where
  "BufferWriter_Init mtu = \<lparr>bw_mtu = mtu, bw_out_have = False, bw_out = 0\<rparr>"

definition BufferWriter_output_handler_recv :: "BufferWriter \<Rightarrow> nat \<Rightarrow> BufferWriter" where
  "BufferWriter_output_handler_recv bw data = bw\<lparr>bw_out_have := True, bw_out := data\<rparr>"

definition BufferWriter_StartPacket :: "BufferWriter \<Rightarrow> nat option" where
  "BufferWriter_StartPacket bw = (if \<not> bw_out_have bw then None else Some (bw_out bw))"

text \<open>The second component is the length reported to the receiver.\<close>

definition BufferWriter_EndPacket :: "BufferWriter \<Rightarrow> int \<Rightarrow> BufferWriter \<times> int" where
  "BufferWriter_EndPacket bw len = (bw\<lparr>bw_out_have := False\<rparr>, len)"

subsection \<open>\<^verbatim>\<open>PacketStreamSender\<close>\<close>

text \<open>\<open>pss_in\<close> is the memory the input packet's pointer leads to.\<close>

record PacketStreamSender =
  pss_in_len :: int
  pss_in :: "byte list"
  pss_in_used :: int

datatype pss_act = PSS_Send "byte list" | PSS_Done

definition send_data :: "PacketStreamSender \<Rightarrow> PacketStreamSender \<times> pss_act" where
  "send_data s =
     (if pss_in_used s < pss_in_len s
      then (s, PSS_Send (slice (nat (pss_in_used s)) (nat (pss_in_len s - pss_in_used s)) (pss_in s)))
      else (s\<lparr>pss_in_len := -1\<rparr>, PSS_Done))"

definition PacketStreamSender_input_handler_send :: "PacketStreamSender \<Rightarrow> byte list \<Rightarrow> int \<Rightarrow> PacketStreamSender \<times> pss_act" where
  "PacketStreamSender_input_handler_send s data data_len =
     send_data (s\<lparr>pss_in_len := data_len, pss_in := data, pss_in_used := 0\<rparr>)"

definition PacketStreamSender_output_handler_done :: "PacketStreamSender \<Rightarrow> int \<Rightarrow> PacketStreamSender \<times> pss_act" where
  "PacketStreamSender_output_handler_done s data_len = send_data (s\<lparr>pss_in_used := pss_in_used s + data_len\<rparr>)"

definition PacketStreamSender_Init :: PacketStreamSender where
  "PacketStreamSender_Init = \<lparr>pss_in_len = -1, pss_in = [], pss_in_used = 0\<rparr>"

text \<open>The environment submits a packet when none is in progress; the stream takes some bytes, at least one,
  of what it was given.\<close>

datatype pss_event = PSS_packet "byte list" | PSS_taken nat

fun pss_step :: "PacketStreamSender \<Rightarrow> pss_event \<Rightarrow> (PacketStreamSender \<times> pss_act) option" where
  "pss_step s (PSS_packet x) =
     (if pss_in_len s = -1 then Some (PacketStreamSender_input_handler_send s x (int (length x))) else None)"
| "pss_step s (PSS_taken n) =
     (if 0 \<le> pss_in_len s \<and> 0 < n \<and> int n \<le> pss_in_len s - pss_in_used s
      then Some (PacketStreamSender_output_handler_done s (int n)) else None)"

fun pss_bytes :: "PacketStreamSender \<Rightarrow> pss_event \<Rightarrow> byte list" where
  "pss_bytes s (PSS_packet x) = []"
| "pss_bytes s (PSS_taken n) = slice (nat (pss_in_used s)) n (pss_in s)"

text \<open>A run returns the state, the calls made and the bytes the stream has taken.\<close>

fun pss_run :: "PacketStreamSender \<Rightarrow> pss_event list \<Rightarrow> (PacketStreamSender \<times> pss_act list \<times> byte list) option" where
  "pss_run s [] = Some (s, [], [])"
| "pss_run s (e # es) =
     (case pss_step s e of None \<Rightarrow> None
      | Some (s', a) \<Rightarrow> (case pss_run s' es of None \<Rightarrow> None
          | Some (s'', as, bs) \<Rightarrow> Some (s'', a # as, pss_bytes s e @ bs)))"

fun pss_packets :: "pss_event list \<Rightarrow> byte list list" where
  "pss_packets [] = []"
| "pss_packets (PSS_packet x # es) = x # pss_packets es"
| "pss_packets (PSS_taken n # es) = pss_packets es"

text \<open>\<open>pss_inv s cur\<close>: \<open>cur\<close> is the packet in progress with what is still to be sent of it.\<close>

definition pss_inv :: "PacketStreamSender \<Rightarrow> byte list option \<Rightarrow> bool" where
  "pss_inv s rem \<longleftrightarrow> (case rem of None \<Rightarrow> pss_in_len s = -1
     | Some r \<Rightarrow> r \<noteq> [] \<and> pss_in_len s = int (length (pss_in s)) \<and> 0 \<le> pss_in_used s \<and> r = drop (nat (pss_in_used s)) (pss_in s))"

definition pss_of :: "byte list \<Rightarrow> byte list option \<times> pss_act" where
  "pss_of r = (if r = [] then (None, PSS_Done) else (Some r, PSS_Send r))"

lemma send_data_of:
  assumes "pss_in_len s = int (length (pss_in s))" "0 \<le> pss_in_used s" "r = drop (nat (pss_in_used s)) (pss_in s)"
  shows "pss_inv (fst (send_data s)) (fst (pss_of r)) \<and> snd (send_data s) = snd (pss_of r)"
  using assms by (auto simp: send_data_def pss_of_def pss_inv_def slice_def)

lemma pss_step_packet:
  assumes "pss_inv s rem" "pss_step s (PSS_packet x) = Some (s', a)"
  shows "rem = None \<and> pss_inv s' (fst (pss_of x)) \<and> a = snd (pss_of x)"
  using assms send_data_of [of "s\<lparr>pss_in_len := int (length x), pss_in := x, pss_in_used := 0\<rparr>" x]
  by (auto simp: PacketStreamSender_input_handler_send_def pss_inv_def split: option.splits if_splits)

lemma pss_step_taken:
  assumes "pss_inv s rem" "pss_step s (PSS_taken n) = Some (s', a)"
  shows "\<exists>r. rem = Some r \<and> 0 < n \<and> n \<le> length r \<and> pss_bytes s (PSS_taken n) = take n r \<and>
    pss_inv s' (fst (pss_of (drop n r))) \<and> a = snd (pss_of (drop n r))"
proof -
  obtain r where r: "rem = Some r" "pss_in_len s = int (length (pss_in s))" "0 \<le> pss_in_used s" "r = drop (nat (pss_in_used s)) (pss_in s)"
    using assms by (auto simp: pss_inv_def split: option.splits if_splits)
  have n: "0 < n" "int n \<le> pss_in_len s - pss_in_used s" "PacketStreamSender_output_handler_done s (int n) = (s', a)"
    using assms(2) by (auto split: if_splits)
  have d: "drop (nat (pss_in_used s + int n)) (pss_in s) = drop n r" using r(3,4) by (simp add: nat_add_distrib add.commute)
  have "pss_inv s' (fst (pss_of (drop n r))) \<and> a = snd (pss_of (drop n r))"
    using send_data_of [of "s\<lparr>pss_in_used := pss_in_used s + int n\<rparr>" "drop n r"] r n(3) d
    by (simp add: PacketStreamSender_output_handler_done_def)
  with r n show ?thesis by (auto simp: slice_def)
qed

fun pss_dones :: "pss_act list \<Rightarrow> nat" where
  "pss_dones [] = 0"
| "pss_dones (PSS_Done # as) = Suc (pss_dones as)"
| "pss_dones (PSS_Send _ # as) = pss_dones as"

definition pss_rest :: "byte list option \<Rightarrow> byte list" where
  "pss_rest rem = (case rem of None \<Rightarrow> [] | Some r \<Rightarrow> r)"

definition pss_busy :: "byte list option \<Rightarrow> nat" where
  "pss_busy rem = (if rem = None then 0 else 1)"

lemma pss_of_simps [simp]:
  "pss_rest (fst (pss_of r)) = r" "pss_rest None = []" "pss_rest (Some r) = r" "pss_busy None = 0" "pss_busy (Some r) = 1"
  "pss_dones (snd (pss_of r) # as) + pss_busy (fst (pss_of r)) = Suc (pss_dones as)"
  by (auto simp: pss_rest_def pss_busy_def pss_of_def)

lemma pss_run_stream:
  "pss_run s es = Some (s', as, bs) \<Longrightarrow> pss_inv s rem \<Longrightarrow>
   \<exists>rem'. pss_inv s' rem' \<and> pss_rest rem @ concat (pss_packets es) = bs @ pss_rest rem' \<and>
     pss_busy rem + length (pss_packets es) = pss_dones as + pss_busy rem'"
proof (induction es arbitrary: s rem as bs)
  case (Cons e es)
  from Cons.prems(1) obtain s1 a as1 bs1 where st: "pss_step s e = Some (s1, a)" "pss_run s1 es = Some (s', as1, bs1)"
    "as = a # as1" "bs = pss_bytes s e @ bs1"
    by (auto split: option.splits)
  obtain x where x: "pss_inv s1 (fst (pss_of x))" "a = snd (pss_of x)"
    "pss_rest rem @ concat (pss_packets [e]) = pss_bytes s e @ x" "pss_busy rem + length (pss_packets [e]) = 1"
  proof (cases e)
    case (PSS_packet x)
    with pss_step_packet [OF Cons.prems(2)] st(1) have "rem = None" "pss_inv s1 (fst (pss_of x))" "a = snd (pss_of x)" by blast+
    with PSS_packet show ?thesis by (intro that [of x]) auto
  next
    case (PSS_taken n)
    with pss_step_taken [OF Cons.prems(2)] st(1) obtain r where "rem = Some r" "pss_bytes s e = take n r"
      "pss_inv s1 (fst (pss_of (drop n r)))" "a = snd (pss_of (drop n r))" by blast
    with PSS_taken show ?thesis by (intro that [of "drop n r"]) auto
  qed
  have cons: "pss_packets (e # es) = pss_packets [e] @ pss_packets es" by (cases e) auto
  from Cons.IH [OF st(2) x(1)] obtain rem' where r: "pss_inv s' rem'" "x @ concat (pss_packets es) = bs1 @ pss_rest rem'"
    "pss_busy (fst (pss_of x)) + length (pss_packets es) = pss_dones as1 + pss_busy rem'" by auto
  have "pss_rest rem @ concat (pss_packets (e # es)) = (pss_rest rem @ concat (pss_packets [e])) @ concat (pss_packets es)"
    unfolding cons by simp
  also have "\<dots> = bs @ pss_rest rem'" using x(3) r(2) st(4) by simp
  finally have "pss_rest rem @ concat (pss_packets (e # es)) = bs @ pss_rest rem'" .
  moreover have "pss_busy rem + length (pss_packets (e # es)) = pss_dones as + pss_busy rem'"
    using x(4) r(3) pss_of_simps(6) [of x as1] unfolding st(3) x(2) cons length_append by linarith
  ultimately show ?case using r(1) by blast
qed auto

text \<open>A \<^verbatim>\<open>PacketStreamSender\<close> sends packets as a byte stream: after any sequence of submitted packets
  and pieces taken by the stream, the bytes taken followed by the bytes of the current packet that are
  still to be sent are the concatenation of the packets; a packet is reported done exactly when its
  last byte has been taken (an empty one at once), and while bytes remain they are what the stream has
  been offered last.  Since every completion takes at least one byte, a packet of \<open>n\<close> bytes is done after
  at most \<open>n\<close> of them.\<close>

theorem PacketStreamSender_stream:
  assumes "pss_run PacketStreamSender_Init es = Some (s, as, bs)"
  shows "\<exists>r. concat (pss_packets es) = bs @ r \<and> (r = [] \<longleftrightarrow> pss_in_len s = -1) \<and>
    length (pss_packets es) = pss_dones as + (if r = [] then 0 else 1) \<and>
    (r \<noteq> [] \<longrightarrow> r = drop (nat (pss_in_used s)) (pss_in s) \<and> (\<forall>n. (\<exists>o'. pss_step s (PSS_taken n) = Some o') \<longleftrightarrow> n \<in> {1..length r}))"
proof -
  have "pss_inv PacketStreamSender_Init None" by (simp add: pss_inv_def PacketStreamSender_Init_def)
  from pss_run_stream [OF assms this] obtain rem where r: "pss_inv s rem" "concat (pss_packets es) = bs @ pss_rest rem"
    "length (pss_packets es) = pss_dones as + pss_busy rem" by auto
  show ?thesis
  proof (cases rem)
    case None
    with r show ?thesis by (intro exI [of _ "[]"]) (auto simp: pss_inv_def)
  next
    case (Some x)
    with r show ?thesis by (intro exI [of _ x]) (auto simp: pss_inv_def)
  qed
qed

theorem PacketStreamSender_stream_witness:
  "\<exists>s as. pss_run PacketStreamSender_Init [PSS_packet [1, 2, 3], PSS_taken 2, PSS_taken 1, PSS_packet [], PSS_packet [4, 5], PSS_taken 1] =
     Some (s, as, [1, 2, 3, 4]) \<and> pss_dones as = 2 \<and> drop (nat (pss_in_used s)) (pss_in s) = [5]"
proof -
  let ?es = "[PSS_packet [1, 2, 3], PSS_taken 2, PSS_taken 1, PSS_packet [], PSS_packet [4, 5], PSS_taken 1]"
  have "map_option (snd \<circ> snd) (pss_run PacketStreamSender_Init ?es) = Some [1, 2, 3, 4]" by code_simp
  then obtain s as where r: "pss_run PacketStreamSender_Init ?es = Some (s, as, [1, 2, 3, 4])" by (auto simp del: pss_run.simps)
  from PacketStreamSender_stream [OF r] have "pss_dones as = 2 \<and> drop (nat (pss_in_used s)) (pss_in s) = [5]" by auto
  with r show ?thesis by blast
qed

subsection \<open>\<^verbatim>\<open>PacketPassConnector\<close>\<close>

text \<open>Outputs are named by values of type \<open>'o\<close>.\<close>

record 'o PacketPassConnector =
  ppc_input_mtu :: int
  ppc_in_len :: int
  ppc_in :: "byte list"
  ppc_output :: "'o option"

datatype 'o ppc_act = PPC_Send 'o "byte list" | PPC_Done

definition ppc_packet :: "'o PacketPassConnector \<Rightarrow> byte list" where
  "ppc_packet c = take (nat (ppc_in_len c)) (ppc_in c)"

definition PacketPassConnector_Init :: "int \<Rightarrow> 'o PacketPassConnector" where
  "PacketPassConnector_Init mtu = \<lparr>ppc_input_mtu = mtu, ppc_in_len = -1, ppc_in = [], ppc_output = None\<rparr>"

definition PacketPassConnector_input_handler_send ::
  "'o PacketPassConnector \<Rightarrow> byte list \<Rightarrow> int \<Rightarrow> 'o PacketPassConnector \<times> 'o ppc_act list" where
  "PacketPassConnector_input_handler_send c data data_len =
     (let c = c\<lparr>ppc_in_len := data_len, ppc_in := data\<rparr>
      in (c, case ppc_output c of None \<Rightarrow> [] | Some out \<Rightarrow> [PPC_Send out (ppc_packet c)]))"

definition PacketPassConnector_output_handler_done :: "'o PacketPassConnector \<Rightarrow> 'o PacketPassConnector \<times> 'o ppc_act list" where
  "PacketPassConnector_output_handler_done c = (c\<lparr>ppc_in_len := -1\<rparr>, [PPC_Done])"

definition PacketPassConnector_ConnectOutput ::
  "'o PacketPassConnector \<Rightarrow> 'o \<Rightarrow> 'o PacketPassConnector \<times> 'o ppc_act list" where
  "PacketPassConnector_ConnectOutput c out =
     (let c = c\<lparr>ppc_output := Some out\<rparr>
      in (c, if ppc_in_len c \<ge> 0 then [PPC_Send out (ppc_packet c)] else []))"

definition PacketPassConnector_DisconnectOutput :: "'o PacketPassConnector \<Rightarrow> 'o PacketPassConnector" where
  "PacketPassConnector_DisconnectOutput c = c\<lparr>ppc_output := None\<rparr>"

text \<open>The environment: \<open>flight\<close> is the packet the connected output is working on, which is lost when the
  output is disconnected, and \<open>deliv\<close> the packets finished by some output.\<close>

datatype 'o ppc_event = PPC_packet "byte list" | PPC_finished | PPC_connect 'o | PPC_disconnect

type_synonym 'o ppc_world = "'o PacketPassConnector \<times> ('o \<times> byte list) option \<times> byte list list"

fun ppc_flight :: "('o \<times> byte list) option \<Rightarrow> 'o ppc_act list \<Rightarrow> ('o \<times> byte list) option" where
  "ppc_flight f [] = f"
| "ppc_flight f (PPC_Send out x # as) = ppc_flight (Some (out, x)) as"
| "ppc_flight f (PPC_Done # as) = ppc_flight f as"

fun ppc_step :: "'o ppc_world \<Rightarrow> 'o ppc_event \<Rightarrow> ('o ppc_world \<times> 'o ppc_act list) option" where
  "ppc_step (c, f, deliv) (PPC_packet x) =
     (if ppc_in_len c = -1 then (let (c', as) = PacketPassConnector_input_handler_send c x (int (length x))
        in Some ((c', ppc_flight f as, deliv), as)) else None)"
| "ppc_step (c, f, deliv) PPC_finished =
     (case f of None \<Rightarrow> None
      | Some (out, x) \<Rightarrow> (let (c', as) = PacketPassConnector_output_handler_done c
        in Some ((c', ppc_flight None as, deliv @ [x]), as)))"
| "ppc_step (c, f, deliv) (PPC_connect out) =
     (if ppc_output c = None then (let (c', as) = PacketPassConnector_ConnectOutput c out
        in Some ((c', ppc_flight f as, deliv), as)) else None)"
| "ppc_step (c, f, deliv) PPC_disconnect =
     (if ppc_output c \<noteq> None then Some ((PacketPassConnector_DisconnectOutput c, None, deliv), []) else None)"

fun ppc_run :: "'o ppc_world \<Rightarrow> 'o ppc_event list \<Rightarrow> ('o ppc_world \<times> 'o ppc_act list) option" where
  "ppc_run w [] = Some (w, [])"
| "ppc_run w (e # es) =
     (case ppc_step w e of None \<Rightarrow> None
      | Some (w', as) \<Rightarrow> (case ppc_run w' es of None \<Rightarrow> None | Some (w'', as') \<Rightarrow> Some (w'', as @ as')))"

fun ppc_packets :: "'o ppc_event list \<Rightarrow> byte list list" where
  "ppc_packets [] = []"
| "ppc_packets (PPC_packet x # es) = x # ppc_packets es"
| "ppc_packets (_ # es) = ppc_packets es"

definition ppc_inv :: "'o ppc_world \<Rightarrow> byte list list \<Rightarrow> bool" where
  "ppc_inv w pend \<longleftrightarrow> (case w of (c, f, deliv) \<Rightarrow>
     (pend = [] \<and> ppc_in_len c = -1 \<and> f = None) \<or>
     (pend = [ppc_packet c] \<and> ppc_in_len c = int (length (ppc_in c)) \<and> f = map_option (\<lambda>out. (out, ppc_packet c)) (ppc_output c)))"

definition ppc_dones :: "'o ppc_act list \<Rightarrow> nat" where
  "ppc_dones as = length (filter (\<lambda>a. a = PPC_Done) as)"

lemma ppc_step_inv:
  assumes "ppc_step w e = Some (w', as)" "ppc_inv w pend"
  shows "\<exists>pend'. ppc_inv w' pend' \<and> snd (snd w) @ pend @ ppc_packets [e] = snd (snd w') @ pend' \<and>
    length (snd (snd w')) = length (snd (snd w)) + ppc_dones as"
proof -
  obtain c f deliv where w: "w = (c, f, deliv)" by (cases w) auto
  show ?thesis
  proof (cases e)
    case (PPC_packet x)
    with assms w show ?thesis
      by (intro exI [of _ "[x]"])
        (auto simp: ppc_inv_def PacketPassConnector_input_handler_send_def Let_def ppc_packet_def ppc_dones_def split: if_splits option.splits)
  next
    case PPC_finished
    with assms w show ?thesis
      by (cases "ppc_output c"; intro exI [of _ "[]"])
        (auto simp: ppc_inv_def PacketPassConnector_output_handler_done_def ppc_dones_def split: option.splits)
  next
    case (PPC_connect out)
    with assms w show ?thesis
      by (intro exI [of _ pend])
        (auto simp: ppc_inv_def PacketPassConnector_ConnectOutput_def Let_def ppc_packet_def ppc_dones_def split: if_splits)
  next
    case PPC_disconnect
    with assms w show ?thesis
      by (intro exI [of _ pend])
        (auto simp: ppc_inv_def PacketPassConnector_DisconnectOutput_def ppc_packet_def ppc_dones_def split: if_splits)
  qed
qed

lemma ppc_run_inv:
  "ppc_run w es = Some (w', as) \<Longrightarrow> ppc_inv w pend \<Longrightarrow>
   \<exists>pend'. ppc_inv w' pend' \<and> snd (snd w) @ pend @ ppc_packets es = snd (snd w') @ pend' \<and>
    length (snd (snd w')) = length (snd (snd w)) + ppc_dones as"
proof (induction es arbitrary: w pend as)
  case (Cons e es)
  from Cons.prems(1) obtain w1 a as1 where st: "ppc_step w e = Some (w1, a)" "ppc_run w1 es = Some (w', as1)" "as = a @ as1"
    by (auto split: option.splits)
  from ppc_step_inv [OF st(1) Cons.prems(2)] obtain p1 where p1: "ppc_inv w1 p1"
    "snd (snd w) @ pend @ ppc_packets [e] = snd (snd w1) @ p1" "length (snd (snd w1)) = length (snd (snd w)) + ppc_dones a" by blast
  from Cons.IH [OF st(2) p1(1)] obtain p2 where p2: "ppc_inv w' p2" "snd (snd w1) @ p1 @ ppc_packets es = snd (snd w') @ p2"
    "length (snd (snd w')) = length (snd (snd w1)) + ppc_dones as1" by blast
  have "ppc_packets (e # es) = ppc_packets [e] @ ppc_packets es" by (cases e) auto
  then have "snd (snd w) @ pend @ ppc_packets (e # es) = (snd (snd w) @ pend @ ppc_packets [e]) @ ppc_packets es" by simp
  also have "\<dots> = snd (snd w') @ p2" unfolding p1(2) using p2(2) by simp
  finally show ?case using p2(1,3) p1(3) st(3) by (intro exI [of _ p2]) (simp add: ppc_dones_def)
qed (auto simp: ppc_dones_def)

text \<open>C35.  A \<^verbatim>\<open>PacketPassConnector\<close> loses and duplicates nothing when its output is exchanged: for every
  sequence of submitted packets, completions, connections and disconnections, the packets finished by the
  outputs are the submitted ones in order, all but at most one that is still pending; each is reported
  done once; and a pending packet is being sent exactly when an output is connected, to that output, also
  when it was first given to an output disconnected since.\<close>

theorem PacketPassConnector_reconnects:
  assumes "ppc_run (PacketPassConnector_Init mtu, None, []) es = Some ((c, f, deliv), as)"
  shows "\<exists>pend. ppc_packets es = deliv @ pend \<and> length pend \<le> 1 \<and> ppc_dones as = length deliv \<and>
    (pend = [] \<longleftrightarrow> ppc_in_len c = -1) \<and>
    f = (case pend of [] \<Rightarrow> None | x # _ \<Rightarrow> map_option (\<lambda>out. (out, x)) (ppc_output c))"
proof -
  have "ppc_inv (PacketPassConnector_Init mtu, None, []) []" by (simp add: ppc_inv_def PacketPassConnector_Init_def)
  from ppc_run_inv [OF assms this] obtain pend where "ppc_inv (c, f, deliv) pend" "ppc_packets es = deliv @ pend"
    "ppc_dones as = length deliv" by auto
  then show ?thesis by (intro exI [of _ pend]) (auto simp: ppc_inv_def)
qed

theorem PacketPassConnector_reconnects_witness:
  "\<exists>c f as. ppc_run (PacketPassConnector_Init 9, None, [])
     [PPC_packet [1], PPC_connect (0 :: nat), PPC_disconnect, PPC_connect 1, PPC_finished, PPC_packet [2, 3]] = Some ((c, f, [[1]]), as) \<and>
     ppc_dones as = 1 \<and> f = Some (1, [2, 3])"
proof -
  let ?es = "[PPC_packet [1], PPC_connect (0 :: nat), PPC_disconnect, PPC_connect 1, PPC_finished, PPC_packet [2, 3]]"
  have "map_option (\<lambda>((c, f, d), as). (d, ppc_output c)) (ppc_run (PacketPassConnector_Init 9, None, []) ?es) = Some ([[1]], Some 1)"
    by code_simp
  then obtain c f as where r: "ppc_run (PacketPassConnector_Init 9, None, []) ?es = Some ((c, f, [[1]]), as)" "ppc_output c = Some 1"
    by (auto simp del: ppc_run.simps)
  from PacketPassConnector_reconnects [OF r(1)] r(2) have "ppc_dones as = 1 \<and> f = Some (1, [2, 3])" by auto
  with r show ?thesis by blast
qed

subsection \<open>\<^verbatim>\<open>PacketPassInactivityMonitor\<close>\<close>

text \<open>The timer as its expiry time; \<^verbatim>\<open>BReactor_SetTimer\<close> sets it to the given time plus the interval.\<close>

record PacketPassInactivityMonitor =
  im_interval :: int
  im_timer :: "int option"
  im_handler :: bool

datatype im_act = IM_Send "byte list" | IM_RequestCancel | IM_Done | IM_handler

definition im_set_timer :: "int \<Rightarrow> PacketPassInactivityMonitor \<Rightarrow> PacketPassInactivityMonitor" where
  "im_set_timer now m = m\<lparr>im_timer := Some (now + im_interval m)\<rparr>"

definition im_input_handler_send :: "PacketPassInactivityMonitor \<Rightarrow> byte list \<Rightarrow> PacketPassInactivityMonitor \<times> im_act list" where
  "im_input_handler_send m data = (m\<lparr>im_timer := None\<rparr>, [IM_Send data])"

definition im_input_handler_requestcancel :: "PacketPassInactivityMonitor \<Rightarrow> PacketPassInactivityMonitor \<times> im_act list" where
  "im_input_handler_requestcancel m = (m, [IM_RequestCancel])"

definition im_output_handler_done :: "int \<Rightarrow> PacketPassInactivityMonitor \<Rightarrow> PacketPassInactivityMonitor \<times> im_act list" where
  "im_output_handler_done now m = (im_set_timer now m, [IM_Done])"

definition im_timer_handler :: "int \<Rightarrow> PacketPassInactivityMonitor \<Rightarrow> PacketPassInactivityMonitor \<times> im_act list" where
  "im_timer_handler now m = (let m = im_set_timer now m in (m, if im_handler m then [IM_handler] else []))"

definition PacketPassInactivityMonitor_Init :: "int \<Rightarrow> int \<Rightarrow> bool \<Rightarrow> PacketPassInactivityMonitor" where
  "PacketPassInactivityMonitor_Init now interval h = im_set_timer now \<lparr>im_interval = interval, im_timer = None, im_handler = h\<rparr>"

definition PacketPassInactivityMonitor_SetHandler :: "PacketPassInactivityMonitor \<Rightarrow> bool \<Rightarrow> PacketPassInactivityMonitor" where
  "PacketPassInactivityMonitor_SetHandler m h = m\<lparr>im_handler := h\<rparr>"

definition PacketPassInactivityMonitor_Force :: "int \<Rightarrow> PacketPassInactivityMonitor \<Rightarrow> PacketPassInactivityMonitor" where
  "PacketPassInactivityMonitor_Force now m = m\<lparr>im_timer := Some now\<rparr>"

text \<open>A run with non-decreasing times.  The world remembers whether a packet is in progress, when the output
  was last busy or the handler last called, and whether \<^verbatim>\<open>Force\<close> was called since.\<close>

datatype im_event = IM_packet "byte list" | IM_cancel | IM_finished | IM_expired | IM_set bool | IM_force

record im_world =
  iw_mon :: PacketPassInactivityMonitor
  iw_busy :: bool
  iw_last :: int
  iw_now :: int
  iw_forced :: bool

definition im_enabled :: "im_world \<Rightarrow> int \<Rightarrow> im_event \<Rightarrow> bool" where
  "im_enabled w now e \<longleftrightarrow> iw_now w \<le> now \<and>
     (case e of IM_packet _ \<Rightarrow> \<not> iw_busy w | IM_cancel \<Rightarrow> iw_busy w | IM_finished \<Rightarrow> iw_busy w
      | IM_expired \<Rightarrow> (case im_timer (iw_mon w) of None \<Rightarrow> False | Some t \<Rightarrow> t \<le> now) | _ \<Rightarrow> True)"

fun im_step :: "im_world \<Rightarrow> int \<times> im_event \<Rightarrow> im_world \<times> im_act list" where
  "im_step w (now, IM_packet x) =
     (let (m, as) = im_input_handler_send (iw_mon w) x
      in (w\<lparr>iw_mon := m, iw_busy := True, iw_last := now, iw_now := now, iw_forced := False\<rparr>, as))"
| "im_step w (now, IM_cancel) = (let (m, as) = im_input_handler_requestcancel (iw_mon w) in (w\<lparr>iw_mon := m, iw_now := now\<rparr>, as))"
| "im_step w (now, IM_finished) =
     (let (m, as) = im_output_handler_done now (iw_mon w)
      in (w\<lparr>iw_mon := m, iw_busy := False, iw_last := now, iw_now := now, iw_forced := False\<rparr>, as))"
| "im_step w (now, IM_expired) =
     (let (m, as) = im_timer_handler now (iw_mon w) in (w\<lparr>iw_mon := m, iw_last := now, iw_now := now\<rparr>, as))"
| "im_step w (now, IM_set h) = (w\<lparr>iw_mon := PacketPassInactivityMonitor_SetHandler (iw_mon w) h, iw_now := now\<rparr>, [])"
| "im_step w (now, IM_force) = (w\<lparr>iw_mon := PacketPassInactivityMonitor_Force now (iw_mon w), iw_now := now, iw_forced := True\<rparr>, [])"

fun im_run :: "im_world \<Rightarrow> (int \<times> im_event) list \<Rightarrow> im_world option" where
  "im_run w [] = Some w"
| "im_run w (te # tes) = (if im_enabled w (fst te) (snd te) then im_run (fst (im_step w te)) tes else None)"

definition im_start :: "int \<Rightarrow> int \<Rightarrow> bool \<Rightarrow> im_world" where
  "im_start now interval h = \<lparr>iw_mon = PacketPassInactivityMonitor_Init now interval h, iw_busy = False, iw_last = now,
     iw_now = now, iw_forced = False\<rparr>"

definition im_inv :: "int \<Rightarrow> im_world \<Rightarrow> bool" where
  "im_inv interval w \<longleftrightarrow> im_interval (iw_mon w) = interval \<and> (\<not> iw_forced w \<longrightarrow>
     im_timer (iw_mon w) = (if iw_busy w then None else Some (iw_last w + interval)))"

lemma im_step_inv: "im_enabled w (fst te) (snd te) \<Longrightarrow> im_inv interval w \<Longrightarrow> im_inv interval (fst (im_step w te))"
  by (cases te rule: prod.exhaust; cases "snd te")
    (auto simp: im_inv_def im_enabled_def im_input_handler_send_def im_input_handler_requestcancel_def im_output_handler_done_def
      im_timer_handler_def im_set_timer_def PacketPassInactivityMonitor_SetHandler_def PacketPassInactivityMonitor_Force_def Let_def
      split: option.splits)

lemma im_run_inv: "im_run w tes = Some w' \<Longrightarrow> im_inv interval w \<Longrightarrow> im_inv interval w'"
  by (induction w tes rule: im_run.induct) (auto simp: im_step_inv split: if_splits)

text \<open>The inactivity monitor calls its handler exactly after inactivity: unless \<^verbatim>\<open>Force\<close> was called since the
  output was last busy, its timer can expire at time \<open>t\<close> if and only if no packet is in progress and the
  output has been idle, and the handler not called, for the whole interval before \<open>t\<close>; the handler is then
  called if one is set.\<close>

theorem PacketPassInactivityMonitor_idle:
  assumes "im_run (im_start now0 interval h) tes = Some w" "\<not> iw_forced w" "iw_now w \<le> t"
  shows "(im_enabled w t IM_expired \<longleftrightarrow> \<not> iw_busy w \<and> iw_last w + interval \<le> t) \<and>
    (IM_handler \<in> set (snd (im_step w (t, IM_expired))) \<longleftrightarrow> im_handler (iw_mon w))"
proof -
  have "im_inv interval (im_start now0 interval h)"
    by (simp add: im_inv_def im_start_def PacketPassInactivityMonitor_Init_def im_set_timer_def)
  from im_run_inv [OF assms(1) this] assms(2,3) show ?thesis
    by (auto simp: im_inv_def im_enabled_def im_timer_handler_def Let_def im_set_timer_def split: option.splits)
qed

theorem PacketPassInactivityMonitor_idle_witness:
  "\<exists>w. im_run (im_start 0 10 True) [(2, IM_packet [1]), (30, IM_finished)] = Some w \<and>
     \<not> im_enabled w 39 IM_expired \<and> im_enabled w 40 IM_expired"
proof -
  let ?w = "fst (im_step (fst (im_step (im_start 0 10 True) (2, IM_packet [1]))) (30, IM_finished))"
  have r: "im_run (im_start 0 10 True) [(2, IM_packet [1]), (30, IM_finished)] = Some ?w"
    by (simp add: im_enabled_def im_start_def im_input_handler_send_def)
  have f: "\<not> iw_forced ?w" "iw_now ?w = 30" "iw_last ?w = 30" "\<not> iw_busy ?w"
    by (simp_all add: im_start_def im_input_handler_send_def im_output_handler_done_def)
  have "\<not> im_enabled ?w 39 IM_expired" "im_enabled ?w 40 IM_expired"
    using PacketPassInactivityMonitor_idle [OF r f(1), of 39] PacketPassInactivityMonitor_idle [OF r f(1), of 40]
    unfolding f(2,3) using f(4) by simp_all
  with r show ?thesis by blast
qed

subsection \<open>\<^verbatim>\<open>PacketProtoFlow\<close>\<close>

text \<open>The chain of a \<^verbatim>\<open>BufferWriter\<close>, a \<^verbatim>\<open>PacketProtoEncoder\<close> and a \<^verbatim>\<open>PacketBuffer\<close>.  \<open>ppf_jobs\<close> holds the interface job
  that is in progress between two of them: the buffer's receive request on its way to the encoder or to
  the writer, or a completion on its way back.\<close>

datatype ppf_job = Job_encoder_recv nat | Job_writer_recv nat | Job_encoder_done nat | Job_buffer_done nat

record PacketProtoFlow =
  ppf_ainput :: BufferWriter
  ppf_encoder :: PacketProtoEncoder
  ppf_buffer :: PacketBuffer
  ppf_jobs :: "ppf_job option"

definition ppf_mem :: "PacketProtoFlow \<Rightarrow> byte list" where
  "ppf_mem f = cb_mem (pb_buf (ppf_buffer f))"

definition ppf_set_mem :: "byte list \<Rightarrow> PacketProtoFlow \<Rightarrow> PacketProtoFlow" where
  "ppf_set_mem mem f = f\<lparr>ppf_buffer := (ppf_buffer f)\<lparr>pb_buf := (pb_buf (ppf_buffer f))\<lparr>cb_mem := mem\<rparr>\<rparr>\<rparr>"

text \<open>The calls of the buffer: a receive request becomes the encoder's job, a send goes to the output.\<close>

fun ppf_calls :: "pb_act list \<Rightarrow> PacketProtoFlow \<Rightarrow> PacketProtoFlow" where
  "ppf_calls [] f = f"
| "ppf_calls (PB_Recv (Some d) # as) f = ppf_calls as (f\<lparr>ppf_jobs := Some (Job_encoder_recv d)\<rparr>)"
| "ppf_calls (_ # as) f = ppf_calls as f"

definition PacketProtoFlow_Init :: "(int \<Rightarrow> byte list option) \<Rightarrow> nat \<Rightarrow> nat \<Rightarrow> PacketProtoFlow option" where
  "PacketProtoFlow_Init alloc input_mtu num_packets =
     (let ainput = BufferWriter_Init (int input_mtu);
          encoder = PacketProtoEncoder_Init input_mtu
      in case PacketBuffer_Init alloc (int (pe_output_mtu encoder)) (int num_packets) of
           None \<Rightarrow> None
         | Some (buffer, as) \<Rightarrow>
             Some (ppf_calls as \<lparr>ppf_ainput = ainput, ppf_encoder = encoder, ppf_buffer = buffer, ppf_jobs = None\<rparr>))"

text \<open>Writing a packet: \<^verbatim>\<open>BufferWriter_StartPacket\<close>, the bytes, \<^verbatim>\<open>BufferWriter_EndPacket\<close>.  \<open>False\<close>: there is no space now.\<close>

definition ppf_write :: "byte list \<Rightarrow> PacketProtoFlow \<Rightarrow> PacketProtoFlow \<times> bool" where
  "ppf_write p f =
     (case BufferWriter_StartPacket (ppf_ainput f) of
        None \<Rightarrow> (f, False)
      | Some d \<Rightarrow>
          (let f = ppf_set_mem (overwrite d p (ppf_mem f)) f;
               (w, n) = BufferWriter_EndPacket (ppf_ainput f) (int (length p))
           in (f\<lparr>ppf_ainput := w, ppf_jobs := Some (Job_encoder_done (nat n))\<rparr>, True)))"

fun ppf_job_step :: "ppf_job \<Rightarrow> PacketProtoFlow \<Rightarrow> (PacketProtoFlow \<times> pb_act list) option" where
  "ppf_job_step (Job_encoder_recv d) f =
     (case PacketProtoEncoder_output_handler_recv (ppf_encoder f) d of
        (enc, Pe_Receiver_Recv d') \<Rightarrow> Some (f\<lparr>ppf_encoder := enc, ppf_jobs := Some (Job_writer_recv d')\<rparr>, [])
      | (enc, Pe_Done n) \<Rightarrow> None)"
| "ppf_job_step (Job_writer_recv d) f = Some (f\<lparr>ppf_ainput := BufferWriter_output_handler_recv (ppf_ainput f) d, ppf_jobs := None\<rparr>, [])"
| "ppf_job_step (Job_encoder_done n) f =
     (case PacketProtoEncoder_input_handler_done (ppf_encoder f) (ppf_mem f) n of
        Some (enc, mem, Pe_Done m) \<Rightarrow> Some ((ppf_set_mem mem f)\<lparr>ppf_encoder := enc, ppf_jobs := Some (Job_buffer_done m)\<rparr>, [])
      | _ \<Rightarrow> None)"
| "ppf_job_step (Job_buffer_done n) f =
     (let (b, as) = PacketBuffer_input_handler_done ((ppf_buffer f)\<lparr>pb_recv := None\<rparr>) (int n)
      in Some (ppf_calls as (f\<lparr>ppf_buffer := b, ppf_jobs := None\<rparr>), as))"

datatype ppf_event = PPF_write "byte list" | PPF_job | PPF_finished

text \<open>One event: the new state, the buffer's calls and the packets accepted.\<close>

fun ppf_step :: "PacketProtoFlow \<Rightarrow> ppf_event \<Rightarrow> (PacketProtoFlow \<times> pb_act list \<times> byte list list) option" where
  "ppf_step f (PPF_write p) =
     (if int (length p) \<le> bw_mtu (ppf_ainput f) then (case ppf_write p f of (f', ok) \<Rightarrow> Some (f', [], if ok then [p] else [])) else None)"
| "ppf_step f PPF_job =
     (case ppf_jobs f of None \<Rightarrow> None
      | Some j \<Rightarrow> (case ppf_job_step j f of None \<Rightarrow> None | Some (f', as) \<Rightarrow> Some (f', as, [])))"
| "ppf_step f PPF_finished =
     (if pb_send (ppf_buffer f)
      then (let (b, as) = PacketBuffer_output_handler_done ((ppf_buffer f)\<lparr>pb_send := False\<rparr>)
            in Some (ppf_calls as (f\<lparr>ppf_buffer := b\<rparr>), as, []))
      else None)"

fun ppf_run :: "PacketProtoFlow \<Rightarrow> ppf_event list \<Rightarrow> (PacketProtoFlow \<times> byte list list \<times> byte list list) option" where
  "ppf_run f [] = Some (f, [], [])"
| "ppf_run f (e # es) =
     (case ppf_step f e of None \<Rightarrow> None
      | Some (f', as, ps) \<Rightarrow> (case ppf_run f' es of None \<Rightarrow> None
          | Some (f'', out, ps') \<Rightarrow> Some (f'', pb_sends as @ out, ps @ ps')))"

text \<open>Writing inside the destination of the outstanding receive operation does not disturb the stored packets.\<close>

lemma overwrite_shift: "d + k + length x \<le> length mem \<Longrightarrow> overwrite (d + k) x mem = overwrite d (slice d k mem @ x) mem"
  by (rule nth_equalityI) (auto simp: nth_overwrite nth_append)

lemma overwrite_slice_id: "d + n \<le> length mem \<Longrightarrow> overwrite d (slice d n mem) mem = mem"
  by (rule nth_equalityI) (auto simp: nth_overwrite)

lemma pb_inv_recvD:
  assumes "pb_inv mtu num pb q" "pb_recv pb = Some d"
  shows "input_dest (pb_buf pb) = Some d" "int mtu \<le> input_avail (pb_buf pb)" "d + mtu \<le> length (cb_mem (pb_buf pb))"
proof -
  show i: "input_dest (pb_buf pb) = Some d" "int mtu \<le> input_avail (pb_buf pb)"
    using assms by (auto simp: pb_inv_def split: if_splits)
  show "d + mtu \<le> length (cb_mem (pb_buf pb))"
    using cb_rep_write(2) [of "pb_buf pb" q d "replicate mtu 0"] assms i by (simp add: pb_inv_def cb_sized_def)
qed

lemma pb_inv_write:
  assumes inv: "pb_inv mtu num pb q" and d: "pb_recv pb = Some d" and k: "k + length x \<le> mtu"
  shows "pb_inv mtu num (pb\<lparr>pb_buf := (pb_buf pb)\<lparr>cb_mem := overwrite (d + k) x (cb_mem (pb_buf pb))\<rparr>\<rparr>) q"
proof -
  note D = pb_inv_recvD [OF inv d]
  let ?m = "cb_mem (pb_buf pb)"
  have "overwrite (d + k) x ?m = overwrite d (slice d k ?m @ x) ?m" using D(3) k by (intro overwrite_shift) simp
  moreover have "cb_rep ((pb_buf pb)\<lparr>cb_mem := overwrite d (slice d k ?m @ x) ?m\<rparr>) q"
    using inv D k by (intro cb_rep_write(1)) (auto simp: pb_inv_def cb_sized_def)
  ultimately show ?thesis using inv by (simp add: pb_inv_def cb_sized_def)
qed

lemma pb_step_filled:
  assumes "pb_inv mtu num pb q" "pb_recv pb = Some d" "slice d (length x) (cb_mem (pb_buf pb)) = x" "length x \<le> mtu"
  shows "PacketBuffer_input_handler_done (pb\<lparr>pb_recv := None\<rparr>) (int (length x)) = pb_step pb (PB_in x)"
proof -
  have "overwrite d x (cb_mem (pb_buf pb)) = cb_mem (pb_buf pb)"
    using overwrite_slice_id [of d "length x" "cb_mem (pb_buf pb)"] pb_inv_recvD(3) [OF assms(1,2)] assms(3,4) by simp
  then show ?thesis using assms(2) by simp
qed

lemma ppf_calls_in:
  "pb_recv pb \<noteq> None \<Longrightarrow> ppf_calls (snd (pb_step pb (PB_in x))) f =
     (case pb_recv (fst (pb_step pb (PB_in x))) of None \<Rightarrow> f | Some d \<Rightarrow> f\<lparr>ppf_jobs := Some (Job_encoder_recv d)\<rparr>)"
  by (auto simp: PacketBuffer_input_handler_done_def pb_schedule_recv_def pb_schedule_send_def Let_def split: option.splits)

lemma ppf_calls_out:
  assumes "pb_inv mtu num pb q"
  shows "ppf_calls (snd (pb_step pb PB_out)) f =
     (if pb_recv pb = None
      then case pb_recv (fst (pb_step pb PB_out)) of None \<Rightarrow> f | Some d \<Rightarrow> f\<lparr>ppf_jobs := Some (Job_encoder_recv d)\<rparr>
      else f)"
    "pb_recv pb \<noteq> None \<Longrightarrow> pb_recv (fst (pb_step pb PB_out)) = pb_recv pb"
    "cb_mem (pb_buf (fst (pb_step pb PB_out))) = cb_mem (pb_buf pb)"
proof -
  have "input_avail (pb_buf pb) < pb_input_mtu pb \<longleftrightarrow> pb_recv pb = None"
    using assms cb_rep_input_dest [of "pb_buf pb" q mtu] by (auto simp: pb_inv_def cb_sized_def)
  then show "ppf_calls (snd (pb_step pb PB_out)) f =
     (if pb_recv pb = None
      then case pb_recv (fst (pb_step pb PB_out)) of None \<Rightarrow> f | Some d \<Rightarrow> f\<lparr>ppf_jobs := Some (Job_encoder_recv d)\<rparr>
      else f)" "pb_recv pb \<noteq> None \<Longrightarrow> pb_recv (fst (pb_step pb PB_out)) = pb_recv pb"
    by (auto simp: PacketBuffer_output_handler_done_def pb_schedule_recv_def pb_schedule_send_def Let_def split: option.splits)
  show "cb_mem (pb_buf (fst (pb_step pb PB_out))) = cb_mem (pb_buf pb)"
    by (auto simp: PacketBuffer_output_handler_done_def pb_schedule_recv_def pb_schedule_send_def Let_def
        ChunkBuffer2_ConsumePacket_def update_input_calc update_output_calc)
qed

text \<open>\<open>q\<close>: the frames stored, \<open>cur\<close>: the packet on its way through the encoder, if any.\<close>

fun ppf_phase :: "nat \<Rightarrow> ppf_job option \<Rightarrow> nat option \<Rightarrow> nat option \<Rightarrow> nat option \<Rightarrow> byte list \<Rightarrow> byte list list \<Rightarrow> bool" where
  "ppf_phase mtu None recv enc out mem cur = (cur = [] \<and> enc = recv \<and> out = map_option (\<lambda>d. d + 2) recv)"
| "ppf_phase mtu (Some (Job_encoder_recv d)) recv enc out mem cur = (cur = [] \<and> recv = Some d \<and> enc = None \<and> out = None)"
| "ppf_phase mtu (Some (Job_writer_recv d')) recv enc out mem cur = (cur = [] \<and> recv = enc \<and> enc \<noteq> None \<and> d' = the enc + 2 \<and> out = None)"
| "ppf_phase mtu (Some (Job_encoder_done n)) recv enc out mem cur =
     (\<exists>d p. cur = [p] \<and> recv = Some d \<and> enc = Some d \<and> out = None \<and> n = length p \<and> n \<le> mtu \<and> slice (d + 2) n mem = p)"
| "ppf_phase mtu (Some (Job_buffer_done n)) recv enc out mem cur =
     (\<exists>d p. cur = [p] \<and> recv = Some d \<and> enc = None \<and> out = None \<and> n = length (pp_frame p) \<and> length p \<le> mtu \<and> slice d n mem = pp_frame p)"

definition ppf_ok :: "nat \<Rightarrow> nat \<Rightarrow> PacketProtoFlow \<Rightarrow> byte list list \<Rightarrow> byte list list \<Rightarrow> bool" where
  "ppf_ok mtu num f q cur \<longleftrightarrow> pb_inv (2 + mtu) num (ppf_buffer f) q \<and> bw_mtu (ppf_ainput f) = int mtu \<and>
     ppf_phase mtu (ppf_jobs f) (pb_recv (ppf_buffer f)) (pe_output_packet (ppf_encoder f)) (BufferWriter_StartPacket (ppf_ainput f))
       (ppf_mem f) cur"

lemma ppf_write_ok:
  assumes "ppf_ok mtu num f q cur" "length p \<le> mtu" "ppf_write p f = (f', ok)"
  shows "\<exists>cur'. ppf_ok mtu num f' q cur' \<and> cur' = cur @ (if ok then [p] else [])"
proof (cases "BufferWriter_StartPacket (ppf_ainput f)")
  case (Some d')
  from assms(1) Some obtain d where d: "cur = []" "ppf_jobs f = None" "pb_recv (ppf_buffer f) = Some d"
    "pe_output_packet (ppf_encoder f) = Some d" "d' = d + 2"
    unfolding ppf_ok_def by (elim conjE ppf_phase.elims) (auto dest: sym)
  have inv: "pb_inv (2 + mtu) num (ppf_buffer f) q" using assms(1) by (simp add: ppf_ok_def)
  have "slice (d + 2) (length p) (overwrite (d + 2) p (ppf_mem f)) = p"
    using pb_inv_recvD(3) [OF inv d(3)] assms(2) by (intro slice_overwrite_same) (simp add: ppf_mem_def)
  with assms Some d pb_inv_write [OF inv d(3), of 2 p] show ?thesis
    by (auto simp: ppf_write_def ppf_ok_def ppf_set_mem_def ppf_mem_def BufferWriter_EndPacket_def BufferWriter_StartPacket_def Let_def)
qed (use assms in \<open>auto simp: ppf_write_def\<close>)

lemma frame_in_place:
  assumes "d + 2 + length p \<le> length mem" "slice (d + 2) (length p) mem = p"
  shows "slice d (length (pp_frame p)) (overwrite d (mem_bytes16 (of_nat (length p))) mem) = pp_frame p"
proof -
  let ?m = "overwrite d (mem_bytes16 (of_nat (length p))) mem"
  have "slice d (2 + length p) ?m = slice d 2 ?m @ slice (d + 2) (length p) ?m" by (rule slice_append_slice [symmetric])
  moreover have "slice d 2 ?m = mem_bytes16 (of_nat (length p))"
    using slice_overwrite_same [of d "mem_bytes16 (of_nat (length p))" mem] assms(1) by (simp add: mem_bytes16_def numeral_2_eq_2)
  moreover have "slice (d + 2) (length p) ?m = slice (d + 2) (length p) mem"
    using assms(1) by (intro slice_overwrite_disjoint) (auto simp: mem_bytes16_def)
  ultimately show ?thesis using assms(2) by (simp add: pp_frame_def)
qed

lemma ppf_encoder_done_ok:
  assumes "ppf_ok mtu num f q cur" "ppf_jobs f = Some (Job_encoder_done n)"
  shows "\<exists>f'. ppf_job_step (Job_encoder_done n) f = Some (f', []) \<and> ppf_ok mtu num f' q cur"
proof -
  from assms obtain d p where d: "cur = [p]" "pb_recv (ppf_buffer f) = Some d" "pe_output_packet (ppf_encoder f) = Some d" "n = length p"
    "n \<le> mtu" "slice (d + 2) n (ppf_mem f) = p" "BufferWriter_StartPacket (ppf_ainput f) = None"
    by (auto simp: ppf_ok_def)
  have inv: "pb_inv (2 + mtu) num (ppf_buffer f) q" using assms(1) by (simp add: ppf_ok_def)
  have "d + 2 + length p \<le> length (ppf_mem f)" using pb_inv_recvD(3) [OF inv d(2)] d(4,5) by (simp add: ppf_mem_def)
  from frame_in_place [OF this] d(4,6)
  have "slice d (length (pp_frame p)) (overwrite d (mem_bytes16 (of_nat (length p))) (ppf_mem f)) = pp_frame p" by simp
  with pb_inv_write [OF inv d(2), of 0 "mem_bytes16 (of_nat (length p))"] d assms show ?thesis
    by (auto simp: ppf_ok_def PacketProtoEncoder_input_handler_done_def ppf_set_mem_def ppf_mem_def Let_def htol16_def mem_bytes16_def
        PACKETPROTO_ENCLEN_def sizeof_packetproto_header_def)
qed

lemma ppf_buffer_done_ok:
  assumes "ppf_ok mtu num f q cur" "ppf_jobs f = Some (Job_buffer_done n)"
  shows "\<exists>f' as p. ppf_job_step (Job_buffer_done n) f = Some (f', as) \<and> cur = [p] \<and> ppf_ok mtu num f' (q @ [pp_frame p]) [] \<and>
    pb_sends as = (if q = [] then [pp_frame p] else [])"
proof -
  from assms obtain d p where d: "cur = [p]" "pb_recv (ppf_buffer f) = Some d" "pe_output_packet (ppf_encoder f) = None"
    "n = length (pp_frame p)" "length p \<le> mtu" "slice d n (ppf_mem f) = pp_frame p" "BufferWriter_StartPacket (ppf_ainput f) = None"
    by (auto simp: ppf_ok_def)
  have inv: "pb_inv (2 + mtu) num (ppf_buffer f) q" using assms(1) by (simp add: ppf_ok_def)
  let ?st = "pb_step (ppf_buffer f) (PB_in (pp_frame p))"
  have en: "pb_enabled (ppf_buffer f) (PB_in (pp_frame p))" using d(2,5) inv by (simp add: pb_inv_def [THEN iffD1, THEN conjunct1])
  note st = pb_step_in [OF inv en]
  have eq: "PacketBuffer_input_handler_done ((ppf_buffer f)\<lparr>pb_recv := None\<rparr>) (int n) = ?st"
    unfolding d(4) using d(4-6) by (intro pb_step_filled [OF inv d(2)]) (simp_all add: ppf_mem_def)
  have calls: "ppf_calls (snd ?st) g = (case pb_recv (fst ?st) of None \<Rightarrow> g | Some d \<Rightarrow> g\<lparr>ppf_jobs := Some (Job_encoder_recv d)\<rparr>)" for g
    using d(2) by (intro ppf_calls_in) simp
  have "ppf_job_step (Job_buffer_done n) f = Some (ppf_calls (snd ?st) (f\<lparr>ppf_buffer := fst ?st, ppf_jobs := None\<rparr>), snd ?st)"
    using eq by (simp add: case_prod_beta Let_def del: pb_step.simps)
  moreover have "ppf_ok mtu num (ppf_calls (snd ?st) (f\<lparr>ppf_buffer := fst ?st, ppf_jobs := None\<rparr>)) (q @ [pp_frame p]) []"
    unfolding calls using st d(3,7) assms(1) by (auto simp: ppf_ok_def split: option.splits simp del: pb_step.simps)
  ultimately show ?thesis using st d(1) by (auto simp del: pb_step.simps)
qed

lemma ppf_finished_ok:
  assumes ok: "ppf_ok mtu num f q cur" and st: "ppf_step f PPF_finished = Some (f', as, ps)"
  shows "\<exists>y q'. q = y # q' \<and> ppf_ok mtu num f' q' cur \<and> pb_sends as = heads q' \<and> ps = []"
proof -
  have inv: "pb_inv (2 + mtu) num (ppf_buffer f) q" using ok by (simp add: ppf_ok_def)
  let ?st = "pb_step (ppf_buffer f) PB_out"
  have en: "pb_enabled (ppf_buffer f) PB_out" and f': "f' = ppf_calls (snd ?st) (f\<lparr>ppf_buffer := fst ?st\<rparr>)" "as = snd ?st" "ps = []"
    using st by (auto simp: case_prod_beta Let_def split: if_splits)
  note out = ppf_calls_out [OF inv]
  have "ppf_ok mtu num f' q' cur" if "pb_inv (2 + mtu) num (fst ?st) q'" for q'
  proof (cases "pb_recv (ppf_buffer f)")
    case None
    with ok have "ppf_jobs f = None" "cur = []" "pe_output_packet (ppf_encoder f) = None" "BufferWriter_StartPacket (ppf_ainput f) = None"
      unfolding ppf_ok_def by (auto elim!: ppf_phase.elims)
    with None that ok show ?thesis unfolding f' out(1) by (auto simp: ppf_ok_def split: option.splits simp del: pb_step.simps)
  next
    case (Some d)
    with out(2,3) that ok show ?thesis unfolding f' out(1) by (simp add: ppf_ok_def ppf_mem_def del: pb_step.simps)
  qed
  with pb_step_out [OF inv en] f' show ?thesis by blast
qed

lemma ppf_step_ok:
  assumes ok: "ppf_ok mtu num f q cur" and st: "ppf_step f e = Some (f', as, ps)"
  shows "\<exists>del q' cur'. ppf_ok mtu num f' q' cur' \<and> q @ map pp_frame (cur @ ps) = del @ q' @ map pp_frame cur' \<and>
    heads q @ pb_sends as = del @ heads q'"
proof (cases e)
  case (PPF_write p)
  with st obtain ok' where w: "length p \<le> mtu" "ppf_write p f = (f', ok')" "as = []" "ps = (if ok' then [p] else [])"
    using ok by (auto simp: ppf_ok_def split: if_splits prod.splits)
  from ppf_write_ok [OF ok w(1,2)] w(3,4) have "ppf_ok mtu num f' q (cur @ ps)" by blast
  with w(3) show ?thesis by (intro exI [of _ "[]"] exI [of _ q] exI [of _ "cur @ ps"]) simp
next
  case PPF_job
  with st obtain j where j: "ppf_jobs f = Some j" "ppf_job_step j f = Some (f', as)" "ps = []"
    by (auto split: option.splits)
  show ?thesis
  proof (cases j)
    case (Job_encoder_done n)
    with ppf_encoder_done_ok [OF ok] j show ?thesis by (intro exI [of _ "[]"] exI [of _ q] exI [of _ cur]) auto
  next
    case (Job_buffer_done n)
    with ppf_buffer_done_ok [OF ok] j obtain p where "cur = [p]" "ppf_ok mtu num f' (q @ [pp_frame p]) []"
      "pb_sends as = (if q = [] then [pp_frame p] else [])" by fastforce
    then show ?thesis using j(3)
      by (intro exI [of _ "[]"] exI [of _ "q @ [pp_frame p]"] exI [of _ "[]"]) (cases q; simp add: heads_def)
  qed (use ok j in \<open>intro exI [of _ "[]"] exI [of _ q] exI [of _ cur];
     auto simp: ppf_ok_def PacketProtoEncoder_output_handler_recv_def sizeof_packetproto_header_def ppf_mem_def
       BufferWriter_output_handler_recv_def BufferWriter_StartPacket_def\<close>)+
next
  case PPF_finished
  with ppf_finished_ok [OF ok] st obtain y q' where "q = y # q'" "ppf_ok mtu num f' q' cur" "pb_sends as = heads q'" "ps = []" by blast
  then show ?thesis by (intro exI [of _ "[y]"] exI [of _ q'] exI [of _ cur]) (simp add: heads_def)
qed

lemma ppf_run_ok:
  "ppf_run f es = Some (f', out, ps) \<Longrightarrow> ppf_ok mtu num f q cur \<Longrightarrow>
   \<exists>del q' cur'. ppf_ok mtu num f' q' cur' \<and> q @ map pp_frame (cur @ ps) = del @ q' @ map pp_frame cur' \<and> heads q @ out = del @ heads q'"
proof (induction es arbitrary: f q cur out ps)
  case Nil
  then show ?case by (intro exI [of _ "[]"] exI [of _ q] exI [of _ cur]) auto
next
  case (Cons e es)
  from Cons.prems(1) obtain f1 as ps1 out2 ps2 where st: "ppf_step f e = Some (f1, as, ps1)" "ppf_run f1 es = Some (f', out2, ps2)"
    "out = pb_sends as @ out2" "ps = ps1 @ ps2"
    by (auto split: option.splits)
  from ppf_step_ok [OF Cons.prems(2) st(1)] obtain d1 q1 c1 where 1: "ppf_ok mtu num f1 q1 c1"
    "q @ map pp_frame (cur @ ps1) = d1 @ q1 @ map pp_frame c1" "heads q @ pb_sends as = d1 @ heads q1" by blast
  from Cons.IH [OF st(2) 1(1)] obtain d2 q2 c2 where 2: "ppf_ok mtu num f' q2 c2"
    "q1 @ map pp_frame (c1 @ ps2) = d2 @ q2 @ map pp_frame c2" "heads q1 @ out2 = d2 @ heads q2" by blast
  have "q @ map pp_frame (cur @ ps) = (q @ map pp_frame (cur @ ps1)) @ map pp_frame ps2" using st(4) by simp
  also have "\<dots> = (d1 @ d2) @ q2 @ map pp_frame c2" unfolding 1(2) using 2(2) by simp
  finally have "q @ map pp_frame (cur @ ps) = (d1 @ d2) @ q2 @ map pp_frame c2" .
  moreover have "heads q @ out = (heads q @ pb_sends as) @ out2" using st(3) by simp
  then have "heads q @ out = (d1 @ d2) @ heads q2" unfolding 1(3) using 2(3) by simp
  ultimately show ?case using 2(1) by blast
qed

lemma ppf_run_mtu: "ppf_run f es = Some (f', out, ps) \<Longrightarrow> ppf_ok mtu num f q cur \<Longrightarrow> p \<in> set ps \<Longrightarrow> length p \<le> mtu"
proof (induction es arbitrary: f q cur out ps)
  case (Cons e es)
  from Cons.prems(1) obtain f1 as ps1 out2 ps2 where st: "ppf_step f e = Some (f1, as, ps1)" "ppf_run f1 es = Some (f', out2, ps2)"
    "ps = ps1 @ ps2"
    by (auto split: option.splits)
  have "p \<in> set ps1 \<Longrightarrow> length p \<le> mtu" using st(1) Cons.prems(2)
    by (cases e) (auto simp: ppf_ok_def Let_def split: if_splits prod.splits option.splits)
  with ppf_step_ok [OF Cons.prems(2) st(1)] Cons.IH [OF st(2)] Cons.prems(3) st(3) show ?case by auto
qed simp

lemma ppf_ok_Init:
  assumes "PacketProtoFlow_Init alloc mtu num = Some f" "0 < num"
    and mem: "\<And>n m. alloc n = Some m \<Longrightarrow> int (length m) = 4 * n \<and> 4 * n \<le> INT_MAX"
  shows "ppf_ok mtu num f [] []"
proof -
  obtain b as where b: "PacketBuffer_Init alloc (int (2 + mtu)) (int num) = Some (b, as)"
    "f = ppf_calls as \<lparr>ppf_ainput = BufferWriter_Init (int mtu), ppf_encoder = PacketProtoEncoder_Init mtu, ppf_buffer = b, ppf_jobs = None\<rparr>"
    using assms(1) by (auto simp: PacketProtoFlow_Init_def PacketProtoEncoder_Init_def PACKETPROTO_ENCLEN_def sizeof_packetproto_header_def
        Let_def split: option.splits)
  note i = pb_inv_Init(1) [OF b(1) assms(2) mem]
  have "as = [PB_Recv (pb_recv b)]"
    using b(1) by (auto simp: PacketBuffer_Init_def pb_schedule_recv_def Let_def split: if_splits option.splits)
  moreover obtain d where "pb_recv b = Some d" using pb_inv_recv [OF i] assms(2) by auto
  ultimately show ?thesis using i b(2)
    by (simp add: ppf_ok_def BufferWriter_Init_def BufferWriter_StartPacket_def PacketProtoEncoder_Init_def)
qed

lemma ppf_idle_writable:
  assumes "ppf_ok mtu num f q cur" "ppf_jobs f = None" "length q < num"
  shows "snd (ppf_write p f)"
  using assms pb_inv_recv [of "2 + mtu" num "ppf_buffer f" q] by (auto simp: ppf_ok_def ppf_write_def Let_def split: prod.splits)

lemma ppf_job_total: "ppf_ok mtu num f q cur \<Longrightarrow> ppf_jobs f \<noteq> None \<Longrightarrow> ppf_step f PPF_job \<noteq> None"
proof -
  assume ok: "ppf_ok mtu num f q cur" and "ppf_jobs f \<noteq> None"
  then obtain j where j: "ppf_jobs f = Some j" by blast
  have "ppf_job_step j f \<noteq> None"
  proof (cases j)
    case (Job_encoder_done n)
    with ppf_encoder_done_ok [OF ok] j show ?thesis by auto
  qed (auto simp: PacketProtoEncoder_output_handler_recv_def case_prod_beta Let_def)
  with j show ?thesis by (auto split: option.splits)
qed

text \<open>A \<^verbatim>\<open>PacketProtoFlow\<close> frames and queues packets: after any interleaving of writes, interface jobs and
  completions of the output, the packets given to the output are the frames of the accepted packets in
  order (the rest of them are stored or on their way through the encoder); no interface job ever fails; and
  when no job is left to run and fewer than \<open>num\<close> packets are stored, the next write is accepted.\<close>

theorem PacketProtoFlow_frames:
  assumes "PacketProtoFlow_Init alloc mtu num = Some f0" "0 < num"
    and "\<And>n m. alloc n = Some m \<Longrightarrow> int (length m) = 4 * n \<and> 4 * n \<le> INT_MAX"
    and "ppf_run f0 es = Some (f, out, ps)"
  shows "\<exists>finished stored coming. map pp_frame ps = finished @ stored @ coming \<and>
    out = finished @ take 1 stored \<and> (pb_send (ppf_buffer f) \<longleftrightarrow> stored \<noteq> []) \<and>
    (ppf_jobs f \<noteq> None \<longrightarrow> ppf_step f PPF_job \<noteq> None) \<and>
    (ppf_jobs f = None \<longrightarrow> coming = [] \<and> (length stored < num \<longrightarrow> snd (ppf_write p f)))"
proof -
  from ppf_run_ok [OF assms(4) ppf_ok_Init [OF assms(1,2), OF assms(3)]]
  obtain del q cur where r: "ppf_ok mtu num f q cur" "map pp_frame ps = del @ q @ map pp_frame cur" "out = del @ heads q"
    by (auto simp: heads_def)
  have "heads q = take 1 q" by (cases q) (simp_all add: heads_def)
  moreover have "pb_send (ppf_buffer f) \<longleftrightarrow> q \<noteq> []" "ppf_jobs f = None \<longrightarrow> cur = []" using r(1) by (auto simp: ppf_ok_def pb_inv_def)
  ultimately show ?thesis
    using r ppf_idle_writable [OF r(1)] ppf_job_total [OF r(1)] by (intro exI [of _ del] exI [of _ q] exI [of _ "map pp_frame cur"]) auto
qed

definition ex_ppf :: PacketProtoFlow where
  "ex_ppf = the (PacketProtoFlow_Init ex_pb_alloc 3 2)"

definition ex_ppf_events :: "ppf_event list" where
  "ex_ppf_events = [PPF_job, PPF_job, PPF_write [7, 8], PPF_write [1], PPF_job, PPF_job]"

theorem PacketProtoFlow_frames_witness:
  "\<exists>f out ps. ppf_run ex_ppf ex_ppf_events = Some (f, out, ps) \<and> out = [[2, 0, 7, 8]]"
proof -
  have "PacketProtoFlow_Init ex_pb_alloc 3 2 \<noteq> None" by code_simp
  then have i: "PacketProtoFlow_Init ex_pb_alloc 3 2 = Some ex_ppf" by (auto simp: ex_ppf_def)
  have al: "int (length m) = 4 * n \<and> 4 * n \<le> INT_MAX" if "ex_pb_alloc n = Some m" for n m
    using that by (auto simp: ex_pb_alloc_def split: if_splits)
  have "map_option (\<lambda>(f, out, ps). (ps, pb_send (ppf_buffer f))) (ppf_run ex_ppf ex_ppf_events) = Some ([[7, 8]], True)" by code_simp
  then obtain f out where r: "ppf_run ex_ppf ex_ppf_events = Some (f, out, [[7, 8]])" "pb_send (ppf_buffer f)" by auto
  from PacketProtoFlow_frames [where p = "[1]", OF i _ al r(1)] r(2) obtain a b c where "map pp_frame [[7, 8]] = a @ b @ c" "out = a @ take 1 b" "b \<noteq> []"
    by auto
  then have "out = [pp_frame [7, 8]]" by (cases a; cases b) auto
  with r(1) show ?thesis by (auto simp: pp_frame_def mem_bytes16_def)
qed

end
