(* ===== verification/UdpGwClient.thy ===== *)
theory UdpGwClient
  imports FairQueue FlowElements SocksClient
begin

text \<open>
  \<^verbatim>\<open>udpgw_client/UdpGwClient.c\<close> and \<^verbatim>\<open>protocol/udpgw_proto.h\<close>: the client of the UDP gateway.  Datagrams of
  many local sockets share one stream; each pair of local and remote address gets a connection with a
  16-bit identifier.  Connections live in a heap and are linked into two search trees (by address pair
  and by identifier, seen as their in-order sequences) and a list in order of use, from which the
  least recently used one is taken over when the table is full.  Every connection sends through a
  \<^verbatim>\<open>PacketProtoFlow\<close>.  Shown: the consistency of the tables under all operations, that the search for an
  unused identifier ends, that the table is a least-recently-used cache, the routing of
  replies and that the first packet of a connection is never lost.
\<close>

unbundle bit_operations_syntax

subsection \<open>Protocol\<close>

abbreviation (input) "UDPGW_CLIENT_FLAG_KEEPALIVE \<equiv> (1 :: byte)"
abbreviation (input) "UDPGW_CLIENT_FLAG_REBIND \<equiv> (2 :: byte)"
abbreviation (input) "UDPGW_CLIENT_FLAG_DNS \<equiv> (4 :: byte)"
abbreviation (input) "UDPGW_CLIENT_FLAG_IPV6 \<equiv> (8 :: byte)"
abbreviation (input) "sizeof_socks_udp_header \<equiv> (4 :: nat)"
abbreviation (input) "sizeof_udpgw_header \<equiv> (3 :: nat)"
abbreviation (input) "sizeof_udpgw_addr_ipv4 \<equiv> (6 :: nat)"
abbreviation (input) "sizeof_udpgw_addr_ipv6 \<equiv> (18 :: nat)"

definition bsize_fromint :: "nat \<Rightarrow> int \<Rightarrow> bsize_t" where
  "bsize_fromint smax v = \<lparr>is_overflow = (v < 0 \<or> v > int smax), bvalue = nat (v mod (int smax + 1))\<rparr>"

definition udpgw_compute_mtu :: "nat \<Rightarrow> int \<Rightarrow> int" where
  "udpgw_compute_mtu smax dgram_mtu =
     (let bs = bsize_add smax (bsize_fromsize sizeof_socks_udp_header)
                 (bsize_add smax (bsize_max (bsize_fromsize sizeof_udpgw_addr_ipv4) (bsize_fromsize sizeof_udpgw_addr_ipv6))
                   (bsize_fromint smax dgram_mtu))
      in case bsize_toint bs of None \<Rightarrow> -1 | Some s \<Rightarrow> s)"

definition udpgw_header_bytes :: "byte \<Rightarrow> u16 \<Rightarrow> byte list" where
  "udpgw_header_bytes flags conid = ltoh8 flags # mem_bytes16 (ltoh16 conid)"

fun udpgw_addr_bytes :: "BAddr \<Rightarrow> byte list" where
  "udpgw_addr_bytes (BADDR_IPV4 ip port) = mem_bytes32 ip @ mem_bytes16 port"
| "udpgw_addr_bytes (BADDR_IPV6 ip port) = take 16 ip @ mem_bytes16 port"
| "udpgw_addr_bytes _ = []"

subsection \<open>State\<close>

record UdpGwClient_conaddr =
  ca_local :: BAddr
  ca_remote :: BAddr

record UdpGwClient_connection =
  uc_conaddr :: UdpGwClient_conaddr
  uc_first_flags :: byte
  uc_first_data :: "byte list"
  uc_first_job :: bool
  uc_conid :: u16
  uc_ppflow :: PacketProtoFlow

text \<open>\<open>ug_con\<close> is the heap of connections.\<close>

record UdpGwClient =
  ug_udp_mtu :: int
  ug_max_connections :: int
  ug_send_buffer_size :: int
  ug_udpgw_mtu :: int
  ug_pp_mtu :: int
  ug_tree_by_conaddr :: "nat list"
  ug_tree_by_conid :: "nat list"
  ug_connections_list :: "nat list"
  ug_num_connections :: int
  ug_next_conid :: int
  ug_keepalive_sending :: bool
  ug_have_server :: bool
  ug_con :: "nat \<Rightarrow> UdpGwClient_connection option"

text \<open>The calls to the user, the send queue and the server's stream; \<open>UG_write\<close> is a packet accepted by a
  connection's buffer, \<open>UG_drop\<close> one for which there was no space.\<close>

datatype ug_act =
    UG_received BAddr BAddr "byte list" | UG_servererror | UG_write nat "byte list" | UG_drop nat
  | UG_flow_init nat | UG_flow_free nat | UG_keepalive "byte list" | UG_connect | UG_disconnect | UG_recv_done

definition conaddr_of :: "UdpGwClient \<Rightarrow> nat \<Rightarrow> UdpGwClient_conaddr" where
  "conaddr_of u p = uc_conaddr (the (ug_con u p))"

definition conid_of :: "UdpGwClient \<Rightarrow> nat \<Rightarrow> u16" where
  "conid_of u p = uc_conid (the (ug_con u p))"

definition uint16_comparator :: "u16 \<Rightarrow> u16 \<Rightarrow> int" where
  "uint16_comparator v1 v2 = B_COMPARE v1 v2"

definition UdpGwClient_conaddr_comparator :: "UdpGwClient_conaddr \<Rightarrow> UdpGwClient_conaddr \<Rightarrow> int" where
  "UdpGwClient_conaddr_comparator v1 v2 =
     (let r = BAddr_CompareOrder (ca_remote v1) (ca_remote v2) in
      if r \<noteq> 0 then r else BAddr_CompareOrder (ca_local v1) (ca_local v2))"

subsection \<open>Operations\<close>

definition find_connection_by_conaddr :: "UdpGwClient \<Rightarrow> UdpGwClient_conaddr \<Rightarrow> nat option" where
  "find_connection_by_conaddr u conaddr = Tree_LookupExact UdpGwClient_conaddr_comparator (conaddr_of u) conaddr (ug_tree_by_conaddr u)"

definition find_connection_by_conid :: "UdpGwClient \<Rightarrow> u16 \<Rightarrow> nat option" where
  "find_connection_by_conid u conid = Tree_LookupExact uint16_comparator (conid_of u) conid (ug_tree_by_conid u)"

text \<open>\<open>None\<close>: the search does not end.\<close>

partial_function (option) find_unused_conid :: "UdpGwClient \<Rightarrow> (u16 \<times> UdpGwClient) option" where
  "find_unused_conid u =
     (if find_connection_by_conid u (word_of_int (ug_next_conid u)) = None then Some (word_of_int (ug_next_conid u), u)
      else find_unused_conid (u\<lparr>ug_next_conid := (if ug_next_conid u = ug_max_connections u - 1 then 0 else ug_next_conid u + 1)\<rparr>))"

declare find_unused_conid.simps [code]

definition conaddr_insert :: "nat \<Rightarrow> UdpGwClient \<Rightarrow> UdpGwClient" where
  "conaddr_insert p u = u\<lparr>ug_tree_by_conaddr := Tree_Insert (keyed UdpGwClient_conaddr_comparator (conaddr_of u)) p (ug_tree_by_conaddr u)\<rparr>"

definition conid_insert :: "nat \<Rightarrow> UdpGwClient \<Rightarrow> UdpGwClient" where
  "conid_insert p u = u\<lparr>ug_tree_by_conid := Tree_Insert (keyed uint16_comparator (conid_of u)) p (ug_tree_by_conid u)\<rparr>"

text \<open>\<open>mal\<close> is the result of \<^verbatim>\<open>malloc\<close>, \<open>alloc\<close> that of the allocation of the packet buffer.\<close>

definition connection_init ::
  "nat option \<Rightarrow> (int \<Rightarrow> byte list option) \<Rightarrow> UdpGwClient \<Rightarrow> UdpGwClient_conaddr \<Rightarrow> byte \<Rightarrow> byte list \<Rightarrow> (UdpGwClient \<times> ug_act list) option" where
  "connection_init mal alloc u conaddr flags data =
     (case mal of None \<Rightarrow> Some (u, [])
      | Some p \<Rightarrow>
        (case find_unused_conid u of None \<Rightarrow> None
         | Some (conid, u) \<Rightarrow>
           (case PacketProtoFlow_Init alloc (nat (ug_udpgw_mtu u)) (nat (ug_send_buffer_size u)) of
              None \<Rightarrow> Some (u, [UG_flow_init p, UG_flow_free p])
            | Some ppflow \<Rightarrow>
              (let con = \<lparr>uc_conaddr = conaddr, uc_first_flags = flags, uc_first_data = data, uc_first_job = True,
                           uc_conid = conid, uc_ppflow = ppflow\<rparr>;
                   u = u\<lparr>ug_con := (ug_con u)(p \<mapsto> con)\<rparr>;
                   u = conaddr_insert p u;
                   u = conid_insert p u;
                   u = u\<lparr>ug_connections_list := ug_connections_list u @ [p]\<rparr>;
                   u = u\<lparr>ug_num_connections := ug_num_connections u + 1\<rparr>
               in Some (u, [UG_flow_init p])))))"

definition connection_free :: "UdpGwClient \<Rightarrow> nat \<Rightarrow> UdpGwClient \<times> ug_act list" where
  "connection_free u p =
     (let u = u\<lparr>ug_num_connections := ug_num_connections u - 1\<rparr>;
          u = u\<lparr>ug_connections_list := remove1 p (ug_connections_list u)\<rparr>;
          u = u\<lparr>ug_tree_by_conid := Tree_Remove p (ug_tree_by_conid u)\<rparr>;
          u = u\<lparr>ug_tree_by_conaddr := Tree_Remove p (ug_tree_by_conaddr u)\<rparr>;
          u = u\<lparr>ug_con := (ug_con u)(p := None)\<rparr>
      in (u, [UG_flow_free p]))"

definition connection_packet :: "UdpGwClient_connection \<Rightarrow> byte \<Rightarrow> byte list \<Rightarrow> byte list" where
  "connection_packet con flags data =
     (let flags = (if BAddr_type (ca_remote (uc_conaddr con)) = 2 then flags OR UDPGW_CLIENT_FLAG_IPV6 else flags)
      in udpgw_header_bytes flags (uc_conid con) @ udpgw_addr_bytes (ca_remote (uc_conaddr con)) @ data)"

definition connection_send :: "UdpGwClient \<Rightarrow> nat \<Rightarrow> byte \<Rightarrow> byte list \<Rightarrow> UdpGwClient \<times> ug_act list" where
  "connection_send u p flags data =
     (case ug_con u p of None \<Rightarrow> (u, [])
      | Some con \<Rightarrow>
        (let packet = connection_packet con flags data;
             (f, ok) = ppf_write packet (uc_ppflow con)
         in (u\<lparr>ug_con := (ug_con u)(p \<mapsto> con\<lparr>uc_ppflow := f\<rparr>)\<rparr>, [if ok then UG_write p packet else UG_drop p])))"

definition connection_first_job_handler :: "UdpGwClient \<Rightarrow> nat \<Rightarrow> UdpGwClient \<times> ug_act list" where
  "connection_first_job_handler u p =
     (case ug_con u p of None \<Rightarrow> (u, [])
      | Some con \<Rightarrow> connection_send u p (UDPGW_CLIENT_FLAG_REBIND OR uc_first_flags con) (uc_first_data con))"

text \<open>\<open>None\<close>: there is no connection to reuse.\<close>

definition reuse_connection :: "UdpGwClient \<Rightarrow> UdpGwClient_conaddr \<Rightarrow> (UdpGwClient \<times> nat) option" where
  "reuse_connection u conaddr =
     (case ug_connections_list u of [] \<Rightarrow> None
      | p # _ \<Rightarrow> (case ug_con u p of None \<Rightarrow> None
        | Some con \<Rightarrow>
          (let u = u\<lparr>ug_tree_by_conaddr := Tree_Remove p (ug_tree_by_conaddr u)\<rparr>;
               u = u\<lparr>ug_con := (ug_con u)(p \<mapsto> con\<lparr>uc_conaddr := conaddr\<rparr>)\<rparr>;
               u = conaddr_insert p u
           in Some (u, p))))"

definition move_to_end :: "nat \<Rightarrow> UdpGwClient \<Rightarrow> UdpGwClient" where
  "move_to_end p u = u\<lparr>ug_connections_list := remove1 p (ug_connections_list u) @ [p]\<rparr>"

definition UdpGwClient_SubmitPacket ::
  "nat option \<Rightarrow> (int \<Rightarrow> byte list option) \<Rightarrow> UdpGwClient \<Rightarrow> BAddr \<Rightarrow> BAddr \<Rightarrow> bool \<Rightarrow> byte list \<Rightarrow> (UdpGwClient \<times> ug_act list) option" where
  "UdpGwClient_SubmitPacket mal alloc u local_addr remote_addr is_dns data =
     (let conaddr = \<lparr>ca_local = local_addr, ca_remote = remote_addr\<rparr>;
          con = find_connection_by_conaddr u conaddr;
          flags = (if is_dns then 0 OR UDPGW_CLIENT_FLAG_DNS else 0)
      in case (if con = None \<and> ug_num_connections u = ug_max_connections u
               then map_option (\<lambda>(u, p). (u, Some p, flags OR UDPGW_CLIENT_FLAG_REBIND)) (reuse_connection u conaddr)
               else Some (u, con, flags)) of
           None \<Rightarrow> None
         | Some (u, None, flags) \<Rightarrow> connection_init mal alloc u conaddr flags data
         | Some (u, Some p, flags) \<Rightarrow> Some (connection_send (move_to_end p u) p flags data))"

definition recv_interface_handler_send :: "UdpGwClient \<Rightarrow> byte list \<Rightarrow> UdpGwClient \<times> ug_act list" where
  "recv_interface_handler_send u data =
     (if length data < sizeof_udpgw_header then (u, [UG_recv_done])
      else
        (let flags = ltoh8 (data ! 0);
             conid = ltoh16 (badvpn_read_le16 (slice 1 2 data));
             data = drop sizeof_udpgw_header data
         in case (if flags AND UDPGW_CLIENT_FLAG_IPV6 \<noteq> 0
                  then (if length data < sizeof_udpgw_addr_ipv6 then None
                        else Some (BAddr_InitIPv6 (slice 0 16 data) (badvpn_read_le16 (slice 16 2 data)), drop sizeof_udpgw_addr_ipv6 data))
                  else (if length data < sizeof_udpgw_addr_ipv4 then None
                        else Some (BAddr_InitIPv4 (badvpn_read_le32 (slice 0 4 data)) (badvpn_read_le16 (slice 4 2 data)), drop sizeof_udpgw_addr_ipv4 data))) of
              None \<Rightarrow> (u, [UG_recv_done])
            | Some (remote_addr, data) \<Rightarrow>
                (if int (length data) > ug_udp_mtu u then (u, [UG_recv_done])
                 else (case find_connection_by_conid u conid of
                     None \<Rightarrow> (u, [UG_recv_done])
                   | Some p \<Rightarrow>
                       (if BAddr_CompareOrder (ca_remote (conaddr_of u p)) remote_addr \<noteq> 0 then (u, [UG_recv_done])
                        else (move_to_end p u,
                              [UG_recv_done, UG_received (ca_local (conaddr_of u p)) (ca_remote (conaddr_of u p)) data]))))))"

definition keepalive_packet :: "byte list" where
  "keepalive_packet = mem_bytes16 (of_nat sizeof_udpgw_header) @ (UDPGW_CLIENT_FLAG_KEEPALIVE # mem_bytes16 0)"

definition send_monitor_handler :: "UdpGwClient \<Rightarrow> UdpGwClient \<times> ug_act list" where
  "send_monitor_handler u =
     (if ug_keepalive_sending u then (u, []) else (u\<lparr>ug_keepalive_sending := True\<rparr>, [UG_keepalive keepalive_packet]))"

definition keepalive_if_handler_done :: "UdpGwClient \<Rightarrow> UdpGwClient" where
  "keepalive_if_handler_done u = u\<lparr>ug_keepalive_sending := False\<rparr>"

definition decoder_handler_error :: "UdpGwClient \<Rightarrow> UdpGwClient \<times> ug_act list" where
  "decoder_handler_error u = (u, [UG_servererror])"

definition UdpGwClient_ConnectServer :: "bool \<Rightarrow> UdpGwClient \<Rightarrow> UdpGwClient \<times> bool \<times> ug_act list" where
  "UdpGwClient_ConnectServer decoder_ok u = (if \<not> decoder_ok then (u, False, []) else (u\<lparr>ug_have_server := True\<rparr>, True, [UG_connect]))"

definition UdpGwClient_free_server :: "UdpGwClient \<Rightarrow> ug_act list" where
  "UdpGwClient_free_server u = [UG_disconnect]"

definition UdpGwClient_DisconnectServer :: "UdpGwClient \<Rightarrow> UdpGwClient \<times> ug_act list" where
  "UdpGwClient_DisconnectServer u = (u\<lparr>ug_have_server := False\<rparr>, UdpGwClient_free_server u)"

definition UdpGwClient_Init :: "nat \<Rightarrow> bool \<Rightarrow> int \<Rightarrow> int \<Rightarrow> int \<Rightarrow> UdpGwClient option" where
  "UdpGwClient_Init smax queue_ok udp_mtu max_connections send_buffer_size =
     (let udpgw_mtu = udpgw_compute_mtu smax udp_mtu in
      if \<not> queue_ok then None
      else Some \<lparr>ug_udp_mtu = udp_mtu,
        ug_max_connections = (if max_connections > UINT16_MAX + 1 then UINT16_MAX + 1 else max_connections),
        ug_send_buffer_size = send_buffer_size, ug_udpgw_mtu = udpgw_mtu, ug_pp_mtu = udpgw_mtu + int sizeof_packetproto_header,
        ug_tree_by_conaddr = [], ug_tree_by_conid = [], ug_connections_list = [], ug_num_connections = 0, ug_next_conid = 0,
        ug_keepalive_sending = False, ug_have_server = False, ug_con = Map.empty\<rparr>)"

text \<open>The loop of \<^verbatim>\<open>UdpGwClient_Free\<close> over the connections, bounded by their number.\<close>

fun free_connections_loop :: "nat \<Rightarrow> UdpGwClient \<Rightarrow> UdpGwClient \<times> ug_act list" where
  "free_connections_loop 0 u = (u, [])"
| "free_connections_loop (Suc n) u =
     (case ug_connections_list u of [] \<Rightarrow> (u, [])
      | p # _ \<Rightarrow> (let (u, as) = connection_free u p; (u, as') = free_connections_loop n u in (u, as @ as')))"

definition UdpGwClient_Free :: "UdpGwClient \<Rightarrow> UdpGwClient \<times> ug_act list" where
  "UdpGwClient_Free u =
     (let (u, as) = free_connections_loop (length (ug_connections_list u)) u
      in (u, as @ (if ug_have_server u then UdpGwClient_free_server u else [])))"

subsection \<open>Events\<close>

text \<open>What can happen to a client: packets of the user and of the server, an interface job of a connection (its
  first packet is sent by a job set before those of its flow, so it runs after them: the most
  recently set job runs first), the queue finishing a connection's packet, the keep-alive and the server.\<close>

datatype ug_event =
    UG_Submit "nat option" "int \<Rightarrow> byte list option" BAddr BAddr bool "byte list"
  | UG_Recv "byte list" | UG_Job nat | UG_Finished nat | UG_Monitor | UG_KeepaliveDone | UG_Error | UG_Connect bool | UG_Disconnect

definition flow_event :: "ppf_event \<Rightarrow> nat \<Rightarrow> UdpGwClient \<Rightarrow> UdpGwClient option" where
  "flow_event e p u =
     (case ug_con u p of None \<Rightarrow> None
      | Some con \<Rightarrow> (case ppf_step (uc_ppflow con) e of None \<Rightarrow> None
        | Some (f, as, ps) \<Rightarrow> Some (u\<lparr>ug_con := (ug_con u)(p \<mapsto> con\<lparr>uc_ppflow := f\<rparr>)\<rparr>)))"

definition first_job_done :: "nat \<Rightarrow> UdpGwClient \<Rightarrow> UdpGwClient" where
  "first_job_done p u = u\<lparr>ug_con := (ug_con u)(p := map_option (uc_first_job_update (\<lambda>_. False)) (ug_con u p))\<rparr>"

fun ug_step :: "UdpGwClient \<Rightarrow> ug_event \<Rightarrow> (UdpGwClient \<times> ug_act list) option" where
  "ug_step u (UG_Submit mal alloc l r is_dns data) = UdpGwClient_SubmitPacket mal alloc u l r is_dns data"
| "ug_step u (UG_Recv data) = Some (recv_interface_handler_send u data)"
| "ug_step u (UG_Job p) =
     (case ug_con u p of None \<Rightarrow> None
      | Some con \<Rightarrow> if ppf_jobs (uc_ppflow con) \<noteq> None then map_option (\<lambda>u. (u, [])) (flow_event PPF_job p u)
          else if uc_first_job con then Some (connection_first_job_handler (first_job_done p u) p) else None)"
| "ug_step u (UG_Finished p) = map_option (\<lambda>u. (u, [])) (flow_event PPF_finished p u)"
| "ug_step u UG_Monitor = Some (send_monitor_handler u)"
| "ug_step u UG_KeepaliveDone = Some (keepalive_if_handler_done u, [])"
| "ug_step u UG_Error = Some (decoder_handler_error u)"
| "ug_step u (UG_Connect ok) = (case UdpGwClient_ConnectServer ok u of (u, _, as) \<Rightarrow> Some (u, as))"
| "ug_step u UG_Disconnect = Some (UdpGwClient_DisconnectServer u)"

definition BAddr_ip :: "BAddr \<Rightarrow> bool" where
  "BAddr_ip a = (case a of BADDR_IPV4 _ _ \<Rightarrow> True | BADDR_IPV6 ip _ \<Rightarrow> length ip = 16 | _ \<Rightarrow> False)"

text \<open>The caller's obligations (the assertions of the code) and that \<^verbatim>\<open>malloc\<close> returns unused memory.\<close>

fun ug_enabled :: "UdpGwClient \<Rightarrow> ug_event \<Rightarrow> bool" where
  "ug_enabled u (UG_Submit mal alloc l r is_dns data) =
     (BAddr_ip l \<and> BAddr_ip r \<and> int (length data) \<le> ug_udp_mtu u \<and> (case mal of None \<Rightarrow> True | Some p \<Rightarrow> ug_con u p = None))"
| "ug_enabled u (UG_Recv data) = (ug_have_server u \<and> int (length data) \<le> ug_udpgw_mtu u)"
| "ug_enabled u (UG_Job p) =
     (case ug_con u p of None \<Rightarrow> False | Some con \<Rightarrow> ppf_jobs (uc_ppflow con) \<noteq> None \<or> uc_first_job con)"
| "ug_enabled u (UG_Finished p) = (case ug_con u p of None \<Rightarrow> False | Some con \<Rightarrow> pb_send (ppf_buffer (uc_ppflow con)))"
| "ug_enabled u UG_KeepaliveDone = ug_keepalive_sending u"
| "ug_enabled u UG_Error = ug_have_server u"
| "ug_enabled u (UG_Connect ok) = (\<not> ug_have_server u)"
| "ug_enabled u UG_Disconnect = ug_have_server u"
| "ug_enabled u UG_Monitor = True"

fun ug_run :: "UdpGwClient \<Rightarrow> ug_event list \<Rightarrow> (UdpGwClient \<times> ug_act list) option" where
  "ug_run u [] = Some (u, [])"
| "ug_run u (e # es) =
     (if ug_enabled u e
      then (case ug_step u e of None \<Rightarrow> None
            | Some (u', as) \<Rightarrow> (case ug_run u' es of None \<Rightarrow> None | Some (u'', as') \<Rightarrow> Some (u'', as @ as')))
      else None)"

definition alloc_ok :: "(int \<Rightarrow> byte list option) \<Rightarrow> bool" where
  "alloc_ok alloc \<longleftrightarrow> (\<forall>n m. alloc n = Some m \<longrightarrow> int (length m) = 4 * n \<and> 4 * n \<le> INT_MAX)"

fun ug_env_ok :: "ug_event \<Rightarrow> bool" where
  "ug_env_ok (UG_Submit mal alloc l r is_dns data) = alloc_ok alloc"
| "ug_env_ok _ = True"

subsection \<open>Orders\<close>

definition conaddr_ip :: "UdpGwClient_conaddr \<Rightarrow> bool" where
  "conaddr_ip a \<longleftrightarrow> BAddr_ip (ca_local a) \<and> BAddr_ip (ca_remote a)"

lemma BAddr_ip_ok: "BAddr_ip a \<Longrightarrow> BAddr_ok a"
  by (cases a) (simp_all add: BAddr_ip_def)

interpretation conaddr: comparator conaddr_ip UdpGwClient_conaddr_comparator
proof
  fix x y z :: UdpGwClient_conaddr
  assume "conaddr_ip x" "conaddr_ip y"
  then have ok: "BAddr_ok (ca_local x)" "BAddr_ok (ca_remote x)" "BAddr_ok (ca_local y)" "BAddr_ok (ca_remote y)"
    by (auto simp: conaddr_ip_def BAddr_ip_ok)
  note c = UdpGwClient_conaddr_comparator_def Let_def
  show "UdpGwClient_conaddr_comparator x y \<in> {-1, 0, 1}"
    using baddr.cmp_range [OF ok(2,4)] baddr.cmp_range [OF ok(1,3)] by (auto simp: c)
  show "UdpGwClient_conaddr_comparator y x = - UdpGwClient_conaddr_comparator x y"
    using baddr.cmp_antisym [OF ok(2,4)] baddr.cmp_antisym [OF ok(1,3)] by (simp add: c)
  show "UdpGwClient_conaddr_comparator x y = 0 \<longleftrightarrow> x = y"
    using baddr.cmp_eq [OF ok(2,4)] baddr.cmp_eq [OF ok(1,3)] by (cases x; cases y) (simp add: c)
  assume "conaddr_ip z" and less: "UdpGwClient_conaddr_comparator x y < 0" "UdpGwClient_conaddr_comparator y z < 0"
  then have okz: "BAddr_ok (ca_local z)" "BAddr_ok (ca_remote z)" by (auto simp: conaddr_ip_def BAddr_ip_ok)
  note e = baddr.cmp_eq [OF ok(2,4)] baddr.cmp_eq [OF ok(4) okz(2)] baddr.cmp_eq [OF ok(2) okz(2)]
  note t = baddr.cmp_trans [OF ok(2,4) okz(2)] baddr.cmp_trans [OF ok(1,3) okz(1)]
  show "UdpGwClient_conaddr_comparator x z < 0"
  proof (cases "ca_remote x = ca_remote y \<or> ca_remote y = ca_remote z")
    case True
    with less e t(2) show ?thesis by (cases "ca_remote x = ca_remote y"; cases "ca_remote y = ca_remote z") (auto simp: c)
  next
    case False
    with less e t(1) show ?thesis by (auto simp: c)
  qed
qed

interpretation conid: comparator "\<lambda>_. True" uint16_comparator
  by unfold_locales (auto simp: uint16_comparator_def B_COMPARE_def split: if_splits)

subsection \<open>Consistency of the tables\<close>

definition ug_con_ok :: "UdpGwClient \<Rightarrow> UdpGwClient_connection \<Rightarrow> bool" where
  "ug_con_ok u con \<longleftrightarrow> conaddr_ip (uc_conaddr con) \<and> int (unat (uc_conid con)) < ug_max_connections u \<and>
     int (length (uc_first_data con)) \<le> ug_udp_mtu u \<and>
     (\<exists>q cur. ppf_ok (nat (ug_udpgw_mtu u)) (nat (ug_send_buffer_size u)) (uc_ppflow con) q cur)"

definition ug_params_ok :: "UdpGwClient \<Rightarrow> bool" where
  "ug_params_ok u \<longleftrightarrow> 0 < ug_max_connections u \<and> ug_max_connections u \<le> 65536 \<and> 0 \<le> ug_next_conid u \<and>
     ug_next_conid u < ug_max_connections u \<and> 0 < ug_send_buffer_size u \<and> 0 \<le> ug_udp_mtu u \<and> ug_udpgw_mtu u = ug_udp_mtu u + 22 \<and>
     ug_udpgw_mtu u \<le> int PACKETPROTO_MAXPAYLOAD"

definition ug_tables_ok :: "UdpGwClient \<Rightarrow> bool" where
  "ug_tables_ok u \<longleftrightarrow> distinct (ug_connections_list u) \<and> set (ug_connections_list u) = dom (ug_con u) \<and>
     ug_num_connections u = int (length (ug_connections_list u)) \<and> ug_num_connections u \<le> ug_max_connections u \<and>
     set (ug_tree_by_conaddr u) = dom (ug_con u) \<and> Tree_sorted (keyed UdpGwClient_conaddr_comparator (conaddr_of u)) (ug_tree_by_conaddr u) \<and>
     set (ug_tree_by_conid u) = dom (ug_con u) \<and> Tree_sorted (keyed uint16_comparator (conid_of u)) (ug_tree_by_conid u)"

definition ug_inv :: "UdpGwClient \<Rightarrow> bool" where
  "ug_inv u \<longleftrightarrow> ug_params_ok u \<and> ug_tables_ok u \<and> (\<forall>p con. ug_con u p = Some con \<longrightarrow> ug_con_ok u con)"

lemma ug_invD:
  assumes "ug_inv u"
  shows "ug_params_ok u" "ug_tables_ok u" "ug_con u p = Some con \<Longrightarrow> ug_con_ok u con"
    and "\<forall>p \<in> dom (ug_con u). conaddr_ip (conaddr_of u p)"
  using assms by (auto simp: ug_inv_def conaddr_of_def ug_con_ok_def)

lemma find_connection_by_conaddr_iff:
  assumes "ug_inv u" "conaddr_ip a"
  shows "find_connection_by_conaddr u a = Some p \<longleftrightarrow> p \<in> dom (ug_con u) \<and> conaddr_of u p = a"
    and "find_connection_by_conaddr u a = None \<longleftrightarrow> (\<forall>p \<in> dom (ug_con u). conaddr_of u p \<noteq> a)"
proof -
  note t = ug_invD(2) [OF assms(1), unfolded ug_tables_ok_def] and c = ug_invD(4) [OF assms(1)]
  let ?t = "ug_tree_by_conaddr u"
  have c': "\<forall>p \<in> set ?t. conaddr_ip (conaddr_of u p)" using t c by simp
  show "find_connection_by_conaddr u a = Some p \<longleftrightarrow> p \<in> dom (ug_con u) \<and> conaddr_of u p = a"
    using conaddr.Tree_LookupExact_Some [OF c' assms(2)] conaddr.keyed_lookup [OF c'] t
    unfolding find_connection_by_conaddr_def by blast
  show "find_connection_by_conaddr u a = None \<longleftrightarrow> (\<forall>p \<in> dom (ug_con u). conaddr_of u p \<noteq> a)"
    using conaddr.Tree_LookupExact_None [OF c' assms(2)] t unfolding find_connection_by_conaddr_def by simp
qed

lemma find_connection_by_conid_iff:
  assumes "ug_tables_ok u"
  shows "find_connection_by_conid u c = Some p \<longleftrightarrow> p \<in> dom (ug_con u) \<and> conid_of u p = c"
    and "find_connection_by_conid u c = None \<longleftrightarrow> (\<forall>p \<in> dom (ug_con u). conid_of u p \<noteq> c)"
proof -
  note t = assms [unfolded ug_tables_ok_def]
  let ?t = "ug_tree_by_conid u"
  show "find_connection_by_conid u c = Some p \<longleftrightarrow> p \<in> dom (ug_con u) \<and> conid_of u p = c"
    using conid.Tree_LookupExact_Some [of ?t "conid_of u" c p] conid.keyed_lookup [of ?t "conid_of u" p c] t
    unfolding find_connection_by_conid_def by auto
  show "find_connection_by_conid u c = None \<longleftrightarrow> (\<forall>p \<in> dom (ug_con u). conid_of u p \<noteq> c)"
    using conid.Tree_LookupExact_None [of ?t "conid_of u" c] t unfolding find_connection_by_conid_def by simp
qed

lemma ug_tables_inj:
  assumes "ug_inv u"
  shows "inj_on (conid_of u) (dom (ug_con u))" "inj_on (conaddr_of u) (dom (ug_con u))"
  using conid.keyed_sorted_inj(1) [of "ug_tree_by_conid u" "conid_of u"] conaddr.keyed_sorted_inj(1) [of "ug_tree_by_conaddr u" "conaddr_of u"]
    ug_invD(2,4) [OF assms] by (auto simp: ug_tables_ok_def)

subsection \<open>The search for an unused identifier\<close>

lemma conid_word: "0 \<le> i \<Longrightarrow> i < 65536 \<Longrightarrow> int (unat (word_of_int i :: u16)) = i"
  by (simp add: unsigned_of_int take_bit_eq_mod)

lemma unused_conid_exists:
  assumes "ug_inv u" "ug_num_connections u < ug_max_connections u"
  shows "\<exists>i. 0 \<le> i \<and> i < ug_max_connections u \<and> find_connection_by_conid u (word_of_int i) = None"
proof -
  let ?used = "(\<lambda>p. int (unat (conid_of u p))) ` dom (ug_con u)"
  note t = ug_invD(2) [OF assms(1)] and par = ug_invD(1) [OF assms(1), unfolded ug_params_ok_def]
  have dom: "dom (ug_con u) = set (ug_connections_list u)" using t by (simp add: ug_tables_ok_def)
  have "card ?used \<le> length (ug_connections_list u)" unfolding dom by (rule order_trans [OF card_image_le card_length]) simp
  also have "\<dots> < card {0..<ug_max_connections u}" using t assms(2) by (simp add: ug_tables_ok_def)
  finally have "\<not> {0..<ug_max_connections u} \<subseteq> ?used" using card_mono [of ?used "{0..<ug_max_connections u}"] unfolding dom by auto
  then obtain i where i: "0 \<le> i" "i < ug_max_connections u" "i \<notin> ?used"
    by (metis atLeastLessThan_iff subsetI)
  with par have "int (unat (word_of_int i :: u16)) = i" by (intro conid_word) auto
  with i(3) have "conid_of u p \<noteq> word_of_int i" if "p \<in> dom (ug_con u)" for p using that by force
  with i find_connection_by_conid_iff(2) [OF t] show ?thesis by blast
qed

lemma find_connection_next [simp]: "find_connection_by_conid (u\<lparr>ug_next_conid := n\<rparr>) c = find_connection_by_conid u c"
  by (simp add: find_connection_by_conid_def conid_of_def [abs_def])

lemma find_unused_conid_loop:
  assumes "0 \<le> ug_next_conid u" "ug_next_conid u < m" "m = ug_max_connections u"
    and "find_connection_by_conid u (word_of_int ((ug_next_conid u + int k) mod m)) = None"
  shows "\<exists>j \<le> k. \<exists>i. i = (ug_next_conid u + int j) mod m \<and> find_unused_conid u = Some (word_of_int i, u\<lparr>ug_next_conid := i\<rparr>) \<and>
     find_connection_by_conid u (word_of_int i) = None \<and>
     (\<forall>j' < j. find_connection_by_conid u (word_of_int ((ug_next_conid u + int j') mod m)) \<noteq> None)"
  using assms
proof (induction k arbitrary: u)
  case 0
  then show ?case by (subst find_unused_conid.simps) auto
next
  case (Suc k)
  let ?n = "ug_next_conid u" and ?free = "\<lambda>i. find_connection_by_conid u (word_of_int i) = None"
  show ?case
  proof (cases "?free ?n")
    case True
    with Suc.prems show ?thesis by (subst find_unused_conid.simps) auto
  next
    case False
    let ?u = "u\<lparr>ug_next_conid := (if ?n = m - 1 then 0 else ?n + 1)\<rparr>"
    have step: "find_unused_conid u = find_unused_conid ?u"
      unfolding Suc.prems(3) by (subst find_unused_conid.simps) (simp only: False if_False)
    have shift: "(ug_next_conid ?u + int j) mod m = (?n + int (Suc j)) mod m" for j
    proof -
      have "?n + int (Suc j) = (if ?n = m - 1 then int j + m else ?n + 1 + int j)" by simp
      then show ?thesis by simp
    qed
    have "0 \<le> ug_next_conid ?u" "ug_next_conid ?u < m" using Suc.prems(1,2) by simp_all
    with Suc.IH [of ?u] Suc.prems(3,4) shift obtain j where j: "j \<le> k"
      "find_unused_conid ?u = Some (word_of_int ((?n + int (Suc j)) mod m), ?u\<lparr>ug_next_conid := (?n + int (Suc j)) mod m\<rparr>)"
      "?free ((?n + int (Suc j)) mod m)" "\<forall>j' < j. \<not> ?free ((?n + int (Suc j')) mod m)"
      by (auto simp del: of_nat_Suc)
    have "\<not> ?free ((?n + int j') mod m)" if "j' < Suc j" for j'
      using that j(4) False Suc.prems(1,2) by (cases j') (auto simp del: of_nat_Suc)
    with j step show ?thesis by (intro exI [of _ "Suc j"]) (auto simp del: of_nat_Suc)
  qed
qed

lemma find_unused_conid_total:
  assumes "ug_inv u" "ug_num_connections u < ug_max_connections u"
  shows "\<exists>j i. int j < ug_max_connections u \<and> i = (ug_next_conid u + int j) mod ug_max_connections u \<and>
     find_unused_conid u = Some (word_of_int i, u\<lparr>ug_next_conid := i\<rparr>) \<and> find_connection_by_conid u (word_of_int i) = None \<and>
     (\<forall>j' < j. find_connection_by_conid u (word_of_int ((ug_next_conid u + int j') mod ug_max_connections u)) \<noteq> None)"
proof -
  note par = ug_invD(1) [OF assms(1), unfolded ug_params_ok_def]
  let ?m = "ug_max_connections u" and ?n = "ug_next_conid u"
  obtain i where i: "0 \<le> i" "i < ?m" "find_connection_by_conid u (word_of_int i) = None" using unused_conid_exists [OF assms] by blast
  define k where "k = nat ((i - ?n) mod ?m)"
  have "int k < ?m" "(?n + int k) mod ?m = i" using i par by (simp_all add: k_def mod_add_right_eq)
  moreover from this find_unused_conid_loop [of u ?m k] par i(3) obtain j where "j \<le> k"
    "find_unused_conid u = Some (word_of_int ((?n + int j) mod ?m), u\<lparr>ug_next_conid := (?n + int j) mod ?m\<rparr>)"
    "find_connection_by_conid u (word_of_int ((?n + int j) mod ?m)) = None"
    "\<forall>j' < j. find_connection_by_conid u (word_of_int ((?n + int j') mod ?m)) \<noteq> None" by blast
  ultimately show ?thesis by (intro exI [of _ j] exI [of _ "(?n + int j) mod ?m"]) simp
qed

subsection \<open>Preservation\<close>

lemma ug_inv_set_con:
  assumes "ug_inv u" "ug_con u p = Some con" "ug_con_ok u con'" "uc_conaddr con' = uc_conaddr con" "uc_conid con' = uc_conid con"
  shows "ug_inv (u\<lparr>ug_con := (ug_con u)(p \<mapsto> con')\<rparr>)"
proof -
  let ?u = "u\<lparr>ug_con := (ug_con u)(p \<mapsto> con')\<rparr>"
  have k: "conaddr_of ?u = conaddr_of u" "conid_of ?u = conid_of u" using assms by (auto simp: conaddr_of_def conid_of_def)
  have d: "dom (ug_con ?u) = dom (ug_con u)" using assms(2) by auto
  have "ug_tables_ok ?u" using ug_invD(2) [OF assms(1)] unfolding ug_tables_ok_def k d by simp
  then show ?thesis using assms(1,3) by (auto simp: ug_inv_def ug_params_ok_def ug_con_ok_def)
qed

lemma length_move: "p \<in> set l \<Longrightarrow> length (remove1 p l @ [p]) = length l"
  by (induction l) auto

lemma ug_inv_move:
  assumes "ug_inv u" "p \<in> dom (ug_con u)"
  shows "ug_inv (move_to_end p u)"
proof -
  have "set (remove1 p (ug_connections_list u) @ [p]) = dom (ug_con u)" "distinct (remove1 p (ug_connections_list u) @ [p])"
    "length (remove1 p (ug_connections_list u) @ [p]) = length (ug_connections_list u)"
    using ug_invD(2) [OF assms(1)] assms(2) length_move [of p "ug_connections_list u"] by (auto simp: ug_tables_ok_def)
  with assms(1) show ?thesis unfolding ug_inv_def ug_params_ok_def ug_tables_ok_def ug_con_ok_def move_to_end_def
    conaddr_of_def [abs_def] conid_of_def [abs_def] by (auto simp del: length_append set_append distinct_append)
qed

lemma ug_inv_other [simp]:
  "ug_inv (u\<lparr>ug_keepalive_sending := b\<rparr>) = ug_inv u" "ug_inv (u\<lparr>ug_have_server := b\<rparr>) = ug_inv u"
  by (simp_all add: ug_inv_def ug_params_ok_def ug_tables_ok_def ug_con_ok_def conaddr_of_def [abs_def] conid_of_def [abs_def])

lemma ug_inv_next: "ug_inv u \<Longrightarrow> 0 \<le> n \<Longrightarrow> n < ug_max_connections u \<Longrightarrow> ug_inv (u\<lparr>ug_next_conid := n\<rparr>)"
  by (auto simp: ug_inv_def ug_params_ok_def ug_tables_ok_def ug_con_ok_def conaddr_of_def [abs_def] conid_of_def [abs_def])

lemma length_connection_packet:
  assumes "conaddr_ip (uc_conaddr con)"
  shows "length (connection_packet con flags data) \<le> 21 + length data"
  using assms by (cases "ca_remote (uc_conaddr con)") (auto simp: connection_packet_def udpgw_header_bytes_def Let_def conaddr_ip_def BAddr_ip_def)

lemma connection_packet_fits:
  assumes "ug_inv u" "ug_con u p = Some con" "int (length data) \<le> ug_udp_mtu u"
  shows "length (connection_packet con flags data) \<le> nat (ug_udpgw_mtu u)"
proof -
  have "ug_udpgw_mtu u = ug_udp_mtu u + 22" "conaddr_ip (uc_conaddr con)"
    using ug_invD(1,3) [OF assms(1)] assms(2) by (auto simp: ug_params_ok_def ug_con_ok_def)
  with length_connection_packet [of con flags data] assms(3) show ?thesis by linarith
qed

lemma connection_send_inv:
  assumes "ug_inv u" "ug_con u p = Some con" "int (length data) \<le> ug_udp_mtu u"
  shows "\<exists>f ok. ppf_write (connection_packet con flags data) (uc_ppflow con) = (f, ok) \<and>
    connection_send u p flags data = (u\<lparr>ug_con := (ug_con u)(p \<mapsto> con\<lparr>uc_ppflow := f\<rparr>)\<rparr>,
      [if ok then UG_write p (connection_packet con flags data) else UG_drop p]) \<and> ug_inv (fst (connection_send u p flags data))"
proof -
  obtain f ok where w: "ppf_write (connection_packet con flags data) (uc_ppflow con) = (f, ok)" by fastforce
  from ug_invD(3) [OF assms(1,2)] obtain q cur where
    ok: "ppf_ok (nat (ug_udpgw_mtu u)) (nat (ug_send_buffer_size u)) (uc_ppflow con) q cur" by (auto simp: ug_con_ok_def)
  from ppf_write_ok [OF ok connection_packet_fits [OF assms] w] ug_invD(3) [OF assms(1,2)]
  have "ug_con_ok u (con\<lparr>uc_ppflow := f\<rparr>)" by (auto simp: ug_con_ok_def)
  from ug_inv_set_con [OF assms(1,2) this] w assms(2) show ?thesis by (simp add: connection_send_def)
qed

lemma connection_send_ok:
  "ug_inv u \<Longrightarrow> p \<in> dom (ug_con u) \<Longrightarrow> int (length data) \<le> ug_udp_mtu u \<Longrightarrow> ug_inv (fst (connection_send u p flags data))"
  using connection_send_inv by blast

lemma reuse_connection_inv:
  assumes inv: "ug_inv u" and a: "conaddr_ip a" "\<forall>p \<in> dom (ug_con u). conaddr_of u p \<noteq> a" and full: "ug_num_connections u = ug_max_connections u"
  shows "\<exists>p ps con u'. ug_connections_list u = p # ps \<and> ug_con u p = Some con \<and> reuse_connection u a = Some (u', p) \<and> ug_inv u' \<and>
    ug_con u' = (ug_con u)(p \<mapsto> con\<lparr>uc_conaddr := a\<rparr>) \<and> ug_connections_list u' = ug_connections_list u \<and> ug_udp_mtu u' = ug_udp_mtu u \<and>
    ug_max_connections u' = ug_max_connections u"
proof -
  note t = ug_invD(2) [OF inv, unfolded ug_tables_ok_def] and par = ug_invD(1) [OF inv]
  obtain p ps where l: "ug_connections_list u = p # ps" using t full par by (cases "ug_connections_list u") (auto simp: ug_params_ok_def)
  with t obtain con where con: "ug_con u p = Some con" by (metis domD list.set_intros(1))
  define v where "v = u\<lparr>ug_tree_by_conaddr := Tree_Remove p (ug_tree_by_conaddr u), ug_con := (ug_con u)(p \<mapsto> con\<lparr>uc_conaddr := a\<rparr>)\<rparr>"
  have r: "reuse_connection u a = Some (conaddr_insert p v, p)" using l con by (simp add: reuse_connection_def v_def)
  have c: "\<forall>q \<in> set (ug_tree_by_conaddr u). conaddr_ip (conaddr_of u q)" using ug_invD(4) [OF inv] t by auto
  have d: "distinct (ug_tree_by_conaddr u)" by (rule conaddr.keyed_sorted_inj(2) [OF c]) (use t in simp)
  have sv: "set (ug_tree_by_conaddr v) = dom (ug_con u) - {p}" using d t by (simp add: v_def Tree_Remove_def)
  have key: "conaddr_of v q = (if q = p then a else conaddr_of u q)" for q by (simp add: v_def conaddr_of_def)
  have kid: "conid_of v = conid_of u" using con by (auto simp: v_def conid_of_def)
  have "Tree_sorted (keyed UdpGwClient_conaddr_comparator (conaddr_of u)) (ug_tree_by_conaddr v)" using t by (simp add: v_def Tree_Remove_sorted)
  then have "Tree_sorted (keyed UdpGwClient_conaddr_comparator (conaddr_of v)) (ug_tree_by_conaddr v)"
    by (rule Tree_sorted_keyed_cong [rotated]) (use sv key in auto)
  moreover have "\<forall>q \<in> set (ug_tree_by_conaddr v). conaddr_ip (conaddr_of v q) \<and> conaddr_of v q \<noteq> conaddr_of v p" "conaddr_ip (conaddr_of v p)"
    using sv key c t a by auto
  ultimately have ins: "set (ug_tree_by_conaddr (conaddr_insert p v)) = insert p (dom (ug_con u))"
    "Tree_sorted (keyed UdpGwClient_conaddr_comparator (conaddr_of v)) (ug_tree_by_conaddr (conaddr_insert p v))"
    using conaddr.keyed_insert [of "ug_tree_by_conaddr v" "conaddr_of v" p] sv by (auto simp: conaddr_insert_def)
  have k': "conaddr_of (conaddr_insert p v) = conaddr_of v" "conid_of (conaddr_insert p v) = conid_of u"
    using kid by (simp_all add: conaddr_insert_def conaddr_of_def [abs_def] conid_of_def [abs_def])
  have "ug_tables_ok (conaddr_insert p v)"
    unfolding ug_tables_ok_def k' using ins t con by (auto simp: conaddr_insert_def v_def)
  moreover have "ug_con_ok u (con\<lparr>uc_conaddr := a\<rparr>)" using ug_invD(3) [OF inv con] a(1) by (simp add: ug_con_ok_def)
  ultimately have "ug_inv (conaddr_insert p v)"
    using inv by (auto simp: ug_inv_def ug_params_ok_def ug_con_ok_def conaddr_insert_def v_def)
  with l con r show ?thesis by (simp add: conaddr_insert_def v_def)
qed

lemma connection_init_inv:
  assumes inv: "ug_inv u" and a: "conaddr_ip a" "\<forall>p \<in> dom (ug_con u). conaddr_of u p \<noteq> a" and room: "ug_num_connections u < ug_max_connections u"
    and al: "alloc_ok alloc" and data: "int (length data) \<le> ug_udp_mtu u" and fresh: "ug_con u p = None"
    and f: "PacketProtoFlow_Init alloc (nat (ug_udpgw_mtu u)) (nat (ug_send_buffer_size u)) = Some f"
  shows "\<exists>i u' con. find_connection_by_conid u i = None \<and> connection_init (Some p) alloc u a flags data = Some (u', [UG_flow_init p]) \<and> ug_inv u' \<and>
    con = \<lparr>uc_conaddr = a, uc_first_flags = flags, uc_first_data = data, uc_first_job = True, uc_conid = i, uc_ppflow = f\<rparr> \<and>
    ug_con u' = (ug_con u)(p \<mapsto> con) \<and> ug_connections_list u' = ug_connections_list u @ [p]"
proof -
  from find_unused_conid_total [OF inv room] obtain n where n: "find_unused_conid u = Some (word_of_int n, u\<lparr>ug_next_conid := n\<rparr>)"
    "find_connection_by_conid u (word_of_int n) = None" "n = n mod ug_max_connections u" by auto
  note t = ug_invD(2) [OF inv, unfolded ug_tables_ok_def] and par = ug_invD(1) [OF inv, unfolded ug_params_ok_def]
  have nb: "0 \<le> n" "n < ug_max_connections u" using n(3) par by (metis pos_mod_bound pos_mod_sign)+
  let ?i = "word_of_int n :: u16"
  define con where "con = \<lparr>uc_conaddr = a, uc_first_flags = flags, uc_first_data = data, uc_first_job = True, uc_conid = ?i, uc_ppflow = f\<rparr>"
  define v where "v = u\<lparr>ug_next_conid := n, ug_con := (ug_con u)(p \<mapsto> con)\<rparr>"
  define w where "w = conid_insert p (conaddr_insert p v)"
  define u' where "u' = w\<lparr>ug_connections_list := ug_connections_list u @ [p], ug_num_connections := ug_num_connections u + 1\<rparr>"
  have r: "connection_init (Some p) alloc u a flags data = Some (u', [UG_flow_init p])"
    using n(1) f by (simp add: connection_init_def u'_def w_def v_def con_def conid_insert_def conaddr_insert_def Let_def)
  have key: "conaddr_of v q = (if q = p then a else conaddr_of u q)" "conid_of v q = (if q = p then ?i else conid_of u q)" for q
    by (simp_all add: v_def con_def conaddr_of_def conid_of_def)
  have p: "p \<notin> dom (ug_con u)" using fresh by auto
  have s1: "Tree_sorted (keyed UdpGwClient_conaddr_comparator (conaddr_of v)) (ug_tree_by_conaddr u)"
    by (rule Tree_sorted_keyed_cong [of _ _ "conaddr_of u"]) (use t key p in auto)
  have s2: "Tree_sorted (keyed uint16_comparator (conid_of v)) (ug_tree_by_conid u)"
    by (rule Tree_sorted_keyed_cong [of _ _ "conid_of u"]) (use t key p in auto)
  have c1: "\<forall>q \<in> set (ug_tree_by_conaddr u). conaddr_ip (conaddr_of v q)" "\<forall>q \<in> set (ug_tree_by_conaddr u). conaddr_of v q \<noteq> conaddr_of v p"
    using t key p a ug_invD(4) [OF inv] by auto
  have c2: "\<forall>q \<in> set (ug_tree_by_conid u). conid_of v q \<noteq> conid_of v p"
    using t key p n(2) find_connection_by_conid_iff(2) [OF ug_invD(2) [OF inv]] by auto
  have "conaddr_ip (conaddr_of v p)" using key a by simp
  note i1 = conaddr.keyed_insert [OF c1(1) s1 this c1(2)] and i2 = conid.keyed_insert [OF _ s2 _ c2]
  have k': "conaddr_of u' = conaddr_of v" "conid_of u' = conid_of v" "conid_of (conaddr_insert p v) = conid_of v"
    by (simp_all add: u'_def w_def conaddr_insert_def conid_insert_def conaddr_of_def [abs_def] conid_of_def [abs_def])
  have flds: "ug_tree_by_conaddr u' = Tree_Insert (keyed UdpGwClient_conaddr_comparator (conaddr_of v)) p (ug_tree_by_conaddr u)"
    "ug_tree_by_conid u' = Tree_Insert (keyed uint16_comparator (conid_of v)) p (ug_tree_by_conid u)"
    "ug_con u' = (ug_con u)(p \<mapsto> con)" "ug_connections_list u' = ug_connections_list u @ [p]" "ug_num_connections u' = ug_num_connections u + 1"
    "ug_max_connections u' = ug_max_connections u" "ug_udp_mtu u' = ug_udp_mtu u" "ug_udpgw_mtu u' = ug_udpgw_mtu u"
    "ug_send_buffer_size u' = ug_send_buffer_size u" "ug_next_conid u' = n"
    using k'(3) by (simp_all add: u'_def w_def conaddr_insert_def conid_insert_def v_def)
  have "ug_tables_ok u'" unfolding ug_tables_ok_def k' flds using i1 i2 t room p by auto
  moreover have "ug_con_ok u con"
  proof -
    have "ppf_ok (nat (ug_udpgw_mtu u)) (nat (ug_send_buffer_size u)) f [] []"
      using ppf_ok_Init [OF f] al par by (simp add: alloc_ok_def)
    moreover have "int (unat ?i) = n" using nb par by (intro conid_word) auto
    ultimately show ?thesis using a data nb unfolding ug_con_ok_def con_def by auto
  qed
  ultimately have "ug_inv u'" using inv nb unfolding ug_inv_def ug_params_ok_def ug_con_ok_def flds by auto
  with r n(2) show ?thesis using flds(3,4) con_def by blast
qed

lemma connection_init_fails:
  assumes "ug_inv u" "ug_num_connections u < ug_max_connections u"
    and "mal = None \<or> PacketProtoFlow_Init alloc (nat (ug_udpgw_mtu u)) (nat (ug_send_buffer_size u)) = None"
  shows "\<exists>n as. connection_init mal alloc u a flags data = Some (u\<lparr>ug_next_conid := n\<rparr>, as) \<and> 0 \<le> n \<and> n < ug_max_connections u"
proof (cases mal)
  case None
  with ug_invD(1) [OF assms(1)] show ?thesis
    by (intro exI [of _ "ug_next_conid u"] exI [of _ "[]"]) (simp add: connection_init_def ug_params_ok_def)
next
  case (Some p)
  from find_unused_conid_total [OF assms(1,2)] obtain n where n: "find_unused_conid u = Some (word_of_int n, u\<lparr>ug_next_conid := n\<rparr>)"
    "n = n mod ug_max_connections u" by auto
  moreover have "0 \<le> n" "n < ug_max_connections u"
    using n(2) ug_invD(1) [OF assms(1), unfolded ug_params_ok_def] by (metis pos_mod_bound pos_mod_sign)+
  ultimately show ?thesis using Some assms(3) by (intro exI [of _ n]) (simp add: connection_init_def)
qed

text \<open>What submitting a packet does, by cases: the connection exists, the table is full, or one is created.\<close>

abbreviation (input) submit_flags :: "bool \<Rightarrow> byte" where
  "submit_flags is_dns \<equiv> (if is_dns then 0 OR UDPGW_CLIENT_FLAG_DNS else 0)"

lemma submit_hit:
  assumes "ug_inv u" "conaddr_ip \<lparr>ca_local = l, ca_remote = r\<rparr>" "p \<in> dom (ug_con u)" "conaddr_of u p = \<lparr>ca_local = l, ca_remote = r\<rparr>"
  shows "UdpGwClient_SubmitPacket mal alloc u l r is_dns data = Some (connection_send (move_to_end p u) p (submit_flags is_dns) data)"
  using find_connection_by_conaddr_iff(1) [OF assms(1,2), of p] assms(3,4) by (simp add: UdpGwClient_SubmitPacket_def)

lemma submit_full:
  assumes "ug_inv u" "conaddr_ip a" "a = \<lparr>ca_local = l, ca_remote = r\<rparr>" "\<forall>p \<in> dom (ug_con u). conaddr_of u p \<noteq> a"
    and "ug_num_connections u = ug_max_connections u"
  shows "\<exists>p ps con u'. ug_connections_list u = p # ps \<and> ug_con u p = Some con \<and> ug_inv u' \<and>
    ug_con u' = (ug_con u)(p \<mapsto> con\<lparr>uc_conaddr := a\<rparr>) \<and> ug_connections_list u' = p # ps \<and> ug_udp_mtu u' = ug_udp_mtu u \<and>
    UdpGwClient_SubmitPacket mal alloc u l r is_dns data =
      Some (connection_send (move_to_end p u') p (submit_flags is_dns OR UDPGW_CLIENT_FLAG_REBIND) data)"
proof -
  have "find_connection_by_conaddr u a = None" using find_connection_by_conaddr_iff(2) [OF assms(1,2)] assms(4) by simp
  moreover obtain p ps con u' where "ug_connections_list u = p # ps" "ug_con u p = Some con" "reuse_connection u a = Some (u', p)" "ug_inv u'"
    "ug_con u' = (ug_con u)(p \<mapsto> con\<lparr>uc_conaddr := a\<rparr>)" "ug_connections_list u' = ug_connections_list u" "ug_udp_mtu u' = ug_udp_mtu u"
    using reuse_connection_inv [OF assms(1,2,4,5)] by blast
  ultimately show ?thesis using assms(3,5)
    by (intro exI [of _ p] exI [of _ ps] exI [of _ con] exI [of _ u']) (simp add: UdpGwClient_SubmitPacket_def)
qed

lemma submit_new:
  assumes "ug_inv u" "conaddr_ip a" "a = \<lparr>ca_local = l, ca_remote = r\<rparr>" "\<forall>p \<in> dom (ug_con u). conaddr_of u p \<noteq> a"
    and "ug_num_connections u \<noteq> ug_max_connections u"
  shows "UdpGwClient_SubmitPacket mal alloc u l r is_dns data = connection_init mal alloc u a (submit_flags is_dns) data"
  using find_connection_by_conaddr_iff(2) [OF assms(1,2)] assms(3-5) by (simp add: UdpGwClient_SubmitPacket_def)

lemma submit_inv:
  assumes inv: "ug_inv u" and en: "ug_enabled u (UG_Submit mal alloc l r is_dns data)" and al: "alloc_ok alloc"
  shows "\<exists>u' as. UdpGwClient_SubmitPacket mal alloc u l r is_dns data = Some (u', as) \<and> ug_inv u'"
proof -
  let ?a = "\<lparr>ca_local = l, ca_remote = r\<rparr>"
  have a: "conaddr_ip ?a" and data: "int (length data) \<le> ug_udp_mtu u" using en by (auto simp: conaddr_ip_def)
  consider (hit) p where "p \<in> dom (ug_con u)" "conaddr_of u p = ?a" | (full) "\<forall>p \<in> dom (ug_con u). conaddr_of u p \<noteq> ?a" "ug_num_connections u = ug_max_connections u"
    | (new) "\<forall>p \<in> dom (ug_con u). conaddr_of u p \<noteq> ?a" "ug_num_connections u \<noteq> ug_max_connections u" by blast
  then show ?thesis
  proof cases
    case hit
    with submit_hit [OF inv a hit] connection_send_ok [OF ug_inv_move [OF inv hit(1)], of p data] data show ?thesis
      by (auto simp: move_to_end_def prod_eq_iff)
  next
    case full
    from submit_full [OF inv a refl full, of mal alloc is_dns data] obtain p con u' where u': "ug_inv u'" "ug_udp_mtu u' = ug_udp_mtu u"
      "ug_con u' = (ug_con u)(p \<mapsto> con\<lparr>uc_conaddr := ?a\<rparr>)" "UdpGwClient_SubmitPacket mal alloc u l r is_dns data =
      Some (connection_send (move_to_end p u') p (submit_flags is_dns OR UDPGW_CLIENT_FLAG_REBIND) data)" by metis
    have "ug_inv (move_to_end p u')" using u' by (intro ug_inv_move) auto
    with connection_send_ok [OF this, of p data] u' data show ?thesis by (auto simp: move_to_end_def prod_eq_iff)
  next
    case new
    note sub = submit_new [OF inv a refl new]
    have room: "ug_num_connections u < ug_max_connections u" using new(2) ug_invD(2) [OF inv] by (simp add: ug_tables_ok_def)
    show ?thesis
    proof (cases "mal = None \<or> PacketProtoFlow_Init alloc (nat (ug_udpgw_mtu u)) (nat (ug_send_buffer_size u)) = None")
      case True
      from connection_init_fails [OF inv room this] obtain n as where
        "connection_init mal alloc u ?a (submit_flags is_dns) data = Some (u\<lparr>ug_next_conid := n\<rparr>, as)" "0 \<le> n" "n < ug_max_connections u" by blast
      with ug_inv_next [OF inv] sub show ?thesis by metis
    next
      case False
      then obtain p f where "mal = Some p" "PacketProtoFlow_Init alloc (nat (ug_udpgw_mtu u)) (nat (ug_send_buffer_size u)) = Some f" by auto
      then have "\<exists>u' as. connection_init mal alloc u ?a fl data = Some (u', as) \<and> ug_inv u'" for fl
        using connection_init_inv [OF inv a new(1) room al data, of p f fl] en by auto
      with sub show ?thesis by metis
    qed
  qed
qed

lemma flow_event_inv:
  assumes inv: "ug_inv u" and con: "ug_con u p = Some con"
    and e: "e = PPF_job \<and> ppf_jobs (uc_ppflow con) \<noteq> None \<or> e = PPF_finished \<and> pb_send (ppf_buffer (uc_ppflow con))"
  shows "\<exists>u' f as ps. ppf_step (uc_ppflow con) e = Some (f, as, ps) \<and> flow_event e p u = Some u' \<and>
    u' = u\<lparr>ug_con := (ug_con u)(p \<mapsto> con\<lparr>uc_ppflow := f\<rparr>)\<rparr> \<and> ug_inv u'"
proof -
  from ug_invD(3) [OF inv con] obtain q cur where
    ok: "ppf_ok (nat (ug_udpgw_mtu u)) (nat (ug_send_buffer_size u)) (uc_ppflow con) q cur" by (auto simp: ug_con_ok_def)
  obtain f as ps where st: "ppf_step (uc_ppflow con) e = Some (f, as, ps)"
  proof (cases "e = PPF_job")
    case True
    with ppf_job_total [OF ok] e that show ?thesis by auto
  qed (use e that in \<open>auto simp: case_prod_beta Let_def\<close>)
  from ppf_step_ok [OF ok st] ug_invD(3) [OF inv con] have "ug_con_ok u (con\<lparr>uc_ppflow := f\<rparr>)" by (auto simp: ug_con_ok_def)
  from ug_inv_set_con [OF inv con this] st con show ?thesis by (simp add: flow_event_def)
qed

lemma first_job_inv:
  assumes inv: "ug_inv u" and con: "ug_con u p = Some con"
  shows "ug_inv (first_job_done p u)" "ug_con (first_job_done p u) p = Some (con\<lparr>uc_first_job := False\<rparr>)" "ug_udp_mtu (first_job_done p u) = ug_udp_mtu u"
    "ug_inv (fst (connection_first_job_handler (first_job_done p u) p))"
proof -
  have "ug_con_ok u (con\<lparr>uc_first_job := False\<rparr>)" using ug_invD(3) [OF inv con] by (simp add: ug_con_ok_def)
  from ug_inv_set_con [OF inv con this] con show i: "ug_inv (first_job_done p u)" by (simp add: first_job_done_def fun_upd_def)
  show c: "ug_con (first_job_done p u) p = Some (con\<lparr>uc_first_job := False\<rparr>)" "ug_udp_mtu (first_job_done p u) = ug_udp_mtu u"
    using con by (simp_all add: first_job_done_def)
  have "int (length (uc_first_data con)) \<le> ug_udp_mtu u" using ug_invD(3) [OF inv con] by (simp add: ug_con_ok_def)
  then show "ug_inv (fst (connection_first_job_handler (first_job_done p u) p))"
    using connection_send_inv [OF i c(1), of "uc_first_data con"] c by (auto simp: connection_first_job_handler_def)
qed

lemma recv_cases:
  "recv_interface_handler_send u data = (u, [UG_recv_done]) \<or>
   (\<exists>p d c. find_connection_by_conid u c = Some p \<and> recv_interface_handler_send u data =
      (move_to_end p u, [UG_recv_done, UG_received (ca_local (conaddr_of u p)) (ca_remote (conaddr_of u p)) d]))"
  by (auto simp: recv_interface_handler_send_def Let_def split: option.splits)

lemma ug_step_inv:
  assumes inv: "ug_inv u" and en: "ug_enabled u e" and env: "ug_env_ok e"
  shows "\<exists>u' as. ug_step u e = Some (u', as) \<and> ug_inv u'"
proof (cases e)
  case (UG_Submit mal alloc l r is_dns data)
  with submit_inv [OF inv] en env show ?thesis by simp
next
  case (UG_Recv data)
  with recv_cases [of u data] inv ug_inv_move [OF inv] find_connection_by_conid_iff(1) [OF ug_invD(2) [OF inv]] show ?thesis by fastforce
next
  case (UG_Job p)
  with en obtain con where con: "ug_con u p = Some con" "ppf_jobs (uc_ppflow con) \<noteq> None \<or> uc_first_job con" by (auto split: option.splits)
  show ?thesis
  proof (cases "ppf_jobs (uc_ppflow con)")
    case None
    with con UG_Job first_job_inv(4) [OF inv con(1)] show ?thesis by (auto simp: prod_eq_iff)
  next
    case (Some j)
    with con UG_Job flow_event_inv [OF inv con(1), of PPF_job] show ?thesis by auto
  qed
next
  case (UG_Finished p)
  with en obtain con where "ug_con u p = Some con" "pb_send (ppf_buffer (uc_ppflow con))" by (auto split: option.splits)
  with UG_Finished flow_event_inv [OF inv, of p con PPF_finished] show ?thesis by auto
qed (use inv in \<open>auto simp: send_monitor_handler_def keepalive_if_handler_done_def decoder_handler_error_def UdpGwClient_ConnectServer_def
      UdpGwClient_DisconnectServer_def\<close>)

lemma ug_run_inv: "ug_run u es = Some (u', as) \<Longrightarrow> list_all ug_env_ok es \<Longrightarrow> ug_inv u \<Longrightarrow> ug_inv u'"
proof (induction es arbitrary: u as)
  case (Cons e es)
  then have en: "ug_enabled u e" by (simp split: if_splits)
  with Cons.prems ug_step_inv [of u e] obtain u1 as1 where "ug_step u e = Some (u1, as1)" "ug_inv u1" by auto
  with Cons en show ?case by (auto split: option.splits)
qed simp

subsection \<open>Reachable states\<close>

lemma udpgw_compute_mtu_value:
  assumes "0 \<le> mtu" "mtu \<le> INT_MAX" "INT_MAX \<le> int smax"
  shows "udpgw_compute_mtu smax mtu = (if mtu + 22 \<le> INT_MAX then mtu + 22 else -1)"
proof -
  let ?s = "bsize_add smax (bsize_fromsize 4) (bsize_add smax (bsize_max (bsize_fromsize 6) (bsize_fromsize 18)) (bsize_fromint smax mtu))"
  have "bsize_ok smax (bsize_fromint smax mtu) (nat mtu)" using assms by (auto simp: bsize_ok_def bsize_fromint_def)
  moreover have "bsize_ok smax (bsize_max (bsize_fromsize 6) (bsize_fromsize 18)) (max 6 18)"
    using assms by (intro bsize_ok_max bsize_ok_fromsize) auto
  ultimately have "bsize_ok smax ?s (4 + (max 6 18 + nat mtu))" using assms by (intro bsize_ok_add bsize_ok_fromsize) auto
  then have "bsize_toint ?s = (if mtu + 22 \<le> INT_MAX then Some (mtu + 22) else None)"
    using assms by (auto simp: bsize_ok_def bsize_toint_def)
  then show ?thesis by (simp add: udpgw_compute_mtu_def Let_def)
qed

text \<open>The states of a client that was initialised with arguments that satisfy the assertions of
  \<^verbatim>\<open>UdpGwClient_Init\<close>.\<close>

definition ug_args_ok :: "nat \<Rightarrow> int \<Rightarrow> int \<Rightarrow> int \<Rightarrow> bool" where
  "ug_args_ok smax udp_mtu max_connections send_buffer_size \<longleftrightarrow> INT_MAX \<le> int smax \<and> 0 \<le> udp_mtu \<and> udp_mtu \<le> INT_MAX \<and>
     0 \<le> udpgw_compute_mtu smax udp_mtu \<and> udpgw_compute_mtu smax udp_mtu \<le> int PACKETPROTO_MAXPAYLOAD \<and>
     0 < max_connections \<and> 0 < send_buffer_size"

definition ug_reachable :: "UdpGwClient \<Rightarrow> bool" where
  "ug_reachable u \<longleftrightarrow> (\<exists>smax mtu maxc bufs u0 es as. ug_args_ok smax mtu maxc bufs \<and> UdpGwClient_Init smax True mtu maxc bufs = Some u0 \<and>
     list_all ug_env_ok es \<and> ug_run u0 es = Some (u, as))"

lemma ug_inv_Init:
  assumes "ug_args_ok smax mtu maxc bufs" "UdpGwClient_Init smax True mtu maxc bufs = Some u"
  shows "ug_inv u"
proof -
  have "udpgw_compute_mtu smax mtu = mtu + 22" using assms(1) udpgw_compute_mtu_value [of mtu smax] by (auto simp: ug_args_ok_def split: if_splits)
  with assms show ?thesis
    by (auto simp: UdpGwClient_Init_def Let_def ug_inv_def ug_params_ok_def ug_tables_ok_def ug_args_ok_def Tree_sorted_def)
qed

lemma ug_reachable_inv: "ug_reachable u \<Longrightarrow> ug_inv u"
  unfolding ug_reachable_def using ug_run_inv ug_inv_Init by blast

lemma ug_run_snoc:
  "ug_run u es = Some (u1, as) \<Longrightarrow> ug_enabled u1 e \<Longrightarrow> ug_step u1 e = Some (u2, as2) \<Longrightarrow> ug_run u (es @ [e]) = Some (u2, as @ as2)"
  by (induction es arbitrary: u as) (auto split: option.splits if_splits)

lemma ug_reachable_step:
  assumes "ug_reachable u" "ug_enabled u e" "ug_env_ok e" "ug_step u e = Some (u', as)"
  shows "ug_reachable u'"
proof -
  obtain smax mtu maxc bufs u0 es as0 where r: "ug_args_ok smax mtu maxc bufs" "UdpGwClient_Init smax True mtu maxc bufs = Some u0" "list_all ug_env_ok es"
    "ug_run u0 es = Some (u, as0)" using assms(1) by (auto simp: ug_reachable_def)
  from ug_run_snoc [OF r(4) assms(2,4)] r assms(3) show ?thesis unfolding ug_reachable_def
    by (intro exI [of _ smax] exI [of _ mtu] exI [of _ maxc] exI [of _ bufs] exI [of _ u0] exI [of _ "es @ [e]"] exI) auto
qed

text \<open>C7.  The tables of the gateway client stay consistent.  In every reachable state the list and both
  search trees hold exactly the live connections, their number is counted and within the limit, no two
  connections share an identifier or an address pair, both searches find a connection exactly if there
  is one, and every event the environment may cause is handled: no assertion fails, no loop runs on and
  no pointer to a freed connection is followed.\<close>

theorem UdpGwClient_consistent:
  assumes "ug_reachable u"
  shows "set (ug_connections_list u) = dom (ug_con u) \<and> set (ug_tree_by_conaddr u) = dom (ug_con u) \<and>
    set (ug_tree_by_conid u) = dom (ug_con u) \<and> distinct (ug_connections_list u) \<and>
    ug_num_connections u = int (card (dom (ug_con u))) \<and> ug_num_connections u \<le> ug_max_connections u \<and>
    inj_on (conid_of u) (dom (ug_con u)) \<and> inj_on (conaddr_of u) (dom (ug_con u)) \<and>
    (\<forall>c p. find_connection_by_conid u c = Some p \<longleftrightarrow> p \<in> dom (ug_con u) \<and> conid_of u p = c) \<and>
    (\<forall>a p. conaddr_ip a \<longrightarrow> (find_connection_by_conaddr u a = Some p \<longleftrightarrow> p \<in> dom (ug_con u) \<and> conaddr_of u p = a)) \<and>
    (\<forall>e. ug_enabled u e \<and> ug_env_ok e \<longrightarrow> ug_step u e \<noteq> None)"
proof -
  note inv = ug_reachable_inv [OF assms]
  note t = ug_invD(2) [OF inv, unfolded ug_tables_ok_def]
  have "length (ug_connections_list u) = card (dom (ug_con u))" using t distinct_card by metis
  then show ?thesis
    using t ug_tables_inj [OF inv] find_connection_by_conid_iff(1) [OF ug_invD(2) [OF inv]] find_connection_by_conaddr_iff(1) [OF inv] ug_step_inv [OF inv]
    by fastforce
qed

text \<open>C11.  The search for an unused connection identifier ends: when the table is not full the loop of
  \<^verbatim>\<open>find_unused_conid\<close> stops after fewer steps than there are identifiers, at the first unused one in cyclic
  order from the current position, and leaves the position there.\<close>

theorem find_unused_conid_terminates:
  assumes "ug_reachable u" "ug_num_connections u < ug_max_connections u"
  shows "\<exists>j i. int j < ug_max_connections u \<and> i = (ug_next_conid u + int j) mod ug_max_connections u \<and>
    find_unused_conid u = Some (word_of_int i, u\<lparr>ug_next_conid := i\<rparr>) \<and> (\<forall>p \<in> dom (ug_con u). conid_of u p \<noteq> word_of_int i) \<and>
    (\<forall>j' < j. \<exists>p \<in> dom (ug_con u). conid_of u p = word_of_int ((ug_next_conid u + int j') mod ug_max_connections u))"
proof -
  note inv = ug_reachable_inv [OF assms(1)]
  note n = find_connection_by_conid_iff(2) [OF ug_invD(2) [OF inv]]
  from find_unused_conid_total [OF inv assms(2)] show ?thesis unfolding n by simp
qed

subsection \<open>The table as a cache\<close>

definition ug_cache :: "UdpGwClient \<Rightarrow> UdpGwClient_conaddr list" where
  "ug_cache u = map (conaddr_of u) (ug_connections_list u)"

text \<open>A least-recently-used cache: entries in order of use, the oldest first.\<close>

definition lru_use :: "nat \<Rightarrow> 'a \<Rightarrow> 'a list \<Rightarrow> 'a list" where
  "lru_use cap a xs = (if a \<in> set xs then remove1 a xs @ [a] else if length xs = cap then tl xs @ [a] else xs @ [a])"

lemma map_remove1_inj: "inj_on f (insert p (set xs)) \<Longrightarrow> map f (remove1 p xs) = remove1 (f p) (map f xs)"
  by (induction xs) (auto dest: inj_onD)

lemma conaddr_of_send:
  "ug_con u p = Some con \<Longrightarrow> conaddr_of (fst (connection_send u p fl data)) = conaddr_of u \<and>
   ug_connections_list (fst (connection_send u p fl data)) = ug_connections_list u"
  by (auto simp: connection_send_def conaddr_of_def [abs_def] Let_def split: prod.splits)

lemma move_cache:
  assumes "ug_inv u" "p \<in> dom (ug_con u)"
  shows "ug_cache (move_to_end p u) = remove1 (conaddr_of u p) (ug_cache u) @ [conaddr_of u p]"
proof -
  have "inj_on (conaddr_of u) (insert p (set (ug_connections_list u)))"
    using ug_tables_inj(2) [OF assms(1)] ug_invD(2) [OF assms(1)] assms(2) by (simp add: ug_tables_ok_def insert_absorb)
  from map_remove1_inj [OF this] show ?thesis by (simp add: ug_cache_def move_to_end_def conaddr_of_def [abs_def])
qed

lemma submit_cache:
  assumes inv: "ug_inv u" and en: "ug_enabled u (UG_Submit mal alloc l r is_dns data)" and al: "alloc_ok alloc"
    and sub: "UdpGwClient_SubmitPacket mal alloc u l r is_dns data = Some (u', as)" and a: "a = \<lparr>ca_local = l, ca_remote = r\<rparr>"
  shows "ug_cache u' =
    (if a \<notin> set (ug_cache u) \<and> length (ug_cache u) < nat (ug_max_connections u) \<and>
        (mal = None \<or> PacketProtoFlow_Init alloc (nat (ug_udpgw_mtu u)) (nat (ug_send_buffer_size u)) = None)
     then ug_cache u else lru_use (nat (ug_max_connections u)) a (ug_cache u))"
proof -
  have ca: "conaddr_ip a" and data: "int (length data) \<le> ug_udp_mtu u" using en a by (auto simp: conaddr_ip_def)
  note t = ug_invD(2) [OF inv, unfolded ug_tables_ok_def]
  have mem: "a \<in> set (ug_cache u) \<longleftrightarrow> (\<exists>p \<in> dom (ug_con u). conaddr_of u p = a)" using t by (auto simp: ug_cache_def)
  have len: "int (length (ug_cache u)) = ug_num_connections u" using t by (simp add: ug_cache_def)
  consider (hit) p where "p \<in> dom (ug_con u)" "conaddr_of u p = a" | (full) "\<forall>p \<in> dom (ug_con u). conaddr_of u p \<noteq> a" "ug_num_connections u = ug_max_connections u"
    | (new) "\<forall>p \<in> dom (ug_con u). conaddr_of u p \<noteq> a" "ug_num_connections u \<noteq> ug_max_connections u" by blast
  then show ?thesis
  proof cases
    case hit
    from hit(1) obtain con where con: "ug_con (move_to_end p u) p = Some con" by (auto simp: move_to_end_def)
    have "u' = fst (connection_send (move_to_end p u) p (submit_flags is_dns) data)"
      using submit_hit [OF inv ca [unfolded a] hit(1) hit(2) [unfolded a], of mal alloc is_dns data] sub by (metis fst_conv option.inject)
    with conaddr_of_send [OF con] have "ug_cache u' = ug_cache (move_to_end p u)" by (simp add: ug_cache_def)
    moreover have "a \<in> set (ug_cache u)" using hit mem by blast
    ultimately show ?thesis using move_cache [OF inv hit(1)] hit(2) by (simp add: lru_use_def)
  next
    case full
    from submit_full [OF inv ca a full, of mal alloc is_dns data] obtain p ps con v where v: "ug_connections_list u = p # ps" "ug_con u p = Some con"
      "ug_inv v" "ug_con v = (ug_con u)(p \<mapsto> con\<lparr>uc_conaddr := a\<rparr>)" "ug_connections_list v = p # ps" "UdpGwClient_SubmitPacket mal alloc u l r is_dns data =
      Some (connection_send (move_to_end p v) p (submit_flags is_dns OR UDPGW_CLIENT_FLAG_REBIND) data)" by metis
    have con: "ug_con (move_to_end p v) p = Some (con\<lparr>uc_conaddr := a\<rparr>)" using v(4) by (simp add: move_to_end_def)
    have "u' = fst (connection_send (move_to_end p v) p (submit_flags is_dns OR UDPGW_CLIENT_FLAG_REBIND) data)"
      using v(6) sub by (metis fst_conv option.inject)
    with conaddr_of_send [OF con] have "ug_cache u' = ug_cache (move_to_end p v)" by (simp add: ug_cache_def)
    also have "\<dots> = map (conaddr_of v) ps @ [conaddr_of v p]" using v(5) by (simp add: ug_cache_def move_to_end_def conaddr_of_def [abs_def])
    also have "\<dots> = tl (ug_cache u) @ [a]"
      using t v(1,4) by (auto simp: ug_cache_def conaddr_of_def)
    finally show ?thesis using full mem len ug_invD(1) [OF inv] by (auto simp: lru_use_def ug_params_ok_def)
  next
    case new
    have room: "ug_num_connections u < ug_max_connections u" using new(2) t by simp
    note sub' = submit_new [OF inv ca a new, of mal alloc is_dns data, unfolded sub]
    show ?thesis
    proof (cases "mal = None \<or> PacketProtoFlow_Init alloc (nat (ug_udpgw_mtu u)) (nat (ug_send_buffer_size u)) = None")
      case True
      from connection_init_fails [OF inv room True] sub' obtain n where "u' = u\<lparr>ug_next_conid := n\<rparr>" by (metis fst_conv option.inject)
      then have "ug_cache u' = ug_cache u" by (simp add: ug_cache_def conaddr_of_def [abs_def])
      with True new mem len room show ?thesis by auto
    next
      case False
      then obtain p f where pf: "mal = Some p" "PacketProtoFlow_Init alloc (nat (ug_udpgw_mtu u)) (nat (ug_send_buffer_size u)) = Some f" by auto
      have fresh: "ug_con u p = None" using en pf(1) by simp
      from connection_init_inv [OF inv ca new(1) room al data fresh pf(2), of "submit_flags is_dns"] obtain v i con where
        v: "connection_init (Some p) alloc u a (submit_flags is_dns) data = Some (v, [UG_flow_init p])"
        "con = \<lparr>uc_conaddr = a, uc_first_flags = submit_flags is_dns, uc_first_data = data, uc_first_job = True, uc_conid = i, uc_ppflow = f\<rparr>"
        "ug_con v = (ug_con u)(p \<mapsto> con)" "ug_connections_list v = ug_connections_list u @ [p]" by blast
      have "u' = v" using sub' v(1) pf(1) by (metis fst_conv option.inject)
      moreover have "uc_conaddr con = a" using v(2) by simp
      ultimately have "ug_cache u' = ug_cache u @ [a]" using t v(3,4) fresh by (auto simp: ug_cache_def conaddr_of_def)
      moreover have "length (ug_cache u) \<noteq> nat (ug_max_connections u)" using new(2) len ug_invD(1) [OF inv] by (auto simp: ug_params_ok_def)
      ultimately show ?thesis using False new mem by (auto simp: lru_use_def)
    qed
  qed
qed


subsection \<open>Replies\<close>

lemma addr_ipv4_split:
  assumes "6 \<le> length d"
  shows "mem_bytes32 (badvpn_read_le32 (slice 0 4 d)) @ mem_bytes16 (badvpn_read_le16 (slice 4 2 d)) @ drop 6 d = d"
proof -
  obtain a0 a1 a2 a3 a4 a5 t where "d = a0 # a1 # a2 # a3 # a4 # a5 # t"
    using assms by (auto simp: Suc_le_length_iff numeral_eq_Suc)
  then show ?thesis by (simp add: slice_def)
qed

lemma addr_ipv6_split:
  assumes "18 \<le> length d"
  shows "slice 0 16 d @ mem_bytes16 (badvpn_read_le16 (slice 16 2 d)) @ drop 18 d = d"
proof -
  obtain a0 a1 t where t: "drop 16 d = a0 # a1 # t" using assms by (cases "drop 16 d"; cases "tl (drop 16 d)") (auto dest: arg_cong [of _ _ length])
  have "drop 18 d = t" using arg_cong [OF t, of "drop 2"] by simp
  moreover have "mem_bytes16 (badvpn_read_le16 (slice 16 2 d)) = [a0, a1]" using t by (simp add: slice_def)
  moreover have "slice 0 16 d @ drop 16 d = d" by (simp add: slice_def)
  ultimately show ?thesis using t by simp
qed

lemma header_split: "3 \<le> length d \<Longrightarrow> d = d ! 0 # mem_bytes16 (badvpn_read_le16 (slice 1 2 d)) @ drop 3 d"
  by (cases d; cases "tl d"; cases "tl (tl d)") (auto simp: slice_def)

text \<open>The wire format of a packet from the server.\<close>

definition udpgw_reply :: "byte \<Rightarrow> u16 \<Rightarrow> BAddr \<Rightarrow> byte list \<Rightarrow> byte list" where
  "udpgw_reply flags conid remote data = flags # mem_bytes16 conid @ udpgw_addr_bytes remote @ data"

lemma BAddr_ip_cases:
  assumes "BAddr_ip a"
  obtains ip port where "a = BADDR_IPV4 ip port" | ip port where "a = BADDR_IPV6 ip port" "length ip = 16"
  using assms by (cases a) (auto simp: BAddr_ip_def)

definition recv_deliver :: "UdpGwClient \<Rightarrow> u16 \<Rightarrow> BAddr \<Rightarrow> byte list \<Rightarrow> UdpGwClient \<times> ug_act list" where
  "recv_deliver u conid remote data =
     (if int (length data) > ug_udp_mtu u then (u, [UG_recv_done])
      else (case find_connection_by_conid u conid of None \<Rightarrow> (u, [UG_recv_done])
       | Some p \<Rightarrow> if BAddr_CompareOrder (ca_remote (conaddr_of u p)) remote \<noteq> 0 then (u, [UG_recv_done])
          else (move_to_end p u, [UG_recv_done, UG_received (ca_local (conaddr_of u p)) (ca_remote (conaddr_of u p)) data])))"

lemma recv_parse_reply:
  assumes "BAddr_ip r" "fl AND UDPGW_CLIENT_FLAG_IPV6 \<noteq> 0 \<longleftrightarrow> BAddr_type r = 2"
  shows "recv_interface_handler_send u (udpgw_reply fl conid r d) = recv_deliver u conid r d"
  using assms(1)
proof (cases rule: BAddr_ip_cases)
  case (1 ip port)
  let ?d = "mem_bytes32 ip @ mem_bytes16 port @ d"
  have "slice 0 4 ?d = mem_bytes32 ip" "slice 4 2 ?d = mem_bytes16 port" "drop 6 ?d = d" by (simp_all add: slice_def)
  moreover have "slice 1 2 (fl # mem_bytes16 conid @ x) = mem_bytes16 conid" for x by (simp add: slice_def)
  ultimately show ?thesis using 1 assms(2)
    by (simp add: udpgw_reply_def recv_interface_handler_send_def recv_deliver_def Let_def ltoh8_def ltoh16_def htol8_def htol16_def BAddr_InitIPv4_def BAddr_MakeIPv4_def)
next
  case (2 ip port)
  let ?d = "ip @ mem_bytes16 port @ d"
  have "slice 0 16 ?d = ip" "slice 16 2 ?d = mem_bytes16 port" "drop 18 ?d = d" using 2 by (simp_all add: slice_def)
  moreover have "slice 1 2 (fl # mem_bytes16 conid @ x) = mem_bytes16 conid" for x by (simp add: slice_def)
  ultimately show ?thesis using 2 assms(2)
    by (simp add: udpgw_reply_def recv_interface_handler_send_def recv_deliver_def Let_def ltoh8_def ltoh16_def htol8_def htol16_def BAddr_InitIPv6_def BAddr_MakeIPv6_def)
qed

lemma recv_other:
  assumes "\<nexists>fl conid r d. pkt = udpgw_reply fl conid r d \<and> BAddr_ip r \<and> (fl AND UDPGW_CLIENT_FLAG_IPV6 \<noteq> 0 \<longleftrightarrow> BAddr_type r = 2)"
  shows "recv_interface_handler_send u pkt = (u, [UG_recv_done])"
proof (rule ccontr)
  assume neq: "recv_interface_handler_send u pkt \<noteq> (u, [UG_recv_done])"
  have l: "3 \<le> length pkt" by (rule ccontr) (use neq in \<open>simp add: recv_interface_handler_send_def\<close>)
  let ?d = "drop 3 pkt" and ?c = "badvpn_read_le16 (slice 1 2 pkt)"
  show False
  proof (cases "pkt ! 0 AND UDPGW_CLIENT_FLAG_IPV6 = 0")
    case True
    have "6 \<le> length ?d"
      by (rule ccontr) (use neq l True in \<open>simp add: recv_interface_handler_send_def ltoh8_def htol8_def Let_def\<close>)
    with header_split [OF l] addr_ipv4_split have "pkt = udpgw_reply (pkt ! 0) ?c (BADDR_IPV4 (badvpn_read_le32 (slice 0 4 ?d)) (badvpn_read_le16 (slice 4 2 ?d))) (drop 6 ?d)"
      by (metis udpgw_reply_def udpgw_addr_bytes.simps(1) append.assoc)
    with assms True show False by (fastforce simp: BAddr_ip_def)
  next
    case False
    have l6: "18 \<le> length ?d"
      by (rule ccontr) (use neq l False in \<open>simp add: recv_interface_handler_send_def ltoh8_def htol8_def Let_def\<close>)
    have "udpgw_addr_bytes (BADDR_IPV6 (slice 0 16 ?d) port) = slice 0 16 ?d @ mem_bytes16 port" for port by (simp add: slice_def)
    with header_split [OF l] addr_ipv6_split [OF l6] have "pkt = udpgw_reply (pkt ! 0) ?c (BADDR_IPV6 (slice 0 16 ?d) (badvpn_read_le16 (slice 16 2 ?d))) (drop 18 ?d)"
      by (metis udpgw_reply_def append.assoc)
    moreover have "length (slice 0 16 ?d) = 16" using l6 by simp
    ultimately show False using assms False by (fastforce simp: BAddr_ip_def)
  qed
qed

text \<open>C9.  Replies are routed by identifier and remote address.  For every packet from the server: it is
  delivered, as a datagram \<open>d\<close> from \<open>r\<close> to \<open>l\<close>, exactly when it is well formed for \<open>r\<close>, \<open>d\<close> is within the MTU and the
  identifier belongs to a live connection of the pair \<open>l\<close>, \<open>r\<close>; in every other case nothing is
  delivered and the state is unchanged.\<close>

theorem UdpGwClient_reply_routing:
  assumes "ug_reachable u"
  shows "(snd (recv_interface_handler_send u pkt) = [UG_recv_done, UG_received l r d] \<longleftrightarrow>
      (\<exists>fl p con. ug_con u p = Some con \<and> uc_conaddr con = \<lparr>ca_local = l, ca_remote = r\<rparr> \<and>
         pkt = udpgw_reply fl (uc_conid con) r d \<and> (fl AND UDPGW_CLIENT_FLAG_IPV6 \<noteq> 0 \<longleftrightarrow> BAddr_type r = 2) \<and> int (length d) \<le> ug_udp_mtu u)) \<and>
    ((\<nexists>l r d. snd (recv_interface_handler_send u pkt) = [UG_recv_done, UG_received l r d]) \<longrightarrow>
      recv_interface_handler_send u pkt = (u, [UG_recv_done]))"
proof -
  note inv = ug_reachable_inv [OF assms]
  note f = find_connection_by_conid_iff [OF ug_invD(2) [OF inv]]
  let ?P = "\<lambda>fl conid r d. pkt = udpgw_reply fl conid r d \<and> BAddr_ip r \<and> (fl AND UDPGW_CLIENT_FLAG_IPV6 \<noteq> 0 \<longleftrightarrow> BAddr_type r = 2)"
  have deliv: "snd (recv_deliver u c r' d') = [UG_recv_done, UG_received l r d] \<longleftrightarrow>
      (\<exists>p con. ug_con u p = Some con \<and> uc_conaddr con = \<lparr>ca_local = l, ca_remote = r\<rparr> \<and> uc_conid con = c \<and> r' = r \<and> d' = d \<and> int (length d) \<le> ug_udp_mtu u)"
    if "BAddr_ip r'" for c r' d'
  proof -
    have cmp: "BAddr_CompareOrder (ca_remote (conaddr_of u p)) r' = 0 \<longleftrightarrow> ca_remote (conaddr_of u p) = r'" if "p \<in> dom (ug_con u)" for p
      using ug_invD(4) [OF inv] that \<open>BAddr_ip r'\<close> by (intro baddr.cmp_eq) (auto simp: conaddr_ip_def BAddr_ip_ok)
    show ?thesis
    proof (cases "find_connection_by_conid u c")
      case None
      with f(2) [of c] have "uc_conid con \<noteq> c" if "ug_con u p = Some con" for p con using that by (force simp: conid_of_def)
      with None show ?thesis by (auto simp: recv_deliver_def)
    next
      case (Some p)
      with f(1) [of c p] obtain con where con: "ug_con u p = Some con" "uc_conid con = c" by (auto simp: conid_of_def)
      have "p' = p" if "ug_con u p' = Some con'" "uc_conid con' = c" for p' con'
        using f(1) [of c p'] Some that by (auto simp: conid_of_def)
      then have "(\<exists>p con. ug_con u p = Some con \<and> uc_conaddr con = \<lparr>ca_local = l, ca_remote = r\<rparr> \<and> uc_conid con = c \<and> r' = r \<and> d' = d \<and> int (length d) \<le> ug_udp_mtu u)
        \<longleftrightarrow> uc_conaddr con = \<lparr>ca_local = l, ca_remote = r\<rparr> \<and> r' = r \<and> d' = d \<and> int (length d) \<le> ug_udp_mtu u"
        using con by (metis option.inject)
      moreover have "conaddr_of u p = uc_conaddr con" "p \<in> dom (ug_con u)" using con(1) by (auto simp: conaddr_of_def)
      moreover have "uc_conaddr con = \<lparr>ca_local = l, ca_remote = r\<rparr> \<longleftrightarrow> ca_local (uc_conaddr con) = l \<and> ca_remote (uc_conaddr con) = r" by auto
      ultimately show ?thesis using cmp [of p] Some by (auto simp: recv_deliver_def)
    qed
  qed
  have fw: "\<exists>fl p con. ug_con u p = Some con \<and> uc_conaddr con = \<lparr>ca_local = l, ca_remote = r\<rparr> \<and>
         pkt = udpgw_reply fl (uc_conid con) r d \<and> (fl AND UDPGW_CLIENT_FLAG_IPV6 \<noteq> 0 \<longleftrightarrow> BAddr_type r = 2) \<and> int (length d) \<le> ug_udp_mtu u"
    if d: "snd (recv_interface_handler_send u pkt) = [UG_recv_done, UG_received l r d]"
  proof -
    from d recv_other [of pkt u] obtain fl c r' d' where P: "?P fl c r' d'" by fastforce
    then have "recv_interface_handler_send u pkt = recv_deliver u c r' d'" using recv_parse_reply by blast
    with d deliv [of r' c d'] P show ?thesis by auto
  qed
  have bw: "snd (recv_interface_handler_send u pkt) = [UG_recv_done, UG_received l r d]"
    if c: "ug_con u p = Some con" "uc_conaddr con = \<lparr>ca_local = l, ca_remote = r\<rparr>" "pkt = udpgw_reply fl (uc_conid con) r d"
      "fl AND UDPGW_CLIENT_FLAG_IPV6 \<noteq> 0 \<longleftrightarrow> BAddr_type r = 2" "int (length d) \<le> ug_udp_mtu u" for fl p con
  proof -
    have "BAddr_ip r" using ug_invD(3) [OF inv c(1)] c(2) by (simp add: ug_con_ok_def conaddr_ip_def)
    with recv_parse_reply [OF this c(4)] deliv [OF this] c show ?thesis by auto
  qed
  show ?thesis using fw bw recv_cases [of u pkt] by (metis snd_conv)
qed

subsection \<open>The first packet of a connection\<close>

lemma ppf_Init_jobs:
  assumes "PacketProtoFlow_Init alloc mtu num = Some f" "0 < num" "alloc_ok alloc"
  shows "\<exists>d. ppf_jobs f = Some (Job_encoder_recv d)"
proof -
  have ok: "ppf_ok mtu num f [] []" using ppf_ok_Init [OF assms(1,2)] assms(3) by (simp add: alloc_ok_def)
  obtain b as where b: "PacketBuffer_Init alloc (int (pe_output_mtu (PacketProtoEncoder_Init mtu))) (int num) = Some (b, as)"
    "f = ppf_calls as \<lparr>ppf_ainput = BufferWriter_Init (int mtu), ppf_encoder = PacketProtoEncoder_Init mtu, ppf_buffer = b, ppf_jobs = None\<rparr>"
    using assms(1) by (auto simp: PacketProtoFlow_Init_def Let_def split: option.splits)
  have as: "as = [PB_Recv (pb_recv b)]"
    using b(1) by (auto simp: PacketBuffer_Init_def pb_schedule_recv_def Let_def split: if_splits option.splits)
  then have "ppf_buffer f = b" using b(2) by (cases "pb_recv b") simp_all
  moreover have "pb_recv (ppf_buffer f) \<noteq> None" using ok assms(2) by (intro pb_inv_recv [of "2 + mtu" num _ "[]"]) (simp_all add: ppf_ok_def)
  ultimately show ?thesis using as b(2) by auto
qed

lemma ppf_first_jobs:
  assumes ok: "ppf_ok mtu num f [] []" and j: "ppf_jobs f = Some (Job_encoder_recv d)"
  shows "\<exists>f1 f2. ppf_step f PPF_job = Some (f1, [], []) \<and> ppf_jobs f1 \<noteq> None \<and> ppf_step f1 PPF_job = Some (f2, [], []) \<and>
    ppf_jobs f2 = None \<and> ppf_ok mtu num f2 [] []"
proof -
  obtain f1 f2 where st: "ppf_step f PPF_job = Some (f1, [], [])" "ppf_jobs f1 \<noteq> None" "ppf_step f1 PPF_job = Some (f2, [], [])" "ppf_jobs f2 = None"
    using j by (simp add: PacketProtoEncoder_output_handler_recv_def)
  from ppf_step_ok [OF ok st(1)] have ok1: "ppf_ok mtu num f1 [] []" by auto
  from ppf_step_ok [OF ok1 st(3)] have "ppf_ok mtu num f2 [] []" by auto
  with st show ?thesis by blast
qed

lemma ug_job_flow:
  assumes "ug_con u p = Some con" "ppf_jobs (uc_ppflow con) \<noteq> None" "ppf_step (uc_ppflow con) PPF_job = Some (f, as, ps)"
  shows "ug_enabled u (UG_Job p)" "ug_step u (UG_Job p) = Some (u\<lparr>ug_con := (ug_con u)(p \<mapsto> con\<lparr>uc_ppflow := f\<rparr>)\<rparr>, [])"
  using assms by (simp_all add: flow_event_def del: ppf_step.simps)

lemma ug_job_first:
  assumes "ug_con u p = Some con" "ppf_jobs (uc_ppflow con) = None" "uc_first_job con"
    and "ppf_write (connection_packet con (UDPGW_CLIENT_FLAG_REBIND OR uc_first_flags con) (uc_first_data con)) (uc_ppflow con) = (f, True)"
  shows "ug_enabled u (UG_Job p)" and "\<exists>u'. ug_step u (UG_Job p) =
      Some (u', [UG_write p (connection_packet con (UDPGW_CLIENT_FLAG_REBIND OR uc_first_flags con) (uc_first_data con))]) \<and> conid_of u' p = uc_conid con"
proof -
  have "connection_packet (con\<lparr>uc_first_job := False\<rparr>) fl d = connection_packet con fl d" for fl d by (simp add: connection_packet_def)
  then show "\<exists>u'. ug_step u (UG_Job p) =
      Some (u', [UG_write p (connection_packet con (UDPGW_CLIENT_FLAG_REBIND OR uc_first_flags con) (uc_first_data con))]) \<and> conid_of u' p = uc_conid con"
    using assms by (simp add: connection_first_job_handler_def first_job_done_def connection_send_def conid_of_def)
qed (use assms in simp)

lemma connection_packet_reply:
  "connection_packet con fl d = udpgw_reply (if BAddr_type (ca_remote (uc_conaddr con)) = 2 then fl OR UDPGW_CLIENT_FLAG_IPV6 else fl)
     (uc_conid con) (ca_remote (uc_conaddr con)) d"
  by (simp add: connection_packet_def udpgw_reply_def udpgw_header_bytes_def Let_def ltoh8_def htol8_def ltoh16_def htol16_def)


subsection \<open>Freeing the client\<close>

lemma free_loop_all:
  assumes "ug_connections_list u = l" "distinct l" "dom (ug_con u) = set l" "distinct (ug_tree_by_conaddr u)" "set (ug_tree_by_conaddr u) = set l"
    and "distinct (ug_tree_by_conid u)" "set (ug_tree_by_conid u) = set l" "ug_num_connections u = int (length l)"
  shows "\<exists>u'. free_connections_loop (length l) u = (u', map UG_flow_free l) \<and> ug_con u' = Map.empty \<and> ug_connections_list u' = [] \<and>
    ug_tree_by_conaddr u' = [] \<and> ug_tree_by_conid u' = [] \<and> ug_num_connections u' = 0 \<and> ug_have_server u' = ug_have_server u"
  using assms
proof (induction l arbitrary: u)
  case (Cons p l)
  obtain v where v: "connection_free u p = (v, [UG_flow_free p])" by (simp add: connection_free_def Let_def)
  have "ug_con v = (ug_con u)(p := None)" using v by (auto simp: connection_free_def Let_def)
  then have "dom (ug_con v) = dom (ug_con u) - {p}" by simp
  then have "dom (ug_con v) = set l" using Cons.prems(2,3) by auto
  moreover have "ug_connections_list v = l" "distinct (ug_tree_by_conaddr v)" "set (ug_tree_by_conaddr v) = set l"
    "distinct (ug_tree_by_conid v)" "set (ug_tree_by_conid v) = set l" "ug_num_connections v = int (length l)" "ug_have_server v = ug_have_server u"
    using Cons.prems v by (auto simp: connection_free_def Let_def Tree_Remove_def)
  moreover have "distinct l" using Cons.prems by simp
  ultimately obtain w where "free_connections_loop (length l) v = (w, map UG_flow_free l)" "ug_con w = Map.empty" "ug_connections_list w = []"
    "ug_tree_by_conaddr w = []" "ug_tree_by_conid w = []" "ug_num_connections w = 0" "ug_have_server w = ug_have_server u"
    using Cons.IH [of v] by auto
  with v Cons.prems(1) show ?case by simp
qed simp

text \<open>Freeing the client releases every connection exactly once: from any reachable state the queue flow of each
  live connection is freed once, in the order of the list, the server is disconnected if there is one,
  and no connection is left in the heap, the list or the trees.\<close>

theorem UdpGwClient_Free_releases:
  assumes "ug_reachable u"
  shows "\<exists>u'. UdpGwClient_Free u = (u', map UG_flow_free (ug_connections_list u) @ (if ug_have_server u then [UG_disconnect] else [])) \<and>
    distinct (ug_connections_list u) \<and> set (ug_connections_list u) = dom (ug_con u) \<and>
    ug_con u' = Map.empty \<and> ug_connections_list u' = [] \<and> ug_tree_by_conaddr u' = [] \<and> ug_tree_by_conid u' = [] \<and> ug_num_connections u' = 0"
proof -
  note inv = ug_reachable_inv [OF assms]
  note t = ug_invD(2) [OF inv, unfolded ug_tables_ok_def]
  have "distinct (ug_tree_by_conaddr u)" "distinct (ug_tree_by_conid u)"
    using conaddr.keyed_sorted_inj(2) [of "ug_tree_by_conaddr u" "conaddr_of u"] conid.keyed_sorted_inj(2) [of "ug_tree_by_conid u" "conid_of u"]
      ug_invD(4) [OF inv] t by auto
  with free_loop_all [of u "ug_connections_list u"] t show ?thesis by (auto simp: UdpGwClient_Free_def UdpGwClient_free_server_def)
qed

subsection \<open>Examples\<close>

definition ex_ug :: UdpGwClient where
  "ex_ug = the (UdpGwClient_Init 4294967295 True 4 2 1)"

definition ex_ug_submit :: ug_event where
  "ex_ug_submit = UG_Submit (Some 7) ex_pb_alloc (BADDR_IPV4 1 2) (BADDR_IPV4 3 4) True [9, 9]"

definition ex_ug1 :: UdpGwClient where
  "ex_ug1 = fst (the (ug_step ex_ug ex_ug_submit))"

lemma ex_pb_alloc_ok: "alloc_ok ex_pb_alloc"
  by (auto simp: alloc_ok_def ex_pb_alloc_def split: if_splits)

lemma ex_ug_reachable: "ug_reachable ex_ug"
proof -
  have "ug_args_ok 4294967295 4 2 1"
    using udpgw_compute_mtu_value [of 4 4294967295] by (simp add: ug_args_ok_def PACKETPROTO_MAXPAYLOAD_def)
  moreover have "UdpGwClient_Init 4294967295 True 4 2 1 = Some ex_ug" by (simp add: ex_ug_def UdpGwClient_Init_def Let_def)
  ultimately show ?thesis unfolding ug_reachable_def
    by (intro exI [of _ 4294967295] exI [of _ 4] exI [of _ 2] exI [of _ 1] exI [of _ ex_ug] exI [of _ "[]"] exI) simp
qed

lemma ex_ug_enabled: "ug_enabled ex_ug ex_ug_submit" "ug_env_ok ex_ug_submit"
  by (simp_all add: ex_ug_submit_def ex_ug_def UdpGwClient_Init_def Let_def BAddr_ip_def ex_pb_alloc_ok)

lemma ex_ug1_reachable: "ug_reachable ex_ug1"
proof -
  obtain u as where "ug_step ex_ug ex_ug_submit = Some (u, as)"
    using ug_step_inv [OF ug_reachable_inv [OF ex_ug_reachable] ex_ug_enabled] by blast
  with ug_reachable_step [OF ex_ug_reachable ex_ug_enabled, of u as] show ?thesis by (simp add: ex_ug1_def)
qed

theorem UdpGwClient_consistent_witness:
  "ug_num_connections ex_ug1 = 1 \<and> find_connection_by_conid ex_ug1 0 = Some 7"
proof -
  have "ug_num_connections ex_ug1 = 1" "ug_con ex_ug1 7 \<noteq> None" "conid_of ex_ug1 7 = 0" by code_simp+
  with UdpGwClient_consistent [OF ex_ug1_reachable] show ?thesis by blast
qed

theorem find_unused_conid_terminates_witness:
  "\<exists>i. find_unused_conid ex_ug1 = Some (word_of_int i, ex_ug1\<lparr>ug_next_conid := i\<rparr>) \<and> (\<forall>p \<in> dom (ug_con ex_ug1). conid_of ex_ug1 p \<noteq> word_of_int i)"
proof -
  have "ug_num_connections ex_ug1 = 1" "ug_max_connections ex_ug1 = 2" by code_simp+
  with find_unused_conid_terminates [OF ex_ug1_reachable] show ?thesis by auto
qed


theorem UdpGwClient_reply_routing_witness:
  "snd (recv_interface_handler_send ex_ug1 (udpgw_reply 0 0 (BADDR_IPV4 3 4) [5])) =
     [UG_recv_done, UG_received (BADDR_IPV4 1 2) (BADDR_IPV4 3 4) [5]]"
proof -
  have "map_option (\<lambda>con. (uc_conaddr con, uc_conid con)) (ug_con ex_ug1 7) = Some (\<lparr>ca_local = BADDR_IPV4 1 2, ca_remote = BADDR_IPV4 3 4\<rparr>, 0)"
    "ug_udp_mtu ex_ug1 = 4" by code_simp+
  then obtain con where "ug_con ex_ug1 7 = Some con" "uc_conaddr con = \<lparr>ca_local = BADDR_IPV4 1 2, ca_remote = BADDR_IPV4 3 4\<rparr>" "uc_conid con = 0"
    "ug_udp_mtu ex_ug1 = 4" by auto
  then have "\<exists>fl p con. ug_con ex_ug1 p = Some con \<and> uc_conaddr con = \<lparr>ca_local = BADDR_IPV4 1 2, ca_remote = BADDR_IPV4 3 4\<rparr> \<and>
         udpgw_reply 0 0 (BADDR_IPV4 3 4) [5] = udpgw_reply fl (uc_conid con) (BADDR_IPV4 3 4) [5] \<and>
         (fl AND UDPGW_CLIENT_FLAG_IPV6 \<noteq> 0 \<longleftrightarrow> BAddr_type (BADDR_IPV4 3 4) = 2) \<and> int (length [5 :: byte]) \<le> ug_udp_mtu ex_ug1"
    by (intro exI [of _ 0] exI [of _ 7] exI [of _ con]) simp
  with UdpGwClient_reply_routing [OF ex_ug1_reachable] show ?thesis by blast
qed


theorem UdpGwClient_Free_releases_witness:
  "\<exists>u'. UdpGwClient_Free ex_ug1 = (u', [UG_flow_free 7]) \<and> ug_con u' = Map.empty"
proof -
  have "ug_connections_list ex_ug1 = [7]" "\<not> ug_have_server ex_ug1" by code_simp+
  with UdpGwClient_Free_releases [OF ex_ug1_reachable] show ?thesis by auto
qed

end
