(* ===== verification/SocksUdpGw.thy ===== *)
theory SocksUdpGw
  imports UdpGwClient
begin

text \<open>
  \<^verbatim>\<open>tun2socks/SocksUdpGwClient.c\<close> as it is built (without \<^verbatim>\<open>ANDROID_UDP\<close>): the UDP gateway client over a SOCKS
  connection, which is set up again after every failure.  This theory composes the models of
  \<^verbatim>\<open>UdpGwClient.c\<close> and \<^verbatim>\<open>BSocksClient.c\<close>: their calls to each other's handlers are executed, and the reconnect timer
  is part of the state.  Shown: the assertions of the handlers hold, the timer runs exactly while there is no SOCKS
  client, the gateway is attached to the stream exactly while the handshake is done, the connection table survives
  reconnection, every resource is released as often as acquired, and with a conforming server the link comes up again.
\<close>

subsection \<open>State\<close>

record SocksUdpGwClient =
  su_auth_info :: "BSocksClient_auth_info list"
  su_remote_udpgw_addr :: BAddr
  su_udpgw_client :: UdpGwClient
  su_reconnect_timer :: bool
  su_have_socks :: bool
  su_socks_client :: BSocksClient
  su_socks_up :: bool

datatype su_act = SU_udpgw ug_act | SU_socks sc_act | SU_set_timer | SU_remove_timer | SU_received BAddr BAddr "byte list"

subsection \<open>Operations\<close>

text \<open>\<open>connector_ok\<close>, \<open>decoder_ok\<close> and \<open>queue_ok\<close> are the results of the initialisations that can fail, \<open>mem\<close> is the memory
  of the fields that \<^verbatim>\<open>SocksUdpGwClient_Init\<close> leaves uninitialised.\<close>

definition free_socks :: "SocksUdpGwClient \<Rightarrow> SocksUdpGwClient \<times> su_act list" where
  "free_socks o1 =
     (let (u, a1) = (if su_socks_up o1 then UdpGwClient_DisconnectServer (su_udpgw_client o1) else (su_udpgw_client o1, []));
          (ob, a2) = BSocksClient_Free (su_socks_client o1)
      in (o1\<lparr>su_udpgw_client := u, su_socks_client := ob, su_have_socks := False\<rparr>, map SU_udpgw a1 @ map SU_socks a2))"

definition try_connect :: "bool \<Rightarrow> SocksUdpGwClient \<Rightarrow> SocksUdpGwClient \<times> su_act list" where
  "try_connect connector_ok o1 =
     (case BSocksClient_Init connector_ok (su_auth_info o1) (su_remote_udpgw_addr o1) of
        None \<Rightarrow> (o1\<lparr>su_reconnect_timer := True\<rparr>, [SU_set_timer])
      | Some (ob, as) \<Rightarrow> (o1\<lparr>su_socks_client := ob, su_have_socks := True, su_socks_up := False\<rparr>, map SU_socks as))"

definition reconnect_timer_handler :: "bool \<Rightarrow> SocksUdpGwClient \<Rightarrow> SocksUdpGwClient \<times> su_act list" where
  "reconnect_timer_handler connector_ok o1 = try_connect connector_ok o1"

definition free_and_set_timer :: "SocksUdpGwClient \<Rightarrow> SocksUdpGwClient \<times> su_act list" where
  "free_and_set_timer o1 = (let (o1, as) = free_socks o1 in (o1\<lparr>su_reconnect_timer := True\<rparr>, as @ [SU_set_timer]))"

definition socks_client_handler :: "bool \<Rightarrow> SocksUdpGwClient \<Rightarrow> socks_event \<Rightarrow> SocksUdpGwClient \<times> su_act list" where
  "socks_client_handler decoder_ok o1 event =
     (case event of
        BSOCKSCLIENT_EVENT_UP \<Rightarrow>
          (let (u, ok, a1) = UdpGwClient_ConnectServer decoder_ok (su_udpgw_client o1);
               o1 = o1\<lparr>su_udpgw_client := u\<rparr>
           in if ok then (o1\<lparr>su_socks_up := True\<rparr>, map SU_udpgw a1)
              else (let (o1, a2) = free_and_set_timer o1 in (o1, map SU_udpgw a1 @ a2)))
      | _ \<Rightarrow> free_and_set_timer o1)"

definition udpgw_handler_servererror :: "SocksUdpGwClient \<Rightarrow> SocksUdpGwClient \<times> su_act list" where
  "udpgw_handler_servererror o1 = free_and_set_timer o1"

definition udpgw_handler_received :: "SocksUdpGwClient \<Rightarrow> BAddr \<Rightarrow> BAddr \<Rightarrow> byte list \<Rightarrow> su_act list" where
  "udpgw_handler_received o1 local_addr remote_addr data = [SU_received local_addr remote_addr data]"

definition SocksUdpGwClient_Init ::
  "BSocksClient \<times> bool \<Rightarrow> nat \<Rightarrow> bool \<Rightarrow> bool \<Rightarrow> int \<Rightarrow> int \<Rightarrow> int \<Rightarrow> BSocksClient_auth_info list \<Rightarrow> BAddr \<Rightarrow> (SocksUdpGwClient \<times> su_act list) option" where
  "SocksUdpGwClient_Init mem smax queue_ok connector_ok udp_mtu max_connections send_buffer_size auth_info remote_udpgw_addr =
     (case UdpGwClient_Init smax queue_ok udp_mtu max_connections send_buffer_size of
        None \<Rightarrow> None
      | Some u \<Rightarrow> Some (try_connect connector_ok
          \<lparr>su_auth_info = auth_info, su_remote_udpgw_addr = remote_udpgw_addr, su_udpgw_client = u, su_reconnect_timer = False,
            su_have_socks = False, su_socks_client = fst mem, su_socks_up = snd mem\<rparr>))"

definition SocksUdpGwClient_Free :: "SocksUdpGwClient \<Rightarrow> SocksUdpGwClient \<times> su_act list" where
  "SocksUdpGwClient_Free o1 =
     (let (o1, a1) = (if su_have_socks o1 then free_socks o1 else (o1, []));
          (u, a2) = UdpGwClient_Free (su_udpgw_client o1)
      in (o1\<lparr>su_reconnect_timer := False, su_udpgw_client := u\<rparr>, a1 @ [SU_remove_timer] @ map SU_udpgw a2))"

definition SocksUdpGwClient_SubmitPacket ::
  "nat option \<Rightarrow> (int \<Rightarrow> byte list option) \<Rightarrow> SocksUdpGwClient \<Rightarrow> BAddr \<Rightarrow> BAddr \<Rightarrow> bool \<Rightarrow> byte list \<Rightarrow> (SocksUdpGwClient \<times> su_act list) option" where
  "SocksUdpGwClient_SubmitPacket mal alloc o1 local_addr remote_addr is_dns data =
     map_option (\<lambda>(u, as). (o1\<lparr>su_udpgw_client := u\<rparr>, map SU_udpgw as))
       (UdpGwClient_SubmitPacket mal alloc (su_udpgw_client o1) local_addr remote_addr is_dns data)"

subsection \<open>Events\<close>

text \<open>The events of the SOCKS client and of the gateway client, whose calls are dispatched to the handlers above, and the timer.\<close>

fun su_socks_calls :: "bool \<Rightarrow> SocksUdpGwClient \<Rightarrow> socks_event list \<Rightarrow> SocksUdpGwClient \<times> su_act list" where
  "su_socks_calls decoder_ok o1 [] = (o1, [])"
| "su_socks_calls decoder_ok o1 (e # es) =
     (if su_have_socks o1
      then (let (o1, as) = socks_client_handler decoder_ok o1 e; (o1, bs) = su_socks_calls decoder_ok o1 es in (o1, as @ bs))
      else (o1, []))"

fun su_udpgw_calls :: "SocksUdpGwClient \<Rightarrow> ug_act list \<Rightarrow> SocksUdpGwClient \<times> su_act list" where
  "su_udpgw_calls o1 [] = (o1, [])"
| "su_udpgw_calls o1 (UG_servererror # as) =
     (let (o1, bs) = udpgw_handler_servererror o1; (o1, cs) = su_udpgw_calls o1 as in (o1, bs @ cs))"
| "su_udpgw_calls o1 (UG_received l r d # as) =
     (let bs = udpgw_handler_received o1 l r d; (o1, cs) = su_udpgw_calls o1 as in (o1, bs @ cs))"
| "su_udpgw_calls o1 (_ # as) = su_udpgw_calls o1 as"

datatype su_event = SU_Socks bool sc_event | SU_Gateway ug_event | SU_Timer bool

fun su_step :: "nat \<Rightarrow> SocksUdpGwClient \<Rightarrow> su_event \<Rightarrow> (SocksUdpGwClient \<times> su_act list) option" where
  "su_step smax o1 (SU_Socks decoder_ok e) =
     (let (ob, as) = sc_step smax (su_socks_client o1) e;
          (o1, bs) = su_socks_calls decoder_ok (o1\<lparr>su_socks_client := ob\<rparr>) (events_of as)
      in Some (o1, map SU_socks as @ bs))"
| "su_step smax o1 (SU_Gateway e) =
     (case ug_step (su_udpgw_client o1) e of None \<Rightarrow> None
      | Some (u, as) \<Rightarrow> (let (o1, bs) = su_udpgw_calls (o1\<lparr>su_udpgw_client := u\<rparr>) as in Some (o1, map SU_udpgw as @ bs)))"
| "su_step smax o1 (SU_Timer connector_ok) = Some (reconnect_timer_handler connector_ok (o1\<lparr>su_reconnect_timer := False\<rparr>))"

fun su_enabled :: "SocksUdpGwClient \<Rightarrow> su_event \<Rightarrow> bool" where
  "su_enabled o1 (SU_Socks _ e) = (su_have_socks o1 \<and> sc_enabled (su_socks_client o1) e)"
| "su_enabled o1 (SU_Gateway e) = (ug_enabled (su_udpgw_client o1) e \<and> (case e of UG_Connect _ \<Rightarrow> False | UG_Disconnect \<Rightarrow> False | _ \<Rightarrow> True))"
| "su_enabled o1 (SU_Timer _) = su_reconnect_timer o1"

fun su_run :: "nat \<Rightarrow> SocksUdpGwClient \<Rightarrow> su_event list \<Rightarrow> (SocksUdpGwClient \<times> su_act list) option" where
  "su_run smax o1 [] = Some (o1, [])"
| "su_run smax o1 (e # es) =
     (if su_enabled o1 e
      then (case su_step smax o1 e of None \<Rightarrow> None
            | Some (o2, as) \<Rightarrow> (case su_run smax o2 es of None \<Rightarrow> None | Some (o3, bs) \<Rightarrow> Some (o3, as @ bs)))
      else None)"

fun su_env_ok :: "su_event \<Rightarrow> bool" where
  "su_env_ok (SU_Gateway e) = ug_env_ok e"
| "su_env_ok _ = True"

subsection \<open>Invariant and resources\<close>

definition su_inv :: "SocksUdpGwClient \<Rightarrow> bool" where
  "su_inv o1 \<longleftrightarrow> ug_inv (su_udpgw_client o1) \<and> sc_args_ok (su_auth_info o1) (su_remote_udpgw_addr o1) \<and>
     (su_reconnect_timer o1 \<longleftrightarrow> \<not> su_have_socks o1) \<and>
     (ug_have_server (su_udpgw_client o1) \<longleftrightarrow> su_have_socks o1 \<and> su_socks_up o1) \<and>
     (su_have_socks o1 \<longrightarrow> \<not> gone (su_socks_client o1) \<and> (\<exists>tx rx. sc_inv (su_socks_client o1) tx rx) \<and>
        (su_socks_up o1 \<longleftrightarrow> sc_state (su_socks_client o1) = STATE_UP))"

datatype su_resource = R_connector | R_connection | R_control | R_data | R_server

primrec acquire :: "su_resource \<Rightarrow> su_act" where
  "acquire R_connector = SU_socks SC_connector_init"
| "acquire R_connection = SU_socks SC_con_init"
| "acquire R_control = SU_socks SC_control_init"
| "acquire R_data = SU_socks SC_up_init"
| "acquire R_server = SU_udpgw UG_connect"

primrec release :: "su_resource \<Rightarrow> su_act" where
  "release R_connector = SU_socks SC_connector_free"
| "release R_connection = SU_socks SC_con_free"
| "release R_control = SU_socks SC_control_free"
| "release R_data = SU_socks SC_up_free"
| "release R_server = SU_udpgw UG_disconnect"

primrec holds :: "SocksUdpGwClient \<Rightarrow> su_resource \<Rightarrow> bool" where
  "holds o1 R_connector = su_have_socks o1"
| "holds o1 R_connection = (su_have_socks o1 \<and> sc_state (su_socks_client o1) \<noteq> STATE_CONNECTING)"
| "holds o1 R_control = (su_have_socks o1 \<and> sc_state (su_socks_client o1) \<notin> {STATE_CONNECTING, STATE_UP})"
| "holds o1 R_data = (su_have_socks o1 \<and> sc_state (su_socks_client o1) = STATE_UP)"
| "holds o1 R_server = ug_have_server (su_udpgw_client o1)"

definition su_accounts :: "SocksUdpGwClient \<Rightarrow> SocksUdpGwClient \<times> su_act list \<Rightarrow> bool" where
  "su_accounts o1 r \<longleftrightarrow> (\<forall>x. of_bool (holds o1 x) + count_list (snd r) (acquire x) = (of_bool (holds (fst r) x) + count_list (snd r) (release x) :: nat))"

lemma su_accounts_refl: "su_accounts o1 (o1, [])"
  by (simp add: su_accounts_def)

lemma su_accounts_trans: "su_accounts o1 (o2, as) \<Longrightarrow> su_accounts o2 (o3, bs) \<Longrightarrow> su_accounts o1 (o3, as @ bs)"
proof (unfold su_accounts_def fst_conv snd_conv, intro allI)
  fix x
  assume a: "\<forall>x. of_bool (holds o1 x) + count_list as (acquire x) = (of_bool (holds o2 x) + count_list as (release x) :: nat)"
    "\<forall>x. of_bool (holds o2 x) + count_list bs (acquire x) = (of_bool (holds o3 x) + count_list bs (release x) :: nat)"
  from a(1) [THEN spec, of x] a(2) [THEN spec, of x]
  show "of_bool (holds o1 x) + count_list (as @ bs) (acquire x) = (of_bool (holds o3 x) + count_list (as @ bs) (release x) :: nat)"
    unfolding count_list_append by linarith
qed

lemma su_accountsI:
  assumes "\<And>x. of_bool (holds o1 x) + count_list as (acquire x) = (of_bool (holds o2 x) + count_list as (release x) :: nat)"
  shows "su_accounts o1 (o2, as)"
  using assms by (simp add: su_accounts_def)

lemma count_list_inj:
  "count_list (map SU_socks as) (SU_socks a) = count_list as a" "count_list (map SU_socks as) (SU_udpgw b) = 0"
  "count_list (map SU_udpgw bs) (SU_udpgw b) = count_list bs b" "count_list (map SU_udpgw bs) (SU_socks a) = 0"
  by (induction as, simp_all) (induction bs; simp)+

text \<open>Giving up a SOCKS client, in a state where the gateway is attached to it exactly if \<^verbatim>\<open>socks_up\<close> says so.\<close>

lemma free_socks_result:
  assumes "su_have_socks o1" "ug_have_server (su_udpgw_client o1) \<longleftrightarrow> su_socks_up o1"
  shows "\<exists>ob as. free_socks o1 = (o1\<lparr>su_udpgw_client := (su_udpgw_client o1)\<lparr>ug_have_server := False\<rparr>, su_socks_client := ob, su_have_socks := False\<rparr>, as) \<and>
    su_accounts o1 (o1\<lparr>su_udpgw_client := (su_udpgw_client o1)\<lparr>ug_have_server := False\<rparr>, su_socks_client := ob, su_have_socks := False\<rparr>, as)"
proof -
  obtain ob a2 where f: "BSocksClient_Free (su_socks_client o1) = (ob, a2)" by fastforce
  let ?u = "(su_udpgw_client o1)\<lparr>ug_have_server := False\<rparr>"
  let ?as = "(if su_socks_up o1 then [SU_udpgw UG_disconnect] else []) @ map SU_socks a2"
  have "free_socks o1 = (o1\<lparr>su_udpgw_client := ?u, su_socks_client := ob, su_have_socks := False\<rparr>, ?as)"
    using assms(2) by (simp add: free_socks_def f UdpGwClient_DisconnectServer_def UdpGwClient_free_server_def)
  moreover have "su_accounts o1 (o1\<lparr>su_udpgw_client := ?u, su_socks_client := ob, su_have_socks := False\<rparr>, ?as)"
  proof (rule su_accountsI)
    fix x
    note c = BSocksClient_Free_counts [of "su_socks_client o1", unfolded f snd_conv]
    show "of_bool (holds o1 x) + count_list ?as (acquire x) =
      (of_bool (holds (o1\<lparr>su_udpgw_client := ?u, su_socks_client := ob, su_have_socks := False\<rparr>) x) + count_list ?as (release x) :: nat)"
      using assms by (cases x) (auto simp: count_list_append count_list_inj c)
  qed
  ultimately show ?thesis by blast
qed

lemma ug_server_self: "\<exists>b. u = u\<lparr>ug_have_server := b\<rparr>"
  by (rule exI [of _ "ug_have_server u"]) simp

lemma ug_inv_server: "ug_inv (u\<lparr>ug_have_server := b\<rparr>) = ug_inv u"
  by (simp add: ug_inv_def ug_params_ok_def ug_tables_ok_def ug_con_ok_def conaddr_of_def conid_of_def)

lemma free_and_set_timer_result:
  assumes "su_have_socks o1" "ug_have_server (su_udpgw_client o1) \<longleftrightarrow> su_socks_up o1"
    and "ug_inv (su_udpgw_client o1)" "sc_args_ok (su_auth_info o1) (su_remote_udpgw_addr o1)"
  shows "\<exists>o2 as. free_and_set_timer o1 = (o2, as) \<and> su_inv o2 \<and> \<not> su_have_socks o2 \<and> su_accounts o1 (o2, as) \<and>
    (\<exists>b. su_udpgw_client o2 = (su_udpgw_client o1)\<lparr>ug_have_server := b\<rparr>)"
proof -
  obtain ob as where f: "free_socks o1 = (o1\<lparr>su_udpgw_client := (su_udpgw_client o1)\<lparr>ug_have_server := False\<rparr>, su_socks_client := ob, su_have_socks := False\<rparr>, as)"
    "su_accounts o1 (o1\<lparr>su_udpgw_client := (su_udpgw_client o1)\<lparr>ug_have_server := False\<rparr>, su_socks_client := ob, su_have_socks := False\<rparr>, as)"
    using free_socks_result [OF assms(1,2)] by blast
  let ?o = "o1\<lparr>su_udpgw_client := (su_udpgw_client o1)\<lparr>ug_have_server := False\<rparr>, su_socks_client := ob, su_have_socks := False, su_reconnect_timer := True\<rparr>"
  have "free_and_set_timer o1 = (?o, as @ [SU_set_timer])" by (simp add: free_and_set_timer_def f(1))
  moreover have "su_accounts (o1\<lparr>su_udpgw_client := (su_udpgw_client o1)\<lparr>ug_have_server := False\<rparr>, su_socks_client := ob, su_have_socks := False\<rparr>) (?o, [SU_set_timer])"
    by (rule su_accountsI, case_tac x) auto
  from su_accounts_trans [OF f(2) this] have "su_accounts o1 (?o, as @ [SU_set_timer])" .
  moreover have "su_inv ?o" using assms(3,4) by (simp add: su_inv_def ug_inv_server)
  ultimately show ?thesis by auto
qed

lemma socks_error_result:
  assumes o1: "su_have_socks o1" "ug_have_server (su_udpgw_client o1) \<longleftrightarrow> su_socks_up o1" "su_socks_up o1 \<longleftrightarrow> sc_state (su_socks_client o1) = STATE_UP"
    and base: "ug_inv (su_udpgw_client o1)" "sc_args_ok (su_auth_info o1) (su_remote_udpgw_addr o1)" "\<not> su_reconnect_timer o1"
      "sc_inv (su_socks_client o1) tx rx"
    and err: "if gone (su_socks_client o1) then err = [BSOCKSCLIENT_EVENT_ERROR] \<or> err = [BSOCKSCLIENT_EVENT_ERROR_CLOSED] else err = []"
  shows "\<exists>o2 bs. su_socks_calls decoder_ok o1 err = (o2, bs) \<and> su_inv o2 \<and> su_accounts o1 (o2, bs) \<and>
    (\<exists>b. su_udpgw_client o2 = (su_udpgw_client o1)\<lparr>ug_have_server := b\<rparr>) \<and> (\<not> gone (su_socks_client o1) \<longrightarrow> o2 = o1)"
proof (cases "gone (su_socks_client o1)")
  case True
  obtain o2 as where f: "free_and_set_timer o1 = (o2, as)" "su_inv o2" "su_accounts o1 (o2, as)"
    "\<exists>b. su_udpgw_client o2 = (su_udpgw_client o1)\<lparr>ug_have_server := b\<rparr>"
    using free_and_set_timer_result [OF o1(1,2) base(1,2)] by blast
  have "su_socks_calls decoder_ok o1 err = (o2, as)" using True err o1(1) f(1) by (auto simp: socks_client_handler_def)
  with f True show ?thesis by blast
next
  case False
  then have "su_inv o1" using o1 base by (auto simp: su_inv_def)
  then show ?thesis using False err su_accounts_refl ug_server_self by auto
qed

text \<open>The events reported by one step of the SOCKS client are handled.  \<open>o1\<close> is the state before the step, \<open>o2\<close> that
  after it but before the handlers ran.\<close>

lemma socks_step_result:
  assumes inv: "su_inv o1" "su_have_socks o1" and en: "sc_enabled (su_socks_client o1) e" and smax: "65535 \<le> smax"
    and st: "sc_step smax (su_socks_client o1) e = (ob, as)"
  shows "\<exists>o2 bs. su_socks_calls decoder_ok (o1\<lparr>su_socks_client := ob\<rparr>) (events_of as) = (o2, bs) \<and> su_inv o2 \<and>
    su_accounts o1 (o2, map SU_socks as @ bs) \<and> (\<exists>b. su_udpgw_client o2 = (su_udpgw_client o1)\<lparr>ug_have_server := b\<rparr>) \<and>
    (\<not> gone ob \<and> decoder_ok \<longrightarrow> su_have_socks o2 \<and> su_socks_client o2 = ob)"
proof -
  let ?ob = "su_socks_client o1" and ?o = "o1\<lparr>su_socks_client := ob\<rparr>"
  obtain tx rx where i: "sc_inv ?ob tx rx" "\<not> gone ?ob" "su_socks_up o1 \<longleftrightarrow> sc_state ?ob = STATE_UP" using inv by (auto simp: su_inv_def)
  have inv': "sc_inv ob (tx @ tx_of as) (rx @ rx_of [e])" using sc_step_inv [OF smax i(1) en] st by simp
  have acc: "sc_accounts ?ob (ob, as)" using sc_step_accounts [OF i(1) en, of smax] st by simp
  have srv: "ug_have_server (su_udpgw_client o1) \<longleftrightarrow> su_socks_up o1" using inv by (simp add: su_inv_def)
  have base: "ug_inv (su_udpgw_client o1)" "sc_args_ok (su_auth_info o1) (su_remote_udpgw_addr o1)" "\<not> su_reconnect_timer o1"
    using inv by (simp_all add: su_inv_def)
  define up where "up = (sc_state ob = STATE_UP \<and> \<not> su_socks_up o1)"
  from acc obtain err where err: "events_of as = (if up then [BSOCKSCLIENT_EVENT_UP] else []) @ err"
    "if gone ob then err = [BSOCKSCLIENT_EVENT_ERROR] \<or> err = [BSOCKSCLIENT_EVENT_ERROR_CLOSED] \<and> sc_state ob = STATE_UP else err = []"
    unfolding sc_accounts_def Let_def fst_conv snd_conv up_def i(3) by blast
  have a0: "su_accounts o1 (?o, map SU_socks as)"
    by (rule su_accountsI, case_tac x) (use acc inv(2) in \<open>simp_all add: sc_accounts_def Let_def count_list_inj\<close>)
  have mono: "su_socks_up o1 \<Longrightarrow> sc_state ob = STATE_UP" using acc i(3) by (simp add: sc_accounts_def Let_def)
  have err': "if gone ob then err = [BSOCKSCLIENT_EVENT_ERROR] \<or> err = [BSOCKSCLIENT_EVENT_ERROR_CLOSED] else err = []"
    using err(2) by (auto split: if_splits)
  show ?thesis
  proof (cases up)
    case False
    then have "su_socks_up o1 \<longleftrightarrow> sc_state ob = STATE_UP" using mono by (auto simp: up_def)
    then obtain o2 bs where "su_socks_calls decoder_ok ?o err = (o2, bs)" "su_inv o2" "su_accounts ?o (o2, bs)"
      "\<exists>b. su_udpgw_client o2 = (su_udpgw_client o1)\<lparr>ug_have_server := b\<rparr>" "\<not> gone ob \<longrightarrow> o2 = ?o"
      using socks_error_result [of ?o "tx @ tx_of as" "rx @ rx_of [e]" err decoder_ok] inv(2) srv base inv' err' by auto
    with False err(1) su_accounts_trans [OF a0] inv(2) show ?thesis by auto
  next
    case True
    then have nup: "\<not> su_socks_up o1" "sc_state ob = STATE_UP" by (auto simp: up_def)
    show ?thesis
    proof (cases decoder_ok)
      case ok: True
      let ?o' = "?o\<lparr>su_udpgw_client := (su_udpgw_client o1)\<lparr>ug_have_server := True\<rparr>, su_socks_up := True\<rparr>"
      have h: "socks_client_handler decoder_ok ?o BSOCKSCLIENT_EVENT_UP = (?o', [SU_udpgw UG_connect])"
        using ok by (simp add: socks_client_handler_def UdpGwClient_ConnectServer_def)
      have a1: "su_accounts ?o (?o', [SU_udpgw UG_connect])"
        by (rule su_accountsI, case_tac x) (use srv nup in auto)
      obtain o2 bs where r: "su_socks_calls decoder_ok ?o' err = (o2, bs)" "su_inv o2" "su_accounts ?o' (o2, bs)"
        "\<exists>b. su_udpgw_client o2 = (su_udpgw_client ?o')\<lparr>ug_have_server := b\<rparr>" "\<not> gone ob \<longrightarrow> o2 = ?o'"
        using socks_error_result [of ?o' "tx @ tx_of as" "rx @ rx_of [e]" err decoder_ok] inv(2) nup base inv' err' by (auto simp: ug_inv_server)
      have "su_socks_calls decoder_ok ?o (events_of as) = (o2, SU_udpgw UG_connect # bs)" using True err(1) h r(1) inv(2) by simp
      moreover have "su_accounts o1 (o2, map SU_socks as @ [SU_udpgw UG_connect] @ bs)"
        using su_accounts_trans [OF a0 su_accounts_trans [OF a1 r(3)]] .
      ultimately show ?thesis using r(2,4,5) inv(2) by auto
    next
      case False
      obtain o2 bs where r: "free_and_set_timer ?o = (o2, bs)" "su_inv o2" "\<not> su_have_socks o2" "su_accounts ?o (o2, bs)"
        "\<exists>b. su_udpgw_client o2 = (su_udpgw_client ?o)\<lparr>ug_have_server := b\<rparr>"
        using free_and_set_timer_result [of ?o] inv(2) srv base by auto
      have h: "socks_client_handler decoder_ok ?o BSOCKSCLIENT_EVENT_UP = (o2, bs)"
        using False r(1) by (simp add: socks_client_handler_def UdpGwClient_ConnectServer_def)
      have "su_socks_calls decoder_ok o2 err = (o2, [])" using r(3) by (cases err) simp_all
      then have "su_socks_calls decoder_ok ?o (events_of as) = (o2, bs)" using True err(1) h inv(2) by simp
      with r su_accounts_trans [OF a0 r(4)] False show ?thesis by auto
    qed
  qed
qed

text \<open>Steps of the gateway client leave the attachment to the server alone, and report an error only on a decoder error.\<close>

lemma find_unused_conid_server: "find_unused_conid u = Some r \<Longrightarrow> ug_have_server (snd r) = ug_have_server u"
  by (rule find_unused_conid.raw_induct [where P = "\<lambda>u r. ug_have_server (snd r) = ug_have_server u"])
     (fastforce split: if_splits)+

definition ug_quiet :: "UdpGwClient \<Rightarrow> UdpGwClient \<times> ug_act list \<Rightarrow> bool" where
  "ug_quiet u r \<longleftrightarrow> ug_have_server (fst r) = ug_have_server u \<and> set (snd r) \<inter> {UG_connect, UG_disconnect, UG_servererror} = {}"

lemma connection_send_quiet: "ug_have_server u' = ug_have_server u \<Longrightarrow> ug_quiet u (connection_send u' p fl data)"
  by (auto simp: connection_send_def ug_quiet_def Let_def case_prod_beta split: option.splits)

lemma submit_quiet:
  assumes "UdpGwClient_SubmitPacket mal alloc u l r is_dns data = Some (u', as)"
  shows "ug_quiet u (u', as)"
proof -
  have init: "ug_quiet u (u', as)" if "connection_init mal alloc u a fl data = Some (u', as)" for a fl
    using that find_unused_conid_server [of u]
    by (fastforce simp: connection_init_def ug_quiet_def conaddr_insert_def conid_insert_def Let_def split: option.splits)
  have reuse: "ug_have_server u1 = ug_have_server u" if "reuse_connection u a = Some (u1, p)" for a u1 p
    using that by (auto simp: reuse_connection_def conaddr_insert_def Let_def split: list.splits option.splits)
  have snd: "ug_quiet u (u', as)" if "connection_send (move_to_end p u1) p fl data = (u', as)" "ug_have_server u1 = ug_have_server u" for p u1 fl
    using connection_send_quiet [of "move_to_end p u1" u p fl data] that by (simp add: move_to_end_def)
  show ?thesis
    using assms init reuse snd unfolding UdpGwClient_SubmitPacket_def Let_def
    by (fastforce split: option.splits if_splits)
qed

lemma ug_step_quiet:
  assumes "ug_step u e = Some (u', as)" "case e of UG_Connect _ \<Rightarrow> False | UG_Disconnect \<Rightarrow> False | UG_Error \<Rightarrow> False | _ \<Rightarrow> True"
  shows "ug_quiet u (u', as)"
proof (cases e)
  case (UG_Recv data)
  with assms(1) recv_cases [of u data] show ?thesis by (auto simp: ug_quiet_def move_to_end_def)
next
  case (UG_Job p)
  have f: "ug_have_server v = ug_have_server u" if "flow_event PPF_job p u = Some v" for v
    using that by (auto simp: flow_event_def split: option.splits)
  have "ug_quiet u (connection_first_job_handler (first_job_done p u) p)"
  proof (cases "ug_con (first_job_done p u) p")
    case (Some con)
    then show ?thesis unfolding connection_first_job_handler_def
      by (simp only: option.case) (intro connection_send_quiet, simp add: first_job_done_def)
  qed (simp add: connection_first_job_handler_def ug_quiet_def first_job_done_def)
  with UG_Job assms(1) f show ?thesis by (auto simp: ug_quiet_def split: option.splits if_splits)
next
  case (UG_Finished p)
  with assms(1) show ?thesis by (auto simp: ug_quiet_def flow_event_def split: option.splits)
qed (use assms submit_quiet in \<open>auto simp: ug_quiet_def send_monitor_handler_def keepalive_if_handler_done_def split: if_splits\<close>)

lemma gateway_calls_quiet:
  "UG_servererror \<notin> set as \<Longrightarrow> \<exists>bs. su_udpgw_calls o1 as = (o1, bs) \<and> (\<forall>a. SU_socks a \<notin> set bs) \<and> (\<forall>a. SU_udpgw a \<notin> set bs)"
proof (induction o1 as rule: su_udpgw_calls.induct)
  case (3 o1 l r d as)
  then show ?case by (fastforce simp: udpgw_handler_received_def Let_def)
qed auto

lemma gateway_step_result:
  assumes inv: "su_inv o1" and en: "su_enabled o1 (SU_Gateway e)" and env: "ug_env_ok e"
  shows "\<exists>o2 as. su_step smax o1 (SU_Gateway e) = Some (o2, as) \<and> su_inv o2 \<and> su_accounts o1 (o2, as)"
proof -
  have ug: "ug_inv (su_udpgw_client o1)" "ug_enabled (su_udpgw_client o1) e" using inv en by (simp_all add: su_inv_def)
  from ug_step_inv [OF ug env] obtain u as where st: "ug_step (su_udpgw_client o1) e = Some (u, as)" "ug_inv u" by blast
  show ?thesis
  proof (cases "e = UG_Error")
    case True
    then have u: "u = su_udpgw_client o1" "as = [UG_servererror]" using st(1) by (auto simp: decoder_handler_error_def)
    have srv: "su_have_socks o1" "ug_have_server (su_udpgw_client o1) \<longleftrightarrow> su_socks_up o1" "sc_args_ok (su_auth_info o1) (su_remote_udpgw_addr o1)"
      using inv en True by (auto simp: su_inv_def)
    from free_and_set_timer_result [OF srv(1,2) ug(1) srv(3)] obtain o2 bs where
      f: "free_and_set_timer o1 = (o2, bs)" "su_inv o2" "su_accounts o1 (o2, bs)" by blast
    have "su_step smax o1 (SU_Gateway e) = Some (o2, SU_udpgw UG_servererror # bs)"
      using st(1) u f(1) by (simp add: udpgw_handler_servererror_def)
    moreover have "su_accounts o1 (o1, [SU_udpgw UG_servererror])" by (rule su_accountsI, case_tac x) auto
    from su_accounts_trans [OF this f(3)] have "su_accounts o1 (o2, SU_udpgw UG_servererror # bs)" by simp
    ultimately show ?thesis using f(2) by blast
  next
    case False
    with en have q: "ug_quiet (su_udpgw_client o1) (u, as)" by (intro ug_step_quiet [OF st(1)]) (auto split: ug_event.splits)
    let ?o = "o1\<lparr>su_udpgw_client := u\<rparr>"
    from q gateway_calls_quiet [of as ?o] obtain bs where b: "su_udpgw_calls ?o as = (?o, bs)" "\<forall>a. SU_socks a \<notin> set bs" "\<forall>a. SU_udpgw a \<notin> set bs"
      by (auto simp: ug_quiet_def)
    have "su_accounts o1 (?o, map SU_udpgw as @ bs)"
    proof (rule su_accountsI)
      fix x
      show "of_bool (holds o1 x) + count_list (map SU_udpgw as @ bs) (acquire x) =
        (of_bool (holds ?o x) + count_list (map SU_udpgw as @ bs) (release x) :: nat)"
        using b(2,3) q by (cases x) (auto simp: count_list_append count_list_inj count_list_0_iff ug_quiet_def)
    qed
    moreover have "su_inv ?o" using inv q st(2) by (auto simp: su_inv_def ug_quiet_def)
    moreover have "su_step smax o1 (SU_Gateway e) = Some (?o, map SU_udpgw as @ bs)" using st(1) b(1) by simp
    ultimately show ?thesis by blast
  qed
qed

lemma try_connect_result:
  assumes "ug_inv (su_udpgw_client o1)" "sc_args_ok (su_auth_info o1) (su_remote_udpgw_addr o1)" "\<not> su_have_socks o1"
    "\<not> ug_have_server (su_udpgw_client o1)" "\<not> su_reconnect_timer o1"
  shows "\<exists>o2 as. try_connect connector_ok o1 = (o2, as) \<and> su_inv o2 \<and> su_accounts o1 (o2, as) \<and> su_udpgw_client o2 = su_udpgw_client o1 \<and>
    (connector_ok \<longrightarrow> su_have_socks o2 \<and> (\<exists>acts. BSocksClient_Init True (su_auth_info o1) (su_remote_udpgw_addr o1) = Some (su_socks_client o2, acts)))"
proof (cases "BSocksClient_Init connector_ok (su_auth_info o1) (su_remote_udpgw_addr o1)")
  case None
  then have t: "try_connect connector_ok o1 = (o1\<lparr>su_reconnect_timer := True\<rparr>, [SU_set_timer])" "\<not> connector_ok"
    by (auto simp: try_connect_def BSocksClient_Init_def split: if_splits)
  moreover have "su_accounts o1 (o1\<lparr>su_reconnect_timer := True\<rparr>, [SU_set_timer])" by (rule su_accountsI, case_tac x) auto
  ultimately show ?thesis using assms by (auto simp: su_inv_def)
next
  case (Some r)
  obtain ob as where r: "r = (ob, as)" by (cases r)
  let ?o = "o1\<lparr>su_socks_client := ob, su_have_socks := True, su_socks_up := False\<rparr>"
  have t: "try_connect connector_ok o1 = (?o, map SU_socks as)" "as = [SC_connector_init]" "connector_ok"
    using Some r by (auto simp: try_connect_def BSocksClient_Init_def split: if_splits)
  note i = BSocksClient_Init_inv [OF Some [unfolded r] assms(2)]
  have "su_inv ?o" using assms i by (auto simp: su_inv_def)
  moreover have "su_accounts o1 (?o, map SU_socks as)" by (rule su_accountsI, case_tac x) (use assms i t(2) in auto)
  ultimately show ?thesis using t Some r by auto
qed

lemma su_step_inv:
  assumes inv: "su_inv o1" and en: "su_enabled o1 e" and env: "su_env_ok e" and smax: "65535 \<le> smax"
  shows "\<exists>o2 as. su_step smax o1 e = Some (o2, as) \<and> su_inv o2 \<and> su_accounts o1 (o2, as) \<and>
    ((\<nexists>g. e = SU_Gateway g) \<longrightarrow> (\<exists>b. su_udpgw_client o2 = (su_udpgw_client o1)\<lparr>ug_have_server := b\<rparr>))"
proof (cases e)
  case (SU_Socks decoder_ok e')
  obtain ob as where st: "sc_step smax (su_socks_client o1) e' = (ob, as)" by fastforce
  show ?thesis using socks_step_result [OF inv _ _ smax st, of decoder_ok] en st SU_Socks by (auto simp del: sc_step.simps)
next
  case (SU_Gateway g)
  then show ?thesis using gateway_step_result [OF inv, of g smax] en env by auto
next
  case (SU_Timer connector_ok)
  let ?o = "o1\<lparr>su_reconnect_timer := False\<rparr>"
  have "\<not> su_have_socks o1" using inv en SU_Timer by (simp add: su_inv_def)
  then obtain o2 as where r: "try_connect connector_ok ?o = (o2, as)" "su_inv o2" "su_accounts ?o (o2, as)" "su_udpgw_client o2 = su_udpgw_client o1"
    using try_connect_result [of ?o connector_ok] inv by (auto simp: su_inv_def)
  have "su_accounts o1 (?o, [])" by (rule su_accountsI, case_tac x) auto
  from su_accounts_trans [OF this r(3)] have "su_accounts o1 (o2, as)" by simp
  then show ?thesis using SU_Timer r ug_server_self by (auto simp: reconnect_timer_handler_def)
qed

lemma su_run_inv:
  "su_run smax o1 es = Some (o2, as) \<Longrightarrow> list_all su_env_ok es \<Longrightarrow> su_inv o1 \<Longrightarrow> 65535 \<le> smax \<Longrightarrow> su_inv o2 \<and> su_accounts o1 (o2, as)"
proof (induction es arbitrary: o1 as)
  case (Cons e es)
  then have en: "su_enabled o1 e" by (simp split: if_splits)
  with Cons.prems su_step_inv [of o1 e smax] obtain o' bs where o': "su_step smax o1 e = Some (o', bs)" "su_inv o'" "su_accounts o1 (o', bs)" by auto
  with Cons.prems(1) en obtain cs where "su_run smax o' es = Some (o2, cs)" "as = bs @ cs" by (auto split: option.splits)
  with Cons.IH [of o' cs] Cons.prems o' su_accounts_trans show ?case by auto
qed (simp add: su_accounts_refl)

definition su_args_ok :: "nat \<Rightarrow> int \<Rightarrow> int \<Rightarrow> int \<Rightarrow> BSocksClient_auth_info list \<Rightarrow> BAddr \<Rightarrow> bool" where
  "su_args_ok smax udp_mtu max_connections send_buffer_size ais dest \<longleftrightarrow>
     65535 \<le> smax \<and> ug_args_ok smax udp_mtu max_connections send_buffer_size \<and> sc_args_ok ais dest"

lemma su_Init_inv:
  assumes "su_args_ok smax mtu maxc bufs ais dest" "SocksUdpGwClient_Init mem smax True connector_ok mtu maxc bufs ais dest = Some (o1, as)"
  shows "su_inv o1" "\<And>x. count_list as (acquire x) = of_bool (holds o1 x) + count_list as (release x)"
proof -
  obtain u where u: "UdpGwClient_Init smax True mtu maxc bufs = Some u" by (simp add: UdpGwClient_Init_def Let_def)
  let ?o = "\<lparr>su_auth_info = ais, su_remote_udpgw_addr = dest, su_udpgw_client = u, su_reconnect_timer = False,
            su_have_socks = False, su_socks_client = fst mem, su_socks_up = snd mem\<rparr>"
  have "ug_inv u" "\<not> ug_have_server u" using u ug_inv_Init [OF _ u] assms(1) by (auto simp: su_args_ok_def UdpGwClient_Init_def Let_def)
  with assms u try_connect_result [of ?o connector_ok] have r: "su_inv o1" "su_accounts ?o (o1, as)"
    by (auto simp: SocksUdpGwClient_Init_def su_args_ok_def)
  from r(1) show "su_inv o1" .
  fix x
  have "\<not> holds ?o x" using \<open>\<not> ug_have_server u\<close> by (cases x) auto
  with r(2) [unfolded su_accounts_def, THEN spec, of x] show "count_list as (acquire x) = of_bool (holds o1 x) + count_list as (release x)" by simp
qed

lemma free_loop_acts:
  "free_connections_loop n u = (u', as) \<Longrightarrow> ug_have_server u' = ug_have_server u \<and> UG_connect \<notin> set as \<and> UG_disconnect \<notin> set as"
  by (induction n arbitrary: u u' as) (fastforce simp: connection_free_def Let_def split: list.splits prod.splits)+

lemma su_Free_accounts:
  assumes "su_inv o1" "SocksUdpGwClient_Free o1 = (o2, as)"
  shows "of_bool (holds o1 x) + count_list as (acquire x) = count_list as (release x)"
proof -
  have "\<exists>o' a1. (if su_have_socks o1 then free_socks o1 else (o1, [])) = (o', a1) \<and> \<not> su_have_socks o' \<and> \<not> ug_have_server (su_udpgw_client o') \<and>
    su_accounts o1 (o', a1)"
    using assms(1) free_socks_result [of o1] su_accounts_refl by (cases "su_have_socks o1") (fastforce simp: su_inv_def)+
  then obtain o' a1 where f: "(if su_have_socks o1 then free_socks o1 else (o1, [])) = (o', a1)" "\<not> su_have_socks o'"
    "\<not> ug_have_server (su_udpgw_client o')" "su_accounts o1 (o', a1)" by blast
  obtain u a2 where u: "UdpGwClient_Free (su_udpgw_client o') = (u, a2)" by fastforce
  then have a2: "UG_connect \<notin> set a2" "UG_disconnect \<notin> set a2"
    using f(3) free_loop_acts [of "length (ug_connections_list (su_udpgw_client o'))" "su_udpgw_client o'"]
    by (auto simp: UdpGwClient_Free_def split: prod.splits)
  have as: "as = a1 @ [SU_remove_timer] @ map SU_udpgw a2" using assms(2) f(1) u by (simp add: SocksUdpGwClient_Free_def)
  have "\<not> holds o' x" using f(2,3) by (cases x) auto
  with f(4) [unfolded su_accounts_def, THEN spec, of x] have "of_bool (holds o1 x) + count_list a1 (acquire x) = count_list a1 (release x)" by simp
  moreover have "count_list ([SU_remove_timer] @ map SU_udpgw a2) (acquire x) = 0" "count_list ([SU_remove_timer] @ map SU_udpgw a2) (release x) = 0"
    using a2 by (cases x; simp add: count_list_inj count_list_0_iff)+
  ultimately show ?thesis unfolding as count_list_append by linarith
qed

subsection \<open>A conforming server\<close>

lemma su_run_conforming:
  assumes "su_run smax o1 (map (SU_Socks True) es) = Some (o2, as)" "65535 \<le> smax" "su_inv o1" "su_have_socks o1" "sc_inv (su_socks_client o1) tx rx"
    and "list_all env_ok es" "handshake (auth_infos (su_socks_client o1)) (dest_addr (su_socks_client o1)) txs s" "prefix (rx @ rx_of es) s"
  shows "su_inv o2 \<and> su_have_socks o2 \<and> (\<exists>tx'. sc_inv (su_socks_client o2) tx' (rx @ rx_of es)) \<and>
    auth_infos (su_socks_client o2) = auth_infos (su_socks_client o1) \<and> dest_addr (su_socks_client o2) = dest_addr (su_socks_client o1)"
  using assms
proof (induction es arbitrary: o1 tx rx as)
  case (Cons e es)
  let ?ob = "su_socks_client o1"
  obtain ob as1 where st: "sc_step smax ?ob e = (ob, as1)" by fastforce
  have en: "sc_enabled ?ob e" "su_enabled o1 (SU_Socks True e)" using Cons.prems(1) by (auto split: if_splits)
  have rx: "rx_of (e # es) = rx_of [e] @ rx_of es" by (cases e) simp_all
  have "prefix (rx @ rx_of [e]) (rx @ rx_of (e # es))" unfolding rx by simp
  with Cons.prems(8) have "prefix (rx @ rx_of [e]) s" by (rule prefix_order.trans [rotated])
  then have ng: "\<not> gone ob" using sc_step_ok [OF Cons.prems(2,5) en(1) _ Cons.prems(7)] Cons.prems(6) st by simp
  have fields: "auth_infos ob = auth_infos ?ob" "dest_addr ob = dest_addr ?ob"
    using sc_step_accounts [OF Cons.prems(5) en(1), of smax] st by (auto simp: sc_accounts_def Let_def)
  from socks_step_result [OF Cons.prems(3,4) en(1) Cons.prems(2) st, of True] obtain o' bs where
    o': "su_socks_calls True (o1\<lparr>su_socks_client := ob\<rparr>) (events_of as1) = (o', bs)" "su_inv o'" "su_have_socks o'" "su_socks_client o' = ob"
    using ng by blast
  obtain cs where run: "su_run smax o' (map (SU_Socks True) es) = Some (o2, cs)"
    using Cons.prems(1) en(2) st o'(1) by (auto simp del: sc_step.simps split: option.splits)
  have inv: "sc_inv (su_socks_client o') (tx @ tx_of as1) (rx @ rx_of [e])" using sc_step_inv [OF Cons.prems(2,5) en(1)] st o'(4) by simp
  show ?case using Cons.IH [OF run Cons.prems(2) o'(2,3) inv] Cons.prems(6-8) fields o'(4) rx by simp
qed auto

text \<open>The arguments given at initialisation are kept.\<close>

abbreviation (input) su_args :: "SocksUdpGwClient \<Rightarrow> BSocksClient_auth_info list \<times> BAddr" where
  "su_args o1 \<equiv> (su_auth_info o1, su_remote_udpgw_addr o1)"

lemma handlers_args:
  "su_args (fst (free_and_set_timer o1)) = su_args o1" "su_args (fst (try_connect ok o1)) = su_args o1"
  "su_args (fst (socks_client_handler ok o1 e)) = su_args o1"
proof -
  have f: "su_args (fst (free_and_set_timer o1)) = su_args o1" for o1
    by (auto simp: free_and_set_timer_def free_socks_def split: prod.splits)
  show "su_args (fst (free_and_set_timer o1)) = su_args o1" by (rule f)
  show "su_args (fst (try_connect ok o1)) = su_args o1" by (auto simp: try_connect_def split: option.splits)
  show "su_args (fst (socks_client_handler ok o1 e)) = su_args o1"
    using f [of "o1\<lparr>su_udpgw_client := fst (UdpGwClient_ConnectServer ok (su_udpgw_client o1))\<rparr>"] f [of o1]
    by (auto simp: socks_client_handler_def Let_def case_prod_beta split: socks_event.splits)
qed

lemma su_socks_calls_args: "su_args (fst (su_socks_calls ok o1 es)) = su_args o1"
  by (induction es arbitrary: o1) (use handlers_args(3) in \<open>auto simp: Let_def case_prod_beta\<close>)

lemma su_udpgw_calls_args: "su_args (fst (su_udpgw_calls o1 as)) = su_args o1"
proof (induction o1 as rule: su_udpgw_calls.induct)
  case (2 o1 as)
  then show ?case using handlers_args(1) [of o1] by (cases "free_and_set_timer o1") (simp add: Let_def case_prod_beta udpgw_handler_servererror_def)
qed (simp_all add: Let_def case_prod_beta)

lemma su_step_args: "su_step smax o1 e = Some (o2, as) \<Longrightarrow> su_args o2 = su_args o1"
proof (cases e)
  case (SU_Socks ok e')
  assume "su_step smax o1 e = Some (o2, as)"
  then show ?thesis using SU_Socks su_socks_calls_args [of ok "o1\<lparr>su_socks_client := fst (sc_step smax (su_socks_client o1) e')\<rparr>"]
    by (auto simp: case_prod_beta simp del: sc_step.simps)
next
  case (SU_Gateway g)
  assume "su_step smax o1 e = Some (o2, as)"
  then obtain u bs where "o2 = fst (su_udpgw_calls (o1\<lparr>su_udpgw_client := u\<rparr>) bs)" using SU_Gateway by (auto simp: case_prod_beta split: option.splits)
  then show ?thesis using su_udpgw_calls_args [of "o1\<lparr>su_udpgw_client := u\<rparr>" bs] by simp
next
  case (SU_Timer ok)
  assume "su_step smax o1 e = Some (o2, as)"
  then show ?thesis using SU_Timer handlers_args(2) [of ok "o1\<lparr>su_reconnect_timer := False\<rparr>"] by (auto simp: reconnect_timer_handler_def)
qed

lemma su_run_args: "su_run smax o1 es = Some (o2, as) \<Longrightarrow> su_args o2 = su_args o1"
proof (induction es arbitrary: o1 as)
  case (Cons e es)
  then obtain o' bs cs where "su_step smax o1 e = Some (o', bs)" "su_run smax o' es = Some (o2, cs)"
    by (auto split: option.splits if_splits)
  with Cons.IH su_step_args show ?case by metis
qed simp

subsection \<open>Properties\<close>

definition su_reachable :: "nat \<Rightarrow> BSocksClient_auth_info list \<Rightarrow> BAddr \<Rightarrow> SocksUdpGwClient \<Rightarrow> su_act list \<Rightarrow> bool" where
  "su_reachable smax ais dest o1 acts \<longleftrightarrow> (\<exists>mem connector_ok mtu maxc bufs o0 as0 es as. su_args_ok smax mtu maxc bufs ais dest \<and>
     SocksUdpGwClient_Init mem smax True connector_ok mtu maxc bufs ais dest = Some (o0, as0) \<and>
     list_all su_env_ok es \<and> su_run smax o0 es = Some (o1, as) \<and> acts = as0 @ as)"

lemma su_reachable_inv:
  assumes "su_reachable smax ais dest o1 acts"
  shows "su_inv o1" "count_list acts (acquire x) = of_bool (holds o1 x) + count_list acts (release x)" "65535 \<le> smax"
proof -
  from assms obtain mem connector_ok mtu maxc bufs o0 as0 es as where
    r: "su_args_ok smax mtu maxc bufs ais dest" "SocksUdpGwClient_Init mem smax True connector_ok mtu maxc bufs ais dest = Some (o0, as0)"
      "list_all su_env_ok es" "su_run smax o0 es = Some (o1, as)" "acts = as0 @ as" by (auto simp: su_reachable_def)
  note i = su_Init_inv [OF r(1,2)]
  from r(1) show smax: "65535 \<le> smax" by (simp add: su_args_ok_def)
  from su_run_inv [OF r(4,3) i(1) smax] have inv: "su_inv o1" "su_accounts o0 (o1, as)" by simp_all
  then show "su_inv o1" by simp
  from i(2) [of x] inv(2) [unfolded su_accounts_def, THEN spec, of x]
  show "count_list acts (acquire x) = of_bool (holds o1 x) + count_list acts (release x)"
    unfolding r(5) count_list_append fst_conv snd_conv by linarith
qed

lemma su_reachable_args:
  assumes "su_reachable smax ais dest o1 acts"
  shows "su_args o1 = (ais, dest)"
proof -
  from assms obtain mem ok mtu maxc bufs o0 as0 es as where
    r: "SocksUdpGwClient_Init mem smax True ok mtu maxc bufs ais dest = Some (o0, as0)" "su_run smax o0 es = Some (o1, as)" by (auto simp: su_reachable_def)
  then obtain u where "try_connect ok \<lparr>su_auth_info = ais, su_remote_udpgw_addr = dest, su_udpgw_client = u, su_reconnect_timer = False,
    su_have_socks = False, su_socks_client = fst mem, su_socks_up = snd mem\<rparr> = (o0, as0)" by (auto simp: SocksUdpGwClient_Init_def split: option.splits)
  from arg_cong [OF this, of "\<lambda>r. su_args (fst r)"] su_run_args [OF r(2)] show ?thesis unfolding handlers_args(2) by simp
qed

text \<open>C15.  The gateway link is always either being set up, up, or about to be tried again.  In every reachable state the
  reconnect timer runs exactly while there is no SOCKS client, the gateway client is attached to a server exactly
  while the SOCKS client is up, and every event the environment may cause is handled without a failing assertion.
  Losing or restoring the SOCKS connection changes nothing in the gateway client but that attachment: its
  connections, their identifiers and their queued packets survive.\<close>

theorem SocksUdpGwClient_reconnects:
  assumes "su_reachable smax ais dest o1 acts" "su_enabled o1 e" "su_env_ok e"
  shows "(su_reconnect_timer o1 \<longleftrightarrow> \<not> su_have_socks o1) \<and>
    (ug_have_server (su_udpgw_client o1) \<longleftrightarrow> su_have_socks o1 \<and> su_socks_up o1) \<and>
    (su_have_socks o1 \<longrightarrow> \<not> gone (su_socks_client o1) \<and> (su_socks_up o1 \<longleftrightarrow> sc_state (su_socks_client o1) = STATE_UP)) \<and>
    (\<exists>o2 as. su_step smax o1 e = Some (o2, as) \<and>
      ((\<nexists>g. e = SU_Gateway g) \<longrightarrow> (\<exists>b. su_udpgw_client o2 = (su_udpgw_client o1)\<lparr>ug_have_server := b\<rparr>)))"
proof -
  note inv = su_reachable_inv(1) [OF assms(1)]
  from su_step_inv [OF inv assms(2,3) su_reachable_inv(3) [OF assms(1)]] inv show ?thesis
    unfolding su_inv_def by blast
qed

text \<open>C36.  Resources.  At every moment at most one connector, one connection, one pair of control interfaces, one pair of data
  interfaces and one attachment of the gateway to a server are held, and after \<^verbatim>\<open>SocksUdpGwClient_Free\<close> each has
  been released exactly as often as acquired, over all the connections made.\<close>

theorem SocksUdpGwClient_resources:
  assumes "su_reachable smax ais dest o1 acts" "SocksUdpGwClient_Free o1 = (o2, as)"
  shows "count_list acts (acquire x) = of_bool (holds o1 x) + count_list acts (release x) \<and>
    count_list (acts @ as) (acquire x) = count_list (acts @ as) (release x)"
  using su_reachable_inv(2) [OF assms(1), of x] su_Free_accounts [OF su_reachable_inv(1) [OF assms(1)] assms(2), of x]
  by (simp add: count_list_append)


text \<open>An example: connecting fails at first, then the timer fires and the handshake of \<^verbatim>\<open>SocksClient\<close> succeeds.\<close>

definition ex_su :: SocksUdpGwClient where
  "ex_su = fst (the (SocksUdpGwClient_Init (ex_ob, True) 4294967295 True False 4 2 1 ex_ais ex_dest))"

lemma ex_su_init: "SocksUdpGwClient_Init (ex_ob, True) 4294967295 True False 4 2 1 ex_ais ex_dest = Some (ex_su, [SU_set_timer])"
  by (simp add: ex_su_def SocksUdpGwClient_Init_def UdpGwClient_Init_def try_connect_def BSocksClient_Init_def Let_def)

lemma ex_su_reachable: "su_reachable 4294967295 ex_ais ex_dest ex_su [SU_set_timer]"
proof -
  have "udpgw_compute_mtu 4294967295 4 = 26" by (subst udpgw_compute_mtu_value) simp_all
  then have "su_args_ok 4294967295 4 2 1 ex_ais ex_dest" using ex_args by (simp add: su_args_ok_def ug_args_ok_def PACKETPROTO_MAXPAYLOAD_def)
  with ex_su_init show ?thesis unfolding su_reachable_def
    by (intro exI [of _ "(ex_ob, True)"] exI [of _ False] exI [of _ 4] exI [of _ 2] exI [of _ 1] exI [of _ ex_su] exI [of _ "[SU_set_timer]"]
          exI [of _ "[]"]) simp
qed

theorem SocksUdpGwClient_reconnects_witness: "su_reconnect_timer ex_su \<and> (\<exists>o2 as. su_step 4294967295 ex_su (SU_Timer False) = Some (o2, as))"
proof -
  have "su_enabled ex_su (SU_Timer False)" by code_simp
  with SocksUdpGwClient_reconnects [OF ex_su_reachable this] show ?thesis by simp
qed

theorem SocksUdpGwClient_resources_witness:
  "count_list (SU_set_timer # snd (SocksUdpGwClient_Free ex_su)) (SU_udpgw UG_disconnect) = count_list (SU_set_timer # snd (SocksUdpGwClient_Free ex_su)) (SU_udpgw UG_connect)"
  using SocksUdpGwClient_resources [OF ex_su_reachable, of "fst (SocksUdpGwClient_Free ex_su)" "snd (SocksUdpGwClient_Free ex_su)" R_server] by simp


end
