(* ===== verification/Rhn.thy ===== *)
theory Rhn
  imports Prelude
begin

text \<open>
  Domain names of the DNS proxy \<^verbatim>\<open>pdnsd\<close> (\<^verbatim>\<open>pdnsd/src/helpers.c\<close>, \<^verbatim>\<open>helpers.h\<close>).  In memory a name is a sequence of labels, each
  a length byte and that many bytes, closed by a zero byte (the "rhn" format of the DNS wire protocol).  Modelled: the scans
  \<^verbatim>\<open>rhnlen\<close>, \<^verbatim>\<open>skiprhn\<close>, \<^verbatim>\<open>skipsegs\<close>, \<^verbatim>\<open>rhnsegcnt\<close>, \<^verbatim>\<open>rhncpy\<close>, \<^verbatim>\<open>isnormalencdomname\<close>, the comparison \<^verbatim>\<open>rhnicmp\<close>, and the conversions
  \<^verbatim>\<open>str2rhn\<close>, \<^verbatim>\<open>parsestr2rhn\<close> and \<^verbatim>\<open>rhn2str\<close> from and to dotted notation.  A buffer is a byte list from the pointer on, and an access outside
  of it is a fault, so the theorems include memory safety.
\<close>

subsection \<open>Results of functions that access memory\<close>

text \<open>\<open>Fault\<close> is an access outside of a buffer or a failed assertion, \<open>Fail\<close> the error return of the function.\<close>

datatype ('e, 'a) exec = Fault | Fail 'e | Ok 'a

fun exec_bind :: "('e, 'a) exec \<Rightarrow> ('a \<Rightarrow> ('e, 'b) exec) \<Rightarrow> ('e, 'b) exec" where
  "exec_bind Fault f = Fault"
| "exec_bind (Fail e) f = Fail e"
| "exec_bind (Ok x) f = f x"

lemma exec_bind_cong [fundef_cong]: "m = m' \<Longrightarrow> (\<And>x. m' = Ok x \<Longrightarrow> f x = f' x) \<Longrightarrow> exec_bind m f = exec_bind m' f'"
  by (cases m') auto

lemma exec_bind_Ok_iff: "exec_bind m f = Ok y \<longleftrightarrow> (\<exists>x. m = Ok x \<and> f x = Ok y)"
  by (cases m) auto

lemma exec_bind_Fault_iff: "exec_bind m f = Fault \<longleftrightarrow> m = Fault \<or> (\<exists>x. m = Ok x \<and> f x = Fault)"
  by (cases m) auto

definition rd :: "byte list \<Rightarrow> nat \<Rightarrow> ('e, byte) exec" where
  "rd m i = (if i < length m then Ok (m ! i) else Fault)"

definition wr :: "byte list \<Rightarrow> nat \<Rightarrow> byte \<Rightarrow> ('e, byte list) exec" where
  "wr m i b = (if i < length m then Ok (m[i := b]) else Fault)"

lemma rd_Ok [simp]: "i < length m \<Longrightarrow> rd m i = Ok (m ! i)" "rd m i = Ok b \<longleftrightarrow> i < length m \<and> b = m ! i" "rd m i \<noteq> Fail e"
  by (auto simp: rd_def)

lemma wr_Ok [simp]: "i < length m \<Longrightarrow> wr m i b = Ok (m[i := b])" "wr m i b = Ok m' \<longleftrightarrow> i < length m \<and> m' = m[i := b]"
  by (auto simp: wr_def)

lemma rd_append [simp]: "rd (xs @ ys) (length xs + i) = rd ys i" "rd (xs @ ys) (length xs) = rd ys 0" "rd (x # xs) (Suc i) = rd xs i" "rd (x # xs) 0 = Ok x"
  by (auto simp: rd_def nth_append)

subsection \<open>Characters\<close>

definition tolower :: "byte \<Rightarrow> byte" where
  "tolower c = (if 65 \<le> c \<and> c \<le> 90 then c + 32 else c)"

definition isgraph :: "byte \<Rightarrow> bool" where
  "isgraph c \<longleftrightarrow> 33 \<le> c \<and> c \<le> 126"

subsection \<open>Names\<close>

primrec rhn_hdr :: "byte list list \<Rightarrow> byte list" where
  "rhn_hdr [] = []"
| "rhn_hdr (l # ls) = of_nat (length l) # l @ rhn_hdr ls"

definition rhn_of :: "byte list list \<Rightarrow> byte list" where
  "rhn_of ls = rhn_hdr ls @ [0]"

definition DNSNAMEBUFSIZE :: nat where
  "DNSNAMEBUFSIZE = 256"

definition labels_ok :: "byte list list \<Rightarrow> bool" where
  "labels_ok ls \<longleftrightarrow> (\<forall>l \<in> set ls. 0 < length l \<and> length l \<le> 63)"

definition name_ok :: "byte list list \<Rightarrow> bool" where
  "name_ok ls \<longleftrightarrow> labels_ok ls \<and> length (rhn_of ls) \<le> DNSNAMEBUFSIZE"

lemma rhn_of_simps [simp]: "rhn_of [] = [0]" "rhn_of (l # ls) = of_nat (length l) # l @ rhn_of ls"
  by (simp_all add: rhn_of_def)

lemma rhn_hdr_append [simp]: "rhn_hdr (xs @ ys) = rhn_hdr xs @ rhn_hdr ys"
  by (induction xs) simp_all

lemma labels_ok_simps [simp]: "labels_ok []" "labels_ok (l # ls) \<longleftrightarrow> 0 < length l \<and> length l \<le> 63 \<and> labels_ok ls"
  "labels_ok (xs @ ys) \<longleftrightarrow> labels_ok xs \<and> labels_ok ys"
  by (auto simp: labels_ok_def)

lemma unat_len [simp]: "n \<le> 255 \<Longrightarrow> unat (of_nat n :: byte) = n"
  by (simp add: unat_of_nat)

lemma len_byte [simp]: "n \<le> 255 \<Longrightarrow> (of_nat n :: byte) = 0 \<longleftrightarrow> n = 0" "n \<le> 63 \<Longrightarrow> \<not> 63 < (of_nat n :: byte)"
  by (simp_all add: word_unat_eq_iff word_less_nat_alt)

lemma rhn_of_pos [simp]: "0 < length (rhn_of ls)"
  by (simp add: rhn_of_def)

lemma length_rhn_hdr: "length (rhn_hdr ls) = length (concat ls) + length ls"
  by (induction ls) simp_all

subsection \<open>Scanning a name\<close>

text \<open>\<^verbatim>\<open>rhnlen\<close>: the loop with the index \<open>i\<close>; \<^verbatim>\<open>skiprhn\<close> is the same loop on a pointer.\<close>

function rhnlen_from :: "byte list \<Rightarrow> nat \<Rightarrow> (unit, nat) exec" where
  "rhnlen_from rhn i = exec_bind (rd rhn i) (\<lambda>lb. if lb \<noteq> 0 then rhnlen_from rhn (i + 1 + unat lb) else Ok (i + 1))"
  by pat_completeness auto
termination
  by (relation "measure (\<lambda>(rhn, i). length rhn - i)") auto

definition rhnlen :: "byte list \<Rightarrow> (unit, nat) exec" where
  "rhnlen rhn = rhnlen_from rhn 0"

definition skiprhn :: "byte list \<Rightarrow> (unit, nat) exec" where
  "skiprhn rhn = rhnlen_from rhn 0"

text \<open>\<^verbatim>\<open>skipsegs\<close>: the offset after at most \<open>k\<close> labels.\<close>

fun skipsegs_from :: "byte list \<Rightarrow> nat \<Rightarrow> nat \<Rightarrow> (unit, nat) exec" where
  "skipsegs_from nm i 0 = Ok i"
| "skipsegs_from nm i (Suc k) = exec_bind (rd nm i) (\<lambda>lb. if lb = 0 then Ok i else skipsegs_from nm (i + (unat lb + 1)) k)"

definition skipsegs :: "byte list \<Rightarrow> nat \<Rightarrow> (unit, nat) exec" where
  "skipsegs nm k = skipsegs_from nm 0 k"

function rhnsegcnt_from :: "byte list \<Rightarrow> nat \<Rightarrow> nat \<Rightarrow> (unit, nat) exec" where
  "rhnsegcnt_from rhn i res = exec_bind (rd rhn i) (\<lambda>lb. if lb = 0 then Ok res else rhnsegcnt_from rhn (i + (unat lb + 1)) (res + 1))"
  by pat_completeness auto
termination
  by (relation "measure (\<lambda>(rhn, i, res). length rhn - i)") auto

definition rhnsegcnt :: "byte list \<Rightarrow> (unit, nat) exec" where
  "rhnsegcnt rhn = rhnsegcnt_from rhn 0 0"

text \<open>\<^verbatim>\<open>rhncpy\<close>; the assertion on the length ends the program.\<close>

definition rhncpy :: "byte list \<Rightarrow> byte list \<Rightarrow> (unit, byte list \<times> nat) exec" where
  "rhncpy dst src = exec_bind (rhnlen src) (\<lambda>len.
     if DNSNAMEBUFSIZE < len \<or> length dst < len then Fault else Ok (overwrite 0 (take len src) dst, len))"

function isnormal_from :: "byte list \<Rightarrow> nat \<Rightarrow> nat \<Rightarrow> (unit, bool) exec" where
  "isnormal_from rhn maxlen i =
     (if maxlen \<le> i then Ok False
      else exec_bind (rd rhn i) (\<lambda>lb. if lb = 0 then Ok True else if 63 < lb then Ok False
        else isnormal_from rhn maxlen (i + 1 + unat lb)))"
  by pat_completeness auto
termination
  by (relation "measure (\<lambda>(rhn, maxlen, i). length rhn - i)") auto

definition isnormalencdomname :: "byte list \<Rightarrow> nat \<Rightarrow> (unit, bool) exec" where
  "isnormalencdomname rhn maxlen = isnormal_from rhn (if DNSNAMEBUFSIZE < maxlen then DNSNAMEBUFSIZE else maxlen) 0"

declare rhnlen_from.simps [simp del] rhnsegcnt_from.simps [simp del] isnormal_from.simps [simp del]

subsection \<open>Comparison\<close>

text \<open>\<^verbatim>\<open>rhnicmp\<close>: the inner loop over \<open>lb\<close> bytes and the outer one.\<close>

fun same_bytes :: "byte list \<Rightarrow> byte list \<Rightarrow> nat \<Rightarrow> nat \<Rightarrow> (unit, bool) exec" where
  "same_bytes a b i 0 = Ok True"
| "same_bytes a b i (Suc lb) = exec_bind (rd a i) (\<lambda>x. exec_bind (rd b i) (\<lambda>y.
     if tolower x \<noteq> tolower y then Ok False else same_bytes a b (i + 1) lb))"

function rhnicmp_from :: "byte list \<Rightarrow> byte list \<Rightarrow> nat \<Rightarrow> (unit, bool) exec" where
  "rhnicmp_from a b i = exec_bind (rd a i) (\<lambda>lb. exec_bind (rd b i) (\<lambda>lb'.
     if lb \<noteq> lb' then Ok False else if lb = 0 then Ok True
     else exec_bind (same_bytes a b (i + 1) (unat lb)) (\<lambda>same. if \<not> same then Ok False else rhnicmp_from a b (i + 1 + unat lb))))"
  by pat_completeness auto
termination
  by (relation "measure (\<lambda>(a, b, i). length a - i)") auto

definition rhnicmp :: "byte list \<Rightarrow> byte list \<Rightarrow> (unit, bool) exec" where
  "rhnicmp a b = rhnicmp_from a b 0"

declare rhnicmp_from.simps [simp del]

subsection \<open>From dotted notation\<close>

text \<open>The inner loop of \<^verbatim>\<open>str2rhn\<close>, with the bound \<open>lim\<close> on the index for strings of limited length (\<^verbatim>\<open>parsestr2rhn\<close>).\<close>

abbreviation (input) dot :: byte where "dot \<equiv> 46"

function copy_label :: "'e \<Rightarrow> byte list \<Rightarrow> nat option \<Rightarrow> nat \<Rightarrow> byte list \<Rightarrow> nat \<Rightarrow> ('e, nat \<times> byte list) exec" where
  "copy_label e str lim jlim rhn j =
     (if (case lim of None \<Rightarrow> False | Some len \<Rightarrow> len \<le> j) then Ok (j, rhn)
      else exec_bind (rd str j) (\<lambda>c.
        if c = 0 \<or> c = dot then Ok (j, rhn)
        else if jlim \<le> j then Fail e
        else exec_bind (wr rhn (j + 1) c) (\<lambda>rhn. copy_label e str lim jlim rhn (j + 1))))"
  by pat_completeness auto
termination
  by (relation "measure (\<lambda>(e, str, lim, jlim, rhn, j). length str - j)") auto

declare copy_label.simps [simp del]

lemma copy_label_bounds:
  "copy_label e str lim jlim rhn j = Ok (j', rhn') \<Longrightarrow> j \<le> j' \<and> length rhn' = length rhn \<and> (lim = None \<longrightarrow> j' < length str)"
proof (induction e str lim jlim rhn j rule: copy_label.induct)
  case (1 e str lim jlim rhn j)
  let ?out = "case lim of None \<Rightarrow> False | Some len \<Rightarrow> len \<le> j"
  consider "j' = j" "rhn' = rhn" "lim = None \<longrightarrow> j < length str"
    | "\<not> ?out" "j < length str" "\<not> (str ! j = 0 \<or> str ! j = dot)" "\<not> jlim \<le> j" "j + 1 < length rhn"
      "copy_label e str lim jlim (rhn[j + 1 := str ! j]) (j + 1) = Ok (j', rhn')"
    using "1.prems" by (subst (asm) copy_label.simps) (auto simp: exec_bind_Ok_iff split: if_splits option.splits)
  then show ?case
  proof cases
    case 2
    from "1.IH" [OF 2(1) rd_Ok(1) [OF 2(2)] 2(3,4) wr_Ok(1) [OF 2(5)] 2(6)] show ?thesis by simp
  qed simp
qed

definition jlim_of :: "nat \<Rightarrow> nat" where
  "jlim_of i = (if DNSNAMEBUFSIZE - 2 < i + 63 then DNSNAMEBUFSIZE - 2 else i + 63)"

text \<open>The outer loop of \<^verbatim>\<open>str2rhn\<close>, which ends with \<open>i\<close> and \<open>j\<close>.\<close>

function str2rhn_from :: "byte list \<Rightarrow> byte list \<Rightarrow> nat \<Rightarrow> (unit, byte list \<times> nat \<times> nat) exec" where
  "str2rhn_from str rhn i = exec_bind (copy_label () str None (jlim_of i) rhn i) (\<lambda>(j, rhn).
     exec_bind (rd str j) (\<lambda>c.
       if c = 0 then Ok (rhn, i, j)
       else if j \<le> i then Fail ()
       else exec_bind (wr rhn i (of_nat (j - i))) (\<lambda>rhn. str2rhn_from str rhn (j + 1))))"
  by pat_completeness auto
termination
  by (relation "measure (\<lambda>(str, rhn, i). length str - i)") (auto dest: copy_label_bounds)

definition str2rhn :: "byte list \<Rightarrow> byte list \<Rightarrow> (unit, byte list) exec" where
  "str2rhn str rhn = exec_bind (rd str 0) (\<lambda>c0. exec_bind (if c0 = dot then rd str 1 else Ok 1) (\<lambda>c1.
     if c0 = dot \<and> c1 = 0 then wr rhn 0 0
     else exec_bind (str2rhn_from str rhn 0) (\<lambda>(rhn, i, j). exec_bind (wr rhn i 0) (\<lambda>rhn.
       if i < j \<or> i = 0 then Fail () else Ok rhn))))"

text \<open>The loop of \<^verbatim>\<open>parsestr2rhn\<close>: a \<^verbatim>\<open>do\<close> loop that continues while a character other than the terminator follows.\<close>

definition more :: "byte list \<Rightarrow> nat \<Rightarrow> nat \<Rightarrow> ('e, bool) exec" where
  "more str len j = (if j < len then exec_bind (rd str j) (\<lambda>c. Ok (c \<noteq> 0)) else Ok False)"

function parsestr2rhn_from :: "byte list \<Rightarrow> nat \<Rightarrow> byte list \<Rightarrow> nat \<Rightarrow> (string, byte list \<times> nat) exec" where
  "parsestr2rhn_from str len rhn i =
     exec_bind (copy_label ''Domain name element too long'' str (Some len) (jlim_of i) rhn i) (\<lambda>(j, rhn).
     exec_bind (more str len j) (\<lambda>m.
       if j \<le> i then (if m then Fail ''Empty name element in domain name'' else Ok (rhn, i))
       else exec_bind (wr rhn i (of_nat (j - i))) (\<lambda>rhn.
         if m then parsestr2rhn_from str len rhn (j + 1) else Ok (rhn, j + 1))))"
  by pat_completeness auto
termination
  by (relation "measure (\<lambda>(str, len, rhn, i). len - i)") (auto simp: more_def split: if_splits)

definition parsestr2rhn :: "byte list \<Rightarrow> nat \<Rightarrow> byte list \<Rightarrow> (string, byte list) exec" where
  "parsestr2rhn str len rhn =
     exec_bind (if 0 < len then exec_bind (rd str 0) (\<lambda>c0. if c0 \<noteq> dot then Ok False else if len = 1 then Ok True
       else exec_bind (rd str 1) (\<lambda>c1. Ok (c1 = 0))) else Ok False) (\<lambda>root.
     if root then wr rhn 0 0
     else exec_bind (parsestr2rhn_from str len rhn 0) (\<lambda>(rhn, i). exec_bind (wr rhn i 0) (\<lambda>rhn.
       if i = 0 then Fail ''Empty domain name not allowed'' else Ok rhn)))"

declare str2rhn_from.simps [simp del] parsestr2rhn_from.simps [simp del]

subsection \<open>To dotted notation\<close>

text \<open>\<^verbatim>\<open>rhn2str\<close>; the result \<open>Fail\<close> is the jump to the label \<^verbatim>\<open>overflow\<close> with the buffer at that moment.\<close>

definition octal :: "byte \<Rightarrow> byte list" where
  "octal c = (let n = unat c in [92, 48 + of_nat (n div 64), 48 + of_nat (n div 8 mod 8), 48 + of_nat (n mod 8)])"

definition special :: "byte \<Rightarrow> bool" where
  "special c \<longleftrightarrow> c = dot \<or> c = 92 \<or> c = 34"

text \<open>\<^verbatim>\<open>snprintf\<close> of the four characters of an escape into \<open>rem\<close> bytes at \<open>j\<close>: as many as fit, and a zero.\<close>

definition snprintf_octal :: "byte list \<Rightarrow> nat \<Rightarrow> nat \<Rightarrow> byte \<Rightarrow> ('e, byte list) exec" where
  "snprintf_octal str j rem c =
     (let out = (if rem = 0 then [] else take (rem - 1) (octal c) @ [0])
      in if length str < j + length out then Fault else Ok (overwrite j out str))"

fun rhn2str_label :: "byte list \<Rightarrow> nat \<Rightarrow> nat \<Rightarrow> nat \<Rightarrow> byte list \<Rightarrow> nat \<Rightarrow> (byte list, nat \<times> byte list \<times> nat) exec" where
  "rhn2str_label rhn sz 0 i str j = Ok (i, str, j)"
| "rhn2str_label rhn sz (Suc lb) i str j =
     (if sz \<le> j + 2 then Fail str
      else exec_bind (rd rhn i) (\<lambda>c.
        if isgraph c then
          exec_bind (if special c then exec_bind (wr str j 92) (\<lambda>str. if sz \<le> j + 1 + 2 then Fail str else Ok (str, j + 1)) else Ok (str, j))
            (\<lambda>(str, j). exec_bind (wr str j c) (\<lambda>str. rhn2str_label rhn sz lb (i + 1) str (j + 1)))
        else
          (let rem = sz - 1 - j
           in exec_bind (snprintf_octal str j rem c) (\<lambda>str.
             if rem \<le> 4 then exec_bind (wr str j dot) Fail
             else rhn2str_label rhn sz lb (i + 1) str (j + 4)))))"

lemma rhn2str_label_index: "rhn2str_label rhn sz lb i str j = Ok (i', str', j') \<Longrightarrow> i' = i + lb"
  by (induction lb arbitrary: i str j) (fastforce simp: Let_def exec_bind_Ok_iff split: if_splits)+

function rhn2str_from :: "byte list \<Rightarrow> nat \<Rightarrow> byte \<Rightarrow> nat \<Rightarrow> byte list \<Rightarrow> nat \<Rightarrow> (byte list, byte list \<times> nat) exec" where
  "rhn2str_from rhn sz lb i str j = exec_bind (rhn2str_label rhn sz (unat lb) i str j) (\<lambda>(i, str, j).
     exec_bind (wr str j dot) (\<lambda>str. exec_bind (rd rhn i) (\<lambda>lb.
       if lb \<noteq> 0 then rhn2str_from rhn sz lb (i + 1) str (j + 1) else Ok (str, j + 1))))"
  by pat_completeness auto
termination
  by (relation "measure (\<lambda>(rhn, sz, lb, i, str, j). length rhn - i)") (auto dest: rhn2str_label_index)

declare rhn2str_from.simps [simp del]

definition rhn2str_overflow :: "byte list \<Rightarrow> nat \<Rightarrow> (unit, byte list) exec" where
  "rhn2str_overflow str sz = exec_bind (wr str (sz - 1) 0) (\<lambda>str. if sz - 1 = 0 then Ok str
     else exec_bind (wr str (sz - 2) dot) (\<lambda>str. if sz - 2 = 0 then Ok str
     else exec_bind (wr str (sz - 3) dot) (\<lambda>str. if sz - 3 = 0 then Ok str else wr str (sz - 4) dot)))"

definition rhn2str :: "byte list \<Rightarrow> byte list \<Rightarrow> nat \<Rightarrow> (unit, byte list) exec" where
  "rhn2str rhn str sz =
     (if sz = 0 then Fail ()
      else exec_bind (rd rhn 0) (\<lambda>lb.
        if lb = 0 then exec_bind (if 2 \<le> sz then exec_bind (wr str 0 dot) (\<lambda>str. Ok (str, 1)) else Ok (str, 0)) (\<lambda>(str, j). wr str j 0)
        else case rhn2str_from rhn sz lb 1 str 0 of
            Fault \<Rightarrow> Fault
          | Fail str \<Rightarrow> rhn2str_overflow str sz
          | Ok (str, j) \<Rightarrow> wr str j 0))"

subsection \<open>Scans of well-formed names\<close>

lemma rhnlen_from_name: "labels_ok ls \<Longrightarrow> rhnlen_from (pre @ rhn_of ls @ post) (length pre) = Ok (length pre + length (rhn_of ls))"
proof (induction ls arbitrary: pre)
  case Nil
  then show ?case by (simp add: rhnlen_from.simps)
next
  case (Cons l ls)
  from Cons.IH [of "pre @ of_nat (length l) # l"] Cons.prems
  have "rhnlen_from (pre @ rhn_of (l # ls) @ post) (length pre + 1 + length l) = Ok (length pre + length (rhn_of (l # ls)))" by simp
  then show ?case using Cons.prems by (subst rhnlen_from.simps) simp
qed

lemma rhnlen_name [simp]: "labels_ok ls \<Longrightarrow> rhnlen (rhn_of ls @ post) = Ok (length (rhn_of ls))"
  using rhnlen_from_name [of ls "[]"] by (simp add: rhnlen_def)

lemma skiprhn_name: "labels_ok ls \<Longrightarrow> skiprhn (rhn_of ls @ post) = Ok (length (rhn_of ls))"
  using rhnlen_from_name [of ls "[]"] by (simp add: skiprhn_def)

lemma rhnsegcnt_from_name: "labels_ok ls \<Longrightarrow> rhnsegcnt_from (pre @ rhn_of ls @ post) (length pre) n = Ok (n + length ls)"
proof (induction ls arbitrary: pre n)
  case Nil
  then show ?case by (simp add: rhnsegcnt_from.simps)
next
  case (Cons l ls)
  from Cons.IH [of "pre @ of_nat (length l) # l" "n + 1"] Cons.prems
  have "rhnsegcnt_from (pre @ rhn_of (l # ls) @ post) (length pre + (length l + 1)) (n + 1) = Ok (n + length (l # ls))" by (simp add: ac_simps)
  then show ?case using Cons.prems by (subst rhnsegcnt_from.simps) simp
qed

lemma rhnsegcnt_name: "labels_ok ls \<Longrightarrow> rhnsegcnt (rhn_of ls @ post) = Ok (length ls)"
  using rhnsegcnt_from_name [of ls "[]" post 0] by (simp add: rhnsegcnt_def)

lemma skipsegs_from_name:
  "labels_ok ls \<Longrightarrow> skipsegs_from (pre @ rhn_of ls @ post) (length pre) k = Ok (length pre + length (rhn_hdr (take k ls)))"
proof (induction ls arbitrary: pre k)
  case Nil
  then show ?case by (cases k) simp_all
next
  case (Cons l ls)
  show ?case
  proof (cases k)
    case (Suc k')
    from Cons.IH [of "pre @ of_nat (length l) # l" k'] Cons.prems
    have "skipsegs_from (pre @ rhn_of (l # ls) @ post) (length pre + (length l + 1)) k' = Ok (length pre + length (rhn_hdr (take k (l # ls))))"
      by (simp add: ac_simps Suc)
    then show ?thesis using Cons.prems by (simp add: Suc)
  qed simp
qed

lemma skipsegs_name: "labels_ok ls \<Longrightarrow> skipsegs (rhn_of ls @ post) k = Ok (length (rhn_hdr (take k ls)))"
  using skipsegs_from_name [of ls "[]" post k] by (simp add: skipsegs_def)

lemma rhncpy_name:
  "name_ok ls \<Longrightarrow> DNSNAMEBUFSIZE \<le> length dst \<Longrightarrow> rhncpy dst (rhn_of ls @ post) = Ok (overwrite 0 (rhn_of ls) dst, length (rhn_of ls))"
  by (simp add: rhncpy_def name_ok_def)

text \<open>A prefix of a memory area that is a name, and the check for one.\<close>

lemma isnormal_from_name:
  assumes "labels_ok ls" "i = length pre"
  shows "isnormal_from (pre @ rhn_of ls @ post) m i = Ok (i + length (rhn_of ls) \<le> m)"
  using assms
proof (induction ls arbitrary: pre i)
  case Nil
  then show ?case by (simp add: isnormal_from.simps)
next
  case (Cons l ls)
  from Cons.IH [of "i + 1 + length l" "pre @ of_nat (length l) # l"] Cons.prems
  have "isnormal_from (pre @ rhn_of (l # ls) @ post) m (i + 1 + length l) = Ok (i + length (rhn_of (l # ls)) \<le> m)" by (simp add: add.assoc)
  then show ?case using Cons.prems by (subst isnormal_from.simps) (simp add: add.assoc)
qed

lemma isnormal_from_sound:
  "isnormal_from rhn m i = Ok True \<Longrightarrow> \<exists>ls post. drop i rhn = rhn_of ls @ post \<and> labels_ok ls \<and> i + length (rhn_of ls) \<le> m"
proof (induction rhn m i rule: isnormal_from.induct)
  case (1 rhn m i)
  show ?case
  proof (cases "rhn ! i = 0")
    case True
    with "1.prems" have "i < m" "i < length rhn" by (auto simp: isnormal_from.simps [of rhn m i] exec_bind_Ok_iff split: if_splits)
    then show ?thesis using True Cons_nth_drop_Suc [of i rhn] by (intro exI [of _ "[]"] exI [of _ "drop (i + 1) rhn"]) simp
  next
    case False
    let ?n = "unat (rhn ! i)"
    from "1.prems" False have *: "\<not> m \<le> i" "i < length rhn" "\<not> 63 < rhn ! i" "isnormal_from rhn m (i + 1 + ?n) = Ok True"
      by (auto simp: isnormal_from.simps [of rhn m i] exec_bind_Ok_iff split: if_splits)
    from "1.IH" [OF *(1) rd_Ok(1) [OF *(2)] False *(3,4)] obtain ls post where
      ls: "drop (i + 1 + ?n) rhn = rhn_of ls @ post" "labels_ok ls" "i + 1 + ?n + length (rhn_of ls) \<le> m" by auto
    have n: "0 < ?n" "?n \<le> 63" using False *(3) by (simp_all add: word_unat_eq_iff word_less_nat_alt)
    have "drop (i + 1 + ?n) rhn \<noteq> []" using ls(1) by (simp add: rhn_of_def)
    then have l: "length (slice (i + 1) ?n rhn) = ?n" by (simp add: slice_def)
    have "drop (i + 1) rhn = slice (i + 1) ?n rhn @ drop (i + 1 + ?n) rhn" 
      using append_take_drop_id [of ?n "drop (i + 1) rhn"] by (simp add: slice_def add.commute)
    then have "drop i rhn = rhn ! i # slice (i + 1) ?n rhn @ rhn_of ls @ post" using *(2) ls(1) by (simp flip: Cons_nth_drop_Suc)
    then show ?thesis using ls n l by (intro exI [of _ "slice (i + 1) ?n rhn # ls"] exI [of _ post]) simp
  qed
qed

lemma isnormalencdomname_iff:
  "isnormalencdomname rhn maxlen = Ok True \<longleftrightarrow> (\<exists>ls post. rhn = rhn_of ls @ post \<and> name_ok ls \<and> length (rhn_of ls) \<le> maxlen)"
proof
  assume "isnormalencdomname rhn maxlen = Ok True"
  from isnormal_from_sound [OF this [unfolded isnormalencdomname_def]]
  show "\<exists>ls post. rhn = rhn_of ls @ post \<and> name_ok ls \<and> length (rhn_of ls) \<le> maxlen" by (auto simp: name_ok_def split: if_splits)
next
  assume "\<exists>ls post. rhn = rhn_of ls @ post \<and> name_ok ls \<and> length (rhn_of ls) \<le> maxlen"
  then show "isnormalencdomname rhn maxlen = Ok True"
    using isnormal_from_name [of _ _ "[]"] by (auto simp: isnormalencdomname_def name_ok_def)
qed

subsection \<open>Comparison ignores case\<close>

definition lower :: "byte list list \<Rightarrow> byte list list" where
  "lower ls = map (map tolower) ls"

lemma lower_simps [simp]: "lower [] = []" "lower (l # ls) = map tolower l # lower ls" "lower (xs @ ys) = lower xs @ lower ys" "length (lower ls) = length ls"
  "lower (rev ls) = rev (lower ls)" "take n (lower ls) = lower (take n ls)" "drop n (lower ls) = lower (drop n ls)"
  by (simp_all add: lower_def rev_map take_map drop_map)

lemma same_bytes_eq:
  "length x = length y \<Longrightarrow> same_bytes (pre @ x @ post) (pre' @ y @ post') (length pre) (length x) = Ok (map tolower x = map tolower y)"
  if "length pre = length pre'" for pre
  using that
proof (induction x y arbitrary: pre pre' rule: list_induct2')
  case (4 x xs y ys)
  from "4.IH" [of "pre @ [x]" "pre' @ [y]"] "4.prems" have
    "same_bytes (pre @ (x # xs) @ post) (pre' @ (y # ys) @ post') (length pre + 1) (length xs) = Ok (map tolower xs = map tolower ys)" by simp
  moreover have "rd (pre' @ y # ys @ post') (length pre) = Ok y" using "4.prems" by simp
  ultimately show ?case by simp
qed simp_all

lemma rhnicmp_from_eq:
  assumes "labels_ok a" "labels_ok b" "length pre = length pre'" "i = length pre"
  shows "rhnicmp_from (pre @ rhn_of a @ post) (pre' @ rhn_of b @ post') i = Ok (lower a = lower b)"
  using assms
proof (induction a b arbitrary: pre pre' i rule: list_induct2')
  case (4 x xs y ys)
  let ?A = "pre @ rhn_of (x # xs) @ post" and ?B = "pre' @ rhn_of (y # ys) @ post'"
  have len: "(of_nat (length x) :: byte) = of_nat (length y) \<longleftrightarrow> length x = length y"
    using "4.prems" by (simp add: word_unat_eq_iff)
  have r: "rd ?A i = Ok (of_nat (length x))" "rd ?B i = Ok (of_nat (length y))" using "4.prems"(3,4) by (simp_all add: rd_def nth_append)
  show ?case
  proof (cases "length x = length y")
    case True
    have s: "same_bytes ?A ?B (i + 1) (length x) = Ok (map tolower x = map tolower y)"
      using same_bytes_eq [of "pre @ [of_nat (length x)]" "pre' @ [of_nat (length y)]" x y "rhn_of xs @ post" "rhn_of ys @ post'"] True "4.prems" by simp
    have "rhnicmp_from ?A ?B (i + 1 + length x) = Ok (lower xs = lower ys)"
      using "4.IH" [of "pre @ of_nat (length x) # x" "pre' @ of_nat (length y) # y" "i + 1 + length x"] True "4.prems" by simp
    then show ?thesis using r s len True "4.prems"(1) by (subst rhnicmp_from.simps) simp
  next
    case False
    then have "map tolower x \<noteq> map tolower y" by (metis length_map)
    then show ?thesis using r len False by (subst rhnicmp_from.simps) simp
  qed
qed (subst rhnicmp_from.simps, auto simp: rd_def nth_append)+

lemma rhnicmp_name: "labels_ok a \<Longrightarrow> labels_ok b \<Longrightarrow> rhnicmp (rhn_of a @ post) (rhn_of b @ post') = Ok (lower a = lower b)"
  using rhnicmp_from_eq [of a b "[]" "[]" 0] by (simp add: rhnicmp_def)

subsection \<open>Conversion from dotted notation\<close>

text \<open>The dotted notation of a sequence of labels, and the text of a string that is limited by a zero byte or by a length.\<close>

definition dotted :: "byte list list \<Rightarrow> byte list" where
  "dotted ls = concat (map (\<lambda>l. l @ [dot]) ls)"

definition clean :: "byte list list \<Rightarrow> bool" where
  "clean ls \<longleftrightarrow> (\<forall>l \<in> set ls. dot \<notin> set l \<and> 0 \<notin> set l)"

definition text_of :: "byte list \<Rightarrow> nat option \<Rightarrow> byte list \<Rightarrow> bool" where
  "text_of str lim s \<longleftrightarrow> 0 \<notin> set s \<and> (case lim of None \<Rightarrow> \<exists>r. str = s @ 0 # r
     | Some len \<Rightarrow> \<exists>r. str = s @ r \<and> (length s = len \<or> length s < len \<and> (\<exists>r'. r = 0 # r')))"

lemma dotted_simps [simp]: "dotted [] = []" "dotted (l # ls) = l @ dot # dotted ls" "dotted (xs @ ys) = dotted xs @ dotted ys"
  by (simp_all add: dotted_def)

lemma length_dotted [simp]: "length (dotted ls) = length (rhn_hdr ls)"
  by (induction ls) simp_all

lemma split_dots: "\<exists>ls w. s = dotted ls @ w \<and> (\<forall>l \<in> set ls. dot \<notin> set l) \<and> dot \<notin> set w"
proof (induction "length s" arbitrary: s rule: less_induct)
  case less
  show ?case
  proof (cases "dot \<in> set s")
    case True
    then obtain l s' where s: "s = l @ dot # s'" "dot \<notin> set l" by (meson split_list_first)
    with less [of s'] obtain ls w where "s' = dotted ls @ w" "\<forall>l \<in> set ls. dot \<notin> set l" "dot \<notin> set w" by auto
    then show ?thesis using s by (intro exI [of _ "l # ls"] exI [of _ w]) auto
  qed (auto intro: exI [of _ "[]"])
qed

lemma copy_label_spec:
  assumes "text_of str lim (pre @ w @ post)" "dot \<notin> set w" "post = [] \<or> hd post = dot" "jlim < length rhn"
  shows "copy_label e str lim jlim rhn (length pre) =
    (if w = [] \<or> length pre + length w \<le> jlim then Ok (length pre + length w, overwrite (length pre + 1) w rhn) else Fail e)"
  using assms
proof (induction w arbitrary: pre rhn)
  case Nil
  have "copy_label e str lim jlim rhn (length pre) = Ok (length pre, rhn)"
    using Nil.prems by (subst copy_label.simps) (cases post; cases lim; auto simp: text_of_def)
  then show ?case by (simp add: overwrite_def)
next
  case (Cons c w)
  have c: "c \<noteq> 0" "c \<noteq> dot" "rd str (length pre) = Ok c" "\<not> (case lim of None \<Rightarrow> False | Some len \<Rightarrow> len \<le> length pre)"
    using Cons.prems(1,2) by (auto simp: text_of_def split: option.splits)
  show ?case
  proof (cases "jlim \<le> length pre")
    case True
    then show ?thesis using c by (subst copy_label.simps) simp
  next
    case False
    let ?r = "rhn[length pre + 1 := c]"
    have "copy_label e str lim jlim ?r (length pre + 1) = (if w = [] \<or> length pre + 1 + length w \<le> jlim
        then Ok (length pre + 1 + length w, overwrite (length pre + 2) w ?r) else Fail e)"
      using Cons.IH [of "pre @ [c]" ?r] Cons.prems by simp
    moreover have "overwrite (length pre + 2) w ?r = overwrite (length pre + 1) (c # w) rhn"
      using False Cons.prems(4) by (simp add: overwrite_def take_Suc_conv_app_nth)
    ultimately show ?thesis using c False Cons.prems(4) by (subst copy_label.simps) auto
  qed
qed

text \<open>Writing one label after those already converted.\<close>

lemma overwrite_Nil [simp]: "overwrite n [] m = m"
  by (simp add: overwrite_def)

lemma write_label:
  assumes "length h + 1 + length w \<le> length rhn"
  shows "wr (overwrite (length h + 1) w (overwrite 0 h rhn)) (length h) b = Ok (overwrite 0 (h @ b # w) rhn)"
  using assms by (simp add: overwrite_def list_update_append drop_Suc [symmetric] take_Suc_conv_app_nth add.commute)

definition fits :: "byte list list \<Rightarrow> byte list \<Rightarrow> bool" where
  "fits done l \<longleftrightarrow> l = [] \<or> length l \<le> 63 \<and> length (rhn_hdr (done @ [l])) \<le> DNSNAMEBUFSIZE - 1"

lemma fits_jlim: "fits done l \<longleftrightarrow> l = [] \<or> length (dotted done) + length l \<le> jlim_of (length (dotted done))"
  by (auto simp: fits_def jlim_of_def DNSNAMEBUFSIZE_def)

lemma jlim_of_less [simp]: "DNSNAMEBUFSIZE \<le> length rhn \<Longrightarrow> jlim_of i < length rhn"
  by (simp add: jlim_of_def DNSNAMEBUFSIZE_def)

lemma copy_next_label:
  assumes "length (rhn_hdr done) \<le> DNSNAMEBUFSIZE - 1" "text_of str lim (dotted done @ w @ post)" "dot \<notin> set w" "post = [] \<or> hd post = dot" "DNSNAMEBUFSIZE \<le> length rhn"
    and "i = length (rhn_hdr done)"
  shows "copy_label e str lim (jlim_of i) (overwrite 0 (rhn_hdr done) rhn) i =
    (if fits done w then Ok (i + length w, overwrite (i + 1) w (overwrite 0 (rhn_hdr done) rhn)) else Fail e)"
  using copy_label_spec [OF assms(2-4), of "jlim_of i" "overwrite 0 (rhn_hdr done) rhn" e] assms(1,5,6)
  by (simp add: fits_jlim DNSNAMEBUFSIZE_def)

lemma str2rhn_from_step:
  assumes "text_of str None (dotted done @ w @ post)" "dot \<notin> set w" "post = [] \<or> hd post = dot" "DNSNAMEBUFSIZE \<le> length rhn"
    and "length (rhn_hdr done) \<le> DNSNAMEBUFSIZE - 1" "i = length (rhn_hdr done)"
  shows "str2rhn_from str (overwrite 0 (rhn_hdr done) rhn) i =
    (if \<not> fits done w then Fail ()
     else if post = [] then Ok (overwrite (i + 1) w (overwrite 0 (rhn_hdr done) rhn), i, i + length w)
     else if w = [] then Fail ()
     else str2rhn_from str (overwrite 0 (rhn_hdr (done @ [w])) rhn) (length (rhn_hdr (done @ [w]))))"
proof (cases "fits done w")
  case True
  have rd: "rd str (i + length w) = Ok (if post = [] then 0 else dot)"
    using assms(1,3,6) by (cases post) (auto simp: text_of_def rd_def nth_append)
  have wr: "wr (overwrite (i + 1) w (overwrite 0 (rhn_hdr done) rhn)) i (of_nat (length w)) = Ok (overwrite 0 (rhn_hdr (done @ [w])) rhn)" if "w \<noteq> []"
    using write_label [of "rhn_hdr done" w rhn "of_nat (length w)"] True that assms(4,6) by (simp add: fits_def DNSNAMEBUFSIZE_def)
  show ?thesis using copy_next_label [OF assms(5) assms(1-4,6), of "()"] True rd wr assms(6) by (subst str2rhn_from.simps) (auto split: if_splits)
next
  case False
  then show ?thesis using copy_next_label [OF assms(5) assms(1-4,6), of "()"] by (subst str2rhn_from.simps) simp
qed

text \<open>The labels that fit after those already converted.\<close>

fun all_fit :: "byte list list \<Rightarrow> byte list list \<Rightarrow> bool" where
  "all_fit done [] = True"
| "all_fit done (l # ls) = (l \<noteq> [] \<and> fits done l \<and> all_fit (done @ [l]) ls)"

lemma all_fit_iff:
  "length (rhn_hdr done) \<le> DNSNAMEBUFSIZE - 1 \<Longrightarrow>
    all_fit done ls \<longleftrightarrow> labels_ok ls \<and> length (rhn_hdr (done @ ls)) \<le> DNSNAMEBUFSIZE - 1"
  by (induction ls arbitrary: "done") (auto simp: fits_def)

lemma str2rhn_from_spec:
  assumes "text_of str None (dotted done @ dotted ls @ w)" "\<forall>l \<in> set ls. dot \<notin> set l" "dot \<notin> set w" "DNSNAMEBUFSIZE \<le> length rhn"
    and "length (rhn_hdr done) \<le> DNSNAMEBUFSIZE - 1" "i = length (rhn_hdr done)"
  shows "str2rhn_from str (overwrite 0 (rhn_hdr done) rhn) i =
    (if all_fit done ls \<and> fits (done @ ls) w
     then Ok (overwrite (length (rhn_hdr (done @ ls)) + 1) w (overwrite 0 (rhn_hdr (done @ ls)) rhn), length (rhn_hdr (done @ ls)), length (rhn_hdr (done @ ls)) + length w)
     else Fail ())"
  using assms
proof (induction ls arbitrary: "done" i)
  case Nil
  then show ?case using str2rhn_from_step [of str "done" w "[]" rhn i] by simp
next
  case (Cons l ls)
  note step = str2rhn_from_step [of str "done" l "dot # dotted ls @ w" rhn i]
  show ?case
  proof (cases "l \<noteq> [] \<and> fits done l")
    case True
    then have "length (rhn_hdr (done @ [l])) \<le> DNSNAMEBUFSIZE - 1" by (auto simp: fits_def)
    then show ?thesis using Cons.IH [of "done @ [l]" "length (rhn_hdr (done @ [l]))"] Cons.prems step True by simp
  next
    case False
    then show ?thesis using step Cons.prems by auto
  qed
qed

lemma dotted_root: "dotted ls @ w = [dot] \<Longrightarrow> (\<forall>l \<in> set ls. dot \<notin> set l) \<Longrightarrow> dot \<notin> set w \<Longrightarrow> ls = [[]] \<and> w = []"
  by (cases ls; cases "tl ls") (auto simp: append_eq_Cons_conv Cons_eq_append_conv)

text \<open>The text of a name: its dotted notation, or a single dot for the root.\<close>

definition name_text :: "byte list list \<Rightarrow> byte list" where
  "name_text ls = (if ls = [] then [dot] else dotted ls)"

lemma name_ok_iff: "name_ok ls \<longleftrightarrow> all_fit [] ls"
  by (simp add: name_ok_def all_fit_iff rhn_of_def DNSNAMEBUFSIZE_def less_Suc_eq_le)

lemma write_end: "length (rhn_hdr ls) \<le> DNSNAMEBUFSIZE - 1 \<Longrightarrow> DNSNAMEBUFSIZE \<le> length rhn \<Longrightarrow>
    wr (overwrite 0 (rhn_hdr ls) rhn) (length (rhn_hdr ls)) 0 = Ok (overwrite 0 (rhn_of ls) rhn)"
  using write_label [of "rhn_hdr ls" "[]" rhn 0] by (simp add: rhn_of_def DNSNAMEBUFSIZE_def)

lemma str2rhn_spec:
  assumes "text_of str None s" "DNSNAMEBUFSIZE \<le> length rhn"
    and s: "s = dotted ls @ w" "\<forall>l \<in> set ls. dot \<notin> set l" "dot \<notin> set w"
  shows "str2rhn str rhn = (if s = [dot] then Ok (overwrite 0 [0] rhn)
    else if ls \<noteq> [] \<and> w = [] \<and> name_ok ls then Ok (overwrite 0 (rhn_of ls) rhn) else Fail ())"
proof -
  obtain r where r: "str = s @ 0 # r" "0 \<notin> set s" using assms(1) by (auto simp: text_of_def)
  have c: "exec_bind (rd str 0) (\<lambda>c0. exec_bind (if c0 = dot then rd str 1 else Ok 1) (\<lambda>c1. if c0 = dot \<and> c1 = 0 then X else Y)) = (if s = [dot] then X else Y)"
    for X Y :: "(unit, byte list) exec"
    using r by (cases s; cases "tl s") (auto simp: rd_def)
  let ?h = "rhn_hdr ls"
  have run: "str2rhn_from str rhn 0 = (if name_ok ls \<and> fits ls w
     then Ok (overwrite (length ?h + 1) w (overwrite 0 ?h rhn), length ?h, length ?h + length w) else Fail ())"
    using str2rhn_from_spec [of str "[]" ls w rhn 0] assms by (simp add: name_ok_iff)
  have len: "name_ok ls \<Longrightarrow> length ?h \<le> DNSNAMEBUFSIZE - 1" by (simp add: name_ok_iff all_fit_iff)
  have w0: "wr (overwrite (length ?h + 1) w (overwrite 0 ?h rhn)) (length ?h) 0 \<noteq> Fault" if "name_ok ls" "fits ls w"
    using len [OF that(1)] that(2) assms(2) by (auto simp: wr_def fits_def DNSNAMEBUFSIZE_def)
  have "exec_bind (str2rhn_from str rhn 0) (\<lambda>(rhn, i, j). exec_bind (wr rhn i 0) (\<lambda>rhn. if i < j \<or> i = 0 then Fail () else Ok rhn)) =
    (if ls \<noteq> [] \<and> w = [] \<and> name_ok ls then Ok (overwrite 0 (rhn_of ls) rhn) else Fail ())"
  proof (cases "name_ok ls \<and> fits ls w")
    case True
    show ?thesis
    proof (cases "w = []")
      case True
      then show ?thesis using run write_end [OF len assms(2)] \<open>name_ok ls \<and> fits ls w\<close> by (cases ls) simp_all
    next
      case False
      then show ?thesis using run w0 True by (cases "wr (overwrite (length ?h + 1) w (overwrite 0 ?h rhn)) (length ?h) 0 :: (unit, byte list) exec") (auto simp: wr_def split: if_splits)
    qed
  qed (use run in \<open>auto simp: fits_def\<close>)
  moreover have "wr rhn 0 0 = Ok (overwrite 0 [0] rhn)" using assms(2) by (cases rhn) (simp_all add: overwrite_def DNSNAMEBUFSIZE_def)
  ultimately show ?thesis by (simp add: str2rhn_def c)
qed

lemma parsestr2rhn_from_step:
  assumes "text_of str (Some len) (dotted done @ w @ post)" "dot \<notin> set w" "post = [] \<or> hd post = dot" "DNSNAMEBUFSIZE \<le> length rhn"
    and "length (rhn_hdr done) \<le> DNSNAMEBUFSIZE - 1" "i = length (rhn_hdr done)"
  shows "parsestr2rhn_from str len (overwrite 0 (rhn_hdr done) rhn) i =
    (if \<not> fits done w then Fail ''Domain name element too long''
     else if w = [] then (if post = [] then Ok (overwrite 0 (rhn_hdr done) rhn, i) else Fail ''Empty name element in domain name'')
     else if post = [] then Ok (overwrite 0 (rhn_hdr (done @ [w])) rhn, length (rhn_hdr (done @ [w])))
     else parsestr2rhn_from str len (overwrite 0 (rhn_hdr (done @ [w])) rhn) (length (rhn_hdr (done @ [w]))))"
proof (cases "fits done w")
  case True
  have m: "(more str len (i + length w) :: (string, bool) exec) = Ok (post \<noteq> [])"
    using assms(1,3,6) by (cases post) (auto simp: text_of_def more_def rd_def nth_append)
  have wr: "wr (overwrite (i + 1) w (overwrite 0 (rhn_hdr done) rhn)) i (of_nat (length w)) = Ok (overwrite 0 (rhn_hdr (done @ [w])) rhn)" if "w \<noteq> []"
    using write_label [of "rhn_hdr done" w rhn "of_nat (length w)"] True that assms(4,6) by (simp add: fits_def DNSNAMEBUFSIZE_def)
  show ?thesis
    using copy_next_label [OF assms(5) assms(1-4,6), of "''Domain name element too long''"] True m wr assms(6) by (subst parsestr2rhn_from.simps) (auto split: if_splits)
next
  case False
  then show ?thesis using copy_next_label [OF assms(5) assms(1-4,6), of "''Domain name element too long''"] by (subst parsestr2rhn_from.simps) simp
qed

text \<open>The labels of a text in dotted notation: a final label need not be followed by a dot.\<close>

definition with_last :: "byte list list \<Rightarrow> byte list \<Rightarrow> byte list list" where
  "with_last ls w = (if w = [] then ls else ls @ [w])"

lemma with_last_Cons: "with_last (l # ls) w = l # with_last ls w"
  by (simp add: with_last_def)

lemma parsestr2rhn_from_spec:
  assumes "text_of str (Some len) (dotted done @ dotted ls @ w)" "\<forall>l \<in> set ls. dot \<notin> set l" "dot \<notin> set w" "DNSNAMEBUFSIZE \<le> length rhn"
    and "length (rhn_hdr done) \<le> DNSNAMEBUFSIZE - 1" "i = length (rhn_hdr done)"
  shows "\<exists>e. parsestr2rhn_from str len (overwrite 0 (rhn_hdr done) rhn) i =
    (if all_fit done (with_last ls w)
     then Ok (overwrite 0 (rhn_hdr (done @ with_last ls w)) rhn, length (rhn_hdr (done @ with_last ls w))) else Fail e)"
  using assms
proof (induction ls arbitrary: "done" i)
  case Nil
  then show ?case using parsestr2rhn_from_step [of str len "done" w "[]" rhn i] by (auto simp: with_last_def fits_def)
next
  case (Cons l ls)
  note step = parsestr2rhn_from_step [of str len "done" l "dot # dotted ls @ w" rhn i]
  show ?case
  proof (cases "l \<noteq> [] \<and> fits done l")
    case True
    then have "length (rhn_hdr (done @ [l])) \<le> DNSNAMEBUFSIZE - 1" by (auto simp: fits_def)
    then show ?thesis using Cons.IH [of "done @ [l]" "length (rhn_hdr (done @ [l]))"] Cons.prems step True
      by (cases "all_fit (done @ [l]) (with_last ls w)") (auto simp: with_last_Cons)
  next
    case False
    then show ?thesis using step Cons.prems by (auto simp: with_last_Cons)
  qed
qed

lemma parsestr2rhn_spec:
  assumes "text_of str (Some len) s" "DNSNAMEBUFSIZE \<le> length rhn"
    and s: "s = dotted ls @ w" "\<forall>l \<in> set ls. dot \<notin> set l" "dot \<notin> set w"
  shows "\<exists>e. parsestr2rhn str len rhn = (if s = [dot] then Ok (overwrite 0 [0] rhn)
    else if with_last ls w \<noteq> [] \<and> name_ok (with_last ls w) then Ok (overwrite 0 (rhn_of (with_last ls w)) rhn) else Fail e)"
proof -
  let ?ls = "with_last ls w"
  have c: "(if 0 < len then exec_bind (rd str 0) (\<lambda>c0. if c0 \<noteq> dot then Ok False else if len = 1 then Ok True
      else exec_bind (rd str 1) (\<lambda>c1. Ok (c1 = 0))) else Ok False) = Ok (s = [dot])"
    using assms(1) by (cases s; cases "tl s") (auto simp: rd_def text_of_def)
  obtain e where run: "parsestr2rhn_from str len rhn 0 = (if name_ok ?ls then Ok (overwrite 0 (rhn_hdr ?ls) rhn, length (rhn_hdr ?ls)) else Fail e)"
    using parsestr2rhn_from_spec [of str len "[]" ls w rhn 0] assms by (cases "all_fit [] ?ls") (auto simp: name_ok_iff)
  have len: "name_ok ?ls \<Longrightarrow> length (rhn_hdr ?ls) \<le> DNSNAMEBUFSIZE - 1" by (simp add: name_ok_iff all_fit_iff)
  have "wr rhn 0 0 = Ok (overwrite 0 [0] rhn)" using assms(2) by (cases rhn) (simp_all add: overwrite_def DNSNAMEBUFSIZE_def)
  then show ?thesis unfolding parsestr2rhn_def c using run write_end [OF len assms(2)] by (cases ?ls) (auto intro: exI [of _ e])
qed

lemma zero_dotted: "0 \<notin> set (dotted ls) \<longleftrightarrow> (\<forall>l \<in> set ls. 0 \<notin> set l)"
  by (induction ls) auto

lemma wf_text:
  assumes "text_of str lim s"
  obtains ls w where "s = dotted ls @ w" "clean ls" "dot \<notin> set w" "0 \<notin> set w"
proof -
  obtain ls w where "s = dotted ls @ w" "\<forall>l \<in> set ls. dot \<notin> set l" "dot \<notin> set w" using split_dots by blast
  moreover from this have "clean ls" "0 \<notin> set w" using assms by (auto simp: text_of_def clean_def zero_dotted)
  ultimately show ?thesis using that by blast
qed

subsection \<open>Conversion to dotted notation\<close>

definition esc :: "byte \<Rightarrow> byte list" where
  "esc c = (if isgraph c then (if special c then [92, c] else [c]) else octal c)"

primrec escs :: "byte list \<Rightarrow> byte list" where
  "escs [] = []"
| "escs (c # l) = esc c @ escs l"

definition rhn_text :: "byte list list \<Rightarrow> byte list" where
  "rhn_text ls = (if ls = [] then [dot] else dotted (map escs ls))"

lemma octal_length [simp]: "length (octal c) = 4"
  by (simp add: octal_def Let_def)

text \<open>The characters written so far are \<open>t\<close>, the rest of the buffer is arbitrary.\<close>

definition shows_text :: "byte list \<Rightarrow> byte list \<Rightarrow> byte list \<Rightarrow> bool" where
  "shows_text str0 t str \<longleftrightarrow> length str = length str0 \<and> length t \<le> length str \<and> take (length t) str = t"

lemma shows_wr: "shows_text s0 t str \<Longrightarrow> length t < length s0 \<Longrightarrow> \<exists>str'. wr str (length t) c = Ok str' \<and> shows_text s0 (t @ [c]) str'"
  by (auto simp: shows_text_def take_Suc_conv_app_nth)

lemma shows_octal:
  assumes "shows_text s0 t str" "4 < rem" "length t + rem \<le> length s0"
  shows "\<exists>str'. snprintf_octal str (length t) rem c = Ok str' \<and> shows_text s0 (t @ octal c) str'"
  using assms by (auto simp: shows_text_def snprintf_octal_def Let_def overwrite_def)

lemma rhn2str_label_shows:
  assumes "sz \<le> length s0" "shows_text s0 t str" "length t + length (escs l) + 1 < sz"
  shows "\<exists>str'. rhn2str_label (pre @ l @ post) sz (length l) (length pre) str (length t) =
      Ok (length pre + length l, str', length t + length (escs l)) \<and> shows_text s0 (t @ escs l) str'"
  using assms(2,3)
proof (induction l arbitrary: pre t str)
  case (Cons c l)
  have *: "\<exists>str'. rhn2str_label (pre @ (c # l) @ post) sz (length l) (length pre + 1) str1 (length t + length (esc c)) =
      Ok (length pre + length (c # l), str', length t + length (escs (c # l))) \<and> shows_text s0 (t @ escs (c # l)) str'"
    if "shows_text s0 (t @ esc c) str1" for str1
    using Cons.IH [OF that, of "pre @ [c]"] Cons.prems(2) by (simp add: ac_simps)
  show ?case
  proof (cases "isgraph c")
    case True
    show ?thesis
    proof (cases "special c")
      case sp: True
      then have e: "esc c = [92, c]" using True by (simp add: esc_def)
      obtain s1 where s1: "wr str (length t) 92 = Ok s1" "shows_text s0 (t @ [92]) s1"
        using shows_wr [OF Cons.prems(1), of 92] Cons.prems(2) assms(1) by auto
      obtain s2 where s2: "wr s1 (length t + 1) c = Ok s2" "shows_text s0 (t @ [92, c]) s2"
        using shows_wr [OF s1(2), of c] Cons.prems(2) assms(1) True sp e by auto
      show ?thesis using * [of s2] s1(1) s2 True sp e Cons.prems(2) by auto
    next
      case sp: False
      then have e: "esc c = [c]" using True by (simp add: esc_def)
      obtain s1 where s1: "wr str (length t) c = Ok s1" "shows_text s0 (t @ [c]) s1"
        using shows_wr [OF Cons.prems(1), of c] Cons.prems(2) assms(1) by auto
      show ?thesis using * [of s1] s1 True sp e Cons.prems(2) by auto
    qed
  next
    case False
    then have e: "esc c = octal c" by (simp add: esc_def)
    have "4 < sz - 1 - length t" "length t + (sz - 1 - length t) \<le> length s0" using Cons.prems(2) assms(1) e by simp_all
    from shows_octal [OF Cons.prems(1) this, of c]
    obtain s1 where s1: "(snprintf_octal str (length t) (sz - 1 - length t) c :: (byte list, byte list) exec) = Ok s1" "shows_text s0 (t @ octal c) s1"
      by auto
    show ?thesis using * [of s1] s1 False e Cons.prems(2) by (auto simp: Let_def)
  qed
qed simp

lemma rhn2str_from_shows:
  assumes "sz \<le> length s0" "labels_ok (l # ls)" "shows_text s0 t str" "length (t @ dotted (map escs (l # ls))) < sz"
  shows "\<exists>str'. rhn2str_from (pre @ l @ rhn_of ls @ post) sz (of_nat (length l)) (length pre) str (length t) =
      Ok (str', length (t @ dotted (map escs (l # ls)))) \<and> shows_text s0 (t @ dotted (map escs (l # ls))) str'"
  using assms(2-)
proof (induction ls arbitrary: l pre t str)
  case Nil
  let ?e = "escs l"
  obtain s1 where s1: "rhn2str_label (pre @ l @ 0 # post) sz (length l) (length pre) str (length t) = Ok (length pre + length l, s1, length t + length ?e)"
    "shows_text s0 (t @ ?e) s1"
    using rhn2str_label_shows [OF assms(1) Nil.prems(2), of l pre "0 # post"] Nil.prems(3) by auto
  obtain s2 where s2: "wr s1 (length t + length ?e) dot = Ok s2" "shows_text s0 (t @ ?e @ [dot]) s2"
    using shows_wr [OF s1(2), of dot] Nil.prems(3) assms(1) by auto
  have "rd (pre @ l @ 0 # post) (length pre + length l) = Ok 0" by (simp add: rd_def nth_append)
  then show ?case using s1(1) s2 Nil.prems(1) by (subst rhn2str_from.simps) simp
next
  case (Cons l' ls)
  let ?e = "escs l" and ?rhn = "pre @ l @ rhn_of (l' # ls) @ post"
  obtain s1 where s1: "rhn2str_label ?rhn sz (length l) (length pre) str (length t) = Ok (length pre + length l, s1, length t + length ?e)"
    "shows_text s0 (t @ ?e) s1"
    using rhn2str_label_shows [OF assms(1) Cons.prems(2), of l pre "rhn_of (l' # ls) @ post"] Cons.prems(3) by auto
  obtain s2 where s2: "wr s1 (length t + length ?e) dot = Ok s2" "shows_text s0 (t @ ?e @ [dot]) s2"
    using shows_wr [OF s1(2), of dot] Cons.prems(3) assms(1) by auto
  have rd: "rd ?rhn (length pre + length l) = Ok (of_nat (length l'))" by (simp add: rd_def nth_append)
  from Cons.IH [of l' "t @ ?e @ [dot]" s2 "pre @ l @ [of_nat (length l')]"] Cons.prems s2(2)
  obtain s3 where "rhn2str_from ?rhn sz (of_nat (length l')) (length pre + length l + 1) s2 (length t + length ?e + 1) =
      Ok (s3, length (t @ dotted (map escs (l # l' # ls))))" "shows_text s0 (t @ dotted (map escs (l # l' # ls))) s3"
    by (auto simp: ac_simps)
  then show ?case using s1(1) s2(1) rd Cons.prems(1) by (subst rhn2str_from.simps) simp
qed

lemma rhn2str_shows:
  assumes "labels_ok ls" "length (rhn_text ls) < sz" "sz \<le> length str"
  shows "\<exists>str'. rhn2str (rhn_of ls @ post) str sz = Ok str' \<and> shows_text str (rhn_text ls @ [0]) str'"
proof (cases ls)
  case Nil
  then show ?thesis using assms by (cases str; cases "tl str") (auto simp: rhn2str_def rhn_text_def shows_text_def)
next
  case (Cons l ls')
  have "shows_text str [] str" by (simp add: shows_text_def)
  from rhn2str_from_shows [OF assms(3) _ this, of l ls' "[of_nat (length l)]" post] assms(1,2) Cons
  obtain s1 where s1: "rhn2str_from (rhn_of ls @ post) sz (of_nat (length l)) 1 str 0 = Ok (s1, length (rhn_text ls))" "shows_text str (rhn_text ls) s1"
    by (auto simp: rhn_text_def)
  obtain s2 where "wr s1 (length (rhn_text ls)) 0 = Ok s2" "shows_text str (rhn_text ls @ [0]) s2"
    using shows_wr [OF s1(2), of 0] assms(2,3) by auto
  then show ?thesis using s1(1) assms(1,2) Cons by (auto simp: rhn2str_def)
qed

lemma esc_plain: "(\<And>l c. l \<in> set ls \<Longrightarrow> c \<in> set l \<Longrightarrow> isgraph c \<and> \<not> special c) \<Longrightarrow> rhn_text ls = name_text ls"
proof -
  assume *: "\<And>l c. l \<in> set ls \<Longrightarrow> c \<in> set l \<Longrightarrow> isgraph c \<and> \<not> special c"
  have "(\<forall>c \<in> set l. isgraph c \<and> \<not> special c) \<Longrightarrow> escs l = l" for l by (induction l) (simp_all add: esc_def)
  then have "map escs ls = ls" using * by (simp add: map_idI)
  then show ?thesis by (simp add: rhn_text_def name_text_def)
qed

text \<open>\<^verbatim>\<open>str2rhn\<close> accepts exactly the texts of names, a dot after every label (or a single dot for the root) with labels of 1 to
  63 bytes and at most 256 bytes in all, and writes the name in wire format over the beginning of the buffer; every other string is refused.  It
  never reads outside of the string or writes outside of a buffer of \<^verbatim>\<open>DNSNAMEBUFSIZE\<close> bytes.\<close>

theorem str2rhn_correct:
  assumes "text_of str None s" "DNSNAMEBUFSIZE \<le> length rhn"
  shows "str2rhn str rhn \<noteq> Fault \<and>
    (str2rhn str rhn = Ok rhn' \<longleftrightarrow> (\<exists>ls. s = name_text ls \<and> clean ls \<and> name_ok ls \<and> rhn' = overwrite 0 (rhn_of ls) rhn))"
proof -
  obtain ls w where s: "s = dotted ls @ w" "clean ls" "dot \<notin> set w" "0 \<notin> set w" using wf_text [OF assms(1)] .
  note spec = str2rhn_spec [OF assms]
  have "str2rhn str rhn = Ok (overwrite 0 (rhn_of ls') rhn)" if "s = name_text ls'" "clean ls'" "name_ok ls'" for ls'
    using spec [of ls' "[]"] spec [of "[[]]" "[]"] that by (cases ls') (auto simp: name_text_def clean_def name_ok_def append_eq_Cons_conv)
  moreover have "\<exists>ls. s = name_text ls \<and> clean ls \<and> name_ok ls \<and> rhn' = overwrite 0 (rhn_of ls) rhn" if "str2rhn str rhn = Ok rhn'"
  proof (cases "s = [dot]")
    case True
    then show ?thesis using spec [of "[[]]" "[]"] that by (intro exI [of _ "[]"]) (simp add: name_text_def clean_def name_ok_def DNSNAMEBUFSIZE_def)
  next
    case False
    then show ?thesis using spec [OF s(1)] s that by (intro exI [of _ ls]) (auto simp: name_text_def clean_def split: if_splits)
  qed
  moreover have "str2rhn str rhn \<noteq> Fault" using spec [OF s(1)] s(2,3) by (auto simp: clean_def)
  ultimately show ?thesis by blast
qed



subsection \<open>Examples\<close>

theorem str2rhn_correct_witness:
  "str2rhn (name_text [[97], [98, 99]] @ [0]) (replicate 256 7) = Ok (overwrite 0 [1, 97, 2, 98, 99, 0] (replicate 256 7))"
proof -
  have "text_of (name_text [[97], [98, 99]] @ [0]) None (name_text [[97], [98, 99]])" by (simp add: text_of_def name_text_def)
  moreover have "DNSNAMEBUFSIZE \<le> length (replicate 256 (7 :: byte))" by (simp add: DNSNAMEBUFSIZE_def)
  moreover have "clean [[97], [98, 99]]" "name_ok [[97], [98, 99]]" by (simp_all add: clean_def name_ok_def DNSNAMEBUFSIZE_def)
  moreover have "rhn_of [[97], [98, 99]] = [1, 97, 2, 98, 99, 0]" by simp
  ultimately show ?thesis using str2rhn_correct [of "name_text [[97], [98, 99]] @ [0]" "name_text [[97], [98, 99]]" "replicate 256 7"] by metis
qed



end
