(* ===== verification/DnsName.thy ===== *)
theory DnsName
  imports Rhn
begin

text \<open>
  Compression of domain names in DNS messages (\<^verbatim>\<open>pdnsd/src/dns.c\<close>): \<^verbatim>\<open>decompress_name\<close>, \<^verbatim>\<open>domain_match\<close> and \<^verbatim>\<open>compress_name\<close>.  A compressed
  name is a sequence of labels that ends with a zero byte or with a pointer to another place of the message where the name goes
  on; the inductive predicate \<open>name_at\<close> states which sequence of labels stands at an offset.  Shown: decompression reads
  and writes within bounds for arbitrary messages, ends, and succeeds exactly when a name within its limits is there, which it then
  returns; and what compression writes decompresses to the name, up to the case of letters, for every sequence of names.
\<close>

unbundle bit_operations_syntax

subsection \<open>Decompression\<close>

text \<open>The error codes of \<^verbatim>\<open>decompress_name\<close>; success (\<^verbatim>\<open>RC_OK\<close>) is the outcome \<open>Ok\<close>.\<close>

datatype dns_rc = RC_FORMAT | RC_TRUNC

definition jump_offset :: "byte \<Rightarrow> byte \<Rightarrow> nat" where
  "jump_offset lb b = unat (push_bit 8 (ucast lb AND 0x3f) OR ucast b :: u32)"

definition copy_bytes :: "byte list \<Rightarrow> nat \<Rightarrow> nat \<Rightarrow> byte list \<Rightarrow> nat \<Rightarrow> ('e, byte list) exec" where
  "copy_bytes msg lptr n tgt tpos =
     (if lptr + n \<le> length msg \<and> tpos + n \<le> length tgt then Ok (overwrite tpos (slice lptr n msg) tgt) else Fault)"

text \<open>The inner \<^verbatim>\<open>while\<close> loop after the first jump, which follows pointers.\<close>

function follow :: "byte list \<Rightarrow> nat \<Rightarrow> nat \<Rightarrow> byte \<Rightarrow> (dns_rc, nat \<times> nat \<times> byte) exec" where
  "follow msg hops lptr lb =
     (if 0x3f < lb then
        (if lb < 0xc0 then Fail RC_FORMAT
         else if length msg \<le> lptr then Fail RC_FORMAT
         else if 255 < hops + 1 then Fail RC_FORMAT
         else exec_bind (rd msg lptr) (\<lambda>b.
           if length msg \<le> jump_offset lb b then Fail RC_FORMAT
           else exec_bind (rd msg (jump_offset lb b)) (\<lambda>lb'. follow msg (hops + 1) (jump_offset lb b + 1) lb')))
      else Ok (hops, lptr, lb))"
  by pat_completeness auto
termination
  by (relation "measure (\<lambda>(msg, hops, lptr, lb). 255 - hops)") auto

text \<open>The loop at the label \<^verbatim>\<open>jumped\<close>.\<close>

function jumped :: "byte list \<Rightarrow> nat \<Rightarrow> nat \<Rightarrow> byte list \<Rightarrow> nat \<Rightarrow> (dns_rc, byte list \<times> nat) exec" where
  "jumped msg hops lptr tgt tpos =
     exec_bind (rd msg lptr) (\<lambda>lb. exec_bind (follow msg hops (lptr + 1) lb) (\<lambda>(hops, lptr, lb).
       exec_bind (wr tgt tpos lb) (\<lambda>tgt.
         if lb = 0 then Ok (tgt, tpos + 1)
         else if length msg \<le> lptr + unat lb then Fail RC_FORMAT
         else if DNSNAMEBUFSIZE - 1 < tpos + 1 + unat lb then Fail RC_FORMAT
         else exec_bind (copy_bytes msg lptr (unat lb) tgt (tpos + 1)) (\<lambda>tgt.
           jumped msg hops (lptr + unat lb) tgt (tpos + 1 + unat lb)))))"
  by pat_completeness auto
termination
  by (relation "measure (\<lambda>(msg, hops, lptr, tgt, tpos). DNSNAMEBUFSIZE - tpos)") (auto simp: DNSNAMEBUFSIZE_def)

text \<open>The loop before the first jump; \<open>newsz\<close> is the number of bytes left in the data field, and decrementing it at zero a fault.\<close>

function name_loop :: "byte list \<Rightarrow> nat \<Rightarrow> nat \<Rightarrow> byte list \<Rightarrow> nat \<Rightarrow> (dns_rc, nat \<times> byte list \<times> nat) exec" where
  "name_loop msg lptr newsz tgt tpos =
     (if newsz = 0 then Fault
      else exec_bind (rd msg lptr) (\<lambda>lb.
        if 0x3f < lb then
          (if lb < 0xc0 then Fail RC_FORMAT
           else if newsz - 1 = 0 then Fail RC_TRUNC
           else if length msg \<le> lptr + 1 then Fail RC_FORMAT
           else exec_bind (rd msg (lptr + 1)) (\<lambda>b.
             if length msg \<le> jump_offset lb b then Fail RC_FORMAT
             else exec_bind (jumped msg 1 (jump_offset lb b) tgt tpos) (\<lambda>(tgt, tpos). Ok (newsz - 2, tgt, tpos))))
        else exec_bind (wr tgt tpos lb) (\<lambda>tgt.
          if lb = 0 then Ok (newsz - 1, tgt, tpos + 1)
          else if newsz - 1 \<le> unat lb then Fail RC_TRUNC
          else if length msg \<le> lptr + 1 + unat lb then Fail RC_FORMAT
          else if DNSNAMEBUFSIZE - 1 < tpos + 1 + unat lb then Fail RC_FORMAT
          else exec_bind (copy_bytes msg (lptr + 1) (unat lb) tgt (tpos + 1)) (\<lambda>tgt.
            name_loop msg (lptr + 1 + unat lb) (newsz - 1 - unat lb) tgt (tpos + 1 + unat lb)))))"
  by pat_completeness auto
termination
  by (relation "measure (\<lambda>(msg, lptr, newsz, tgt, tpos). newsz)") auto

text \<open>\<open>src\<close> is the offset in the message, \<open>sz\<close> the size of the data left there; both and the length are returned on success.\<close>

definition decompress_name :: "byte list \<Rightarrow> nat \<Rightarrow> nat \<Rightarrow> byte list \<Rightarrow> (dns_rc, nat \<times> nat \<times> byte list \<times> nat) exec" where
  "decompress_name msg src sz tgt =
     (if sz = 0 then Fail RC_TRUNC
      else if length msg \<le> src then Fail RC_FORMAT
      else exec_bind (name_loop msg src sz tgt 0) (\<lambda>(newsz, tgt, tpos). Ok (src + (sz - newsz), newsz, tgt, tpos)))"

declare follow.simps [simp del] jumped.simps [simp del] name_loop.simps [simp del]

subsection \<open>Comparison of names from the end\<close>

text \<open>\<^verbatim>\<open>domain_match\<close>: the length bytes of a name are collected into an array of 128 elements, then labels are compared from the last one on.\<close>

function seg_lens :: "byte list \<Rightarrow> nat \<Rightarrow> nat list \<Rightarrow> (unit, nat list \<times> nat) exec" where
  "seg_lens m i ls = exec_bind (rd m i) (\<lambda>lb.
     if lb = 0 then Ok (ls, i)
     else if 128 \<le> length ls then Fault
     else seg_lens m (i + (unat lb + 1)) (ls @ [unat lb]))"
  by pat_completeness auto
termination
  by (relation "measure (\<lambda>(m, i, ls). length m - i)") auto

fun back_eq :: "byte list \<Rightarrow> byte list \<Rightarrow> nat \<Rightarrow> nat \<Rightarrow> nat \<Rightarrow> (unit, bool) exec" where
  "back_eq ms md i j 0 = Ok True"
| "back_eq ms md i j (Suc lb) = (if i = 0 \<or> j = 0 then Fault
     else exec_bind (rd ms (i - 1)) (\<lambda>x. exec_bind (rd md (j - 1)) (\<lambda>y.
       if tolower x \<noteq> tolower y then Ok False else back_eq ms md (i - 1) (j - 1) lb)))"

text \<open>The loop over \<open>k\<close>; the results are the number of matching labels and the offsets of the match.\<close>

function match_loop :: "byte list \<Rightarrow> byte list \<Rightarrow> nat list \<Rightarrow> nat list \<Rightarrow> nat \<Rightarrow> nat \<Rightarrow> nat \<Rightarrow> nat \<Rightarrow> (unit, nat \<times> nat \<times> nat) exec" where
  "match_loop ms md ls ld n i j k =
     (if k \<le> n then
        (let lb = ls ! (length ls - k)
         in if lb \<noteq> ld ! (length ld - k) then Ok (k - 1, i, j)
            else exec_bind (back_eq ms md i j lb) (\<lambda>same.
              if \<not> same then Ok (k - 1, i, j)
              else if i < lb + 1 \<or> j < lb + 1 then Fault
              else match_loop ms md ls ld n (i - lb - 1) (j - lb - 1) (k + 1)))
      else Ok (k - 1, i, j))"
  by pat_completeness auto
termination
  by (relation "measure (\<lambda>(ms, md, ls, ld, n, i, j, k). n + 1 - k)") auto

definition domain_match :: "byte list \<Rightarrow> byte list \<Rightarrow> (unit, nat \<times> nat \<times> nat) exec" where
  "domain_match ms md = exec_bind (seg_lens ms 0 []) (\<lambda>(ls, i). exec_bind (seg_lens md 0 []) (\<lambda>(ld, j).
     match_loop ms md ls ld (min (length ls) (length ld)) i j 1))"

declare seg_lens.simps [simp del] match_loop.simps [simp del]

subsection \<open>Compression\<close>

text \<open>The list \<^verbatim>\<open>cb\<close> of names already in the message, each with its offset.\<close>

type_synonym compel_t = "nat \<times> byte list"

fun best_match :: "byte list \<Rightarrow> compel_t list \<Rightarrow> nat \<times> nat \<times> nat \<Rightarrow> (unit, nat \<times> nat \<times> nat) exec" where
  "best_match inn [] best = Ok best"
| "best_match inn ((index, s) # cb) (longest, lrem, coffs) = exec_bind (domain_match inn s) (\<lambda>(rv, rem, to).
     best_match inn cb (if longest < rv \<and> index + to \<le> 0x3fff then (rv, rem, index + to) else (longest, lrem, coffs)))"

definition pointer_bytes :: "nat \<Rightarrow> byte list" where
  "pointer_bytes coffs = [ucast (0xc0 OR drop_bit 8 (of_nat coffs AND 0x3f00) :: u32), ucast (of_nat coffs AND 0xff :: u32)]"

text \<open>\<open>alloc\<close> tells whether growing the list succeeds; if not, the list is freed and 0 returned.\<close>

definition compress_name :: "bool \<Rightarrow> byte list \<Rightarrow> byte list \<Rightarrow> nat \<Rightarrow> compel_t list \<Rightarrow> (unit, nat \<times> byte list \<times> compel_t list) exec" where
  "compress_name alloc inn out offs cb = exec_bind (rhnlen inn) (\<lambda>ilen.
     if DNSNAMEBUFSIZE < ilen then Fault
     else exec_bind (best_match inn cb (0, 0, 0)) (\<lambda>(longest, lrem, coffs).
       if 0 < longest \<and> ilen < lrem + 2 then Fault
       else (let bytes = (if 0 < longest then take lrem inn @ pointer_bytes coffs else take ilen inn);
                 add = (0 < longest \<longrightarrow> lrem \<noteq> 0)
             in if length out < length bytes then Fault
                else if add \<and> \<not> alloc then Fail ()
                else Ok (length bytes, overwrite 0 bytes out, if add then cb @ [(offs, take ilen inn)] else cb))))"

subsection \<open>The names of a message\<close>

text \<open>\<open>name_at msg off n h ls\<close>: at \<open>off\<close> stands the name with labels \<open>ls\<close>; it takes \<open>n\<close> bytes there and needs \<open>h\<close> jumps.\<close>

inductive name_at :: "byte list \<Rightarrow> nat \<Rightarrow> nat \<Rightarrow> nat \<Rightarrow> byte list list \<Rightarrow> bool" for msg where
  name_end: "off < length msg \<Longrightarrow> msg ! off = 0 \<Longrightarrow> name_at msg off 1 0 []"
| name_label: "off < length msg \<Longrightarrow> lb = unat (msg ! off) \<Longrightarrow> 0 < lb \<Longrightarrow> lb \<le> 63 \<Longrightarrow> name_at msg (off + 1 + lb) n h ls \<Longrightarrow>
    name_at msg off (1 + lb + n) h (slice (off + 1) lb msg # ls)"
| name_jump: "off + 1 < length msg \<Longrightarrow> 0xc0 \<le> msg ! off \<Longrightarrow> name_at msg (jump_offset (msg ! off) (msg ! (off + 1))) n h ls \<Longrightarrow>
    name_at msg off 2 (h + 1) ls"

lemma name_at_bound: "name_at msg off n h ls \<Longrightarrow> off < length msg"
  by (induction rule: name_at.induct) simp_all

lemma name_at_labels: "name_at msg off n h ls \<Longrightarrow> labels_ok ls"
proof (induction rule: name_at.induct)
  case (name_label off lb n h ls)
  then show ?case using name_at_bound [OF name_label.hyps(5)] by simp
qed simp_all

lemma name_at_positive: "name_at msg off n h ls \<Longrightarrow> 0 < n"
  by (induction rule: name_at.induct) simp_all

text \<open>A lower bound on a byte by cases.\<close>

lemma byte_cases:
  fixes b :: byte
  obtains "b = 0" | "0 < unat b" "unat b \<le> 63" "\<not> 0x3f < b" "b \<noteq> 0" | "0x3f < b" "b < 0xc0" | "0x3f < b" "\<not> b < 0xc0" "0xc0 \<le> b"
proof -
  have "(0x3f < b) = (63 < unat b)" "(b < 0xc0) = (unat b < 192)" "(0xc0 \<le> b) = (192 \<le> unat b)" "(b = 0) = (unat b = 0)"
    by (simp_all add: word_less_nat_alt word_le_nat_alt word_unat_eq_iff)
  then show ?thesis using that by fastforce
qed

text \<open>One step of the loop after the first jump.\<close>

lemma jumped_step:
  assumes "off < length msg"
  shows "jumped msg hops off tgt tpos =
    (let lb = msg ! off; n = unat lb; o' = jump_offset lb (msg ! (off + 1)) in
     if 0x3f < lb then
       (if lb < 0xc0 \<or> length msg \<le> off + 1 \<or> 255 \<le> hops \<or> length msg \<le> o' then Fail RC_FORMAT else jumped msg (hops + 1) o' tgt tpos)
     else exec_bind (wr tgt tpos lb) (\<lambda>tgt.
       if lb = 0 then Ok (tgt, tpos + 1)
       else if length msg \<le> off + 1 + n \<or> DNSNAMEBUFSIZE - 1 < tpos + 1 + n then Fail RC_FORMAT
       else exec_bind (copy_bytes msg (off + 1) n tgt (tpos + 1)) (\<lambda>tgt. jumped msg hops (off + 1 + n) tgt (tpos + 1 + n))))"
proof (cases "0x3f < msg ! off")
  case True
  have f: "follow msg hops (off + 1) (msg ! off) = (if msg ! off < 0xc0 \<or> length msg \<le> off + 1 \<or> 255 \<le> hops \<or> length msg \<le> jump_offset (msg ! off) (msg ! (off + 1))
      then Fail RC_FORMAT else follow msg (hops + 1) (jump_offset (msg ! off) (msg ! (off + 1)) + 1) (msg ! jump_offset (msg ! off) (msg ! (off + 1))))"
    using True by (subst follow.simps) auto
  show ?thesis
    using True assms f
    by (subst jumped.simps) (auto simp: Let_def jumped.simps [of msg "Suc hops" "jump_offset (msg ! off) (msg ! Suc off)" tgt tpos])
next
  case False
  then have "follow msg hops (off + 1) (msg ! off) = Ok (hops, off + 1, msg ! off)" by (subst follow.simps) simp
  then show ?thesis using False assms by (subst jumped.simps) (auto simp: Let_def intro!: exec_bind_cong)
qed

text \<open>The target buffer after the labels \<open>ls\<close>, and the outcome of a loop that goes on with the labels at \<open>off\<close>.\<close>

lemma copy_label_bytes:
  assumes "DNSNAMEBUFSIZE \<le> length t0" "off + n \<le> length msg" "length (rhn_hdr d) + 1 + n \<le> DNSNAMEBUFSIZE - 1"
  shows "exec_bind (wr (overwrite 0 (rhn_hdr d) t0) (length (rhn_hdr d)) (of_nat n)) (\<lambda>t. exec_bind (copy_bytes msg off n t (length (rhn_hdr d) + 1)) f) =
    f (overwrite 0 (rhn_hdr (d @ [slice off n msg])) t0)"
proof -
  have w: "wr (overwrite 0 (rhn_hdr d) t0) (length (rhn_hdr d)) (of_nat n) = Ok (overwrite 0 (rhn_hdr d @ [of_nat n]) t0)" for x :: 'x
    using write_label [of "rhn_hdr d" "[]" t0 "of_nat n"] assms by (simp add: DNSNAMEBUFSIZE_def)
  have l: "length (slice off n msg) = n" using assms(2) by simp
  then have "overwrite (length (rhn_hdr d) + 1) (slice off n msg) (overwrite 0 (rhn_hdr d @ [of_nat n]) t0) = overwrite 0 (rhn_hdr (d @ [slice off n msg])) t0"
    by (simp add: overwrite_def add.commute)
  then show ?thesis using assms w l by (simp add: copy_bytes_def DNSNAMEBUFSIZE_def)
qed

lemma of_nat_unat [simp]: "(of_nat (unat b) :: byte) = b"
  by simp

lemma jumped_complete:
  assumes "name_at msg off n h ls" "DNSNAMEBUFSIZE \<le> length t0" "length (rhn_hdr (d @ ls)) \<le> DNSNAMEBUFSIZE - 1" "hops + h \<le> 255"
  shows "jumped msg hops off (overwrite 0 (rhn_hdr d) t0) (length (rhn_hdr d)) = Ok (overwrite 0 (rhn_of (d @ ls)) t0, length (rhn_of (d @ ls)))"
  using assms(1,3,4)
proof (induction arbitrary: d hops rule: name_at.induct)
  case (name_end off)
  then show ?case using write_end [of d t0] assms(2) by (subst jumped_step) (simp_all add: rhn_of_def)
next
  case (name_label off lb n h ls)
  have b: "\<not> 0x3f < msg ! off" "msg ! off \<noteq> 0" using name_label.hyps by (simp_all add: word_less_nat_alt word_unat_eq_iff)
  have l: "off + 1 + lb < length msg" using name_at_bound [OF name_label.hyps(5)] .
  from name_label.prems have s: "length (rhn_hdr d) + 1 + lb \<le> DNSNAMEBUFSIZE - 1" using l by simp
  have "jumped msg hops off (overwrite 0 (rhn_hdr d) t0) (length (rhn_hdr d)) =
      jumped msg hops (off + 1 + lb) (overwrite 0 (rhn_hdr (d @ [slice (off + 1) lb msg])) t0) (length (rhn_hdr d) + 1 + lb)"
    using copy_label_bytes [OF assms(2) _ s, of "off + 1" msg "\<lambda>t. jumped msg hops (off + 1 + lb) t (length (rhn_hdr d) + 1 + lb)"] b l s name_label.hyps(1,2)
    by (subst jumped_step) (simp_all add: Let_def)
  then show ?case using name_label.IH [of "d @ [slice (off + 1) lb msg]" hops] name_label.prems l by (simp add: add.assoc)
next
  case (name_jump off n h ls)
  have b: "0x3f < msg ! off" "\<not> msg ! off < 0xc0" using name_jump.hyps(2) by (simp_all add: word_less_nat_alt word_le_nat_alt)
  show ?case using name_jump.IH [of d "hops + 1"] name_jump.prems name_jump.hyps b name_at_bound [OF name_jump.hyps(3)]
    by (subst jumped_step) (simp_all add: Let_def)
qed

text \<open>What the loops return: no fault, and on success the labels of a name.\<close>

definition names :: "byte list \<Rightarrow> byte list \<Rightarrow> byte list list \<Rightarrow> nat \<Rightarrow> nat \<Rightarrow> (dns_rc, byte list \<times> nat) exec \<Rightarrow> bool" where
  "names msg t0 d hops off r \<longleftrightarrow> r \<noteq> Fault \<and> (\<forall>t p. r = Ok (t, p) \<longrightarrow> (\<exists>n h ls. name_at msg off n h ls \<and> hops + h \<le> 255 \<and>
     length (rhn_hdr (d @ ls)) \<le> DNSNAMEBUFSIZE - 1 \<and> t = overwrite 0 (rhn_of (d @ ls)) t0 \<and> p = length (rhn_of (d @ ls))))"

lemma names_Fail [simp]: "names msg t0 d hops off (Fail e)"
  by (simp add: names_def)

lemma names_label:
  assumes "names msg t0 (d @ [slice (off + 1) lb msg]) hops (off + 1 + lb) r" "off < length msg" "lb = unat (msg ! off)" "0 < lb" "lb \<le> 63"
  shows "names msg t0 d hops off r"
  using assms name_label [OF assms(2-5)] unfolding names_def by fastforce

lemma names_jump:
  assumes "names msg t0 d (hops + 1) (jump_offset (msg ! off) (msg ! (off + 1))) r" "off + 1 < length msg" "0xc0 \<le> msg ! off"
  shows "names msg t0 d hops off r"
  using assms name_jump [OF assms(2,3)] unfolding names_def by fastforce

lemma jumped_sound:
  assumes "off < length msg" "DNSNAMEBUFSIZE \<le> length t0" "length (rhn_hdr d) \<le> DNSNAMEBUFSIZE - 1" "hops \<le> 255"
  shows "names msg t0 d hops off (jumped msg hops off (overwrite 0 (rhn_hdr d) t0) (length (rhn_hdr d)))"
  using assms(1,3,4)
proof (induction "(DNSNAMEBUFSIZE - length (rhn_hdr d), 255 - hops)" arbitrary: d hops off rule: wf_induct_rule [OF wf_lex_prod [OF wf_less wf_less]])
  case (1 d hops off)
  note IH = 1(1)
  let ?lb = "msg ! off" and ?n = "unat (msg ! off)" and ?o = "jump_offset (msg ! off) (msg ! (off + 1))"
  show ?case
  proof (cases rule: byte_cases [of ?lb])
    case 1
    have "jumped msg hops off (overwrite 0 (rhn_hdr d) t0) (length (rhn_hdr d)) = Ok (overwrite 0 (rhn_of d) t0, length (rhn_of d))"
      using write_end [OF "1.prems"(2) assms(2)] \<open>off < length msg\<close> 1 by (subst jumped_step) (simp_all add: rhn_of_def)
    then show ?thesis using name_end [OF "1.prems"(1)] 1 "1.prems"(2,3) by (force simp: names_def)
  next
    case 2
    show ?thesis
    proof (cases "length msg \<le> off + 1 + ?n \<or> DNSNAMEBUFSIZE - 1 < length (rhn_hdr d) + 1 + ?n")
      case True
      have "wr (overwrite 0 (rhn_hdr d) t0) (length (rhn_hdr d)) ?lb \<noteq> Fault" for x :: 'x
        using assms(2) "1.prems"(2) by (simp add: wr_def DNSNAMEBUFSIZE_def)
      then show ?thesis using 2 True \<open>off < length msg\<close> by (subst jumped_step) (auto simp: Let_def wr_def)
    next
      case False
      let ?d = "d @ [slice (off + 1) ?n msg]"
      have "jumped msg hops off (overwrite 0 (rhn_hdr d) t0) (length (rhn_hdr d)) =
          jumped msg hops (off + 1 + ?n) (overwrite 0 (rhn_hdr ?d) t0) (length (rhn_hdr d) + 1 + ?n)"
        using copy_label_bytes [OF assms(2), of "off + 1" ?n msg d "\<lambda>t. jumped msg hops (off + 1 + ?n) t (length (rhn_hdr d) + 1 + ?n)"] 2 False "1.prems"(1)
        by (subst jumped_step) (simp_all add: Let_def)
      moreover have "length (rhn_hdr ?d) = length (rhn_hdr d) + 1 + ?n" using False by simp
      moreover from this have "names msg t0 ?d hops (off + 1 + ?n) (jumped msg hops (off + 1 + ?n) (overwrite 0 (rhn_hdr ?d) t0) (length (rhn_hdr ?d)))"
        using False "1.prems" by (intro IH) auto
      ultimately show ?thesis using names_label [OF _ "1.prems"(1) refl 2(1,2)] by simp
    qed
  next
    case 3
    then show ?thesis using "1.prems" by (subst jumped_step) (simp_all add: Let_def)
  next
    case 4
    show ?thesis
    proof (cases "length msg \<le> off + 1 \<or> 255 \<le> hops \<or> length msg \<le> ?o")
      case True
      then show ?thesis using 4 "1.prems" by (subst jumped_step) (auto simp: Let_def)
    next
      case False
      have "names msg t0 d (hops + 1) ?o (jumped msg (hops + 1) ?o (overwrite 0 (rhn_hdr d) t0) (length (rhn_hdr d)))"
        using False "1.prems" by (intro IH) auto
      then show ?thesis using 4 "1.prems" False names_jump [OF _ _ 4(3)] by (subst jumped_step) (auto simp: Let_def)
    qed
  qed
qed

text \<open>The loop before the first jump.\<close>

lemma name_loop_label:
  assumes "off < length msg" "0 < unat (msg ! off)" "\<not> 0x3f < msg ! off" "msg ! off \<noteq> 0" "unat (msg ! off) < newsz - 1" "off + 1 + unat (msg ! off) < length msg"
    "length (rhn_hdr d) + 1 + unat (msg ! off) \<le> DNSNAMEBUFSIZE - 1" "DNSNAMEBUFSIZE \<le> length t0"
  shows "name_loop msg off newsz (overwrite 0 (rhn_hdr d) t0) (length (rhn_hdr d)) =
    name_loop msg (off + 1 + unat (msg ! off)) (newsz - 1 - unat (msg ! off)) (overwrite 0 (rhn_hdr (d @ [slice (off + 1) (unat (msg ! off)) msg])) t0)
      (length (rhn_hdr d) + 1 + unat (msg ! off))"
  using copy_label_bytes [OF assms(8) _ assms(7), of "off + 1" msg "\<lambda>t. name_loop msg (off + 1 + unat (msg ! off)) (newsz - 1 - unat (msg ! off)) t
      (length (rhn_hdr d) + 1 + unat (msg ! off))"] assms
  by (subst name_loop.simps) auto

lemma name_loop_complete:
  assumes "name_at msg off n h ls" "DNSNAMEBUFSIZE \<le> length t0" "length (rhn_hdr (d @ ls)) \<le> DNSNAMEBUFSIZE - 1" "h \<le> 255" "n \<le> newsz"
  shows "name_loop msg off newsz (overwrite 0 (rhn_hdr d) t0) (length (rhn_hdr d)) =
    Ok (newsz - n, overwrite 0 (rhn_of (d @ ls)) t0, length (rhn_of (d @ ls)))"
  using assms(1,3-5)
proof (induction arbitrary: d newsz rule: name_at.induct)
  case (name_end off)
  then show ?case using write_end [of d t0] assms(2) by (subst name_loop.simps) (simp_all add: rhn_of_def)
next
  case (name_label off lb n h ls)
  have b: "\<not> 0x3f < msg ! off" "msg ! off \<noteq> 0" using name_label.hyps by (simp_all add: word_less_nat_alt word_unat_eq_iff)
  have l: "off + 1 + lb < length msg" "0 < n" using name_at_bound [OF name_label.hyps(5)] name_at_positive [OF name_label.hyps(5)] by simp_all
  let ?d = "d @ [slice (off + 1) lb msg]"
  have "name_loop msg (off + 1 + lb) (newsz - 1 - lb) (overwrite 0 (rhn_hdr ?d) t0) (length (rhn_hdr ?d)) =
      Ok (newsz - 1 - lb - n, overwrite 0 (rhn_of (d @ slice (off + 1) lb msg # ls)) t0, length (rhn_of (d @ slice (off + 1) lb msg # ls)))"
    using name_label.IH [of ?d "newsz - 1 - lb"] name_label.prems by simp
  moreover have "length (rhn_hdr ?d) = length (rhn_hdr d) + 1 + lb" using l by simp
  moreover note name_loop_label [OF name_label.hyps(1) _ b, of newsz d t0]
  ultimately show ?case using name_label.hyps(2,3) name_label.prems l assms(2) by simp
next
  case (name_jump off n h ls)
  have b: "0x3f < msg ! off" "\<not> msg ! off < 0xc0" using name_jump.hyps(2) by (simp_all add: word_less_nat_alt word_le_nat_alt)
  show ?case using jumped_complete [OF name_jump.hyps(3) assms(2) name_jump.prems(1), of 1] name_jump.prems name_jump.hyps b name_at_bound [OF name_jump.hyps(3)]
    by (subst name_loop.simps) simp_all
qed

definition names_in :: "byte list \<Rightarrow> byte list \<Rightarrow> byte list list \<Rightarrow> nat \<Rightarrow> nat \<Rightarrow> (dns_rc, nat \<times> byte list \<times> nat) exec \<Rightarrow> bool" where
  "names_in msg t0 d newsz off r \<longleftrightarrow> r \<noteq> Fault \<and> (\<forall>sz t p. r = Ok (sz, t, p) \<longrightarrow> (\<exists>n h ls. name_at msg off n h ls \<and> h \<le> 255 \<and> n \<le> newsz \<and>
     sz = newsz - n \<and> length (rhn_hdr (d @ ls)) \<le> DNSNAMEBUFSIZE - 1 \<and> t = overwrite 0 (rhn_of (d @ ls)) t0 \<and> p = length (rhn_of (d @ ls))))"

lemma names_in_Fail [simp]: "names_in msg t0 d newsz off (Fail e)"
  by (simp add: names_in_def)

lemma names_in_label:
  assumes "names_in msg t0 (d @ [slice (off + 1) lb msg]) (newsz - 1 - lb) (off + 1 + lb) r" "off < length msg" "lb = unat (msg ! off)" "0 < lb" "lb \<le> 63" "lb < newsz - 1"
  shows "names_in msg t0 d newsz off r"
  unfolding names_in_def
proof (intro conjI allI impI)
  show "r \<noteq> Fault" using assms(1) by (simp add: names_in_def)
  fix sz t p assume "r = Ok (sz, t, p)"
  with assms(1) obtain n h ls where n: "name_at msg (off + 1 + lb) n h ls" "h \<le> 255" "n \<le> newsz - 1 - lb" "sz = newsz - 1 - lb - n"
    "length (rhn_hdr ((d @ [slice (off + 1) lb msg]) @ ls)) \<le> DNSNAMEBUFSIZE - 1" "t = overwrite 0 (rhn_of ((d @ [slice (off + 1) lb msg]) @ ls)) t0"
    "p = length (rhn_of ((d @ [slice (off + 1) lb msg]) @ ls))" unfolding names_in_def by blast
  then show "\<exists>n h ls. name_at msg off n h ls \<and> h \<le> 255 \<and> n \<le> newsz \<and> sz = newsz - n \<and> length (rhn_hdr (d @ ls)) \<le> DNSNAMEBUFSIZE - 1 \<and>
      t = overwrite 0 (rhn_of (d @ ls)) t0 \<and> p = length (rhn_of (d @ ls))"
    using name_label [OF assms(2-5) n(1)] assms(6) by (intro exI [of _ "1 + lb + n"] exI [of _ h] exI [of _ "slice (off + 1) lb msg # ls"]) auto
qed

lemma name_loop_sound:
  assumes "off < length msg" "DNSNAMEBUFSIZE \<le> length t0" "length (rhn_hdr d) \<le> DNSNAMEBUFSIZE - 1" "0 < newsz"
  shows "names_in msg t0 d newsz off (name_loop msg off newsz (overwrite 0 (rhn_hdr d) t0) (length (rhn_hdr d)))"
  using assms(1,3,4)
proof (induction newsz arbitrary: d off rule: less_induct)
  case (less newsz)
  let ?lb = "msg ! off" and ?n = "unat (msg ! off)" and ?o = "jump_offset (msg ! off) (msg ! (off + 1))"
  have w: "wr (overwrite 0 (rhn_hdr d) t0) (length (rhn_hdr d)) b = Ok ((overwrite 0 (rhn_hdr d) t0)[length (rhn_hdr d) := b])" for b
    using assms(2) less.prems(2) by (simp add: DNSNAMEBUFSIZE_def)
  show ?case
  proof (cases rule: byte_cases [of ?lb])
    case 1
    have "name_loop msg off newsz (overwrite 0 (rhn_hdr d) t0) (length (rhn_hdr d)) = Ok (newsz - 1, overwrite 0 (rhn_of d) t0, length (rhn_of d))"
      using write_end [OF less.prems(2) assms(2)] less.prems 1 by (subst name_loop.simps) (simp_all add: rhn_of_def)
    then show ?thesis using name_end [OF less.prems(1)] 1 less.prems(2,3) by (force simp: names_in_def)
  next
    case 2
    show ?thesis
    proof (cases "newsz - 1 \<le> ?n \<or> length msg \<le> off + 1 + ?n \<or> DNSNAMEBUFSIZE - 1 < length (rhn_hdr d) + 1 + ?n")
      case True
      then show ?thesis using 2 w less.prems by (subst name_loop.simps) auto
    next
      case False
      let ?d = "d @ [slice (off + 1) ?n msg]"
      have "length (rhn_hdr ?d) = length (rhn_hdr d) + 1 + ?n" using False by simp
      moreover from this have "names_in msg t0 ?d (newsz - 1 - ?n) (off + 1 + ?n)
          (name_loop msg (off + 1 + ?n) (newsz - 1 - ?n) (overwrite 0 (rhn_hdr ?d) t0) (length (rhn_hdr ?d)))"
        using False less.prems by (intro less.IH) auto
      moreover note name_loop_label [OF less.prems(1) 2(1,3,4) _ _ _ assms(2), of newsz d]
      ultimately show ?thesis using names_in_label [OF _ less.prems(1) refl 2(1,2)] False by simp
    qed
  next
    case 3
    then show ?thesis using less.prems by (subst name_loop.simps) simp_all
  next
    case 4
    show ?thesis
    proof (cases "newsz - 1 = 0 \<or> length msg \<le> off + 1 \<or> length msg \<le> ?o")
      case True
      then show ?thesis using 4 less.prems by (subst name_loop.simps) auto
    next
      case False
      let ?r = "jumped msg 1 ?o (overwrite 0 (rhn_hdr d) t0) (length (rhn_hdr d))"
      have r: "name_loop msg off newsz (overwrite 0 (rhn_hdr d) t0) (length (rhn_hdr d)) = exec_bind ?r (\<lambda>(tgt, tpos). Ok (newsz - 2, tgt, tpos))"
        using 4 less.prems False by (subst name_loop.simps) simp
      have n: "names msg t0 d 1 ?o ?r" using False less.prems by (intro jumped_sound [OF _ assms(2)]) auto
      have "newsz - 2 = newsz - 2 \<and> 2 \<le> newsz" using False by auto
      then show ?thesis using n name_jump [OF _ 4(3)] False unfolding r names_in_def names_def
        by (cases ?r) (fastforce simp: exec_bind_Ok_iff)+
    qed
  qed
qed

lemma decompress_exact:
  assumes "DNSNAMEBUFSIZE \<le> length tgt"
  shows "decompress_name msg src sz tgt \<noteq> Fault \<and>
    (decompress_name msg src sz tgt = Ok (src', sz', tgt', len) \<longleftrightarrow>
      (\<exists>n h ls. name_at msg src n h ls \<and> n \<le> sz \<and> h \<le> 255 \<and> name_ok ls \<and>
         src' = src + n \<and> sz' = sz - n \<and> tgt' = overwrite 0 (rhn_of ls) tgt \<and> len = length (rhn_of ls)))"
proof -
  let ?r = "decompress_name msg src sz tgt"
  have ok: "name_ok ls \<longleftrightarrow> labels_ok ls \<and> length (rhn_hdr ls) \<le> DNSNAMEBUFSIZE - 1" for ls
    by (auto simp: name_ok_def rhn_of_def DNSNAMEBUFSIZE_def)
  have complete: "?r = Ok (src + n, sz - n, overwrite 0 (rhn_of ls) tgt, length (rhn_of ls))"
    if "name_at msg src n h ls" "n \<le> sz" "h \<le> 255" "name_ok ls" for n h ls
    using name_loop_complete [OF that(1) assms, of "[]" sz] that name_at_bound [OF that(1)] name_at_positive [OF that(1)]
    by (simp add: ok decompress_name_def)
  have sound: "?r \<noteq> Fault \<and> (\<forall>src' sz' tgt' len. ?r = Ok (src', sz', tgt', len) \<longrightarrow> (\<exists>n h ls. name_at msg src n h ls \<and> n \<le> sz \<and> h \<le> 255 \<and> name_ok ls \<and>
         src' = src + n \<and> sz' = sz - n \<and> tgt' = overwrite 0 (rhn_of ls) tgt \<and> len = length (rhn_of ls)))"
  proof (cases "sz = 0 \<or> length msg \<le> src")
    case False
    then have n: "names_in msg tgt [] sz src (name_loop msg src sz tgt 0)" using name_loop_sound [of src msg tgt "[]" sz] assms by simp
    have "\<exists>n h ls. name_at msg src n h ls \<and> n \<le> sz \<and> h \<le> 255 \<and> name_ok ls \<and>
         src' = src + n \<and> sz' = sz - n \<and> tgt' = overwrite 0 (rhn_of ls) tgt \<and> len = length (rhn_of ls)" if "?r = Ok (src', sz', tgt', len)" for src' sz' tgt' len
    proof -
      from that False have "name_loop msg src sz tgt 0 = Ok (sz', tgt', len)" "src' = src + (sz - sz')"
        by (auto simp: decompress_name_def exec_bind_Ok_iff)
      with n obtain n h ls where "name_at msg src n h ls" "h \<le> 255" "n \<le> sz" "sz' = sz - n" "length (rhn_hdr ls) \<le> DNSNAMEBUFSIZE - 1"
        "tgt' = overwrite 0 (rhn_of ls) tgt" "len = length (rhn_of ls)" "src' = src + (sz - (sz - n))" unfolding names_in_def append_Nil by blast
      moreover from this have "name_ok ls" using name_at_labels [of msg src n h ls] ok by simp
      ultimately show ?thesis by (metis diff_diff_cancel)
    qed
    moreover have "?r \<noteq> Fault" using n False by (auto simp: decompress_name_def exec_bind_Fault_iff names_in_def)
    ultimately show ?thesis by blast
  qed (auto simp: decompress_name_def)
  show ?thesis using sound complete by metis
qed

text \<open>C18.  \<^verbatim>\<open>decompress_name\<close> is safe and exact on arbitrary messages.  For every message, offset, data size and target
  buffer of \<^verbatim>\<open>DNSNAMEBUFSIZE\<close> bytes it ends, reads only inside the message and writes only inside the buffer (no fault); and it succeeds exactly
  when a name stands at the offset that fits the data field, needs at most 255 jumps and has at most 256 bytes, and
  then returns this name, its length, the offset behind it and the size left.\<close>

theorem decompress_name_exact:
  assumes "DNSNAMEBUFSIZE \<le> length tgt"
  shows "decompress_name msg src sz tgt \<noteq> Fault \<and>
    (decompress_name msg src sz tgt = Ok (src', sz', tgt', len) \<longleftrightarrow>
      (\<exists>n h ls. name_at msg src n h ls \<and> n \<le> sz \<and> h \<le> 255 \<and> name_ok ls \<and>
         src' = src + n \<and> sz' = sz - n \<and> tgt' = overwrite 0 (rhn_of ls) tgt \<and> len = length (rhn_of ls)))"
  by (rule decompress_exact [OF assms])

subsection \<open>The longest common suffix\<close>

fun cpl :: "'a list \<Rightarrow> 'a list \<Rightarrow> nat" where
  "cpl (x # xs) (y # ys) = (if x = y then Suc (cpl xs ys) else 0)"
| "cpl _ _ = 0"

definition matchlen :: "byte list list \<Rightarrow> byte list list \<Rightarrow> nat" where
  "matchlen a b = cpl (rev (lower a)) (rev (lower b))"

lemma cpl_le: "cpl xs ys \<le> length xs" "cpl xs ys \<le> length ys"
  by (induction xs ys rule: cpl.induct) auto

lemma cpl_take: "k \<le> length xs \<Longrightarrow> k \<le> length ys \<Longrightarrow> k \<le> cpl xs ys \<longleftrightarrow> take k xs = take k ys"
proof (induction xs ys arbitrary: k rule: cpl.induct)
  case (1 x xs y ys)
  then show ?case by (cases k) auto
qed auto

lemma matchlen_le: "matchlen a b \<le> length a" "matchlen a b \<le> length b"
  using cpl_le [of "rev (lower a)" "rev (lower b)"] by (simp_all add: matchlen_def)

lemma matchlen_iff:
  assumes "k \<le> length a" "k \<le> length b"
  shows "k \<le> matchlen a b \<longleftrightarrow> lower (drop (length a - k) a) = lower (drop (length b - k) b)"
proof -
  have "take k (rev (lower xs)) = rev (lower (drop (length xs - k) xs))" for xs by (simp add: take_rev)
  then show ?thesis using cpl_take [of k "rev (lower a)" "rev (lower b)"] assms by (simp add: matchlen_def)
qed

text \<open>The lengths of the labels.\<close>

lemma seg_lens_name:
  assumes "labels_ok ls" "length acc + length ls \<le> 128" "i = length pre"
  shows "seg_lens (pre @ rhn_of ls @ post) i acc = Ok (acc @ map length ls, i + length (rhn_hdr ls))"
  using assms
proof (induction ls arbitrary: pre i acc)
  case Nil
  then show ?case by (simp add: seg_lens.simps)
next
  case (Cons l ls)
  from Cons.IH [of "acc @ [length l]" "i + (length l + 1)" "pre @ of_nat (length l) # l"] Cons.prems
  have "seg_lens (pre @ rhn_of (l # ls) @ post) (i + (length l + 1)) (acc @ [length l]) = Ok (acc @ map length (l # ls), i + length (rhn_hdr (l # ls)))"
    by (simp add: ac_simps)
  then show ?case using Cons.prems by (subst seg_lens.simps) simp
qed

lemma back_eq_name:
  assumes "length x = length y"
  shows "back_eq (pre @ x @ post) (pre' @ y @ post') (length pre + length x) (length pre' + length y) (length x) = Ok (map tolower x = map tolower y)"
  using assms
  by (induction x y arbitrary: post post' rule: rev_induct2) (auto simp: nth_append)

lemma matchlen_append:
  assumes "lower a2 = lower b2"
  shows "matchlen (a1 @ a2) (b1 @ b2) = length a2 + matchlen a1 b1"
proof -
  have "cpl (xs @ ys) (xs @ zs) = length xs + cpl ys zs" for xs ys zs :: "byte list list" by (induction xs) simp_all
  moreover have "length a2 = length b2" using assms by (metis lower_simps(4))
  ultimately show ?thesis using assms by (simp add: matchlen_def)
qed

lemma matchlen_snoc: "matchlen (a @ [x]) (b @ [y]) = (if map tolower x = map tolower y then Suc (matchlen a b) else 0)"
  by (simp add: matchlen_def)

lemma matchlen_Nil [simp]: "matchlen [] b = 0" "matchlen a [] = 0"
  by (simp_all add: matchlen_def)

lemma match_loop_name:
  assumes "labels_ok a" "labels_ok b" "lower a2 = lower b2" "a = a1 @ a2" "b = b1 @ b2"
  shows "match_loop (rhn_of a @ p) (rhn_of b @ q) (map length a) (map length b) (min (length a) (length b)) (length (rhn_hdr a1)) (length (rhn_hdr b1)) (length a2 + 1) =
    Ok (matchlen a b, length (rhn_hdr (take (length a - matchlen a b) a)), length (rhn_hdr (take (length b - matchlen a b) b)))"
  using assms(3-)
proof (induction a1 arbitrary: a2 b1 b2 rule: rev_induct)
  case Nil
  then have "length a2 = length b2" by (metis lower_simps(4))
  then show ?case using Nil matchlen_append [of a2 b2 "[]" b1] by (subst match_loop.simps) simp
next
  case (snoc x a1)
  have len: "length a2 = length b2" using snoc.prems(1) by (metis lower_simps(4))
  note m = matchlen_append [OF snoc.prems(1), of "a1 @ [x]"]
  show ?case
  proof (cases b1 rule: rev_cases)
    case Nil
    then show ?thesis using snoc.prems m [of "[]"] len by (subst match_loop.simps) simp
  next
    case (snoc b1' y)
    note b1 = this
    let ?ma = "rhn_of a @ p" and ?mb = "rhn_of b @ q"
    define la where "la = map length a"
    define lb where "lb = map length b"
    have nth: "la ! (length la - Suc (length a2)) = length x" "lb ! (length lb - Suc (length a2)) = length y"
      using snoc.prems b1 len by (simp_all add: la_def lb_def nth_append)
    have le: "length a2 + 1 \<le> min (length a) (length b)" using snoc.prems b1 len by simp
    have "match_loop ?ma ?mb la lb (min (length a) (length b)) (length (rhn_hdr (a1 @ [x]))) (length (rhn_hdr b1)) (length a2 + 1) =
      Ok (matchlen a b, length (rhn_hdr (take (length a - matchlen a b) a)), length (rhn_hdr (take (length b - matchlen a b) b)))"
    proof (cases "length x = length y")
      case True
      have eq: "?ma = (rhn_hdr a1 @ [of_nat (length x)]) @ x @ rhn_hdr a2 @ [0] @ p" "?mb = (rhn_hdr b1' @ [of_nat (length y)]) @ y @ rhn_hdr b2 @ [0] @ q"
        using snoc.prems b1 by (simp_all add: rhn_of_def)
      have be: "back_eq ?ma ?mb (length (rhn_hdr (a1 @ [x]))) (length (rhn_hdr b1)) (length x) = Ok (map tolower x = map tolower y)"
        using back_eq_name [OF True, of "rhn_hdr a1 @ [of_nat (length x)]" _ "rhn_hdr b1' @ [of_nat (length y)]"] b1 True unfolding eq by simp
      show ?thesis
      proof (cases "map tolower x = map tolower y")
        case same: True
        have "match_loop ?ma ?mb la lb (min (length a) (length b)) (length (rhn_hdr a1)) (length (rhn_hdr b1')) (length (x # a2) + 1) =
          Ok (matchlen a b, length (rhn_hdr (take (length a - matchlen a b) a)), length (rhn_hdr (take (length b - matchlen a b) b)))"
          using snoc.prems b1 same unfolding la_def lb_def by (intro snoc.IH [of "x # a2" "y # b2"]) simp_all
        then show ?thesis using nth be le same True b1 by (subst match_loop.simps) (simp add: Let_def)
      next
        case False
        then have "matchlen a b = length a2" using m [of b1] snoc.prems b1 by (simp add: matchlen_snoc)
        then show ?thesis using nth be le False True snoc.prems b1 len by (subst match_loop.simps) (simp add: Let_def)
      qed
    next
      case False
      then have "map tolower x \<noteq> map tolower y" by (metis length_map)
      then have "matchlen a b = length a2" using m [of b1] snoc.prems b1 by (simp add: matchlen_snoc)
      then show ?thesis using nth le False snoc.prems b1 len by (subst match_loop.simps) (simp add: Let_def)
    qed
    then show ?thesis by (simp only: la_def lb_def)
  qed
qed

lemma name_ok_count: "name_ok ls \<Longrightarrow> length ls \<le> 127"
proof -
  have "labels_ok ls \<Longrightarrow> 2 * length ls \<le> length (rhn_hdr ls)" by (induction ls) (auto simp: neq_Nil_conv)
  then show "name_ok ls \<Longrightarrow> length ls \<le> 127" by (simp add: name_ok_def rhn_of_def DNSNAMEBUFSIZE_def)
qed

lemma domain_match_name:
  assumes "name_ok a" "name_ok b"
  shows "domain_match (rhn_of a @ p) (rhn_of b @ q) =
    Ok (matchlen a b, length (rhn_hdr (take (length a - matchlen a b) a)), length (rhn_hdr (take (length b - matchlen a b) b)))"
proof -
  have ok: "labels_ok a" "labels_ok b" using assms by (simp_all add: name_ok_def)
  have "seg_lens (rhn_of a @ p) 0 [] = Ok (map length a, length (rhn_hdr a))" "seg_lens (rhn_of b @ q) 0 [] = Ok (map length b, length (rhn_hdr b))"
    using seg_lens_name [of a "[]" 0 "[]" p] seg_lens_name [of b "[]" 0 "[]" q] ok name_ok_count assms by fastforce+
  then show ?thesis using match_loop_name [OF ok, of "[]" "[]" a b p q] by (simp add: domain_match_def)
qed

subsection \<open>Pointers\<close>

lemma masks: "(0x3f :: u32) = mask 6" "(0xff :: u32) = mask 8" "(0x3f00 :: u32) = push_bit 8 (mask 6)" "(0xc0 :: u32) = push_bit 6 (mask 2)"
  by (simp_all add: mask_eq_exp_minus_1 push_bit_eq_mult)

lemma pointer_word:
  fixes w :: u32
  assumes "w < 2 ^ 14"
  shows "push_bit 8 (ucast (ucast (0xc0 OR drop_bit 8 (w AND 0x3f00)) :: byte) AND 0x3f) OR ucast (ucast (w AND 0xff) :: byte) = w" (is "?l = w")
proof (rule bit_word_eqI)
  fix n assume n: "n < LENGTH(32)"
  have "take_bit 14 w = w" using mod_word_less [OF assms] by (simp add: take_bit_eq_mod)
  then have "bit w n \<Longrightarrow> n < 14" by (metis bit_take_bit_iff)
  then show "bit ?l n = bit w n"
    using n unfolding masks by (auto simp: bit_simps)
qed

lemma pointer_bytes_ok:
  assumes "c \<le> 0x3fff"
  obtains b1 b2 where "pointer_bytes c = [b1, b2]" "0xc0 \<le> b1" "jump_offset b1 b2 = c"
proof -
  let ?w = "of_nat c :: u32"
  let ?b = "ucast (0xc0 OR drop_bit 8 (?w AND 0x3f00) :: u32) :: byte"
  have "?b AND 0xc0 = 0xc0" by (rule bit_word_eqI) (auto simp: bit_simps)
  then have "0xc0 \<le> ?b" by (metis word_and_le2)
  moreover have c: "unat ?w = c" using assms by (simp add: unat_of_nat)
  then have "?w < 2 ^ 14" using assms by (simp add: word_less_nat_alt)
  from pointer_word [OF this] c have "jump_offset ?b (ucast (?w AND 0xff)) = c" by (simp add: jump_offset_def)
  ultimately show ?thesis using that by (simp add: pointer_bytes_def)
qed

subsection \<open>What compression writes\<close>

text \<open>The pieces written so far, with their offsets, and the messages that contain them.\<close>

definition holds :: "byte list \<Rightarrow> nat \<times> byte list \<Rightarrow> bool" where
  "holds M w \<longleftrightarrow> fst w + length (snd w) \<le> length M \<and> slice (fst w) (length (snd w)) M = snd w"

definition holds_all :: "byte list \<Rightarrow> (nat \<times> byte list) set \<Rightarrow> bool" where
  "holds_all M W \<longleftrightarrow> (\<forall>w \<in> W. holds M w)"

lemma holds_append: "holds M (off, x @ y) \<longleftrightarrow> holds M (off, x) \<and> holds M (off + length x, y)"
proof -
  have "slice off (length x + length y) M = slice off (length x) M @ slice (off + length x) (length y) M" by (simp add: slice_append_slice)
  then show ?thesis by (auto simp: holds_def append_eq_append_conv)
qed

lemma holds_Cons: "holds M (off, b # x) \<longleftrightarrow> off < length M \<and> M ! off = b \<and> holds M (off + 1, x)"
  using holds_append [of M off "[b]" x] by (auto simp: holds_def slice_def take_Suc_conv_app_nth hd_drop_conv_nth Suc_le_eq take_Suc)

lemma name_at_inline:
  assumes "labels_ok ls" "holds M (off, rhn_hdr ls)" "name_at M (off + length (rhn_hdr ls)) n h ls'"
  shows "name_at M off (length (rhn_hdr ls) + n) h (ls @ ls')"
  using assms
proof (induction ls arbitrary: off)
  case (Cons l ls)
  have h: "off < length M" "M ! off = of_nat (length l)" "holds M (off + 1, l)" "holds M (off + 1 + length l, rhn_hdr ls)"
    using Cons.prems(2) by (auto simp: holds_Cons holds_append)
  have "name_at M (off + 1 + length l) (length (rhn_hdr ls) + n) h (ls @ ls')"
    using Cons.prems Cons.IH [OF _ h(4)] by (simp add: ac_simps)
  moreover have "slice (off + 1) (length l) M = l" using h(3) by (simp add: holds_def)
  ultimately show ?case using name_label [OF h(1), of "length l" "length (rhn_hdr ls) + n" h "ls @ ls'"] h(2) Cons.prems(1) by (simp add: ac_simps)
qed simp

lemma name_at_plain:
  assumes "labels_ok ls" "holds M (off, rhn_of ls)"
  shows "name_at M off (length (rhn_of ls)) 0 ls"
proof -
  have "holds M (off, rhn_hdr ls)" "holds M (off + length (rhn_hdr ls), [0])" using assms(2) by (simp_all add: rhn_of_def holds_append)
  then show ?thesis using name_at_inline [OF assms(1) _ name_end [of "off + length (rhn_hdr ls)" M]] by (simp add: rhn_of_def holds_Cons)
qed

lemma name_at_pointer:
  assumes "labels_ok ls" "holds M (off, rhn_hdr ls @ pointer_bytes c)" "c \<le> 0x3fff" "name_at M c n h ls'"
  shows "name_at M off (length (rhn_hdr ls) + 2) (h + 1) (ls @ ls')"
proof -
  obtain b1 b2 where b: "pointer_bytes c = [b1, b2]" "0xc0 \<le> b1" "jump_offset b1 b2 = c" using pointer_bytes_ok [OF assms(3)] .
  let ?o = "off + length (rhn_hdr ls)"
  have p: "?o < length M" "M ! ?o = b1" "?o + 1 < length M" "M ! (?o + 1) = b2" "holds M (off, rhn_hdr ls)"
    using assms(2) b(1) by (auto simp: holds_append holds_Cons)
  show ?thesis using name_at_inline [OF assms(1) p(5) name_jump [OF p(3)]] p b assms(4) by simp
qed

text \<open>A place where the suffix \<open>ls\<close> of an earlier name can be found in every message that holds the pieces.\<close>

definition good :: "(nat \<times> byte list) set \<Rightarrow> nat \<Rightarrow> byte list list \<Rightarrow> bool" where
  "good W off ls \<longleftrightarrow> (\<forall>M. holds_all M W \<longrightarrow> (\<exists>n h ls'. name_at M off n h ls' \<and> lower ls' = lower ls \<and> h \<le> length ls))"

lemma good_mono: "good W off ls \<Longrightarrow> W \<subseteq> W' \<Longrightarrow> good W' off ls"
  unfolding good_def holds_all_def by blast

text \<open>An entry of the list: the first \<open>k\<close> labels of its name are written out at its offset, and every nonempty
  suffix behind them is a suffix of an earlier entry, written out there.\<close>

record entry =
  e_index :: nat
  e_name :: "byte list list"
  e_inline :: nat

definition pos :: "entry \<Rightarrow> nat \<Rightarrow> nat" where
  "pos e j = e_index e + length (rhn_hdr (take j (e_name e)))"

definition found :: "entry set \<Rightarrow> nat \<Rightarrow> byte list list \<Rightarrow> bool" where
  "found E lim ls \<longleftrightarrow> (\<exists>e \<in> E. \<exists>j < e_inline e. lower (drop j (e_name e)) = lower ls \<and> pos e j < lim)"

definition entry_ok :: "(nat \<times> byte list) set \<Rightarrow> nat \<Rightarrow> entry set \<Rightarrow> entry \<Rightarrow> bool" where
  "entry_ok W lim E e \<longleftrightarrow> name_ok (e_name e) \<and> e_inline e \<le> length (e_name e) \<and> pos e (e_inline e) \<le> lim \<and>
     (\<forall>j < e_inline e. good W (pos e j) (drop j (e_name e))) \<and>
     (\<forall>j. e_inline e \<le> j \<and> j < length (e_name e) \<longrightarrow> found E (e_index e) (drop j (e_name e)))"

fun entries_ok :: "(nat \<times> byte list) set \<Rightarrow> nat \<Rightarrow> entry set \<Rightarrow> entry list \<Rightarrow> bool" where
  "entries_ok W lim E [] = True"
| "entries_ok W lim E (e # es) = (entry_ok W lim E e \<and> entries_ok W lim (insert e E) es)"

lemma pos_mono: "i \<le> j \<Longrightarrow> pos e i \<le> pos e j"
proof -
  assume "i \<le> j"
  then have "take j (e_name e) = take i (e_name e) @ drop i (take j (e_name e))" by (metis append_take_drop_id min.absorb1 take_take)
  then have "length (rhn_hdr (take i (e_name e))) \<le> length (rhn_hdr (take j (e_name e)))" by (metis length_append le_add1 rhn_hdr_append)
  then show ?thesis by (simp add: pos_def)
qed

lemma pos_strict: "i < j \<Longrightarrow> j \<le> length (e_name e) \<Longrightarrow> pos e i < pos e j"
  using pos_mono [of "Suc i" j e] by (simp add: pos_def take_Suc_conv_app_nth)

lemma entries_ok_mono: "entries_ok W lim E es \<Longrightarrow> W \<subseteq> W' \<Longrightarrow> lim \<le> lim' \<Longrightarrow> entries_ok W' lim' E es"
  by (induction es arbitrary: E) (auto simp: entry_ok_def intro: good_mono)

lemma entries_ok_append: "entries_ok W lim E (xs @ ys) \<longleftrightarrow> entries_ok W lim E xs \<and> entries_ok W lim (E \<union> set xs) ys"
  by (induction xs arbitrary: E) auto

lemma entries_ok_in: "entries_ok W lim E es \<Longrightarrow> e \<in> set es \<Longrightarrow> \<exists>E' \<subseteq> E \<union> set es. entry_ok W lim E' e"
proof (induction es arbitrary: E)
  case (Cons x es)
  then show ?case using Cons.IH [of "insert x E"] by (cases "e = x") auto
qed simp

text \<open>The best match among the entries \<open>E\<close>: a place that can be referred to, and no usable match is longer.\<close>

definition usable :: "byte list list \<Rightarrow> entry set \<Rightarrow> nat \<Rightarrow> nat \<Rightarrow> nat \<Rightarrow> bool" where
  "usable a E L r c \<longleftrightarrow> L \<le> length a \<and> r = length (rhn_hdr (take (length a - L) a)) \<and> c \<le> 0x3fff \<and>
     (\<exists>e \<in> E. \<exists>j < e_inline e. lower (drop j (e_name e)) = lower (drop (length a - L) a) \<and> c = pos e j)"

definition best :: "byte list list \<Rightarrow> entry set \<Rightarrow> nat \<times> nat \<times> nat \<Rightarrow> bool" where
  "best a E b \<longleftrightarrow> (case b of (L, r, c) \<Rightarrow> (0 < L \<longrightarrow> usable a E L r c) \<and>
     (\<forall>e \<in> E. \<forall>j k. k \<le> length a \<and> lower (drop j (e_name e)) = lower (drop (length a - k) a) \<and> pos e j \<le> 0x3fff \<longrightarrow> k \<le> L))"

lemma usable_mono: "usable a E L r c \<Longrightarrow> E \<subseteq> E' \<Longrightarrow> usable a E' L r c"
  unfolding usable_def by blast

lemma best_step:
  assumes e: "entry_ok W lim E e" and b: "best a E (L, r, c)"
    and m: "m = matchlen a (e_name e)" "j = length (e_name e) - m"
  shows "best a (insert e E) (if L < m \<and> pos e j \<le> 0x3fff then (m, length (rhn_hdr (take (length a - m) a)), pos e j) else (L, r, c))"
proof -
  have le: "m \<le> length a" "m \<le> length (e_name e)" using matchlen_le m(1) by auto
  have eq: "lower (drop j (e_name e)) = lower (drop (length a - m) a)" using matchlen_iff [OF le] m by simp
  have max: "k \<le> m \<and> (0 < k \<longrightarrow> j \<le> i)" if "k \<le> length a" "lower (drop i (e_name e)) = lower (drop (length a - k) a)" for i k
  proof -
    have "length (drop i (e_name e)) = length (drop (length a - k) a)" using that(2) by (metis lower_simps(4))
    then have "length (e_name e) - i = k" using that(1) by simp
    then show ?thesis using matchlen_iff [OF that(1), of "e_name e"] that m by (cases "k = 0") auto
  qed
  have inl: "j < e_inline e" if "L < m" "pos e j \<le> 0x3fff"
  proof (rule ccontr)
    assume "\<not> j < e_inline e"
    with e that(1) m(2) le have "found E (e_index e) (drop j (e_name e))" by (auto simp: entry_ok_def)
    then obtain e' j' where "e' \<in> E" "lower (drop j' (e_name e')) = lower (drop (length a - m) a)" "pos e' j' < e_index e" using eq by (auto simp: found_def)
    moreover have "e_index e \<le> pos e j" by (simp add: pos_def)
    ultimately have "m \<le> L" using b le(1) that(2) by (fastforce simp: best_def)
    with that(1) show False by simp
  qed
  show ?thesis
  proof (cases "L < m \<and> pos e j \<le> 0x3fff")
    case True
    then have "usable a (insert e E) m (length (rhn_hdr (take (length a - m) a))) (pos e j)" using le(1) eq inl by (auto simp: usable_def)
    moreover have "k \<le> m" if "e' \<in> insert e E" "k \<le> length a" "lower (drop i (e_name e')) = lower (drop (length a - k) a)" "pos e' i \<le> 0x3fff" for e' i k
      using that b True max by (fastforce simp: best_def)
    ultimately show ?thesis using True by (auto simp: best_def)
  next
    case False
    have "k \<le> L" if "e' \<in> insert e E" "k \<le> length a" "lower (drop i (e_name e')) = lower (drop (length a - k) a)" "pos e' i \<le> 0x3fff" for e' i k
    proof (cases "e' = e")
      case True
      then show ?thesis using max [OF that(2), of i] that(3,4) False pos_mono [of j i e] by fastforce
    qed (use that b in \<open>auto simp: best_def\<close>)
    moreover have "0 < L \<longrightarrow> usable a (insert e E) L r c" using b usable_mono [of a E L r c "insert e E"] by (auto simp: best_def)
    ultimately show ?thesis using False by (auto simp: best_def)
  qed
qed

abbreviation (input) cb_of :: "entry list \<Rightarrow> compel_t list" where
  "cb_of es \<equiv> map (\<lambda>e. (e_index e, rhn_of (e_name e))) es"

lemma best_match_ok:
  assumes "name_ok a" "entries_ok W lim E es" "best a E b"
  shows "\<exists>b'. best_match (rhn_of a @ p) (cb_of es) b = Ok b' \<and> best a (E \<union> set es) b'"
  using assms(2,3)
proof (induction es arbitrary: E b)
  case (Cons e es)
  obtain L r c where b: "b = (L, r, c)" by (cases b)
  have e: "entry_ok W lim E e" "entries_ok W lim (insert e E) es" using Cons.prems(1) by simp_all
  let ?m = "matchlen a (e_name e)"
  have "domain_match (rhn_of a @ p) (rhn_of (e_name e)) = Ok (?m, length (rhn_hdr (take (length a - ?m) a)), length (rhn_hdr (take (length (e_name e) - ?m) (e_name e))))"
    using domain_match_name [OF assms(1), of "e_name e" p "[]"] e(1) by (simp add: entry_ok_def)
  then show ?case using Cons.IH [OF e(2) best_step [OF e(1) Cons.prems(2) [unfolded b] refl refl, unfolded pos_def]] b by simp
qed simp

text \<open>The entry that is added for a name, and what the written bytes stand for.\<close>

lemma found_suffix:
  assumes "entries_ok W lim {} es" "e \<in> set es" "j < e_inline e" "lower (drop j (e_name e)) = lower (drop k a)" "k \<le> i" "i < length a" "lim \<le> lim'"
  shows "found (set es) lim' (drop i a)"
proof -
  obtain E where e: "E \<subseteq> set es" "entry_ok W lim E e" using entries_ok_in [OF assms(1,2)] by auto
  let ?j = "j + (i - k)"
  have "drop (i - k) (lower (drop j (e_name e))) = drop (i - k) (lower (drop k a))" using assms(4) by simp
  then have eq: "lower (drop ?j (e_name e)) = lower (drop i a)" using assms(5) by (simp add: add.commute)
  have len: "?j < length (e_name e)" using eq assms(6) by (metis drop_eq_Nil linorder_not_less lower_simps(4) length_0_conv length_drop diff_is_0_eq)
  show ?thesis
  proof (cases "?j < e_inline e")
    case True
    then have "pos e ?j < lim'" using e(2) pos_strict [OF True, of e] assms(7) by (simp add: entry_ok_def)
    then show ?thesis using True eq assms(2) by (auto simp: found_def)
  next
    case False
    then have "found E (e_index e) (drop ?j (e_name e))" using e(2) len by (auto simp: entry_ok_def)
    moreover have "e_index e \<le> lim'" using e(2) assms(7) by (auto simp: entry_ok_def pos_def)
    ultimately show ?thesis using e(1) eq by (fastforce simp: found_def)
  qed
qed

lemma take_drop_split: "j \<le> k \<Longrightarrow> take k a = take j a @ drop j (take k a)" "j \<le> k \<Longrightarrow> k \<le> length a \<Longrightarrow> drop j a = drop j (take k a) @ drop k a"
  by (metis append_take_drop_id min.absorb1 take_take, metis append_take_drop_id drop_append diff_is_0_eq' drop_0 length_take min.absorb2)

lemma holds_suffix:
  assumes "holds M (off, rhn_hdr (take k a) @ x)" "j \<le> k"
  shows "holds M (off + length (rhn_hdr (take j a)), rhn_hdr (drop j (take k a)) @ x)"
  using assms take_drop_split(1) [OF assms(2), of a] by (metis append_assoc holds_append rhn_hdr_append)

text \<open>A name without a match is written out.\<close>

lemma plain_entry_ok:
  assumes "name_ok a" "lim \<le> offs"
  shows "entry_ok (insert (offs, rhn_of a) W) (offs + length (rhn_of a)) E \<lparr>e_index = offs, e_name = a, e_inline = length a\<rparr>"
proof -
  have "good (insert (offs, rhn_of a) W) (offs + length (rhn_hdr (take j a))) (drop j a)" if "j < length a" for j
    unfolding good_def
  proof (intro allI impI)
    fix M assume "holds_all M (insert (offs, rhn_of a) W)"
    then have "holds M (offs, rhn_hdr (take (length a) a) @ [0])" by (simp add: holds_all_def rhn_of_def)
    from holds_suffix [OF this, of j] that have "holds M (offs + length (rhn_hdr (take j a)), rhn_of (drop j a))" by (simp add: rhn_of_def)
    moreover have "labels_ok (drop j a)" using assms(1) by (metis append_take_drop_id labels_ok_simps(3) name_ok_def)
    ultimately show "\<exists>n h ls'. name_at M (offs + length (rhn_hdr (take j a))) n h ls' \<and> lower ls' = lower (drop j a) \<and> h \<le> length (drop j a)"
      using name_at_plain by blast
  qed
  then show ?thesis using assms by (auto simp: entry_ok_def pos_def rhn_of_def)
qed

text \<open>A name with a match of \<open>L\<close> labels is written as its first labels and a pointer.\<close>

lemma pointer_names:
  assumes "name_ok a" "entries_ok W lim {} es" "usable a (set es) L r c" "j \<le> length a - L"
    and M: "holds_all M (insert (offs, rhn_hdr (take (length a - L) a) @ pointer_bytes c) W)"
  shows "\<exists>h ls'. name_at M (offs + length (rhn_hdr (take j a))) (length (rhn_hdr (drop j (take (length a - L) a))) + 2) h ls' \<and> lower ls' = lower (drop j a) \<and> h \<le> L + 1"
proof -
  obtain e j0 where e: "e \<in> set es" "j0 < e_inline e" "lower (drop j0 (e_name e)) = lower (drop (length a - L) a)" "c = pos e j0" "L \<le> length a" "c \<le> 0x3fff"
    using assms(3) by (auto simp: usable_def)
  obtain E where "entry_ok W lim E e" using entries_ok_in [OF assms(2) e(1)] by blast
  then have "good W c (drop j0 (e_name e))" using e(2,4) by (auto simp: entry_ok_def)
  then obtain n h ls' where n: "name_at M c n h ls'" "lower ls' = lower (drop (length a - L) a)" "h \<le> length (drop j0 (e_name e))"
    using M e(3) by (auto simp: good_def holds_all_def)
  have h: "h \<le> L" using n(3) e(3,5) by (metis diff_diff_cancel length_drop lower_simps(4))
  have "labels_ok (take (length a - L) a)" using assms(1) by (metis append_take_drop_id labels_ok_simps(3) name_ok_def)
  then have "labels_ok (drop j (take (length a - L) a))" by (metis append_take_drop_id labels_ok_simps(3))
  moreover have "holds M (offs, rhn_hdr (take (length a - L) a) @ pointer_bytes c)" using M by (simp add: holds_all_def)
  ultimately have "name_at M (offs + length (rhn_hdr (take j a))) (length (rhn_hdr (drop j (take (length a - L) a))) + 2) (h + 1) (drop j (take (length a - L) a) @ ls')"
    using name_at_pointer [OF _ holds_suffix e(6) n(1)] assms(4) by blast
  moreover have "lower (drop j (take (length a - L) a) @ ls') = lower (drop j a)"
    using take_drop_split(2) [OF assms(4)] n(2) by (metis diff_le_self lower_simps(3))
  ultimately show ?thesis using h by (intro exI [of _ "h + 1"]) auto
qed

lemma pointer_entry_ok:
  assumes "name_ok a" "entries_ok W lim {} es" "usable a (set es) L r c" "0 < L" "lim \<le> offs"
  defines "w \<equiv> rhn_hdr (take (length a - L) a) @ pointer_bytes c"
  shows "entry_ok (insert (offs, w) W) (offs + length w) (set es) \<lparr>e_index = offs, e_name = a, e_inline = length a - L\<rparr>"
proof -
  let ?k = "length a - L"
  have "good (insert (offs, w) W) (offs + length (rhn_hdr (take j a))) (drop j a)" if "j < ?k" for j
    unfolding good_def
  proof (intro allI impI)
    fix M assume M: "holds_all M (insert (offs, w) W)"
    have "L + 1 \<le> length (drop j a)" using that by simp
    then show "\<exists>n h ls'. name_at M (offs + length (rhn_hdr (take j a))) n h ls' \<and> lower ls' = lower (drop j a) \<and> h \<le> length (drop j a)"
      using pointer_names [OF assms(1-3), of j M offs] M that unfolding w_def by (meson le_trans less_imp_le)
  qed
  moreover have "found (set es) offs (drop j a)" if "?k \<le> j" "j < length a" for j
    using assms(3,5) that by (auto simp: usable_def intro: found_suffix [OF assms(2)])
  ultimately show ?thesis using assms(1) by (simp add: entry_ok_def pos_def w_def)
qed

lemma pointer_bytes_length [simp]: "length (pointer_bytes c) = 2"
  by (simp add: pointer_bytes_def)

definition names_at :: "(nat \<times> byte list) set \<Rightarrow> nat \<Rightarrow> nat \<Rightarrow> byte list list \<Rightarrow> bool" where
  "names_at W offs n a \<longleftrightarrow> (\<forall>M. holds_all M W \<longrightarrow> (\<exists>h ls'. name_at M offs n h ls' \<and> lower ls' = lower a \<and> h \<le> length a + 1))"

lemma names_at_mono: "names_at W offs n a \<Longrightarrow> W \<subseteq> W' \<Longrightarrow> names_at W' offs n a"
  unfolding names_at_def holds_all_def by blast

lemma compress_name_ok:
  assumes a: "name_ok a" and es: "entries_ok W lim {} es" and offs: "lim \<le> offs" and out: "length (rhn_of a) \<le> length out"
  shows "\<exists>w es'. compress_name True (rhn_of a @ p) out offs (cb_of es) = Ok (length w, overwrite 0 w out, cb_of es') \<and> length w \<le> length (rhn_of a) \<and>
    entries_ok (insert (offs, w) W) (offs + length w) {} es' \<and> names_at (insert (offs, w) W) offs (length w) a"
proof -
  let ?in = "rhn_of a @ p"
  obtain L r c where b: "best_match ?in (cb_of es) (0, 0, 0) = Ok (L, r, c)" "best a (set es) (L, r, c)"
    using best_match_ok [OF a es, of "(0, 0, 0)" p] by (force simp: best_def)
  have len: "rhnlen ?in = Ok (length (rhn_of a))" "\<not> DNSNAMEBUFSIZE < length (rhn_of a)" "labels_ok a" using a by (simp_all add: name_ok_def)
  show ?thesis
  proof (cases "0 < L")
    case False
    let ?e = "\<lparr>e_index = offs, e_name = a, e_inline = length a\<rparr>" and ?W = "insert (offs, rhn_of a) W"
    have "compress_name True ?in out offs (cb_of es) = Ok (length (rhn_of a), overwrite 0 (rhn_of a) out, cb_of (es @ [?e]))"
      using b(1) len False out by (simp add: compress_name_def Let_def)
    moreover have "entries_ok ?W (offs + length (rhn_of a)) {} (es @ [?e])"
      using plain_entry_ok [OF a offs, of W "set es"] entries_ok_mono [OF es, of ?W "offs + length (rhn_of a)"] offs by (auto simp: entries_ok_append)
    moreover have "names_at ?W offs (length (rhn_of a)) a" using name_at_plain [OF len(3)] by (fastforce simp: names_at_def holds_all_def)
    ultimately show ?thesis by blast
  next
    case True
    let ?k = "length a - L"
    let ?w = "rhn_hdr (take ?k a) @ pointer_bytes c" and ?e = "\<lparr>e_index = offs, e_name = a, e_inline = ?k\<rparr>"
    let ?W = "insert (offs, ?w) W" and ?es = "if ?k = 0 then es else es @ [?e]"
    have u: "usable a (set es) L r c" using b(2) True by (simp add: best_def)
    then have L: "L \<le> length a" "r = length (rhn_hdr (take ?k a))" by (simp_all add: usable_def)
    have hdr: "rhn_of a = rhn_hdr (take ?k a) @ rhn_of (drop ?k a)" by (metis append_assoc append_take_drop_id rhn_hdr_append rhn_of_def)
    have "labels_ok (drop ?k a)" using len(3) by (metis append_take_drop_id labels_ok_simps(3))
    then obtain l ls where l: "drop ?k a = l # ls" "0 < length l" using True L(1) by (cases "drop ?k a") auto
    have r2: "r + 2 \<le> length (rhn_of a)" using hdr l L(2) by (simp add: rhn_of_def)
    have k0: "(r \<noteq> 0) = (?k \<noteq> 0)" using L(2) True by (cases a; cases ?k) auto
    have "compress_name True ?in out offs (cb_of es) = Ok (length ?w, overwrite 0 ?w out, cb_of ?es)"
      using b(1) len True out r2 k0 L(2) hdr by (simp add: compress_name_def Let_def)
    moreover have "length ?w \<le> length (rhn_of a)" using r2 L(2) by simp
    moreover have "entries_ok ?W (offs + length ?w) {} ?es"
      using pointer_entry_ok [OF a es u True offs] entries_ok_mono [OF es subset_insertI, of "offs + length ?w" "(offs, ?w)"] offs by (auto simp: entries_ok_append)
    moreover have "names_at ?W offs (length ?w) a"
      unfolding names_at_def
    proof (intro allI impI)
      fix M assume M: "holds_all M ?W"
      show "\<exists>h ls'. name_at M offs (length ?w) h ls' \<and> lower ls' = lower a \<and> h \<le> length a + 1"
        using pointer_names [OF a es u, of 0 M offs] M L(1) by fastforce
    qed
    ultimately show ?thesis by blast
  qed
qed

text \<open>Names written one after another into a message, each after a gap of other data.\<close>

fun compress_run :: "nat \<Rightarrow> (byte list \<times> byte list \<times> nat) list \<Rightarrow> compel_t list \<Rightarrow> (unit, (nat \<times> byte list) list) exec" where
  "compress_run end [] cb = Ok []"
| "compress_run end ((inn, out, gap) # calls) cb = exec_bind (compress_name True inn out (end + gap) cb) (\<lambda>(rl, out', cb').
     exec_bind (compress_run (end + gap + rl) calls cb') (\<lambda>ws. Ok ((end + gap, take rl out') # ws)))"

record call =
  c_name :: "byte list list"
  c_rest :: "byte list"
  c_out :: "byte list"
  c_gap :: nat

definition call_args :: "call \<Rightarrow> byte list \<times> byte list \<times> nat" where
  "call_args x = (rhn_of (c_name x) @ c_rest x, c_out x, c_gap x)"

definition call_ok :: "call \<Rightarrow> bool" where
  "call_ok x \<longleftrightarrow> name_ok (c_name x) \<and> DNSNAMEBUFSIZE \<le> length (c_out x)"

lemma compress_run_ok:
  assumes "\<forall>x \<in> set calls. call_ok x" "entries_ok W lim {} es"
  shows "\<exists>ws. compress_run lim (map call_args calls) (cb_of es) = Ok ws \<and>
    list_all2 (\<lambda>x w. length (snd w) \<le> length (rhn_of (c_name x)) \<and> names_at (W \<union> set ws) (fst w) (length (snd w)) (c_name x)) calls ws"
  using assms
proof (induction calls arbitrary: W lim es)
  case (Cons x calls)
  let ?o = "lim + c_gap x"
  have a: "name_ok (c_name x)" "DNSNAMEBUFSIZE \<le> length (c_out x)" using Cons.prems(1) by (simp_all add: call_ok_def)
  then have out: "length (rhn_of (c_name x)) \<le> length (c_out x)" by (simp add: name_ok_def)
  obtain w es' where c: "compress_name True (rhn_of (c_name x) @ c_rest x) (c_out x) ?o (cb_of es) = Ok (length w, overwrite 0 w (c_out x), cb_of es')"
    "length w \<le> length (rhn_of (c_name x))" "entries_ok (insert (?o, w) W) (?o + length w) {} es'" "names_at (insert (?o, w) W) ?o (length w) (c_name x)"
    using compress_name_ok [OF a(1) Cons.prems(2) _ out, of ?o "c_rest x"] by auto
  obtain ws where ws: "compress_run (?o + length w) (map call_args calls) (cb_of es') = Ok ws"
    "list_all2 (\<lambda>x v. length (snd v) \<le> length (rhn_of (c_name x)) \<and> names_at (insert (?o, w) W \<union> set ws) (fst v) (length (snd v)) (c_name x)) calls ws"
    using Cons.IH [OF _ c(3)] Cons.prems(1) by auto
  have "take (length w) (overwrite 0 w (c_out x)) = w" by (simp add: overwrite_def)
  then have "compress_run lim (map call_args (x # calls)) (cb_of es) = Ok ((?o, w) # ws)"
    using c(1) ws(1) by (simp add: call_args_def)
  then show ?case using ws(2) c(2) names_at_mono [OF c(4), of "W \<union> set ((?o, w) # ws)"] by auto
qed simp

lemma lower_name_ok: "lower ls = lower a \<Longrightarrow> name_ok a \<Longrightarrow> name_ok ls \<and> length (rhn_of ls) = length (rhn_of a)"
proof -
  assume e: "lower ls = lower a" and a: "name_ok a"
  have m: "map length ls = map length a" using arg_cong [OF e, of "map length"] by (simp add: lower_def comp_def)
  have h: "length (rhn_hdr xs) = sum_list (map length xs) + length xs" for xs by (induction xs) simp_all
  have l: "labels_ok xs = (\<forall>n \<in> set (map length xs). 0 < n \<and> n \<le> 63)" for xs by (auto simp: labels_ok_def)
  have "length ls = length a" using m by (metis length_map)
  then show ?thesis using m a by (simp add: name_ok_def rhn_of_def h l)
qed

text \<open>C19.  Compression is inverted by decompression.  However many names are written into a message one after another with
  \<^verbatim>\<open>compress_name\<close>, with any other data between them, no assertion fails, no written name is longer than its input, and in every
  message that contains the written pieces at their offsets, \<^verbatim>\<open>decompress_name\<close> succeeds at each of them, takes exactly the written bytes and
  returns the name that was compressed, up to the case of letters.\<close>

theorem compress_decompress:
  assumes "\<forall>x \<in> set calls. call_ok x"
  shows "\<exists>ws. compress_run start (map call_args calls) [] = Ok ws \<and>
    list_all2 (\<lambda>x (offs, w). length w \<le> length (rhn_of (c_name x)) \<and>
      (\<forall>M sz tgt. holds_all M (set ws) \<and> length w \<le> sz \<and> DNSNAMEBUFSIZE \<le> length tgt \<longrightarrow>
        (\<exists>a. lower a = lower (c_name x) \<and> decompress_name M offs sz tgt =
           Ok (offs + length w, sz - length w, overwrite 0 (rhn_of a) tgt, length (rhn_of a))))) calls ws"
proof -
  obtain ws where ws: "compress_run start (map call_args calls) [] = Ok ws"
    "list_all2 (\<lambda>x w. length (snd w) \<le> length (rhn_of (c_name x)) \<and> names_at (set ws) (fst w) (length (snd w)) (c_name x)) calls ws"
    using compress_run_ok [OF assms, of "{}" start "[]"] by auto
  have step: "\<exists>a'. lower a' = lower a \<and> decompress_name M offs sz tgt = Ok (offs + length w, sz - length w, overwrite 0 (rhn_of a') tgt, length (rhn_of a'))"
    if "names_at (set ws) offs (length w) a" "name_ok a" "holds_all M (set ws)" "length w \<le> sz" "DNSNAMEBUFSIZE \<le> length tgt" for a offs w M sz tgt
  proof -
    note t = that
    obtain h a' where h: "name_at M offs (length w) h a'" "lower a' = lower a" "h \<le> length a + 1" using t(1,3) by (auto simp: names_at_def)
    have "name_ok a'" using lower_name_ok [OF h(2) that(2)] by simp
    moreover have "h \<le> 255" using h(3) name_ok_count [OF that(2)] by simp
    ultimately have "decompress_name M offs sz tgt = Ok (offs + length w, sz - length w, overwrite 0 (rhn_of a') tgt, length (rhn_of a'))"
      using decompress_exact [OF that(5)] h(1) that(4) by blast
    then show ?thesis using h(2) by blast
  qed
  have "list_all2 (\<lambda>x (offs, w). length w \<le> length (rhn_of (c_name x)) \<and>
      (\<forall>M sz tgt. holds_all M (set ws) \<and> length w \<le> sz \<and> DNSNAMEBUFSIZE \<le> length tgt \<longrightarrow>
        (\<exists>a. lower a = lower (c_name x) \<and> decompress_name M offs sz tgt =
           Ok (offs + length w, sz - length w, overwrite 0 (rhn_of a) tgt, length (rhn_of a))))) calls ws"
    using ws(2) by (rule list.rel_mono_strong) (use assms in \<open>auto simp: call_ok_def intro!: step\<close>)
  then show ?thesis using ws(1) by blast
qed

subsection \<open>Examples\<close>

text \<open>A message with the name \<^verbatim>\<open>b.a\<close> at 0 and \<^verbatim>\<open>c.a\<close> at 5, the latter with a pointer.\<close>

definition ex_msg :: "byte list" where
  "ex_msg = [1, 98, 1, 97, 0, 1, 99, 0xc0, 2]"

lemma ex_name_at: "name_at ex_msg 5 4 1 [[99], [97]]"
proof -
  have "name_at ex_msg 4 1 0 []" by (rule name_end) (simp_all add: ex_msg_def)
  then have "name_at ex_msg 2 (1 + 1 + 1) 0 (slice (2 + 1) 1 ex_msg # [])" by (intro name_label) (simp_all add: ex_msg_def)
  moreover have "jump_offset (ex_msg ! 7) (ex_msg ! (7 + 1)) = 2" by code_simp
  ultimately have "name_at ex_msg 7 2 (0 + 1) [[97]]" by (intro name_jump) (simp_all add: ex_msg_def slice_def)
  then have "name_at ex_msg 5 (1 + 1 + 2) 1 (slice (5 + 1) 1 ex_msg # [[97]])" by (intro name_label) (simp_all add: ex_msg_def)
  moreover have "slice (5 + 1) 1 ex_msg = [99]" "1 + 1 + 2 = (4 :: nat)" by (simp_all add: ex_msg_def slice_def)
  ultimately show ?thesis by metis
qed

theorem decompress_name_exact_witness:
  "decompress_name ex_msg 5 4 (replicate 256 7) = Ok (9, 0, overwrite 0 [1, 99, 1, 97, 0] (replicate 256 7), 5)"
proof -
  have "name_ok [[99], [97]]" by (simp add: name_ok_def DNSNAMEBUFSIZE_def)
  moreover have "DNSNAMEBUFSIZE \<le> length (replicate 256 (7 :: byte))" by (simp add: DNSNAMEBUFSIZE_def)
  note decompress_name_exact [OF this, of ex_msg 5 4 9 0 "overwrite 0 [1, 99, 1, 97, 0] (replicate 256 7)" 5]
  ultimately show ?thesis using ex_name_at
    by (elim conjE) (drule iffD2, intro exI [of _ 4] exI [of _ 1] exI [of _ "[[99], [97]]"], simp_all)
qed

definition ex_calls :: "call list" where
  "ex_calls = [\<lparr>c_name = [[98], [97]], c_rest = [], c_out = replicate 256 0, c_gap = 0\<rparr>, \<lparr>c_name = [[99], [65]], c_rest = [1], c_out = replicate 256 0, c_gap = 0\<rparr>]"

theorem compress_decompress_witness:
  "compress_run 0 (map call_args ex_calls) [] = Ok [(0, [1, 98, 1, 97, 0]), (5, [1, 99, 0xc0, 2])] \<and>
   (\<exists>a. lower a = [[99], [97]] \<and> decompress_name ex_msg 5 4 (replicate 256 7) = Ok (9, 0, overwrite 0 (rhn_of a) (replicate 256 7), length (rhn_of a)))"
proof -
  have ok: "\<forall>x \<in> set ex_calls. call_ok x" by (simp add: ex_calls_def call_ok_def name_ok_def DNSNAMEBUFSIZE_def)
  have run: "compress_run 0 (map call_args ex_calls) [] = Ok [(0, [1, 98, 1, 97, 0]), (5, [1, 99, 0xc0, 2])]" by code_simp
  let ?ws = "[(0, [1, 98, 1, 97, 0]), (5, [1, 99, 0xc0, 2])] :: (nat \<times> byte list) list"
  have h: "holds_all ex_msg (set ?ws)" by (simp add: holds_all_def holds_def ex_msg_def slice_def)
  obtain ws where ws: "compress_run 0 (map call_args ex_calls) [] = Ok ws"
    and all: "list_all2 (\<lambda>x (offs, w). length w \<le> length (rhn_of (c_name x)) \<and>
      (\<forall>M sz tgt. holds_all M (set ws) \<and> length w \<le> sz \<and> DNSNAMEBUFSIZE \<le> length tgt \<longrightarrow>
        (\<exists>a. lower a = lower (c_name x) \<and> decompress_name M offs sz tgt =
           Ok (offs + length w, sz - length w, overwrite 0 (rhn_of a) tgt, length (rhn_of a))))) ex_calls ws"
    using compress_decompress [OF ok, of 0] by blast
  have eq: "ws = ?ws" using ws run by simp
  have n: "1 < length ex_calls" "c_name (ex_calls ! 1) = [[99], [65]]" "ws ! 1 = (5, [1, 99, 0xc0, 2])" by (simp_all add: ex_calls_def eq)
  have len: "length [1, 99, 0xc0, 2 :: byte] \<le> 4" "DNSNAMEBUFSIZE \<le> length (replicate 256 (7 :: byte))" by (simp_all add: DNSNAMEBUFSIZE_def)
  have low: "lower [[99], [65]] = [[99], [97]]" by code_simp
  from list_all2_nthD [OF all n(1), unfolded n prod.case] h len
  have "\<exists>a. lower a = lower [[99], [65]] \<and> decompress_name ex_msg 5 4 (replicate 256 7) =
      Ok (5 + length [1, 99, 0xc0, 2 :: byte], 4 - length [1, 99, 0xc0, 2 :: byte], overwrite 0 (rhn_of a) (replicate 256 7), length (rhn_of a))"
    unfolding eq by blast
  moreover have "5 + length [1, 99, 0xc0, 2 :: byte] = 9" "4 - length [1, 99, 0xc0, 2 :: byte] = 0" by simp_all
  ultimately have "\<exists>a. lower a = [[99], [97]] \<and> decompress_name ex_msg 5 4 (replicate 256 7) = Ok (9, 0, overwrite 0 (rhn_of a) (replicate 256 7), length (rhn_of a))"
    unfolding low by metis
  then show ?thesis using run by blast
qed

end
