(* ===== verification/DnsHash.thy ===== *)
theory DnsHash
  imports DnsName "HOL-Library.Sublist" "HOL-Library.Multiset"
begin

text \<open>
  The hash table of the cache of \<^verbatim>\<open>pdnsd\<close> (\<^verbatim>\<open>pdnsd/src/hash.c\<close>, \<^verbatim>\<open>hash.h\<close>): 1024 chains of entries, each sorted by a second, longer hash
  value.  Names are compared without regard to case.  Modelled: \<^verbatim>\<open>dns_hash\<close>, \<^verbatim>\<open>mk_dns_hash\<close>, \<^verbatim>\<open>dns_lookup\<close>, \<^verbatim>\<open>add_dns_hash\<close>, \<^verbatim>\<open>del_dns_hash_ent\<close>,
  \<^verbatim>\<open>del_dns_hash\<close>, the operations that free entries, and the iteration with \<^verbatim>\<open>fetch_first\<close> and \<^verbatim>\<open>fetch_next\<close>.  A pointer to a \<^verbatim>\<open>next\<close> field is a
  position in a chain.  Shown: the table is a map from names up to case to cache entries, and the
  iteration visits every entry once.  \<^verbatim>\<open>unsigned long\<close> has 64 bits.
\<close>

unbundle bit_operations_syntax

subsection \<open>The hash function\<close>

definition toupper :: "byte \<Rightarrow> byte" where
  "toupper c = (if 97 \<le> c \<and> c \<le> 122 then c - 32 else c)"

definition HASH_SZ :: nat where "HASH_SZ = 10"

definition HASH_NUM_BUCKETS :: nat where "HASH_NUM_BUCKETS = 2 ^ HASH_SZ"

definition HASH_BITMASK :: u32 where "HASH_BITMASK = 1023"

text \<open>One character: both sums.\<close>

definition hash_char :: "nat \<Rightarrow> byte \<Rightarrow> u32 \<times> u64 \<Rightarrow> u32 \<times> u64" where
  "hash_char i c h = (fst h + push_bit (i mod (HASH_SZ - 5)) (ucast c), snd h + push_bit (i mod (8 * 8 - 7)) (ucast c))"

fun hash_bytes :: "byte list \<Rightarrow> nat \<Rightarrow> nat \<Rightarrow> u32 \<times> u64 \<Rightarrow> (unit, u32 \<times> u64) exec" where
  "hash_bytes str i 0 h = Ok h"
| "hash_bytes str i (Suc lb) h = exec_bind (rd str i) (\<lambda>c. hash_bytes str (i + 1) lb (hash_char i (toupper c) h))"

function hash_from :: "byte list \<Rightarrow> nat \<Rightarrow> u32 \<times> u64 \<Rightarrow> (unit, u32 \<times> u64) exec" where
  "hash_from str i h = exec_bind (rd str i) (\<lambda>lb.
     if lb = 0 then Ok h
     else exec_bind (hash_bytes str (i + 1) (unat lb) (hash_char i lb h)) (\<lambda>h. hash_from str (i + 1 + unat lb) h))"
  by pat_completeness auto
termination
  by (relation "measure (\<lambda>(str, i, h). length str - i)") auto

declare hash_from.simps [simp del]

definition fold_hash :: "u32 \<Rightarrow> u32" where
  "fold_hash s = (s AND HASH_BITMASK) + drop_bit HASH_SZ (s AND NOT HASH_BITMASK)"

definition dns_hash :: "byte list \<Rightarrow> (unit, nat \<times> u64) exec" where
  "dns_hash str = exec_bind (hash_from str 0 (0, 0)) (\<lambda>(s, r). Ok (unat (fold_hash (fold_hash s) AND HASH_BITMASK), r))"

subsection \<open>The table\<close>

text \<open>A cache entry: the hash table uses its name only.\<close>

record dns_cent_t =
  qname :: "byte list"

record 'c dns_hash_ent_t =
  rhash :: u64
  data :: 'c

type_synonym 'c hash_buckets = "'c dns_hash_ent_t list list"

record dns_hash_loc_t =
  loc_bucket :: nat
  loc_pos :: nat
  loc_rhash :: u64

record dns_hash_pos_t =
  pos_bucket :: nat
  pos_ent :: nat

definition mk_dns_hash :: "'c hash_buckets" where
  "mk_dns_hash = replicate HASH_NUM_BUCKETS []"

text \<open>The loop of \<^verbatim>\<open>dns_lookup\<close> along a chain; \<open>k\<close> is the position.\<close>

fun find_ent :: "byte list \<Rightarrow> u64 \<Rightarrow> 'a dns_cent_t_scheme dns_hash_ent_t list \<Rightarrow> nat \<Rightarrow> (unit, 'a dns_cent_t_scheme option \<times> nat) exec" where
  "find_ent key rh [] k = Ok (None, k)"
| "find_ent key rh (he # hes) k =
     (if rhash he \<le> rh
      then exec_bind (if rhash he = rh then rhnicmp key (qname (data he)) else Ok False) (\<lambda>eq.
        if eq then Ok (Some (data he), k) else find_ent key rh hes (k + 1))
      else Ok (None, k))"

definition chain :: "'c hash_buckets \<Rightarrow> nat \<Rightarrow> (unit, 'c dns_hash_ent_t list) exec" where
  "chain T i = (if i < length T then Ok (T ! i) else Fault)"

definition dns_lookup :: "'a dns_cent_t_scheme hash_buckets \<Rightarrow> byte list \<Rightarrow> (unit, 'a dns_cent_t_scheme option \<times> dns_hash_loc_t) exec" where
  "dns_lookup T key = exec_bind (dns_hash key) (\<lambda>(idx, rh). exec_bind (chain T idx) (\<lambda>ch. exec_bind (find_ent key rh ch 0) (\<lambda>(ret, k).
     Ok (ret, \<lparr>loc_bucket = idx, loc_pos = k, loc_rhash = rh\<rparr>))))"

text \<open>\<open>alloc\<close> tells whether \<^verbatim>\<open>malloc\<close> succeeds.\<close>

definition add_dns_hash :: "bool \<Rightarrow> 'c hash_buckets \<Rightarrow> 'c \<Rightarrow> dns_hash_loc_t \<Rightarrow> (unit, 'c hash_buckets) exec" where
  "add_dns_hash alloc T d loc =
     (if \<not> alloc then Fail ()
      else exec_bind (chain T (loc_bucket loc)) (\<lambda>ch.
        Ok (T[loc_bucket loc := take (loc_pos loc) ch @ \<lparr>rhash = loc_rhash loc, data = d\<rparr> # drop (loc_pos loc) ch])))"

definition del_dns_hash_ent :: "'c hash_buckets \<Rightarrow> dns_hash_loc_t \<Rightarrow> (unit, 'c hash_buckets \<times> 'c) exec" where
  "del_dns_hash_ent T loc = exec_bind (chain T (loc_bucket loc)) (\<lambda>ch.
     if loc_pos loc < length ch
     then Ok (T[loc_bucket loc := take (loc_pos loc) ch @ drop (loc_pos loc + 1) ch], data (ch ! loc_pos loc))
     else Fault)"

definition del_dns_hash :: "'a dns_cent_t_scheme hash_buckets \<Rightarrow> byte list \<Rightarrow> (unit, 'a dns_cent_t_scheme hash_buckets \<times> 'a dns_cent_t_scheme option) exec" where
  "del_dns_hash T key = exec_bind (dns_hash key) (\<lambda>(idx, rh). exec_bind (chain T idx) (\<lambda>ch. exec_bind (find_ent key rh ch 0) (\<lambda>(ret, k).
     case ret of None \<Rightarrow> Ok (T, None) | Some d \<Rightarrow> Ok (T[idx := take k ch @ drop (k + 1) ch], Some d))))"

text \<open>The operations that free entries; they return the entries given to \<^verbatim>\<open>del_cent\<close> in order.\<close>

definition free_dns_hash_bucket :: "'c hash_buckets \<Rightarrow> nat \<Rightarrow> (unit, 'c hash_buckets \<times> 'c list) exec" where
  "free_dns_hash_bucket T i = exec_bind (chain T i) (\<lambda>ch. Ok (T[i := []], map data ch))"

record slist_t =
  sl_domain :: "byte list"
  sl_exact :: bool
  sl_included :: bool

text \<open>Whether the first selection that matches the name says to delete it.\<close>

fun selected :: "byte list \<Rightarrow> slist_t list \<Rightarrow> (unit, bool) exec" where
  "selected name [] = Ok False"
| "selected name (sl # sla) = exec_bind (domain_match name (sl_domain sl)) (\<lambda>(m, nrem, lrem).
     if lrem = 0 \<and> (\<not> sl_exact sl \<or> nrem = 0) then Ok (sl_included sl) else selected name sla)"

fun free_selected :: "slist_t list \<Rightarrow> 'a dns_cent_t_scheme dns_hash_ent_t list \<Rightarrow>
    (unit, 'a dns_cent_t_scheme dns_hash_ent_t list \<times> 'a dns_cent_t_scheme list) exec" where
  "free_selected sla [] = Ok ([], [])"
| "free_selected sla (he # hes) = exec_bind (selected (qname (data he)) sla) (\<lambda>del. exec_bind (free_selected sla hes) (\<lambda>(rest, freed).
     Ok (if del then (rest, data he # freed) else (he # rest, freed))))"

definition free_dns_hash_selected :: "'a dns_cent_t_scheme hash_buckets \<Rightarrow> nat \<Rightarrow> slist_t list \<Rightarrow> (unit, 'a dns_cent_t_scheme hash_buckets \<times> 'a dns_cent_t_scheme list) exec" where
  "free_dns_hash_selected T i sla = exec_bind (chain T i) (\<lambda>ch. exec_bind (free_selected sla ch) (\<lambda>(ch', freed). Ok (T[i := ch'], freed)))"

definition free_dns_hash :: "'c hash_buckets \<Rightarrow> 'c hash_buckets \<times> 'c list" where
  "free_dns_hash T = (map (\<lambda>_. []) T, concat (map (map data) T))"

text \<open>
  The iteration.  The pointer \<^verbatim>\<open>ent\<close> of a position is the number of entries from the one it points to up
  to the end of the chain, so 0 for \<^verbatim>\<open>NULL\<close>; removing an entry before it does not move it.  \<^verbatim>\<open>first_from\<close> is the search
  for the next chain that is not empty, from bucket \<open>i\<close> on; \<open>n\<close> buckets remain.
\<close>

fun first_from :: "'c hash_buckets \<Rightarrow> nat \<Rightarrow> nat \<Rightarrow> (dns_hash_pos_t \<times> 'c) option" where
  "first_from T i 0 = None"
| "first_from T i (Suc n) = (case T ! i of [] \<Rightarrow> first_from T (i + 1) n | he # hes \<Rightarrow> Some (\<lparr>pos_bucket = i, pos_ent = length hes\<rparr>, data he))"

definition fetch_first :: "'c hash_buckets \<Rightarrow> (dns_hash_pos_t \<times> 'c) option" where
  "fetch_first T = first_from T 0 HASH_NUM_BUCKETS"

definition fetch_next :: "'c hash_buckets \<Rightarrow> dns_hash_pos_t \<Rightarrow> (dns_hash_pos_t \<times> 'c) option" where
  "fetch_next T p =
     (let ch = T ! pos_bucket p
      in if pos_ent p \<noteq> 0 then Some (p\<lparr>pos_ent := pos_ent p - 1\<rparr>, data (ch ! (length ch - pos_ent p)))
         else first_from T (pos_bucket p + 1) (HASH_NUM_BUCKETS - (pos_bucket p + 1)))"

subsection \<open>The hash of a name does not depend on case\<close>

lemma toupper_tolower: "tolower x = tolower y \<Longrightarrow> toupper x = toupper y"
proof -
  have n: "(c :: byte) \<le> d \<longleftrightarrow> unat c \<le> unat d" for c d by (simp add: word_le_nat_alt)
  have "toupper (tolower c) = toupper c" for c
  proof (cases "65 \<le> c \<and> c \<le> 90")
    case True
    have "unat (c + 32) = unat c + 32" using True by (simp add: n unat_word_ariths)
    then show ?thesis using True by (simp add: toupper_def tolower_def n)
  next
    case False
    then show ?thesis by (auto simp: tolower_def)
  qed
  then show "tolower x = tolower y \<Longrightarrow> toupper x = toupper y" by metis
qed

lemma hash_bytes_case:
  assumes "map tolower x = map tolower y" "length pre = length pre'" "i = length pre"
  shows "\<exists>h'. hash_bytes (pre @ x @ post) i (length x) h = Ok h' \<and> hash_bytes (pre' @ y @ post') i (length y) h = Ok h'"
  using assms
proof (induction x arbitrary: y pre pre' i h)
  case (Cons c x)
  then obtain d y' where y: "y = d # y'" "tolower c = tolower d" "map tolower x = map tolower y'" by (cases y) auto
  have r: "rd (pre @ c # x @ post) i = Ok c" "rd (pre' @ d # y' @ post') i = Ok d" using Cons.prems by (simp_all add: rd_def nth_append)
  show ?case using r Cons.IH [OF y(3), of "pre @ [c]" "pre' @ [d]" "i + 1" "hash_char i (toupper c) h"] Cons.prems y toupper_tolower [OF y(2)] by simp
qed simp

lemma hash_from_label:
  assumes "rd m i = (Ok (of_nat n) :: (unit, byte) exec)" "n \<noteq> 0" "n < 256" "hash_bytes m (i + 1) n (hash_char i (of_nat n) h) = Ok h'"
  shows "hash_from m i h = hash_from m (i + 1 + n) h'"
proof -
  have u: "unat (of_nat n :: byte) = n" using assms(3) by (simp add: unat_of_nat)
  then have "(of_nat n :: byte) \<noteq> 0" using assms(2) by auto
  then show ?thesis by (subst hash_from.simps) (simp only: assms(1) exec_bind.simps u if_False assms(4))
qed

lemma hash_from_case:
  assumes "labels_ok a" "lower a = lower b" "length pre = length pre'" "i = length pre"
  shows "\<exists>h'. hash_from (pre @ rhn_of a @ post) i h = Ok h' \<and> hash_from (pre' @ rhn_of b @ post') i h = Ok h'"
  using assms
proof (induction a arbitrary: b pre pre' i h)
  case Nil
  then have "b = []" by (cases b) auto
  then show ?case using Nil by (auto simp: hash_from.simps [of "_ @ _"] rd_def nth_append)
next
  case (Cons l a)
  then obtain l' b' where b: "b = l' # b'" "map tolower l = map tolower l'" "lower a = lower b'" by (cases b) auto
  have len: "length l = length l'" using b(2) by (metis length_map)
  have ll: "length l \<noteq> 0" "length l < 256" using Cons.prems(1) by auto
  have rd: "rd (pre @ rhn_of (l # a) @ post) i = (Ok (of_nat (length l)) :: (unit, byte) exec)" "rd (pre' @ rhn_of b @ post') i = (Ok (of_nat (length l)) :: (unit, byte) exec)"
    using Cons.prems b len by (simp_all add: rd_def nth_append)
  let ?h = "hash_char i (of_nat (length l)) h"
  obtain h' where h': "hash_bytes (pre @ rhn_of (l # a) @ post) (i + 1) (length l) ?h = Ok h'" "hash_bytes (pre' @ rhn_of b @ post') (i + 1) (length l) ?h = Ok h'"
    using hash_bytes_case [OF b(2), of "pre @ [of_nat (length l)]" "pre' @ [of_nat (length l)]" "i + 1" "rhn_of a @ post" ?h "rhn_of b' @ post'"] Cons.prems b(1) len by auto
  have "\<exists>h''. hash_from (pre @ rhn_of (l # a) @ post) (i + 1 + length l) h' = Ok h'' \<and> hash_from (pre' @ rhn_of b @ post') (i + 1 + length l) h' = Ok h''"
    using Cons.IH [OF _ b(3), of "pre @ of_nat (length l) # l" "pre' @ of_nat (length l) # l'" "i + 1 + length l" h'] Cons.prems b(1) len by simp
  moreover have "hash_from (pre @ rhn_of (l # a) @ post) i h = hash_from (pre @ rhn_of (l # a) @ post) (i + 1 + length l) h'"
    "hash_from (pre' @ rhn_of b @ post') i h = hash_from (pre' @ rhn_of b @ post') (i + 1 + length l) h'"
    by (rule hash_from_label [OF rd(1) ll h'(1)], rule hash_from_label [OF rd(2) ll h'(2)])
  ultimately show ?case by metis
qed

lemma fold_mask: "unat (s AND HASH_BITMASK) < HASH_NUM_BUCKETS"
proof -
  have "s AND HASH_BITMASK \<le> HASH_BITMASK" by (rule word_and_le1)
  then show ?thesis by (simp add: word_le_nat_alt HASH_BITMASK_def HASH_NUM_BUCKETS_def HASH_SZ_def)
qed

lemma dns_hash_name:
  assumes "labels_ok a"
  obtains idx rh where "idx < HASH_NUM_BUCKETS" "\<And>b p. lower b = lower a \<Longrightarrow> dns_hash (rhn_of b @ p) = Ok (idx, rh)"
proof -
  obtain h where h: "hash_from (rhn_of a) 0 (0, 0) = Ok h" using hash_from_case [OF assms refl, of "[]" "[]" 0 "[]" "(0, 0)" "[]"] by auto
  have "hash_from (rhn_of b @ p) 0 (0, 0) = Ok h" if "lower b = lower a" for b p
    using hash_from_case [OF assms that [symmetric], of "[]" "[]" 0 "[]" "(0, 0)" p] h by auto
  then show ?thesis using that [of "unat (fold_hash (fold_hash (fst h)) AND HASH_BITMASK)" "snd h"] fold_mask by (simp add: dns_hash_def split_beta)
qed

subsection \<open>The table as a map\<close>

text \<open>The labels of a name in memory.\<close>

function rhn_labels :: "byte list \<Rightarrow> byte list list" where
  "rhn_labels [] = []"
| "rhn_labels (b # m) = (if b = 0 then [] else take (unat b) m # rhn_labels (drop (unat b) m))"
  by pat_completeness auto
termination
  by (relation "measure length") auto

lemma rhn_labels_name [simp]: "labels_ok ls \<Longrightarrow> rhn_labels (rhn_of ls @ p) = ls"
  by (induction ls) auto

definition key_of :: "'a dns_cent_t_scheme \<Rightarrow> byte list list" where
  "key_of c = lower (rhn_labels (qname c))"

definition cent_ok :: "'a dns_cent_t_scheme \<Rightarrow> bool" where
  "cent_ok c \<longleftrightarrow> (\<exists>ls p. name_ok ls \<and> qname c = rhn_of ls @ p)"

definition table :: "'a dns_cent_t_scheme hash_buckets \<Rightarrow> byte list list \<rightharpoonup> 'a dns_cent_t_scheme" where
  "table T = map_of (map (\<lambda>e. (key_of (data e), data e)) (concat T))"

definition chain_ok :: "nat \<Rightarrow> 'a dns_cent_t_scheme dns_hash_ent_t list \<Rightarrow> bool" where
  "chain_ok i ch \<longleftrightarrow> sorted (map rhash ch) \<and> distinct (map (key_of \<circ> data) ch) \<and>
     (\<forall>e \<in> set ch. cent_ok (data e) \<and> dns_hash (qname (data e)) = Ok (i, rhash e))"

definition hash_ok :: "'a dns_cent_t_scheme hash_buckets \<Rightarrow> bool" where
  "hash_ok T \<longleftrightarrow> length T = HASH_NUM_BUCKETS \<and> (\<forall>i < length T. chain_ok i (T ! i))"

text \<open>Where the entry with a key can only be.\<close>

definition chain_map :: "'a dns_cent_t_scheme dns_hash_ent_t list \<Rightarrow> byte list list \<rightharpoonup> 'a dns_cent_t_scheme" where
  "chain_map ch = map_of (map (\<lambda>e. (key_of (data e), data e)) ch)"

lemma table_chains: "table T k = map_of (concat (map (map (\<lambda>e. (key_of (data e), data e))) T)) k"
  by (simp add: table_def map_concat)

lemma cent_hash:
  assumes "cent_ok c"
  shows "\<exists>idx rh. dns_hash (qname c) = Ok (idx, rh) \<and> (\<forall>b p. lower b = key_of c \<longrightarrow> dns_hash (rhn_of b @ p) = Ok (idx, rh)) \<and> idx < HASH_NUM_BUCKETS"
proof -
  obtain ls p where ls: "name_ok ls" "qname c = rhn_of ls @ p" using assms by (auto simp: cent_ok_def)
  then have ok: "labels_ok ls" "key_of c = lower ls" by (simp_all add: name_ok_def key_of_def)
  then show ?thesis using dns_hash_name [OF ok(1)] ls(2) by (metis (no_types, lifting))
qed

lemma chain_map_other:
  assumes "chain_ok i ch" "dns_hash (rhn_of b @ p) = Ok (idx, rh)" "idx \<noteq> i"
  shows "chain_map ch (lower b) = None"
proof -
  have "lower b \<noteq> key_of (data e)" if "e \<in> set ch" for e
    using assms that cent_hash [of "data e"] by (fastforce simp: chain_ok_def)
  then show ?thesis by (force simp: chain_map_def map_of_eq_None_iff)
qed

lemma table_chain:
  assumes "hash_ok T" "dns_hash (rhn_of b @ p) = Ok (idx, rh)" "idx < HASH_NUM_BUCKETS"
  shows "table T (lower b) = chain_map (T ! idx) (lower b)"
proof -
  have T: "length T = HASH_NUM_BUCKETS" "\<And>i. i < length T \<Longrightarrow> chain_ok i (T ! i)" using assms(1) by (simp_all add: hash_ok_def)
  have split: "T = take idx T @ T ! idx # drop (Suc idx) T" using assms(3) T(1) by (simp add: id_take_nth_drop)
  have n: "chain_map ch (lower b) = None" if "ch \<in> set (take idx T) \<union> set (drop (Suc idx) T)" for ch
  proof -
    have "\<exists>i < length T. i \<noteq> idx \<and> ch = T ! i"
    proof (cases "ch \<in> set (take idx T)")
      case True
      then show ?thesis by (auto simp: in_set_conv_nth)
    next
      case False
      then have "ch \<in> set (drop (Suc idx) T)" using that by blast
      then obtain j where j: "j < length T - Suc idx" "ch = T ! (Suc idx + j)" by (auto simp: in_set_conv_nth)
      then have "Suc idx + j < length T" "Suc idx + j \<noteq> idx" by auto
      then show ?thesis using j(2) by blast
    qed
    then show ?thesis using chain_map_other [OF T(2) assms(2)] by metis
  qed
  have none: "chain_map (concat cs) k = None" if "\<And>ch. ch \<in> set cs \<Longrightarrow> chain_map ch k = None" for cs :: "'a dns_cent_t_scheme hash_buckets" and k
    using that by (induction cs) (auto simp: chain_map_def map_add_def)
  have "table T (lower b) = chain_map (concat T) (lower b)" by (simp add: table_def chain_map_def)
  also have "concat T = concat (take idx T) @ T ! idx @ concat (drop (Suc idx) T)" by (subst split) simp
  finally show ?thesis using none [of "take idx T" "lower b"] none [of "drop (Suc idx) T" "lower b"] n
    by (simp add: chain_map_def map_add_def split: option.splits)
qed

subsection \<open>Lookup\<close>

lemma dns_hash_lower: "labels_ok a \<Longrightarrow> lower b = lower a \<Longrightarrow> dns_hash (rhn_of b @ q) = dns_hash (rhn_of a @ p)"
  by (metis dns_hash_name)

lemma chain_ok_Cons: "chain_ok i (e # ch) \<Longrightarrow> chain_ok i ch"
  by (simp add: chain_ok_def)

lemma find_ent_name:
  assumes "chain_ok i ch" "labels_ok a" "dns_hash (rhn_of a @ p) = Ok (i, rh)"
  shows "\<exists>k. find_ent (rhn_of a @ p) rh ch j = Ok (chain_map ch (lower a), j + k) \<and> k \<le> length ch \<and>
     (\<forall>e \<in> set (take k ch). rhash e \<le> rh \<and> key_of (data e) \<noteq> lower a) \<and>
     (case chain_map ch (lower a) of None \<Rightarrow> \<forall>e \<in> set (drop k ch). rh < rhash e | Some c \<Rightarrow> k < length ch \<and> data (ch ! k) = c)"
  using assms(1)
proof (induction ch arbitrary: j)
  case (Cons e ch)
  obtain ls q where ls: "name_ok ls" "qname (data e) = rhn_of ls @ q" using Cons.prems by (auto simp: chain_ok_def cent_ok_def)
  then have key: "key_of (data e) = lower ls" "labels_ok ls" by (simp_all add: key_of_def name_ok_def)
  have cmp: "rhnicmp (rhn_of a @ p) (qname (data e)) = Ok (key_of (data e) = lower a)" using rhnicmp_name [OF assms(2) key(2)] key ls(2) by auto
  have eh: "dns_hash (qname (data e)) = Ok (i, rhash e)" using Cons.prems by (simp add: chain_ok_def)
  have rh: "rhash e = rh" if "key_of (data e) = lower a" using dns_hash_lower [OF assms(2), of ls q p] that key(1) ls(2) eh assms(3) by simp
  have srt: "rhash e \<le> rhash x" if "x \<in> set ch" for x using Cons.prems that by (simp add: chain_ok_def)
  have none: "chain_map ch (lower a) = None" if "rh < rhash e"
  proof -
    have "key_of (data x) \<noteq> lower a" if x: "x \<in> set ch" for x
    proof
      assume k: "key_of (data x) = lower a"
      have "cent_ok (data x)" "dns_hash (qname (data x)) = Ok (i, rhash x)" using Cons.prems x by (simp_all add: chain_ok_def)
      then have "rhash x = rh" using cent_hash [of "data x"] k assms(3) by fastforce
      then show False using srt [OF x] \<open>rh < rhash e\<close> by simp
    qed
    then show ?thesis by (force simp: chain_map_def map_of_eq_None_iff)
  qed
  have map: "chain_map (e # ch) (lower a) = (if key_of (data e) = lower a then Some (data e) else chain_map ch (lower a))" by (simp add: chain_map_def)
  consider (later) "rh < rhash e" | (here) "key_of (data e) = lower a" "rhash e = rh" | (on) "rhash e \<le> rh" "key_of (data e) \<noteq> lower a"
    using rh by (cases "rh < rhash e") (auto simp: not_less)
  then show ?case
  proof cases
    case later
    then have "key_of (data e) \<noteq> lower a" using rh by auto
    then show ?thesis using later none map less_le_trans [OF later srt] by (intro exI [of _ 0]) (auto simp: not_le)
  next
    case here
    then show ?thesis using map cmp by (intro exI [of _ 0]) auto
  next
    case on
    obtain k where k: "find_ent (rhn_of a @ p) rh ch (j + 1) = Ok (chain_map ch (lower a), j + 1 + k)" "k \<le> length ch"
       "\<forall>e \<in> set (take k ch). rhash e \<le> rh \<and> key_of (data e) \<noteq> lower a"
       "case chain_map ch (lower a) of None \<Rightarrow> \<forall>e \<in> set (drop k ch). rh < rhash e | Some c \<Rightarrow> k < length ch \<and> data (ch ! k) = c"
      using Cons.IH [OF chain_ok_Cons [OF Cons.prems]] by blast
    have "find_ent (rhn_of a @ p) rh (e # ch) j = find_ent (rhn_of a @ p) rh ch (j + 1)" using on cmp by simp
    then show ?thesis using k on map by (intro exI [of _ "Suc k"]) (auto split: option.splits)
  qed
qed (simp add: chain_map_def)

text \<open>Where an entry with a key belongs: the position that a lookup returns.\<close>

definition loc_for :: "'a dns_cent_t_scheme hash_buckets \<Rightarrow> byte list list \<Rightarrow> dns_hash_loc_t \<Rightarrow> bool" where
  "loc_for T k loc \<longleftrightarrow> loc_bucket loc < HASH_NUM_BUCKETS \<and> loc_pos loc \<le> length (T ! loc_bucket loc) \<and>
     (\<forall>b p. lower b = k \<longrightarrow> dns_hash (rhn_of b @ p) = Ok (loc_bucket loc, loc_rhash loc)) \<and>
     (\<forall>e \<in> set (take (loc_pos loc) (T ! loc_bucket loc)). rhash e \<le> loc_rhash loc \<and> key_of (data e) \<noteq> k) \<and>
     (case table T k of None \<Rightarrow> \<forall>e \<in> set (drop (loc_pos loc) (T ! loc_bucket loc)). loc_rhash loc < rhash e
      | Some c \<Rightarrow> loc_pos loc < length (T ! loc_bucket loc) \<and> data (T ! loc_bucket loc ! loc_pos loc) = c)"

lemma dns_lookup_name:
  assumes "hash_ok T" "labels_ok a"
  shows "\<exists>loc. dns_lookup T (rhn_of a @ p) = Ok (table T (lower a), loc) \<and> loc_for T (lower a) loc"
proof -
  obtain idx rh where h: "idx < HASH_NUM_BUCKETS" "\<And>b p. lower b = lower a \<Longrightarrow> dns_hash (rhn_of b @ p) = Ok (idx, rh)"
    using dns_hash_name [OF assms(2)] by blast
  have T: "length T = HASH_NUM_BUCKETS" "chain_ok idx (T ! idx)" using assms(1) h(1) by (simp_all add: hash_ok_def)
  obtain k where k: "find_ent (rhn_of a @ p) rh (T ! idx) 0 = Ok (chain_map (T ! idx) (lower a), k)" "k \<le> length (T ! idx)"
     "\<forall>e \<in> set (take k (T ! idx)). rhash e \<le> rh \<and> key_of (data e) \<noteq> lower a"
     "case chain_map (T ! idx) (lower a) of None \<Rightarrow> \<forall>e \<in> set (drop k (T ! idx)). rh < rhash e | Some c \<Rightarrow> k < length (T ! idx) \<and> data (T ! idx ! k) = c"
    using find_ent_name [OF T(2) assms(2) h(2) [OF refl], of p 0] by auto
  have t: "table T (lower a) = chain_map (T ! idx) (lower a)" by (rule table_chain [OF assms(1) h(2) [OF refl] h(1)])
  show ?thesis using h k T t by (intro exI [of _ "\<lparr>loc_bucket = idx, loc_pos = k, loc_rhash = rh\<rparr>"])
    (auto simp: dns_lookup_def chain_def loc_for_def split: option.splits)
qed

subsection \<open>Insertion and removal\<close>

lemma hash_ok_update:
  assumes "hash_ok T" "chain_ok i ch"
  shows "hash_ok (T[i := ch])"
proof -
  have "chain_ok j (T[i := ch] ! j)" if "j < length T" for j using assms that by (cases "j = i") (simp_all add: hash_ok_def)
  then show ?thesis using assms(1) by (simp add: hash_ok_def)
qed

lemma chain_map_append: "chain_map (xs @ ys) k = (case chain_map xs k of None \<Rightarrow> chain_map ys k | Some c \<Rightarrow> Some c)"
  by (simp add: chain_map_def map_add_def split: option.splits)

lemma chain_map_Cons: "chain_map (e # ys) k = (if k = key_of (data e) then Some (data e) else chain_map ys k)"
  by (simp add: chain_map_def)

lemma chain_map_None: "chain_map ch k = None \<longleftrightarrow> (\<forall>e \<in> set ch. key_of (data e) \<noteq> k)"
  by (force simp: chain_map_def map_of_eq_None_iff)

lemma table_key:
  assumes "hash_ok T" "table T k = Some c"
  shows "\<exists>b. labels_ok b \<and> k = lower b"
proof -
  have "chain_map (concat T) k \<noteq> None" using assms(2) by (simp add: table_def chain_map_def)
  then obtain e where e: "e \<in> set (concat T)" "k = key_of (data e)" by (auto simp: chain_map_None simp del: set_concat)
  then obtain ch where "ch \<in> set T" "e \<in> set ch" by auto
  moreover then obtain i where "i < length T" "T ! i = ch" by (auto simp: in_set_conv_nth)
  ultimately have "i < length T" "e \<in> set (T ! i)" by simp_all
  then have "cent_ok (data e)" using assms(1) by (auto simp: hash_ok_def chain_ok_def)
  then show ?thesis using e(2) by (auto simp: cent_ok_def key_of_def name_ok_def)
qed

text \<open>A change of one chain that changes the entry for the key \<open>lower a\<close> only changes the table there only.\<close>

lemma table_update:
  assumes T: "hash_ok T" and ok: "chain_ok i ch" and i: "i < HASH_NUM_BUCKETS" and a: "labels_ok a" "dns_hash (rhn_of a @ p) = Ok (i, rh)"
    and ch: "\<And>k. chain_map ch k = (if k = lower a then x else chain_map (T ! i) k)"
  shows "table (T[i := ch]) = (table T)(lower a := x)"
proof
  fix k
  note T' = hash_ok_update [OF T ok]
  have len: "i < length T" using T i by (simp add: hash_ok_def)
  show "table (T[i := ch]) k = ((table T)(lower a := x)) k"
  proof (cases "\<exists>b. labels_ok b \<and> k = lower b")
    case True
    then obtain b where b: "labels_ok b" "k = lower b" by blast
    obtain j rh' where h': "j < HASH_NUM_BUCKETS" "\<And>c q. lower c = lower b \<Longrightarrow> dns_hash (rhn_of c @ q) = Ok (j, rh')" using dns_hash_name [OF b(1)] by blast
    note h = h'(1) h'(2) [OF refl, of p]
    have t: "table (T[i := ch]) k = chain_map (T[i := ch] ! j) k" "table T k = chain_map (T ! j) k"
      unfolding b(2) by (rule table_chain [OF T' h(2,1)], rule table_chain [OF T h(2,1)])
    have "j = i" if "k = lower a" using dns_hash_lower [OF a(1), of b p p] that b(2) a(2) h(2) by simp
    then show ?thesis using t ch [of k] len by (cases "j = i") auto
  next
    case False
    then have "table T k = None" "table (T[i := ch]) k = None" using table_key [OF T] table_key [OF T'] by (meson not_None_eq)+
    moreover have "k \<noteq> lower a" using False a(1) by blast
    ultimately show ?thesis by simp
  qed
qed

lemma chain_ok_add:
  assumes "chain_ok i (xs @ ys)" "cent_ok d" "dns_hash (qname d) = Ok (i, r)" "chain_map (xs @ ys) (key_of d) = None"
    "\<forall>e \<in> set xs. rhash e \<le> r" "\<forall>e \<in> set ys. r < rhash e"
  shows "chain_ok i (xs @ \<lparr>rhash = r, data = d\<rparr> # ys)"
  using assms by (auto simp: chain_ok_def chain_map_None sorted_append intro: less_imp_le)

lemma chain_ok_remove: "chain_ok i (xs @ e # ys) \<Longrightarrow> chain_ok i (xs @ ys)"
  by (auto simp: chain_ok_def sorted_append)

lemma chain_map_remove:
  assumes "chain_ok i (xs @ e # ys)"
  shows "chain_map (xs @ ys) k = (if k = key_of (data e) then None else chain_map (xs @ e # ys) k)"
proof (cases "k = key_of (data e)")
  case True
  have "key_of (data e) \<notin> (\<lambda>x. key_of (data x)) ` set (xs @ ys)" using assms by (auto simp: chain_ok_def simp del: image_iff)
  then have "chain_map (xs @ ys) k = None" unfolding chain_map_None True by (metis imageI)
  then show ?thesis using True by simp
qed (simp add: chain_map_append chain_map_Cons cong: option.case_cong)

lemma cent_name:
  assumes "cent_ok d"
  obtains ls p where "labels_ok ls" "qname d = rhn_of ls @ p" "key_of d = lower ls"
  using assms that by (force simp: cent_ok_def key_of_def name_ok_def)

lemma add_dns_hash_name:
  assumes T: "hash_ok T" and d: "cent_ok d" and loc: "loc_for T (key_of d) loc" "table T (key_of d) = None"
  shows "\<exists>T'. add_dns_hash True T d loc = Ok T' \<and> hash_ok T' \<and> table T' = (table T)(key_of d \<mapsto> d)"
proof -
  let ?i = "loc_bucket loc" and ?r = "loc_rhash loc"
  let ?e = "\<lparr>rhash = ?r, data = d\<rparr>"
  define xs where "xs = take (loc_pos loc) (T ! ?i)"
  define ys where "ys = drop (loc_pos loc) (T ! ?i)"
  have ch: "T ! ?i = xs @ ys" by (simp add: xs_def ys_def)
  have i: "?i < length T" "?i < HASH_NUM_BUCKETS" using T loc(1) by (simp_all add: hash_ok_def loc_for_def)
  obtain ls p where ls: "labels_ok ls" "qname d = rhn_of ls @ p" "key_of d = lower ls" using d by (rule cent_name)
  have h: "dns_hash (rhn_of ls @ p) = Ok (?i, ?r)" using loc(1) ls(3) by (simp add: loc_for_def)
  have none: "chain_map (xs @ ys) (key_of d) = None" using table_chain [OF T h i(2)] loc(2) ls(3) ch by simp
  have bnd: "\<forall>e \<in> set xs. rhash e \<le> ?r" "\<forall>e \<in> set ys. ?r < rhash e" using loc by (auto simp: loc_for_def xs_def ys_def)
  have "chain_ok ?i (xs @ ys)" using T i ch by (metis hash_ok_def)
  then have ok: "chain_ok ?i (xs @ ?e # ys)" using chain_ok_add d h ls(2) none bnd by metis
  have "chain_map (xs @ ?e # ys) k = (if k = lower ls then Some d else chain_map (T ! ?i) k)" for k
    using none by (auto simp: ch chain_map_append chain_map_Cons ls(3) split: option.splits)
  then have "table (T[?i := xs @ ?e # ys]) = (table T)(lower ls \<mapsto> d)" by (rule table_update [OF T ok i(2) ls(1) h])
  then show ?thesis using i hash_ok_update [OF T ok] ls(3) by (simp add: add_dns_hash_def chain_def flip: xs_def ys_def)
qed

text \<open>Removing the entry at the position of a name.\<close>

lemma remove_at:
  assumes T: "hash_ok T" and a: "labels_ok a" "dns_hash (rhn_of a @ p) = Ok (i, rh)" "i < HASH_NUM_BUCKETS"
    and n: "n < length (T ! i)" "data (T ! i ! n) = c" "table T (lower a) = Some c"
  shows "hash_ok (T[i := take n (T ! i) @ drop (n + 1) (T ! i)]) \<and> table (T[i := take n (T ! i) @ drop (n + 1) (T ! i)]) = (table T)(lower a := None)"
proof -
  let ?xs = "take n (T ! i)" and ?e = "T ! i ! n" and ?ys = "drop (n + 1) (T ! i)"
  have ch: "T ! i = ?xs @ ?e # ?ys" using n(1) by (simp add: id_take_nth_drop)
  have "chain_ok i (T ! i)" using T a(3) by (simp add: hash_ok_def)
  then have ok: "chain_ok i (?xs @ ?e # ?ys)" using ch by metis
  have "map_of (map (\<lambda>e. (key_of (data e), data e)) (concat T)) (lower a) = Some c" using n(3) by (simp add: table_def)
  then have key: "key_of c = lower a" by (auto dest!: map_of_SomeD)
  have "chain_map (?xs @ ?ys) k = (if k = lower a then None else chain_map (T ! i) k)" for k
    using chain_map_remove [OF ok, of k] ch key n(2) by metis
  then show ?thesis using table_update [OF T chain_ok_remove [OF ok] a(3,1,2)] hash_ok_update [OF T chain_ok_remove [OF ok]] by auto
qed

lemma del_dns_hash_ent_name:
  assumes T: "hash_ok T" and a: "labels_ok a" and loc: "loc_for T (lower a) loc" "table T (lower a) = Some c"
  shows "\<exists>T'. del_dns_hash_ent T loc = Ok (T', c) \<and> hash_ok T' \<and> table T' = (table T)(lower a := None)"
proof -
  have l: "loc_bucket loc < HASH_NUM_BUCKETS" "dns_hash (rhn_of a @ [0]) = Ok (loc_bucket loc, loc_rhash loc)"
    "loc_pos loc < length (T ! loc_bucket loc)" "data (T ! loc_bucket loc ! loc_pos loc) = c" using loc by (auto simp: loc_for_def)
  then show ?thesis using remove_at [OF T a l(2,1,3,4) loc(2)] T by (simp add: del_dns_hash_ent_def chain_def hash_ok_def)
qed

lemma del_dns_hash_lookup:
  "del_dns_hash T key = exec_bind (dns_lookup T key) (\<lambda>(ret, loc). case ret of None \<Rightarrow> Ok (T, None)
     | Some d \<Rightarrow> Ok (T[loc_bucket loc := take (loc_pos loc) (T ! loc_bucket loc) @ drop (loc_pos loc + 1) (T ! loc_bucket loc)], Some d))"
proof (cases "dns_hash key")
  case (Ok r)
  then show ?thesis by (cases r; cases "find_ent key (snd r) (T ! fst r) 0") (auto simp: del_dns_hash_def dns_lookup_def chain_def split: option.splits)
qed (simp_all add: del_dns_hash_def dns_lookup_def)

lemma del_dns_hash_name:
  assumes T: "hash_ok T" and a: "labels_ok a"
  shows "\<exists>T'. del_dns_hash T (rhn_of a @ p) = Ok (T', table T (lower a)) \<and> hash_ok T' \<and> table T' = (table T)(lower a := None)"
proof -
  obtain loc where loc: "dns_lookup T (rhn_of a @ p) = Ok (table T (lower a), loc)" "loc_for T (lower a) loc" using dns_lookup_name [OF assms] by blast
  show ?thesis
  proof (cases "table T (lower a)")
    case None
    then show ?thesis using loc(1) T by (auto simp: del_dns_hash_lookup)
  next
    case (Some c)
    then have l: "loc_bucket loc < HASH_NUM_BUCKETS" "dns_hash (rhn_of a @ [0]) = Ok (loc_bucket loc, loc_rhash loc)"
      "loc_pos loc < length (T ! loc_bucket loc)" "data (T ! loc_bucket loc ! loc_pos loc) = c" using loc by (auto simp: loc_for_def)
    show ?thesis using remove_at [OF T a l(2,1,3,4) Some] loc(1) Some by (simp add: del_dns_hash_lookup)
  qed
qed

subsection \<open>Clearing the table\<close>

text \<open>A selection list in terms of labels: whether the first entry that covers the name is an include.  A domain covers the names that end with it.\<close>

definition covers :: "byte list list \<Rightarrow> byte list list \<Rightarrow> bool \<Rightarrow> bool" where
  "covers d a exact \<longleftrightarrow> (if exact then lower a = lower d else suffix (lower d) (lower a))"

fun picks :: "byte list list \<Rightarrow> (byte list list \<times> bool \<times> bool) list \<Rightarrow> bool" where
  "picks a [] = False"
| "picks a ((d, exact, inc) # ds) = (if covers d a exact then inc else picks a ds)"

definition slist_of :: "byte list list \<times> bool \<times> bool \<Rightarrow> slist_t" where
  "slist_of s = (case s of (d, exact, inc) \<Rightarrow> \<lparr>sl_domain = rhn_of d, sl_exact = exact, sl_included = inc\<rparr>)"

lemma covers_matchlen: "covers d a exact \<longleftrightarrow> matchlen a d = length d \<and> (\<not> exact \<or> matchlen a d = length a)"
proof -
  have l: "length (lower a) = length a" "length (lower d) = length d" by simp_all
  have "suffix (lower d) (lower a) \<longleftrightarrow> length d \<le> length a \<and> lower (drop (length a - length d) a) = lower d"
  proof
    assume "suffix (lower d) (lower a)"
    then obtain zs where z: "lower a = zs @ lower d" by (auto simp: suffix_def)
    then have len: "length a = length zs + length d" by (metis l length_append)
    then have "drop (length a - length d) (lower a) = lower d" using z by simp
    then show "length d \<le> length a \<and> lower (drop (length a - length d) a) = lower d" using len by (simp add: drop_map)
  next
    assume "length d \<le> length a \<and> lower (drop (length a - length d) a) = lower d"
    then show "suffix (lower d) (lower a)" using suffix_drop [of "length a - length d" "lower a"] by simp
  qed
  also have "\<dots> \<longleftrightarrow> matchlen a d = length d"
    using matchlen_iff [of "length d" a d] matchlen_le [of a d] by (cases "length d \<le> length a") auto
  finally have s: "suffix (lower d) (lower a) \<longleftrightarrow> matchlen a d = length d" .
  have eq: "lower a = lower d" if "suffix (lower d) (lower a)" "length a = length d"
  proof -
    note t = that
    obtain zs where z: "lower a = zs @ lower d" using t(1) by (auto simp: suffix_def)
    then have "length zs = 0" using t(2) l by (metis add_cancel_left_left length_append)
    then show ?thesis using z by simp
  qed
  have "lower a = lower d \<longleftrightarrow> suffix (lower d) (lower a) \<and> length a = length d" using eq l by (metis suffix_order.order_refl)
  then show ?thesis using s by (auto simp: covers_def)
qed

lemma hdr_empty: "k \<le> length a \<Longrightarrow> rhn_hdr (take (length a - k) a) = [] \<longleftrightarrow> k = length a"
  by (cases a; cases "length a - k") auto

lemma selected_name:
  assumes "name_ok a" "\<forall>s \<in> set ds. name_ok (fst s)"
  shows "selected (rhn_of a @ p) (map slist_of ds) = Ok (picks a ds)"
  using assms(2)
proof (induction ds)
  case (Cons s ds)
  obtain d exact inc where s: "s = (d, exact, inc)" by (cases s)
  have "name_ok d" using Cons.prems s by simp
  then have m: "domain_match (rhn_of a @ p) (rhn_of d) =
      Ok (matchlen a d, length (rhn_hdr (take (length a - matchlen a d) a)), length (rhn_hdr (take (length d - matchlen a d) d)))"
    using domain_match_name [OF assms(1), of d p "[]"] by simp
  show ?case using Cons s m hdr_empty [OF matchlen_le(1), of a d] hdr_empty [OF matchlen_le(2) [of a d]] covers_matchlen [of d a exact]
    by (auto simp: slist_of_def)
qed simp

lemma free_selected_chain:
  assumes "\<forall>e \<in> set ch. selected (qname (data e)) sla = Ok (P (data e))"
  shows "free_selected sla ch = Ok (filter (\<lambda>e. \<not> P (data e)) ch, filter P (map data ch))"
  using assms by (induction ch) auto

lemma chain_ok_filter: "chain_ok i ch \<Longrightarrow> chain_ok i (filter P ch)"
  by (auto simp: chain_ok_def sorted_filter distinct_map_filter)

subsection \<open>Iteration\<close>

lemma first_from_result:
  assumes "length T = i + n" "F [] = []"
  shows "(first_from T i n = None \<and> concat (drop i T) = [] \<and> take i T @ map F (drop i T) = T) \<or>
    (\<exists>j e ys. first_from T i n = Some (\<lparr>pos_bucket = j, pos_ent = length ys\<rparr>, data e) \<and> j < length T \<and> T ! j = e # ys \<and>
      concat (drop i T) = e # ys @ concat (drop (j + 1) T) \<and> take i T @ map F (drop i T) = take j T @ map F (drop j T))"
  using assms(1)
proof (induction n arbitrary: i)
  case (Suc n)
  have d: "drop i T = T ! i # drop (i + 1) T" using Suc.prems by (simp add: Cons_nth_drop_Suc)
  show ?case
  proof (cases "T ! i")
    case Nil
    have "take i T @ map F (drop i T) = take (i + 1) T @ map F (drop (i + 1) T)" using d Nil assms(2) Suc.prems by (simp add: take_Suc_conv_app_nth)
    moreover have "first_from T i (Suc n) = first_from T (i + 1) n" "concat (drop i T) = concat (drop (i + 1) T)" using Nil d by simp_all
    ultimately show ?thesis using Suc.IH [of "i + 1"] Suc.prems by (simp only: add_Suc_right add_Suc add_0_right One_nat_def)
  next
    case (Cons e ys)
    then show ?thesis using d Suc.prems by (intro disjI2 exI [of _ i] exI [of _ e] exI [of _ ys]) simp
  qed
qed simp

text \<open>Removing by name the entry at a known place.\<close>

lemma del_dns_hash_at:
  assumes T: "hash_ok T" and b: "b < HASH_NUM_BUCKETS" "T ! b = xs @ e # ys"
  shows "del_dns_hash T (qname (data e)) = Ok (T[b := xs @ ys], Some (data e))"
proof -
  have ok: "chain_ok b (xs @ e # ys)" using T b by (metis hash_ok_def)
  have e: "cent_ok (data e)" "dns_hash (qname (data e)) = Ok (b, rhash e)" using ok by (simp_all add: chain_ok_def)
  obtain ls p where ls: "labels_ok ls" "qname (data e) = rhn_of ls @ p" "key_of (data e) = lower ls" using e(1) by (rule cent_name)
  have h: "dns_hash (rhn_of ls @ p) = Ok (b, rhash e)" using e(2) ls(2) by simp
  have "key_of (data e) \<notin> (\<lambda>x. key_of (data x)) ` set xs" using ok by (auto simp: chain_ok_def simp del: image_iff)
  then have "chain_map xs (lower ls) = None" unfolding chain_map_None ls(3) [symmetric] by (metis imageI)
  then have m: "chain_map (xs @ e # ys) (lower ls) = Some (data e)" using ls(3) by (simp add: chain_map_append chain_map_Cons)
  obtain k where k: "find_ent (rhn_of ls @ p) (rhash e) (xs @ e # ys) 0 = Ok (Some (data e), k)" "k < length (xs @ e # ys)" "data ((xs @ e # ys) ! k) = data e"
    using find_ent_name [OF ok ls(1) h, of 0] m by auto
  have dist: "distinct (map (key_of \<circ> data) (xs @ e # ys))" using ok by (simp add: chain_ok_def)
  have "map (key_of \<circ> data) (xs @ e # ys) ! k = map (key_of \<circ> data) (xs @ e # ys) ! length xs" using k(2,3) by (subst (1 2) nth_map) simp_all
  then have "k = length xs" using nth_eq_iff_index_eq [OF dist, of k "length xs"] k(2) by simp
  then show ?thesis using k(1) ls(2) h b T by (simp add: del_dns_hash_def chain_def hash_ok_def)
qed

text \<open>A loop over all entries that removes, by name, those that it wants to remove while it goes.\<close>

fun sweep :: "('a dns_cent_t_scheme \<Rightarrow> bool) \<Rightarrow> nat \<Rightarrow> 'a dns_cent_t_scheme hash_buckets \<Rightarrow> (dns_hash_pos_t \<times> 'a dns_cent_t_scheme) option \<Rightarrow>
    (unit, 'a dns_cent_t_scheme hash_buckets \<times> 'a dns_cent_t_scheme list) exec" where
  "sweep del n T None = Ok (T, [])"
| "sweep del 0 T (Some pc) = Fault"
| "sweep del (Suc n) T (Some (p, c)) =
     exec_bind (if del c then exec_bind (del_dns_hash T (qname c)) (\<lambda>(T', _). Ok T') else Ok T) (\<lambda>T'.
     exec_bind (sweep del n T' (fetch_next T' p)) (\<lambda>(T'', seen). Ok (T'', c # seen)))"

lemma sweep_from:
  assumes "hash_ok T" "b < HASH_NUM_BUCKETS" "T ! b = xs @ e # ys" "length (e # ys @ concat (drop (b + 1) T)) \<le> n"
  shows "sweep del n T (Some (\<lparr>pos_bucket = b, pos_ent = length ys\<rparr>, data e)) =
    Ok (take b T @ (xs @ filter (\<lambda>e. \<not> del (data e)) (e # ys)) # map (filter (\<lambda>e. \<not> del (data e))) (drop (b + 1) T),
        map data (e # ys @ concat (drop (b + 1) T)))"
  using assms
proof (induction n arbitrary: T b xs e ys)
  case (Suc n)
  let ?F = "filter (\<lambda>e. \<not> del (data e))"
  define xs' where "xs' = (if del (data e) then xs else xs @ [e])"
  define T' where "T' = T[b := xs' @ ys]"
  have len: "b < length T" using Suc.prems(1,2) by (simp add: hash_ok_def)
  have same: "T[b := xs @ e # ys] = T" using Suc.prems(3) by (metis list_update_id)
  then have del: "(if del (data e) then exec_bind (del_dns_hash T (qname (data e))) (\<lambda>(T', _). Ok T') else Ok T) = Ok T'"
    using del_dns_hash_at [OF Suc.prems(1-3)] by (simp add: T'_def xs'_def)
  have "chain_ok b (xs @ e # ys)" using Suc.prems by (metis hash_ok_def len)
  then have "chain_ok b (xs' @ ys)" using chain_ok_remove by (auto simp: xs'_def)
  then have ok: "hash_ok T'" using hash_ok_update [OF Suc.prems(1)] by (simp add: T'_def)
  have T': "length T' = HASH_NUM_BUCKETS" "T' ! b = xs' @ ys" "drop (b + 1) T' = drop (b + 1) T" "take b T' = take b T"
    using len Suc.prems(1) by (simp_all add: T'_def hash_ok_def)
  have "sweep del n T' (fetch_next T' \<lparr>pos_bucket = b, pos_ent = length ys\<rparr>) =
      Ok (take b T @ (xs' @ ?F ys) # map ?F (drop (b + 1) T), map data (ys @ concat (drop (b + 1) T)))"
  proof (cases ys)
    case Nil
    let ?n = "HASH_NUM_BUCKETS - (b + 1)"
    have f: "fetch_next T' \<lparr>pos_bucket = b, pos_ent = length ys\<rparr> = first_from T' (b + 1) ?n" using Nil by (simp add: fetch_next_def)
    have tk: "take (b + 1) T' = take b T @ [xs']" using T' Nil Suc.prems(2) by (simp add: take_Suc_conv_app_nth)
    have "length T' = (b + 1) + ?n" using T'(1) Suc.prems(2) by simp
    from first_from_result [where F = ?F, OF this]
    consider (none) "first_from T' (b + 1) ?n = None" "concat (drop (b + 1) T') = []" "take (b + 1) T' @ map ?F (drop (b + 1) T') = T'"
      | (some) j e' ys' where "first_from T' (b + 1) ?n = Some (\<lparr>pos_bucket = j, pos_ent = length ys'\<rparr>, data e')" "j < length T'" "T' ! j = e' # ys'"
         "concat (drop (b + 1) T') = e' # ys' @ concat (drop (j + 1) T')" "take (b + 1) T' @ map ?F (drop (b + 1) T') = take j T' @ map ?F (drop j T')" by auto
    then show ?thesis
    proof cases
      case none
      then show ?thesis using f tk T'(3) Nil by simp
    next
      case some
      have j: "drop j T' = (e' # ys') # drop (j + 1) T'" using some(2,3) by (metis Cons_nth_drop_Suc Suc_eq_plus1)
      have "sweep del n T' (Some (\<lparr>pos_bucket = j, pos_ent = length ys'\<rparr>, data e')) =
          Ok (take j T' @ ([] @ ?F (e' # ys')) # map ?F (drop (j + 1) T'), map data (e' # ys' @ concat (drop (j + 1) T')))"
        by (rule Suc.IH [OF ok]) (use some T' Suc.prems(4) Nil in auto)
      moreover have "take j T' @ ([] @ ?F (e' # ys')) # map ?F (drop (j + 1) T') = take b T @ (xs' @ ?F ys) # map ?F (drop (b + 1) T)"
        using some(5) tk T'(3) Nil by (simp add: j)
      moreover have "e' # ys' @ concat (drop (j + 1) T') = ys @ concat (drop (b + 1) T)" using some(4) T'(3) Nil by simp
      ultimately show ?thesis using f some(1) by (simp only:)
    qed
  next
    case (Cons e' ys')
    have "fetch_next T' \<lparr>pos_bucket = b, pos_ent = length ys\<rparr> = Some (\<lparr>pos_bucket = b, pos_ent = length ys'\<rparr>, data e')"
      using T'(2) Cons by (simp add: fetch_next_def nth_append)
    moreover have "sweep del n T' (Some (\<lparr>pos_bucket = b, pos_ent = length ys'\<rparr>, data e')) =
        Ok (take b T' @ (xs' @ ?F (e' # ys')) # map ?F (drop (b + 1) T'), map data (e' # ys' @ concat (drop (b + 1) T')))"
      by (rule Suc.IH [OF ok Suc.prems(2)]) (use T' Cons Suc.prems(4) in auto)
    ultimately show ?thesis using T' Cons by simp
  qed
  moreover have "xs' @ ?F ys = xs @ ?F (e # ys)" by (simp add: xs'_def)
  ultimately show ?case using del by simp
qed simp

subsection \<open>The table as an abstract map\<close>

text \<open>
  Operations with a fallible step that refines a total one: what the client of the table relies on.
\<close>

locale exec_refinement =
  fixes step :: "'s \<Rightarrow> 'o \<Rightarrow> (unit, 's \<times> 'r) exec" and spec :: "'m \<Rightarrow> 'o \<Rightarrow> 'm \<times> 'r"
    and ok :: "'s \<Rightarrow> bool" and abs :: "'s \<Rightarrow> 'm" and op_ok :: "'o \<Rightarrow> bool"
  assumes step_spec: "ok s \<Longrightarrow> op_ok x \<Longrightarrow> \<exists>s'. step s x = Ok (s', snd (spec (abs s) x)) \<and> ok s' \<and> abs s' = fst (spec (abs s) x)"

fun exec_run :: "('s \<Rightarrow> 'o \<Rightarrow> (unit, 's \<times> 'r) exec) \<Rightarrow> 's \<Rightarrow> 'o list \<Rightarrow> (unit, 's \<times> 'r list) exec" where
  "exec_run step s [] = Ok (s, [])"
| "exec_run step s (x # xs) = exec_bind (step s x) (\<lambda>(s', r). exec_bind (exec_run step s' xs) (\<lambda>(s'', rs). Ok (s'', r # rs)))"

fun spec_run :: "('m \<Rightarrow> 'o \<Rightarrow> 'm \<times> 'r) \<Rightarrow> 'm \<Rightarrow> 'o list \<Rightarrow> 'm \<times> 'r list" where
  "spec_run spec m [] = (m, [])"
| "spec_run spec m (x # xs) = (case spec m x of (m', r) \<Rightarrow> case spec_run spec m' xs of (m'', rs) \<Rightarrow> (m'', r # rs))"

context exec_refinement
begin

lemma run_spec:
  assumes "ok s" "\<forall>x \<in> set xs. op_ok x"
  shows "\<exists>s'. exec_run step s xs = Ok (s', snd (spec_run spec (abs s) xs)) \<and> ok s' \<and> abs s' = fst (spec_run spec (abs s) xs)"
  using assms
proof (induction xs arbitrary: s)
  case (Cons x xs)
  obtain s1 where s1: "step s x = Ok (s1, snd (spec (abs s) x))" "ok s1" "abs s1 = fst (spec (abs s) x)" using step_spec Cons.prems by force
  obtain s2 where "exec_run step s1 xs = Ok (s2, snd (spec_run spec (abs s1) xs))" "ok s2" "abs s2 = fst (spec_run spec (abs s1) xs)"
    using Cons.IH [OF s1(2)] Cons.prems by force
  then show ?case using s1 by (auto simp: split_beta)
qed simp

end

text \<open>
  What the cache does with the table: store an entry under its name unless there is one
  (\<^verbatim>\<open>dns_lookup\<close>, then \<^verbatim>\<open>add_dns_hash\<close>, which may run out of memory), find an entry, and remove one, either by name or at the
  place that a lookup found.
\<close>

datatype 'c hash_op = Store bool 'c | Find "byte list" | Remove "byte list" | RemoveAt "byte list"

fun hash_step :: "'a dns_cent_t_scheme hash_buckets \<Rightarrow> 'a dns_cent_t_scheme hash_op \<Rightarrow> (unit, 'a dns_cent_t_scheme hash_buckets \<times> 'a dns_cent_t_scheme option) exec" where
  "hash_step T (Store alloc c) = exec_bind (dns_lookup T (qname c)) (\<lambda>(ret, loc).
     if ret = None then (case add_dns_hash alloc T c loc of Fault \<Rightarrow> Fault | Fail _ \<Rightarrow> Ok (T, None) | Ok T' \<Rightarrow> Ok (T', None)) else Ok (T, ret))"
| "hash_step T (Find n) = exec_bind (dns_lookup T n) (\<lambda>(ret, loc). Ok (T, ret))"
| "hash_step T (Remove n) = del_dns_hash T n"
| "hash_step T (RemoveAt n) = exec_bind (dns_lookup T n) (\<lambda>(ret, loc).
     if ret = None then Ok (T, None) else exec_bind (del_dns_hash_ent T loc) (\<lambda>(T', c). Ok (T', Some c)))"

fun map_step :: "(byte list list \<rightharpoonup> 'a dns_cent_t_scheme) \<Rightarrow> 'a dns_cent_t_scheme hash_op \<Rightarrow> (byte list list \<rightharpoonup> 'a dns_cent_t_scheme) \<times> 'a dns_cent_t_scheme option" where
  "map_step m (Store alloc c) = (if m (key_of c) = None \<and> alloc then m(key_of c \<mapsto> c) else m, m (key_of c))"
| "map_step m (Find n) = (m, m (lower (rhn_labels n)))"
| "map_step m (Remove n) = (m(lower (rhn_labels n) := None), m (lower (rhn_labels n)))"
| "map_step m (RemoveAt n) = (m(lower (rhn_labels n) := None), m (lower (rhn_labels n)))"

text \<open>Every name given to the table is a complete name.\<close>

fun hash_op_ok :: "'a dns_cent_t_scheme hash_op \<Rightarrow> bool" where
  "hash_op_ok (Store alloc c) \<longleftrightarrow> cent_ok c"
| "hash_op_ok (Find n) \<longleftrightarrow> (\<exists>ls p. labels_ok ls \<and> n = rhn_of ls @ p)"
| "hash_op_ok (Remove n) \<longleftrightarrow> (\<exists>ls p. labels_ok ls \<and> n = rhn_of ls @ p)"
| "hash_op_ok (RemoveAt n) \<longleftrightarrow> (\<exists>ls p. labels_ok ls \<and> n = rhn_of ls @ p)"

lemma hash_step_store:
  assumes "hash_ok T" "cent_ok c"
  shows "\<exists>T'. hash_step T (Store alloc c) = Ok (T', table T (key_of c)) \<and> hash_ok T' \<and>
    table T' = (if table T (key_of c) = None \<and> alloc then (table T)(key_of c \<mapsto> c) else table T)"
proof -
  obtain ls p where ls: "labels_ok ls" "qname c = rhn_of ls @ p" "key_of c = lower ls" using assms(2) by (rule cent_name)
  obtain loc where loc: "dns_lookup T (qname c) = Ok (table T (key_of c), loc)" "loc_for T (key_of c) loc" using dns_lookup_name [OF assms(1) ls(1)] ls(2,3) by metis
  show ?thesis
  proof (cases "table T (key_of c) = None \<and> alloc")
    case True
    then obtain T' where "add_dns_hash True T c loc = Ok T'" "hash_ok T'" "table T' = (table T)(key_of c \<mapsto> c)" using add_dns_hash_name [OF assms loc(2)] by blast
    then show ?thesis using True loc(1) by auto
  next
    case False
    then show ?thesis using loc(1) assms(1) by (cases alloc) (auto simp: add_dns_hash_def)
  qed
qed

lemma hash_step_remove_at:
  assumes "hash_ok T" "labels_ok ls"
  shows "\<exists>T'. hash_step T (RemoveAt (rhn_of ls @ p)) = Ok (T', table T (lower ls)) \<and> hash_ok T' \<and> table T' = (table T)(lower ls := None)"
proof -
  obtain loc where loc: "dns_lookup T (rhn_of ls @ p) = Ok (table T (lower ls), loc)" "loc_for T (lower ls) loc" using dns_lookup_name [OF assms] by blast
  show ?thesis
  proof (cases "table T (lower ls)")
    case None
    then show ?thesis using loc(1) assms(1) by auto
  next
    case (Some c)
    then show ?thesis using del_dns_hash_ent_name [OF assms loc(2) Some] loc(1) by auto
  qed
qed

lemma hash_step_map:
  assumes "hash_ok T" "hash_op_ok x"
  shows "\<exists>T'. hash_step T x = Ok (T', snd (map_step (table T) x)) \<and> hash_ok T' \<and> table T' = fst (map_step (table T) x)"
proof (cases x)
  case (Store alloc c)
  then show ?thesis using hash_step_store [OF assms(1), of c alloc] assms(2) by simp
next
  case (Find n)
  then obtain ls p where n: "labels_ok ls" "n = rhn_of ls @ p" using assms(2) by auto
  show ?thesis using dns_lookup_name [OF assms(1) n(1), of p] Find n assms(1) by auto
next
  case (Remove n)
  then obtain ls p where n: "labels_ok ls" "n = rhn_of ls @ p" using assms(2) by auto
  show ?thesis using del_dns_hash_name [OF assms(1) n(1), of p] Remove n by auto
next
  case (RemoveAt n)
  then obtain ls p where n: "labels_ok ls" "n = rhn_of ls @ p" using assms(2) by auto
  show ?thesis using hash_step_remove_at [OF assms(1) n(1), of p] RemoveAt n by simp
qed

interpretation ht: exec_refinement hash_step map_step hash_ok table hash_op_ok
  by unfold_locales (rule hash_step_map)

lemma hash_ok_mk: "hash_ok mk_dns_hash" "table mk_dns_hash = Map.empty"
  by (simp_all add: hash_ok_def mk_dns_hash_def chain_ok_def table_def)

subsection \<open>Properties\<close>

text \<open>C20. The hash table of the cache is a map from names, up to the case of letters, to cache entries: starting from the
  empty table, every sequence of storing, finding and removing entries by name returns what the same operations on
  a map return, never reads outside a name or a chain, and ends with a well-formed table that holds that map.  A
  store without memory changes nothing.\<close>

theorem dns_hash_refines_map:
  assumes "\<forall>x \<in> set xs. hash_op_ok x"
  shows "\<exists>T. exec_run hash_step mk_dns_hash xs = Ok (T, snd (spec_run map_step Map.empty xs)) \<and> hash_ok T \<and>
    table T = fst (spec_run map_step Map.empty xs)"
  using ht.run_spec [OF hash_ok_mk(1) assms] by (simp add: hash_ok_mk(2))

text \<open>Two spellings of one name and another name.\<close>

definition ex_cent :: "byte list list \<Rightarrow> dns_cent_t" where
  "ex_cent ls = \<lparr>qname = rhn_of ls\<rparr>"

lemma ex_cent_ok: "name_ok ls \<Longrightarrow> cent_ok (ex_cent ls)"
  by (auto simp: cent_ok_def ex_cent_def intro: exI [of _ "[]"])

lemma key_ex_cent: "labels_ok ls \<Longrightarrow> key_of (ex_cent ls) = lower ls"
  using rhn_labels_name [of ls "[]"] by (simp add: key_of_def ex_cent_def)

definition ex_name1 :: "byte list list" where "ex_name1 = [[97], [110, 101, 116]]"

definition ex_name2 :: "byte list list" where "ex_name2 = [[65], [78, 101, 84]]"

definition ex_name3 :: "byte list list" where "ex_name3 = [[98], [110, 101, 116]]"

lemmas ex_names_def = ex_name1_def ex_name2_def ex_name3_def

lemma ex_names_ok: "name_ok ex_name1" "name_ok ex_name2" "name_ok ex_name3"
  by (simp_all add: ex_names_def name_ok_def rhn_of_def DNSNAMEBUFSIZE_def)

definition ex_hash_ops :: "dns_cent_t hash_op list" where
  "ex_hash_ops = [Store True (ex_cent ex_name1), Store True (ex_cent ex_name2), Store False (ex_cent ex_name3),
     Find (rhn_of ex_name3 @ []), Store True (ex_cent ex_name3), RemoveAt (rhn_of ex_name2 @ [])]"

lemma ex_hash_ops_ok: "\<forall>x \<in> set ex_hash_ops. hash_op_ok x"
  using ex_names_ok by (auto simp: ex_hash_ops_def ex_cent_ok name_ok_def simp del: append_Nil2)

lemma ex_hash_run: "spec_run map_step Map.empty ex_hash_ops =
   ([lower ex_name3 \<mapsto> ex_cent ex_name3], [None, Some (ex_cent ex_name1), None, None, None, Some (ex_cent ex_name1)])"
proof -
  have ok: "labels_ok ex_name1" "labels_ok ex_name2" "labels_ok ex_name3" using ex_names_ok by (simp_all add: name_ok_def)
  have lw: "lower ex_name2 = lower ex_name1" "lower ex_name3 \<noteq> lower ex_name1" by (simp_all add: ex_names_def tolower_def)
  have k: "key_of (ex_cent ex_name1) = lower ex_name1" "key_of (ex_cent ex_name2) = lower ex_name1"
    "key_of (ex_cent ex_name3) = lower ex_name3" using key_ex_cent [OF ok(1)] key_ex_cent [OF ok(2)] key_ex_cent [OF ok(3)] lw(1) by (simp_all only:)
  show ?thesis using lw ok by (auto simp: ex_hash_ops_def k rhn_labels_name simp del: append_Nil2)
qed

theorem dns_hash_refines_map_witness:
  "\<exists>T. exec_run hash_step mk_dns_hash ex_hash_ops = Ok (T, [None, Some (ex_cent ex_name1), None, None, None, Some (ex_cent ex_name1)]) \<and>
    hash_ok T \<and> table T = [lower ex_name3 \<mapsto> ex_cent ex_name3]"
  using dns_hash_refines_map [OF ex_hash_ops_ok] by (simp add: ex_hash_run)

text \<open>C39. The iteration over the table returns every entry exactly once, in the order of the buckets and of the chains, and ends, even when
  the loop removes entries that it has been given from the table while it goes; exactly the entries it wanted to keep
  remain.\<close>

theorem fetch_visits_all:
  assumes "hash_ok T" "length (concat T) \<le> n"
  shows "sweep del n T (fetch_first T) = Ok (map (filter (\<lambda>e. \<not> del (data e))) T, map data (concat T))"
proof -
  let ?F = "filter (\<lambda>e. \<not> del (data e))"
  have "length T = 0 + HASH_NUM_BUCKETS" using assms(1) by (simp add: hash_ok_def)
  from first_from_result [where F = ?F, OF this]
  consider (none) "fetch_first T = None" "concat T = []" "map ?F T = T"
    | (some) j e ys where "fetch_first T = Some (\<lparr>pos_bucket = j, pos_ent = length ys\<rparr>, data e)" "j < length T" "T ! j = e # ys"
       "concat T = e # ys @ concat (drop (j + 1) T)" "map ?F T = take j T @ map ?F (drop j T)" by (auto simp: fetch_first_def)
  then show ?thesis
  proof cases
    case none
    then show ?thesis by simp
  next
    case some
    have j: "drop j T = (e # ys) # drop (j + 1) T" using some(2,3) by (metis Cons_nth_drop_Suc Suc_eq_plus1)
    have "sweep del n T (Some (\<lparr>pos_bucket = j, pos_ent = length ys\<rparr>, data e)) =
        Ok (take j T @ ([] @ ?F (e # ys)) # map ?F (drop (j + 1) T), map data (e # ys @ concat (drop (j + 1) T)))"
      by (rule sweep_from) (use assms some in \<open>simp_all add: hash_ok_def\<close>)
    then show ?thesis using some(1,4,5) by (simp add: j)
  qed
qed

lemma ex_table: "\<exists>T. hash_ok T \<and> table T = [lower ex_name3 \<mapsto> ex_cent ex_name3]"
  using ht.run_spec [OF hash_ok_mk(1) ex_hash_ops_ok] by (auto simp: hash_ok_mk(2) ex_hash_run)

theorem fetch_visits_all_witness:
  "\<exists>T n. hash_ok T \<and> table T = [lower ex_name3 \<mapsto> ex_cent ex_name3] \<and>
     sweep (\<lambda>c. c = ex_cent ex_name3) n T (fetch_first T) = Ok (map (filter (\<lambda>e. data e \<noteq> ex_cent ex_name3)) T, map data (concat T))"
  using ex_table fetch_visits_all [where del = "\<lambda>c. c = ex_cent ex_name3", OF _ order_refl] by blast

lemma concat_update: "i < length T \<Longrightarrow> mset (concat (T[i := ch])) + mset (T ! i) = mset (concat T) + mset ch"
proof -
  assume i: "i < length T"
  have "mset (concat (T[i := ch])) = mset (concat (take i T)) + mset ch + mset (concat (drop (Suc i) T))" using i by (simp add: upd_conv_take_nth_drop)
  moreover have "mset (concat T) = mset (concat (take i T)) + mset (T ! i) + mset (concat (drop (Suc i) T))"
    by (subst id_take_nth_drop [OF i]) simp
  ultimately show ?thesis by simp
qed

definition ents :: "'c hash_buckets \<Rightarrow> 'c multiset" where
  "ents T = mset (map data (concat T))"

lemma ents_update: "i < length T \<Longrightarrow> ents (T[i := ch]) + mset (map data (T ! i)) = ents T + mset (map data ch)"
  using concat_update [of i T ch] by (metis ents_def image_mset_union mset_map)

lemma ents_filter: "i < length T \<Longrightarrow> ents (T[i := filter (\<lambda>e. \<not> P (data e)) (T ! i)]) + mset (filter P (map data (T ! i))) = ents T"
proof -
  assume i: "i < length T"
  have "mset (map f xs) = mset (map f (filter (\<lambda>e. \<not> P (f e)) xs)) + mset (filter P (map f xs))" for f :: "'a dns_hash_ent_t \<Rightarrow> 'a" and xs
    by (induction xs) auto
  then have m: "mset (map data (T ! i)) = mset (map data (filter (\<lambda>e. \<not> P (data e)) (T ! i))) + mset (filter P (map data (T ! i)))" .
  have cancel: "u + z = t" if "u + (y + z) = t + y" for t u y z :: "'a multiset" using that by (simp add: ac_simps)
  show ?thesis by (rule cancel, rule ents_update [OF i, of "filter (\<lambda>e. \<not> P (data e)) (T ! i)", unfolded m])
qed

text \<open>C40. The operations that clear the cache, one bucket, the names of one bucket that a list of include and exclude
  rules selects, or everything, leave a well-formed table; each entry of the table before is afterwards either still in the
  table or has been given to \<^verbatim>\<open>del_cent\<close>, once; and the entries deleted by a list are those whose name is covered by a rule, of
  which the first says include.\<close>

theorem hash_clear_ok:
  assumes "hash_ok T" "i < HASH_NUM_BUCKETS" "\<forall>s \<in> set ds. name_ok (fst s)"
  shows "\<exists>T1 T2 T3 f1 f2 f3. free_dns_hash_bucket T i = Ok (T1, f1) \<and> free_dns_hash_selected T i (map slist_of ds) = Ok (T2, f2) \<and> free_dns_hash T = (T3, f3) \<and>
    hash_ok T1 \<and> hash_ok T2 \<and> hash_ok T3 \<and> ents T = ents T1 + mset f1 \<and> ents T = ents T2 + mset f2 \<and> ents T = ents T3 + mset f3 \<and>
    T1 ! i = [] \<and> concat T3 = [] \<and> f2 = filter (\<lambda>c. picks (rhn_labels (qname c)) ds) (map data (T ! i))"
proof -
  let ?P = "\<lambda>c. picks (rhn_labels (qname c)) ds"
  have i: "i < length T" "chain_ok i (T ! i)" using assms(1,2) by (simp_all add: hash_ok_def)
  have e: "chain_ok j []" for j by (simp add: chain_ok_def)
  have "selected (qname (data x)) (map slist_of ds) = Ok (?P (data x))" if "x \<in> set (T ! i)" for x
  proof -
    have "cent_ok (data x)" using i(2) that by (simp add: chain_ok_def)
    then obtain ls p where "name_ok ls" "qname (data x) = rhn_of ls @ p" by (auto simp: cent_ok_def)
    then show ?thesis using selected_name [OF _ assms(3)] by (simp add: name_ok_def)
  qed
  then have sel: "free_dns_hash_selected T i (map slist_of ds) = Ok (T[i := filter (\<lambda>e. \<not> ?P (data e)) (T ! i)], filter ?P (map data (T ! i)))"
    using free_selected_chain [of "T ! i" "map slist_of ds" ?P] i(1) by (simp add: free_dns_hash_selected_def chain_def)
  have t1: "ents T = ents (T[i := []]) + mset (map data (T ! i))" using ents_update [OF i(1), of "[]"] by simp
  have t3: "ents T = ents (map (\<lambda>_. []) T) + mset (concat (map (map data) T))" "concat (map (\<lambda>_. []) T) = []" by (simp_all add: ents_def map_concat)
  have ok: "hash_ok (map (\<lambda>_. []) T)" using assms(1) by (simp add: hash_ok_def chain_ok_def)
  show ?thesis
    using sel i t1 t3 ok hash_ok_update [OF assms(1) e, of i] hash_ok_update [OF assms(1) chain_ok_filter [OF i(2)]] ents_filter [OF i(1), of ?P]
    by (simp add: free_dns_hash_bucket_def chain_def free_dns_hash_def)
qed

theorem hash_clear_ok_witness:
  "\<exists>T T2 f2. hash_ok T \<and> table T = [lower ex_name3 \<mapsto> ex_cent ex_name3] \<and>
     free_dns_hash_selected T 5 (map slist_of [([[110, 101, 116]], False, True)]) = Ok (T2, f2) \<and> hash_ok T2 \<and> ents T = ents T2 + mset f2"
proof -
  obtain T where T: "hash_ok T" "table T = [lower ex_name3 \<mapsto> ex_cent ex_name3]" using ex_table by blast
  have h: "(5::nat) < HASH_NUM_BUCKETS" "\<forall>s \<in> set [([[110, 101, 116 :: byte]], False, True)]. name_ok (fst s)"
    by (simp_all add: HASH_NUM_BUCKETS_def HASH_SZ_def name_ok_def rhn_of_def DNSNAMEBUFSIZE_def)
  then show ?thesis using T(2) hash_clear_ok [OF T(1) h] T(1) by blast
qed

end
