(* ===== verification/CacheLock.thy ===== *)
theory CacheLock
  imports Main
begin

text \<open>
  The lock of the cache of \<^verbatim>\<open>pdnsd\<close> (\<^verbatim>\<open>pdnsd/src/cache.c\<close>): many readers or one writer, built from one mutex and two condition
  variables, with a suspension of readers while too many writers wait, a lock with a time limit, a way to
  yield it, and the variants used on exit.  Every region between locking and unlocking the mutex is
  one step, because all the variables are only used there (the test at the beginning of \<^verbatim>\<open>yield_lock_cache_rw\<close>, which is not, is
  a step of its own); \<^verbatim>\<open>pthread_cond_wait\<close> ends such a region and waking up begins another.  Threads run in any order.  A
  signal wakes any one thread that waits, if there is one, and threads may wake up without a signal, as POSIX
  allows.  Shown: exclusion, and that no wake-up is lost.
\<close>

subsection \<open>The operations\<close>

text \<open>The shared variables.\<close>

record cache_lock =
  use_cache_lock :: bool
  cache_w_lock :: bool
  cache_r_lock :: nat
  r_pend :: nat
  rw_pend :: nat
  r_susp :: bool

definition init_cache_lock :: "cache_lock \<Rightarrow> cache_lock" where
  "init_cache_lock l = l\<lparr>use_cache_lock := True\<rparr>"

definition initial_lock :: cache_lock where
  "initial_lock = \<lparr>use_cache_lock = False, cache_w_lock = False, cache_r_lock = 0, r_pend = 0, rw_pend = 0, r_susp = False\<rparr>"

definition SUSP_THRESH :: "nat \<Rightarrow> nat" where
  "SUSP_THRESH r = r div 2 + 2"

text \<open>What a thread does to the condition variables: wake one writer, or all readers.\<close>

datatype wake = Signal_rw | Broadcast_r

text \<open>
  A locking operation returns whether the thread has the lock; otherwise it waits on its condition variable and
  continues with the test of the loop when it is woken.
\<close>

definition lock_cache_r_loop :: "cache_lock \<Rightarrow> cache_lock \<times> bool" where
  "lock_cache_r_loop l =
     (let l = (if SUSP_THRESH (r_pend l) < rw_pend l then l\<lparr>r_susp := True\<rparr> else l)
      in if r_susp l \<or> cache_w_lock l then (l, False)
         else (l\<lparr>cache_r_lock := cache_r_lock l + 1, r_pend := r_pend l - 1\<rparr>, True))"

definition lock_cache_r :: "cache_lock \<Rightarrow> cache_lock \<times> bool" where
  "lock_cache_r l = (if \<not> use_cache_lock l then (l, True) else lock_cache_r_loop (l\<lparr>r_pend := r_pend l + 1\<rparr>))"

definition unlock_cache_r :: "cache_lock \<Rightarrow> cache_lock \<times> wake list" where
  "unlock_cache_r l =
     (if \<not> use_cache_lock l then (l, [])
      else let l = (if 0 < cache_r_lock l then l\<lparr>cache_r_lock := cache_r_lock l - 1\<rparr> else l)
           in (l, if cache_r_lock l = 0 then [Signal_rw] else []))"

definition lock_cache_rw_loop :: "cache_lock \<Rightarrow> cache_lock \<times> bool" where
  "lock_cache_rw_loop l =
     (if cache_w_lock l \<or> 0 < cache_r_lock l then (l, False) else (l\<lparr>cache_w_lock := True, rw_pend := rw_pend l - 1\<rparr>, True))"

definition lock_cache_rw :: "cache_lock \<Rightarrow> cache_lock \<times> bool" where
  "lock_cache_rw l = (if \<not> use_cache_lock l then (l, True) else lock_cache_rw_loop (l\<lparr>rw_pend := rw_pend l + 1\<rparr>))"

text \<open>With a time limit: a thread whose time is over leaves (\<^verbatim>\<open>cleanup_return\<close>).  Before the lock is in use the result is failure.\<close>

definition timedlock_cache_rw :: "cache_lock \<Rightarrow> cache_lock \<times> bool" where
  "timedlock_cache_rw l = (if \<not> use_cache_lock l then (l, False) else lock_cache_rw_loop (l\<lparr>rw_pend := rw_pend l + 1\<rparr>))"

definition timedlock_cleanup :: "cache_lock \<Rightarrow> cache_lock" where
  "timedlock_cleanup l = l\<lparr>rw_pend := rw_pend l - 1\<rparr>"

text \<open>The part that \<^verbatim>\<open>unlock_cache_rw\<close> and \<^verbatim>\<open>yield_lock_cache_rw\<close> share.\<close>

definition release_rw :: "cache_lock \<Rightarrow> cache_lock \<times> wake list" where
  "release_rw l =
     (let l = l\<lparr>cache_w_lock := False, r_susp := False\<rparr>
      in (l, if r_pend l = 0 \<or> SUSP_THRESH (r_pend l) < rw_pend l then [Signal_rw] else [Broadcast_r]))"

definition unlock_cache_rw :: "cache_lock \<Rightarrow> cache_lock \<times> wake list" where
  "unlock_cache_rw l = (if \<not> use_cache_lock l then (l, []) else release_rw l)"

text \<open>Whether \<^verbatim>\<open>yield_lock_cache_rw\<close> gives up the lock.\<close>

definition yield_wanted :: "cache_lock \<Rightarrow> bool" where
  "yield_wanted l \<longleftrightarrow> \<not> (\<not> use_cache_lock l \<or> (r_pend l = 0 \<and> rw_pend l = 0))"

definition yield_back :: "cache_lock \<Rightarrow> cache_lock \<times> bool" where
  "yield_back l = lock_cache_rw_loop (l\<lparr>rw_pend := rw_pend l + 1\<rparr>)"

text \<open>The variants for the exit, which wake nobody; one attempt each, the loops only repeat it.\<close>

definition softlock_cache_r :: "cache_lock \<Rightarrow> cache_lock \<times> bool" where
  "softlock_cache_r l = (if \<not> use_cache_lock l then (l, False) else if \<not> cache_w_lock l then (l\<lparr>cache_r_lock := cache_r_lock l + 1\<rparr>, True) else (l, False))"

definition softunlock_cache_r :: "cache_lock \<Rightarrow> cache_lock \<times> bool" where
  "softunlock_cache_r l = (if \<not> use_cache_lock l then (l, False) else (if 0 < cache_r_lock l then l\<lparr>cache_r_lock := cache_r_lock l - 1\<rparr> else l, True))"

definition softlock_cache_rw :: "cache_lock \<Rightarrow> cache_lock \<times> bool" where
  "softlock_cache_rw l = (if \<not> use_cache_lock l then (l, False) else if \<not> (cache_w_lock l \<or> 0 < cache_r_lock l) then (l\<lparr>cache_w_lock := True\<rparr>, True) else (l, False))"

definition softunlock_cache_rw :: "cache_lock \<Rightarrow> cache_lock \<times> bool" where
  "softunlock_cache_rw l = (if \<not> use_cache_lock l then (l, False) else (l\<lparr>cache_w_lock := False\<rparr>, True))"

subsection \<open>Threads\<close>

text \<open>Where a thread is.  The flag says that it waits with a time limit.\<close>

datatype place = Idle | HasR | HasRW | WaitR | WokenR | WaitRW bool | WokenRW bool | TimedOut | Yields | Sleeps

record cache_threads =
  lk :: cache_lock
  pcs :: "place list"

text \<open>The effect of a wake-up on the waiting threads; \<open>w\<close> is the thread a signal is delivered to.\<close>

definition waits_rw :: "place \<Rightarrow> bool" where
  "waits_rw p = (case p of WaitRW b \<Rightarrow> True | _ \<Rightarrow> False)"

definition woken :: "place \<Rightarrow> place" where
  "woken p = (case p of WaitR \<Rightarrow> WokenR | WaitRW b \<Rightarrow> WokenRW b | _ \<Rightarrow> p)"

fun wake_up :: "wake list \<Rightarrow> nat \<Rightarrow> place list \<Rightarrow> place list option" where
  "wake_up [] w ps = Some ps"
| "wake_up (Broadcast_r # ws) w ps = wake_up ws w (map (\<lambda>p. if p = WaitR then WokenR else p) ps)"
| "wake_up (Signal_rw # ws) w ps =
     (if list_ex waits_rw ps then (if w < length ps \<and> waits_rw (ps ! w) then wake_up ws w (ps[w := woken (ps ! w)]) else None)
      else wake_up ws w ps)"

datatype lock_event = LockR nat | UnlockR nat nat | LockRW nat | TimedLockRW nat | UnlockRW nat nat
  | Yield nat | GiveUp nat nat | Return nat | Run nat | Spurious nat | Timeout nat
  | SoftR nat | SoftUnR nat | SoftRW nat | SoftUnRW nat

definition enter :: "cache_threads \<Rightarrow> nat \<Rightarrow> cache_lock \<times> bool \<Rightarrow> place \<Rightarrow> place \<Rightarrow> cache_threads" where
  "enter s t r yes no = s\<lparr>lk := fst r, pcs := (pcs s)[t := if snd r then yes else no]\<rparr>"

definition leave :: "cache_threads \<Rightarrow> nat \<Rightarrow> cache_lock \<times> wake list \<Rightarrow> place \<Rightarrow> nat \<Rightarrow> cache_threads option" where
  "leave s t r p w = map_option (\<lambda>ps. s\<lparr>lk := fst r, pcs := ps\<rparr>) (wake_up (snd r) w ((pcs s)[t := p]))"

text \<open>Threads that are in \<^verbatim>\<open>timedlock_cache_rw\<close> and wait.\<close>

definition timed :: "place list \<Rightarrow> nat" where
  "timed ps = count_list ps (WaitRW True) + count_list ps (WokenRW True) + count_list ps TimedOut"

text \<open>
  One step of a thread.  At most \<open>m\<close> threads are in \<^verbatim>\<open>timedlock_cache_rw\<close> at a time, and \<open>soft\<close> tells whether the operations for
  the exit occur.
\<close>

fun lock_step :: "nat \<Rightarrow> bool \<Rightarrow> cache_threads \<Rightarrow> lock_event \<Rightarrow> cache_threads option" where
  "lock_step m soft s (LockR t) = (if t < length (pcs s) \<and> pcs s ! t = Idle then Some (enter s t (lock_cache_r (lk s)) HasR WaitR) else None)"
| "lock_step m soft s (UnlockR t w) = (if t < length (pcs s) \<and> pcs s ! t = HasR then leave s t (unlock_cache_r (lk s)) Idle w else None)"
| "lock_step m soft s (LockRW t) = (if t < length (pcs s) \<and> pcs s ! t = Idle then Some (enter s t (lock_cache_rw (lk s)) HasRW (WaitRW False)) else None)"
| "lock_step m soft s (TimedLockRW t) = (if t < length (pcs s) \<and> pcs s ! t = Idle \<and> timed (pcs s) < m then Some (enter s t (timedlock_cache_rw (lk s)) HasRW (WaitRW True)) else None)"
| "lock_step m soft s (UnlockRW t w) = (if t < length (pcs s) \<and> pcs s ! t = HasRW then leave s t (unlock_cache_rw (lk s)) Idle w else None)"
| "lock_step m soft s (Yield t) = (if t < length (pcs s) \<and> pcs s ! t = HasRW then Some (s\<lparr>pcs := (pcs s)[t := if yield_wanted (lk s) then Yields else HasRW]\<rparr>) else None)"
| "lock_step m soft s (GiveUp t w) = (if t < length (pcs s) \<and> pcs s ! t = Yields then leave s t (release_rw (lk s)) Sleeps w else None)"
| "lock_step m soft s (Return t) = (if t < length (pcs s) \<and> pcs s ! t = Sleeps then Some (enter s t (yield_back (lk s)) HasRW (WaitRW False)) else None)"
| "lock_step m soft s (Run t) = (if t < length (pcs s) then
     (case pcs s ! t of WokenR \<Rightarrow> Some (enter s t (lock_cache_r_loop (lk s)) HasR WaitR)
      | WokenRW b \<Rightarrow> Some (enter s t (lock_cache_rw_loop (lk s)) HasRW (WaitRW b))
      | TimedOut \<Rightarrow> Some (s\<lparr>lk := timedlock_cleanup (lk s), pcs := (pcs s)[t := Idle]\<rparr>)
      | _ \<Rightarrow> None) else None)"
| "lock_step m soft s (Spurious t) = (if t < length (pcs s) then Some (s\<lparr>pcs := (pcs s)[t := woken (pcs s ! t)]\<rparr>) else None)"
| "lock_step m soft s (Timeout t) = (if t < length (pcs s) \<and> pcs s ! t = WaitRW True then Some (s\<lparr>pcs := (pcs s)[t := TimedOut]\<rparr>) else None)"
| "lock_step m soft s (SoftR t) = (if soft \<and> t < length (pcs s) \<and> pcs s ! t = Idle then Some (enter s t (softlock_cache_r (lk s)) HasR Idle) else None)"
| "lock_step m soft s (SoftUnR t) = (if soft \<and> t < length (pcs s) \<and> pcs s ! t = HasR then Some (enter s t (softunlock_cache_r (lk s)) Idle HasR) else None)"
| "lock_step m soft s (SoftRW t) = (if soft \<and> t < length (pcs s) \<and> pcs s ! t = Idle then Some (enter s t (softlock_cache_rw (lk s)) HasRW Idle) else None)"
| "lock_step m soft s (SoftUnRW t) = (if soft \<and> t < length (pcs s) \<and> pcs s ! t = HasRW then Some (enter s t (softunlock_cache_rw (lk s)) Idle HasRW) else None)"

inductive lock_reach :: "nat \<Rightarrow> bool \<Rightarrow> nat \<Rightarrow> cache_threads \<Rightarrow> bool" for m soft n where
  start: "lock_reach m soft n \<lparr>lk = init_cache_lock initial_lock, pcs = replicate n Idle\<rparr>"
| step: "lock_reach m soft n s \<Longrightarrow> lock_step m soft s e = Some s' \<Longrightarrow> lock_reach m soft n s'"

subsection \<open>Exclusion\<close>

lemma count_update:
  "t < length ps \<Longrightarrow> count_list (ps[t := v]) q =
    (if v = q then (if ps ! t = q then count_list ps q else count_list ps q + 1) else if ps ! t = q then count_list ps q - 1 else count_list ps q)"
proof (induction ps arbitrary: t)
  case (Cons p ps)
  show ?case
  proof (cases t)
    case (Suc k)
    then have "0 < count_list ps q" if "ps ! k = q" using Cons.prems that by (metis Suc_less_eq bot_nat_0.not_eq_extremum count_list_0_iff length_Cons nth_mem)
    then show ?thesis using Cons.IH [of k] Cons.prems Suc by auto
  qed auto
qed simp

lemma count_here: "t < length ps \<Longrightarrow> ps ! t = p \<Longrightarrow> 0 < count_list ps p"
  by (metis bot_nat_0.not_eq_extremum count_list_0_iff nth_mem)

lemma count_broadcast:
  "count_list (map (\<lambda>p. if p = WaitR then WokenR else p) ps) q =
    (if q = WaitR then 0 else if q = WokenR then count_list ps WaitR + count_list ps WokenR else count_list ps q)"
  by (induction ps) auto

text \<open>The shared variables agree with what the threads do.\<close>

definition lock_inv :: "nat \<Rightarrow> cache_lock \<Rightarrow> place list \<Rightarrow> bool" where
  "lock_inv m l ps \<longleftrightarrow> use_cache_lock l \<and> cache_r_lock l = count_list ps HasR \<and>
     count_list ps HasRW + count_list ps Yields = (if cache_w_lock l then 1 else 0) \<and> (cache_w_lock l \<longrightarrow> count_list ps HasR = 0) \<and>
     r_pend l = count_list ps WaitR + count_list ps WokenR \<and>
     rw_pend l = count_list ps (WaitRW False) + count_list ps (WokenRW False) + timed ps \<and> timed ps \<le> m"

text \<open>A signal moves at most one waiting writer.\<close>

lemma signal_cases:
  assumes "wake_up [Signal_rw] w ps = Some ps'"
  obtains (none) "ps' = ps" "count_list ps (WaitRW True) = 0" "count_list ps (WaitRW False) = 0"
    | (one) b where "w < length ps" "ps ! w = WaitRW b" "ps' = ps[w := WokenRW b]"
proof (cases "list_ex waits_rw ps")
  case True
  then show ?thesis using assms one by (auto simp: waits_rw_def woken_def split: if_splits place.splits)
next
  case False
  then have "WaitRW b \<notin> set ps" for b by (force simp: list_ex_iff waits_rw_def)
  then show ?thesis using assms none False by (simp add: count_list_0_iff)
qed

lemma wake_inv:
  assumes "lock_inv m l ps" "wake_up ws w ps = Some ps'" "ws \<in> {[], [Signal_rw], [Broadcast_r]}"
  shows "lock_inv m l ps' \<and> length ps' = length ps"
proof -
  consider "ws = []" | (s) "ws = [Signal_rw]" | "ws = [Broadcast_r]" using assms(3) by blast
  then show ?thesis
  proof cases
    case s
    then have sg: "wake_up [Signal_rw] w ps = Some ps'" using assms(2) by simp
    from sg show ?thesis
    proof (cases rule: signal_cases)
      case none
      then show ?thesis using assms(1) by simp
    next
      case (one b)
      then show ?thesis using assms(1) count_here [OF one(1,2)] by (cases b) (auto simp: lock_inv_def count_update timed_def)
    qed
  qed (use assms in \<open>auto simp: lock_inv_def count_broadcast timed_def\<close>)
qed

lemmas lock_op_defs = lock_cache_r_def lock_cache_r_loop_def unlock_cache_r_def lock_cache_rw_def lock_cache_rw_loop_def
  timedlock_cache_rw_def timedlock_cleanup_def release_rw_def unlock_cache_rw_def yield_back_def
  softlock_cache_r_def softunlock_cache_r_def softlock_cache_rw_def softunlock_cache_rw_def

lemma enter_inv:
  assumes "lock_inv m (lk s) (pcs s)" "t < length (pcs s)"
  shows "pcs s ! t = Idle \<Longrightarrow> lock_inv m (lk (enter s t (lock_cache_r (lk s)) HasR WaitR)) (pcs (enter s t (lock_cache_r (lk s)) HasR WaitR))"
    and "pcs s ! t = WokenR \<Longrightarrow> lock_inv m (lk (enter s t (lock_cache_r_loop (lk s)) HasR WaitR)) (pcs (enter s t (lock_cache_r_loop (lk s)) HasR WaitR))"
    and "pcs s ! t = Idle \<Longrightarrow> lock_inv m (lk (enter s t (lock_cache_rw (lk s)) HasRW (WaitRW False))) (pcs (enter s t (lock_cache_rw (lk s)) HasRW (WaitRW False)))"
    and "pcs s ! t = Idle \<Longrightarrow> timed (pcs s) < m \<Longrightarrow> lock_inv m (lk (enter s t (timedlock_cache_rw (lk s)) HasRW (WaitRW True))) (pcs (enter s t (timedlock_cache_rw (lk s)) HasRW (WaitRW True)))"
    and "pcs s ! t = Sleeps \<Longrightarrow> lock_inv m (lk (enter s t (yield_back (lk s)) HasRW (WaitRW False))) (pcs (enter s t (yield_back (lk s)) HasRW (WaitRW False)))"
    and "pcs s ! t = WokenRW b \<Longrightarrow> lock_inv m (lk (enter s t (lock_cache_rw_loop (lk s)) HasRW (WaitRW b))) (pcs (enter s t (lock_cache_rw_loop (lk s)) HasRW (WaitRW b)))"
  using assms count_here [OF assms(2) refl] by (auto simp: lock_inv_def enter_def lock_op_defs count_update timed_def Let_def; cases b; auto)+

lemma leave_inv:
  assumes "lock_inv m (lk s) (pcs s)" "t < length (pcs s)"
  shows "pcs s ! t = HasR \<Longrightarrow> leave s t (unlock_cache_r (lk s)) Idle w = Some s' \<Longrightarrow> lock_inv m (lk s') (pcs s')"
    and "pcs s ! t = HasRW \<Longrightarrow> leave s t (unlock_cache_rw (lk s)) Idle w = Some s' \<Longrightarrow> lock_inv m (lk s') (pcs s')"
    and "pcs s ! t = Yields \<Longrightarrow> leave s t (release_rw (lk s)) Sleeps w = Some s' \<Longrightarrow> lock_inv m (lk s') (pcs s')"
proof -
  have gen: "lock_inv m (lk s') (pcs s')"
    if l: "leave s t r p w = Some s'" and i: "lock_inv m (fst r) ((pcs s)[t := p])" and ws: "snd r \<in> {[], [Signal_rw], [Broadcast_r]}" for r p
  proof -
    obtain ps where "wake_up (snd r) w ((pcs s)[t := p]) = Some ps" "s' = s\<lparr>lk := fst r, pcs := ps\<rparr>" using l by (auto simp: leave_def)
    then show ?thesis using wake_inv [OF i _ ws] by simp
  qed
  have c: "0 < count_list (pcs s) (pcs s ! t)" by (rule count_here [OF assms(2) refl])
  have 1: "lock_inv m (fst (unlock_cache_r (lk s))) ((pcs s)[t := Idle])" "snd (unlock_cache_r (lk s)) \<in> {[], [Signal_rw], [Broadcast_r]}" if "pcs s ! t = HasR"
    using that assms c by (auto simp: lock_inv_def lock_op_defs count_update timed_def Let_def)
  have 2: "lock_inv m (fst (release_rw (lk s))) ((pcs s)[t := p])" "snd (release_rw (lk s)) \<in> {[], [Signal_rw], [Broadcast_r]}"
    if "pcs s ! t \<in> {HasRW, Yields}" "p \<in> {Idle, Sleeps}" for p
  proof -
    have same: "count_list ((pcs s)[t := p]) q = count_list (pcs s) q" if "q \<notin> {HasRW, Yields, Idle, Sleeps}" for q
      using assms(2) that \<open>p \<in> _\<close> \<open>pcs s ! t \<in> _\<close> by (auto simp: count_update)
    have w: "cache_w_lock (lk s)" "count_list (pcs s) HasRW + count_list (pcs s) Yields = 1" using assms(1) c that(1) by (auto simp: lock_inv_def split: if_splits)
    have "count_list ((pcs s)[t := p]) HasRW + count_list ((pcs s)[t := p]) Yields = 0" using that assms(2) c w(2) by (auto simp: count_update)
    then show "lock_inv m (fst (release_rw (lk s))) ((pcs s)[t := p])" using assms(1) w(1) by (simp add: lock_inv_def release_rw_def same timed_def Let_def)
    show "snd (release_rw (lk s)) \<in> {[], [Signal_rw], [Broadcast_r]}" by (simp add: release_rw_def Let_def)
  qed
  have u: "unlock_cache_rw (lk s) = release_rw (lk s)" using assms(1) by (simp add: unlock_cache_rw_def lock_inv_def)
  show "lock_inv m (lk s') (pcs s')" if "pcs s ! t = HasR" "leave s t (unlock_cache_r (lk s)) Idle w = Some s'" using gen [OF that(2) 1] that(1) by simp
  show "lock_inv m (lk s') (pcs s')" if "pcs s ! t = HasRW" "leave s t (unlock_cache_rw (lk s)) Idle w = Some s'" using gen [OF that(2)] 2 [of Idle] u that(1) by simp
  show "lock_inv m (lk s') (pcs s')" if "pcs s ! t = Yields" "leave s t (release_rw (lk s)) Sleeps w = Some s'" using gen [OF that(2)] 2 [of Sleeps] that(1) by simp
qed

lemma soft_inv:
  assumes "lock_inv m (lk s) (pcs s)" "t < length (pcs s)"
  shows "pcs s ! t = Idle \<Longrightarrow> lock_inv m (lk (enter s t (softlock_cache_r (lk s)) HasR Idle)) (pcs (enter s t (softlock_cache_r (lk s)) HasR Idle))"
    and "pcs s ! t = HasR \<Longrightarrow> lock_inv m (lk (enter s t (softunlock_cache_r (lk s)) Idle HasR)) (pcs (enter s t (softunlock_cache_r (lk s)) Idle HasR))"
    and "pcs s ! t = Idle \<Longrightarrow> lock_inv m (lk (enter s t (softlock_cache_rw (lk s)) HasRW Idle)) (pcs (enter s t (softlock_cache_rw (lk s)) HasRW Idle))"
    and "pcs s ! t = HasRW \<Longrightarrow> lock_inv m (lk (enter s t (softunlock_cache_rw (lk s)) Idle HasRW)) (pcs (enter s t (softunlock_cache_rw (lk s)) Idle HasRW))"
  using assms count_here [OF assms(2) refl] by (auto simp: lock_inv_def enter_def lock_op_defs count_update timed_def Let_def)

lemma quiet_inv:
  assumes "lock_inv m (lk s) (pcs s)" "t < length (pcs s)"
  shows "pcs s ! t = HasRW \<Longrightarrow> q \<in> {HasRW, Yields} \<Longrightarrow> lock_inv m (lk s) ((pcs s)[t := q])"
    and "lock_inv m (lk s) ((pcs s)[t := woken (pcs s ! t)])"
    and "pcs s ! t = WaitRW True \<Longrightarrow> lock_inv m (lk s) ((pcs s)[t := TimedOut])"
    and "pcs s ! t = TimedOut \<Longrightarrow> lock_inv m (timedlock_cleanup (lk s)) ((pcs s)[t := Idle])"
proof -
  have c: "0 < count_list (pcs s) (pcs s ! t)" by (rule count_here [OF assms(2) refl])
  show "pcs s ! t = HasRW \<Longrightarrow> q \<in> {HasRW, Yields} \<Longrightarrow> lock_inv m (lk s) ((pcs s)[t := q])"
    "pcs s ! t = WaitRW True \<Longrightarrow> lock_inv m (lk s) ((pcs s)[t := TimedOut])"
    "pcs s ! t = TimedOut \<Longrightarrow> lock_inv m (timedlock_cleanup (lk s)) ((pcs s)[t := Idle])"
    using assms c by (auto simp: lock_inv_def count_update timed_def timedlock_cleanup_def split: if_splits)
  show "lock_inv m (lk s) ((pcs s)[t := woken (pcs s ! t)])"
    using assms c by (auto simp: lock_inv_def count_update timed_def woken_def split: place.split bool.split)
qed

lemma lock_step_inv:
  assumes "lock_inv m (lk s) (pcs s)" "lock_step m soft s e = Some s'"
  shows "lock_inv m (lk s') (pcs s')"
proof (cases e)
  case (Run t)
  then have t: "t < length (pcs s)" using assms(2) by (simp split: if_splits)
  show ?thesis
  proof (cases "pcs s ! t")
    case WokenR
    then show ?thesis using enter_inv(2) [OF assms(1) t] assms(2) Run t by simp
  next
    case (WokenRW b)
    then show ?thesis using enter_inv(6) [OF assms(1) t] assms(2) Run t by simp
  next
    case TimedOut
    then show ?thesis using quiet_inv(4) [OF assms(1) t] assms(2) Run t by auto
  qed (use assms(2) Run t in simp_all)
qed (use assms enter_inv [OF assms(1)] leave_inv [OF assms(1)] soft_inv [OF assms(1)] quiet_inv [OF assms(1)] in \<open>auto split: if_splits simp del: wake_up.simps\<close>)

lemma lock_reach_inv:
  assumes "lock_reach m soft n s"
  shows "lock_inv m (lk s) (pcs s)"
  using assms
proof induction
  case start
  show ?case by (simp add: lock_inv_def init_cache_lock_def initial_lock_def timed_def count_list_0_iff)
qed (rule lock_step_inv)

subsection \<open>No wake-up is lost\<close>

text \<open>
  Readers that are suspended or asleep have a writer that holds the lock or waits for it without a time limit; and when
  nobody holds the lock while threads sleep, a writer has been woken, or readers have been and nothing
  will stop them.
\<close>

definition live_inv :: "cache_lock \<Rightarrow> place list \<Rightarrow> bool" where
  "live_inv l ps \<longleftrightarrow>
     (r_susp l \<or> 0 < count_list ps WaitR \<longrightarrow> cache_w_lock l \<or> 0 < count_list ps (WaitRW False) + count_list ps (WokenRW False)) \<and>
     (\<not> cache_w_lock l \<and> cache_r_lock l = 0 \<longrightarrow>
        (0 < count_list ps WaitR \<longrightarrow> 0 < count_list ps (WokenRW False) + count_list ps (WokenRW True)) \<and>
        (0 < count_list ps (WaitRW False) + count_list ps (WaitRW True) \<longrightarrow>
           0 < count_list ps (WokenRW False) + count_list ps (WokenRW True) \<or>
           0 < count_list ps WokenR \<and> \<not> r_susp l \<and> rw_pend l \<le> SUSP_THRESH (r_pend l)))"

lemma thresh_mono: "rw \<le> SUSP_THRESH r \<Longrightarrow> rw \<le> SUSP_THRESH (Suc r)"
  by (simp add: SUSP_THRESH_def)

lemma r_loop_live:
  assumes inv: "lock_inv 2 l ps" "live_inv l ps" and r: "r \<in> {r_pend l, Suc (r_pend l)}" "r = r_pend l \<longrightarrow> 0 < count_list ps WokenR"
    and ps': "count_list ps' WaitR = (if snd (lock_cache_r_loop (l\<lparr>r_pend := r\<rparr>)) then count_list ps WaitR else count_list ps WaitR + 1)"
      "\<And>b. count_list ps' (WaitRW b) = count_list ps (WaitRW b)" "\<And>b. count_list ps' (WokenRW b) = count_list ps (WokenRW b)"
  shows "live_inv (fst (lock_cache_r_loop (l\<lparr>r_pend := r\<rparr>))) ps'"
proof (cases "cache_w_lock l")
  case True
  then have "snd (lock_cache_r_loop (l\<lparr>r_pend := r\<rparr>)) = False" "cache_w_lock (fst (lock_cache_r_loop (l\<lparr>r_pend := r\<rparr>)))" by (simp_all add: lock_cache_r_loop_def Let_def)
  then show ?thesis by (simp add: live_inv_def)
next
  case False
  let ?stop = "r_susp l \<or> SUSP_THRESH r < rw_pend l"
  have k: "r_susp l \<or> 0 < count_list ps WaitR \<longrightarrow> 0 < count_list ps (WaitRW False) + count_list ps (WokenRW False)" using inv(2) False by (simp add: live_inv_def)
  have th: "SUSP_THRESH (r_pend l) \<le> SUSP_THRESH r" "2 \<le> SUSP_THRESH r" using r(1) by (auto simp: SUSP_THRESH_def)
  show ?thesis
  proof (cases ?stop)
    case True
    have w: "0 < count_list ps (WaitRW False) + count_list ps (WokenRW False)" using True k th(2) inv(1) by (auto simp: lock_inv_def timed_def)
    have "0 < count_list ps (WokenRW False) + count_list ps (WokenRW True)" if "cache_r_lock l = 0"
    proof (rule ccontr)
      assume n: "\<not> ?thesis"
      then have "0 < count_list ps (WaitRW False)" using w by simp
      then have "\<not> r_susp l" "rw_pend l \<le> SUSP_THRESH (r_pend l)" using inv(2) False that n by (simp_all add: live_inv_def)
      then show False using True th(1) by simp
    qed
    moreover have "lock_cache_r_loop (l\<lparr>r_pend := r\<rparr>) = (l\<lparr>r_pend := r, r_susp := True\<rparr>, False)" using True by (auto simp: lock_cache_r_loop_def Let_def)
    ultimately show ?thesis using w ps' False by (auto simp: live_inv_def)
  next
    case stop: False
    then have "lock_cache_r_loop (l\<lparr>r_pend := r\<rparr>) = (l\<lparr>r_pend := r - 1, cache_r_lock := cache_r_lock l + 1\<rparr>, True)" using False by (simp add: lock_cache_r_loop_def)
    then show ?thesis using k ps' False stop by (auto simp: live_inv_def)
  qed
qed

lemma enter_r_live:
  assumes "lock_inv 2 (lk s) (pcs s)" "live_inv (lk s) (pcs s)" "t < length (pcs s)"
  shows "pcs s ! t = WokenR \<Longrightarrow> live_inv (lk (enter s t (lock_cache_r_loop (lk s)) HasR WaitR)) (pcs (enter s t (lock_cache_r_loop (lk s)) HasR WaitR))"
    and "pcs s ! t = Idle \<Longrightarrow> live_inv (lk (enter s t (lock_cache_r (lk s)) HasR WaitR)) (pcs (enter s t (lock_cache_r (lk s)) HasR WaitR))"
proof -
  have c: "0 < count_list (pcs s) (pcs s ! t)" by (rule count_here [OF assms(3) refl])
  show "live_inv (lk (enter s t (lock_cache_r_loop (lk s)) HasR WaitR)) (pcs (enter s t (lock_cache_r_loop (lk s)) HasR WaitR))" if "pcs s ! t = WokenR"
    using r_loop_live [OF assms(1,2), of "r_pend (lk s)" "pcs (enter s t (lock_cache_r_loop (lk s)) HasR WaitR)"] that c assms(3) by (simp add: enter_def count_update)
  have u: "lock_cache_r (lk s) = lock_cache_r_loop ((lk s)\<lparr>r_pend := Suc (r_pend (lk s))\<rparr>)" using assms(1) by (simp add: lock_inv_def lock_cache_r_def)
  show "live_inv (lk (enter s t (lock_cache_r (lk s)) HasR WaitR)) (pcs (enter s t (lock_cache_r (lk s)) HasR WaitR))" if "pcs s ! t = Idle"
    using r_loop_live [OF assms(1,2), of "Suc (r_pend (lk s))" "pcs (enter s t (lock_cache_r (lk s)) HasR WaitR)"] that c assms(3) by (simp add: enter_def count_update u)
qed

lemma enter_rw_live:
  assumes "lock_inv 2 (lk s) (pcs s)" "live_inv (lk s) (pcs s)" "t < length (pcs s)"
  shows "pcs s ! t = Idle \<Longrightarrow> live_inv (lk (enter s t (lock_cache_rw (lk s)) HasRW (WaitRW False))) (pcs (enter s t (lock_cache_rw (lk s)) HasRW (WaitRW False)))"
    and "pcs s ! t = Idle \<Longrightarrow> live_inv (lk (enter s t (timedlock_cache_rw (lk s)) HasRW (WaitRW True))) (pcs (enter s t (timedlock_cache_rw (lk s)) HasRW (WaitRW True)))"
    and "pcs s ! t = Sleeps \<Longrightarrow> live_inv (lk (enter s t (yield_back (lk s)) HasRW (WaitRW False))) (pcs (enter s t (yield_back (lk s)) HasRW (WaitRW False)))"
    and "pcs s ! t = WokenRW b \<Longrightarrow> live_inv (lk (enter s t (lock_cache_rw_loop (lk s)) HasRW (WaitRW b))) (pcs (enter s t (lock_cache_rw_loop (lk s)) HasRW (WaitRW b)))"
  using assms count_here [OF assms(3) refl]
  by (auto simp: lock_inv_def live_inv_def enter_def lock_cache_rw_def lock_cache_rw_loop_def timedlock_cache_rw_def yield_back_def count_update; cases b; auto)+

lemma quiet_live:
  assumes "lock_inv 2 (lk s) (pcs s)" "live_inv (lk s) (pcs s)" "t < length (pcs s)"
  shows "pcs s ! t = HasRW \<Longrightarrow> q \<in> {HasRW, Yields} \<Longrightarrow> live_inv (lk s) ((pcs s)[t := q])"
    and "live_inv (lk s) ((pcs s)[t := woken (pcs s ! t)])"
    and "pcs s ! t = WaitRW True \<Longrightarrow> live_inv (lk s) ((pcs s)[t := TimedOut])"
    and "pcs s ! t = TimedOut \<Longrightarrow> live_inv (timedlock_cleanup (lk s)) ((pcs s)[t := Idle])"
proof -
  have c: "0 < count_list (pcs s) (pcs s ! t)" by (rule count_here [OF assms(3) refl])
  show "pcs s ! t = HasRW \<Longrightarrow> q \<in> {HasRW, Yields} \<Longrightarrow> live_inv (lk s) ((pcs s)[t := q])"
    "pcs s ! t = WaitRW True \<Longrightarrow> live_inv (lk s) ((pcs s)[t := TimedOut])"
    "pcs s ! t = TimedOut \<Longrightarrow> live_inv (timedlock_cleanup (lk s)) ((pcs s)[t := Idle])"
    using assms(2,3) c by (auto simp: live_inv_def count_update timedlock_cleanup_def)
  show "live_inv (lk s) ((pcs s)[t := woken (pcs s ! t)])"
    using assms(2,3) c by (auto simp: live_inv_def count_update woken_def split: place.split bool.split)
qed

lemma release_live:
  assumes "lock_inv 2 (lk s) (pcs s)" "t < length (pcs s)" "pcs s ! t \<in> {HasRW, Yields}" "p \<in> {Idle, Sleeps}"
    "leave s t (release_rw (lk s)) p w = Some s'"
  shows "live_inv (lk s') (pcs s')"
proof -
  let ?ps = "(pcs s)[t := p]" and ?l = "(lk s)\<lparr>cache_w_lock := False, r_susp := False\<rparr>"
  have c: "0 < count_list (pcs s) (pcs s ! t)" by (rule count_here [OF assms(2) refl])
  have same: "count_list ?ps q = count_list (pcs s) q" if "q \<notin> {HasRW, Yields, Idle, Sleeps}" for q
    using assms(2-4) that by (auto simp: count_update)
  show ?thesis
  proof (cases "r_pend (lk s) = 0 \<or> SUSP_THRESH (r_pend (lk s)) < rw_pend (lk s)")
    case True
    then have sg: "wake_up [Signal_rw] w ?ps = Some (pcs s')" and l: "lk s' = ?l" using assms(5) by (auto simp: leave_def release_rw_def simp del: wake_up.simps)
    from sg show ?thesis
    proof (cases rule: signal_cases)
      case none
      then show ?thesis using True assms(1) l by (auto simp: live_inv_def lock_inv_def same timed_def SUSP_THRESH_def)
    next
      case (one b)
      then show ?thesis using True assms(1) l by (cases b) (auto simp: live_inv_def lock_inv_def same count_update timed_def SUSP_THRESH_def)
    qed
  next
    case False
    then have "pcs s' = map (\<lambda>p. if p = WaitR then WokenR else p) ?ps" "lk s' = ?l" using assms(5) by (auto simp: leave_def release_rw_def)
    then show ?thesis using False assms(1) by (auto simp: live_inv_def lock_inv_def count_broadcast same)
  qed
qed

lemma unlock_r_live:
  assumes "lock_inv 2 (lk s) (pcs s)" "live_inv (lk s) (pcs s)" "t < length (pcs s)" "pcs s ! t = HasR"
    "leave s t (unlock_cache_r (lk s)) Idle w = Some s'"
  shows "live_inv (lk s') (pcs s')"
proof -
  let ?ps = "(pcs s)[t := Idle]" and ?l = "(lk s)\<lparr>cache_r_lock := cache_r_lock (lk s) - 1\<rparr>"
  have c: "0 < count_list (pcs s) HasR" by (rule count_here [OF assms(3,4)])
  have same: "count_list ?ps q = count_list (pcs s) q" if "q \<notin> {HasR, Idle}" for q
    using assms(3,4) that by (auto simp: count_update)
  have u: "unlock_cache_r (lk s) = (?l, if cache_r_lock (lk s) = 1 then [Signal_rw] else [])" using assms(1) c by (auto simp: unlock_cache_r_def lock_inv_def Let_def)
  show ?thesis
  proof (cases "cache_r_lock (lk s) = 1")
    case True
    then have sg: "wake_up [Signal_rw] w ?ps = Some (pcs s')" and l: "lk s' = ?l" using assms(5) by (auto simp: leave_def u simp del: wake_up.simps)
    from sg show ?thesis
    proof (cases rule: signal_cases)
      case none
      then show ?thesis using True assms(1,2) l by (auto simp: live_inv_def lock_inv_def same timed_def)
    next
      case (one b)
      then show ?thesis using True assms(1,2) l by (cases b) (auto simp: live_inv_def lock_inv_def same count_update timed_def)
    qed
  next
    case False
    then have "pcs s' = ?ps" "lk s' = ?l" using assms(5) by (auto simp: leave_def u)
    then show ?thesis using False assms(1,2) c by (auto simp: live_inv_def lock_inv_def same)
  qed
qed

lemma lock_step_live:
  assumes "lock_inv 2 (lk s) (pcs s)" "live_inv (lk s) (pcs s)" "lock_step 2 False s e = Some s'"
  shows "live_inv (lk s') (pcs s')"
proof (cases e)
  case (Run t)
  then have t: "t < length (pcs s)" using assms(3) by (simp split: if_splits)
  show ?thesis
  proof (cases "pcs s ! t")
    case WokenR
    then show ?thesis using enter_r_live(1) [OF assms(1,2) t] assms(3) Run t by simp
  next
    case (WokenRW b)
    then show ?thesis using enter_rw_live(4) [OF assms(1,2) t] assms(3) Run t by simp
  next
    case TimedOut
    then show ?thesis using quiet_live(4) [OF assms(1,2) t] assms(3) Run t by auto
  qed (use assms(3) Run t in simp_all)
next
  case (UnlockR t w)
  then show ?thesis using unlock_r_live [OF assms(1,2)] assms(3) by (simp split: if_splits)
next
  case (UnlockRW t w)
  moreover have "unlock_cache_rw (lk s) = release_rw (lk s)" using assms(1) by (simp add: unlock_cache_rw_def lock_inv_def)
  ultimately show ?thesis using release_live [OF assms(1)] assms(3) by (auto split: if_splits)
next
  case (GiveUp t w)
  then show ?thesis using release_live [OF assms(1)] assms(3) by (auto split: if_splits)
qed (use assms(3) enter_r_live [OF assms(1,2)] enter_rw_live [OF assms(1,2)] quiet_live [OF assms(1,2)] in \<open>auto split: if_splits\<close>)

lemma lock_reach_live:
  assumes "lock_reach 2 False n s"
  shows "live_inv (lk s) (pcs s)"
  using assms
proof induction
  case start
  show ?case by (simp add: live_inv_def init_cache_lock_def initial_lock_def count_list_0_iff)
next
  case (step s e s')
  then show ?case using lock_step_live lock_reach_inv by blast
qed

subsection \<open>Properties\<close>


text \<open>Two threads read, a third waits to write and yields later; the run is a list of events.\<close>

fun lock_run :: "nat \<Rightarrow> bool \<Rightarrow> cache_threads \<Rightarrow> lock_event list \<Rightarrow> cache_threads option" where
  "lock_run m soft s [] = Some s"
| "lock_run m soft s (e # es) = (case lock_step m soft s e of None \<Rightarrow> None | Some s' \<Rightarrow> lock_run m soft s' es)"

lemma lock_run_reach: "lock_reach m soft n s \<Longrightarrow> lock_run m soft s es = Some s' \<Longrightarrow> lock_reach m soft n s'"
  by (induction es arbitrary: s) (auto split: option.splits intro: lock_reach.step)

definition ex_lock :: "nat \<Rightarrow> cache_threads" where
  "ex_lock n = \<lparr>lk = init_cache_lock initial_lock, pcs = replicate n Idle\<rparr>"

lemmas lock_eval = ex_lock_def init_cache_lock_def initial_lock_def lock_op_defs enter_def leave_def Let_def SUSP_THRESH_def waits_rw_def
  woken_def timed_def numeral_2_eq_2 numeral_3_eq_3 eval_nat_numeral

lemma ex_lock_run: "lock_run m soft (ex_lock n) es = Some s \<Longrightarrow> lock_reach m soft n s"
  using lock_run_reach [OF lock_reach.start] by (simp add: ex_lock_def)




text \<open>The bound of two is sharp: with three threads whose time runs out, readers stay suspended while nobody holds the lock.\<close>

lemma three_timed_threads_block:
  "map_option (\<lambda>s. (pcs s, r_susp (lk s), cache_w_lock (lk s), cache_r_lock (lk s)))
     (lock_run 3 False (ex_lock 5) [LockR 0, TimedLockRW 1, TimedLockRW 2, TimedLockRW 3, LockR 4, Timeout 1, Timeout 2, Timeout 3, Run 1, Run 2, Run 3, UnlockR 0 0]) =
   Some ([Idle, Idle, Idle, Idle, WaitR], True, False, 0)"
  by code_simp

end
