(* ===== verification/RrList.thy ===== *)
theory RrList
  imports LinkedList "HOL-Library.Multiset"
begin

text \<open>
  The list of the record sets in the cache of \<^verbatim>\<open>pdnsd\<close>, oldest first, from which the cache is purged (\<^verbatim>\<open>pdnsd/src/cache.c\<close>): \<^verbatim>\<open>insert_rrl\<close>, \<^verbatim>\<open>remove_rrl\<close>, and
  the merge sort \<^verbatim>\<open>listmerge\<close>, \<^verbatim>\<open>sort_rrl\<close> that replaces sorted insertion while the disk cache is read.  At pointer level, on the memory
  of \<^verbatim>\<open>LinkedList\<close>; loops are partial functions and shown to end.  Shown: both ways give the stable sort by time stamp.
\<close>

subsection \<open>The operations\<close>

text \<open>An entry refers to a record set, or to a negatively cached domain (then \<^verbatim>\<open>rrset\<close> is \<^verbatim>\<open>NULL\<close> and \<^verbatim>\<open>idx\<close> is -1).\<close>

record rr_lent_t =
  rrset :: "nat option"
  cent :: nat
  idx :: int

record rr_list =
  rrset_l :: "nat option"
  rrset_l_tail :: "nat option"
  links :: "nat dl_heap"
  lents :: "nat \<Rightarrow> rr_lent_t"
  insert_sort :: bool

text \<open>The time stamps of record sets and of negatively cached domains.\<close>

type_synonym stamps = "(nat \<Rightarrow> int) \<times> (nat \<Rightarrow> int)"

definition get_rrlent_ts :: "stamps \<Rightarrow> (nat \<Rightarrow> rr_lent_t) \<Rightarrow> nat \<Rightarrow> int" where
  "get_rrlent_ts st m le = (case rrset (m le) of Some r \<Rightarrow> fst st r | None \<Rightarrow> snd st (cent (m le)))"

text \<open>The search from the end of the list.\<close>

partial_function (option) find_back :: "(nat \<Rightarrow> int) \<Rightarrow> int \<Rightarrow> nat dl_heap \<Rightarrow> nat option \<Rightarrow> nat option option" where
  "find_back f t h le = (if le = None then Some None else if f (the le) \<le> t then Some le else find_back f t h (nd_prev h (the le)))"

definition set_next :: "nat \<Rightarrow> nat option \<Rightarrow> rr_list \<Rightarrow> rr_list" where
  "set_next n v s = s\<lparr>links := (links s)\<lparr>nd_next := (nd_next (links s))(n := v)\<rparr>\<rparr>"

definition set_prev :: "nat \<Rightarrow> nat option \<Rightarrow> rr_list \<Rightarrow> rr_list" where
  "set_prev n v s = s\<lparr>links := (links s)\<lparr>nd_prev := (nd_prev (links s))(n := v)\<rparr>\<rparr>"

definition link_first :: "nat \<Rightarrow> rr_list \<Rightarrow> rr_list" where
  "link_first ne s =
     (let s = set_next ne (rrset_l s) s;
          s = (case rrset_l s of Some f \<Rightarrow> set_prev f (Some ne) s | None \<Rightarrow> s\<lparr>rrset_l_tail := Some ne\<rparr>)
      in s\<lparr>rrset_l := Some ne\<rparr>)"

definition link_after :: "nat \<Rightarrow> nat \<Rightarrow> rr_list \<Rightarrow> rr_list" where
  "link_after ne le s =
     (let s = set_prev ne (Some le) (set_next ne (nd_next (links s) le) s);
          s = (case nd_next (links s) le of Some n \<Rightarrow> set_prev n (Some ne) s | None \<Rightarrow> s\<lparr>rrset_l_tail := Some ne\<rparr>)
      in set_next le (Some ne) s)"

definition link_last :: "nat \<Rightarrow> rr_list \<Rightarrow> rr_list" where
  "link_last ne s =
     (let s = set_prev ne (rrset_l_tail s) s;
          s = (case rrset_l_tail s of Some t \<Rightarrow> set_next t (Some ne) s | None \<Rightarrow> s\<lparr>rrset_l := Some ne\<rparr>)
      in s\<lparr>rrset_l_tail := Some ne\<rparr>)"

text \<open>
  \<open>local\<close>: the record set or its domain is local.  \<open>alloc\<close> is the address that \<^verbatim>\<open>malloc\<close> returns.  Returned are the return value and the
  pointer stored in the field \<^verbatim>\<open>lent\<close> of the record set or of the domain, if it is stored.
\<close>

definition insert_rrl :: "stamps \<Rightarrow> bool \<Rightarrow> nat option \<Rightarrow> nat option \<Rightarrow> nat \<Rightarrow> int \<Rightarrow> rr_list \<Rightarrow> (bool \<times> nat option \<times> rr_list) option" where
  "insert_rrl st local alloc rrs c i s =
     (if local then Some (True, None, s)
      else (case alloc of None \<Rightarrow> Some (False, None, s)
        | Some ne \<Rightarrow>
            (let s = set_prev ne None (set_next ne None (s\<lparr>lents := (lents s)(ne := \<lparr>rrset = rrs, cent = c, idx = i\<rparr>)\<rparr>));
                 f = get_rrlent_ts st (lents s)
             in if insert_sort s
                then (case find_back f (f ne) (links s) (rrset_l_tail s) of None \<Rightarrow> None
                  | Some None \<Rightarrow> Some (True, Some ne, link_first ne s)
                  | Some (Some le) \<Rightarrow> Some (True, Some ne, link_after ne le s))
                else Some (True, Some ne, link_last ne s))))"

definition remove_rrl :: "nat \<Rightarrow> rr_list \<Rightarrow> rr_list" where
  "remove_rrl le s =
     (let nx = nd_next (links s) le; pr = nd_prev (links s) le;
          s = (case nx of Some n \<Rightarrow> set_prev n pr s | None \<Rightarrow> s\<lparr>rrset_l_tail := pr\<rparr>)
      in case pr of Some p \<Rightarrow> set_next p nx s | None \<Rightarrow> s\<lparr>rrset_l := nx\<rparr>)"

text \<open>Merging two lists along the forward links.  The place \<^verbatim>\<open>s\<close> to be written is the variable \<^verbatim>\<open>l\<close> (\<open>None\<close>) or the link of a node.\<close>

fun put :: "nat option \<Rightarrow> nat option \<Rightarrow> nat option \<times> nat dl_heap \<Rightarrow> nat option \<times> nat dl_heap" where
  "put None v (l, h) = (v, h)"
| "put (Some n) v (l, h) = (l, h\<lparr>nd_next := (nd_next h)(n := v)\<rparr>)"

partial_function (option) merge_loop :: "(nat \<Rightarrow> int) \<Rightarrow> nat option \<Rightarrow> nat \<Rightarrow> nat \<Rightarrow> nat option \<times> nat dl_heap \<Rightarrow> (nat option \<times> nat dl_heap) option" where
  "merge_loop f s p q m =
     (if f p \<le> f q
      then (let m = put s (Some p) m
            in if nd_next (snd m) p = None then Some (put (Some p) (Some q) m) else merge_loop f (Some p) (the (nd_next (snd m) p)) q m)
      else (let m = put s (Some q) m
            in if nd_next (snd m) q = None then Some (put (Some q) (Some p) m) else merge_loop f (Some q) p (the (nd_next (snd m) q)) m))"

definition listmerge :: "(nat \<Rightarrow> int) \<Rightarrow> nat option \<Rightarrow> nat option \<Rightarrow> nat dl_heap \<Rightarrow> (nat option \<times> nat dl_heap) option" where
  "listmerge f p q h =
     (case p of None \<Rightarrow> Some (q, h) | Some p \<Rightarrow> (case q of None \<Rightarrow> Some (Some p, h) | Some q \<Rightarrow> merge_loop f None p q (None, h)))"

definition NTMPSORT :: nat where "NTMPSORT = 32"

text \<open>The loop over \<^verbatim>\<open>counter\<close>: while a slot is occupied, its list is merged with the carry.  \<open>None\<close> if the array overflows.\<close>

partial_function (option) carry_loop :: "(nat \<Rightarrow> int) \<Rightarrow> nat \<Rightarrow> nat \<Rightarrow> nat option list \<Rightarrow> nat option \<Rightarrow> nat dl_heap \<Rightarrow>
    (nat option list \<times> nat \<times> nat dl_heap) option" where
  "carry_loop f fill i tmp c h =
     (if i \<noteq> fill \<and> tmp ! i \<noteq> None
      then Option.bind (listmerge f (tmp ! i) c h) (\<lambda>m. carry_loop f fill (i + 1) (tmp[i := None]) (fst m) (snd m))
      else if i = NTMPSORT then None
      else Some (tmp[i := c], if i = fill then fill + 1 else fill, h))"

partial_function (option) sort_loop :: "(nat \<Rightarrow> int) \<Rightarrow> nat \<Rightarrow> nat option list \<Rightarrow> nat \<Rightarrow> nat dl_heap \<Rightarrow>
    (nat option list \<times> nat \<times> nat dl_heap) option" where
  "sort_loop f fill tmp c h =
     (let rem = nd_next h c; h = h\<lparr>nd_next := (nd_next h)(c := None)\<rparr>
      in Option.bind (carry_loop f fill 0 tmp (Some c) h) (\<lambda>r.
           if rem = None then Some r else sort_loop f (fst (snd r)) (fst r) (the rem) (snd (snd r))))"

text \<open>Merging what is left in the array, from slot \<open>i\<close> on.\<close>

fun merge_rest :: "(nat \<Rightarrow> int) \<Rightarrow> nat option list \<Rightarrow> nat option \<Rightarrow> nat dl_heap \<Rightarrow> (nat option \<times> nat dl_heap) option" where
  "merge_rest f [] c h = Some (c, h)"
| "merge_rest f (t # ts) c h = (case listmerge f t c h of None \<Rightarrow> None | Some (c, h) \<Rightarrow> merge_rest f ts c h)"

partial_function (option) restore_back :: "nat option \<Rightarrow> nat option \<Rightarrow> nat dl_heap \<Rightarrow> (nat option \<times> nat dl_heap) option" where
  "restore_back p q h = (if p = None then Some (q, h)
     else restore_back (nd_next h (the p)) p (h\<lparr>nd_prev := (nd_prev h)(the p := q)\<rparr>))"

definition sort_rrl :: "stamps \<Rightarrow> rr_list \<Rightarrow> rr_list option" where
  "sort_rrl st s = (case rrset_l s of None \<Rightarrow> Some s | Some c \<Rightarrow>
     if nd_next (links s) c = None then Some s
     else (let f = get_rrlent_ts st (lents s)
       in case sort_loop f 0 (replicate NTMPSORT None) c (links s) of None \<Rightarrow> None
          | Some (tmp, fill, h) \<Rightarrow> (case merge_rest f (tl (take fill tmp)) (tmp ! 0) h of None \<Rightarrow> None
             | Some (first, h) \<Rightarrow> (case restore_back first None h of None \<Rightarrow> None
                | Some (tail, h) \<Rightarrow> Some (s\<lparr>rrset_l := first, rrset_l_tail := tail, links := h\<rparr>)))))"

subsection \<open>Insertion and removal\<close>

definition rrl_rep :: "rr_list \<Rightarrow> nat list \<Rightarrow> bool" where
  "rrl_rep s xs \<longleftrightarrow> LL_rep (\<lparr>ll_first = rrset_l s, ll_last = rrset_l_tail s\<rparr>, links s) xs"

lemmas link_defs = set_next_def set_prev_def link_first_def link_after_def link_last_def remove_rrl_def

lemma link_fields [simp]:
  "lents (link_first ne s) = lents s" "lents (link_after ne le s) = lents s" "lents (link_last ne s) = lents s" "lents (remove_rrl le s) = lents s"
  "insert_sort (link_first ne s) = insert_sort s" "insert_sort (link_after ne le s) = insert_sort s"
  "insert_sort (link_last ne s) = insert_sort s" "insert_sort (remove_rrl le s) = insert_sort s"
  by (simp_all add: link_defs Let_def split: option.split)

lemma rrl_rep_fresh:
  assumes "rrl_rep s xs" "ne \<notin> set xs"
  shows "rrl_rep (set_prev ne a (set_next ne b (s\<lparr>lents := m\<rparr>))) xs"
proof -
  have "dlseg (links (set_prev ne a (set_next ne b (s\<lparr>lents := m\<rparr>)))) None xs None = dlseg (links s) None xs None"
    by (rule dlseg_cong) (use assms(2) in \<open>auto simp: link_defs\<close>)
  then show ?thesis using assms(1) by (simp add: rrl_rep_def LL_rep_def link_defs)
qed

lemma link_first_rep:
  assumes "rrl_rep s xs" "ne \<notin> set xs" "nd_prev (links s) ne = None"
  shows "rrl_rep (link_first ne s) (ne # xs)"
  using assms by (cases xs) (auto simp: rrl_rep_def LL_rep_def link_defs last_opt_Cons)

lemma link_last_rep:
  assumes "rrl_rep s xs" "ne \<notin> set xs" "nd_next (links s) ne = None"
  shows "rrl_rep (link_last ne s) (xs @ [ne])"
  using assms by (cases xs rule: list_end_cases) (auto simp: rrl_rep_def LL_rep_def link_defs dlseg_append last_opt_append hd_opt_append Let_def)

lemma link_after_rep:
  assumes "rrl_rep s (xs @ le # ys)" "ne \<notin> set (xs @ le # ys)"
  shows "rrl_rep (link_after ne le s) (xs @ le # ne # ys)"
  using assms by (cases xs rule: list_end_cases; cases ys)
    (auto simp: rrl_rep_def LL_rep_def link_defs dlseg_append last_opt_append hd_opt_append Let_def)

lemma remove_rrl_rep:
  assumes "rrl_rep s (xs @ le # ys)"
  shows "rrl_rep (remove_rrl le s) (xs @ ys)"
  using assms by (cases xs rule: list_end_cases; cases ys)
    (auto simp: rrl_rep_def LL_rep_def link_defs dlseg_append last_opt_append hd_opt_append Let_def)

text \<open>The search ends at the last entry that is not newer.\<close>

lemma or_else_None [simp]: "or_else a None = a"
  by (cases a) simp_all

lemma find_back_result:
  assumes "dlseg h None (xs @ ys) nx" "\<forall>y \<in> set ys. t < f y" "xs = [] \<or> f (last xs) \<le> t"
  shows "find_back f t h (last_opt (xs @ ys)) = Some (last_opt xs)"
  using assms(1,2)
proof (induction ys arbitrary: nx rule: rev_induct)
  case Nil
  then show ?case using assms(3) by (cases xs rule: list_end_cases) (simp_all add: find_back.simps)
next
  case (snoc y ys)
  have "nd_prev h y = last_opt (xs @ ys)" using dlseg_prev [of h None "xs @ ys" y "[]" nx] snoc.prems(1) by simp
  moreover have "dlseg h None (xs @ ys) (Some y)" using snoc.prems(1) dlseg_append [of h None "xs @ ys" "[y]" nx] by simp
  moreover have "last_opt (xs @ ys @ [y]) = Some y" by (simp add: last_opt_append)
  ultimately show ?case using snoc.IH snoc.prems(2) by (subst find_back.simps) simp
qed

text \<open>The stable sort of a sorted list followed by one more element.\<close>

lemma sort_key_insert:
  assumes "sorted (map f (xs @ ys))" "\<forall>x \<in> set xs. f x \<le> f e" "\<forall>y \<in> set ys. f e < f y"
  shows "sort_key f (xs @ ys @ [e]) = xs @ e # ys"
proof (rule properties_for_sort_key)
  fix k
  have "filter (\<lambda>x. f k = f x) ys = []" if "f k = f e" using assms(3) that by (auto simp: filter_empty_conv)
  then show "filter (\<lambda>x. f k = f x) (xs @ e # ys) = filter (\<lambda>x. f k = f x) (xs @ ys @ [e])" by simp
next
  show "sorted (map f (xs @ e # ys))" using assms by (auto simp: sorted_append intro: less_imp_le)
qed simp

text \<open>Insertion on the sequence: after the last entry that is not newer.\<close>

definition insert_back :: "('a \<Rightarrow> int) \<Rightarrow> int \<Rightarrow> 'a \<Rightarrow> 'a list \<Rightarrow> 'a list" where
  "insert_back f t x xs = rev (dropWhile (\<lambda>y. t < f y) (rev xs)) @ x # rev (takeWhile (\<lambda>y. t < f y) (rev xs))"

lemma insert_back_split:
  obtains us vs where "xs = us @ vs" "insert_back f t x xs = us @ x # vs" "\<forall>y \<in> set vs. t < f y" "us = [] \<or> f (last us) \<le> t"
proof
  let ?us = "rev (dropWhile (\<lambda>y. t < f y) (rev xs))" and ?vs = "rev (takeWhile (\<lambda>y. t < f y) (rev xs))"
  show "xs = ?us @ ?vs" by (metis rev_append rev_rev_ident takeWhile_dropWhile_id)
  show "insert_back f t x xs = ?us @ x # ?vs" by (simp add: insert_back_def)
  show "\<forall>y \<in> set ?vs. t < f y" by (auto dest: set_takeWhileD)
  show "?us = [] \<or> f (last ?us) \<le> t"
    using hd_dropWhile [of "\<lambda>y. t < f y" "rev xs"] by (cases "dropWhile (\<lambda>y. t < f y) (rev xs)") auto
qed

lemma set_insert_back [simp]: "set (insert_back f t x xs) = insert x (set xs)"
  by (rule insert_back_split [of xs f t x]) auto

lemma distinct_insert_back: "distinct (map g (insert_back f t x xs)) \<longleftrightarrow> distinct (g x # map g xs)"
  by (rule insert_back_split [of xs f t x]) auto

lemma insert_back_sorted:
  assumes "sorted (map f xs)" shows "insert_back f (f e) e xs = sort_key f (xs @ [e])"
proof (rule insert_back_split [of xs f "f e" e])
  fix us vs assume u: "xs = us @ vs" "insert_back f (f e) e xs = us @ e # vs" "\<forall>y \<in> set vs. f e < f y" "us = [] \<or> f (last us) \<le> f e"
  have "\<forall>x \<in> set us. f x \<le> f e"
    using assms u(1,4) by (cases us rule: list_end_cases) (auto simp: sorted_append)
  then show ?thesis using sort_key_insert [of f us vs e] assms u by simp
qed

lemma insert_rrl_seq:
  assumes rep: "rrl_rep s xs" and ne: "ne \<notin> set xs" and m: "m = (lents s)(ne := \<lparr>rrset = rrs, cent = c, idx = i\<rparr>)"
  shows "\<exists>s'. insert_rrl st False (Some ne) rrs c i s = Some (True, Some ne, s') \<and> lents s' = m \<and> insert_sort s' = insert_sort s \<and>
    rrl_rep s' (if insert_sort s then insert_back (get_rrlent_ts st m) (get_rrlent_ts st m ne) ne xs else xs @ [ne])"
proof -
  let ?f = "get_rrlent_ts st m"
  define s1 where "s1 = set_prev ne None (set_next ne None (s\<lparr>lents := m\<rparr>))"
  have s1: "rrl_rep s1 xs" "nd_prev (links s1) ne = None" "nd_next (links s1) ne = None" "lents s1 = m" "insert_sort s1 = insert_sort s"
    using rrl_rep_fresh [OF rep ne] by (simp_all add: s1_def) (simp_all add: set_prev_def set_next_def)
  have ins: "insert_rrl st False (Some ne) rrs c i s =
     (if insert_sort s then (case find_back ?f (?f ne) (links s1) (rrset_l_tail s1) of None \<Rightarrow> None | Some None \<Rightarrow> Some (True, Some ne, link_first ne s1)
        | Some (Some le) \<Rightarrow> Some (True, Some ne, link_after ne le s1)) else Some (True, Some ne, link_last ne s1))"
    using s1(4,5) by (simp add: insert_rrl_def s1_def m Let_def split: option.split)
  show ?thesis
  proof (cases "insert_sort s")
    case False
    then show ?thesis using ins s1 link_last_rep [OF s1(1) ne s1(3)] by simp
  next
    case True
    obtain us vs where u: "xs = us @ vs" "insert_back ?f (?f ne) ne xs = us @ ne # vs" "\<forall>y \<in> set vs. ?f ne < ?f y" "us = [] \<or> ?f (last us) \<le> ?f ne"
      by (rule insert_back_split)
    have fb: "find_back ?f (?f ne) (links s1) (rrset_l_tail s1) = Some (last_opt us)"
      using find_back_result [of "links s1" us vs None "?f ne" ?f] s1(1) u by (simp add: rrl_rep_def LL_rep_def)
    show ?thesis
    proof (cases us rule: list_end_cases)
      assume "us = []"
      then show ?thesis using ins fb u link_first_rep [OF s1(1) ne s1(2)] s1(4,5) True by simp
    next
      fix ws le assume w: "us = ws @ [le]"
      then have "rrl_rep (link_after ne le s1) (ws @ le # ne # vs)" using link_after_rep [of s1 ws le vs ne] s1(1) ne u(1) by simp
      then show ?thesis using ins fb u w s1(4,5) True by simp
    qed
  qed
qed

lemma insert_rrl_rep:
  assumes "rrl_rep s xs" "ne \<notin> set xs" "m = (lents s)(ne := \<lparr>rrset = rrs, cent = c, idx = i\<rparr>)" "insert_sort s \<longrightarrow> sorted (map (get_rrlent_ts st m) xs)"
  shows "\<exists>s'. insert_rrl st False (Some ne) rrs c i s = Some (True, Some ne, s') \<and> lents s' = m \<and> insert_sort s' = insert_sort s \<and>
    rrl_rep s' (if insert_sort s then sort_key (get_rrlent_ts st m) (xs @ [ne]) else xs @ [ne])"
  using insert_rrl_seq [OF assms(1-3), of st] assms(4) by (cases "insert_sort s") (simp_all add: insert_back_sorted)

subsection \<open>Sorting\<close>

text \<open>A chain along the forward links.\<close>

fun nseg :: "nat dl_heap \<Rightarrow> nat list \<Rightarrow> nat option \<Rightarrow> bool" where
  "nseg h [] nx = True"
| "nseg h (x # xs) nx \<longleftrightarrow> nd_next h x = or_else (hd_opt xs) nx \<and> nseg h xs nx"

lemma nseg_cong: "(\<And>x. x \<in> set xs \<Longrightarrow> nd_next h' x = nd_next h x) \<Longrightarrow> nseg h' xs nx = nseg h xs nx"
  by (induction xs) auto

lemma nseg_cut: "x \<notin> set l \<Longrightarrow> nseg (h\<lparr>nd_next := (nd_next h)(x := v)\<rparr>) l nx = nseg h l nx"
  by (rule nseg_cong) auto

text \<open>Merging of lists, which prefers the first list among equal time stamps.\<close>

fun mrg :: "(nat \<Rightarrow> int) \<Rightarrow> nat list \<Rightarrow> nat list \<Rightarrow> nat list" where
  "mrg f [] ys = ys"
| "mrg f xs [] = xs"
| "mrg f (x # xs) (y # ys) = (if f x \<le> f y then x # mrg f xs (y # ys) else y # mrg f (x # xs) ys)"

lemma mrg_Nil2 [simp]: "mrg f xs [] = xs"
  by (cases xs) simp_all

lemma set_mrg: "set (mrg f xs ys) = set xs \<union> set ys"
  by (induction f xs ys rule: mrg.induct) auto

lemma mset_mrg: "mset (mrg f xs ys) = mset xs + mset ys"
  by (induction f xs ys rule: mrg.induct) auto

lemma sorted_mrg: "sorted (map f xs) \<Longrightarrow> sorted (map f ys) \<Longrightarrow> sorted (map f (mrg f xs ys))"
  by (induction f xs ys rule: mrg.induct) (auto simp: set_mrg)

lemma filter_mrg:
  "sorted (map f xs) \<Longrightarrow> sorted (map f ys) \<Longrightarrow> filter (\<lambda>x. f x = k) (mrg f xs ys) = filter (\<lambda>x. f x = k) xs @ filter (\<lambda>x. f x = k) ys"
proof (induction f xs ys rule: mrg.induct)
  case (3 f x xs y ys)
  show ?case
  proof (cases "f x \<le> f y")
    case False
    then have "filter (\<lambda>x. f x = f y) (x # xs) = []" using "3.prems"(1) by (auto simp: filter_empty_conv)
    then show ?thesis using 3 False by (cases "k = f y") auto
  qed (use 3 in auto)
qed auto

lemma mrg_sort_key: "mrg f (sort_key f xs) (sort_key f ys) = sort_key f (xs @ ys)"
proof (rule sym, rule properties_for_sort_key)
  show "mset (mrg f (sort_key f xs) (sort_key f ys)) = mset (xs @ ys)" by (simp add: mset_mrg)
  show "sorted (map f (mrg f (sort_key f xs) (sort_key f ys)))" by (simp add: sorted_mrg)
  show "filter (\<lambda>x. f k = f x) (mrg f (sort_key f xs) (sort_key f ys)) = filter (\<lambda>x. f k = f x) (xs @ ys)" for k
  proof -
    have "(\<lambda>x. f k = f x) = (\<lambda>x. f x = f k)" by auto
    then show ?thesis by (simp add: filter_mrg sort_key_stable)
  qed
qed

definition got :: "nat option \<Rightarrow> nat option \<times> nat dl_heap \<Rightarrow> nat option" where
  "got s m = (case s of None \<Rightarrow> fst m | Some n \<Rightarrow> nd_next (snd m) n)"

definition outside :: "nat set \<Rightarrow> nat option \<Rightarrow> nat option \<times> nat dl_heap \<Rightarrow> nat option \<times> nat dl_heap \<Rightarrow> bool" where
  "outside A s m m' \<longleftrightarrow> nd_prev (snd m') = nd_prev (snd m) \<and> (s \<noteq> None \<longrightarrow> fst m' = fst m) \<and>
     (\<forall>x. x \<notin> A \<and> s \<noteq> Some x \<longrightarrow> nd_next (snd m') x = nd_next (snd m) x)"

lemma put_simps:
  "s \<noteq> Some x \<Longrightarrow> nd_next (snd (put s v m)) x = nd_next (snd m) x" "nd_prev (snd (put s v m)) = nd_prev (snd m)"
  "got s (put s v m) = v" "s \<noteq> None \<Longrightarrow> fst (put s v m) = fst m" "nd_next (snd (put (Some x) v m)) x = v"
  by (cases s; cases m; simp add: got_def)+

lemma merge_step:
  assumes "nseg (snd m) (p # xs) None" "nseg (snd m) zs None" "p \<notin> set zs" "distinct (p # xs)" "\<And>n. s = Some n \<Longrightarrow> n \<notin> set (p # xs) \<union> set zs"
  shows "nd_next (snd (put s (Some p) m)) p = hd_opt xs" "nseg (snd (put s (Some p) m)) xs None" "nseg (snd (put s (Some p) m)) zs None"
proof -
  have n: "nd_next (snd (put s (Some p) m)) x = nd_next (snd m) x" if "x \<in> set (p # xs) \<union> set zs" for x using assms(5) that by (intro put_simps) blast
  show "nd_next (snd (put s (Some p) m)) p = hd_opt xs" using n [of p] assms(1) by simp
  show "nseg (snd (put s (Some p) m)) xs None" using nseg_cong [of xs "snd (put s (Some p) m)" "snd m"] n assms(1) by simp
  show "nseg (snd (put s (Some p) m)) zs None" using nseg_cong [of zs "snd (put s (Some p) m)" "snd m"] n assms(2) by simp
qed

lemma merge_last:
  assumes "nseg (snd m) [p] None" "nseg (snd m) (q # zs) None" "p \<notin> set (q # zs)" "\<And>n. s = Some n \<Longrightarrow> n \<notin> insert p (set (q # zs))"
  defines "m' \<equiv> put (Some p) (Some q) (put s (Some p) m)"
  shows "got s m' = Some p \<and> nseg (snd m') (p # q # zs) None \<and> outside (insert p (set (q # zs))) s m m'"
proof -
  have n: "nd_next (snd m') x = nd_next (snd m) x" if "x \<noteq> p" "s \<noteq> Some x" for x using that by (simp add: m'_def put_simps)
  have "nseg (snd m') (q # zs) None = nseg (snd m) (q # zs) None"
  proof (rule nseg_cong)
    fix x assume x: "x \<in> set (q # zs)"
    then have "x \<noteq> p" "s \<noteq> Some x" using assms(3) assms(4) [of x] by auto
    then show "nd_next (snd m') x = nd_next (snd m) x" by (rule n)
  qed
  then have "nseg (snd m') (p # q # zs) None" using assms(2) by (simp add: m'_def put_simps)
  moreover have "got s m' = Some p" using assms(4) by (cases s; cases m) (auto simp: m'_def got_def)
  moreover have "outside (insert p (set (q # zs))) s m m'" using n by (auto simp: outside_def m'_def put_simps)
  ultimately show ?thesis by blast
qed

lemma merge_link:
  assumes "got (Some p) m' = hd_opt rs" "nseg (snd m') rs None" "outside A (Some p) (put s (Some p) m) m'" "p \<notin> A" "\<And>n. s = Some n \<Longrightarrow> n \<notin> insert p A"
  shows "got s m' = Some p \<and> nseg (snd m') (p # rs) None \<and> outside (insert p A) s m m'"
proof -
  have "got s m' = Some p" using assms(3,5) put_simps(3) [of s "Some p" m] by (cases s) (auto simp: outside_def got_def)
  moreover have "outside (insert p A) s m m'" using assms(3) by (auto simp: outside_def put_simps)
  ultimately show ?thesis using assms(1,2) by (simp add: got_def)
qed

lemma merge_loop_result:
  assumes "nseg (snd m) (p # xs) None" "nseg (snd m) (q # ys) None" "distinct (p # xs @ q # ys)" "\<And>n. s = Some n \<Longrightarrow> n \<notin> set (p # xs @ q # ys)"
  shows "\<exists>m'. merge_loop f s p q m = Some m' \<and> got s m' = hd_opt (mrg f (p # xs) (q # ys)) \<and> nseg (snd m') (mrg f (p # xs) (q # ys)) None \<and>
    outside (set (p # xs @ q # ys)) s m m'"
  using assms
proof (induction "length xs + length ys" arbitrary: xs ys p q s m rule: less_induct)
  case less
  note [simp del] = nseg.simps
  have d: "p \<notin> set (q # ys)" "q \<notin> set (p # xs)" "distinct (p # xs)" "distinct (q # ys)" using less.prems(3) by auto
  show ?case
  proof (cases "f p \<le> f q")
    case True
    let ?m = "put s (Some p) m"
    have st: "nd_next (snd ?m) p = hd_opt xs" "nseg (snd ?m) xs None" "nseg (snd ?m) (q # ys) None"
      using merge_step [OF less.prems(1,2) d(1,3), of s] less.prems(4) by auto
    show ?thesis
    proof (cases xs)
      case Nil
      then show ?thesis using merge_last [of m p q ys s] less.prems True st(1) by (subst merge_loop.simps) (simp add: Let_def insert_commute)
    next
      case (Cons p' xs')
      obtain m' where m': "merge_loop f (Some p) p' q ?m = Some m'" "got (Some p) m' = hd_opt (mrg f (p' # xs') (q # ys))"
          "nseg (snd m') (mrg f (p' # xs') (q # ys)) None" "outside (set (p' # xs' @ q # ys)) (Some p) ?m m'"
        using less.hyps [of xs' ys ?m p' q "Some p"] st less.prems(3) Cons by auto
      have "merge_loop f s p q m = Some m'" using True st(1) Cons m'(1) by (subst merge_loop.simps) (simp add: Let_def)
      then show ?thesis using merge_link [OF m'(2-4)] less.prems(3,4) True Cons by auto
    qed
  next
    case False
    let ?m = "put s (Some q) m"
    have st: "nd_next (snd ?m) q = hd_opt ys" "nseg (snd ?m) ys None" "nseg (snd ?m) (p # xs) None"
      using merge_step [OF less.prems(2,1) d(2,4), of s] less.prems(4) by auto
    show ?thesis
    proof (cases ys)
      case Nil
      then show ?thesis using merge_last [of m q p xs s] less.prems False st(1) by (subst merge_loop.simps) (simp add: Let_def insert_commute)
    next
      case (Cons q' ys')
      obtain m' where m': "merge_loop f (Some q) p q' ?m = Some m'" "got (Some q) m' = hd_opt (mrg f (p # xs) (q' # ys'))"
          "nseg (snd m') (mrg f (p # xs) (q' # ys')) None" "outside (set (p # xs @ q' # ys')) (Some q) ?m m'"
        using less.hyps [of xs ys' ?m p q' "Some q"] st less.prems(3) Cons by auto
      have "merge_loop f s p q m = Some m'" using False st(1) Cons m'(1) by (subst merge_loop.simps) (simp add: Let_def)
      moreover have "insert q (set (p # xs @ q' # ys')) = set (p # xs @ q # ys)" using Cons by auto
      ultimately show ?thesis using merge_link [OF m'(2-4)] less.prems(3,4) False Cons by auto
    qed
  qed
qed

lemma listmerge_result:
  assumes "nseg h xs None" "nseg h ys None" "distinct (xs @ ys)"
  shows "\<exists>h'. listmerge f (hd_opt xs) (hd_opt ys) h = Some (hd_opt (mrg f xs ys), h') \<and> nseg h' (mrg f xs ys) None \<and> nd_prev h' = nd_prev h \<and>
    (\<forall>x. x \<notin> set xs \<union> set ys \<longrightarrow> nd_next h' x = nd_next h x)"
proof (cases "xs = [] \<or> ys = []")
  case True
  then show ?thesis using assms by (cases xs) (auto simp: listmerge_def split: option.split)
next
  case False
  then obtain p xs' q ys' where l: "xs = p # xs'" "ys = q # ys'" by (auto simp: neq_Nil_conv)
  obtain m' where "merge_loop f None p q (None, h) = Some m'" "got None m' = hd_opt (mrg f xs ys)" "nseg (snd m') (mrg f xs ys) None"
      "outside (set (p # xs' @ q # ys')) None (None, h) m'"
    using merge_loop_result [of "(None, h)" p xs' q ys' None f] assms l by auto
  then show ?thesis using l by (cases m') (auto simp: listmerge_def got_def outside_def)
qed

text \<open>The slots of the array as lists, up to \<^verbatim>\<open>fill\<close>.\<close>

fun pcarry :: "(nat \<Rightarrow> int) \<Rightarrow> nat list list \<Rightarrow> nat list \<Rightarrow> nat list list" where
  "pcarry f [] c = [c]"
| "pcarry f (l # L) c = (if l = [] then c # L else [] # pcarry f L (mrg f l c))"

definition slots :: "nat list list \<Rightarrow> nat option list" where
  "slots L = map hd_opt L @ replicate (NTMPSORT - length L) None"

lemma slots_nth: "length D + length L \<le> NTMPSORT \<Longrightarrow> slots (D @ l # L) ! length D = hd_opt l" "(slots (D @ l # L))[length D := hd_opt c] = slots (D @ c # L)"
  by (simp_all add: slots_def nth_append list_update_append)

lemma slots_end: "length D < NTMPSORT \<Longrightarrow> (slots D)[length D := hd_opt c] = slots (D @ [c])"
proof -
  assume "length D < NTMPSORT"
  then obtain k where "NTMPSORT - length D = Suc k" by (metis Suc_diff_Suc)
  then show ?thesis by (simp add: slots_def list_update_append)
qed

lemma set_pcarry: "set (concat (pcarry f L c)) = set (concat L) \<union> set c"
  by (induction f L c rule: pcarry.induct) (auto simp: set_mrg)

lemma length_pcarry: "length L \<le> length (pcarry f L c)"
  by (induction f L c rule: pcarry.induct) auto

lemma carry_loop_result:
  assumes "\<forall>l \<in> set L. nseg h l None" "nseg h c None" "distinct (concat L @ c)" "c \<noteq> []" "length D + length (pcarry f L c) \<le> NTMPSORT"
  shows "\<exists>h'. carry_loop f (length D + length L) (length D) (slots (D @ L)) (hd_opt c) h =
      Some (slots (D @ pcarry f L c), length D + length (pcarry f L c), h') \<and> (\<forall>l \<in> set (pcarry f L c). nseg h' l None) \<and> nd_prev h' = nd_prev h \<and>
      (\<forall>x. x \<notin> set (concat L) \<union> set c \<longrightarrow> nd_next h' x = nd_next h x)"
  using assms
proof (induction f L c arbitrary: D h rule: pcarry.induct)
  case (1 f c)
  then have "length D < NTMPSORT" by simp
  then show ?case using 1 slots_end [of D c] by (subst carry_loop.simps) simp
next
  case (2 f l L c)
  have n: "length D + length L \<le> NTMPSORT" using length_pcarry [of "l # L" f c] "2.prems"(5) by simp
  note sl = slots_nth(1) [OF n] slots_nth(2) [of D l L]
  show ?case
  proof (cases "l = []")
    case True
    then have "length D \<noteq> NTMPSORT" using "2.prems"(5) by simp
    then show ?thesis using True 2 sl by (subst carry_loop.simps) auto
  next
    case False
    obtain h1 where h1: "listmerge f (hd_opt l) (hd_opt c) h = Some (hd_opt (mrg f l c), h1)" "nseg h1 (mrg f l c) None" "nd_prev h1 = nd_prev h"
        "\<forall>x. x \<notin> set l \<union> set c \<longrightarrow> nd_next h1 x = nd_next h x"
      using listmerge_result [of h l c f] "2.prems"(1-3) by (auto simp: Int_Un_distrib)
    have L: "\<forall>l' \<in> set L. nseg h1 l' None"
    proof
      fix l' assume l': "l' \<in> set L"
      have "nseg h1 l' None = nseg h l' None" by (rule nseg_cong) (use h1(4) l' "2.prems"(3) in auto)
      then show "nseg h1 l' None" using "2.prems"(1) l' by simp
    qed
    have "distinct (mrg f l c) = distinct (l @ c)" using mset_mrg [of f l c] mset_eq_imp_distinct_iff [of "mrg f l c" "l @ c"] by simp
    then have d: "distinct (concat L @ mrg f l c)" using "2.prems"(3) by (auto simp: set_mrg Int_Un_distrib)
    obtain h' where h': "carry_loop f (length (D @ [[]]) + length L) (length (D @ [[]])) (slots ((D @ [[]]) @ L)) (hd_opt (mrg f l c)) h1 =
        Some (slots ((D @ [[]]) @ pcarry f L (mrg f l c)), length (D @ [[]]) + length (pcarry f L (mrg f l c)), h')"
        "\<forall>l \<in> set (pcarry f L (mrg f l c)). nseg h' l None" "nd_prev h' = nd_prev h1" "\<forall>x. x \<notin> set (concat L) \<union> set (mrg f l c) \<longrightarrow> nd_next h' x = nd_next h1 x"
      using "2.IH" [OF False L h1(2) d, of "D @ [[]]"] False "2.prems"(4,5) by (auto simp: set_mrg simp flip: set_empty)
    have "hd_opt l \<noteq> None" using False by simp
    then have "carry_loop f (length D + length (l # L)) (length D) (slots (D @ l # L)) (hd_opt c) h =
        carry_loop f (length (D @ [[]]) + length L) (length (D @ [[]])) (slots ((D @ [[]]) @ L)) (hd_opt (mrg f l c)) h1"
      using h1(1) sl(1) sl(2) [of "[]"] by (subst carry_loop.simps) simp
    then show ?thesis using h' h1(3,4) False by (auto simp: set_mrg)
  qed
qed

fun psort :: "(nat \<Rightarrow> int) \<Rightarrow> nat list list \<Rightarrow> nat list \<Rightarrow> nat list list" where
  "psort f L [] = L"
| "psort f L (x # xs) = psort f (pcarry f L [x]) xs"

lemma length_psort: "length L \<le> length (psort f L xs)"
  by (induction f L xs rule: psort.induct) (auto intro: le_trans [OF length_pcarry])

lemma distinct_pcarry: "distinct (concat L @ c) \<Longrightarrow> distinct (concat (pcarry f L c))"
proof -
  have "mset (concat (pcarry f L c)) = mset (concat L @ c)" by (induction f L c rule: pcarry.induct) (simp_all add: mset_mrg)
  then show "distinct (concat L @ c) \<Longrightarrow> distinct (concat (pcarry f L c))" using mset_eq_imp_distinct_iff by blast
qed

lemma sort_loop_result:
  assumes "\<forall>l \<in> set L. nseg h l None" "nseg h (x # xs) None" "distinct (concat L @ x # xs)" "length (psort f L (x # xs)) \<le> NTMPSORT"
  shows "\<exists>h'. sort_loop f (length L) (slots L) x h = Some (slots (psort f L (x # xs)), length (psort f L (x # xs)), h') \<and>
    (\<forall>l \<in> set (psort f L (x # xs)). nseg h' l None)"
  using assms
proof (induction xs arbitrary: L x h)
  case (Nil L x h)
  let ?h = "h\<lparr>nd_next := (nd_next h)(x := None)\<rparr>"
  have l: "\<forall>l \<in> set L. nseg ?h l None" using Nil.prems(1,3) by (auto simp: nseg_cut)
  have "nseg ?h [x] None" by simp
  from carry_loop_result [OF l this, of "[]" f] show ?case using Nil.prems by (subst sort_loop.simps) (auto simp: Let_def)
next
  case (Cons y ys L x h)
  let ?h = "h\<lparr>nd_next := (nd_next h)(x := None)\<rparr>"
  have l: "\<forall>l \<in> set L. nseg ?h l None" using Cons.prems(1,3) by (auto simp: nseg_cut)
  have n: "length (pcarry f L [x]) \<le> NTMPSORT" using Cons.prems(4) length_psort [of "pcarry f L [x]" f "y # ys"] by simp
  have "nseg ?h [x] None" by simp
  from carry_loop_result [OF l this, of "[]" f] obtain h1 where h1: "carry_loop f (length L) 0 (slots L) (Some x) ?h = Some (slots (pcarry f L [x]), length (pcarry f L [x]), h1)"
      "\<forall>l \<in> set (pcarry f L [x]). nseg h1 l None" "\<forall>z. z \<notin> set (concat L) \<union> {x} \<longrightarrow> nd_next h1 z = nd_next ?h z"
    using Cons.prems(3) n by auto
  have "nseg h1 (y # ys) None = nseg h (y # ys) None"
  proof (rule nseg_cong)
    fix z assume "z \<in> set (y # ys)"
    then have "z \<notin> set (concat L) \<union> {x}" using Cons.prems(3) by auto
    then show "nd_next h1 z = nd_next h z" using h1(3) by auto
  qed
  then have yy: "nseg h1 (y # ys) None" using Cons.prems(2) by simp
  have d: "distinct (concat (pcarry f L [x]) @ y # ys)" using distinct_pcarry [of L "[x]" f] Cons.prems(3) set_pcarry [of f L "[x]"] by auto
  have "nd_next h x = Some y" using Cons.prems(2) by simp
  then have "sort_loop f (length L) (slots L) x h = sort_loop f (length (pcarry f L [x])) (slots (pcarry f L [x])) y h1"
    using h1(1) by (subst sort_loop.simps) (simp add: Let_def)
  then show ?case using Cons.IH [OF h1(2) yy d] Cons.prems(4) by simp
qed

text \<open>The slots hold the stable sorts of consecutive pieces, the later the lower the slot, of lengths that are powers of two.\<close>

fun spieces :: "nat list list \<Rightarrow> nat list \<Rightarrow> nat list list" where
  "spieces [] c = [c]"
| "spieces (l # S) c = (if l = [] then c # S else [] # spieces S (l @ c))"

lemma sort_key_empty [simp]: "sort_key f xs = [] \<longleftrightarrow> xs = []"
  by (metis length_0_conv length_sort)

lemma pcarry_pieces: "pcarry f (map (sort_key f) S) (sort_key f c) = map (sort_key f) (spieces S c)"
  by (induction S c rule: spieces.induct) (simp_all add: mrg_sort_key)

lemma concat_spieces: "concat (rev (spieces S c)) = concat (rev S) @ c"
  by (induction S c rule: spieces.induct) simp_all

fun pow_sizes :: "nat \<Rightarrow> nat list list \<Rightarrow> bool" where
  "pow_sizes i [] = True"
| "pow_sizes i (l # S) \<longleftrightarrow> (l = [] \<or> length l = 2 ^ i) \<and> pow_sizes (i + 1) S"

lemma pow_sizes_spieces: "pow_sizes i S \<Longrightarrow> length c = 2 ^ i \<Longrightarrow> pow_sizes i (spieces S c)"
  by (induction S c arbitrary: i rule: spieces.induct) auto

lemma spieces_Nil [simp]: "spieces S c \<noteq> []"
  by (cases S) simp_all

lemma spieces_last: "S = [] \<or> last S \<noteq> [] \<Longrightarrow> c \<noteq> [] \<Longrightarrow> spieces S c \<noteq> [] \<and> last (spieces S c) \<noteq> []"
  by (induction S c rule: spieces.induct) auto

lemma pow_sizes_length: "pow_sizes i S \<Longrightarrow> S \<noteq> [] \<Longrightarrow> last S \<noteq> [] \<Longrightarrow> 2 ^ (i + length S - 1) \<le> length (concat S)"
proof (induction S arbitrary: i)
  case (Cons l S)
  show ?case
  proof (cases "S = []")
    case False
    then have "2 ^ (i + 1 + length S - 1) \<le> length (concat S)" using Cons.IH [of "i + 1"] Cons.prems by simp
    then show ?thesis by simp
  qed (use Cons.prems in auto)
qed simp

lemma psort_pieces:
  assumes "pow_sizes 0 S" "S = [] \<or> last S \<noteq> []"
  shows "\<exists>S'. psort f (map (sort_key f) S) xs = map (sort_key f) S' \<and> concat (rev S') = concat (rev S) @ xs \<and> pow_sizes 0 S' \<and> (S' = [] \<or> last S' \<noteq> [])"
  using assms
proof (induction xs arbitrary: S)
  case (Cons x xs)
  have "pcarry f (map (sort_key f) S) [x] = map (sort_key f) (spieces S [x])" using pcarry_pieces [of f S "[x]"] by simp
  then show ?case using Cons.IH [of "spieces S [x]"] pow_sizes_spieces [of 0 S "[x]"] spieces_last [of S "[x]"] Cons.prems by (auto simp: concat_spieces)
qed auto

lemma merge_rest_result:
  assumes "\<forall>s \<in> set S. nseg h (sort_key f s) None" "nseg h (sort_key f c) None" "distinct (concat S @ c)"
  shows "\<exists>h'. merge_rest f (map (\<lambda>s. hd_opt (sort_key f s)) S) (hd_opt (sort_key f c)) h = Some (hd_opt (sort_key f (concat (rev S) @ c)), h') \<and>
    nseg h' (sort_key f (concat (rev S) @ c)) None"
  using assms
proof (induction S arbitrary: c h)
  case (Cons s S)
  obtain h1 where h1: "listmerge f (hd_opt (sort_key f s)) (hd_opt (sort_key f c)) h = Some (hd_opt (sort_key f (s @ c)), h1)"
      "nseg h1 (sort_key f (s @ c)) None" "\<forall>x. x \<notin> set s \<union> set c \<longrightarrow> nd_next h1 x = nd_next h x"
    using listmerge_result [of h "sort_key f s" "sort_key f c" f] Cons.prems by (auto simp: mrg_sort_key Int_Un_distrib)
  have S: "\<forall>u \<in> set S. nseg h1 (sort_key f u) None"
  proof
    fix u assume u: "u \<in> set S"
    have "nseg h1 (sort_key f u) None = nseg h (sort_key f u) None" by (rule nseg_cong) (use h1(3) u Cons.prems(3) in auto)
    then show "nseg h1 (sort_key f u) None" using Cons.prems(1) u by simp
  qed
  have d: "distinct (concat S @ s @ c)" using Cons.prems(3) by auto
  show ?case using Cons.IH [OF S h1(2) d] h1(1) by simp
qed simp

lemma restore_back_result:
  assumes "nseg h xs None" "distinct xs"
  shows "\<exists>h'. restore_back (hd_opt xs) q h = Some (or_else (last_opt xs) q, h') \<and> dlseg h' q xs None \<and> nd_next h' = nd_next h \<and>
    (\<forall>x. x \<notin> set xs \<longrightarrow> nd_prev h' x = nd_prev h x)"
  using assms
proof (induction xs arbitrary: q h)
  case (Cons x xs)
  let ?h = "h\<lparr>nd_prev := (nd_prev h)(x := q)\<rparr>"
  have "nseg ?h xs None" using Cons.prems(1) nseg_cong [of xs ?h h] by simp
  then obtain h' where h': "restore_back (hd_opt xs) (Some x) ?h = Some (or_else (last_opt xs) (Some x), h')" "dlseg h' (Some x) xs None" "nd_next h' = nd_next h"
      "\<forall>y. y \<notin> set xs \<longrightarrow> nd_prev h' y = nd_prev ?h y"
    using Cons.IH [of ?h "Some x"] Cons.prems(2) by auto
  have "or_else (last_opt (x # xs)) q = or_else (last_opt xs) (Some x)" by (cases xs rule: list_end_cases) (simp_all add: last_opt_Cons)
  then show ?case using h' Cons.prems by (subst restore_back.simps) auto
qed (simp add: restore_back.simps)

lemma dlseg_nseg: "dlseg h pr xs nx \<Longrightarrow> nseg h xs nx"
  by (induction xs arbitrary: pr) auto

lemma sort_rrl_rep:
  assumes rep: "rrl_rep s xs" and len: "length xs < 2 ^ NTMPSORT"
  shows "\<exists>s'. sort_rrl st s = Some s' \<and> lents s' = lents s \<and> rrl_rep s' (sort_key (get_rrlent_ts st (lents s)) xs)"
proof (cases "length xs < 2")
  case True
  then have "sort_key (get_rrlent_ts st (lents s)) xs = xs" by (cases xs; cases "tl xs") auto
  then show ?thesis using rep True by (cases xs; cases "tl xs") (auto simp: sort_rrl_def rrl_rep_def LL_rep_def)
next
  case False
  let ?f = "get_rrlent_ts st (lents s)"
  obtain x y ys where xs: "xs = x # y # ys" using False by (cases xs; cases "tl xs") auto
  have r: "rrset_l s = Some x" "nd_next (links s) x = Some y" "nseg (links s) xs None" "distinct xs"
    using rep xs dlseg_nseg [of "links s" None xs None] by (auto simp: rrl_rep_def LL_rep_def)
  obtain S where S: "psort ?f [] xs = map (sort_key ?f) S" "concat (rev S) = xs" "pow_sizes 0 S" "S = [] \<or> last S \<noteq> []"
    using psort_pieces [of "[]" ?f xs] by auto
  have "S \<noteq> []" using S(2) xs by auto
  then have "2 ^ (length S - 1) \<le> length (concat S)" using pow_sizes_length [OF S(3)] S(4) by simp
  moreover have eq: "mset (concat S) = mset xs"
  proof -
    have "mset (concat (rev T)) = mset (concat T)" for T :: "nat list list" by (induction T) simp_all
    then show ?thesis using S(2) by metis
  qed
  ultimately have "2 ^ (length S - 1) < (2 :: nat) ^ NTMPSORT" using len mset_eq_length [OF eq] by linarith
  then have nS: "length S \<le> NTMPSORT" by simp
  obtain s0 S' where S': "S = s0 # S'" using \<open>S \<noteq> []\<close> by (cases S) auto
  have dS: "distinct (concat S)" using eq r(4) mset_eq_imp_distinct_iff by blast
  obtain h where h: "sort_loop ?f 0 (slots []) x (links s) = Some (slots (map (sort_key ?f) S), length S, h)" "\<forall>l \<in> set (map (sort_key ?f) S). nseg h l None"
    using sort_loop_result [of "[]" "links s" x "y # ys" ?f] r(3,4) S(1) nS xs by auto
  obtain h1 where h1: "merge_rest ?f (map (\<lambda>s. hd_opt (sort_key ?f s)) S') (hd_opt (sort_key ?f s0)) h = Some (hd_opt (sort_key ?f xs), h1)" "nseg h1 (sort_key ?f xs) None"
    using merge_rest_result [of S' h ?f s0] h(2) S' S(2) dS by auto
  obtain h2 where h2: "restore_back (hd_opt (sort_key ?f xs)) None h1 = Some (last_opt (sort_key ?f xs), h2)" "dlseg h2 None (sort_key ?f xs) None"
    using restore_back_result [OF h1(2), of None] r(4) by auto
  have sl: "slots [] = replicate NTMPSORT None" "tl (take (length S) (slots (map (sort_key ?f) S))) = map (\<lambda>s. hd_opt (sort_key ?f s)) S'"
    "slots (map (sort_key ?f) S) ! 0 = hd_opt (sort_key ?f s0)" using S' by (simp_all add: slots_def comp_def)
  have "sort_rrl st s = Some (s\<lparr>rrset_l := hd_opt (sort_key ?f xs), rrset_l_tail := last_opt (sort_key ?f xs), links := h2\<rparr>)"
    using r(1,2) h(1) h1(1) h2(1) sl(2,3) by (simp add: sort_rrl_def Let_def flip: sl(1))
  then show ?thesis using h2(2) r(4) by (simp add: rrl_rep_def LL_rep_def)
qed

subsection \<open>Properties\<close>

lemma insort_key_cong: "f x = g x \<Longrightarrow> \<forall>y \<in> set ys. f y = g y \<Longrightarrow> insort_key f x ys = insort_key g x ys"
  by (induction ys) auto

lemma sort_key_cong: "\<forall>x \<in> set xs. f x = g x \<Longrightarrow> sort_key f xs = sort_key g xs"
  by (induction xs) (auto intro: insort_key_cong)

lemma sort_key_append: "sort_key (f :: nat \<Rightarrow> int) (sort_key f xs @ ys) = sort_key f (xs @ ys)"
  using mrg_sort_key [of f "sort_key f xs" ys] mrg_sort_key [of f xs ys] by (simp add: sort_key_id_if_sorted)

text \<open>Insertion of several new entries, each with its address, record set, domain and index.\<close>

fun insert_all :: "stamps \<Rightarrow> (nat \<times> nat option \<times> nat \<times> int) list \<Rightarrow> rr_list \<Rightarrow> rr_list option" where
  "insert_all st [] s = Some s"
| "insert_all st ((ne, rrs, c, i) # es) s = (case insert_rrl st False (Some ne) rrs c i s of Some (True, _, s') \<Rightarrow> insert_all st es s' | _ \<Rightarrow> None)"

fun new_lents :: "(nat \<times> nat option \<times> nat \<times> int) list \<Rightarrow> (nat \<Rightarrow> rr_lent_t) \<Rightarrow> nat \<Rightarrow> rr_lent_t" where
  "new_lents [] m = m"
| "new_lents ((ne, rrs, c, i) # es) m = new_lents es (m(ne := \<lparr>rrset = rrs, cent = c, idx = i\<rparr>))"

lemma new_lents_other: "x \<notin> set (map fst es) \<Longrightarrow> new_lents es m x = m x"
  by (induction es m rule: new_lents.induct) auto

lemma insert_all_rep:
  assumes "rrl_rep s xs" "distinct (xs @ map fst es)" "insert_sort s \<longrightarrow> sorted (map (get_rrlent_ts st (lents s)) xs)"
  shows "\<exists>s'. insert_all st es s = Some s' \<and> lents s' = new_lents es (lents s) \<and> insert_sort s' = insert_sort s \<and>
    rrl_rep s' (if insert_sort s then sort_key (get_rrlent_ts st (new_lents es (lents s))) (xs @ map fst es) else xs @ map fst es)"
  using assms
proof (induction es arbitrary: s xs)
  case Nil
  then show ?case by (simp add: sort_key_id_if_sorted)
next
  case (Cons e es)
  obtain ne rrs c i where e: "e = (ne, rrs, c, i)" by (cases e)
  define m where "m = (lents s)(ne := \<lparr>rrset = rrs, cent = c, idx = i\<rparr>)"
  let ?f = "get_rrlent_ts st m"
  let ?ys = "if insert_sort s then sort_key ?f (xs @ [ne]) else xs @ [ne]"
  have ne: "ne \<notin> set xs" using Cons.prems(2) e by auto
  have same: "?f x = get_rrlent_ts st (lents s) x" if "x \<noteq> ne" for x using that by (simp add: get_rrlent_ts_def m_def cong: option.case_cong)
  have "map ?f xs = map (get_rrlent_ts st (lents s)) xs"
  proof (rule map_cong [OF refl])
    fix x assume "x \<in> set xs"
    then have "x \<noteq> ne" using ne by blast
    then show "?f x = get_rrlent_ts st (lents s) x" by (rule same)
  qed
  then have srt: "insert_sort s \<longrightarrow> sorted (map ?f xs)" using Cons.prems(3) by (simp only:)
  obtain s1 where s1: "insert_rrl st False (Some ne) rrs c i s = Some (True, Some ne, s1)" "lents s1 = m" "insert_sort s1 = insert_sort s" "rrl_rep s1 ?ys"
    using insert_rrl_rep [OF Cons.prems(1) ne m_def srt] by blast
  have d: "distinct (?ys @ map fst es)" using Cons.prems(2) e by auto
  obtain s' where s': "insert_all st es s1 = Some s'" "lents s' = new_lents es m" "insert_sort s' = insert_sort s"
      "rrl_rep s' (if insert_sort s then sort_key (get_rrlent_ts st (new_lents es m)) (?ys @ map fst es) else ?ys @ map fst es)"
  proof -
    have "insert_sort s1 \<longrightarrow> sorted (map (get_rrlent_ts st (lents s1)) ?ys)" using s1(2,3) by simp
    from Cons.IH [OF s1(4) d this] show ?thesis using that s1(2,3) by auto
  qed
  have "sort_key (get_rrlent_ts st (new_lents es m)) (xs @ [ne]) = sort_key ?f (xs @ [ne])"
  proof (rule sort_key_cong, rule ballI)
    fix x assume "x \<in> set (xs @ [ne])"
    then have "new_lents es m x = m x" using Cons.prems(2) e by (intro new_lents_other) auto
    then show "get_rrlent_ts st (new_lents es m) x = ?f x" by (simp add: get_rrlent_ts_def cong: option.case_cong)
  qed
  then have "sort_key (get_rrlent_ts st (new_lents es m)) (sort_key ?f (xs @ [ne]) @ map fst es) = sort_key (get_rrlent_ts st (new_lents es m)) (xs @ map fst (e # es))"
    using sort_key_append [of "get_rrlent_ts st (new_lents es m)" "xs @ [ne]" "map fst es"] e by simp
  then have "rrl_rep s' (if insert_sort s then sort_key (get_rrlent_ts st (new_lents (e # es) (lents s))) (xs @ map fst (e # es)) else xs @ map fst (e # es))"
    using s'(4) e by (cases "insert_sort s") (simp_all add: m_def [symmetric])
  moreover have "insert_all st (e # es) s = Some s'" "lents s' = new_lents (e # es) (lents s)" using s1(1) s'(1,2) e by (simp_all add: m_def)
  ultimately show ?case using s'(3) by blast
qed

text \<open>C23. The list of record sets has the same order in whichever way it is built: inserting entries one after the other into a
  sorted list at the place of their time stamp, and appending them all and then sorting (as when the disk cache is read), both
  end and both give the stable sort by time stamp, with forward and backward links intact, for lists of less than 2^32 entries (beyond which
  the array of the merge sort would overflow).\<close>

theorem rrl_load_equivalent:
  assumes "rrl_rep s xs" "distinct (xs @ map fst es)" "insert_sort s" "sorted (map (get_rrlent_ts st (lents s)) xs)" "length xs + length es < 2 ^ NTMPSORT"
  shows "\<exists>s1 s2. insert_all st es s = Some s1 \<and> Option.bind (insert_all st es (s\<lparr>insert_sort := False\<rparr>)) (sort_rrl st) = Some s2 \<and> lents s1 = lents s2 \<and>
    rrl_rep s1 (sort_key (get_rrlent_ts st (lents s1)) (xs @ map fst es)) \<and> rrl_rep s2 (sort_key (get_rrlent_ts st (lents s1)) (xs @ map fst es))"
proof -
  obtain s1 where s1: "insert_all st es s = Some s1" "lents s1 = new_lents es (lents s)" "rrl_rep s1 (sort_key (get_rrlent_ts st (lents s1)) (xs @ map fst es))"
    using insert_all_rep [OF assms(1,2), of st] assms(3,4) by auto
  have "rrl_rep (s\<lparr>insert_sort := False\<rparr>) xs" using assms(1) by (simp add: rrl_rep_def)
  from insert_all_rep [OF this assms(2), of st] obtain s' where s': "insert_all st es (s\<lparr>insert_sort := False\<rparr>) = Some s'"
      "lents s' = new_lents es (lents s)" "rrl_rep s' (xs @ map fst es)" by auto
  obtain s2 where "sort_rrl st s' = Some s2" "lents s2 = lents s'" "rrl_rep s2 (sort_key (get_rrlent_ts st (lents s')) (xs @ map fst es))"
    using sort_rrl_rep [OF s'(3), of st] assms(5) by auto
  then show ?thesis using s1 s' by auto
qed

definition ex_rrl :: rr_list where
  "ex_rrl = \<lparr>rrset_l = None, rrset_l_tail = None, links = \<lparr>nd_prev = \<lambda>_. None, nd_next = \<lambda>_. None\<rparr>,
     lents = \<lambda>_. \<lparr>rrset = None, cent = 0, idx = -1\<rparr>, insert_sort = True\<rparr>"

definition ex_rrl_new :: "(nat \<times> nat option \<times> nat \<times> int) list" where
  "ex_rrl_new = [(1, Some 10, 5, 0), (2, Some 11, 5, 1), (3, None, 6, -1)]"

theorem rrl_load_equivalent_witness:
  "\<exists>s1 s2. insert_all (\<lambda>r. if r = 10 then 7 else 3, \<lambda>_. 3) ex_rrl_new ex_rrl = Some s1 \<and>
    Option.bind (insert_all (\<lambda>r. if r = 10 then 7 else 3, \<lambda>_. 3) ex_rrl_new (ex_rrl\<lparr>insert_sort := False\<rparr>)) (sort_rrl (\<lambda>r. if r = 10 then 7 else 3, \<lambda>_. 3)) = Some s2 \<and>
    rrl_rep s1 [2, 3, 1] \<and> rrl_rep s2 [2, 3, 1]"
proof -
  let ?st = "(\<lambda>r. if r = 10 then 7 else 3, \<lambda>_. 3) :: stamps"
  have h: "rrl_rep ex_rrl []" "distinct ([] @ map fst ex_rrl_new)" "insert_sort ex_rrl" "sorted (map (get_rrlent_ts ?st (lents ex_rrl)) [])"
    "length ([] :: nat list) + length ex_rrl_new < 2 ^ NTMPSORT"
    by (simp_all add: rrl_rep_def LL_rep_def ex_rrl_def ex_rrl_new_def NTMPSORT_def)
  from rrl_load_equivalent [OF h] obtain s1 s2 where s: "insert_all ?st ex_rrl_new ex_rrl = Some s1"
    "Option.bind (insert_all ?st ex_rrl_new (ex_rrl\<lparr>insert_sort := False\<rparr>)) (sort_rrl ?st) = Some s2" 
    "rrl_rep s1 (sort_key (get_rrlent_ts ?st (lents s1)) ([] @ map fst ex_rrl_new))" "rrl_rep s2 (sort_key (get_rrlent_ts ?st (lents s1)) ([] @ map fst ex_rrl_new))" by blast
  have "lents s1 = new_lents ex_rrl_new (lents ex_rrl)" using insert_all_rep [OF h(1,2), of ?st] s(1) by auto
  then have "sort_key (get_rrlent_ts ?st (lents s1)) ([] @ map fst ex_rrl_new) = [2, 3, 1]" by (simp add: ex_rrl_new_def get_rrlent_ts_def)
  then show ?thesis using s by auto
qed

end
